(* ===== verification/Prelude.thy ===== *)
theory Prelude
  imports "HOL-Library.Word"
begin

text \<open>
  What every theory of the development shares: the machine types of the code
  (bytes, \<open>uint32_t\<close>, \<open>uint64_t\<close>), the result type that carries a call to
  \<open>Ocall_SGX_Exit_Error\<close> / \<open>exit\<close> or an undefined behaviour as a value, the little-endian
  layout in which \<open>memcpy\<close> moves integers, \<open>memcpy\<close> into a buffer, and generic lemmas.
\<close>

unbundle bit_operations_syntax

section \<open>Machine types\<close>

type_synonym byte = "8 word"
type_synonym bytes = "8 word list"
type_synonym u32 = "32 word"
type_synonym u64 = "64 word"

section \<open>Results\<close>

text \<open>
  \<open>ProcExit\<close> is a call of \<open>Ocall_SGX_Exit_Error\<close> or \<open>exit(EXIT_FAILURE)\<close> with the text it logs;
  \<open>Undefined\<close> is an access the C++ language leaves undefined; \<open>Diverges\<close> is a loop whose fuel ran
  out, which the termination theorems exclude.
\<close>

datatype fault = ProcExit string | Undefined string | Diverges

type_synonym 'a res = "fault + 'a"

definition rbind :: "'a res \<Rightarrow> ('a \<Rightarrow> 'b res) \<Rightarrow> 'b res" where
  "rbind m f = (case m of Inl e \<Rightarrow> Inl e | Inr x \<Rightarrow> f x)"

lemma rbind_Inl [simp]: "rbind (Inl e) f = Inl e"
  by (simp add: rbind_def)

lemma rbind_Inr [simp]: "rbind (Inr x) f = f x"
  by (simp add: rbind_def)

lemma rbind_eq_Inr: "rbind m f = Inr y \<longleftrightarrow> (\<exists>x. m = Inr x \<and> f x = Inr y)"
  by (cases m) simp_all

lemma rbind_cong [fundef_cong]:
  "m = m' \<Longrightarrow> (\<And>x. m' = Inr x \<Longrightarrow> f x = g x) \<Longrightarrow> rbind m f = rbind m' g"
  by (cases m') simp_all

lemma rbind_InrE:
  assumes "rbind m f = Inr y"
  obtains x where "m = Inr x" and "f x = Inr y"
  using assms by (auto simp: rbind_eq_Inr)

text \<open>Running a fallible step over a list from the left, as a \<open>for\<close> loop does.\<close>

primrec rfold :: "('a \<Rightarrow> 's \<Rightarrow> 's res) \<Rightarrow> 'a list \<Rightarrow> 's \<Rightarrow> 's res" where
  "rfold f [] s = Inr s"
| "rfold f (x # xs) s = rbind (f x s) (rfold f xs)"

lemma rbind_assoc: "rbind (rbind a f) g = rbind a (\<lambda>x. rbind (f x) g)"
  by (cases a) (simp_all add: rbind_def)

lemma rfold_append: "rfold f (xs @ ys) s = rbind (rfold f xs s) (rfold f ys)"
  by (induction xs arbitrary: s) (auto simp: rbind_def split: sum.split)

lemma rfold_invariant:
  assumes "P s" and "\<And>x s. x \<in> set xs \<Longrightarrow> P s \<Longrightarrow> \<exists>s'. f x s = Inr s' \<and> P s'"
  shows "\<exists>s'. rfold f xs s = Inr s' \<and> P s'"
  using assms
proof (induction xs arbitrary: s)
  case Nil
  then show ?case by simp
next
  case (Cons x xs)
  from Cons.prems(2) [of x s] Cons.prems(1) obtain s1 where "f x s = Inr s1" and "P s1"
    by auto
  with Cons.IH [of s1] Cons.prems(2) show ?case by auto
qed

section \<open>Little-endian integers\<close>

primrec le_bytes :: "nat \<Rightarrow> nat \<Rightarrow> bytes" where
  "le_bytes 0 v = []"
| "le_bytes (Suc n) v = of_nat (v mod 256) # le_bytes n (v div 256)"

primrec le_val :: "bytes \<Rightarrow> nat" where
  "le_val [] = 0"
| "le_val (b # bs) = unat b + 256 * le_val bs"

lemma length_le_bytes [simp]: "length (le_bytes n v) = n"
  by (induction n arbitrary: v) simp_all

lemma le_val_le_bytes: "le_val (le_bytes n v) = v mod 256 ^ n"
proof (induction n arbitrary: v)
  case 0
  then show ?case by simp
next
  case (Suc n)
  have "v mod 256 ^ Suc n = v mod 256 + 256 * (v div 256 mod 256 ^ n)"
    by (simp add: mod_mult2_eq)
  with Suc show ?case by (simp add: unat_of_nat)
qed

lemma le_val_bound: "le_val bs < 256 ^ length bs"
proof (induction bs)
  case Nil
  then show ?case by simp
next
  case (Cons b bs)
  have "unat b < 256" using unsigned_less [where ?w = b and ?'a = nat] by simp
  moreover have "256 * le_val bs + 256 \<le> 256 * 256 ^ length bs" using Cons by simp
  ultimately show ?case by simp
qed

lemma le_bytes_le_val: "le_bytes (length bs) (le_val bs) = bs"
proof (induction bs)
  case Nil
  then show ?case by simp
next
  case (Cons b bs)
  have "unat b < 256" using unsigned_less [where ?w = b and ?'a = nat] by simp
  with Cons show ?case by simp
qed

definition u32_bytes :: "u32 \<Rightarrow> bytes" where
  "u32_bytes w = le_bytes 4 (unat w)"

definition bytes_u32 :: "bytes \<Rightarrow> u32" where
  "bytes_u32 bs = of_nat (le_val (take 4 bs))"

definition u64_bytes :: "u64 \<Rightarrow> bytes" where
  "u64_bytes w = le_bytes 8 (unat w)"

definition bytes_u64 :: "bytes \<Rightarrow> u64" where
  "bytes_u64 bs = of_nat (le_val (take 8 bs))"

lemma length_u32_bytes [simp]: "length (u32_bytes w) = 4"
  by (simp add: u32_bytes_def)

lemma length_u64_bytes [simp]: "length (u64_bytes w) = 8"
  by (simp add: u64_bytes_def)

lemma u32_bytes_not_Nil [simp]: "u32_bytes w \<noteq> []"
  by (metis length_u32_bytes list.size(3) zero_neq_numeral)

lemma bytes_u32_append [simp]: "bytes_u32 (u32_bytes w @ rest) = w"
proof -
  have "unat w < 2 ^ 32" using unsigned_less [where ?w = w and ?'a = nat] by simp
  then show ?thesis by (simp add: bytes_u32_def u32_bytes_def le_val_le_bytes)
qed

lemma bytes_u64_append [simp]: "bytes_u64 (u64_bytes w @ rest) = w"
proof -
  have "unat w < 2 ^ 64" using unsigned_less [where ?w = w and ?'a = nat] by simp
  then show ?thesis by (simp add: bytes_u64_def u64_bytes_def le_val_le_bytes)
qed

lemma bytes_u32_u32_bytes [simp]: "bytes_u32 (u32_bytes w) = w"
  using bytes_u32_append [of w "[]"] by simp

lemma bytes_u64_u64_bytes [simp]: "bytes_u64 (u64_bytes w) = w"
  using bytes_u64_append [of w "[]"] by simp

lemma u32_bytes_bytes_u32: "length bs = 4 \<Longrightarrow> u32_bytes (bytes_u32 bs) = bs"
  using le_val_bound [of bs] le_bytes_le_val [of bs]
  by (simp add: u32_bytes_def bytes_u32_def unat_of_nat)

lemma u64_bytes_bytes_u64: "length bs = 8 \<Longrightarrow> u64_bytes (bytes_u64 bs) = bs"
  using le_val_bound [of bs] le_bytes_le_val [of bs]
  by (simp add: u64_bytes_def bytes_u64_def unat_of_nat)

section \<open>Buffers\<close>

text \<open>
  A heap buffer is the list of the bytes written to it so far, from its start.
  \<open>memcpy_at buf off d\<close> is \<open>memcpy(buf + off, d, length d)\<close>; a gap that was never written reads as
  zero; where a definition leaves one, in a key recipe or a key request, the lemmas show that it is filled before it is read,
  or never read.
\<close>

definition memcpy_at :: "bytes \<Rightarrow> nat \<Rightarrow> bytes \<Rightarrow> bytes" where
  "memcpy_at buf off d =
     take off buf @ replicate (off - length buf) 0 @ d @ drop (off + length d) buf"

definition read_at :: "bytes \<Rightarrow> nat \<Rightarrow> nat \<Rightarrow> bytes" where
  "read_at buf off n = take n (drop off buf)"

lemma length_memcpy_at [simp]:
  "length (memcpy_at buf off d) = max (length buf) (off + length d)"
  by (simp add: memcpy_at_def)

lemma read_memcpy_same [simp]: "read_at (memcpy_at buf off d) off (length d) = d"
  by (simp add: read_at_def memcpy_at_def)

lemma read_memcpy_before:
  assumes "o' + n \<le> off" and "o' + n \<le> length buf"
  shows "read_at (memcpy_at buf off d) o' n = read_at buf o' n"
proof -
  have "memcpy_at buf off d = take (o' + n) buf @
      drop (o' + n) (take off buf) @ replicate (off - length buf) 0 @ d @ drop (off + length d) buf"
  proof -
    have "take off buf = take (o' + n) buf @ drop (o' + n) (take off buf)"
      using assms(1) by (metis append_take_drop_id min.absorb2 take_take min.commute)
    then show ?thesis unfolding memcpy_at_def by simp
  qed
  then show ?thesis using assms by (simp add: read_at_def take_drop min_absorb1 add.commute)
qed

lemma take_memcpy_at:
  assumes "n \<le> off" and "off \<le> length buf"
  shows "take n (memcpy_at buf off d) = take n buf"
  using assms by (simp add: memcpy_at_def)

section \<open>Words as bounded naturals\<close>

lemma unat_less_pow32 [simp]: "unat (w :: u32) < 4294967296"
  using unsigned_less [where ?w = w and ?'a = nat] by simp

lemma unat_add_u32:
  "unat (a :: u32) + unat b < 4294967296 \<Longrightarrow> unat (a + b) = unat a + unat b"
  by (simp add: unat_word_ariths)

lemma unat_plus_one_le: "unat (w + 1 :: u32) \<le> Suc (unat w)"
  by (simp add: unat_word_ariths)

lemma unat_of_nat_u32: "n < 4294967296 \<Longrightarrow> unat (of_nat n :: u32) = n"
  by (simp add: unat_of_nat)

lemma unat_of_nat_u64: "n < 18446744073709551616 \<Longrightarrow> unat (of_nat n :: u64) = n"
  by (simp add: unat_of_nat)

lemma unat_mod_u32: "unat (a mod b :: u32) = unat a mod unat b"
  by (simp add: unat_mod)

lemma unat_div_u32: "unat (a div b :: u32) = unat a div unat b"
  by (simp add: unat_div)

lemma map_update_same: "j < length xs \<Longrightarrow> f y = f (xs ! j) \<Longrightarrow> map f (xs[j := y]) = map f xs"
  by (simp add: map_update) (metis length_map list_update_id nth_map)

lemma ran_upd_ball: "\<forall>b \<in> ran m. P b \<Longrightarrow> P v \<Longrightarrow> \<forall>b \<in> ran (m(k \<mapsto> v)). P b"
  by (auto simp: ran_def split: if_splits)

text \<open>Blocks of equal size.\<close>

lemma read_at_concat:
  assumes "\<forall>x \<in> set xs. length x = k" and "i < length xs"
  shows "read_at (concat xs @ ys) (i * k) k = xs ! i"
  using assms
proof (induction xs arbitrary: i)
  case Nil
  then show ?case by simp
next
  case (Cons x xs)
  then show ?case by (cases i) (simp_all add: read_at_def)
qed

lemma read_at_take_concat:
  assumes "\<forall>x \<in> set xs. length x = k" and "take (length xs * k) buf = concat xs" and "i < length xs"
  shows "read_at buf (i * k) k = xs ! i"
  using read_at_concat [OF assms(1,3), of "drop (length xs * k) buf"] assms(2)
  by (metis append_take_drop_id)

lemma length_concat_blocks: "\<forall>x \<in> set xs. length x = k \<Longrightarrow> length (concat xs) = length xs * k"
  by (induction xs) simp_all

end
