(* ===== verification/Structures.thy ===== *)
theory Structures
  imports Prelude
begin

text \<open>
  The constants and enumerations of \<open>include/constVar.h\<close>, the structures of
  \<open>include/chunkStructure.h\<close> that cross component boundaries, with their byte layout, and the
  helpers of \<open>include/define.h\<close>.
\<close>

named_theorems const_defs \<open>the values of the program's constants\<close>

section \<open>Constants\<close>

definition CRYPTO_BLOCK_SIZE :: nat where
  "CRYPTO_BLOCK_SIZE = 16"

definition CHUNK_HASH_SIZE :: nat where
  "CHUNK_HASH_SIZE = 32"

definition MIN_CHUNK_SIZE :: u32 where
  "MIN_CHUNK_SIZE = 4096"

definition AVG_CHUNK_SIZE :: u32 where
  "AVG_CHUNK_SIZE = 8192"

definition MAX_CHUNK_SIZE :: u32 where
  "MAX_CHUNK_SIZE = 16384"

definition AVG_SEGMENT_SIZE :: u32 where
  "AVG_SEGMENT_SIZE = 1024 * 1024 * 10"

definition MIN_SEGMENT_SIZE :: u32 where
  "MIN_SEGMENT_SIZE = AVG_SEGMENT_SIZE div 2"

definition MAX_SEGMENT_SIZE :: u32 where
  "MAX_SEGMENT_SIZE = AVG_SEGMENT_SIZE * 2"

definition DIVISOR :: u32 where
  "DIVISOR = (AVG_SEGMENT_SIZE - MIN_SEGMENT_SIZE) div AVG_CHUNK_SIZE"

definition PATTERN :: u32 where
  "PATTERN = 1"

definition MAX_CONTAINER_SIZE :: u32 where
  "MAX_CONTAINER_SIZE = push_bit 22 1"

definition CONTAINER_ID_LENGTH :: nat where
  "CONTAINER_ID_LENGTH = 8"

definition SEGMENT_ID_LENGTH :: nat where
  "SEGMENT_ID_LENGTH = 16"

definition SPARSE_SAMPLE_RATE :: nat where
  "SPARSE_SAMPLE_RATE = 6"

definition SPARSE_CHAMPION_NUM :: nat where
  "SPARSE_CHAMPION_NUM = 10"

definition SPARSE_MANIFIEST_CAP_NUM :: nat where
  "SPARSE_MANIFIEST_CAP_NUM = 10"

definition CONTAINER_CAPPING_VALUE :: nat where
  "CONTAINER_CAPPING_VALUE = 16"

definition SGX_PERSISTENCE_BUFFER_SIZE :: nat where
  "SGX_PERSISTENCE_BUFFER_SIZE = 2 * 1024 * 1024"

lemma MIN_SEGMENT_SIZE_val [const_defs]: "MIN_SEGMENT_SIZE = 5242880"
  by (simp add: MIN_SEGMENT_SIZE_def AVG_SEGMENT_SIZE_def)

lemma MAX_SEGMENT_SIZE_val [const_defs]: "MAX_SEGMENT_SIZE = 20971520"
  by (simp add: MAX_SEGMENT_SIZE_def AVG_SEGMENT_SIZE_def)

lemma DIVISOR_val [const_defs]: "DIVISOR = 640"
  by (simp add: DIVISOR_def MIN_SEGMENT_SIZE_def AVG_SEGMENT_SIZE_def AVG_CHUNK_SIZE_def)

lemma MAX_CONTAINER_SIZE_val [const_defs]: "MAX_CONTAINER_SIZE = 4194304"
  by (simp add: MAX_CONTAINER_SIZE_def push_bit_eq_mult)

lemmas [const_defs] = CRYPTO_BLOCK_SIZE_def CHUNK_HASH_SIZE_def MIN_CHUNK_SIZE_def
  AVG_CHUNK_SIZE_def MAX_CHUNK_SIZE_def PATTERN_def CONTAINER_ID_LENGTH_def
  SEGMENT_ID_LENGTH_def SPARSE_SAMPLE_RATE_def SPARSE_CHAMPION_NUM_def
  SPARSE_MANIFIEST_CAP_NUM_def CONTAINER_CAPPING_VALUE_def SGX_PERSISTENCE_BUFFER_SIZE_def

section \<open>Enumerations\<close>

datatype cipher_type = AES_256_GCM | AES_128_GCM | AES_256_CFB | AES_128_CFB
datatype hash_type = SHA_256 | MD5 | SHA_1
datatype two_path_status = UNIQUE | TMP_UNIQUE | DUPLICATE | TMP_DUPLICATE
datatype index_type = OUT_ENCLAVE | IN_ENCLAVE | EXTREME_BIN | SPARSE_INDEX | FREQ_INDEX
datatype opt_type = UPLOAD_OPT | DOWNLOAD_OPT | RA_OPT

text \<open>
  The last four codes are those of the program in \<open>src/Baseline\<close> that the prototype does not have; its
  enumeration lacks the ones for SGX. Both programs only compare codes.
\<close>

datatype protocol_code =
    CLIENT_UPLOAD_CHUNK | CLIENT_UPLOAD_RECIPE_END
  | CLIENT_LOGIN_UPLOAD | CLIENT_LOGIN_DOWNLOAD | CLIENT_RESTORE_READY
  | SERVER_RESTORE_CHUNK | SERVER_RESTORE_FINAL
  | SERVER_LOGIN_RESPONSE | SERVER_FILE_NON_EXIST | SGX_RA_MSG01 | SGX_RA_MSG2
  | SGX_RA_MSG3 | SGX_RA_MSG4 | SGX_RA_NEED | SGX_RA_NOT_NEED | SGX_RA_NOT_SUPPORT
  | SESSION_KEY_INIT | SESSION_KEY_REPLY
  | CLIENT_UPLOAD_RECIPE | SERVER_RESTORE_RECIPE | CLIENT_KEY_GEN | KEY_MANAGER_KEY_GEN_REPLY

section \<open>Recipe entries and file recipe heads\<close>

record recipe_entry =
  containerName :: bytes
  re_offset :: u32
  re_length :: u32

definition RecipeEntry_bytes :: "recipe_entry \<Rightarrow> bytes" where
  "RecipeEntry_bytes e = containerName e @ u32_bytes (re_offset e) @ u32_bytes (re_length e)"

definition RecipeEntry_of_bytes :: "bytes \<Rightarrow> recipe_entry" where
  "RecipeEntry_of_bytes bs =
     \<lparr>containerName = take CONTAINER_ID_LENGTH bs,
      re_offset = bytes_u32 (drop CONTAINER_ID_LENGTH bs),
      re_length = bytes_u32 (drop (CONTAINER_ID_LENGTH + 4) bs)\<rparr>"

abbreviation RecipeEntry_size :: nat where
  "RecipeEntry_size \<equiv> 16"

definition wf_entry :: "recipe_entry \<Rightarrow> bool" where
  "wf_entry e \<longleftrightarrow> length (containerName e) = CONTAINER_ID_LENGTH"

lemma length_RecipeEntry_bytes [simp]:
  "wf_entry e \<Longrightarrow> length (RecipeEntry_bytes e) = RecipeEntry_size"
  by (simp add: wf_entry_def RecipeEntry_bytes_def const_defs)

lemma RecipeEntry_roundtrip [simp]:
  "wf_entry e \<Longrightarrow> RecipeEntry_of_bytes (RecipeEntry_bytes e @ rest) = e"
  by (simp add: wf_entry_def RecipeEntry_bytes_def RecipeEntry_of_bytes_def const_defs)

lemma RecipeEntry_roundtrip_exact [simp]:
  "wf_entry e \<Longrightarrow> RecipeEntry_of_bytes (RecipeEntry_bytes e) = e"
  using RecipeEntry_roundtrip [of e "[]"] by simp

lemma RecipeEntry_bytes_of_bytes:
  assumes "length bs = RecipeEntry_size"
  shows "RecipeEntry_bytes (RecipeEntry_of_bytes bs) = bs"
proof -
  have a: "bytes_u32 (drop 8 bs) = bytes_u32 (take 4 (drop 8 bs))"
    by (simp add: bytes_u32_def)
  have b: "u32_bytes (bytes_u32 (take 4 (drop 8 bs))) = take 4 (drop 8 bs)"
    by (rule u32_bytes_bytes_u32) (simp add: assms)
  have c: "u32_bytes (bytes_u32 (drop 12 bs)) = drop 12 bs"
    by (rule u32_bytes_bytes_u32) (simp add: assms)
  have d: "take 4 (drop 8 bs) @ drop 12 bs = drop 8 bs"
    using append_take_drop_id [of 4 "drop 8 bs"] by simp
  show ?thesis
    by (simp add: RecipeEntry_bytes_def RecipeEntry_of_bytes_def const_defs a b c d)
qed

lemma wf_entry_of_bytes [simp]:
  "CONTAINER_ID_LENGTH \<le> length bs \<Longrightarrow> wf_entry (RecipeEntry_of_bytes bs)"
  by (simp add: wf_entry_def RecipeEntry_of_bytes_def)

record file_recipe_head =
  fileSize :: u64
  totalChunkNum :: u64

definition FileRecipeHead_bytes :: "file_recipe_head \<Rightarrow> bytes" where
  "FileRecipeHead_bytes h = u64_bytes (fileSize h) @ u64_bytes (totalChunkNum h)"

definition FileRecipeHead_of_bytes :: "bytes \<Rightarrow> file_recipe_head" where
  "FileRecipeHead_of_bytes bs =
     \<lparr>fileSize = bytes_u64 bs, totalChunkNum = bytes_u64 (drop 8 bs)\<rparr>"

lemma length_FileRecipeHead_bytes [simp]: "length (FileRecipeHead_bytes h) = 16"
  by (simp add: FileRecipeHead_bytes_def)

lemma FileRecipeHead_roundtrip [simp]:
  "FileRecipeHead_of_bytes (FileRecipeHead_bytes h @ rest) = h"
  by (simp add: FileRecipeHead_bytes_def FileRecipeHead_of_bytes_def)

section \<open>Helpers of define.h\<close>

definition CompareLimit :: "u32 \<Rightarrow> u32 \<Rightarrow> u32 \<Rightarrow> u32" where
  "CompareLimit input lower upper =
     (if input \<le> lower then lower else if input \<ge> upper then upper else input)"

definition DivCeil :: "u32 \<Rightarrow> u32 \<Rightarrow> u32" where
  "DivCeil a b = (let tmp = a div b in if a mod b = 0 then tmp else tmp + 1)"

definition ALPHABET :: bytes where
  "ALPHABET = map (of_nat \<circ> of_char) ''abcdefghijklmnopqrstuvwxyz0123456789''"

text \<open>
  \<open>rand()\<close> is the C library's generator: the parameter \<open>rnd\<close> gives its i-th value, and the caller's
  state holds how many values were drawn.
\<close>

definition CreateUUID :: "(nat \<Rightarrow> nat) \<Rightarrow> nat \<Rightarrow> nat \<Rightarrow> bytes \<times> nat" where
  "CreateUUID rnd pos idLen =
     (map (\<lambda>i. ALPHABET ! (rnd (pos + i) mod length ALPHABET)) [0..<idLen], pos + idLen)"

lemma length_CreateUUID [simp]: "length (fst (CreateUUID rnd pos n)) = n"
  by (simp add: CreateUUID_def)

lemma snd_CreateUUID [simp]: "snd (CreateUUID rnd pos n) = pos + n"
  by (simp add: CreateUUID_def)

lemma CompareLimit_bounds:
  "lower \<le> upper \<Longrightarrow> lower \<le> CompareLimit x lower upper \<and> CompareLimit x lower upper \<le> upper"
  by (auto simp: CompareLimit_def)

lemma unat_DivCeil:
  assumes "b \<noteq> 0"
  shows "unat (DivCeil a b) = (unat a + unat b - 1) div unat b"
proof -
  have b0: "0 < unat b" using assms by (simp add: unat_gt_0)
  have m: "a mod b = 0 \<longleftrightarrow> unat a mod unat b = 0"
    by (metis unat_eq_0 unat_mod_u32)
  show ?thesis
  proof (cases "unat a mod unat b = 0")
    case True
    then obtain q where q: "unat a = unat b * q" by (auto simp: mod_eq_0_iff_dvd dvd_def)
    have "(unat b * q + unat b - 1) div unat b = q"
      by (rule div_nat_eqI) (use b0 in \<open>simp_all add: algebra_simps\<close>)
    with True q b0 m show ?thesis by (simp add: DivCeil_def unat_div_u32)
  next
    case False
    have r: "0 < unat a mod unat b" using False by simp
    then have a0: "0 < unat a" by (metis mod_0 not_gr_zero)
    have "unat a + unat b - 1 = unat b * (unat a div unat b + 1) + (unat a mod unat b - 1)"
      using r a0 by (simp add: algebra_simps)
    moreover have "unat a mod unat b - 1 < unat b"
      using b0 by (meson less_imp_diff_less mod_less_divisor)
    ultimately have e: "(unat a + unat b - 1) div unat b = unat a div unat b + 1"
      by (intro div_nat_eqI) (simp_all add: algebra_simps)
    have "unat b \<noteq> 1" using False by auto
    then have "unat a div unat b \<le> unat a div 2"
      using b0 by (intro div_le_mono2) auto
    then have "unat a div unat b < 4294967295"
      using unat_less_pow32 [of a] by linarith
    then have "unat (a div b + 1) = unat a div unat b + 1"
      by (subst unat_add_u32) (simp_all add: unat_div_u32)
    with e False m show ?thesis by (simp add: DivCeil_def Let_def)
  qed
qed

end
