(* ===== verification/HeapOrder.thy ===== *)
theory HeapOrder
  imports Prelude
begin

text \<open>
  Binary min-heaps stored in an array: the order of a list seen as a complete binary tree, and the
  two almost-heap states that sifting an element up or down goes through. Used by the top-k index
  of the enclave.
\<close>

definition par :: "nat \<Rightarrow> nat" where
  "par i = (i - 1) div 2"

definition lswap :: "'a list \<Rightarrow> nat \<Rightarrow> nat \<Rightarrow> 'a list" where
  "lswap xs i j = xs[i := xs ! j, j := xs ! i]"

definition min_heap :: "'a :: linorder list \<Rightarrow> bool" where
  "min_heap xs \<longleftrightarrow> (\<forall>i. 0 < i \<and> i < length xs \<longrightarrow> xs ! par i \<le> xs ! i)"

text \<open>A heap up to the element at \<open>k\<close>, which may be out of order with its parent and children.\<close>

definition heap_exc :: "'a :: linorder list \<Rightarrow> nat \<Rightarrow> bool" where
  "heap_exc xs k \<longleftrightarrow>
     (\<forall>i. 0 < i \<and> i < length xs \<and> i \<noteq> k \<and> par i \<noteq> k \<longrightarrow> xs ! par i \<le> xs ! i) \<and>
     (\<forall>c. 0 < c \<and> c < length xs \<and> par c = k \<and> 0 < k \<longrightarrow> xs ! par k \<le> xs ! c)"

definition up_ok :: "'a :: linorder list \<Rightarrow> nat \<Rightarrow> bool" where
  "up_ok xs k \<longleftrightarrow> (0 < k \<longrightarrow> xs ! par k \<le> xs ! k)"

definition down_ok :: "'a :: linorder list \<Rightarrow> nat \<Rightarrow> bool" where
  "down_ok xs k \<longleftrightarrow> (\<forall>c. 0 < c \<and> c < length xs \<and> par c = k \<longrightarrow> xs ! k \<le> xs ! c)"

lemma par_less: "0 < i \<Longrightarrow> par i < i"
  by (simp add: par_def)

lemma par_neq: "0 < i \<Longrightarrow> par i \<noteq> i"
  by (drule par_less) simp

lemma par_le: "par i \<le> i"
  by (simp add: par_def)

lemma par_eq_iff: "0 < c \<Longrightarrow> par c = k \<longleftrightarrow> c = 2 * k + 1 \<or> c = 2 * k + 2"
  by (auto simp: par_def)

lemma length_lswap [simp]: "length (lswap xs i j) = length xs"
  by (simp add: lswap_def)

lemma nth_lswap:
  "i < length xs \<Longrightarrow> j < length xs \<Longrightarrow> n < length xs \<Longrightarrow>
   lswap xs i j ! n = (if n = j then xs ! i else if n = i then xs ! j else xs ! n)"
  by (simp add: lswap_def nth_list_update)

lemma set_lswap [simp]: "i < length xs \<Longrightarrow> j < length xs \<Longrightarrow> set (lswap xs i j) = set xs"
  by (simp add: lswap_def)

lemma distinct_lswap [simp]:
  "i < length xs \<Longrightarrow> j < length xs \<Longrightarrow> distinct (lswap xs i j) = distinct xs"
  by (simp add: lswap_def)

lemma map_lswap:
  "i < length xs \<Longrightarrow> j < length xs \<Longrightarrow> map f (lswap xs i j) = lswap (map f xs) i j"
  by (simp add: lswap_def map_update)

lemma heap_excD1:
  "heap_exc xs k \<Longrightarrow> 0 < i \<Longrightarrow> i < length xs \<Longrightarrow> i \<noteq> k \<Longrightarrow> par i \<noteq> k \<Longrightarrow> xs ! par i \<le> xs ! i"
  by (simp add: heap_exc_def)

lemma heap_excD2:
  "heap_exc xs k \<Longrightarrow> 0 < c \<Longrightarrow> c < length xs \<Longrightarrow> par c = k \<Longrightarrow> 0 < k \<Longrightarrow> xs ! par k \<le> xs ! c"
  by (simp add: heap_exc_def)

lemma min_heap_from_exc:
  "heap_exc xs k \<Longrightarrow> up_ok xs k \<Longrightarrow> down_ok xs k \<Longrightarrow> min_heap xs"
  unfolding min_heap_def up_ok_def down_ok_def by (metis heap_excD1)

lemma min_heap_exc: "min_heap xs \<Longrightarrow> k < length xs \<Longrightarrow> heap_exc xs k"
proof -
  assume h: "min_heap xs" and k: "k < length xs"
  have "xs ! par k \<le> xs ! c" if "0 < c" "c < length xs" "par c = k" "0 < k" for c
    using h k that unfolding min_heap_def by (metis order_trans)
  with h show ?thesis by (simp add: heap_exc_def min_heap_def)
qed

lemma min_heap_update_exc:
  assumes "min_heap xs" and "k < length xs"
  shows "heap_exc (xs[k := v]) k"
proof -
  have A: "xs[k := v] ! par i \<le> xs[k := v] ! i"
    if "0 < i" "i < length xs" "i \<noteq> k" "par i \<noteq> k" for i
    using that assms by (simp add: min_heap_def)
  have B: "xs[k := v] ! par k \<le> xs[k := v] ! c"
    if "0 < c" "c < length xs" "par c = k" "0 < k" for c
  proof -
    have "par k \<noteq> k" and "c \<noteq> k" using that par_less [of k] par_less [of c] by auto
    moreover have "xs ! par k \<le> xs ! k" and "xs ! k \<le> xs ! c"
      using assms that by (auto simp: min_heap_def)
    ultimately show ?thesis by simp
  qed
  from A B show ?thesis by (simp add: heap_exc_def)
qed

lemma min_heap_append_exc:
  assumes "min_heap xs"
  shows "heap_exc (xs @ [v]) (length xs)"
proof -
  have "(xs @ [v]) ! par i \<le> (xs @ [v]) ! i" if "0 < i" "i < length xs" for i
  proof -
    have "par i < length xs" using that par_less [of i] by simp
    with assms that show ?thesis by (simp add: min_heap_def nth_append)
  qed
  moreover have "par c \<noteq> length xs" if "0 < c" "c < Suc (length xs)" for c
    using that par_less [of c] by simp
  ultimately show ?thesis by (auto simp: heap_exc_def less_Suc_eq)
qed

lemma append_down_ok: "down_ok (xs @ [v]) (length xs)"
  by (auto simp: down_ok_def par_eq_iff)

text \<open>One step of sifting up.\<close>

lemma sift_up_step:
  assumes h: "heap_exc xs k" and k: "0 < k" "k < length xs" and lt: "xs ! k < xs ! par k"
  shows "heap_exc (lswap xs k (par k)) (par k)"
proof -
  let ?p = "par k"
  let ?ys = "lswap xs k ?p"
  have p: "?p < k" "?p < length xs" using k par_less [of k] by auto
  have nth: "?ys ! n = (if n = ?p then xs ! k else if n = k then xs ! ?p else xs ! n)"
    if "n < length xs" for n
    using that k p by (simp add: nth_lswap)
  have A: "?ys ! par i \<le> ?ys ! i"
    if "0 < i" "i < length xs" "i \<noteq> ?p" "par i \<noteq> ?p" for i
  proof -
    have pi: "par i < length xs" using that par_less [of i] by auto
    have ik: "i \<noteq> k" using that by auto
    show ?thesis
    proof (cases "par i = k")
      case True
      then show ?thesis using nth that pi ik heap_excD2 [OF h, of i] k by auto
    next
      case False
      then show ?thesis using nth that pi ik heap_excD1 [OF h, of i] by auto
    qed
  qed
  have B: "?ys ! par ?p \<le> ?ys ! c" if c: "0 < c" "c < length xs" "par c = ?p" "0 < ?p" for c
  proof -
    have pp: "par ?p < ?p" "par ?p < length xs" using c p par_less [of ?p] by auto
    have gp: "xs ! par ?p \<le> xs ! ?p"
      using heap_excD1 [OF h, of ?p] c p pp by auto
    have "c \<noteq> ?p" using c par_less [of c] by auto
    then show ?thesis
      using nth [of "par ?p"] nth [of c] pp p gp c heap_excD1 [OF h, of c] by auto
  qed
  from A B show ?thesis by (simp add: heap_exc_def)
qed

lemma sift_up_down_ok:
  assumes h: "heap_exc xs k" and k: "0 < k" "k < length xs" and lt: "xs ! k < xs ! par k"
  shows "down_ok (lswap xs k (par k)) (par k)"
proof -
  let ?p = "par k"
  have p: "?p < k" using k par_less [of k] by auto
  have "lswap xs k ?p ! ?p \<le> lswap xs k ?p ! c"
    if c: "0 < c" "c < length xs" "par c = ?p" for c
  proof -
    have "c \<noteq> ?p" using c par_less [of c] by auto
    then show ?thesis
      using c k p lt heap_excD1 [OF h, of c] by (auto simp: nth_lswap)
  qed
  then show ?thesis by (simp add: down_ok_def)
qed

text \<open>One step of sifting down, to the smaller child \<open>c\<close>.\<close>

lemma sift_down_step:
  assumes h: "heap_exc xs k" and c: "0 < c" "c < length xs" "par c = k"
    and lt: "xs ! c < xs ! k"
    and min: "\<And>d. 0 < d \<Longrightarrow> d < length xs \<Longrightarrow> par d = k \<Longrightarrow> xs ! c \<le> xs ! d"
  shows "heap_exc (lswap xs c k) c" and "up_ok (lswap xs c k) c"
proof -
  let ?ys = "lswap xs c k"
  have kc: "k < c" "k < length xs" using c par_less [of c] by auto
  have nth: "?ys ! n = (if n = k then xs ! c else if n = c then xs ! k else xs ! n)"
    if "n < length xs" for n
    using that c kc by (simp add: nth_lswap)
  have A: "?ys ! par i \<le> ?ys ! i" if i: "0 < i" "i < length xs" "i \<noteq> c" "par i \<noteq> c" for i
  proof -
    have pi: "par i < length xs" "par i < i" using i par_less [of i] by auto
    consider "i = k" | "i \<noteq> k" "par i = k" | "i \<noteq> k" "par i \<noteq> k" by blast
    then show ?thesis
    proof cases
      case 1
      then show ?thesis using nth [of i] nth [of "par i"] i pi heap_excD2 [OF h, of c] c by auto
    next
      case 2
      then show ?thesis using nth [of i] nth [of "par i"] i pi min [of i] by auto
    next
      case 3
      then show ?thesis using nth [of i] nth [of "par i"] i pi heap_excD1 [OF h, of i] by auto
    qed
  qed
  have B: "?ys ! par c \<le> ?ys ! d" if d: "0 < d" "d < length xs" "par d = c" for d
  proof -
    have "d \<noteq> c" "d \<noteq> k" "par d \<noteq> k" using d kc par_less [of d] by auto
    then show ?thesis using nth [of k] nth [of d] c d kc heap_excD1 [OF h, of d] by auto
  qed
  from A B show "heap_exc ?ys c" by (simp add: heap_exc_def)
  show "up_ok ?ys c" using nth [of k] nth [of c] c kc lt by (simp add: up_ok_def)
qed

lemma min_heap_root:
  assumes "min_heap xs" and "i < length xs"
  shows "xs ! 0 \<le> xs ! i"
  using assms(2)
proof (induction i rule: less_induct)
  case (less i)
  show ?case
  proof (cases "i = 0")
    case True
    then show ?thesis by simp
  next
    case False
    then have "xs ! 0 \<le> xs ! par i" using less par_less [of i] by auto
    also have "xs ! par i \<le> xs ! i" using assms(1) False less.prems by (simp add: min_heap_def)
    finally show ?thesis .
  qed
qed

lemma heap_exc_butlast:
  assumes "heap_exc xs k"
  shows "heap_exc (butlast xs) k"
proof -
  have p: "par i < length xs - 1" if "i < length xs - 1" for i
    using that par_le [of i] by simp
  have "butlast xs ! par k \<le> butlast xs ! c" if "0 < c" "c < length xs - 1" "par c = k" "0 < k" for c
  proof -
    have "par k < length xs - 1" using p [of c] p [of k] that by simp
    with that assms show ?thesis by (simp add: heap_exc_def nth_butlast)
  qed
  moreover have "butlast xs ! par i \<le> butlast xs ! i"
    if "0 < i" "i < length xs - 1" "i \<noteq> k" "par i \<noteq> k" for i
    using that assms p [of i] by (simp add: heap_exc_def nth_butlast)
  ultimately show ?thesis by (simp add: heap_exc_def)
qed

end
