(* ===== verification/Crypto.thy ===== *)
theory Crypto
  imports Structures HeapOrder
begin

text \<open>
  The two wrappers over OpenSSL's EVP interface: \<open>EcallCrypto\<close> of the enclave
  (\<open>Enclave/ecallSrc/ecallUtil/ecallEnc.cc\<close>) and \<open>CryptoPrimitive\<close> of the host and the client
  (\<open>src/Util/cryptoPrimitive.cc\<close>). OpenSSL is not part of the repository: it is the parameter
  \<open>evp\<close>, and \<open>evp_ok\<close> is what the wrappers rely on. The contract that the indexes and the restore
  path use is the locale \<open>length_cipher\<close>, interpreted on every pair of wrappers.
\<close>

section \<open>The EVP interface\<close>

datatype evp_cipher =
  EVP_aes_128_cfb | EVP_aes_256_cfb | EVP_aes_128_gcm | EVP_aes_256_gcm | EVP_aes_256_cbc

text \<open>
  \<open>evp_enc c key iv aad d\<close> is the output of \<open>EVP_EncryptUpdate\<close> followed by
  \<open>EVP_EncryptFinal_ex\<close>, and \<open>None\<close> when the update fails.
\<close>

record evp =
  evp_init :: "evp_cipher \<Rightarrow> bytes \<Rightarrow> bytes \<Rightarrow> bool"
  evp_enc :: "evp_cipher \<Rightarrow> bytes \<Rightarrow> bytes \<Rightarrow> bytes \<Rightarrow> bytes \<Rightarrow> bytes option"
  evp_dec :: "evp_cipher \<Rightarrow> bytes \<Rightarrow> bytes \<Rightarrow> bytes \<Rightarrow> bytes \<Rightarrow> bytes option"
  evp_md_init :: "hash_type \<Rightarrow> bool"
  evp_md :: "hash_type \<Rightarrow> bytes \<Rightarrow> bytes option"

definition hash_size :: "hash_type \<Rightarrow> nat" where
  "hash_size t = (case t of SHA_1 \<Rightarrow> 20 | SHA_256 \<Rightarrow> 32 | MD5 \<Rightarrow> 16)"

definition block_sized :: "evp_cipher \<Rightarrow> bytes \<Rightarrow> bool" where
  "block_sized c d \<longleftrightarrow> (c = EVP_aes_256_cbc \<longrightarrow> length d mod CRYPTO_BLOCK_SIZE = 0)"

text \<open>
  OpenSSL's documented behaviour: initialisation with a key of 32 bytes and an IV of 16 succeeds;
  the stream modes, and CBC without padding on whole blocks, keep the length and are undone by the
  matching decryption; a digest has the size of its algorithm.
\<close>

definition evp_ok :: "evp \<Rightarrow> bool" where
  "evp_ok V \<longleftrightarrow>
     (\<forall>c key iv. length key = CHUNK_HASH_SIZE \<and> length iv = CRYPTO_BLOCK_SIZE \<longrightarrow> evp_init V c key iv) \<and>
     (\<forall>c key iv aad d. block_sized c d \<longrightarrow>
        (\<exists>x. evp_enc V c key iv aad d = Some x \<and> length x = length d \<and>
             evp_dec V c key iv aad x = Some d)) \<and>
     (\<forall>t. evp_md_init V t) \<and>
     (\<forall>t d. \<exists>x. evp_md V t d = Some x \<and> length x = hash_size t)"

section \<open>The wrappers\<close>

record crypto_tool =
  cipherType :: cipher_type
  hashType :: hash_type
  tool_iv :: bytes

definition gcm_aad :: bytes where
  "gcm_aad = [0x4d, 0x23, 0xc3, 0xce, 0xc3, 0x34, 0xb4, 0x9b, 0xdb, 0x37, 0x0c, 0x43,
              0x7f, 0xec, 0x78, 0xde]"

definition EcallCrypto_new :: "cipher_type \<Rightarrow> hash_type \<Rightarrow> crypto_tool" where
  "EcallCrypto_new ct ht =
     \<lparr>cipherType = ct, hashType = ht, tool_iv = replicate CRYPTO_BLOCK_SIZE 0\<rparr>"

text \<open>The cipher a call selects, with the additional data of the GCM modes.\<close>

definition select_cipher :: "cipher_type \<Rightarrow> evp_cipher \<times> bytes" where
  "select_cipher t = (case t of
       AES_128_CFB \<Rightarrow> (EVP_aes_128_cfb, [])
     | AES_256_CFB \<Rightarrow> (EVP_aes_256_cfb, [])
     | AES_256_GCM \<Rightarrow> (EVP_aes_256_gcm, gcm_aad)
     | AES_128_GCM \<Rightarrow> (EVP_aes_128_gcm, gcm_aad))"

text \<open>The three checks every wrapper makes, with the texts it exits with.\<close>

definition evp_checked :: "string \<Rightarrow> string \<Rightarrow> string \<Rightarrow> bool \<Rightarrow> bytes option \<Rightarrow> nat \<Rightarrow> bytes res" where
  "evp_checked initMsg updMsg sizeMsg initOk out dataSize =
     (if \<not> initOk then Inl (ProcExit initMsg)
      else case out of
        None \<Rightarrow> Inl (ProcExit updMsg)
      | Some x \<Rightarrow> if length x \<noteq> dataSize then Inl (ProcExit sizeMsg) else Inr x)"

definition Ecall_GenerateHash :: "evp \<Rightarrow> crypto_tool \<Rightarrow> bytes \<Rightarrow> bytes res" where
  "Ecall_GenerateHash V T d =
     evp_checked ''EcallCrypto: Hasher init error'' ''EcallCrypto: Hash error'' ''EcallCrypto: Hash error''
       (evp_md_init V (hashType T)) (evp_md V (hashType T) d) (hash_size (hashType T))"

definition Ecall_EncryptWithKeyIV :: "evp \<Rightarrow> crypto_tool \<Rightarrow> bytes \<Rightarrow> bytes \<Rightarrow> bytes \<Rightarrow> bytes res" where
  "Ecall_EncryptWithKeyIV V T d key iv =
     (let (c, aad) = select_cipher (cipherType T) in
      evp_checked ''EcallCrypto: Cipher init error'' ''EcallCrypto: Encryption error''
        ''EcallCrypto: encryption output size not equal to origin size''
        (evp_init V c key iv) (evp_enc V c key iv aad d) (length d))"

definition Ecall_DecryptionWithKeyIV :: "evp \<Rightarrow> crypto_tool \<Rightarrow> bytes \<Rightarrow> bytes \<Rightarrow> bytes \<Rightarrow> bytes res" where
  "Ecall_DecryptionWithKeyIV V T x key iv =
     (let (c, aad) = select_cipher (cipherType T) in
      evp_checked ''EcallCrypto: Init error'' ''EcallCrypto: Decrypt error''
        ''EcallCrypto: Decrypt output size not equal to origin size''
        (evp_init V c key iv) (evp_dec V c key iv aad x) (length x))"

definition Ecall_EncryptWithKey :: "evp \<Rightarrow> crypto_tool \<Rightarrow> bytes \<Rightarrow> bytes \<Rightarrow> bytes res" where
  "Ecall_EncryptWithKey V T d key =
     (let (c, aad) = select_cipher (cipherType T) in
      evp_checked ''EcallCrypto: Cipher init error'' ''EcallCrypto: Encryption error''
        ''EcallCrypto: encryption output size not equal to origin size''
        (evp_init V c key (tool_iv T)) (evp_enc V c key (tool_iv T) aad d) (length d))"

definition Ecall_DecryptWithKey :: "evp \<Rightarrow> crypto_tool \<Rightarrow> bytes \<Rightarrow> bytes \<Rightarrow> bytes res" where
  "Ecall_DecryptWithKey V T x key =
     (let (c, aad) = select_cipher (cipherType T) in
      evp_checked ''EcallCrypto: Init error'' ''EcallCrypto: Decrypt error''
        ''EcallCrypto: Decrypt output size not equal to origin size''
        (evp_init V c key (tool_iv T)) (evp_dec V c key (tool_iv T) aad x) (length x))"

definition Ecall_SessionKeyEnc :: "evp \<Rightarrow> crypto_tool \<Rightarrow> bytes \<Rightarrow> bytes \<Rightarrow> bytes res" where
  "Ecall_SessionKeyEnc V T d key =
     evp_checked ''CryptoTool: Init error.'' ''CryptoTool: Encryption error.''
       ''CryptoTool: encryption output size not equal to original size.''
       (evp_init V EVP_aes_128_gcm key (tool_iv T))
       (evp_enc V EVP_aes_128_gcm key (tool_iv T) gcm_aad d) (length d)"

definition Ecall_SessionKeyDec :: "evp \<Rightarrow> crypto_tool \<Rightarrow> bytes \<Rightarrow> bytes \<Rightarrow> bytes res" where
  "Ecall_SessionKeyDec V T x key =
     evp_checked ''CryptoTool: Init error.'' ''CryptoTool: Decrypt error.''
       ''CryptoTool: Decrypt output size not equal to origin size.''
       (evp_init V EVP_aes_128_gcm key (tool_iv T))
       (evp_dec V EVP_aes_128_gcm key (tool_iv T) gcm_aad x) (length x)"

definition AESCBCEnc :: "evp \<Rightarrow> crypto_tool \<Rightarrow> bytes \<Rightarrow> bytes \<Rightarrow> bytes res" where
  "AESCBCEnc V T d key =
     evp_checked ''EcallCrypto: Init error'' ''EcallCrypto: Encryption error''
       ''EcallCrypto: encryption output size not equal to origin size''
       (evp_init V EVP_aes_256_cbc key (tool_iv T))
       (evp_enc V EVP_aes_256_cbc key (tool_iv T) [] d) (length d)"

definition AESCBCDec :: "evp \<Rightarrow> crypto_tool \<Rightarrow> bytes \<Rightarrow> bytes \<Rightarrow> bytes res" where
  "AESCBCDec V T x key =
     evp_checked ''EcallCrypto: Init error'' ''EcallCrypto: Decrypt error''
       ''EcallCrypto: Decrypt output size not equal to origin size''
       (evp_init V EVP_aes_256_cbc key (tool_iv T))
       (evp_dec V EVP_aes_256_cbc key (tool_iv T) [] x) (length x)"

text \<open>The in-place reversal with two pointers; \<open>hi\<close> starts one before the buffer when it is empty.\<close>

function reverseBytes_loop :: "bytes \<Rightarrow> int \<Rightarrow> int \<Rightarrow> bytes" where
  "reverseBytes_loop buf lo hi =
     (if lo < hi then reverseBytes_loop (lswap buf (nat lo) (nat hi)) (lo + 1) (hi - 1) else buf)"
  by pat_completeness auto
termination
  by (relation "measure (\<lambda>(buf, lo, hi). nat (hi - lo))") auto

declare reverseBytes_loop.simps [simp del]

definition reverseBytes :: "bytes \<Rightarrow> bytes" where
  "reverseBytes buf = reverseBytes_loop buf 0 (int (length buf) - 1)"

definition IndexAESCMCEnc :: "evp \<Rightarrow> crypto_tool \<Rightarrow> bytes \<Rightarrow> bytes \<Rightarrow> bytes res" where
  "IndexAESCMCEnc V T d key =
     rbind (AESCBCEnc V T d key) (\<lambda>tmp. AESCBCEnc V T (reverseBytes tmp) key)"

definition IndexAESCMCDec :: "evp \<Rightarrow> crypto_tool \<Rightarrow> bytes \<Rightarrow> bytes \<Rightarrow> bytes res" where
  "IndexAESCMCDec V T x key =
     rbind (AESCBCDec V T x key) (\<lambda>tmp. AESCBCDec V T (reverseBytes tmp) key)"

section \<open>The host and client wrapper\<close>

definition CryptoPrimitive_new :: "cipher_type \<Rightarrow> hash_type \<Rightarrow> crypto_tool" where
  "CryptoPrimitive_new ct ht =
     \<lparr>cipherType = ct, hashType = ht, tool_iv = replicate CRYPTO_BLOCK_SIZE 0\<rparr>"

definition Crypto_GenerateHash :: "evp \<Rightarrow> crypto_tool \<Rightarrow> bytes \<Rightarrow> bytes res" where
  "Crypto_GenerateHash V T d =
     evp_checked ''CryptoTool: Hash init error.'' ''CryptoTool: Hash error.'' ''CryptoTool: Hash size error.''
       (evp_md_init V (hashType T)) (evp_md V (hashType T) d) (hash_size (hashType T))"

definition Crypto_EncryptWithKey :: "evp \<Rightarrow> crypto_tool \<Rightarrow> bytes \<Rightarrow> bytes \<Rightarrow> bytes res" where
  "Crypto_EncryptWithKey V T d key =
     (let (c, aad) = select_cipher (cipherType T) in
      evp_checked ''CryptoTool: Init error.'' ''CryptoTool: Encryption error.''
        ''CryptoTool: encryption output size not equal to origin size.''
        (evp_init V c key (tool_iv T)) (evp_enc V c key (tool_iv T) aad d) (length d))"

definition Crypto_DecryptWithKey :: "evp \<Rightarrow> crypto_tool \<Rightarrow> bytes \<Rightarrow> bytes \<Rightarrow> bytes res" where
  "Crypto_DecryptWithKey V T x key =
     (let (c, aad) = select_cipher (cipherType T) in
      evp_checked ''CryptoTool: Init error.'' ''CryptoTool: Decrypt error.''
        ''CryptoTool: Decrypt output size not equal to origin size.''
        (evp_init V c key (tool_iv T)) (evp_dec V c key (tool_iv T) aad x) (length x))"

definition Crypto_SessionKeyEnc :: "evp \<Rightarrow> crypto_tool \<Rightarrow> bytes \<Rightarrow> bytes \<Rightarrow> bytes res" where
  "Crypto_SessionKeyEnc V T d key =
     evp_checked ''CryptoTool: Init error.'' ''CryptoTool: Encryption error.''
       ''CryptoTool: encryption output size not equal to original size.''
       (evp_init V EVP_aes_128_gcm key (tool_iv T))
       (evp_enc V EVP_aes_128_gcm key (tool_iv T) gcm_aad d) (length d)"

definition Crypto_SessionKeyDec :: "evp \<Rightarrow> crypto_tool \<Rightarrow> bytes \<Rightarrow> bytes \<Rightarrow> bytes res" where
  "Crypto_SessionKeyDec V T x key =
     evp_checked ''CryptoTool: Init error.'' ''CryptoTool: Decrypt error.'' ''''
       (evp_init V EVP_aes_128_gcm key (tool_iv T))
       (evp_dec V EVP_aes_128_gcm key (tool_iv T) gcm_aad x) (length x)"

section \<open>Lemmas\<close>

definition tool_ok :: "crypto_tool \<Rightarrow> bool" where
  "tool_ok T \<longleftrightarrow> length (tool_iv T) = CRYPTO_BLOCK_SIZE"

definition key_ok :: "bytes \<Rightarrow> bool" where
  "key_ok key \<longleftrightarrow> length key = CHUNK_HASH_SIZE"

lemma tool_ok_new [simp]: "tool_ok (EcallCrypto_new ct ht)" "tool_ok (CryptoPrimitive_new ct ht)"
  by (simp_all add: tool_ok_def EcallCrypto_new_def CryptoPrimitive_new_def)

lemma select_not_cbc: "fst (select_cipher t) \<noteq> EVP_aes_256_cbc"
  by (cases t) (simp_all add: select_cipher_def)

lemma evp_ok_init: "evp_ok V \<Longrightarrow> key_ok key \<Longrightarrow> length iv = CRYPTO_BLOCK_SIZE \<Longrightarrow> evp_init V c key iv"
  by (simp add: evp_ok_def key_ok_def)

lemma evp_ok_cipher:
  assumes "evp_ok V" and "block_sized c d"
  obtains x where "evp_enc V c key iv aad d = Some x" and "length x = length d"
    and "evp_dec V c key iv aad x = Some d"
  using assms unfolding evp_ok_def by metis

lemma evp_ok_hash:
  assumes "evp_ok V"
  obtains x where "evp_md V t d = Some x" and "length x = hash_size t" and "evp_md_init V t"
  using assms unfolding evp_ok_def by metis

lemma evp_roundtrip:
  assumes "evp_ok V" and "key_ok key" and "length iv = CRYPTO_BLOCK_SIZE" and "block_sized c d"
  shows "\<exists>x. evp_checked m1 m2 m3 (evp_init V c key iv) (evp_enc V c key iv aad d) (length d) = Inr x \<and>
     length x = length d \<and>
     evp_checked m4 m5 m6 (evp_init V c key iv) (evp_dec V c key iv aad x) (length x) = Inr d"
proof -
  obtain x where "evp_enc V c key iv aad d = Some x" "length x = length d" "evp_dec V c key iv aad x = Some d"
    by (rule evp_ok_cipher [OF assms(1,4)])
  with evp_ok_init [OF assms(1-3)] show ?thesis by (simp add: evp_checked_def)
qed

lemma block_sized_stream: "block_sized (fst (select_cipher t)) d" "block_sized EVP_aes_128_gcm d"
  by (simp_all add: block_sized_def select_not_cbc)

text \<open>A keyed cipher that keeps the length and can be undone, on the data it accepts.\<close>

locale length_cipher =
  fixes good :: "'k \<Rightarrow> bytes \<Rightarrow> bool" and enc :: "'k \<Rightarrow> bytes \<Rightarrow> bytes res" and dec :: "'k \<Rightarrow> bytes \<Rightarrow> bytes res"
  assumes roundtrip: "good k d \<Longrightarrow> \<exists>x. enc k d = Inr x \<and> length x = length d \<and> dec k x = Inr d"
begin

lemma encE:
  assumes "good k d"
  obtains x where "enc k d = Inr x" and "length x = length d" and "dec k x = Inr d"
  using roundtrip [OF assms] by blast

lemma enc_inj:
  assumes "good k d" and "good k d'" and "enc k d = enc k d'"
  shows "d = d'"
  using roundtrip [OF assms(1)] roundtrip [OF assms(2)] assms(3) by auto

lemma dec_enc: "good k d \<Longrightarrow> enc k d = Inr x \<Longrightarrow> dec k x = Inr d \<and> length x = length d"
  using roundtrip [of k d] by auto

end

definition stream_good :: "evp \<Rightarrow> crypto_tool \<Rightarrow> bytes \<Rightarrow> bytes \<Rightarrow> bool" where
  "stream_good V T key d \<longleftrightarrow> evp_ok V \<and> tool_ok T \<and> key_ok key"

definition block_good :: "evp \<Rightarrow> crypto_tool \<Rightarrow> bytes \<Rightarrow> bytes \<Rightarrow> bool" where
  "block_good V T key d \<longleftrightarrow> evp_ok V \<and> tool_ok T \<and> key_ok key \<and> length d mod CRYPTO_BLOCK_SIZE = 0"

definition iv_good :: "evp \<Rightarrow> bytes \<times> bytes \<Rightarrow> bytes \<Rightarrow> bool" where
  "iv_good V k d \<longleftrightarrow> evp_ok V \<and> key_ok (fst k) \<and> length (snd k) = CRYPTO_BLOCK_SIZE"

interpretation with_key: length_cipher "stream_good V T" "\<lambda>k d. Ecall_EncryptWithKey V T d k"
  "\<lambda>k x. Ecall_DecryptWithKey V T x k" for V T
  by unfold_locales
    (simp add: stream_good_def tool_ok_def Ecall_EncryptWithKey_def Ecall_DecryptWithKey_def
      case_prod_beta evp_roundtrip block_sized_stream)

interpretation with_iv: length_cipher "iv_good V"
  "\<lambda>(k, iv) d. Ecall_EncryptWithKeyIV V T d k iv" "\<lambda>(k, iv) x. Ecall_DecryptionWithKeyIV V T x k iv" for V T
  by unfold_locales
    (auto simp: iv_good_def Ecall_EncryptWithKeyIV_def Ecall_DecryptionWithKeyIV_def
      case_prod_beta intro!: evp_roundtrip block_sized_stream)

interpretation session: length_cipher "stream_good V T" "\<lambda>k d. Crypto_SessionKeyEnc V T d k"
  "\<lambda>k x. Ecall_SessionKeyDec V T x k" for V T
  by unfold_locales
    (simp add: stream_good_def tool_ok_def Crypto_SessionKeyEnc_def Ecall_SessionKeyDec_def
      evp_roundtrip block_sized_stream)

interpretation session_back: length_cipher "stream_good V T" "\<lambda>k d. Ecall_SessionKeyEnc V T d k"
  "\<lambda>k x. Crypto_SessionKeyDec V T x k" for V T
  by unfold_locales
    (simp add: stream_good_def tool_ok_def Ecall_SessionKeyEnc_def Crypto_SessionKeyDec_def
      evp_roundtrip block_sized_stream)

interpretation host_key: length_cipher "stream_good V T" "\<lambda>k d. Crypto_EncryptWithKey V T d k"
  "\<lambda>k x. Crypto_DecryptWithKey V T x k" for V T
  by unfold_locales
    (simp add: stream_good_def tool_ok_def Crypto_EncryptWithKey_def Crypto_DecryptWithKey_def
      case_prod_beta evp_roundtrip block_sized_stream)

interpretation cbc: length_cipher "block_good V T" "\<lambda>k d. AESCBCEnc V T d k"
  "\<lambda>k x. AESCBCDec V T x k" for V T
  by unfold_locales
    (simp add: block_good_def tool_ok_def AESCBCEnc_def AESCBCDec_def evp_roundtrip block_sized_def)

subsection \<open>The reversal loop\<close>

lemma reverseBytes_loop_middle:
  "reverseBytes_loop (xs @ ys @ zs) (int (length xs)) (int (length xs + length ys) - 1) = xs @ rev ys @ zs"
proof (induction "length ys" arbitrary: xs ys zs rule: less_induct)
  case less
  show ?case
  proof (cases "length ys < 2")
    case True
    then have "rev ys = ys" by (cases ys) (auto simp: Suc_less_eq)
    with True show ?thesis by (subst reverseBytes_loop.simps) auto
  next
    case False
    then obtain a m b where ys: "ys = a # m @ [b]"
      by (metis One_nat_def Suc_1 length_Cons less_2_cases_iff list.exhaust list.size(3) rev_exhaust)
    have sw: "lswap (xs @ ys @ zs) (length xs) (length xs + Suc (length m)) = xs @ (b # m @ [a]) @ zs"
      by (simp add: ys lswap_def nth_append list_update_append)
    have "reverseBytes_loop (xs @ ys @ zs) (int (length xs)) (int (length xs + length ys) - 1) =
        reverseBytes_loop ((xs @ [b]) @ m @ ([a] @ zs)) (int (length (xs @ [b])))
          (int (length (xs @ [b]) + length m) - 1)"
      using sw by (subst reverseBytes_loop.simps) (simp add: ys nat_add_distrib add.commute)
    also have "\<dots> = (xs @ [b]) @ rev m @ ([a] @ zs)" by (rule less.hyps) (simp add: ys)
    finally show ?thesis by (simp add: ys)
  qed
qed

lemma reverseBytes_rev: "reverseBytes buf = rev buf"
  using reverseBytes_loop_middle [of "[]" buf "[]"] by (simp add: reverseBytes_def)

interpretation cmc: length_cipher "block_good V T" "\<lambda>k d. IndexAESCMCEnc V T d k"
  "\<lambda>k x. IndexAESCMCDec V T x k" for V T
proof unfold_locales
  fix k d
  assume g: "block_good V T k d"
  from cbc.encE [OF g] obtain x where x: "AESCBCEnc V T d k = Inr x" "length x = length d" "AESCBCDec V T x k = Inr d" .
  have g': "block_good V T k (rev x)" using g x(2) by (simp add: block_good_def)
  from cbc.encE [OF g'] obtain y where y: "AESCBCEnc V T (rev x) k = Inr y" "length y = length (rev x)"
      "AESCBCDec V T y k = Inr (rev x)" .
  from x y show "\<exists>y. IndexAESCMCEnc V T d k = Inr y \<and> length y = length d \<and> IndexAESCMCDec V T y k = Inr d"
    by (simp add: IndexAESCMCEnc_def IndexAESCMCDec_def reverseBytes_rev)
qed

lemma GenerateHash_ok:
  assumes "evp_ok V"
  shows "\<exists>h. Ecall_GenerateHash V T d = Inr h \<and> length h = hash_size (hashType T)"
  by (rule evp_ok_hash [OF assms, of "hashType T" d])
    (simp add: Ecall_GenerateHash_def evp_checked_def)

section \<open>A concrete instance\<close>

text \<open>
  A stand-in for OpenSSL that satisfies \<open>evp_ok\<close>, on which the theorems that assume it are
  evaluated: the ciphers add and subtract one, the digest pads or cuts.
\<close>

definition plain_evp :: evp where
  "plain_evp =
     \<lparr>evp_init = (\<lambda>c key iv. True),
      evp_enc = (\<lambda>c key iv aad d. Some (map (\<lambda>b. b + 1) d)),
      evp_dec = (\<lambda>c key iv aad d. Some (map (\<lambda>b. b - 1) d)),
      evp_md_init = (\<lambda>t. True),
      evp_md = (\<lambda>t d. Some (take (hash_size t) (d @ replicate (hash_size t) 0)))\<rparr>"

lemma plain_evp_ok [simp]: "evp_ok plain_evp"
  by (auto simp: evp_ok_def plain_evp_def o_def min_def)

section \<open>Properties\<close>

text \<open>
  The index encryption AES-CMC of a fingerprint succeeds, keeps its length and is undone by the
  decryption, and different fingerprints have different encryptions, so that equal keys of the
  out-of-enclave index mean equal fingerprints.
\<close>

theorem IndexAESCMC_roundtrip:
  assumes "evp_ok V" and "tool_ok T" and "key_ok key" and "length fp = CHUNK_HASH_SIZE"
  shows "\<exists>x. IndexAESCMCEnc V T fp key = Inr x \<and> length x = CHUNK_HASH_SIZE \<and>
     IndexAESCMCDec V T x key = Inr fp \<and>
     (\<forall>fp'. length fp' = CHUNK_HASH_SIZE \<and> IndexAESCMCEnc V T fp' key = Inr x \<longrightarrow> fp' = fp)"
proof -
  have g: "block_good V T key d" if "length d = CHUNK_HASH_SIZE" for d
    using assms that by (simp add: block_good_def const_defs)
  from cmc.encE [OF g [OF assms(4)]] obtain x where
    "IndexAESCMCEnc V T fp key = Inr x" "length x = length fp" "IndexAESCMCDec V T x key = Inr fp" .
  with cmc.enc_inj [OF g g] assms(4) show ?thesis by auto
qed

theorem IndexAESCMC_roundtrip_witness:
  "\<exists>x. IndexAESCMCEnc plain_evp (EcallCrypto_new AES_256_GCM SHA_256) (replicate 32 5) (replicate 32 9) = Inr x \<and>
     length x = CHUNK_HASH_SIZE \<and>
     IndexAESCMCDec plain_evp (EcallCrypto_new AES_256_GCM SHA_256) x (replicate 32 9) = Inr (replicate 32 5) \<and>
     (\<forall>fp'. length fp' = CHUNK_HASH_SIZE \<and>
        IndexAESCMCEnc plain_evp (EcallCrypto_new AES_256_GCM SHA_256) fp' (replicate 32 9) = Inr x \<longrightarrow> fp' = replicate 32 5)"
  by (rule IndexAESCMC_roundtrip) (simp_all add: key_ok_def const_defs)

text \<open>
  What the client encrypts under the session key the enclave decrypts, and back: the two
  wrappers, written separately, use the same cipher, IV and additional data.
\<close>

theorem session_key_both_ways:
  assumes "evp_ok V" and "key_ok key"
  shows "(\<exists>x. Crypto_SessionKeyEnc V (CryptoPrimitive_new ct ht) d key = Inr x \<and>
            Ecall_SessionKeyDec V (EcallCrypto_new ct' ht') x key = Inr d) \<and>
         (\<exists>x. Ecall_SessionKeyEnc V (EcallCrypto_new ct' ht') d key = Inr x \<and>
            Crypto_SessionKeyDec V (CryptoPrimitive_new ct ht) x key = Inr d)"
proof -
  have t: "tool_iv (CryptoPrimitive_new ct ht) = tool_iv (EcallCrypto_new ct' ht')"
    by (simp add: CryptoPrimitive_new_def EcallCrypto_new_def)
  have g: "stream_good V (CryptoPrimitive_new ct ht) key d" "stream_good V (EcallCrypto_new ct' ht') key d"
    using assms by (simp_all add: stream_good_def)
  show ?thesis
    using session.roundtrip [OF g(1)] session_back.roundtrip [OF g(2)] t
    by (auto simp: Ecall_SessionKeyDec_def Crypto_SessionKeyDec_def)
qed

theorem session_key_both_ways_witness:
  "(\<exists>x. Crypto_SessionKeyEnc plain_evp (CryptoPrimitive_new AES_256_GCM SHA_256) [1, 2, 3] (replicate 32 0) = Inr x \<and>
      Ecall_SessionKeyDec plain_evp (EcallCrypto_new AES_128_CFB MD5) x (replicate 32 0) = Inr [1, 2, 3]) \<and>
   (\<exists>x. Ecall_SessionKeyEnc plain_evp (EcallCrypto_new AES_128_CFB MD5) [1, 2, 3] (replicate 32 0) = Inr x \<and>
      Crypto_SessionKeyDec plain_evp (CryptoPrimitive_new AES_256_GCM SHA_256) x (replicate 32 0) = Inr [1, 2, 3])"
  by (rule session_key_both_ways) (simp_all add: key_ok_def const_defs)

text \<open>The two-pointer loop of \<open>reverseBytes\<close> reverses the buffer, of any length.\<close>

theorem reverseBytes_reverses: "reverseBytes buf = rev buf"
  by (rule reverseBytes_rev)

end
