(* ===== verification/Database.thy ===== *)
theory Database
  imports Structures
begin

text \<open>
  \<open>InMemoryDatabase\<close> (\<open>src/Database/inMemoryDatabase.cc\<close>): the key-value store behind the
  out-of-enclave index, a hash map that is written to a file by the destructor and read back by
  \<open>OpenDB\<close>. The interface of \<open>absDatabase.h\<close> is the locale \<open>abs_database\<close>.
\<close>

section \<open>Operations\<close>

type_synonym index_map = "bytes \<rightharpoonup> bytes"

definition InMemoryDatabase_Query :: "index_map \<Rightarrow> bytes \<Rightarrow> bytes \<Rightarrow> bool \<times> bytes" where
  "InMemoryDatabase_Query db key val =
     (case db key of Some v \<Rightarrow> (True, v) | None \<Rightarrow> (False, val))"

definition InMemoryDatabase_Insert :: "index_map \<Rightarrow> bytes \<Rightarrow> bytes \<Rightarrow> bool \<times> index_map" where
  "InMemoryDatabase_Insert db key val = (True, db(key \<mapsto> val))"

definition InMemoryDatabase_InsertBuffer :: "index_map \<Rightarrow> bytes \<Rightarrow> bytes \<Rightarrow> nat \<Rightarrow> bool \<times> index_map" where
  "InMemoryDatabase_InsertBuffer db key buffer bufferSize = (True, db(key \<mapsto> take bufferSize buffer))"

definition InMemoryDatabase_InsertBothBuffer ::
  "index_map \<Rightarrow> bytes \<Rightarrow> nat \<Rightarrow> bytes \<Rightarrow> nat \<Rightarrow> bool \<times> index_map" where
  "InMemoryDatabase_InsertBothBuffer db key keySize buffer bufferSize =
     (True, db(take keySize key \<mapsto> take bufferSize buffer))"

definition InMemoryDatabase_QueryBuffer :: "index_map \<Rightarrow> bytes \<Rightarrow> nat \<Rightarrow> bytes \<Rightarrow> bool \<times> bytes" where
  "InMemoryDatabase_QueryBuffer db key keySize val =
     (case db (take keySize key) of Some v \<Rightarrow> (True, v) | None \<Rightarrow> (False, val))"

section \<open>The file\<close>

text \<open>
  The destructor writes each item as a 32-bit size and the bytes, key first. The order is the
  iteration order of the hash map, the list \<open>items\<close>. A size of 2 GiB or more is a negative
  \<open>int\<close>, which the stream's \<open>write\<close> does not define.
\<close>

definition write_item :: "bytes \<Rightarrow> bytes res" where
  "write_item s =
     (let itemSize = of_nat (length s) :: u32 in
      if unat itemSize < 2 ^ 31 then Inr (u32_bytes itemSize @ take (unat itemSize) s)
      else Inl (Undefined ''negative stream size''))"

definition InMemoryDatabase_destroy :: "(bytes \<times> bytes) list \<Rightarrow> bytes res" where
  "InMemoryDatabase_destroy items =
     rfold (\<lambda>(k, v) dbFile.
       rbind (write_item k) (\<lambda>kb. rbind (write_item v) (\<lambda>vb. Inr (dbFile @ kb @ vb)))) items []"

text \<open>
  \<open>istream::read\<close> on the rest of a file: what is missing of the buffer keeps its old bytes and the
  stream is at its end, after which a read does nothing.
\<close>

definition istream_read :: "bytes \<times> bool \<Rightarrow> nat \<Rightarrow> bytes \<Rightarrow> bytes \<times> bytes \<times> bool" where
  "istream_read f n old =
     (let (rest, eof) = f in
      if eof then (old, f)
      else (take n rest @ drop (length rest) (take n old), (drop n rest, length rest < n)))"

definition str_resize :: "bytes \<Rightarrow> nat \<Rightarrow> bytes" where
  "str_resize s n = take n (s @ replicate n 0)"

text \<open>One iteration reads a key and a value; \<open>None\<close> is the \<open>break\<close> on a zero size.\<close>

definition OpenDB_item ::
  "bytes \<Rightarrow> bytes \<Rightarrow> bytes \<Rightarrow> (bytes \<times> bytes \<times> bytes \<times> bool) option res" where
  "OpenDB_item rest key val =
     (let (sz, f1) = istream_read (rest, False) 4 (u32_bytes 0);
          itemSize = bytes_u32 sz in
      if itemSize = 0 then Inr None
      else if 2 ^ 31 \<le> unat itemSize then Inl (ProcExit ''std::length_error'')
      else
        let (key', f2) = istream_read f1 (unat itemSize) (str_resize key (unat itemSize));
            (sz', f3) = istream_read f2 4 sz;
            itemSize' = bytes_u32 sz' in
        if 2 ^ 31 \<le> unat itemSize' then Inl (ProcExit ''std::length_error'')
        else
          let (val', f4) = istream_read f3 (unat itemSize') (str_resize val (unat itemSize'))
          in Inr (Some (key', val', f4)))"

lemma istream_read_not_eof:
  "istream_read f n old = (b, r, False) \<Longrightarrow> \<not> snd f \<and> n \<le> length (fst f) \<and> r = drop n (fst f)"
  by (cases f) (auto simp: istream_read_def Let_def split: if_splits)

lemma OpenDB_item_progress:
  assumes "OpenDB_item rest key val = Inr (Some (key', val', rest', False))"
  shows "length rest' < length rest"
proof -
  obtain sz r1 e1 where 1: "istream_read (rest, False) 4 (u32_bytes 0) = (sz, r1, e1)"
    by (rule prod_cases3)
  let ?n = "unat (bytes_u32 sz)"
  obtain k2 r2 e2 where 2: "istream_read (r1, e1) ?n (str_resize key ?n) = (k2, r2, e2)"
    by (rule prod_cases3)
  obtain sz3 r3 e3 where 3: "istream_read (r2, e2) 4 sz = (sz3, r3, e3)"
    by (rule prod_cases3)
  let ?m = "unat (bytes_u32 sz3)"
  obtain v4 r4 e4 where 4: "istream_read (r3, e3) ?m (str_resize val ?m) = (v4, r4, e4)"
    by (rule prod_cases3)
  have r: "r4 = rest'" and e4: "e4 = False"
    using assms unfolding OpenDB_item_def by (auto simp: 1 2 3 4 Let_def split: if_splits)
  from istream_read_not_eof [OF 4 [unfolded e4]] have e3: "e3 = False" and "length r4 \<le> length r3"
    by auto
  moreover from istream_read_not_eof [OF 3 [unfolded e3]] have e2: "e2 = False" and "length r3 \<le> length r2"
    by auto
  moreover from istream_read_not_eof [OF 2 [unfolded e2]] have e1: "e1 = False" and "length r2 \<le> length r1"
    by auto
  moreover from istream_read_not_eof [OF 1 [unfolded e1]] have "length r1 < length rest" by auto
  ultimately show ?thesis using r by simp
qed

function OpenDB_loop :: "bytes \<Rightarrow> bytes \<Rightarrow> bytes \<Rightarrow> index_map \<Rightarrow> index_map res" where
  "OpenDB_loop rest key val db =
     rbind (OpenDB_item rest key val) (\<lambda>item.
       case item of
         None \<Rightarrow> Inr db
       | Some (key', val', rest', eof) \<Rightarrow>
           (let db' = (case db key' of None \<Rightarrow> db(key' \<mapsto> val') | Some _ \<Rightarrow> db) in
            if eof then Inr db' else OpenDB_loop rest' key' val' db'))"
  by pat_completeness auto
termination
  by (relation "measure (\<lambda>(rest, key, val, db). length rest)") (auto dest: OpenDB_item_progress)

declare OpenDB_loop.simps [simp del]

text \<open>A file that does not exist has size zero, like an empty one.\<close>

definition InMemoryDatabase_OpenDB :: "bytes option \<Rightarrow> index_map res" where
  "InMemoryDatabase_OpenDB dbFile =
     (case dbFile of
        None \<Rightarrow> Inr Map.empty
      | Some b \<Rightarrow> if length b = 0 then Inr Map.empty else OpenDB_loop b [] [] Map.empty)"

section \<open>The contract of a key-value store\<close>

locale abs_database =
  fixes query :: "'d \<Rightarrow> 'k \<Rightarrow> 'v option" and insert :: "'d \<Rightarrow> 'k \<Rightarrow> 'v \<Rightarrow> 'd"
  assumes query_insert: "query (insert d k v) k' = (if k' = k then Some v else query d k')"
begin

lemma query_insert_all:
  "query (foldl (\<lambda>d (k, v). insert d k v) d kvs) k' =
     (case map_of (rev kvs) k' of Some v \<Rightarrow> Some v | None \<Rightarrow> query d k')"
  by (induction kvs arbitrary: d) (auto simp: query_insert map_add_def split: option.splits)

end

definition db_query :: "index_map \<Rightarrow> bytes \<Rightarrow> bytes option" where
  "db_query db key = (let r = InMemoryDatabase_QueryBuffer db key (length key) [] in
     if fst r then Some (snd r) else None)"

definition db_insert :: "index_map \<Rightarrow> bytes \<Rightarrow> bytes \<Rightarrow> index_map" where
  "db_insert db key val =
     snd (InMemoryDatabase_InsertBothBuffer db key (length key) val (length val))"

lemma db_query_eq [simp]: "db_query db key = db key"
  by (simp add: db_query_def InMemoryDatabase_QueryBuffer_def split: option.splits)

lemma db_insert_eq [simp]: "db_insert db key val = db(key \<mapsto> val)"
  by (simp add: db_insert_def InMemoryDatabase_InsertBothBuffer_def)

interpretation in_memory: abs_database db_query db_insert
  by unfold_locales simp

section \<open>Saving and loading\<close>

definition item_ok :: "bytes \<times> bytes \<Rightarrow> bool" where
  "item_ok kv \<longleftrightarrow> length (fst kv) < 2 ^ 31 \<and> length (snd kv) < 2 ^ 31"

definition item_bytes :: "bytes \<times> bytes \<Rightarrow> bytes" where
  "item_bytes kv = u32_bytes (of_nat (length (fst kv))) @ fst kv @ u32_bytes (of_nat (length (snd kv))) @ snd kv"

lemma destroy_from:
  assumes "\<forall>kv \<in> set items. item_ok kv"
  shows "rfold (\<lambda>(k, v) dbFile.
      rbind (write_item k) (\<lambda>kb. rbind (write_item v) (\<lambda>vb. Inr (dbFile @ kb @ vb)))) items f =
    Inr (f @ concat (map item_bytes items))"
  using assms
proof (induction items arbitrary: f)
  case Nil
  then show ?case by simp
next
  case (Cons kv items)
  then have "write_item (fst kv) = Inr (u32_bytes (of_nat (length (fst kv))) @ fst kv)"
      "write_item (snd kv) = Inr (u32_bytes (of_nat (length (snd kv))) @ snd kv)"
    by (auto simp: write_item_def item_ok_def unat_of_nat_u32 Let_def)
  with Cons show ?case by (simp add: case_prod_beta item_bytes_def)
qed

lemma destroy_bytes:
  "\<forall>kv \<in> set items. item_ok kv \<Longrightarrow> InMemoryDatabase_destroy items = Inr (concat (map item_bytes items))"
  unfolding InMemoryDatabase_destroy_def using destroy_from [of items "[]"] by simp

lemma istream_read_full [simp]:
  "istream_read (a @ rest, False) (length a) old = (a, rest, False)"
  by (simp add: istream_read_def)

lemma istream_read_u32 [simp]:
  "istream_read (u32_bytes w @ rest, False) 4 old = (u32_bytes w, rest, False)"
  using istream_read_full [of "u32_bytes w"] by simp

lemma OpenDB_item_full:
  assumes "item_ok (k, v)" and "k \<noteq> []"
  shows "OpenDB_item (item_bytes (k, v) @ rest) key val = Inr (Some (k, v, rest, False))"
proof -
  have l: "unat (of_nat (length k) :: u32) = length k" "unat (of_nat (length v) :: u32) = length v"
    using assms(1) by (auto simp: item_ok_def unat_of_nat_u32)
  have "(of_nat (length k) :: u32) \<noteq> 0" using l(1) assms(2) by (metis length_0_conv unat_0)
  with l assms(1) show ?thesis
    by (simp add: OpenDB_item_def item_bytes_def item_ok_def)
qed

lemma OpenDB_item_end:
  "OpenDB_item [] key val = Inr None" "OpenDB_item (item_bytes ([], v) @ rest) key val = Inr None"
proof -
  show "OpenDB_item [] key val = Inr None"
    by (simp add: OpenDB_item_def istream_read_def)
  show "OpenDB_item (item_bytes ([], v) @ rest) key val = Inr None"
    by (simp add: OpenDB_item_def item_bytes_def)
qed

lemma OpenDB_loop_items:
  assumes "\<forall>kv \<in> set items. item_ok kv \<and> fst kv \<noteq> []" and "distinct (map fst items)"
    and "\<forall>kv \<in> set items. db (fst kv) = None"
    and "\<And>key val. OpenDB_item tail key val = Inr None"
  shows "OpenDB_loop (concat (map item_bytes items) @ tail) key val db = Inr (db ++ map_of items)"
  using assms(1-3)
proof (induction items arbitrary: db key val)
  case Nil
  then show ?case by (subst OpenDB_loop.simps) (simp add: assms(4))
next
  case (Cons kv items)
  obtain k v where kv: "kv = (k, v)" by (cases kv)
  have "OpenDB_loop (concat (map item_bytes (kv # items)) @ tail) key val db =
      OpenDB_loop (concat (map item_bytes items) @ tail) k v (db(k \<mapsto> v))"
    using Cons.prems by (subst OpenDB_loop.simps) (simp add: kv OpenDB_item_full)
  also have "\<dots> = Inr (db(k \<mapsto> v) ++ map_of items)"
    using Cons.prems kv by (intro Cons.IH) force+
  also have "db(k \<mapsto> v) ++ map_of items = db ++ map_of (kv # items)"
    using Cons.prems(2) kv by (simp add: map_add_upd_left dom_map_of_conv_image_fst)
  finally show ?case .
qed

section \<open>Properties\<close>

lemma db_reopened:
  assumes "distinct (map fst items)" and "\<forall>kv \<in> set items. item_ok kv \<and> fst kv \<noteq> []"
  shows "\<exists>f. InMemoryDatabase_destroy items = Inr f \<and> InMemoryDatabase_OpenDB (Some f) = Inr (map_of items)"
proof -
  let ?f = "concat (map item_bytes items)"
  have "InMemoryDatabase_destroy items = Inr ?f" using assms(2) by (intro destroy_bytes) blast
  moreover have "OpenDB_loop (?f @ []) [] [] Map.empty = Inr (Map.empty ++ map_of items)"
    using assms by (intro OpenDB_loop_items) (simp_all add: OpenDB_item_end)
  moreover have "items = []" if "?f = []" using that by (cases items) (auto simp: item_bytes_def)
  ultimately show ?thesis by (auto simp: InMemoryDatabase_OpenDB_def)
qed

text \<open>
  A database whose keys are not empty and whose items are below 2 GiB is read back from the
  file its destructor writes, whatever the iteration order of the hash map.
\<close>

theorem InMemoryDatabase_reopen:
  assumes "distinct (map fst items)" and "\<forall>kv \<in> set items. item_ok kv \<and> fst kv \<noteq> []"
  shows "\<exists>f. InMemoryDatabase_destroy items = Inr f \<and> InMemoryDatabase_OpenDB (Some f) = Inr (map_of items)"
  using assms by (rule db_reopened)

theorem InMemoryDatabase_reopen_witness:
  "\<exists>f. InMemoryDatabase_destroy [([1], [2, 3]), ([4, 5], [])] = Inr f \<and>
     InMemoryDatabase_OpenDB (Some f) = Inr (map_of [([1], [2, 3]), ([4, 5], [])])"
  by (rule InMemoryDatabase_reopen) (simp_all add: item_ok_def)

text \<open>
  (C40) An item with an empty key ends the loading: the items behind it in the file are lost when the
  database is opened again.
\<close>

theorem InMemoryDatabase_empty_key_truncates:
  assumes "distinct (map fst before)" and "\<forall>kv \<in> set before. item_ok kv \<and> fst kv \<noteq> []"
    and "item_ok ([], v)" and "\<forall>kv \<in> set behind. item_ok kv"
  shows "\<exists>f. InMemoryDatabase_destroy (before @ ([], v) # behind) = Inr f \<and>
     InMemoryDatabase_OpenDB (Some f) = Inr (map_of before)"
proof -
  let ?t = "item_bytes ([], v) @ concat (map item_bytes behind)"
  let ?f = "concat (map item_bytes before) @ ?t"
  have "InMemoryDatabase_destroy (before @ ([], v) # behind) = Inr (concat (map item_bytes (before @ ([], v) # behind)))"
    using assms by (intro destroy_bytes) auto
  then have d: "InMemoryDatabase_destroy (before @ ([], v) # behind) = Inr ?f" by simp
  have o: "OpenDB_loop ?f [] [] Map.empty = Inr (Map.empty ++ map_of before)"
    using assms by (intro OpenDB_loop_items) (simp_all add: OpenDB_item_end)
  have "item_bytes ([], v) \<noteq> []" by (simp add: item_bytes_def)
  with d o show ?thesis by (simp add: InMemoryDatabase_OpenDB_def)
qed

theorem InMemoryDatabase_empty_key_truncates_witness:
  "\<exists>f. InMemoryDatabase_destroy ([([1], [2])] @ ([], [9]) # [([3], [4])]) = Inr f \<and>
     InMemoryDatabase_OpenDB (Some f) = Inr (map_of [([1], [2])])"
  by (rule InMemoryDatabase_empty_key_truncates) (simp_all add: item_ok_def)

end
