(* ===== verification/Client.thy ===== *)
theory Client
  imports Crypto Database
begin

text \<open>
  The state an upload works on: the in-enclave client (\<open>EnclaveClient\<close>, \<open>ecallClient.h/.cc\<close>), the
  out-of-enclave client (\<open>ClientVar\<close>, \<open>clientVar.cc\<close>), the storage behind them, and the
  configuration of the enclave. Heap buffers are the bytes written to them so far.
\<close>

section \<open>Configuration\<close>

text \<open>
  \<open>cfg_lz4c d\<close> is the output of \<open>LZ4_compress_fast\<close> with the capacity set to the size of the
  input, empty when it returns 0; \<open>cfg_lz4d x\<close> is the output of \<open>LZ4_decompress_safe\<close> with a
  capacity of \<open>MAX_CHUNK_SIZE\<close>, \<open>None\<close> when it returns a negative number. \<open>cfg_rnd i\<close> is the i-th
  value of \<open>rand()\<close> in the server.
\<close>

record enclave_cfg =
  cfg_evp :: evp
  cfg_tool :: crypto_tool
  cfg_lz4c :: "bytes \<Rightarrow> bytes"
  cfg_lz4d :: "bytes \<Rightarrow> bytes option"
  cfg_rnd :: "nat \<Rightarrow> nat"
  enclaveKey :: bytes
  indexQueryKey :: bytes
  sendChunkBatchSize :: nat
  sendRecipeBatchSize :: nat
  topKParam :: nat

text \<open>\<open>sizeof(Chunk_t)\<close>\<close>

definition Chunk_size :: nat where
  "Chunk_size = 4 + unat MAX_CHUNK_SIZE"

section \<open>State\<close>

record container =
  containerID :: bytes
  body :: bytes
  currentSize :: u32

record recipe_buf =
  recipeNum :: u32
  entryList :: bytes

record in_container =
  ic_buf :: bytes
  curSize :: u32

record segment =
  seg_chunkNum :: u32
  segmentSize :: u32
  minHashVal :: u32
  minHash :: bytes
  seg_buffer :: bytes
  seg_metadata :: "(u32 \<times> bytes) list"

record in_query_entry =
  iq_dedupFlag :: two_path_status
  iq_chunkHash :: bytes
  iq_chunkAddr :: recipe_entry
  iq_chunkFreq :: u32
  iq_chunkSize :: u32

record out_query_entry =
  oq_dedupFlag :: two_path_status
  oq_chunkHash :: bytes
  oq_chunkAddr :: bytes

record enclave_client =
  iv :: bytes
  sessionKey :: bytes
  masterKey :: bytes
  inRecipe :: recipe_buf
  recvBuffer :: bytes
  seg :: segment
  localIndex :: "bytes \<rightharpoonup> nat"
  inContainer :: in_container

record client_var =
  curContainer :: container
  outRecipe :: recipe_buf
  outQuery :: "out_query_entry list"
  recipeFile :: "bytes option"
  inputMQ :: "container list"
  tmpQueryBufferStr :: bytes

record storage =
  indexStore :: index_map
  containerFiles :: "bytes \<rightharpoonup> bytes"
  randPos :: nat

record statistics =
  uniqueChunkNum :: u64
  uniqueDataSize :: u64
  logicalChunkNum :: u64
  logicalDataSize :: u64
  compressedDataSize :: u64
  writtenDataSize :: u64
  writtenChunkNum :: u64

text \<open>What \<open>UpOutSGX_t\<close> gives access to, with the statistics of the index object.\<close>

record up_state =
  sgx :: enclave_client
  outc :: client_var
  store :: storage
  stats :: statistics

section \<open>Initialisation\<close>

text \<open>\<open>sgx_read_rand\<close> fills the IV: its result is the argument \<open>rand_iv\<close>.\<close>

definition EnclaveClient_InitUploadBuffer :: "index_type \<Rightarrow> enclave_client \<Rightarrow> enclave_client" where
  "EnclaveClient_InitUploadBuffer t c =
     c\<lparr>recvBuffer := [], inRecipe := \<lparr>recipeNum = 0, entryList = []\<rparr>,
       seg := (if t = EXTREME_BIN \<or> t = SPARSE_INDEX
               then (seg c)\<lparr>seg_buffer := [], seg_metadata := [], minHashVal := - 1,
                            seg_chunkNum := 0, segmentSize := 0\<rparr>
               else seg c),
       localIndex := Map.empty, inContainer := \<lparr>ic_buf = [], curSize = 0\<rparr>\<rparr>"

definition SetMasterKey :: "evp \<Rightarrow> crypto_tool \<Rightarrow> bytes \<Rightarrow> enclave_client \<Rightarrow> enclave_client res" where
  "SetMasterKey V T encryptedSecret c =
     rbind (Ecall_SessionKeyDec V T encryptedSecret (sessionKey c)) (\<lambda>k. Inr (c\<lparr>masterKey := k\<rparr>))"

definition blank_client :: enclave_client where
  "blank_client =
     \<lparr>iv = [], sessionKey = [], masterKey = [], inRecipe = \<lparr>recipeNum = 0, entryList = []\<rparr>,
      recvBuffer = [],
      seg = \<lparr>seg_chunkNum = 0, segmentSize = 0, minHashVal = 0, minHash = [], seg_buffer = [], seg_metadata = []\<rparr>,
      localIndex = Map.empty, inContainer = \<lparr>ic_buf = [], curSize = 0\<rparr>\<rparr>"

text \<open>
  \<open>Ecall_Init_Client\<close> for an upload: the constructor, the session key of the client and the master
  key that it sent.
\<close>

definition Ecall_Init_Client ::
  "enclave_cfg \<Rightarrow> (nat \<rightharpoonup> bytes) \<Rightarrow> nat \<Rightarrow> index_type \<Rightarrow> bytes \<Rightarrow> bytes \<Rightarrow> enclave_client res" where
  "Ecall_Init_Client C clientSessionKeyIndex clientID t rand_iv encMasterKey =
     (let c = EnclaveClient_InitUploadBuffer t (blank_client\<lparr>iv := rand_iv\<rparr>) in
      case clientSessionKeyIndex clientID of
        None \<Rightarrow> Inl (ProcExit ''get the session key fails.'')
      | Some k \<Rightarrow> SetMasterKey (cfg_evp C) (cfg_tool C) (take CHUNK_HASH_SIZE encMasterKey)
                    (c\<lparr>sessionKey := take CHUNK_HASH_SIZE k\<rparr>))"

text \<open>
  The container of a new \<open>ClientVar\<close> gets a random name, and the recipe file starts with room for
  its head, whose bytes are not initialised (\<open>junk\<close>).
\<close>

definition ClientVar_InitUploadBuffer :: "enclave_cfg \<Rightarrow> bytes \<Rightarrow> storage \<Rightarrow> client_var \<times> storage" where
  "ClientVar_InitUploadBuffer C junk S =
     (let (u, p) = CreateUUID (cfg_rnd C) (randPos S) CONTAINER_ID_LENGTH in
      (\<lparr>curContainer = \<lparr>containerID = u, body = [], currentSize = 0\<rparr>,
        outRecipe = \<lparr>recipeNum = 0, entryList = []\<rparr>, outQuery = [],
        recipeFile = Some (take 16 (junk @ replicate 16 0)), inputMQ = [], tmpQueryBufferStr = []\<rparr>,
       S\<lparr>randPos := p\<rparr>))"

section \<open>Initialisation vectors\<close>

text \<open>\<open>PickNewIV\<close> adds one to the first 64-bit word of the IV.\<close>

definition PickNewIV :: "bytes \<Rightarrow> bytes" where
  "PickNewIV v = u64_bytes (bytes_u64 v + 1) @ drop 8 v"

definition Rotl :: "u64 \<Rightarrow> nat \<Rightarrow> u64" where
  "Rotl x k = push_bit k x OR drop_bit (64 - k) x"

definition GenerateNextIV :: "bytes \<Rightarrow> bytes" where
  "GenerateNextIV v =
     (let s0 = bytes_u64 v;
          s1 = bytes_u64 (drop 8 v) XOR s0
      in u64_bytes (Rotl s0 24 XOR s1 XOR push_bit 16 s1) @ u64_bytes (Rotl s1 37) @ drop 16 v)"

lemma length_PickNewIV: "8 \<le> length v \<Longrightarrow> length (PickNewIV v) = length v"
  by (simp add: PickNewIV_def)

lemma PickNewIV_iterate:
  assumes "8 \<le> length v"
  shows "(PickNewIV ^^ n) v = u64_bytes (bytes_u64 v + of_nat n) @ drop 8 v"
proof (induction n)
  case 0
  have "u64_bytes (bytes_u64 (take 8 v)) = take 8 v" by (rule u64_bytes_bytes_u64) (use assms in simp)
  moreover have "bytes_u64 (take 8 v) = bytes_u64 v" by (simp add: bytes_u64_def)
  ultimately show ?case by simp
next
  case (Suc n)
  then show ?case by (simp add: PickNewIV_def ac_simps)
qed

lemma of_nat_u64_inj: "m < 2 ^ 64 \<Longrightarrow> n < 2 ^ 64 \<Longrightarrow> (of_nat m :: u64) = of_nat n \<longleftrightarrow> m = n"
  by (auto dest!: arg_cong [where f = unat] simp: unat_of_nat)

section \<open>Properties\<close>

text \<open>
  The IVs that one client gives to its chunks are pairwise different for the first 2 to the 64
  chunks: \<open>PickNewIV\<close> counts in the first 64-bit word and keeps the random second one.
\<close>

theorem PickNewIV_distinct:
  assumes "length v = CRYPTO_BLOCK_SIZE" and "m < 2 ^ 64" and "n < 2 ^ 64" and "m \<noteq> n"
  shows "(PickNewIV ^^ m) v \<noteq> (PickNewIV ^^ n) v"
proof
  have l: "8 \<le> length v" using assms(1) by (simp add: const_defs)
  assume "(PickNewIV ^^ m) v = (PickNewIV ^^ n) v"
  then have "u64_bytes (bytes_u64 v + of_nat m) = u64_bytes (bytes_u64 v + of_nat n)"
    by (simp add: PickNewIV_iterate [OF l])
  then have "bytes_u64 v + of_nat m = bytes_u64 v + of_nat n" by (metis bytes_u64_u64_bytes)
  then have "(of_nat m :: u64) = of_nat n" by simp
  with assms show False by (simp add: of_nat_u64_inj)
qed

theorem PickNewIV_distinct_witness:
  "(PickNewIV ^^ 1) (replicate 16 255) \<noteq> (PickNewIV ^^ 300) (replicate 16 255)"
  by (rule PickNewIV_distinct) (simp_all add: const_defs)

end
