(* ===== verification/Storage.thy ===== *)
theory Storage
  imports Client
begin

text \<open>
  Containers and recipes: the in-enclave storage core (\<open>ecallStorage.cc\<close>), the helpers every index
  inherits from \<open>EnclaveBase\<close> (\<open>enclaveBase.cc\<close>), the OCALLs they make (\<open>storeOCall.cc\<close>) and the
  out-of-enclave writers (\<open>storageCore.cc\<close>, \<open>dataWriter.cc\<close>). The build option \<open>MULTI_CLIENT\<close> is 0,
  as in \<open>constVar.h\<close>: full containers go through the queue to the writer thread. The contract of the
  chunk store is the locale \<open>chunk_store\<close>.
\<close>

section \<open>Out of the enclave\<close>

definition UpdateRecipeToFile :: "bytes \<Rightarrow> nat \<Rightarrow> bytes option \<Rightarrow> bytes option res" where
  "UpdateRecipeToFile recipeBuffer recipeEntryNum f =
     (case f of
        None \<Rightarrow> Inl (ProcExit ''recipe file does not open.'')
      | Some b \<Rightarrow> Inr (Some (b @ take (recipeEntryNum * RecipeEntry_size) recipeBuffer)))"

text \<open>The head is written over the start of the file, which is then closed.\<close>

definition FinalizeRecipe :: "file_recipe_head \<Rightarrow> bytes option \<Rightarrow> bytes res" where
  "FinalizeRecipe recipeHead f =
     (case f of
        None \<Rightarrow> Inl (ProcExit ''recipe file does not open.'')
      | Some b \<Rightarrow> Inr (memcpy_at b 0 (FileRecipeHead_bytes recipeHead)))"

definition container_data :: "container \<Rightarrow> bytes" where
  "container_data c = take (unat (currentSize c)) (body c)"

text \<open>A container file that cannot be opened ends the process; the name is the container's ID.\<close>

definition SaveToFile :: "(bytes \<Rightarrow> bool) \<Rightarrow> container \<Rightarrow> (bytes \<rightharpoonup> bytes) \<Rightarrow> (bytes \<rightharpoonup> bytes) res" where
  "SaveToFile can_open c files =
     (if can_open (take CONTAINER_ID_LENGTH (containerID c))
      then Inr (files(take CONTAINER_ID_LENGTH (containerID c) \<mapsto> container_data c))
      else Inl (ProcExit ''cannot open container file''))"

definition Ocall_UpdateFileRecipe :: "up_state \<Rightarrow> up_state res" where
  "Ocall_UpdateFileRecipe s =
     rbind (UpdateRecipeToFile (entryList (outRecipe (outc s))) (unat (recipeNum (outRecipe (outc s))))
              (recipeFile (outc s)))
       (\<lambda>f. Inr (s\<lparr>outc := (outc s)\<lparr>recipeFile := f, outRecipe := (outRecipe (outc s))\<lparr>recipeNum := 0\<rparr>\<rparr>\<rparr>))"

definition Ocall_WriteContainer :: "enclave_cfg \<Rightarrow> up_state \<Rightarrow> up_state" where
  "Ocall_WriteContainer C s =
     (let (u, p) = CreateUUID (cfg_rnd C) (randPos (store s)) CONTAINER_ID_LENGTH in
      s\<lparr>outc := (outc s)\<lparr>inputMQ := inputMQ (outc s) @ [curContainer (outc s)],
                        curContainer := (curContainer (outc s))\<lparr>containerID := u, currentSize := 0\<rparr>\<rparr>,
        store := (store s)\<lparr>randPos := p\<rparr>\<rparr>)"

definition Ocall_UpdateIndexStoreBuffer :: "bytes \<Rightarrow> bytes \<Rightarrow> up_state \<Rightarrow> bool \<times> up_state" where
  "Ocall_UpdateIndexStoreBuffer key buffer s =
     (let (r, db) = InMemoryDatabase_InsertBothBuffer (indexStore (store s)) key (length key) buffer (length buffer)
      in (r, s\<lparr>store := (store s)\<lparr>indexStore := db\<rparr>\<rparr>))"

definition Ocall_ReadIndexStore :: "bytes \<Rightarrow> up_state \<Rightarrow> bool \<times> bytes \<times> up_state" where
  "Ocall_ReadIndexStore key s =
     (let (r, v) = InMemoryDatabase_QueryBuffer (indexStore (store s)) key (length key) (tmpQueryBufferStr (outc s))
      in (r, v, s\<lparr>outc := (outc s)\<lparr>tmpQueryBufferStr := v\<rparr>\<rparr>))"

text \<open>The string that receives an address keeps the last one found; a missing key leaves it alone.\<close>

fun Ocall_QueryOutIndex_loop :: "index_map \<Rightarrow> bytes \<Rightarrow> out_query_entry list \<Rightarrow> out_query_entry list" where
  "Ocall_QueryOutIndex_loop db tmp [] = []"
| "Ocall_QueryOutIndex_loop db tmp (e # es) =
     (let (r, v) = InMemoryDatabase_QueryBuffer db (oq_chunkHash e) CHUNK_HASH_SIZE tmp in
      (if r then e\<lparr>oq_dedupFlag := DUPLICATE, oq_chunkAddr := take RecipeEntry_size v\<rparr>
       else e\<lparr>oq_dedupFlag := UNIQUE\<rparr>) # Ocall_QueryOutIndex_loop db v es)"

definition Ocall_QueryOutIndex :: "up_state \<Rightarrow> up_state" where
  "Ocall_QueryOutIndex s =
     s\<lparr>outc := (outc s)\<lparr>outQuery :=
        Ocall_QueryOutIndex_loop (indexStore (store s)) (replicate RecipeEntry_size 0) (outQuery (outc s))\<rparr>\<rparr>"

definition Ocall_UpdateOutIndex :: "up_state \<Rightarrow> up_state" where
  "Ocall_UpdateOutIndex s =
     s\<lparr>store := (store s)\<lparr>indexStore :=
        foldl (\<lambda>db e. if oq_dedupFlag e = UNIQUE
                      then snd (InMemoryDatabase_InsertBothBuffer db (oq_chunkHash e) CHUNK_HASH_SIZE
                                  (oq_chunkAddr e) RecipeEntry_size)
                      else db)
          (indexStore (store s)) (outQuery (outc s))\<rparr>\<rparr>"

section \<open>The storage core of the enclave\<close>

definition put_chunk :: "in_container \<Rightarrow> u32 \<Rightarrow> bytes \<Rightarrow> bytes \<Rightarrow> in_container" where
  "put_chunk ic saveOffset chunkData v =
     ic\<lparr>ic_buf := memcpy_at (memcpy_at (ic_buf ic) (unat saveOffset) chunkData)
                    (unat (saveOffset + of_nat (length chunkData))) (take CRYPTO_BLOCK_SIZE v)\<rparr>"

definition SaveChunk :: "enclave_cfg \<Rightarrow> bytes \<Rightarrow> up_state \<Rightarrow> recipe_entry \<times> up_state" where
  "SaveChunk C chunkData s =
     (let chunkSize = of_nat (length chunkData) :: u32;
          ic = inContainer (sgx s);
          saveOffset = curSize ic;
          fits = of_nat CRYPTO_BLOCK_SIZE + chunkSize + saveOffset < MAX_CONTAINER_SIZE;
          (s1, ic1, off) =
            (if fits then (s, ic, saveOffset)
             else
               let out = curContainer (outc s);
                   out' = out\<lparr>body := memcpy_at (body out) 0 (take (unat (curSize ic)) (ic_buf ic)),
                              currentSize := curSize ic\<rparr>
               in (Ocall_WriteContainer C (s\<lparr>outc := (outc s)\<lparr>curContainer := out'\<rparr>\<rparr>),
                   ic\<lparr>curSize := 0\<rparr>, 0));
          ic2 = put_chunk ic1 off chunkData (iv (sgx s1));
          ic3 = ic2\<lparr>curSize := curSize ic2 + chunkSize + of_nat CRYPTO_BLOCK_SIZE\<rparr>;
          addr = \<lparr>containerName = take CONTAINER_ID_LENGTH (containerID (curContainer (outc s1))),
                  re_offset = off, re_length = chunkSize\<rparr>
      in (addr,
          s1\<lparr>sgx := (sgx s1)\<lparr>inContainer := ic3\<rparr>,
             stats := (stats s1)\<lparr>writtenDataSize := writtenDataSize (stats s1) + ucast chunkSize,
                                writtenChunkNum := writtenChunkNum (stats s1) + 1\<rparr>\<rparr>))"

section \<open>The base class of the indexes\<close>

definition maxSegmentChunkNum :: u32 where
  "maxSegmentChunkNum = MAX_SEGMENT_SIZE div MIN_CHUNK_SIZE"

definition IsEndOfSegment :: "u32 \<Rightarrow> u32 \<Rightarrow> segment \<Rightarrow> bool" where
  "IsEndOfSegment chunkHashVal chunkSize sg =
     (if seg_chunkNum sg + 1 > maxSegmentChunkNum then True
      else if segmentSize sg + chunkSize < MIN_SEGMENT_SIZE then False
      else if segmentSize sg + chunkSize > MAX_SEGMENT_SIZE then True
      else chunkHashVal mod DIVISOR = PATTERN)"

definition ConvertHashToValue :: "bytes \<Rightarrow> u32" where
  "ConvertHashToValue inputHash =
     foldl (\<lambda>hashVal i. hashVal + ucast (inputHash ! i)) 0 [0..<CHUNK_HASH_SIZE]"

definition ResetCurrentSegment :: "up_state \<Rightarrow> up_state" where
  "ResetCurrentSegment s =
     s\<lparr>sgx := (sgx s)\<lparr>seg := (seg (sgx s))\<lparr>seg_chunkNum := 0, minHashVal := - 1, segmentSize := 0\<rparr>\<rparr>\<rparr>"

text \<open>Encrypt the recipe entries collected so far and append them to the recipe file.\<close>

definition flush_recipe :: "enclave_cfg \<Rightarrow> up_state \<Rightarrow> up_state res" where
  "flush_recipe C s =
     (let r = inRecipe (sgx s) in
      rbind (Ecall_EncryptWithKey (cfg_evp C) (cfg_tool C)
               (take (unat (recipeNum r) * RecipeEntry_size) (entryList r)) (masterKey (sgx s))) (\<lambda>x.
      rbind (Ocall_UpdateFileRecipe
               (s\<lparr>outc := (outc s)\<lparr>outRecipe :=
                    \<lparr>recipeNum = recipeNum r, entryList = memcpy_at (entryList (outRecipe (outc s))) 0 x\<rparr>\<rparr>\<rparr>))
        (\<lambda>s'. Inr (s'\<lparr>sgx := (sgx s')\<lparr>inRecipe := r\<lparr>recipeNum := 0\<rparr>\<rparr>\<rparr>))))"

definition UpdateFileRecipe :: "enclave_cfg \<Rightarrow> bytes \<Rightarrow> up_state \<Rightarrow> up_state res" where
  "UpdateFileRecipe C chunkAddrStr s =
     (let r = inRecipe (sgx s);
          r' = \<lparr>recipeNum = recipeNum r + 1,
                entryList = memcpy_at (entryList r) (unat (recipeNum r) * RecipeEntry_size)
                              (take RecipeEntry_size chunkAddrStr)\<rparr>;
          s' = s\<lparr>sgx := (sgx s)\<lparr>inRecipe := r'\<rparr>\<rparr>
      in if unat (recipeNum r') mod sendRecipeBatchSize C = 0 then flush_recipe C s' else Inr s')"

text \<open>
  \<open>ProcessUniqueChunk\<close> works on two buffers of \<open>MAX_CHUNK_SIZE\<close> bytes on the stack; output beyond
  them overwrites the stack.
\<close>

definition ProcessUniqueChunk :: "enclave_cfg \<Rightarrow> bytes \<Rightarrow> up_state \<Rightarrow> (recipe_entry \<times> up_state) res" where
  "ProcessUniqueChunk C chunk s =
     (let v = PickNewIV (iv (sgx s));
          s1 = s\<lparr>sgx := (sgx s)\<lparr>iv := v\<rparr>\<rparr>;
          compressed = cfg_lz4c C chunk;
          plain = (if length compressed > 0 then compressed else chunk) in
      if unat MAX_CHUNK_SIZE < length plain then Inl (Undefined ''stack buffer overflow'')
      else
        let s2 = s1\<lparr>stats := (stats s1)\<lparr>compressedDataSize :=
                      compressedDataSize (stats s1) + of_nat (length plain)\<rparr>\<rparr>
        in rbind (Ecall_EncryptWithKeyIV (cfg_evp C) (cfg_tool C) plain (enclaveKey C) v)
             (\<lambda>x. Inr (SaveChunk C x s2)))"

definition UpdateIndexStore :: "bytes \<Rightarrow> bytes \<Rightarrow> up_state \<Rightarrow> bool \<times> up_state" where
  "UpdateIndexStore key buffer s = Ocall_UpdateIndexStoreBuffer key buffer s"

definition ReadIndexStore :: "bytes \<Rightarrow> up_state \<Rightarrow> bool \<times> bytes \<times> up_state" where
  "ReadIndexStore key s = Ocall_ReadIndexStore key s"

text \<open>The end of an upload, the same in every index but for the work on an open segment.\<close>

definition tail_recipe :: "enclave_cfg \<Rightarrow> up_state \<Rightarrow> up_state res" where
  "tail_recipe C s = (if recipeNum (inRecipe (sgx s)) \<noteq> 0 then flush_recipe C s else Inr s)"

definition tail_container :: "up_state \<Rightarrow> up_state" where
  "tail_container s =
     (let ic = inContainer (sgx s); out = curContainer (outc s) in
      if curSize ic \<noteq> 0
      then s\<lparr>outc := (outc s)\<lparr>curContainer :=
               out\<lparr>body := memcpy_at (body out) 0 (take (unat (curSize ic)) (ic_buf ic)),
                   currentSize := curSize ic\<rparr>\<rparr>\<rparr>
      else s)"

text \<open>
  \<open>DataReceiver::Run\<close> at the end of a connection, and the writer thread when the queue is done.
\<close>

definition last_container :: "enclave_cfg \<Rightarrow> up_state \<Rightarrow> up_state" where
  "last_container C s =
     (if currentSize (curContainer (outc s)) \<noteq> 0 then Ocall_WriteContainer C s else s)"

definition drain_queue :: "(bytes \<Rightarrow> bool) \<Rightarrow> up_state \<Rightarrow> up_state res" where
  "drain_queue can_open s =
     rbind (rfold (SaveToFile can_open) (inputMQ (outc s)) (containerFiles (store s)))
       (\<lambda>files. Inr (s\<lparr>outc := (outc s)\<lparr>inputMQ := []\<rparr>, store := (store s)\<lparr>containerFiles := files\<rparr>\<rparr>))"

section \<open>Reading a chunk back\<close>

text \<open>
  The decoding of \<open>EcallRecvDecoder::RecoverOneChunk\<close>: the chunk is followed by its IV, and it is
  taken as compressed exactly when it decompresses.
\<close>

definition recover_chunk :: "enclave_cfg \<Rightarrow> bytes \<Rightarrow> bytes \<Rightarrow> bytes res" where
  "recover_chunk C x v =
     rbind (Ecall_DecryptionWithKeyIV (cfg_evp C) (cfg_tool C) x (enclaveKey C) v)
       (\<lambda>p. Inr (case cfg_lz4d C p of
                   Some d \<Rightarrow> if length d > 0 then d else p
                 | None \<Rightarrow> p))"

end
