(* ===== verification/ChunkStore.thy ===== *)
theory ChunkStore
  imports Storage
begin

text \<open>
  Where a recipe entry points: the containers on disk, those waiting in the queue and the one still
  inside the enclave, seen as one map. \<open>SaveChunk\<close> and \<open>ProcessUniqueChunk\<close> add a chunk to it and
  keep every chunk that was there. The contract is the locale \<open>chunk_store\<close>; the lemmas that the
  five indexes share on top of it are proved inside.
\<close>

section \<open>The containers as one map\<close>

definition mq_map :: "container list \<Rightarrow> bytes \<rightharpoonup> bytes" where
  "mq_map q = foldl (\<lambda>m c. m(take CONTAINER_ID_LENGTH (containerID c) \<mapsto> container_data c)) Map.empty q"

definition cur_name :: "up_state \<Rightarrow> bytes" where
  "cur_name s = take CONTAINER_ID_LENGTH (containerID (curContainer (outc s)))"

definition stored_container :: "up_state \<Rightarrow> bytes \<rightharpoonup> bytes" where
  "stored_container s =
     (containerFiles (store s) ++ mq_map (inputMQ (outc s)))
       (cur_name s \<mapsto> take (unat (curSize (inContainer (sgx s)))) (ic_buf (inContainer (sgx s))))"

text \<open>
  The bytes of a chunk and the IV behind them, when the container has them and the chunk fits the
  buffer it is decrypted into; the chunk they stand for, when it fits a chunk buffer.
\<close>

definition raw_in :: "(bytes \<rightharpoonup> bytes) \<Rightarrow> recipe_entry \<Rightarrow> (bytes \<times> bytes) option" where
  "raw_in m a =
     (case m (containerName a) of
        None \<Rightarrow> None
      | Some b \<Rightarrow>
          (let off = unat (re_offset a); len = unat (re_length a) in
           if off + len + CRYPTO_BLOCK_SIZE \<le> length b \<and> len \<le> unat MAX_CHUNK_SIZE
           then Some (read_at b off len, read_at b (off + len) CRYPTO_BLOCK_SIZE) else None))"

definition raw_at :: "up_state \<Rightarrow> recipe_entry \<Rightarrow> (bytes \<times> bytes) option" where
  "raw_at s = raw_in (stored_container s)"

definition resolve :: "enclave_cfg \<Rightarrow> up_state \<Rightarrow> recipe_entry \<Rightarrow> bytes option" where
  "resolve C s a =
     (case raw_at s a of
        None \<Rightarrow> None
      | Some (x, v) \<Rightarrow>
          (case recover_chunk C x v of Inl _ \<Rightarrow> None | Inr d \<Rightarrow> if length d \<le> unat MAX_CHUNK_SIZE then Some d else None))"

section \<open>The invariant\<close>

definition used_names :: "up_state \<Rightarrow> bytes set" where
  "used_names s = insert (cur_name s) (dom (containerFiles (store s)) \<union> dom (mq_map (inputMQ (outc s))))"

definition uuid_at :: "enclave_cfg \<Rightarrow> nat \<Rightarrow> bytes" where
  "uuid_at C p = fst (CreateUUID (cfg_rnd C) p CONTAINER_ID_LENGTH)"

text \<open>The next \<open>n\<close> container names that will be drawn, from position \<open>p\<close> on, are new and different.\<close>

definition fresh_from :: "enclave_cfg \<Rightarrow> nat \<Rightarrow> nat \<Rightarrow> bytes set \<Rightarrow> bool" where
  "fresh_from C n p U \<longleftrightarrow>
     (let ids = map (\<lambda>i. uuid_at C (p + CONTAINER_ID_LENGTH * i)) [0..<n]
      in distinct ids \<and> set ids \<inter> U = {})"

definition fresh_ids :: "enclave_cfg \<Rightarrow> nat \<Rightarrow> up_state \<Rightarrow> bool" where
  "fresh_ids C n s \<longleftrightarrow> fresh_from C n (randPos (store s)) (used_names s)"

text \<open>What LZ4 documents: a compressed chunk fits the capacity it was given and decompresses.\<close>

definition lz4_ok :: "enclave_cfg \<Rightarrow> bool" where
  "lz4_ok C \<longleftrightarrow> (\<forall>d. d \<noteq> [] \<and> length d \<le> unat MAX_CHUNK_SIZE \<and> cfg_lz4c C d \<noteq> [] \<longrightarrow>
     length (cfg_lz4c C d) \<le> length d \<and> cfg_lz4d C (cfg_lz4c C d) = Some d)"

text \<open>
  A chunk that the program restores: it fits a chunk buffer and, when it is stored without
  compression, it is not by chance a valid compressed block.
\<close>

definition chunk_ok :: "enclave_cfg \<Rightarrow> bytes \<Rightarrow> bool" where
  "chunk_ok C d \<longleftrightarrow> d \<noteq> [] \<and> length d \<le> unat MAX_CHUNK_SIZE \<and>
     (cfg_lz4c C d = [] \<longrightarrow> cfg_lz4d C d = None \<or> cfg_lz4d C d = Some [])"

definition cfg_ok :: "enclave_cfg \<Rightarrow> bool" where
  "cfg_ok C \<longleftrightarrow> evp_ok (cfg_evp C) \<and> tool_ok (cfg_tool C) \<and> hashType (cfg_tool C) = SHA_256 \<and>
     key_ok (enclaveKey C) \<and> key_ok (indexQueryKey C) \<and>
     0 < sendRecipeBatchSize C \<and> sendRecipeBatchSize C < 2 ^ 32 \<and> lz4_ok C"

definition container_inv :: "up_state \<Rightarrow> bool" where
  "container_inv s \<longleftrightarrow>
     length (iv (sgx s)) = CRYPTO_BLOCK_SIZE \<and>
     length (containerID (curContainer (outc s))) = CONTAINER_ID_LENGTH \<and>
     unat (curSize (inContainer (sgx s))) \<le> length (ic_buf (inContainer (sgx s))) \<and>
     unat (curSize (inContainer (sgx s))) < unat MAX_CONTAINER_SIZE \<and>
     length (ic_buf (inContainer (sgx s))) \<le> unat MAX_CONTAINER_SIZE \<and>
     currentSize (curContainer (outc s)) = 0 \<and>
     cur_name s \<notin> dom (containerFiles (store s)) \<union> dom (mq_map (inputMQ (outc s))) \<and>
     (\<forall>b \<in> ran (containerFiles (store s) ++ mq_map (inputMQ (outc s))). length b \<le> unat MAX_CONTAINER_SIZE)"

section \<open>Saving a chunk\<close>

lemma mq_map_snoc:
  "mq_map (q @ [c]) = (mq_map q)(take CONTAINER_ID_LENGTH (containerID c) \<mapsto> container_data c)"
  by (simp add: mq_map_def)

lemma fresh_from_Suc:
  assumes "fresh_from C (Suc n) p U"
  shows "uuid_at C p \<notin> U" and "fresh_from C n p U" and "U' \<subseteq> insert (uuid_at C p) U \<Longrightarrow> fresh_from C n (p + CONTAINER_ID_LENGTH) U'"
proof -
  let ?u = "\<lambda>i. uuid_at C (p + CONTAINER_ID_LENGTH * i)"
  have s0: "map ?u [0..<Suc n] = ?u 0 # map (\<lambda>i. ?u (Suc i)) [0..<n]"
    by (simp only: map_upt_Suc)
  from assms have d: "distinct (map ?u [0..<Suc n])" and e: "set (map ?u [0..<Suc n]) \<inter> U = {}"
    by (simp_all only: fresh_from_def Let_def)
  show "uuid_at C p \<notin> U" using e unfolding s0 by auto
  show "fresh_from C n p U" using d e by (simp add: fresh_from_def)
  assume sub: "U' \<subseteq> insert (uuid_at C p) U"
  have m: "map (\<lambda>i. uuid_at C (p + CONTAINER_ID_LENGTH + CONTAINER_ID_LENGTH * i)) [0..<n] = map (\<lambda>i. ?u (Suc i)) [0..<n]"
    by (simp add: algebra_simps)
  have d1: "distinct (map (\<lambda>i. ?u (Suc i)) [0..<n])" and n0: "?u 0 \<notin> set (map (\<lambda>i. ?u (Suc i)) [0..<n])"
    and dis: "set (map (\<lambda>i. ?u (Suc i)) [0..<n]) \<inter> U = {}"
    using d e unfolding s0 by auto
  have u0: "?u 0 = uuid_at C p" by simp
  have "set (map (\<lambda>i. ?u (Suc i)) [0..<n]) \<inter> U' = {}"
    using sub n0 dis unfolding u0 by blast
  with d1 show "fresh_from C n (p + CONTAINER_ID_LENGTH) U'" by (simp only: fresh_from_def Let_def m)
qed

lemma fresh_ids_Suc:
  assumes "fresh_ids C (Suc n) s"
  shows "uuid_at C (randPos (store s)) \<notin> used_names s"
    and "fresh_ids C n s"
    and "used_names s' \<subseteq> insert (uuid_at C (randPos (store s))) (used_names s) \<Longrightarrow>
         randPos (store s') = randPos (store s) + CONTAINER_ID_LENGTH \<Longrightarrow> fresh_ids C n s'"
  using fresh_from_Suc [OF assms [unfolded fresh_ids_def]] by (simp_all add: fresh_ids_def)

lemma fresh_ids_cong:
  "used_names s' = used_names s \<Longrightarrow> randPos (store s') = randPos (store s) \<Longrightarrow> fresh_ids C n s' = fresh_ids C n s"
  by (simp add: fresh_ids_def)

text \<open>Writing behind the end of the used part keeps the part and adds the new bytes.\<close>

lemma put_chunk_buf:
  assumes "unat off \<le> length (ic_buf ic)" and "unat off + length x < 2 ^ 32" and "length v = CRYPTO_BLOCK_SIZE"
  shows "take (unat off) (ic_buf (put_chunk ic off x v)) = take (unat off) (ic_buf ic)"
    and "take (unat off + length x + CRYPTO_BLOCK_SIZE) (ic_buf (put_chunk ic off x v)) =
         take (unat off) (ic_buf ic) @ x @ v"
    and "length (ic_buf (put_chunk ic off x v)) = max (length (ic_buf ic)) (unat off + length x + CRYPTO_BLOCK_SIZE)"
proof -
  have o2: "unat (off + of_nat (length x)) = unat off + length x"
    using assms(2) by (subst unat_add_u32) (simp_all add: unat_of_nat_u32)
  let ?b1 = "memcpy_at (ic_buf ic) (unat off) x"
  have b1: "take (unat off + length x) ?b1 = take (unat off) (ic_buf ic) @ x"
    using assms(1) by (simp add: memcpy_at_def)
  have b2: "ic_buf (put_chunk ic off x v) =
      take (unat off + length x) ?b1 @ v @ drop (unat off + length x + length v) ?b1"
    using assms(1,3) by (simp add: put_chunk_def o2 memcpy_at_def [of ?b1])
  show "take (unat off + length x + CRYPTO_BLOCK_SIZE) (ic_buf (put_chunk ic off x v)) =
      take (unat off) (ic_buf ic) @ x @ v"
    unfolding b2 b1 using assms(1,3) by simp
  show "take (unat off) (ic_buf (put_chunk ic off x v)) = take (unat off) (ic_buf ic)"
    unfolding b2 b1 using assms(1) by simp
  show "length (ic_buf (put_chunk ic off x v)) = max (length (ic_buf ic)) (unat off + length x + CRYPTO_BLOCK_SIZE)"
    by (simp add: put_chunk_def o2 assms(3))
qed

text \<open>A map of containers that grows keeps what it had.\<close>

definition grows :: "(bytes \<rightharpoonup> bytes) \<Rightarrow> (bytes \<rightharpoonup> bytes) \<Rightarrow> bool" where
  "grows m m' \<longleftrightarrow> (\<forall>n b. m n = Some b \<longrightarrow> (\<exists>b'. m' n = Some b' \<and> take (length b) b' = b))"

definition extends :: "up_state \<Rightarrow> up_state \<Rightarrow> bool" where
  "extends s s' \<longleftrightarrow> grows (stored_container s) (stored_container s')"

lemma grows_refl [simp]: "grows m m"
  by (simp add: grows_def)

lemma grows_trans: "grows m1 m2 \<Longrightarrow> grows m2 m3 \<Longrightarrow> grows m1 m3"
proof -
  assume g: "grows m1 m2" "grows m2 m3"
  have "\<exists>b'. m3 n = Some b' \<and> take (length b) b' = b" if "m1 n = Some b" for n b
  proof -
    from g(1) that obtain b2 where b2: "m2 n = Some b2" "take (length b) b2 = b" unfolding grows_def by blast
    from g(2) b2(1) obtain b3 where b3: "m3 n = Some b3" "take (length b2) b3 = b2" unfolding grows_def by blast
    have "length b \<le> length b2" using b2(2) by (metis length_take min.cobounded1 min.commute)
    then show ?thesis using b2(2) b3 by (metis min.absorb1 take_take)
  qed
  then show ?thesis by (simp add: grows_def)
qed

lemma growsE:
  assumes "grows m m'" and "m n = Some b"
  obtains b' where "m' n = Some b'" and "take (length b) b' = b" and "length b \<le> length b'"
    and "\<And>i k. i + k \<le> length b \<Longrightarrow> read_at b' i k = read_at b i k"
proof -
  from assms obtain b' where b': "m' n = Some b'" "take (length b) b' = b" unfolding grows_def by blast
  moreover have "length b \<le> length b'" using b'(2) by (metis length_take min.cobounded1 min.commute)
  moreover have "read_at b' i k = read_at b i k" if "i + k \<le> length b" for i k
    using that b'(2) unfolding read_at_def by (metis add.commute min.absorb1 take_drop take_take)
  ultimately show thesis using that by blast
qed

lemma extends_refl [simp]: "extends s s"
  by (simp add: extends_def)

lemma extends_trans: "extends s1 s2 \<Longrightarrow> extends s2 s3 \<Longrightarrow> extends s1 s3"
  unfolding extends_def by (rule grows_trans)

lemma extends_raw_at:
  assumes "extends s s'" and "raw_at s a = Some r"
  shows "raw_at s' a = Some r"
proof -
  let ?o = "unat (re_offset a)" and ?l = "unat (re_length a)"
  from assms(2) obtain b where b: "stored_container s (containerName a) = Some b"
    and le: "?o + ?l + CRYPTO_BLOCK_SIZE \<le> length b" "?l \<le> unat MAX_CHUNK_SIZE"
    and r: "r = (read_at b ?o ?l, read_at b (?o + ?l) CRYPTO_BLOCK_SIZE)"
    by (auto simp: raw_at_def raw_in_def Let_def split: option.splits if_splits)
  from assms(1) b obtain b' where "stored_container s' (containerName a) = Some b'" "length b \<le> length b'"
      "\<And>i k. i + k \<le> length b \<Longrightarrow> read_at b' i k = read_at b i k"
    unfolding extends_def by (elim growsE) blast+
  with le r show ?thesis by (simp add: raw_at_def raw_in_def Let_def)
qed

lemma extends_resolve: "extends s s' \<Longrightarrow> resolve C s a = Some d \<Longrightarrow> resolve C s' a = Some d"
  by (auto simp: resolve_def extends_raw_at split: option.splits)

text \<open>Rolling over to a new container moves the old one to the queue.\<close>

definition rollover :: "enclave_cfg \<Rightarrow> up_state \<Rightarrow> up_state" where
  "rollover C s =
     (let ic = inContainer (sgx s); out = curContainer (outc s) in
      (Ocall_WriteContainer C
        (s\<lparr>outc := (outc s)\<lparr>curContainer :=
            out\<lparr>body := memcpy_at (body out) 0 (take (unat (curSize ic)) (ic_buf ic)),
                currentSize := curSize ic\<rparr>\<rparr>\<rparr>))
        \<lparr>sgx := (sgx s)\<lparr>inContainer := ic\<lparr>curSize := 0\<rparr>\<rparr>\<rparr>)"

lemma Ocall_WriteContainer_simps [simp]:
  "sgx (Ocall_WriteContainer C s) = sgx s"
  "stats (Ocall_WriteContainer C s) = stats s"
  "inputMQ (outc (Ocall_WriteContainer C s)) = inputMQ (outc s) @ [curContainer (outc s)]"
  "containerID (curContainer (outc (Ocall_WriteContainer C s))) = uuid_at C (randPos (store s))"
  "currentSize (curContainer (outc (Ocall_WriteContainer C s))) = 0"
  "containerFiles (store (Ocall_WriteContainer C s)) = containerFiles (store s)"
  "indexStore (store (Ocall_WriteContainer C s)) = indexStore (store s)"
  "randPos (store (Ocall_WriteContainer C s)) = randPos (store s) + CONTAINER_ID_LENGTH"
  "outRecipe (outc (Ocall_WriteContainer C s)) = outRecipe (outc s)"
  "outQuery (outc (Ocall_WriteContainer C s)) = outQuery (outc s)"
  "recipeFile (outc (Ocall_WriteContainer C s)) = recipeFile (outc s)"
  "tmpQueryBufferStr (outc (Ocall_WriteContainer C s)) = tmpQueryBufferStr (outc s)"
  by (simp_all add: Ocall_WriteContainer_def uuid_at_def CreateUUID_def)

lemma length_uuid_at [simp]: "length (uuid_at C p) = CONTAINER_ID_LENGTH"
  by (simp add: uuid_at_def)

lemma rollover_data:
  assumes "unat (curSize (inContainer (sgx s))) \<le> length (ic_buf (inContainer (sgx s)))"
  shows "mq_map (inputMQ (outc (rollover C s))) =
    (mq_map (inputMQ (outc s)))(cur_name s \<mapsto> take (unat (curSize (inContainer (sgx s)))) (ic_buf (inContainer (sgx s))))"
  using assms
  by (simp add: rollover_def Let_def mq_map_snoc cur_name_def container_data_def memcpy_at_def)

lemma rollover_inv:
  assumes inv: "container_inv s" and f: "fresh_ids C (Suc n) s"
  shows "container_inv (rollover C s)" and "fresh_ids C n (rollover C s)" and "extends s (rollover C s)"
    and "curSize (inContainer (sgx (rollover C s))) = 0"
proof -
  let ?r = "rollover C s" and ?u = "uuid_at C (randPos (store s))"
  from inv have le: "unat (curSize (inContainer (sgx s))) \<le> length (ic_buf (inContainer (sgx s)))"
    by (simp add: container_inv_def)
  have name: "cur_name ?r = ?u"
    by (simp add: cur_name_def rollover_def Let_def)
  have files: "containerFiles (store ?r) = containerFiles (store s)"
    by (simp add: rollover_def Let_def)
  note mq = rollover_data [OF le, of C]
  have new: "?u \<notin> used_names s" using fresh_ids_Suc(1) [OF f] .
  show "curSize (inContainer (sgx ?r)) = 0" by (simp add: rollover_def Let_def)
  have "\<forall>b \<in> ran (containerFiles (store s) ++ mq_map (inputMQ (outc ?r))). length b \<le> unat MAX_CONTAINER_SIZE"
    using inv unfolding mq map_add_upd by (intro ran_upd_ball) (auto simp: container_inv_def)
  then show "container_inv ?r"
    using inv new unfolding container_inv_def name files mq
    by (auto simp: used_names_def rollover_def Let_def)
  have "used_names ?r \<subseteq> insert ?u (used_names s)"
    unfolding used_names_def name files mq by auto
  then show "fresh_ids C n ?r"
    by (rule fresh_ids_Suc(3) [OF f]) (simp add: rollover_def Let_def)
  have "stored_container ?r m = Some b" if "stored_container s m = Some b" for m b
  proof -
    have "m \<in> used_names s"
      using that by (auto simp: stored_container_def used_names_def split: if_splits)
    then have "m \<noteq> ?u" using new by auto
    with that show ?thesis
      unfolding stored_container_def name files mq
      by (auto simp: map_add_def split: if_splits)
  qed
  then show "extends s ?r" by (simp add: extends_def grows_def)
qed

lemma SaveChunk_unfold:
  "SaveChunk C x s =
     (let fits = of_nat CRYPTO_BLOCK_SIZE + of_nat (length x) + curSize (inContainer (sgx s)) < MAX_CONTAINER_SIZE;
          s1 = (if fits then s else rollover C s);
          ic = put_chunk (inContainer (sgx s1)) (curSize (inContainer (sgx s1))) x (iv (sgx s1))
      in (\<lparr>containerName = cur_name s1, re_offset = curSize (inContainer (sgx s1)), re_length = of_nat (length x)\<rparr>,
          s1\<lparr>sgx := (sgx s1)\<lparr>inContainer := ic\<lparr>curSize := curSize ic + of_nat (length x) + of_nat CRYPTO_BLOCK_SIZE\<rparr>\<rparr>,
             stats := (stats s1)\<lparr>writtenDataSize := writtenDataSize (stats s1) + ucast (of_nat (length x) :: u32),
                                writtenChunkNum := writtenChunkNum (stats s1) + 1\<rparr>\<rparr>))"
  by (simp add: SaveChunk_def rollover_def Let_def cur_name_def)

text \<open>Appending a chunk to a container with room for it.\<close>

lemma append_chunk:
  fixes s :: up_state and x :: bytes and st :: statistics
  assumes inv: "container_inv s" and fits: "unat (curSize (inContainer (sgx s))) + length x + CRYPTO_BLOCK_SIZE < unat MAX_CONTAINER_SIZE"
    and small_x: "length x \<le> unat MAX_CHUNK_SIZE"
  defines "ic \<equiv> put_chunk (inContainer (sgx s)) (curSize (inContainer (sgx s))) x (iv (sgx s))"
  defines "s' \<equiv> s\<lparr>sgx := (sgx s)\<lparr>inContainer := ic\<lparr>curSize := curSize ic + of_nat (length x) + of_nat CRYPTO_BLOCK_SIZE\<rparr>\<rparr>, stats := st\<rparr>"
  shows "container_inv s'" and "extends s s'" and "used_names s' = used_names s"
    and "raw_at s' \<lparr>containerName = cur_name s, re_offset = curSize (inContainer (sgx s)), re_length = of_nat (length x)\<rparr>
      = Some (x, iv (sgx s))"
proof -
  let ?c = "curSize (inContainer (sgx s))" and ?b = "ic_buf (inContainer (sgx s))"
  from inv have le: "unat ?c \<le> length ?b" and v: "length (iv (sgx s)) = CRYPTO_BLOCK_SIZE"
    by (auto simp: container_inv_def)
  have small: "unat ?c + length x < 2 ^ 32" and lx: "length x < 4194304" and c: "unat ?c < 4194304"
    using fits by (simp_all add: const_defs)
  note pc = put_chunk_buf [OF le small v, folded ic_def]
  have cs: "curSize ic = ?c" by (simp add: ic_def put_chunk_def)
  have "unat (?c + of_nat (length x)) = unat ?c + length x"
    using small by (subst unat_add_u32) (simp_all add: unat_of_nat_u32)
  then have sz: "unat (?c + of_nat (length x) + of_nat CRYPTO_BLOCK_SIZE) = unat ?c + length x + CRYPTO_BLOCK_SIZE"
    using lx c by (subst unat_add_u32) (simp_all add: const_defs)
  have name: "cur_name s' = cur_name s" by (simp add: s'_def cur_name_def)
  show "used_names s' = used_names s" by (simp add: used_names_def name) (simp add: s'_def)
  show "container_inv s'"
    using inv fits pc(3) sz cs by (simp add: container_inv_def name) (simp add: s'_def)
  have st: "stored_container s' = (containerFiles (store s) ++ mq_map (inputMQ (outc s)))
      (cur_name s \<mapsto> take (unat ?c) ?b @ x @ iv (sgx s))"
    using sz pc(2) cs unfolding stored_container_def name by (simp add: s'_def)
  show "extends s s'"
    using le unfolding extends_def grows_def st by (auto simp: stored_container_def split: if_splits)
  have len: "unat (of_nat (length x) :: u32) = length x" using lx by (simp add: unat_of_nat_u32)
  show "raw_at s' \<lparr>containerName = cur_name s, re_offset = ?c, re_length = of_nat (length x)\<rparr> = Some (x, iv (sgx s))"
    using le v small_x by (simp add: raw_at_def raw_in_def st len read_at_def Let_def)
qed

lemma SaveChunk_ok:
  assumes inv: "container_inv s" and f: "fresh_ids C (Suc n) s" and x: "length x \<le> unat MAX_CHUNK_SIZE"
  shows "\<exists>a s'. SaveChunk C x s = (a, s') \<and> container_inv s' \<and> fresh_ids C n s' \<and> extends s s' \<and>
     raw_at s' a = Some (x, iv (sgx s)) \<and> wf_entry a"
proof -
  let ?c = "curSize (inContainer (sgx s))"
  let ?fits = "of_nat CRYPTO_BLOCK_SIZE + of_nat (length x) + ?c < MAX_CONTAINER_SIZE"
  let ?s1 = "if ?fits then s else rollover C s"
  have c: "unat ?c < 4194304" using inv by (simp add: container_inv_def const_defs)
  have len: "unat (of_nat (length x) :: u32) = length x"
    using x by (simp add: unat_of_nat_u32 const_defs)
  have "unat (of_nat CRYPTO_BLOCK_SIZE + of_nat (length x) :: u32) = CRYPTO_BLOCK_SIZE + length x"
    using x len by (subst unat_add_u32) (simp_all add: const_defs)
  then have "unat (of_nat CRYPTO_BLOCK_SIZE + of_nat (length x) + ?c) = CRYPTO_BLOCK_SIZE + length x + unat ?c"
    using x c by (subst unat_add_u32) (simp_all add: const_defs)
  then have fits: "?fits \<longleftrightarrow> unat ?c + length x + CRYPTO_BLOCK_SIZE < unat MAX_CONTAINER_SIZE"
    unfolding word_less_nat_alt by linarith
  have s1: "container_inv ?s1" "fresh_ids C n ?s1" "extends s ?s1"
      "unat (curSize (inContainer (sgx ?s1))) + length x + CRYPTO_BLOCK_SIZE < unat MAX_CONTAINER_SIZE"
    using inv fresh_ids_Suc(2) [OF f] rollover_inv [OF inv f] x fits
    by (auto simp: const_defs)
  have ivs: "iv (sgx ?s1) = iv (sgx s)" by (simp add: rollover_def Let_def)
  note ap = append_chunk [OF s1(1,4) x]
  obtain a s' where r: "SaveChunk C x s = (a, s')" by (cases "SaveChunk C x s")
  let ?ic = "put_chunk (inContainer (sgx ?s1)) (curSize (inContainer (sgx ?s1))) x (iv (sgx ?s1))"
  have a: "a = \<lparr>containerName = cur_name ?s1, re_offset = curSize (inContainer (sgx ?s1)), re_length = of_nat (length x)\<rparr>"
    and s': "s' = ?s1\<lparr>sgx := (sgx ?s1)\<lparr>inContainer := ?ic\<lparr>curSize := curSize ?ic + of_nat (length x) + of_nat CRYPTO_BLOCK_SIZE\<rparr>\<rparr>,
             stats := (stats ?s1)\<lparr>writtenDataSize := writtenDataSize (stats ?s1) + ucast (of_nat (length x) :: u32),
                                writtenChunkNum := writtenChunkNum (stats ?s1) + 1\<rparr>\<rparr>"
    using r unfolding SaveChunk_unfold Let_def by auto
  have "fresh_ids C n s'"
    unfolding s' by (subst fresh_ids_cong [OF ap(3)]) (simp_all add: s1(2))
  moreover have "wf_entry a"
    using s1(1) by (simp add: a wf_entry_def cur_name_def container_inv_def)
  moreover have "container_inv s'" unfolding s' by (rule ap(1))
  moreover have "extends s s'" unfolding s' by (rule extends_trans [OF s1(3) ap(2)])
  moreover have "raw_at s' a = Some (x, iv (sgx s))"
    unfolding s' a using ap(4) by (simp only: ivs)
  ultimately show ?thesis using r by blast
qed

section \<open>Unique chunks\<close>

text \<open>What the container operations leave alone.\<close>

definition same_rest :: "up_state \<Rightarrow> up_state \<Rightarrow> bool" where
  "same_rest s s' \<longleftrightarrow>
     indexStore (store s') = indexStore (store s) \<and> inRecipe (sgx s') = inRecipe (sgx s) \<and>
     sessionKey (sgx s') = sessionKey (sgx s) \<and> masterKey (sgx s') = masterKey (sgx s) \<and>
     recvBuffer (sgx s') = recvBuffer (sgx s) \<and> seg (sgx s') = seg (sgx s) \<and>
     localIndex (sgx s') = localIndex (sgx s) \<and> outRecipe (outc s') = outRecipe (outc s) \<and>
     outQuery (outc s') = outQuery (outc s) \<and> recipeFile (outc s') = recipeFile (outc s) \<and>
     tmpQueryBufferStr (outc s') = tmpQueryBufferStr (outc s)"

lemma SaveChunk_same_rest: "same_rest s (snd (SaveChunk C x s))"
  by (simp add: SaveChunk_unfold same_rest_def rollover_def Let_def)

definition store_inv :: "enclave_cfg \<Rightarrow> nat \<Rightarrow> up_state \<Rightarrow> bool" where
  "store_inv C n s \<longleftrightarrow> cfg_ok C \<and> container_inv s \<and> fresh_ids C n s"

lemma ProcessUniqueChunk_ok:
  assumes inv: "store_inv C (Suc n) s" and d: "chunk_ok C d"
  shows "\<exists>a s'. ProcessUniqueChunk C d s = Inr (a, s') \<and> store_inv C n s' \<and> extends s s' \<and>
     resolve C s' a = Some d \<and> wf_entry a \<and> same_rest s s'"
proof -
  let ?v = "PickNewIV (iv (sgx s))"
  let ?p = "if length (cfg_lz4c C d) > 0 then cfg_lz4c C d else d"
  let ?s2 = "s\<lparr>sgx := (sgx s)\<lparr>iv := ?v\<rparr>, stats := (stats s)\<lparr>compressedDataSize :=
                      compressedDataSize (stats s) + of_nat (length ?p)\<rparr>\<rparr>"
  from inv have C: "cfg_ok C" and ci: "container_inv s" and f: "fresh_ids C (Suc n) s"
    by (auto simp: store_inv_def)
  have p: "length ?p \<le> unat MAX_CHUNK_SIZE"
    using C d by (auto simp: cfg_ok_def lz4_ok_def chunk_ok_def)
  have v: "length ?v = CRYPTO_BLOCK_SIZE"
    using ci by (simp add: container_inv_def length_PickNewIV const_defs)
  have "iv_good (cfg_evp C) (enclaveKey C, ?v) ?p"
    using C v by (simp add: iv_good_def cfg_ok_def)
  from with_iv.encE [OF this, of "cfg_tool C"] obtain x
    where x: "Ecall_EncryptWithKeyIV (cfg_evp C) (cfg_tool C) ?p (enclaveKey C) ?v = Inr x" "length x = length ?p"
      "Ecall_DecryptionWithKeyIV (cfg_evp C) (cfg_tool C) x (enclaveKey C) ?v = Inr ?p"
    by auto
  have names: "used_names ?s2 = used_names s" "stored_container ?s2 = stored_container s"
    by (simp_all add: used_names_def stored_container_def cur_name_def)
  have "cur_name ?s2 = cur_name s" by (simp add: cur_name_def)
  with ci v have ci2: "container_inv ?s2" by (simp add: container_inv_def)
  have f2: "fresh_ids C (Suc n) ?s2" using f names by (subst fresh_ids_cong) simp_all
  have lx: "length x \<le> unat MAX_CHUNK_SIZE" using x(2) p by (simp only:)
  have ivs: "iv (sgx ?s2) = ?v" by simp
  from SaveChunk_ok [OF ci2 f2 lx, unfolded ivs]
  obtain a s' where sv: "SaveChunk C x ?s2 = (a, s')" "container_inv s'" "fresh_ids C n s'" "extends ?s2 s'"
      "raw_at s' a = Some (x, ?v)" "wf_entry a"
    by blast
  have "recover_chunk C x ?v = Inr d"
    using x(3) C d by (auto simp: recover_chunk_def cfg_ok_def lz4_ok_def chunk_ok_def)
  then have "resolve C s' a = Some d" using d by (simp add: resolve_def sv(5) chunk_ok_def)
  moreover have "same_rest s s'"
    using SaveChunk_same_rest [of ?s2 C x] sv(1) by (simp add: same_rest_def)
  moreover have "extends s s'" using sv(4) unfolding extends_def names .
  moreover have "ProcessUniqueChunk C d s = Inr (a, s')"
    using x(1) p sv(1) by (simp add: ProcessUniqueChunk_def Let_def not_less)
  ultimately show ?thesis using sv C by (auto simp: store_inv_def)
qed

section \<open>The contract of the chunk store\<close>

text \<open>
  \<open>inv n s\<close> says that the store works for \<open>n\<close> more chunks. Saving a chunk gives an address that
  resolves to it, and no address that resolved before changes its meaning.
\<close>

locale chunk_store =
  fixes inv :: "nat \<Rightarrow> 's \<Rightarrow> bool" and resolves :: "'s \<Rightarrow> 'a \<Rightarrow> 'd option"
    and save :: "'d \<Rightarrow> 's \<Rightarrow> ('a \<times> 's) res" and good :: "'d \<Rightarrow> bool"
  assumes save_ok: "inv (Suc n) s \<Longrightarrow> good d \<Longrightarrow>
    \<exists>a s'. save d s = Inr (a, s') \<and> inv n s' \<and> resolves s' a = Some d \<and>
      (\<forall>b x. resolves s b = Some x \<longrightarrow> resolves s' b = Some x)"
begin

text \<open>An index is sound for a fingerprint when every address it holds resolves to a chunk with it.\<close>

definition sound :: "('d \<Rightarrow> 'fp) \<Rightarrow> 's \<Rightarrow> ('fp \<rightharpoonup> 'a) \<Rightarrow> bool" where
  "sound fp s m \<longleftrightarrow> (\<forall>k a. m k = Some a \<longrightarrow> (\<exists>d. resolves s a = Some d \<and> fp d = k))"

lemma sound_empty: "sound fp s Map.empty"
  by (simp add: sound_def)

lemma sound_keep:
  "sound fp s m \<Longrightarrow> (\<And>b x. resolves s b = Some x \<Longrightarrow> resolves s' b = Some x) \<Longrightarrow> sound fp s' m"
  unfolding sound_def by blast

lemma sound_upd: "sound fp s m \<Longrightarrow> resolves s a = Some d \<Longrightarrow> sound fp s (m(fp d \<mapsto> a))"
  by (auto simp: sound_def)

text \<open>Deduplicating one chunk against a sound index.\<close>

lemma dedup_chunk:
  assumes "inv (Suc n) s" and "good d" and "sound fp s m" and "m (fp d) = None"
  shows "\<exists>a s'. save d s = Inr (a, s') \<and> inv n s' \<and> resolves s' a = Some d \<and>
     sound fp s' (m(fp d \<mapsto> a)) \<and> (\<forall>b x. resolves s b = Some x \<longrightarrow> resolves s' b = Some x)"
proof -
  from save_ok [OF assms(1,2)] obtain a s' where r: "save d s = Inr (a, s')" "inv n s'" "resolves s' a = Some d"
      "\<forall>b x. resolves s b = Some x \<longrightarrow> resolves s' b = Some x"
    by blast
  have "sound fp s' (m(fp d \<mapsto> a))"
    using sound_upd [OF sound_keep [OF assms(3)]] r(3,4) by blast
  with r show ?thesis by blast
qed

end

interpretation containers: chunk_store "store_inv C" "resolve C" "ProcessUniqueChunk C" "chunk_ok C" for C
proof unfold_locales
  fix n s d
  assume "store_inv C (Suc n) s" and "chunk_ok C d"
  from ProcessUniqueChunk_ok [OF this]
  show "\<exists>a s'. ProcessUniqueChunk C d s = Inr (a, s') \<and> store_inv C n s' \<and> resolve C s' a = Some d \<and>
      (\<forall>b x. resolve C s b = Some x \<longrightarrow> resolve C s' b = Some x)"
    using extends_resolve by blast
qed

end
