(* ===== verification/Recipe.thy ===== *)
theory Recipe
  imports ChunkStore
begin

text \<open>
  The file recipe: entries are collected in the enclave, encrypted under the client's master key in
  batches of \<open>sendRecipeBatchSize\<close> and appended to the recipe file (\<open>UpdateFileRecipe\<close>, the tail of
  every index, \<open>Ocall_UpdateFileRecipe\<close>). The restore path reads the file back in batches of the same
  size. The recipe file and the entries in the enclave represent one list of entries.
\<close>

section \<open>What the recipe represents\<close>

definition enc_batch :: "enclave_cfg \<Rightarrow> bytes \<Rightarrow> bytes list \<Rightarrow> bytes" where
  "enc_batch C mk b =
     (case Ecall_EncryptWithKey (cfg_evp C) (cfg_tool C) (concat b) mk of Inr x \<Rightarrow> x | Inl _ \<Rightarrow> [])"

definition entry_bytes :: "bytes list \<Rightarrow> bool" where
  "entry_bytes es \<longleftrightarrow> (\<forall>e \<in> set es. length e = RecipeEntry_size)"

text \<open>
  \<open>bs\<close> are the full batches in the file behind its head, \<open>pend\<close> the entries still in the enclave.
  \<open>h0\<close> is the head of the file and the master key of the client.
\<close>

type_synonym recipe_id = "bytes \<times> bytes"

definition recipe_rep :: "enclave_cfg \<Rightarrow> up_state \<Rightarrow> recipe_id \<Rightarrow> bytes list list \<Rightarrow> bytes list \<Rightarrow> bool" where
  "recipe_rep C s h0 bs pend \<longleftrightarrow>
     masterKey (sgx s) = snd h0 \<and> key_ok (snd h0) \<and>
     (\<forall>b \<in> set bs. length b = sendRecipeBatchSize C \<and> entry_bytes b) \<and>
     entry_bytes pend \<and> length pend < sendRecipeBatchSize C \<and>
     unat (recipeNum (inRecipe (sgx s))) = length pend \<and>
     length pend * RecipeEntry_size \<le> length (entryList (inRecipe (sgx s))) \<and>
     take (length pend * RecipeEntry_size) (entryList (inRecipe (sgx s))) = concat pend \<and>
     recipeFile (outc s) = Some (fst h0 @ concat (map (enc_batch C (snd h0)) bs))"

definition recipe_of :: "enclave_cfg \<Rightarrow> up_state \<Rightarrow> recipe_id \<Rightarrow> bytes list \<Rightarrow> bool" where
  "recipe_of C s h0 es \<longleftrightarrow> (\<exists>bs pend. recipe_rep C s h0 bs pend \<and> es = concat bs @ pend)"

text \<open>What the recipe operations leave alone.\<close>

definition same_store :: "up_state \<Rightarrow> up_state \<Rightarrow> bool" where
  "same_store s s' \<longleftrightarrow>
     store s' = store s \<and> iv (sgx s') = iv (sgx s) \<and> inContainer (sgx s') = inContainer (sgx s) \<and>
     curContainer (outc s') = curContainer (outc s) \<and> inputMQ (outc s') = inputMQ (outc s) \<and>
     sessionKey (sgx s') = sessionKey (sgx s) \<and> masterKey (sgx s') = masterKey (sgx s) \<and>
     recvBuffer (sgx s') = recvBuffer (sgx s) \<and> seg (sgx s') = seg (sgx s) \<and>
     localIndex (sgx s') = localIndex (sgx s) \<and> outQuery (outc s') = outQuery (outc s) \<and>
     tmpQueryBufferStr (outc s') = tmpQueryBufferStr (outc s)"

text \<open>The part of the state that the containers are in.\<close>

definition same_containers :: "up_state \<Rightarrow> up_state \<Rightarrow> bool" where
  "same_containers s s' \<longleftrightarrow>
     iv (sgx s') = iv (sgx s) \<and> inContainer (sgx s') = inContainer (sgx s) \<and>
     curContainer (outc s') = curContainer (outc s) \<and> inputMQ (outc s') = inputMQ (outc s) \<and>
     containerFiles (store s') = containerFiles (store s) \<and> randPos (store s') = randPos (store s)"

lemma same_containers_views:
  assumes "same_containers s s'"
  shows "stored_container s' = stored_container s" and "resolve C s' = resolve C s"
    and "store_inv C n s' = store_inv C n s" and "extends s s'"
proof -
  have n: "cur_name s' = cur_name s" using assms by (simp add: same_containers_def cur_name_def)
  show sc: "stored_container s' = stored_container s"
    using assms by (simp add: stored_container_def n) (simp add: same_containers_def)
  show "resolve C s' = resolve C s" by (simp add: fun_eq_iff resolve_def raw_at_def sc)
  show "extends s s'" by (simp add: extends_def sc)
  have u: "used_names s' = used_names s" using assms by (simp add: used_names_def n same_containers_def)
  have "container_inv s' = container_inv s"
    using assms unfolding container_inv_def n by (simp add: same_containers_def)
  moreover have "fresh_ids C n s' = fresh_ids C n s"
    using u assms by (intro fresh_ids_cong) (simp_all add: same_containers_def)
  ultimately show "store_inv C n s' = store_inv C n s" by (simp add: store_inv_def)
qed

lemma same_store_containers: "same_store s s' \<Longrightarrow> same_containers s s'"
  by (simp add: same_store_def same_containers_def)

lemmas same_store_views = same_containers_views [OF same_store_containers]

text \<open>The part of the state that a chunk's address is looked up without touching.\<close>

definition keeps :: "up_state \<Rightarrow> up_state \<Rightarrow> bool" where
  "keeps s s' \<longleftrightarrow>
     inRecipe (sgx s') = inRecipe (sgx s) \<and> sessionKey (sgx s') = sessionKey (sgx s) \<and>
     masterKey (sgx s') = masterKey (sgx s) \<and> recvBuffer (sgx s') = recvBuffer (sgx s) \<and>
     recipeFile (outc s') = recipeFile (outc s) \<and> outQuery (outc s') = outQuery (outc s)"

lemma keeps_trans: "keeps s1 s2 \<Longrightarrow> keeps s2 s3 \<Longrightarrow> keeps s1 s3"
  by (simp add: keeps_def)

lemma same_rest_keeps: "same_rest s s' \<Longrightarrow> keeps s s'"
  by (simp add: same_rest_def keeps_def)

lemma recipe_of_keeps: "keeps s s' \<Longrightarrow> recipe_of C s h0 es \<Longrightarrow> recipe_of C s' h0 es"
  by (simp add: recipe_of_def recipe_rep_def keeps_def)

section \<open>Adding entries\<close>

lemma concat_entry_length: "entry_bytes es \<Longrightarrow> length (concat es) = length es * RecipeEntry_size"
  by (induction es) (simp_all add: entry_bytes_def)

lemma enc_batch_eq:
  assumes "cfg_ok C" and "key_ok mk"
  shows "Ecall_EncryptWithKey (cfg_evp C) (cfg_tool C) (concat b) mk = Inr (enc_batch C mk b)"
    and "length (enc_batch C mk b) = length (concat b)"
    and "Ecall_DecryptWithKey (cfg_evp C) (cfg_tool C) (enc_batch C mk b) mk = Inr (concat b)"
proof -
  have "stream_good (cfg_evp C) (cfg_tool C) mk (concat b)"
    using assms by (simp add: stream_good_def cfg_ok_def)
  from with_key.encE [OF this] obtain x where
    "Ecall_EncryptWithKey (cfg_evp C) (cfg_tool C) (concat b) mk = Inr x" "length x = length (concat b)"
    "Ecall_DecryptWithKey (cfg_evp C) (cfg_tool C) x mk = Inr (concat b)" .
  then show "Ecall_EncryptWithKey (cfg_evp C) (cfg_tool C) (concat b) mk = Inr (enc_batch C mk b)"
    "length (enc_batch C mk b) = length (concat b)"
    "Ecall_DecryptWithKey (cfg_evp C) (cfg_tool C) (enc_batch C mk b) mk = Inr (concat b)"
    by (simp_all add: enc_batch_def)
qed

text \<open>A flush moves the entries of the enclave to the end of the file as one batch.\<close>

lemma flush_recipe_ok:
  assumes C: "cfg_ok C" and k: "key_ok (masterKey (sgx s))" and e: "entry_bytes es"
    and n: "unat (recipeNum (inRecipe (sgx s))) = length es"
    and t: "take (length es * RecipeEntry_size) (entryList (inRecipe (sgx s))) = concat es"
    and f: "recipeFile (outc s) = Some b"
  shows "\<exists>s'. flush_recipe C s = Inr s' \<and> same_store s s' \<and> recipeNum (inRecipe (sgx s')) = 0 \<and>
     recipeFile (outc s') = Some (b @ enc_batch C (masterKey (sgx s)) es)"
proof -
  let ?x = "enc_batch C (masterKey (sgx s)) es"
  have len: "length ?x = length es * RecipeEntry_size"
    using enc_batch_eq(2) [OF C k] concat_entry_length [OF e] by simp
  have w: "take (length es * RecipeEntry_size) (memcpy_at m 0 ?x) = ?x" for m
    by (simp add: memcpy_at_def len)
  show ?thesis
    using enc_batch_eq(1) [OF C k] t n f w
    by (simp add: flush_recipe_def Let_def Ocall_UpdateFileRecipe_def UpdateRecipeToFile_def same_store_def)
qed

lemma UpdateFileRecipe_ok:
  assumes C: "cfg_ok C" and r: "recipe_of C s h0 es" and e: "length e = RecipeEntry_size"
  shows "\<exists>s'. UpdateFileRecipe C e s = Inr s' \<and> same_store s s' \<and> recipe_of C s' h0 (es @ [e])"
proof -
  from r obtain bs pend where rep: "recipe_rep C s h0 bs pend" and es: "es = concat bs @ pend"
    by (auto simp: recipe_of_def)
  let ?B = "sendRecipeBatchSize C" and ?n = "length pend" and ?r = "inRecipe (sgx s)"
  let ?l = "memcpy_at (entryList ?r) (?n * RecipeEntry_size) e"
  let ?s1 = "s\<lparr>sgx := (sgx s)\<lparr>inRecipe := \<lparr>recipeNum = recipeNum ?r + 1, entryList = ?l\<rparr>\<rparr>\<rparr>"
  have B: "0 < ?B" "?B < 2 ^ 32" using C by (simp_all add: cfg_ok_def)
  have n: "unat (recipeNum ?r) = ?n" "?n < ?B" and k: "masterKey (sgx s) = snd h0" "key_ok (snd h0)" and ep: "entry_bytes (pend @ [e])"
    using rep e by (auto simp: recipe_rep_def entry_bytes_def)
  have n1: "unat (recipeNum ?r + 1) = Suc ?n" using n B by (subst unat_add_u32) simp_all
  have le: "?n * RecipeEntry_size \<le> length (entryList ?r)"
    and tk: "take (?n * RecipeEntry_size) (entryList ?r) = concat pend"
    using rep by (auto simp: recipe_rep_def)
  have l: "take (Suc ?n * RecipeEntry_size) ?l = concat (pend @ [e])"
    using le tk e ep concat_entry_length [of pend] by (simp add: memcpy_at_def entry_bytes_def)
  have step: "UpdateFileRecipe C e s = (if Suc ?n = ?B then flush_recipe C ?s1 else Inr ?s1)"
    using n n1 e by (simp add: UpdateFileRecipe_def Let_def mod_Suc)
  have ss1: "same_store s ?s1" by (simp add: same_store_def)
  show ?thesis
  proof (cases "Suc ?n = ?B")
    case True
    have "\<exists>s'. flush_recipe C ?s1 = Inr s' \<and> same_store ?s1 s' \<and> recipeNum (inRecipe (sgx s')) = 0 \<and>
        recipeFile (outc s') = Some ((fst h0 @ concat (map (enc_batch C (snd h0)) bs)) @
          enc_batch C (masterKey (sgx ?s1)) (pend @ [e]))"
      using rep n1 l k ep by (intro flush_recipe_ok C) (simp_all add: recipe_rep_def)
    then obtain s' where s': "flush_recipe C ?s1 = Inr s'" "same_store ?s1 s'" "recipeNum (inRecipe (sgx s')) = 0"
        "recipeFile (outc s') = Some (fst h0 @ concat (map (enc_batch C (snd h0)) (bs @ [pend @ [e]])))"
      using k(1) by auto
    have mk: "masterKey (sgx s') = snd h0" using s'(2) k(1) by (simp add: same_store_def)
    have "recipe_rep C s' h0 (bs @ [pend @ [e]]) []"
      using rep s' mk True B ep by (simp add: recipe_rep_def entry_bytes_def)
    then have "recipe_of C s' h0 (es @ [e])" unfolding recipe_of_def es by fastforce
    with step True s' show ?thesis by (auto simp: same_store_def)
  next
    case False
    have "Suc ?n < ?B" using n(2) False by simp
    moreover have "Suc ?n * RecipeEntry_size \<le> length ?l" using e by simp
    ultimately have "recipe_rep C ?s1 h0 bs (pend @ [e])"
      using rep n1 l ep by (simp add: recipe_rep_def)
    then have "recipe_of C ?s1 h0 (es @ [e])" unfolding recipe_of_def es by fastforce
    with step False ss1 show ?thesis by simp
  qed
qed

text \<open>After the tail of an upload every entry is in the file.\<close>

definition file_rep :: "enclave_cfg \<Rightarrow> bytes \<Rightarrow> bytes list \<Rightarrow> bytes \<Rightarrow> bool" where
  "file_rep C mk es f \<longleftrightarrow> (\<exists>bs pend. es = concat bs @ pend \<and>
     (\<forall>b \<in> set bs. length b = sendRecipeBatchSize C \<and> entry_bytes b) \<and>
     entry_bytes pend \<and> length pend < sendRecipeBatchSize C \<and>
     f = concat (map (enc_batch C mk) (bs @ (if pend = [] then [] else [pend]))))"

lemma tail_recipe_ok:
  assumes C: "cfg_ok C" and r: "recipe_of C s h0 es"
  shows "\<exists>s' f. tail_recipe C s = Inr s' \<and> same_store s s' \<and> recipeFile (outc s') = Some (fst h0 @ f) \<and>
     file_rep C (snd h0) es f"
proof -
  from r obtain bs pend where rep: "recipe_rep C s h0 bs pend" and es: "es = concat bs @ pend"
    by (auto simp: recipe_of_def)
  let ?mk = "snd h0"
  have fr: "file_rep C ?mk es (concat (map (enc_batch C ?mk) (bs @ (if pend = [] then [] else [pend]))))"
    using rep unfolding file_rep_def es recipe_rep_def by blast
  show ?thesis
  proof (cases "pend = []")
    case True
    then have "tail_recipe C s = Inr s"
      using rep by (simp add: tail_recipe_def recipe_rep_def unat_eq_0)
    with True fr rep show ?thesis by (auto simp: same_store_def recipe_rep_def)
  next
    case False
    have "\<exists>s'. flush_recipe C s = Inr s' \<and> same_store s s' \<and> recipeNum (inRecipe (sgx s')) = 0 \<and>
        recipeFile (outc s') = Some ((fst h0 @ concat (map (enc_batch C ?mk) bs)) @ enc_batch C (masterKey (sgx s)) pend)"
      using rep by (intro flush_recipe_ok C) (simp_all add: recipe_rep_def)
    moreover have "recipeNum (inRecipe (sgx s)) \<noteq> 0"
      using rep False by (auto simp: recipe_rep_def)
    moreover have "masterKey (sgx s) = ?mk" using rep by (simp add: recipe_rep_def)
    ultimately show ?thesis using False fr by (auto simp: tail_recipe_def)
  qed
qed

section \<open>Reading the recipe file\<close>

text \<open>
  The loop of \<open>EnclaveRecvDecoder::Run\<close> over the file behind the head: each \<open>read\<close> asks for a whole
  batch; the loop ends when nothing was read, or after a read that met the end of the file.
\<close>

function read_batches :: "nat \<Rightarrow> bytes \<Rightarrow> bytes list" where
  "read_batches batchBytes f =
     (if f = [] \<or> batchBytes = 0 then []
      else take batchBytes f # (if length f < batchBytes then [] else read_batches batchBytes (drop batchBytes f)))"
  by pat_completeness auto
termination
  by (relation "measure (\<lambda>(n, f). length f)") auto

declare read_batches.simps [simp del]

lemma read_batches_concat:
  assumes "0 < n" and "\<forall>b \<in> set bs. length b = n" and "length p < n"
  shows "read_batches n (concat bs @ p) = bs @ (if p = [] then [] else [p])"
  using assms(2)
proof (induction bs)
  case Nil
  then show ?case using assms by (subst read_batches.simps) simp
next
  case (Cons b bs)
  then have "b \<noteq> []" using assms(1) by auto
  with Cons show ?case using assms(1) by (subst read_batches.simps) simp
qed

text \<open>Every batch read from a finished recipe is one that was written, and decrypts to its entries.\<close>

lemma read_batches_file_rep:
  assumes C: "cfg_ok C" and k: "key_ok mk" and r: "file_rep C mk es f"
  shows "\<exists>bss. read_batches (RecipeEntry_size * sendRecipeBatchSize C) f = map (enc_batch C mk) bss \<and>
     concat bss = es \<and> (\<forall>b \<in> set bss. entry_bytes b \<and> b \<noteq> [])"
proof -
  let ?B = "sendRecipeBatchSize C"
  from r obtain bs pend where es: "es = concat bs @ pend"
    and bs: "\<forall>b \<in> set bs. length b = ?B \<and> entry_bytes b" and p: "entry_bytes pend" "length pend < ?B"
    and f: "f = concat (map (enc_batch C mk) (bs @ (if pend = [] then [] else [pend])))"
    by (auto simp: file_rep_def)
  have B: "0 < ?B" using C by (simp add: cfg_ok_def)
  have len: "length (enc_batch C mk b) = RecipeEntry_size * length b" if "entry_bytes b" for b
    using enc_batch_eq(2) [OF C k] concat_entry_length [OF that] by simp
  let ?bss = "bs @ (if pend = [] then [] else [pend])"
  let ?xs = "map (enc_batch C mk) bs" and ?p = "if pend = [] then [] else enc_batch C mk pend"
  have m: "\<forall>x \<in> set ?xs. length x = RecipeEntry_size * ?B" using bs len by auto
  have lp: "length ?p < RecipeEntry_size * ?B" using len [OF p(1)] p(2) B by simp
  have ne: "pend \<noteq> [] \<Longrightarrow> enc_batch C mk pend \<noteq> []" using len [OF p(1)] by auto
  have "0 < RecipeEntry_size * ?B" using B by simp
  from read_batches_concat [OF this m lp]
  have "read_batches (RecipeEntry_size * ?B) (concat ?xs @ ?p) = ?xs @ (if ?p = [] then [] else [?p])" .
  moreover have "concat ?xs @ ?p = f" by (simp add: f)
  moreover have "?xs @ (if ?p = [] then [] else [?p]) = map (enc_batch C mk) ?bss" using ne by simp
  ultimately have "read_batches (RecipeEntry_size * ?B) f = map (enc_batch C mk) ?bss" by metis
  moreover have "\<forall>b \<in> set ?bss. entry_bytes b \<and> b \<noteq> []" using bs p(1) B by auto
  moreover have "concat ?bss = es" by (simp add: es)
  ultimately show ?thesis by blast
qed

end
