(* ===== verification/Batch.thy ===== *)
theory Batch
  imports Recipe
begin

text \<open>
  A batch of chunks as the client sends it and the enclave reads it: the network message, the layout
  of the chunks in it (a 32-bit size before each chunk) and the fingerprint of a chunk. The contract
  that the one-pass indexes give an upload is the locale \<open>dedup_index\<close>.
\<close>

section \<open>Messages\<close>

record net_msg =
  messageType :: protocol_code
  clientID :: u32
  dataSize :: u32
  currentItemNum :: u32
  dataBuffer :: bytes

definition encode_chunk :: "bytes \<Rightarrow> bytes" where
  "encode_chunk d = u32_bytes (of_nat (length d)) @ d"

definition encode_chunks :: "bytes list \<Rightarrow> bytes" where
  "encode_chunks cs = concat (map encode_chunk cs)"

lemma encode_chunks_simps [simp]:
  "encode_chunks [] = []" "encode_chunks (d # cs) = encode_chunk d @ encode_chunks cs"
  by (simp_all add: encode_chunks_def)

lemma encode_chunks_append [simp]: "encode_chunks (cs @ ds) = encode_chunks cs @ encode_chunks ds"
  by (simp add: encode_chunks_def)

text \<open>
  Reading the next chunk of a buffer; past the bytes that were written to it the memory is not
  initialised.
\<close>

definition read_chunk :: "bytes \<Rightarrow> nat \<Rightarrow> (bytes \<times> nat) res" where
  "read_chunk buf off =
     (if off + 4 \<le> length buf then
        let sz = unat (bytes_u32 (drop off buf)) in
        if off + 4 + sz \<le> length buf then Inr (read_at buf (off + 4) sz, off + 4 + sz)
        else Inl (Undefined ''read of uninitialised memory'')
      else Inl (Undefined ''read of uninitialised memory''))"

lemma read_chunk_encoded:
  assumes "length d < 2 ^ 32"
  shows "read_chunk (pre @ encode_chunk d @ post) (length pre) = Inr (d, length pre + length (encode_chunk d))"
proof -
  have "unat (of_nat (length d) :: u32) = length d" using assms by (simp add: unat_of_nat_u32)
  then show ?thesis by (simp add: read_chunk_def encode_chunk_def read_at_def)
qed

text \<open>\<open>SessionKeyDec\<close> of the received data into the receive buffer of the client.\<close>

definition recv_batch :: "enclave_cfg \<Rightarrow> net_msg \<Rightarrow> up_state \<Rightarrow> up_state res" where
  "recv_batch C m s =
     rbind (Ecall_SessionKeyDec (cfg_evp C) (cfg_tool C) (take (unat (dataSize m)) (dataBuffer m)) (sessionKey (sgx s)))
       (\<lambda>p. Inr (s\<lparr>sgx := (sgx s)\<lparr>recvBuffer := memcpy_at (recvBuffer (sgx s)) 0 p\<rparr>\<rparr>))"

text \<open>A message that carries the chunks \<open>cs\<close> under the session key.\<close>

definition carries :: "enclave_cfg \<Rightarrow> bytes \<Rightarrow> net_msg \<Rightarrow> bytes list \<Rightarrow> bool" where
  "carries C key m cs \<longleftrightarrow>
     Crypto_SessionKeyEnc (cfg_evp C) (cfg_tool C) (encode_chunks cs) key = Inr (take (unat (dataSize m)) (dataBuffer m)) \<and>
     unat (currentItemNum m) = length cs"

lemma recv_batch_ok:
  assumes "cfg_ok C" and "key_ok (sessionKey (sgx s))" and "carries C (sessionKey (sgx s)) m cs"
  shows "recv_batch C m s = Inr (s\<lparr>sgx := (sgx s)\<lparr>recvBuffer := memcpy_at (recvBuffer (sgx s)) 0 (encode_chunks cs)\<rparr>\<rparr>)"
proof -
  have "stream_good (cfg_evp C) (cfg_tool C) (sessionKey (sgx s)) (encode_chunks cs)"
    using assms by (simp add: stream_good_def cfg_ok_def)
  from session.dec_enc [OF this] assms(3) show ?thesis by (simp add: recv_batch_def carries_def)
qed

section \<open>Fingerprints\<close>

definition chunk_fp :: "enclave_cfg \<Rightarrow> bytes \<Rightarrow> bytes" where
  "chunk_fp C d = (case Ecall_GenerateHash (cfg_evp C) (cfg_tool C) d of Inr h \<Rightarrow> h | Inl _ \<Rightarrow> [])"

lemma chunk_fp_eq:
  assumes "cfg_ok C"
  shows "Ecall_GenerateHash (cfg_evp C) (cfg_tool C) d = Inr (chunk_fp C d)" and "length (chunk_fp C d) = CHUNK_HASH_SIZE"
proof -
  from assms GenerateHash_ok [of "cfg_evp C" "cfg_tool C" d] obtain h where
    "Ecall_GenerateHash (cfg_evp C) (cfg_tool C) d = Inr h" "length h = hash_size (hashType (cfg_tool C))"
    by (auto simp: cfg_ok_def)
  with assms show "Ecall_GenerateHash (cfg_evp C) (cfg_tool C) d = Inr (chunk_fp C d)"
    "length (chunk_fp C d) = CHUNK_HASH_SIZE"
    by (simp_all add: chunk_fp_def cfg_ok_def hash_size_def const_defs)
qed

text \<open>The addresses \<open>as\<close> lead to chunks with the fingerprints of the chunks \<open>cs\<close>.\<close>

definition leads_to :: "enclave_cfg \<Rightarrow> up_state \<Rightarrow> recipe_entry list \<Rightarrow> bytes list \<Rightarrow> bool" where
  "leads_to C s as cs \<longleftrightarrow>
     list_all2 (\<lambda>a d. wf_entry a \<and> (\<exists>d'. resolve C s a = Some d' \<and> chunk_fp C d' = chunk_fp C d)) as cs"

lemma leads_to_extends: "leads_to C s as cs \<Longrightarrow> extends s s' \<Longrightarrow> leads_to C s' as cs"
  unfolding leads_to_def by (erule list_all2_mono) (blast intro: extends_resolve)

lemma leads_to_resolve_eq: "resolve C s' = resolve C s \<Longrightarrow> leads_to C s' = leads_to C s"
  by (simp add: fun_eq_iff leads_to_def)

lemma leads_to_append:
  "leads_to C s as cs \<Longrightarrow> leads_to C s bs ds \<Longrightarrow> leads_to C s (as @ bs) (cs @ ds)"
  by (simp add: leads_to_def list_all2_appendI)

lemma leads_to_Nil [simp]: "leads_to C s [] []"
  by (simp add: leads_to_def)

section \<open>The contract of a one-pass index\<close>

text \<open>
  \<open>recipe s as\<close> says that the recipe of the client holds the addresses \<open>as\<close>. A batch of good chunks
  is processed without a fault, appends one address per chunk, and every address, old or new, leads
  to a chunk with the right fingerprint. \<open>inv n\<close> has room for \<open>n\<close> more chunks.
\<close>

locale dedup_index =
  fixes inv :: "nat \<Rightarrow> 's \<Rightarrow> bool" and recipe :: "'s \<Rightarrow> 'a list \<Rightarrow> bool"
    and leads :: "'s \<Rightarrow> 'a list \<Rightarrow> 'd list \<Rightarrow> bool"
    and is_batch :: "'s \<Rightarrow> 'm \<Rightarrow> 'd list \<Rightarrow> bool" and good :: "'d \<Rightarrow> bool"
    and process :: "'m \<Rightarrow> 's \<Rightarrow> 's res"
  assumes process_ok: "inv (length cs + n) s \<Longrightarrow> recipe s as \<Longrightarrow> leads s as ds \<Longrightarrow>
      is_batch s m cs \<Longrightarrow> \<forall>d \<in> set cs. good d \<Longrightarrow>
      \<exists>s' bs. process m s = Inr s' \<and> inv n s' \<and> recipe s' (as @ bs) \<and> leads s' (as @ bs) (ds @ cs) \<and>
        (\<forall>m cs. is_batch s' m cs = is_batch s m cs) \<and> (\<forall>as ds. leads s as ds \<longrightarrow> leads s' as ds)"
begin

text \<open>An upload of several batches.\<close>

lemma upload_ok:
  assumes "inv (length (concat css) + n) s" and "recipe s as" and "leads s as ds"
    and "list_all2 (is_batch s) ms css" and "\<forall>cs \<in> set css. \<forall>d \<in> set cs. good d"
  shows "\<exists>s' bs. rfold process ms s = Inr s' \<and> inv n s' \<and> recipe s' (as @ bs) \<and>
     leads s' (as @ bs) (ds @ concat css)"
  using assms
proof (induction ms arbitrary: css s as ds)
  case Nil
  then show ?case by (auto intro: exI [of _ "[]"])
next
  case (Cons m ms)
  from Cons.prems(4) obtain cs css' where css: "css = cs # css'" "is_batch s m cs" "list_all2 (is_batch s) ms css'"
    by (auto simp: list_all2_Cons1)
  have i: "inv (length cs + (length (concat css') + n)) s" using Cons.prems(1) css(1) by (simp add: add.assoc)
  obtain s1 bs where s1: "process m s = Inr s1" "inv (length (concat css') + n) s1" "recipe s1 (as @ bs)"
      "leads s1 (as @ bs) (ds @ cs)" "\<forall>m cs. is_batch s1 m cs = is_batch s m cs"
    using process_ok [OF i Cons.prems(2,3) css(2)] Cons.prems(5) css(1) by auto
  have "list_all2 (is_batch s1) ms css'" using css(3) s1(5) by (simp add: list_all2_conv_all_nth)
  with Cons.IH [OF s1(2,3,4)] Cons.prems(5) css(1) obtain s' bs' where
    "rfold process ms s1 = Inr s'" "inv n s'" "recipe s' ((as @ bs) @ bs')" "leads s' ((as @ bs) @ bs') ((ds @ cs) @ concat css')"
    by auto
  with s1(1) css(1) show ?case by (intro exI [of _ s'] exI [of _ "bs @ bs'"]) simp
qed

end

section \<open>Chunk loops\<close>

text \<open>
  The loop over the chunks of the receive buffer that the one-pass indexes make, with its step as a
  parameter: if a step handles the chunk at the current offset and keeps the invariant, the loop
  handles all chunks.
\<close>

lemma chunk_loop:
  fixes rb :: "'s \<Rightarrow> bytes"
  assumes step: "\<And>n s as ds pre d post. P (Suc n) s as ds \<Longrightarrow> rb s = pre @ encode_chunk d @ post \<Longrightarrow>
      good d \<Longrightarrow> \<exists>s' a. f (s, length pre) = Inr (s', length pre + length (encode_chunk d)) \<and>
        P n s' (as @ [a]) (ds @ [d]) \<and> rb s' = rb s"
    and "P (length cs + n) s as ds" and "rb s = pre @ encode_chunks cs @ post" and "\<forall>d \<in> set cs. good d"
  shows "\<exists>s' bs off. rfold (\<lambda>i. f) [k..<k + length cs] (s, length pre) = Inr (s', off) \<and>
     P n s' (as @ bs) (ds @ cs) \<and> rb s' = rb s"
  using assms(2-4)
proof (induction cs arbitrary: s as ds pre k)
  case Nil
  then show ?case by (auto intro: exI [of _ "[]"])
next
  case (Cons d cs)
  have "P (Suc (length cs + n)) s as ds" "rb s = pre @ encode_chunk d @ (encode_chunks cs @ post)" "good d"
    using Cons.prems by simp_all
  from step [OF this] obtain s1 a where s1: "f (s, length pre) = Inr (s1, length (pre @ encode_chunk d))"
      "P (length cs + n) s1 (as @ [a]) (ds @ [d])" "rb s1 = rb s"
    by auto
  have b: "rb s1 = (pre @ encode_chunk d) @ encode_chunks cs @ post" using s1(3) Cons.prems(2) by simp
  from Cons.IH [OF s1(2) b, of "Suc k"] Cons.prems(3) obtain s' bs off where
    r: "rfold (\<lambda>i. f) [Suc k..<Suc k + length cs] (s1, length (pre @ encode_chunk d)) = Inr (s', off)"
      "P n s' ((as @ [a]) @ bs) ((ds @ [d]) @ cs)" "rb s' = rb s1"
    by auto
  have "[k..<k + length (d # cs)] = k # [Suc k..<Suc k + length cs]" by (subst upt_rec) simp
  with s1 r show ?case by (intro exI [of _ s'] exI [of _ "a # bs"] exI [of _ off]) simp
qed

end
