(* ===== verification/OutIndex.thy ===== *)
theory OutIndex
  imports Batch
begin

text \<open>
  The out-of-enclave index seen through its encryption: keys are AES-CMC encryptions of fingerprints,
  values are addresses under a cipher that depends on the index. The two indexes that use it see a
  map from fingerprints to addresses.
\<close>

definition cmc_fp :: "enclave_cfg \<Rightarrow> bytes \<Rightarrow> bytes" where
  "cmc_fp C fp =
     (case IndexAESCMCEnc (cfg_evp C) (cfg_tool C) fp (indexQueryKey C) of Inr ch \<Rightarrow> ch | Inl _ \<Rightarrow> [])"

definition out_lookup :: "enclave_cfg \<Rightarrow> (bytes \<Rightarrow> bytes res) \<Rightarrow> index_map \<Rightarrow> bytes \<rightharpoonup> recipe_entry" where
  "out_lookup C dec db fp =
     (if length fp \<noteq> CHUNK_HASH_SIZE then None
      else case db (cmc_fp C fp) of
        None \<Rightarrow> None
      | Some v \<Rightarrow> (case dec v of Inl _ \<Rightarrow> None | Inr ab \<Rightarrow> Some (RecipeEntry_of_bytes ab)))"

definition addr_cipher :: "(bytes \<Rightarrow> bytes res) \<Rightarrow> (bytes \<Rightarrow> bytes res) \<Rightarrow> bool" where
  "addr_cipher enc dec \<longleftrightarrow> (\<forall>a. wf_entry a \<longrightarrow>
     (\<exists>y. enc (RecipeEntry_bytes a) = Inr y \<and> length y = RecipeEntry_size \<and> dec y = Inr (RecipeEntry_bytes a)))"

definition values_ok :: "(bytes \<Rightarrow> bytes res) \<Rightarrow> index_map \<Rightarrow> bool" where
  "values_ok enc db \<longleftrightarrow> (\<forall>v \<in> ran db. \<exists>a. wf_entry a \<and> enc (RecipeEntry_bytes a) = Inr v)"

lemma values_ok_empty [simp]: "values_ok enc Map.empty"
  by (simp add: values_ok_def)

lemma out_lookup_empty [simp]: "out_lookup C dec Map.empty = Map.empty"
  by (simp add: fun_eq_iff out_lookup_def)

lemma cmc_fp_eq:
  assumes "cfg_ok C" and "length fp = CHUNK_HASH_SIZE"
  shows "IndexAESCMCEnc (cfg_evp C) (cfg_tool C) fp (indexQueryKey C) = Inr (cmc_fp C fp)"
    and "length (cmc_fp C fp) = CHUNK_HASH_SIZE"
proof -
  have "block_good (cfg_evp C) (cfg_tool C) (indexQueryKey C) fp"
    using assms by (simp add: block_good_def cfg_ok_def const_defs)
  from cmc.encE [OF this] obtain ch where
    "IndexAESCMCEnc (cfg_evp C) (cfg_tool C) fp (indexQueryKey C) = Inr ch" "length ch = length fp" .
  then show "IndexAESCMCEnc (cfg_evp C) (cfg_tool C) fp (indexQueryKey C) = Inr (cmc_fp C fp)"
    "length (cmc_fp C fp) = CHUNK_HASH_SIZE"
    using assms(2) by (simp_all add: cmc_fp_def)
qed

lemma cmc_fp_inj:
  assumes "cfg_ok C" and "length fp = CHUNK_HASH_SIZE" and "length fp' = CHUNK_HASH_SIZE"
  shows "cmc_fp C fp = cmc_fp C fp' \<longleftrightarrow> fp = fp'"
proof
  assume e: "cmc_fp C fp = cmc_fp C fp'"
  have g: "block_good (cfg_evp C) (cfg_tool C) (indexQueryKey C) x" if "length x = CHUNK_HASH_SIZE" for x
    using assms(1) that by (simp add: block_good_def cfg_ok_def const_defs)
  from e show "fp = fp'"
    by (intro cmc.enc_inj [OF g g]) (simp_all add: assms cmc_fp_eq(1))
qed simp

lemma out_lookup_hit:
  assumes "addr_cipher enc dec" and "values_ok enc db" and "length fp = CHUNK_HASH_SIZE"
    and "db (cmc_fp C fp) = Some v"
  shows "\<exists>a. wf_entry a \<and> length v = RecipeEntry_size \<and> dec v = Inr (RecipeEntry_bytes a) \<and>
     out_lookup C dec db fp = Some a"
proof -
  from assms(2,4) obtain a where a: "wf_entry a" "enc (RecipeEntry_bytes a) = Inr v"
    unfolding values_ok_def by (blast intro: ranI)
  with assms(1) have "length v = RecipeEntry_size" "dec v = Inr (RecipeEntry_bytes a)"
    by (auto simp: addr_cipher_def)
  with a assms show ?thesis by (auto simp: out_lookup_def)
qed

lemma out_lookup_miss: "db (cmc_fp C fp) = None \<Longrightarrow> out_lookup C dec db fp = None"
  by (simp add: out_lookup_def)

lemma out_lookup_insert:
  assumes C: "cfg_ok C" and ac: "addr_cipher enc dec" and v: "values_ok enc db"
    and fp: "length fp = CHUNK_HASH_SIZE" and a: "wf_entry a" "enc (RecipeEntry_bytes a) = Inr y"
  shows "out_lookup C dec (db(cmc_fp C fp \<mapsto> y)) = (out_lookup C dec db)(fp \<mapsto> a)"
    and "values_ok enc (db(cmc_fp C fp \<mapsto> y))"
proof
  fix k
  have "dec y = Inr (RecipeEntry_bytes a)" using ac a by (auto simp: addr_cipher_def)
  then show "out_lookup C dec (db(cmc_fp C fp \<mapsto> y)) k = ((out_lookup C dec db)(fp \<mapsto> a)) k"
    using cmc_fp_inj [OF C, of k fp] fp a(1) by (auto simp: out_lookup_def)
next
  show "values_ok enc (db(cmc_fp C fp \<mapsto> y))"
    using v a unfolding values_ok_def ran_def by (auto split: if_splits)
qed

end
