(* ===== verification/OutEnclave.thy ===== *)
theory OutEnclave
  imports OutIndex
begin

text \<open>
  \<open>EcallOutEnclaveIndex\<close> (\<open>ecallIndex/ecallOutEnclave.cc\<close>): every chunk is looked up in the
  out-of-enclave index, whose keys are deterministic encryptions of the fingerprints and whose values
  are encrypted addresses.
\<close>

section \<open>Operations\<close>

definition count_logical :: "nat \<Rightarrow> up_state \<Rightarrow> up_state" where
  "count_logical chunkSize s =
     s\<lparr>stats := (stats s)\<lparr>logicalDataSize := logicalDataSize (stats s) + of_nat chunkSize,
                         logicalChunkNum := logicalChunkNum (stats s) + 1\<rparr>\<rparr>"

definition count_unique :: "nat \<Rightarrow> up_state \<Rightarrow> up_state" where
  "count_unique chunkSize s =
     s\<lparr>stats := (stats s)\<lparr>uniqueDataSize := uniqueDataSize (stats s) + of_nat chunkSize,
                         uniqueChunkNum := uniqueChunkNum (stats s) + 1\<rparr>\<rparr>"

text \<open>The address of one chunk, from the index or for the new chunk.\<close>

definition OutEnclave_dedup :: "enclave_cfg \<Rightarrow> bytes \<Rightarrow> bytes \<Rightarrow> up_state \<Rightarrow> (bytes \<times> up_state) res" where
  "OutEnclave_dedup C d cipherHash s =
     (let (status, cipherAddr, s1) = ReadIndexStore cipherHash s in
      if \<not> status then
        rbind (ProcessUniqueChunk C d (count_unique (length d) s1)) (\<lambda>(a, s2).
        rbind (Ecall_EncryptWithKey (cfg_evp C) (cfg_tool C) (RecipeEntry_bytes a) (indexQueryKey C)) (\<lambda>ca.
          Inr (RecipeEntry_bytes a, snd (UpdateIndexStore cipherHash ca s2))))
      else
        rbind (Ecall_DecryptWithKey (cfg_evp C) (cfg_tool C) (take RecipeEntry_size cipherAddr) (indexQueryKey C))
          (\<lambda>ab. Inr (ab, s1)))"

definition OutEnclave_chunk :: "enclave_cfg \<Rightarrow> up_state \<times> nat \<Rightarrow> (up_state \<times> nat) res" where
  "OutEnclave_chunk C st =
     (let (s, currentOffset) = st in
      rbind (read_chunk (recvBuffer (sgx s)) currentOffset) (\<lambda>(d, off').
      rbind (Ecall_GenerateHash (cfg_evp C) (cfg_tool C) d) (\<lambda>h.
      rbind (IndexAESCMCEnc (cfg_evp C) (cfg_tool C) (take CHUNK_HASH_SIZE h) (indexQueryKey C)) (\<lambda>ch.
      rbind (OutEnclave_dedup C d ch s) (\<lambda>(ab, s1).
      rbind (UpdateFileRecipe C ab s1) (\<lambda>s2.
        Inr (count_logical (length d) s2, off')))))))"

definition clear_recv :: "enclave_cfg \<Rightarrow> up_state \<Rightarrow> up_state" where
  "clear_recv C s =
     s\<lparr>sgx := (sgx s)\<lparr>recvBuffer := memcpy_at (recvBuffer (sgx s)) 0 (replicate (sendChunkBatchSize C * Chunk_size) 0)\<rparr>\<rparr>"

definition OutEnclave_ProcessOneBatch :: "enclave_cfg \<Rightarrow> net_msg \<Rightarrow> up_state \<Rightarrow> up_state res" where
  "OutEnclave_ProcessOneBatch C m s =
     rbind (recv_batch C m s) (\<lambda>s1.
     rbind (rfold (\<lambda>i. OutEnclave_chunk C) [0..<unat (currentItemNum m)] (s1, 0)) (\<lambda>(s2, off).
       Inr (clear_recv C (ResetCurrentSegment s2))))"

definition OutEnclave_ProcessTailBatch :: "enclave_cfg \<Rightarrow> up_state \<Rightarrow> up_state res" where
  "OutEnclave_ProcessTailBatch C s = rbind (tail_recipe C s) (\<lambda>s'. Inr (tail_container s'))"

section \<open>Correctness of a batch\<close>

abbreviation addr_enc :: "enclave_cfg \<Rightarrow> bytes \<Rightarrow> bytes res" where
  "addr_enc C x \<equiv> Ecall_EncryptWithKey (cfg_evp C) (cfg_tool C) x (indexQueryKey C)"

abbreviation addr_dec :: "enclave_cfg \<Rightarrow> bytes \<Rightarrow> bytes res" where
  "addr_dec C x \<equiv> Ecall_DecryptWithKey (cfg_evp C) (cfg_tool C) x (indexQueryKey C)"

lemma addr_cipher_with_key: "cfg_ok C \<Longrightarrow> addr_cipher (addr_enc C) (addr_dec C)"
proof -
  assume C: "cfg_ok C"
  have "\<exists>y. addr_enc C (RecipeEntry_bytes a) = Inr y \<and> length y = RecipeEntry_size \<and>
      addr_dec C y = Inr (RecipeEntry_bytes a)" if "wf_entry a" for a
  proof -
    have "stream_good (cfg_evp C) (cfg_tool C) (indexQueryKey C) (RecipeEntry_bytes a)"
      using C by (simp add: stream_good_def cfg_ok_def)
    from with_key.roundtrip [OF this] that show ?thesis by simp
  qed
  then show ?thesis by (simp add: addr_cipher_def)
qed

text \<open>
  \<open>out_inv C n s\<close>: there is room for \<open>n\<close> more chunks, and every address in the index leads to a
  chunk with the fingerprint it is stored under.
\<close>

definition out_inv :: "enclave_cfg \<Rightarrow> nat \<Rightarrow> up_state \<Rightarrow> bool" where
  "out_inv C n s \<longleftrightarrow> store_inv C n s \<and> outQuery (outc s) = [] \<and> values_ok (addr_enc C) (indexStore (store s)) \<and>
     containers.sound C (chunk_fp C) s (out_lookup C (addr_dec C) (indexStore (store s)))"

lemma out_inv_cfg: "out_inv C n s \<Longrightarrow> cfg_ok C"
  by (simp add: out_inv_def store_inv_def)

lemma sound_extends:
  "containers.sound C fp s m \<Longrightarrow> extends s s' \<Longrightarrow> containers.sound C fp s' m"
  by (erule containers.sound_keep) (rule extends_resolve)

lemma out_inv_cong:
  "same_containers s s' \<Longrightarrow> indexStore (store s') = indexStore (store s) \<Longrightarrow>
   outQuery (outc s') = outQuery (outc s) \<Longrightarrow> out_inv C n s' = out_inv C n s"
  by (simp add: out_inv_def same_containers_views containers.sound_def)

lemma OutEnclave_dedup_ok:
  assumes inv: "out_inv C (Suc n) s" and d: "chunk_ok C d"
  shows "\<exists>a s'. OutEnclave_dedup C d (cmc_fp C (chunk_fp C d)) s = Inr (RecipeEntry_bytes a, s') \<and>
     out_inv C n s' \<and> extends s s' \<and> leads_to C s' [a] [d] \<and> keeps s s'"
proof -
  let ?fp = "chunk_fp C d" and ?db = "indexStore (store s)"
  let ?ch = "cmc_fp C ?fp"
  note C = out_inv_cfg [OF inv]
  note ac = addr_cipher_with_key [OF C] and fp = chunk_fp_eq(2) [OF C, of d]
  from inv have vo: "values_ok (addr_enc C) ?db"
    and snd: "containers.sound C (chunk_fp C) s (out_lookup C (addr_dec C) ?db)"
    by (auto simp: out_inv_def)
  show ?thesis
  proof (cases "?db ?ch")
    case None
    let ?s1 = "s\<lparr>outc := (outc s)\<lparr>tmpQueryBufferStr := tmpQueryBufferStr (outc s)\<rparr>\<rparr>"
    let ?s2 = "count_unique (length d) ?s1"
    have sc: "same_containers s ?s2" and db2: "indexStore (store ?s2) = ?db" and k2: "keeps s ?s2"
      by (simp_all add: same_containers_def count_unique_def keeps_def)
    have rd: "ReadIndexStore ?ch s = (False, tmpQueryBufferStr (outc s), ?s1)"
      using None by (simp add: ReadIndexStore_def Ocall_ReadIndexStore_def InMemoryDatabase_QueryBuffer_def)
    have "store_inv C (Suc n) ?s2" using inv same_containers_views(3) [OF sc] by (simp add: out_inv_def)
    from ProcessUniqueChunk_ok [OF this d] obtain a s3 where
      s3: "ProcessUniqueChunk C d ?s2 = Inr (a, s3)" "store_inv C n s3" "extends ?s2 s3"
        "resolve C s3 a = Some d" "wf_entry a" "same_rest ?s2 s3"
      by blast
    from ac s3(5) obtain y where y: "addr_enc C (RecipeEntry_bytes a) = Inr y" "length y = RecipeEntry_size"
      by (auto simp: addr_cipher_def)
    let ?s4 = "s3\<lparr>store := (store s3)\<lparr>indexStore := ?db(?ch \<mapsto> y)\<rparr>\<rparr>"
    have db3: "indexStore (store s3) = ?db" using s3(6) db2 by (simp add: same_rest_def)
    have up: "snd (UpdateIndexStore ?ch y s3) = ?s4"
      by (simp add: UpdateIndexStore_def Ocall_UpdateIndexStoreBuffer_def InMemoryDatabase_InsertBothBuffer_def db3)
    have sc4: "same_containers s3 ?s4" by (simp add: same_containers_def)
    note v4 = same_containers_views [OF sc4]
    note ins = out_lookup_insert [OF C ac vo fp s3(5) y(1)]
    have ext: "extends s ?s4"
      using extends_trans [OF extends_trans [OF same_containers_views(4) [OF sc] s3(3)] v4(4)] .
    have "containers.sound C (chunk_fp C) ?s4 (out_lookup C (addr_dec C) (?db(?ch \<mapsto> y)))"
      unfolding ins(1) using sound_extends [OF snd ext] s3(4) v4(2) by (intro containers.sound_upd) simp_all
    then have "out_inv C n ?s4"
      using s3(2,6) v4(3) ins(2) inv by (simp add: out_inv_def same_rest_def count_unique_def)
    moreover have "OutEnclave_dedup C d ?ch s = Inr (RecipeEntry_bytes a, ?s4)"
      using rd s3(1) y(1) up by (simp add: OutEnclave_dedup_def)
    moreover have "leads_to C ?s4 [a] [d]" using s3(4,5) v4(2) by (simp add: leads_to_def)
    moreover have "keeps s ?s4" using k2 same_rest_keeps [OF s3(6)] by (simp add: keeps_def)
    ultimately show ?thesis using ext by blast
  next
    case (Some v)
    let ?s1 = "s\<lparr>outc := (outc s)\<lparr>tmpQueryBufferStr := v\<rparr>\<rparr>"
    have sc: "same_containers s ?s1" and k: "keeps s ?s1" by (simp_all add: same_containers_def keeps_def)
    from out_lookup_hit [OF ac vo fp Some] obtain a where a: "wf_entry a" "length v = RecipeEntry_size"
        "addr_dec C v = Inr (RecipeEntry_bytes a)" "out_lookup C (addr_dec C) ?db ?fp = Some a"
      by blast
    have "OutEnclave_dedup C d ?ch s = Inr (RecipeEntry_bytes a, ?s1)"
      using Some a by (simp add: OutEnclave_dedup_def ReadIndexStore_def Ocall_ReadIndexStore_def
          InMemoryDatabase_QueryBuffer_def)
    moreover have "out_inv C n ?s1"
      using inv fresh_ids_Suc(2) out_inv_cong [OF sc, of C n] by (auto simp: out_inv_def store_inv_def)
    moreover have "leads_to C ?s1 [a] [d]"
      using snd a same_containers_views(2) [OF sc] by (auto simp: leads_to_def containers.sound_def)
    ultimately show ?thesis using same_containers_views(4) [OF sc] k by blast
  qed
qed

text \<open>The invariant of the loop over a batch.\<close>

definition out_loop :: "enclave_cfg \<Rightarrow> recipe_id \<Rightarrow> nat \<Rightarrow> up_state \<Rightarrow> recipe_entry list \<Rightarrow> bytes list \<Rightarrow> bool" where
  "out_loop C h0 n s as ds \<longleftrightarrow> out_inv C n s \<and> recipe_of C s h0 (map RecipeEntry_bytes as) \<and> leads_to C s as ds"

lemma OutEnclave_chunk_ok:
  assumes st: "out_loop C h0 (Suc n) s as ds" and b: "recvBuffer (sgx s) = pre @ encode_chunk d @ post"
    and d: "chunk_ok C d"
  shows "\<exists>s' a. OutEnclave_chunk C (s, length pre) = Inr (s', length pre + length (encode_chunk d)) \<and>
     out_loop C h0 n s' (as @ [a]) (ds @ [d]) \<and> recvBuffer (sgx s') = recvBuffer (sgx s)
     \<and> sessionKey (sgx s') = sessionKey (sgx s) \<and> extends s s'"
proof -
  from st have inv: "out_inv C (Suc n) s" and rc: "recipe_of C s h0 (map RecipeEntry_bytes as)" and ld: "leads_to C s as ds"
    by (auto simp: out_loop_def)
  note C = out_inv_cfg [OF inv]
  have "length d < 2 ^ 32" using d by (simp add: chunk_ok_def const_defs)
  note rd = read_chunk_encoded [OF this, of pre post, folded b]
  from OutEnclave_dedup_ok [OF inv d] obtain a s1 where
    s1: "OutEnclave_dedup C d (cmc_fp C (chunk_fp C d)) s = Inr (RecipeEntry_bytes a, s1)" "out_inv C n s1"
      "extends s s1" "leads_to C s1 [a] [d]" "keeps s s1"
    by blast
  have wf: "wf_entry a" using s1(4) by (simp add: leads_to_def)
  from UpdateFileRecipe_ok [OF C recipe_of_keeps [OF s1(5) rc] length_RecipeEntry_bytes [OF wf]] obtain s2 where
    s2: "UpdateFileRecipe C (RecipeEntry_bytes a) s1 = Inr s2" "same_store s1 s2"
      "recipe_of C s2 h0 (map RecipeEntry_bytes as @ [RecipeEntry_bytes a])"
    by blast
  let ?s3 = "count_logical (length d) s2"
  have sc: "same_containers s1 ?s3" "indexStore (store ?s3) = indexStore (store s1)"
      "outQuery (outc ?s3) = outQuery (outc s1)"
    using s2(2) by (simp_all add: same_containers_def same_store_def count_logical_def)
  have "out_inv C n ?s3" using s1(2) out_inv_cong [OF sc] by simp
  moreover have "recipe_of C ?s3 h0 (map RecipeEntry_bytes (as @ [a]))"
    using s2(3) by (auto simp: recipe_of_def recipe_rep_def count_logical_def)
  moreover have "leads_to C ?s3 (as @ [a]) (ds @ [d])"
    using leads_to_append [OF leads_to_extends [OF ld s1(3)] s1(4)] leads_to_resolve_eq [OF same_containers_views(2) [OF sc(1)]]
    by simp
  moreover have "OutEnclave_chunk C (s, length pre) = Inr (?s3, length pre + length (encode_chunk d))"
    using rd chunk_fp_eq [OF C, of d] cmc_fp_eq(1) [OF C, of "chunk_fp C d"] s1(1) s2(1)
    by (simp add: OutEnclave_chunk_def)
  moreover have "recvBuffer (sgx ?s3) = recvBuffer (sgx s)" "sessionKey (sgx ?s3) = sessionKey (sgx s)"
    using s1(5) s2(2) by (simp_all add: keeps_def same_store_def count_logical_def)
  moreover have "extends s ?s3" by (rule extends_trans [OF s1(3) same_containers_views(4) [OF sc(1)]])
  ultimately show ?thesis unfolding out_loop_def by blast
qed

text \<open>What a batch is, for every index: the chunks under the session key of the client.\<close>

definition batch_of :: "enclave_cfg \<Rightarrow> up_state \<Rightarrow> net_msg \<Rightarrow> bytes list \<Rightarrow> bool" where
  "batch_of C s m cs \<longleftrightarrow> key_ok (sessionKey (sgx s)) \<and> carries C (sessionKey (sgx s)) m cs"

definition recipe_holds :: "enclave_cfg \<Rightarrow> recipe_id \<Rightarrow> up_state \<Rightarrow> recipe_entry list \<Rightarrow> bool" where
  "recipe_holds C h0 s as \<longleftrightarrow> recipe_of C s h0 (map RecipeEntry_bytes as)"

lemma OutEnclave_ProcessOneBatch_ok:
  assumes inv: "out_inv C (length cs + n) s" and rc: "recipe_holds C h0 s as" and ld: "leads_to C s as ds"
    and m: "batch_of C s m cs" and cs: "\<forall>d \<in> set cs. chunk_ok C d"
  shows "\<exists>s' bs. OutEnclave_ProcessOneBatch C m s = Inr s' \<and> out_inv C n s' \<and> recipe_holds C h0 s' (as @ bs) \<and>
     leads_to C s' (as @ bs) (ds @ cs) \<and> sessionKey (sgx s') = sessionKey (sgx s) \<and> extends s s'"
proof -
  note C = out_inv_cfg [OF inv]
  let ?s1 = "s\<lparr>sgx := (sgx s)\<lparr>recvBuffer := memcpy_at (recvBuffer (sgx s)) 0 (encode_chunks cs)\<rparr>\<rparr>"
  let ?P = "\<lambda>n s' as ds. out_loop C h0 n s' as ds \<and> sessionKey (sgx s') = sessionKey (sgx s) \<and> extends s s'"
  have rb: "recv_batch C m s = Inr ?s1" and num: "unat (currentItemNum m) = length cs"
    using m recv_batch_ok [OF C] by (simp_all add: batch_of_def carries_def)
  have sc: "same_containers s ?s1" by (simp add: same_containers_def)
  have buf: "recvBuffer (sgx ?s1) = [] @ encode_chunks cs @ drop (length (encode_chunks cs)) (recvBuffer (sgx s))"
    by (simp add: memcpy_at_def)
  have P: "?P (length cs + n) ?s1 as ds"
    using inv rc ld out_inv_cong [OF sc] leads_to_resolve_eq [OF same_containers_views(2) [OF sc]] same_containers_views(4) [OF sc]
    by (simp add: out_loop_def recipe_holds_def recipe_of_def recipe_rep_def)
  have "\<exists>s' bs off. rfold (\<lambda>i. OutEnclave_chunk C) [0..<0 + length cs] (?s1, length ([] :: bytes)) = Inr (s', off) \<and>
      ?P n s' (as @ bs) (ds @ cs) \<and> recvBuffer (sgx s') = recvBuffer (sgx ?s1)"
  proof (rule chunk_loop [of ?P "\<lambda>s. recvBuffer (sgx s)" "chunk_ok C", OF _ P buf cs])
    fix n s0 as ds pre d post
    assume a: "?P (Suc n) s0 as ds" "recvBuffer (sgx s0) = pre @ encode_chunk d @ post" "chunk_ok C d"
    from OutEnclave_chunk_ok [of C h0 n s0 as ds pre d post] a
    show "\<exists>s' a. OutEnclave_chunk C (s0, length pre) = Inr (s', length pre + length (encode_chunk d)) \<and>
        ?P n s' (as @ [a]) (ds @ [d]) \<and> recvBuffer (sgx s') = recvBuffer (sgx s0)"
      using extends_trans [of s s0] by fastforce
  qed
  then obtain s2 bs off where r: "rfold (\<lambda>i. OutEnclave_chunk C) [0..<length cs] (?s1, 0) = Inr (s2, off)"
      "?P n s2 (as @ bs) (ds @ cs)"
    by auto
  let ?s3 = "clear_recv C (ResetCurrentSegment s2)"
  have sc3: "same_containers s2 ?s3" "indexStore (store ?s3) = indexStore (store s2)"
      "outQuery (outc ?s3) = outQuery (outc s2)"
    by (simp_all add: same_containers_def clear_recv_def ResetCurrentSegment_def)
  have "out_inv C n ?s3" "leads_to C ?s3 (as @ bs) (ds @ cs)"
    using r(2) out_inv_cong [OF sc3] leads_to_resolve_eq [OF same_containers_views(2) [OF sc3(1)]]
    by (simp_all add: out_loop_def)
  moreover have "recipe_holds C h0 ?s3 (as @ bs)"
    using r(2) by (simp add: out_loop_def recipe_holds_def recipe_of_def recipe_rep_def clear_recv_def ResetCurrentSegment_def)
  moreover have "OutEnclave_ProcessOneBatch C m s = Inr ?s3"
    by (simp add: OutEnclave_ProcessOneBatch_def rb num r(1))
  moreover have "sessionKey (sgx ?s3) = sessionKey (sgx s)"
    using r(2) by (simp add: clear_recv_def ResetCurrentSegment_def)
  moreover have "extends s ?s3" using r(2) extends_trans [OF _ same_containers_views(4) [OF sc3(1)]] by blast
  ultimately show ?thesis by blast
qed

interpretation out_enclave: dedup_index "out_inv C" "recipe_holds C h0" "leads_to C" "batch_of C" "chunk_ok C"
  "OutEnclave_ProcessOneBatch C" for C h0
proof unfold_locales
  fix cs n s as ds m
  assume "out_inv C (length cs + n) s" "recipe_holds C h0 s as" "leads_to C s as ds" "batch_of C s m cs"
    "\<forall>d \<in> set cs. chunk_ok C d"
  from OutEnclave_ProcessOneBatch_ok [OF this]
  show "\<exists>s' bs. OutEnclave_ProcessOneBatch C m s = Inr s' \<and> out_inv C n s' \<and> recipe_holds C h0 s' (as @ bs) \<and>
      leads_to C s' (as @ bs) (ds @ cs) \<and> (\<forall>m cs. batch_of C s' m cs = batch_of C s m cs) \<and>
      (\<forall>as ds. leads_to C s as ds \<longrightarrow> leads_to C s' as ds)"
    using leads_to_extends by (fastforce simp: batch_of_def)
qed

end
