(* ===== verification/Upload.thy ===== *)
theory Upload
  imports OutEnclave
begin

text \<open>
  A whole upload on the server (\<open>DataReceiver::Run\<close> in \<open>dataReceiver.cc\<close>, \<open>EnclaveIndex\<close> in
  \<open>enclaveIndex.cc\<close>): batches until the end of the recipe, the last container, and the writer thread
  that empties the queue. What is on disk afterwards is what the addresses of the recipe need.
\<close>

section \<open>Operations\<close>

text \<open>
  The index object behind \<open>Ecall_ProcChunkBatch\<close> and \<open>Ecall_ProcTailChunkBatch\<close> is a parameter of the
  receiver, as it is in the code (\<open>AbsIndex\<close>). Its state \<open>'i\<close> holds what the index keeps in the
  enclave beside the state of the upload.
\<close>

definition EnclaveIndex_ProcessOneBatch ::
  "(net_msg \<Rightarrow> 'i \<times> up_state \<Rightarrow> ('i \<times> up_state) res) \<Rightarrow> net_msg \<Rightarrow> 'i \<times> up_state \<Rightarrow> ('i \<times> up_state) res" where
  "EnclaveIndex_ProcessOneBatch ecall m st =
     rbind (ecall m st) (\<lambda>(x, s).
       Inr (x, if outQuery (outc s) \<noteq> [] then Ocall_UpdateOutIndex s else s))"

record receiver =
  batchNum :: u64
  recipeEndNum :: u64
  uploadDataSize :: u64
  finished :: "bytes option"

text \<open>One message; \<open>finished\<close> is the recipe file once it is closed.\<close>

definition DataReceiver_message ::
  "(net_msg \<Rightarrow> 'i \<times> up_state \<Rightarrow> ('i \<times> up_state) res) \<Rightarrow> ('i \<times> up_state \<Rightarrow> ('i \<times> up_state) res) \<Rightarrow> net_msg \<Rightarrow>
   receiver \<times> 'i \<times> up_state \<Rightarrow> (receiver \<times> 'i \<times> up_state) res" where
  "DataReceiver_message batch tail m rs =
     (let (r, st) = rs in
      case messageType m of
        CLIENT_UPLOAD_CHUNK \<Rightarrow>
          rbind (EnclaveIndex_ProcessOneBatch batch m st) (\<lambda>st'. Inr (r\<lparr>batchNum := batchNum r + 1\<rparr>, st'))
      | CLIENT_UPLOAD_RECIPE_END \<Rightarrow>
          rbind (tail st) (\<lambda>(x, s1).
          rbind (FinalizeRecipe (FileRecipeHead_of_bytes (dataBuffer m)) (recipeFile (outc s1))) (\<lambda>f.
            Inr (r\<lparr>recipeEndNum := recipeEndNum r + 1, finished := Some f,
                   uploadDataSize := fileSize (FileRecipeHead_of_bytes (dataBuffer m))\<rparr>,
                 x, s1\<lparr>outc := (outc s1)\<lparr>recipeFile := None\<rparr>\<rparr>)))
      | _ \<Rightarrow> Inl (ProcExit ''wrong received message type.''))"

definition DataReceiver_new :: receiver where
  "DataReceiver_new = \<lparr>batchNum = 0, recipeEndNum = 0, uploadDataSize = 0, finished = None\<rparr>"

text \<open>The messages of one connection, the last container and the writer thread.\<close>

definition DataReceiver_Run ::
  "enclave_cfg \<Rightarrow> (net_msg \<Rightarrow> 'i \<times> up_state \<Rightarrow> ('i \<times> up_state) res) \<Rightarrow> ('i \<times> up_state \<Rightarrow> ('i \<times> up_state) res) \<Rightarrow>
   (bytes \<Rightarrow> bool) \<Rightarrow> net_msg list \<Rightarrow> 'i \<times> up_state \<Rightarrow> (receiver \<times> 'i \<times> up_state) res" where
  "DataReceiver_Run C batch tail can_open ms st =
     rbind (rfold (DataReceiver_message batch tail) ms (DataReceiver_new, st)) (\<lambda>(r, x, s1).
     rbind (drain_queue can_open (last_container C s1)) (\<lambda>s2. Inr (r, x, s2)))"

section \<open>The containers on disk\<close>

lemma SaveToFile_all:
  "\<forall>n. can_open n \<Longrightarrow> rfold (SaveToFile can_open) q files = Inr (files ++ mq_map q)"
proof (induction q arbitrary: files rule: rev_induct)
  case Nil
  then show ?case by (simp add: mq_map_def)
next
  case (snoc c q)
  have "files ++ mq_map (q @ [c]) = (files ++ mq_map q)(take CONTAINER_ID_LENGTH (containerID c) \<mapsto> container_data c)"
    by (simp only: mq_map_snoc map_add_upd)
  with snoc show ?case by (simp add: rfold_append SaveToFile_def) (simp add: fun_eq_iff)
qed

text \<open>
  The tail copies the in-enclave container out, the end of the connection queues it, and the writer
  saves it with the others: every chunk that the store had can be read from the files.
\<close>

lemma upload_end_files:
  fixes f :: "bytes option"
  assumes inv: "container_inv s" and o: "\<forall>n. can_open n" and s1: "same_containers s s1"
  defines "t \<equiv> (tail_container s1)\<lparr>outc := (outc (tail_container s1))\<lparr>recipeFile := f\<rparr>\<rparr>"
  shows "\<exists>s'. drain_queue can_open (last_container C t) = Inr s' \<and>
     (\<forall>a r. raw_at s a = Some r \<longrightarrow> raw_in (containerFiles (store s')) a = Some r) \<and>
     (\<forall>b \<in> ran (containerFiles (store s')). length b \<le> unat MAX_CONTAINER_SIZE) \<and>
     indexStore (store s') = indexStore (store s1)"
proof -
  let ?l = "last_container C t" and ?ic = "inContainer (sgx s)" and ?out = "curContainer (outc s1)"
  let ?m = "containerFiles (store ?l) ++ mq_map (inputMQ (outc ?l))"
  have d: "drain_queue can_open ?l = Inr (?l\<lparr>outc := (outc ?l)\<lparr>inputMQ := []\<rparr>,
      store := (store ?l)\<lparr>containerFiles := ?m\<rparr>\<rparr>)"
    by (simp add: drain_queue_def SaveToFile_all [OF o])
  have name: "take CONTAINER_ID_LENGTH (containerID ?out) = cur_name s"
    using s1 by (simp add: same_containers_def cur_name_def)
  have m: "?m = (if curSize ?ic = 0 then containerFiles (store s) ++ mq_map (inputMQ (outc s)) else stored_container s)"
  proof (cases "curSize ?ic = 0")
    case True
    then have "t = s1\<lparr>outc := (outc s1)\<lparr>recipeFile := f\<rparr>\<rparr>"
      using s1 by (simp add: t_def tail_container_def same_containers_def Let_def)
    then show ?thesis using True s1 inv by (simp add: last_container_def same_containers_def container_inv_def)
  next
    case False
    have "curContainer (outc t) = ?out
        \<lparr>body := memcpy_at (body ?out) 0 (take (unat (curSize ?ic)) (ic_buf ?ic)), currentSize := curSize ?ic\<rparr>"
      "containerFiles (store t) = containerFiles (store s)" "inputMQ (outc t) = inputMQ (outc s)"
      using False s1 by (simp_all add: t_def tail_container_def same_containers_def Let_def)
    then show ?thesis
      using False inv name
      by (simp add: last_container_def mq_map_snoc container_data_def memcpy_at_def container_inv_def stored_container_def)
  qed
  have "raw_in ?m a = Some r" if r: "raw_at s a = Some r" for a r
  proof (cases "curSize ?ic = 0")
    case True
    have ne: "containerName a \<noteq> cur_name s"
      using r True by (auto simp: raw_at_def raw_in_def stored_container_def Let_def const_defs split: if_splits)
    have "raw_in (containerFiles (store s) ++ mq_map (inputMQ (outc s))) a = Some r"
      using r ne by (simp add: raw_at_def raw_in_def stored_container_def)
    then show ?thesis using True by (simp add: m)
  next
    case False
    then show ?thesis using r by (simp add: m raw_at_def)
  qed
  moreover have "\<forall>b \<in> ran ?m. length b \<le> unat MAX_CONTAINER_SIZE"
  proof -
    have "\<forall>b \<in> ran (stored_container s). length b \<le> unat MAX_CONTAINER_SIZE"
      unfolding stored_container_def using inv by (intro ran_upd_ball) (simp_all add: container_inv_def)
    then show ?thesis unfolding m using inv by (simp add: container_inv_def)
  qed
  moreover have "indexStore (store ?l) = indexStore (store s1)"
    by (simp add: t_def last_container_def tail_container_def Let_def)
  ultimately show ?thesis using d by simp
qed

section \<open>The contract of an index\<close>

text \<open>
  What \<open>DataReceiver::Run\<close> needs of any index: \<open>progress ds rest st\<close> says that the chunks \<open>ds\<close> have been
  received and \<open>rest\<close> are still to come. A batch of the next chunks is processed without a fault; when
  nothing is left, the tail brings every chunk to its address in the recipe and leaves the index
  \<open>settled\<close>. An index may keep chunks back until the tail. What an address led to, it leads to afterwards.
\<close>

locale upload_index =
  fixes C :: enclave_cfg and h0 :: recipe_id and progress :: "bytes list \<Rightarrow> bytes list \<Rightarrow> 'i \<times> up_state \<Rightarrow> bool"
    and batch :: "net_msg \<Rightarrow> 'i \<times> up_state \<Rightarrow> ('i \<times> up_state) res" and tail :: "'i \<times> up_state \<Rightarrow> ('i \<times> up_state) res"
    and settled :: "'i \<Rightarrow> up_state \<Rightarrow> bool"
  assumes progress_batch: "progress ds (cs @ rest) st \<Longrightarrow> batch_of C (snd st) m cs \<Longrightarrow>
      \<exists>st'. EnclaveIndex_ProcessOneBatch batch m st = Inr st' \<and> progress (ds @ cs) rest st' \<and>
        (\<forall>m cs. batch_of C (snd st') m cs = batch_of C (snd st) m cs) \<and>
        (\<forall>as ds. leads_to C (snd st) as ds \<longrightarrow> leads_to C (snd st') as ds)"
    and progress_tail: "progress ds [] st \<Longrightarrow>
      \<exists>x s1 n as. tail st = rbind (tail_recipe C s1) (\<lambda>s'. Inr (x, tail_container s')) \<and> store_inv C n s1 \<and>
        recipe_holds C h0 s1 as \<and> leads_to C s1 as ds \<and> settled x s1 \<and> (\<forall>as ds. leads_to C (snd st) as ds \<longrightarrow> leads_to C s1 as ds)"
begin

text \<open>All batches of a connection.\<close>

lemma progress_batches:
  assumes "progress ds (concat css @ rest) st" and "list_all2 (batch_of C (snd st)) ms css"
  shows "\<exists>st'. rfold (EnclaveIndex_ProcessOneBatch batch) ms st = Inr st' \<and> progress (ds @ concat css) rest st' \<and>
     (\<forall>as ds. leads_to C (snd st) as ds \<longrightarrow> leads_to C (snd st') as ds)"
  using assms
proof (induction ms arbitrary: css ds st)
  case Nil
  then show ?case by simp
next
  case (Cons m ms)
  from Cons.prems(2) obtain cs css' where css: "css = cs # css'" "batch_of C (snd st) m cs" "list_all2 (batch_of C (snd st)) ms css'"
    by (auto simp: list_all2_Cons1)
  have "progress ds (cs @ (concat css' @ rest)) st" using Cons.prems(1) css(1) by simp
  from progress_batch [OF this css(2)] obtain st1 where
    st1: "EnclaveIndex_ProcessOneBatch batch m st = Inr st1" "progress (ds @ cs) (concat css' @ rest) st1"
      "\<forall>m cs. batch_of C (snd st1) m cs = batch_of C (snd st) m cs" "\<forall>as ds. leads_to C (snd st) as ds \<longrightarrow> leads_to C (snd st1) as ds"
    by blast
  have "list_all2 (batch_of C (snd st1)) ms css'" using css(3) st1(3) by (simp add: list_all2_conv_all_nth)
  from Cons.IH [OF st1(2) this] st1(1,4) css(1) show ?case by auto
qed

end

end
