(* ===== verification/ReadCache.thy ===== *)
theory ReadCache
  imports Structures
begin

text \<open>
  The container cache of the restore path: the LRU list of \<open>include/lruCache.h\<close> (class \<open>Cache\<close>) and
  the pool of container buffers above it (\<open>Util/readCache.cc\<close>). The locale \<open>container_cache\<close> says
  what the restore path relies on: a cached container is the container on disk.
\<close>

section \<open>The LRU list\<close>

text \<open>
  \<open>keys\<close> lists the nodes from the most to the least recently used one. The hash map of the class leads
  from a key to its node; here the node of a key is found in the list, and the size of the map is the
  length of the list.
\<close>

record lru =
  lru_keys :: "(bytes \<times> u32) list"
  lru_maxSize :: nat
  lru_elasticity :: nat

definition Cache_new :: "nat \<Rightarrow> nat \<Rightarrow> lru" where
  "Cache_new maxSize elasticity = \<lparr>lru_keys = [], lru_maxSize = maxSize, lru_elasticity = elasticity\<rparr>"

definition Cache_size :: "lru \<Rightarrow> nat" where
  "Cache_size c = length (lru_keys c)"

definition Cache_contains :: "lru \<Rightarrow> bytes \<Rightarrow> bool" where
  "Cache_contains c k = (map_of (lru_keys c) k \<noteq> None)"

text \<open>\<open>splice\<close> of the node of \<open>k\<close> to the front of the list.\<close>

definition splice_front :: "bytes \<Rightarrow> u32 \<Rightarrow> (bytes \<times> u32) list \<Rightarrow> (bytes \<times> u32) list" where
  "splice_front k v ks = (k, v) # filter (\<lambda>(k', v'). k' \<noteq> k) ks"

function prune_loop :: "nat \<Rightarrow> (bytes \<times> u32) list \<Rightarrow> (bytes \<times> u32) list" where
  "prune_loop maxSize ks = (if maxSize < length ks then prune_loop maxSize (butlast ks) else ks)"
  by pat_completeness auto
termination by (relation "measure (\<lambda>(m, ks). length ks)") auto

declare prune_loop.simps [simp del]

definition Cache_prune :: "lru \<Rightarrow> lru" where
  "Cache_prune c =
     (if lru_maxSize c = 0 \<or> length (lru_keys c) < lru_maxSize c + lru_elasticity c then c
      else c\<lparr>lru_keys := prune_loop (lru_maxSize c) (lru_keys c)\<rparr>)"

definition Cache_insert :: "bytes \<Rightarrow> u32 \<Rightarrow> lru \<Rightarrow> lru" where
  "Cache_insert k v c =
     (if Cache_contains c k then c\<lparr>lru_keys := splice_front k v (lru_keys c)\<rparr>
      else Cache_prune (c\<lparr>lru_keys := (k, v) # lru_keys c\<rparr>))"

definition Cache_get :: "bytes \<Rightarrow> lru \<Rightarrow> (u32 \<times> lru) res" where
  "Cache_get k c =
     (case map_of (lru_keys c) k of
        None \<Rightarrow> Inl (ProcExit ''KeyNotFound'')
      | Some v \<Rightarrow> Inr (v, c\<lparr>lru_keys := splice_front k v (lru_keys c)\<rparr>))"

text \<open>The value of the node that is used least recently; \<open>back\<close> of an empty list is undefined.\<close>

definition Cache_pruneValue :: "lru \<Rightarrow> u32 res" where
  "Cache_pruneValue c =
     (if lru_keys c = [] then Inl (Undefined ''back of an empty list'')
      else case map_of (lru_keys c) (fst (last (lru_keys c))) of
        None \<Rightarrow> Inl (ProcExit ''KeyNotFound'')
      | Some v \<Rightarrow> Inr v)"

section \<open>The container pool\<close>

record read_cache =
  readCache :: lru
  containerPool :: "bytes list"
  cacheSize :: nat
  currentIndex :: nat

definition ReadCache_new :: "nat \<Rightarrow> read_cache" where
  "ReadCache_new n = \<lparr>readCache = Cache_new n 0, containerPool = replicate n [], cacheSize = n, currentIndex = 0\<rparr>"

text \<open>\<open>memcpy\<close> into a buffer of the pool.\<close>

definition pool_write :: "bytes list \<Rightarrow> nat \<Rightarrow> bytes \<Rightarrow> bytes list res" where
  "pool_write pool i d =
     (if i < length pool \<and> length d \<le> unat MAX_CONTAINER_SIZE
      then Inr (pool[i := memcpy_at (pool ! i) 0 d])
      else Inl (Undefined ''write outside the container pool''))"

definition InsertToCache :: "bytes \<Rightarrow> bytes \<Rightarrow> nat \<Rightarrow> read_cache \<Rightarrow> read_cache res" where
  "InsertToCache name data len c =
     (if Cache_size (readCache c) + 1 > cacheSize c then
        rbind (Cache_pruneValue (readCache c)) (\<lambda>replaceIndex.
        rbind (pool_write (containerPool c) (unat replaceIndex) (take len data)) (\<lambda>pool.
          Inr (c\<lparr>containerPool := pool, readCache := Cache_insert name replaceIndex (readCache c)\<rparr>)))
      else
        rbind (pool_write (containerPool c) (currentIndex c) (take len data)) (\<lambda>pool.
          Inr (c\<lparr>containerPool := pool, readCache := Cache_insert name (of_nat (currentIndex c)) (readCache c),
                 currentIndex := currentIndex c + 1\<rparr>)))"

definition ExistsInCache :: "read_cache \<Rightarrow> bytes \<Rightarrow> bool" where
  "ExistsInCache c name = Cache_contains (readCache c) name"

definition ReadFromCache :: "bytes \<Rightarrow> read_cache \<Rightarrow> (bytes \<times> read_cache) res" where
  "ReadFromCache name c =
     rbind (Cache_get name (readCache c)) (\<lambda>(index, r).
       if unat index < length (containerPool c) then Inr (containerPool c ! unat index, c\<lparr>readCache := r\<rparr>)
       else Inl (Undefined ''read outside the container pool''))"

section \<open>The contract\<close>

text \<open>
  \<open>ok m c\<close>: what the cache holds agrees with the containers \<open>m\<close> on disk. Fetching a container, from the
  cache or from the disk with an insertion, gives a buffer that starts with it.
\<close>

locale container_cache =
  fixes ok :: "('k \<rightharpoonup> 'b list) \<Rightarrow> 'c \<Rightarrow> bool" and has :: "'c \<Rightarrow> 'k \<Rightarrow> bool"
    and read :: "'k \<Rightarrow> 'c \<Rightarrow> ('b list \<times> 'c) res" and ins :: "'k \<Rightarrow> 'b list \<Rightarrow> nat \<Rightarrow> 'c \<Rightarrow> 'c res"
    and max_size :: nat
  assumes read_ok: "ok m c \<Longrightarrow> has c k \<Longrightarrow>
      \<exists>b d c'. read k c = Inr (d, c') \<and> ok m c' \<and> m k = Some b \<and> take (length b) d = b"
    and ins_ok: "ok m c \<Longrightarrow> \<not> has c k \<Longrightarrow> m k = Some b \<Longrightarrow> length b \<le> max_size \<Longrightarrow> take (length b) d = b \<Longrightarrow>
      \<exists>c'. ins k d (length b) c = Inr c' \<and> ok m c' \<and> has c' k"
begin

lemma fetch_ok:
  assumes "ok m c" and "m k = Some b" and "length b \<le> max_size" and "take (length b) (load b) = b"
  shows "\<exists>d c'. (if has c k then read k c else rbind (ins k (load b) (length b) c) (\<lambda>c'. Inr (load b, c'))) = Inr (d, c') \<and>
     ok m c' \<and> take (length b) d = b"
proof (cases "has c k")
  case True
  then show ?thesis using read_ok [OF assms(1) True] assms(2) by auto
next
  case False
  then show ?thesis using ins_ok [OF assms(1) False assms(2-4)] assms(4) by auto
qed

end

section \<open>The cache keeps the contract\<close>

lemma prune_loop_take: "prune_loop m ks = take m ks"
proof (induction m ks rule: prune_loop.induct)
  case (1 m ks)
  show ?case
  proof (cases "m < length ks")
    case True
    then have "take m (butlast ks) = take m ks" by (simp add: take_butlast)
    then show ?thesis using 1 True by (simp add: prune_loop.simps [of m ks])
  next
    case False
    then show ?thesis by (simp add: prune_loop.simps [of m ks])
  qed
qed

definition cache_ok :: "(bytes \<rightharpoonup> bytes) \<Rightarrow> read_cache \<Rightarrow> bool" where
  "cache_ok m c \<longleftrightarrow>
     (let ks = lru_keys (readCache c); n = cacheSize c in
      0 < n \<and> n < 2 ^ 32 \<and> lru_maxSize (readCache c) = n \<and> lru_elasticity (readCache c) = 0 \<and>
      length (containerPool c) = n \<and> length ks = currentIndex c \<and> currentIndex c \<le> n \<and>
      distinct (map fst ks) \<and> distinct (map snd ks) \<and>
      (\<forall>(k, i) \<in> set ks. unat i < currentIndex c \<and>
         (\<exists>b. m k = Some b \<and> take (length b) (containerPool c ! unat i) = b)))"

lemma cache_ok_new: "0 < n \<Longrightarrow> n < 2 ^ 32 \<Longrightarrow> cache_ok m (ReadCache_new n)"
  by (simp add: cache_ok_def ReadCache_new_def Cache_new_def)

lemma splice_front_props:
  assumes "distinct (map fst ks)" and "map_of ks k = Some v"
  shows "set (splice_front k v ks) = set ks" and "length (splice_front k v ks) = length ks"
    and "distinct (map fst (splice_front k v ks))"
    and "distinct (map snd ks) \<Longrightarrow> distinct (map snd (splice_front k v ks))"
proof -
  have kv: "(k, v) \<in> set ks" using assms(2) by (rule map_of_SomeD)
  show st: "set (splice_front k v ks) = set ks"
    using kv assms(1) by (auto simp: splice_front_def dest: eq_key_imp_eq_value)
  show d: "distinct (map fst (splice_front k v ks))"
    using assms(1) by (auto simp: splice_front_def distinct_map inj_on_def)
  show l: "length (splice_front k v ks) = length ks"
    using d assms(1) st by (metis distinct_card distinct_map length_map)
  show "distinct (map snd (splice_front k v ks))" if "distinct (map snd ks)"
    using that st l by (metis card_distinct distinct_card length_map list.set_map)
qed

lemma cache_read_ok:
  assumes "cache_ok m c" and "ExistsInCache c k"
  shows "\<exists>b d c'. ReadFromCache k c = Inr (d, c') \<and> cache_ok m c' \<and> m k = Some b \<and> take (length b) d = b"
proof -
  from assms(2) obtain i where i: "map_of (lru_keys (readCache c)) k = Some i"
    by (auto simp: ExistsInCache_def Cache_contains_def)
  let ?ks = "lru_keys (readCache c)"
  have d: "distinct (map fst ?ks)" using assms(1) by (simp add: cache_ok_def Let_def)
  note sp = splice_front_props [OF d i]
  from map_of_SomeD [OF i] assms(1) obtain b where
    b: "unat i < length (containerPool c)" "m k = Some b" "take (length b) (containerPool c ! unat i) = b"
    by (fastforce simp: cache_ok_def Let_def)
  have "cache_ok m (c\<lparr>readCache := (readCache c)\<lparr>lru_keys := splice_front k i ?ks\<rparr>\<rparr>)"
    using assms(1) sp by (simp add: cache_ok_def Let_def)
  then show ?thesis using i b by (simp add: ReadFromCache_def Cache_get_def)
qed

lemma Cache_insert_new:
  assumes "\<not> Cache_contains c k" and "0 < lru_maxSize c" and "lru_elasticity c = 0"
  shows "Cache_insert k v c = c\<lparr>lru_keys := take (lru_maxSize c) ((k, v) # lru_keys c)\<rparr>"
  using assms by (auto simp: Cache_insert_def Cache_prune_def prune_loop_take)

text \<open>A container is written to a buffer \<open>i\<close> of the pool that no node in \<open>ks0\<close> uses.\<close>

lemma pool_put:
  assumes ok: "cache_ok m c" and ks0: "set ks0 \<subseteq> set (lru_keys (readCache c))" "distinct (map fst ks0)" "distinct (map snd ks0)"
    and new: "k \<notin> fst ` set ks0" "i \<notin> snd ` set ks0" and b: "m k = Some b" "take (length b) d = b" "length b \<le> unat MAX_CONTAINER_SIZE"
    and cur: "currentIndex c \<le> cur" "unat i < cur" "cur \<le> cacheSize c" "Suc (length ks0) = cur"
  shows "\<exists>pool. pool_write (containerPool c) (unat i) (take (length b) d) = Inr pool \<and>
     cache_ok m (c\<lparr>containerPool := pool, readCache := (readCache c)\<lparr>lru_keys := (k, i) # ks0\<rparr>, currentIndex := cur\<rparr>)"
proof -
  let ?p = "(containerPool c)[unat i := memcpy_at (containerPool c ! unat i) 0 b]"
  have i: "unat i < length (containerPool c)" using ok cur by (simp add: cache_ok_def Let_def)
  have "pool_write (containerPool c) (unat i) (take (length b) d) = Inr ?p" using i b by (simp add: pool_write_def)
  moreover have "unat j < cur \<and> (\<exists>b. m k' = Some b \<and> take (length b) (?p ! unat j) = b)" if "(k', j) \<in> set ks0" for k' j
  proof -
    have "j \<noteq> i" using that new(2) by force
    then have "?p ! unat j = containerPool c ! unat j" by (metis nth_list_update_neq word_unat_eq_iff)
    then show ?thesis using ok that ks0(1) cur(1) by (fastforce simp: cache_ok_def Let_def)
  qed
  moreover have "take (length b) (?p ! unat i) = b" using i by (simp add: memcpy_at_def)
  moreover have "distinct (map fst ((k, i) # ks0))" "distinct (map snd ((k, i) # ks0))" using ks0 new by simp_all
  ultimately show ?thesis
    using ok cur b(1) i by (intro exI [of _ ?p]) (simp add: cache_ok_def Let_def, blast)
qed

lemma cache_insert_ok:
  assumes ok: "cache_ok m c" and nc: "\<not> ExistsInCache c k" and b: "m k = Some b" "length b \<le> unat MAX_CONTAINER_SIZE"
    and d: "take (length b) d = b"
  shows "\<exists>c'. InsertToCache k d (length b) c = Inr c' \<and> cache_ok m c' \<and> ExistsInCache c' k"
proof -
  let ?r = "readCache c" and ?ks = "lru_keys (readCache c)" and ?n = "cacheSize c"
  from ok have n: "0 < ?n" "?n < 2 ^ 32" "lru_maxSize ?r = ?n" "lru_elasticity ?r = 0"
      "length ?ks = currentIndex c" "currentIndex c \<le> ?n" and dst: "distinct (map fst ?ks)" "distinct (map snd ?ks)"
    by (simp_all add: cache_ok_def Let_def)
  have nk: "k \<notin> fst ` set ?ks" using nc by (simp add: ExistsInCache_def Cache_contains_def map_of_eq_None_iff)
  have ins: "Cache_insert k v ?r = ?r\<lparr>lru_keys := take ?n ((k, v) # ?ks)\<rparr>" for v
    using Cache_insert_new [of ?r k v] nc n by (simp add: ExistsInCache_def)
  have has: "ExistsInCache (c\<lparr>containerPool := p, readCache := ?r\<lparr>lru_keys := (k, v) # ks\<rparr>, currentIndex := j\<rparr>) k" for p v ks j
    by (simp add: ExistsInCache_def Cache_contains_def)
  show ?thesis
  proof (cases "currentIndex c = ?n")
    case True
    then have ne: "?ks \<noteq> []" using n(1,5) by auto
    obtain kl i ks0 where ks: "?ks = ks0 @ [(kl, i)]"
      using ne by (metis append_butlast_last_id surj_pair)
    have "map_of ?ks kl = Some i" using ks dst(1) by (intro map_of_is_SomeI) simp_all
    then have pv: "Cache_pruneValue ?r = Inr i" using ks by (simp add: Cache_pruneValue_def)
    have tk: "take ?n ((k, i) # ?ks) = (k, i) # ks0" using n(5) True ks by (cases ?n) auto
    have ii: "unat i < ?n" using ok ks True by (auto simp: cache_ok_def Let_def)
    from pool_put [OF ok, of ks0 k i b d ?n] obtain pool where
      p: "pool_write (containerPool c) (unat i) (take (length b) d) = Inr pool"
        "cache_ok m (c\<lparr>containerPool := pool, readCache := ?r\<lparr>lru_keys := (k, i) # ks0\<rparr>, currentIndex := ?n\<rparr>)"
      using ks dst nk b d ii True n(5) by auto
    have "c\<lparr>containerPool := pool, readCache := ?r\<lparr>lru_keys := (k, i) # ks0\<rparr>, currentIndex := ?n\<rparr> =
        c\<lparr>containerPool := pool, readCache := ?r\<lparr>lru_keys := (k, i) # ks0\<rparr>\<rparr>"
      using True by simp
    with p(2) has [where ?p = pool and ?v = i and ?ks = ks0 and ?j = "?n"] show ?thesis
      using pv p(1) ins [of i] tk True n(5) by (simp add: InsertToCache_def Cache_size_def)
  next
    case False
    let ?i = "of_nat (currentIndex c) :: u32"
    have ui: "unat ?i = currentIndex c" using n(2,6) by (intro unat_of_nat_u32) simp
    have "?i \<notin> snd ` set ?ks" using ok ui by (fastforce simp: cache_ok_def Let_def)
    from pool_put [OF ok order_refl dst nk this b(1) d b(2), of "Suc (currentIndex c)"] obtain pool where
      p: "pool_write (containerPool c) (currentIndex c) (take (length b) d) = Inr pool"
        "cache_ok m (c\<lparr>containerPool := pool, readCache := ?r\<lparr>lru_keys := (k, ?i) # ?ks\<rparr>, currentIndex := Suc (currentIndex c)\<rparr>)"
      using ui n(5,6) False by auto
    have "take ?n ((k, ?i) # ?ks) = (k, ?i) # ?ks" using n(5,6) False by simp
    with p has show ?thesis using ins [of ?i] False n(5,6) by (simp add: InsertToCache_def Cache_size_def)
  qed
qed

interpretation read_cache: container_cache cache_ok ExistsInCache ReadFromCache InsertToCache "unat MAX_CONTAINER_SIZE"
  by unfold_locales (blast intro: cache_read_ok cache_insert_ok)+

section \<open>Properties\<close>



end
