(* ===== verification/RecvDecoder.thy ===== *)
theory RecvDecoder
  imports Upload ReadCache
begin

text \<open>
  The restore path: \<open>EnclaveRecvDecoder\<close> in the server (\<open>Server/enclaveRecvDecoder.cc\<close>) reads the
  recipe file in batches and fetches containers, \<open>EcallRecvDecoder\<close> in the enclave
  (\<open>ecallStore/ecallRecvDecoder.cc\<close>) decrypts the entries, recovers the chunks and fills the messages
  for the client.
\<close>

section \<open>State\<close>

record enclave_recipe_entry =
  er_containerID :: u32
  er_offset :: u32
  er_length :: u32

text \<open>The restore side of \<open>EnclaveClient\<close>.\<close>

record restore_client =
  rs_sessionKey :: bytes
  rs_masterKey :: bytes
  plainRecipeBuffer :: bytes
  enclaveRecipeBuffer :: "enclave_recipe_entry list"
  restoreChunkBuffer :: net_msg

record req_container =
  idBuffer :: bytes
  containerArray :: "bytes list"
  idNum :: u32

text \<open>
  The restore side of \<open>ClientVar\<close>, the containers on disk, and the messages that went to the client.
\<close>

record restore_state =
  rsgx :: restore_client
  reqContainer :: req_container
  containerCache :: read_cache
  sendChunkBuf :: net_msg
  rfiles :: "bytes \<rightharpoonup> bytes"
  readFromContainerFileNum :: u64
  sent :: "net_msg list"

definition blank_msg :: "u32 \<Rightarrow> net_msg" where
  "blank_msg cid = \<lparr>messageType = SERVER_RESTORE_CHUNK, clientID = cid, dataSize = 0, currentItemNum = 0, dataBuffer = []\<rparr>"

definition EnclaveClient_InitRestoreBuffer :: "u32 \<Rightarrow> bytes \<Rightarrow> bytes \<Rightarrow> restore_client" where
  "EnclaveClient_InitRestoreBuffer cid sk mk =
     \<lparr>rs_sessionKey = sk, rs_masterKey = mk, plainRecipeBuffer = [], enclaveRecipeBuffer = [],
      restoreChunkBuffer = blank_msg cid\<rparr>"

definition ClientVar_InitRestoreBuffer :: "nat \<Rightarrow> u32 \<Rightarrow> restore_client \<Rightarrow> (bytes \<rightharpoonup> bytes) \<Rightarrow> restore_state" where
  "ClientVar_InitRestoreBuffer readCacheSize cid c files =
     \<lparr>rsgx = c, reqContainer = \<lparr>idBuffer = [], containerArray = replicate CONTAINER_CAPPING_VALUE [], idNum = 0\<rparr>,
      containerCache = ReadCache_new readCacheSize, sendChunkBuf = blank_msg cid, rfiles = files,
      readFromContainerFileNum = 0, sent = []\<rparr>"

section \<open>Fetching containers\<close>

text \<open>
  One container into its buffer. A hit copies \<open>MAX_CONTAINER_SIZE\<close> bytes out of the cache; a miss
  reads the file over the old contents of the buffer and puts it into the cache.
\<close>

definition GetReqContainer :: "nat \<Rightarrow> restore_state \<Rightarrow> restore_state res" where
  "GetReqContainer i s =
     (let rq = reqContainer s; name = read_at (idBuffer rq) (i * CONTAINER_ID_LENGTH) CONTAINER_ID_LENGTH;
          put = (\<lambda>d. rq\<lparr>containerArray := (containerArray rq)[i := d]\<rparr>) in
      if ExistsInCache (containerCache s) name then
        rbind (ReadFromCache name (containerCache s)) (\<lambda>(d, c).
          Inr (s\<lparr>reqContainer := put (take (unat MAX_CONTAINER_SIZE) d), containerCache := c\<rparr>))
      else
        case rfiles s name of
          None \<Rightarrow> Inl (ProcExit ''cannot open the container'')
        | Some b \<Rightarrow>
            if length b \<le> unat MAX_CONTAINER_SIZE then
              let d = memcpy_at (containerArray rq ! i) 0 b in
              rbind (InsertToCache name d (length b) (containerCache s)) (\<lambda>c.
                Inr (s\<lparr>reqContainer := put d, containerCache := c,
                       readFromContainerFileNum := readFromContainerFileNum s + 1\<rparr>))
            else Inl (Undefined ''container larger than its buffer''))"

definition GetReqContainers :: "restore_state \<Rightarrow> restore_state res" where
  "GetReqContainers s = rfold GetReqContainer [0..<unat (idNum (reqContainer s))] s"

section \<open>Recovering chunks\<close>

text \<open>
  The buffer of the message has \<open>sendChunkBatchSize * sizeof(Chunk_t)\<close> bytes, and the decompression
  may use \<open>MAX_CHUNK_SIZE\<close> of them behind the size field. The plaintext of the chunk goes through an
  array of \<open>MAX_CHUNK_SIZE\<close> bytes on the stack.
\<close>

definition RecoverOneChunk :: "enclave_cfg \<Rightarrow> bytes \<Rightarrow> nat \<Rightarrow> nat \<Rightarrow> net_msg \<Rightarrow> net_msg res" where
  "RecoverOneChunk C container offset chunkSize m =
     (if length container < offset + chunkSize + CRYPTO_BLOCK_SIZE then Inl (Undefined ''read behind the container'')
      else if unat MAX_CHUNK_SIZE < chunkSize then Inl (Undefined ''stack buffer overflow'')
      else if sendChunkBatchSize C * Chunk_size < unat (dataSize m) + Chunk_size then
        Inl (Undefined ''write behind the restore buffer'')
      else
        rbind (recover_chunk C (read_at container offset chunkSize)
                 (read_at container (offset + chunkSize) CRYPTO_BLOCK_SIZE)) (\<lambda>d.
          Inr (m\<lparr>dataBuffer := memcpy_at (memcpy_at (dataBuffer m) (unat (dataSize m)) (u32_bytes (of_nat (length d))))
                                (unat (dataSize m) + 4) d,
                 dataSize := dataSize m + (4 + of_nat (length d)), currentItemNum := currentItemNum m + 1\<rparr>)))"

text \<open>\<open>Ocall_SendRestoreData\<close>; the process ends when the connection fails.\<close>

definition SendBatchChunks :: "(net_msg \<Rightarrow> bool) \<Rightarrow> restore_state \<Rightarrow> restore_state res" where
  "SendBatchChunks can_send s =
     (let m = (sendChunkBuf s)\<lparr>dataBuffer := take (unat (dataSize (sendChunkBuf s))) (dataBuffer (sendChunkBuf s))\<rparr> in
      if can_send m then Inr (s\<lparr>sent := sent s @ [m]\<rparr>)
      else Inl (ProcExit ''send the batch of restored chunks error.''))"

text \<open>Encrypt what has been recovered for the client, send it and reset the buffer.\<close>

definition send_restored :: "enclave_cfg \<Rightarrow> (net_msg \<Rightarrow> bool) \<Rightarrow> protocol_code \<Rightarrow> restore_state \<Rightarrow> restore_state res" where
  "send_restored C can_send t s =
     (let m = restoreChunkBuffer (rsgx s) in
      rbind (Ecall_SessionKeyEnc (cfg_evp C) (cfg_tool C) (take (unat (dataSize m)) (dataBuffer m)) (rs_sessionKey (rsgx s)))
        (\<lambda>x.
      rbind (SendBatchChunks can_send
               (s\<lparr>sendChunkBuf := m\<lparr>messageType := t, dataBuffer := memcpy_at (dataBuffer (sendChunkBuf s)) 0 x\<rparr>\<rparr>))
        (\<lambda>s1. Inr (s1\<lparr>rsgx := (rsgx s1)\<lparr>restoreChunkBuffer := m\<lparr>messageType := t, dataSize := 0, currentItemNum := 0\<rparr>\<rparr>\<rparr>))))"

definition recover_entry :: "enclave_cfg \<Rightarrow> enclave_recipe_entry \<Rightarrow> restore_state \<Rightarrow> restore_state res" where
  "recover_entry C e s =
     (if unat (er_containerID e) < length (containerArray (reqContainer s)) then
        rbind (RecoverOneChunk C (containerArray (reqContainer s) ! unat (er_containerID e)) (unat (er_offset e))
                 (unat (er_length e)) (restoreChunkBuffer (rsgx s))) (\<lambda>m.
          Inr (s\<lparr>rsgx := (rsgx s)\<lparr>restoreChunkBuffer := m\<rparr>\<rparr>))
      else Inl (Undefined ''container array index out of range''))"

definition batch_full :: "enclave_cfg \<Rightarrow> restore_state \<Rightarrow> bool" where
  "batch_full C s \<longleftrightarrow> unat (currentItemNum (restoreChunkBuffer (rsgx s))) mod sendChunkBatchSize C = 0"

definition recover_and_send :: "enclave_cfg \<Rightarrow> (net_msg \<Rightarrow> bool) \<Rightarrow> enclave_recipe_entry \<Rightarrow> restore_state \<Rightarrow> restore_state res" where
  "recover_and_send C can_send e s =
     rbind (recover_entry C e s) (\<lambda>s1.
       if batch_full C s1 then send_restored C can_send SERVER_RESTORE_CHUNK s1 else Inr s1)"

section \<open>Recipes\<close>

text \<open>One entry of a batch: its container gets a number, and sixteen containers are fetched at once.\<close>

definition ProcRecipe_entry ::
  "enclave_cfg \<Rightarrow> (net_msg \<Rightarrow> bool) \<Rightarrow> recipe_entry \<Rightarrow> (bytes \<rightharpoonup> u32) \<times> restore_state \<Rightarrow> ((bytes \<rightharpoonup> u32) \<times> restore_state) res" where
  "ProcRecipe_entry C can_send r st =
     (let (tmpContainerMap, s) = st; rq = reqContainer s;
          (cid, tmpContainerMap1, rq1) =
            (case tmpContainerMap (containerName r) of
               None \<Rightarrow> (idNum rq, tmpContainerMap(containerName r \<mapsto> idNum rq),
                        rq\<lparr>idBuffer := memcpy_at (idBuffer rq) (unat (idNum rq) * CONTAINER_ID_LENGTH) (containerName r),
                           idNum := idNum rq + 1\<rparr>)
             | Some k \<Rightarrow> (k, tmpContainerMap, rq));
          e = \<lparr>er_containerID = cid, er_offset = re_offset r, er_length = re_length r\<rparr>;
          s1 = s\<lparr>reqContainer := rq1, rsgx := (rsgx s)\<lparr>enclaveRecipeBuffer := enclaveRecipeBuffer (rsgx s) @ [e]\<rparr>\<rparr>
      in if idNum rq1 = of_nat CONTAINER_CAPPING_VALUE then
           rbind (GetReqContainers s1) (\<lambda>s2.
           rbind (rfold (recover_and_send C can_send) (enclaveRecipeBuffer (rsgx s2)) s2) (\<lambda>s3.
             Inr (Map.empty, s3\<lparr>reqContainer := (reqContainer s3)\<lparr>idNum := 0\<rparr>,
                                rsgx := (rsgx s3)\<lparr>enclaveRecipeBuffer := []\<rparr>\<rparr>)))
         else Inr (tmpContainerMap1, s1))"

definition ProcRecipeBatch :: "enclave_cfg \<Rightarrow> (net_msg \<Rightarrow> bool) \<Rightarrow> bytes \<Rightarrow> nat \<Rightarrow> restore_state \<Rightarrow> restore_state res" where
  "ProcRecipeBatch C can_send recipeBuffer num s =
     rbind (Ecall_DecryptWithKey (cfg_evp C) (cfg_tool C) (take (num * RecipeEntry_size) recipeBuffer) (rs_masterKey (rsgx s)))
       (\<lambda>p.
     let plain = memcpy_at (plainRecipeBuffer (rsgx s)) 0 p;
         rs = map (\<lambda>i. RecipeEntry_of_bytes (read_at plain (i * RecipeEntry_size) RecipeEntry_size)) [0..<num]
     in rbind (rfold (ProcRecipe_entry C can_send) rs (Map.empty, s\<lparr>rsgx := (rsgx s)\<lparr>plainRecipeBuffer := plain\<rparr>\<rparr>))
          (\<lambda>(_, s1). Inr s1))"

fun tail_chunks :: "enclave_cfg \<Rightarrow> (net_msg \<Rightarrow> bool) \<Rightarrow> enclave_recipe_entry list \<Rightarrow> restore_state \<Rightarrow> restore_state res" where
  "tail_chunks C can_send [] s = Inr s"
| "tail_chunks C can_send (e # es) s =
     rbind (recover_entry C e s) (\<lambda>s1.
     rbind (if batch_full C s1 \<or> es = []
            then send_restored C can_send (if es = [] then SERVER_RESTORE_FINAL else SERVER_RESTORE_CHUNK) s1
            else Inr s1)
       (tail_chunks C can_send es))"

definition ProcRecipeTailBatch :: "enclave_cfg \<Rightarrow> (net_msg \<Rightarrow> bool) \<Rightarrow> restore_state \<Rightarrow> restore_state res" where
  "ProcRecipeTailBatch C can_send s =
     (if enclaveRecipeBuffer (rsgx s) \<noteq> [] then
        rbind (GetReqContainers s) (\<lambda>s1. tail_chunks C can_send (enclaveRecipeBuffer (rsgx s1)) s1)
      else send_restored C can_send SERVER_RESTORE_FINAL s)"

text \<open>
  The server reads the recipe file behind its head, after the client announced that it is ready
  (\<open>ready\<close> is the received message, \<open>None\<close> when nothing could be received).
\<close>

definition EnclaveRecvDecoder_Run ::
  "enclave_cfg \<Rightarrow> (net_msg \<Rightarrow> bool) \<Rightarrow> net_msg option \<Rightarrow> bytes \<Rightarrow> restore_state \<Rightarrow> restore_state res" where
  "EnclaveRecvDecoder_Run C can_send ready recipe s =
     (case ready of
        None \<Rightarrow> Inl (ProcExit ''recv the client ready error.'')
      | Some m \<Rightarrow>
          if messageType m \<noteq> CLIENT_RESTORE_READY then Inl (ProcExit ''wrong type of client ready reply.'')
          else
            rbind (rfold (\<lambda>b. ProcRecipeBatch C can_send b (length b div RecipeEntry_size))
                     (read_batches (RecipeEntry_size * sendRecipeBatchSize C) recipe) s)
              (ProcRecipeTailBatch C can_send))"

end
