(* ===== verification/Restore.thy ===== *)
theory Restore
  imports RecvDecoder
begin

text \<open>
  The restore path is correct: from a recipe whose addresses lead to chunks on disk, the client gets
  these chunks, in order, in messages of at most \<open>sendChunkBatchSize\<close> chunks, of which exactly the
  last one is marked as final.
\<close>

section \<open>Chunks on disk\<close>

definition chunk_in :: "enclave_cfg \<Rightarrow> (bytes \<rightharpoonup> bytes) \<Rightarrow> recipe_entry \<Rightarrow> bytes option" where
  "chunk_in C files a =
     (case raw_in files a of
        None \<Rightarrow> None
      | Some (x, v) \<Rightarrow>
          (case recover_chunk C x v of Inl _ \<Rightarrow> None | Inr d \<Rightarrow> if length d \<le> unat MAX_CHUNK_SIZE then Some d else None))"

lemma resolve_chunk_in: "resolve C s a = chunk_in C (stored_container s) a"
  by (simp add: resolve_def chunk_in_def raw_at_def)

lemma chunk_inE:
  assumes "chunk_in C files a = Some d"
  obtains b where "files (containerName a) = Some b"
    and "unat (re_offset a) + unat (re_length a) + CRYPTO_BLOCK_SIZE \<le> length b" and "unat (re_length a) \<le> unat MAX_CHUNK_SIZE"
    and "recover_chunk C (read_at b (unat (re_offset a)) (unat (re_length a)))
           (read_at b (unat (re_offset a) + unat (re_length a)) CRYPTO_BLOCK_SIZE) = Inr d"
    and "length d \<le> unat MAX_CHUNK_SIZE"
  using assms by (auto simp: chunk_in_def raw_in_def Let_def split: option.splits sum.splits if_splits)

text \<open>Reading inside a prefix of a buffer.\<close>

lemma read_at_prefix: "take (length b) d = b \<Longrightarrow> i + n \<le> length b \<Longrightarrow> read_at d i n = read_at b i n"
  unfolding read_at_def by (metis add.commute min.absorb1 take_drop take_take)

section \<open>Fetching containers\<close>

definition fetched :: "(bytes \<rightharpoonup> bytes) \<Rightarrow> bytes list \<Rightarrow> restore_state \<Rightarrow> bool" where
  "fetched files names s \<longleftrightarrow> length names \<le> length (containerArray (reqContainer s)) \<and>
     (\<forall>i < length names. \<forall>b. files (names ! i) = Some b \<longrightarrow>
        take (length b) (containerArray (reqContainer s) ! i) = b)"

definition slots :: "bytes list \<Rightarrow> req_container \<Rightarrow> bool" where
  "slots names rq \<longleftrightarrow> (\<forall>n \<in> set names. length n = CONTAINER_ID_LENGTH) \<and> unat (idNum rq) = length names \<and>
     take (length names * CONTAINER_ID_LENGTH) (idBuffer rq) = concat names \<and>
     length (containerArray rq) = CONTAINER_CAPPING_VALUE \<and> length names \<le> CONTAINER_CAPPING_VALUE"

definition disk_ok :: "(bytes \<rightharpoonup> bytes) \<Rightarrow> restore_state \<Rightarrow> bool" where
  "disk_ok files s \<longleftrightarrow> rfiles s = files \<and> cache_ok files (containerCache s) \<and>
     (\<forall>b \<in> ran files. length b \<le> unat MAX_CONTAINER_SIZE)"

text \<open>What fetching leaves alone.\<close>

definition same_req :: "restore_state \<Rightarrow> restore_state \<Rightarrow> bool" where
  "same_req s s' \<longleftrightarrow> rsgx s' = rsgx s \<and> sent s' = sent s \<and> sendChunkBuf s' = sendChunkBuf s \<and>
     idBuffer (reqContainer s') = idBuffer (reqContainer s) \<and> idNum (reqContainer s') = idNum (reqContainer s) \<and>
     length (containerArray (reqContainer s')) = length (containerArray (reqContainer s))"

lemma GetReqContainer_ok:
  assumes d: "disk_ok files s" and i: "i < length (containerArray (reqContainer s))"
    and name: "read_at (idBuffer (reqContainer s)) (i * CONTAINER_ID_LENGTH) CONTAINER_ID_LENGTH = n"
    and b: "files n = Some b"
  shows "\<exists>s'. GetReqContainer i s = Inr s' \<and> disk_ok files s' \<and> same_req s s' \<and>
     take (length b) (containerArray (reqContainer s') ! i) = b \<and>
     (\<forall>j. j \<noteq> i \<longrightarrow> containerArray (reqContainer s') ! j = containerArray (reqContainer s) ! j)"
proof -
  let ?load = "memcpy_at (containerArray (reqContainer s) ! i) 0"
  have ok: "cache_ok files (containerCache s)" and f: "rfiles s = files" and lb: "length b \<le> unat MAX_CONTAINER_SIZE"
    using d b by (auto simp: disk_ok_def intro: ranI)
  have tl: "take (length b) (?load b) = b" by (simp add: memcpy_at_def)
  from read_cache.fetch_ok [where ?load = ?load, OF ok b lb tl] obtain x c where
    x: "(if ExistsInCache (containerCache s) n then ReadFromCache n (containerCache s)
         else rbind (InsertToCache n (?load b) (length b) (containerCache s)) (\<lambda>c'. Inr (?load b, c'))) = Inr (x, c)"
      "cache_ok files c" "take (length b) x = b"
    by blast
  show ?thesis
  proof (cases "ExistsInCache (containerCache s) n")
    case True
    then have "ReadFromCache n (containerCache s) = Inr (x, c)" using x(1) by simp
    with True x(2,3) name i d lb show ?thesis
      by (simp add: GetReqContainer_def Let_def disk_ok_def same_req_def min_absorb1)
  next
    case False
    then have "InsertToCache n (?load b) (length b) (containerCache s) = Inr c" "x = ?load b"
      using x(1) by (auto simp: rbind_def split: sum.splits)
    with False x(2,3) name i d f b lb show ?thesis
      by (simp add: GetReqContainer_def Let_def disk_ok_def same_req_def)
  qed
qed

lemma GetReqContainers_ok:
  assumes d: "disk_ok files s" and sl: "slots names (reqContainer s)" and dom: "set names \<subseteq> dom files"
  shows "\<exists>s'. GetReqContainers s = Inr s' \<and> disk_ok files s' \<and> same_req s s' \<and> fetched files names s'"
proof -
  let ?a = "\<lambda>s. containerArray (reqContainer s)"
  have "\<exists>s'. rfold GetReqContainer [0..<k] s = Inr s' \<and> disk_ok files s' \<and> same_req s s' \<and>
      (\<forall>i < k. \<forall>b. files (names ! i) = Some b \<longrightarrow> take (length b) (?a s' ! i) = b)" if "k \<le> length names" for k
    using that
  proof (induction k)
    case 0
    then show ?case using d by (simp add: same_req_def)
  next
    case (Suc k)
    then obtain s1 where s1: "rfold GetReqContainer [0..<k] s = Inr s1" "disk_ok files s1" "same_req s s1"
        "\<forall>i < k. \<forall>b. files (names ! i) = Some b \<longrightarrow> take (length b) (?a s1 ! i) = b"
      by auto
    have k: "k < length names" using Suc.prems by simp
    have len: "\<forall>n \<in> set names. length n = CONTAINER_ID_LENGTH" and tk: "take (length names * CONTAINER_ID_LENGTH) (idBuffer (reqContainer s)) = concat names"
      using sl by (simp_all add: slots_def)
    have "read_at (idBuffer (reqContainer s1)) (k * CONTAINER_ID_LENGTH) CONTAINER_ID_LENGTH = names ! k"
      using read_at_take_concat [OF len tk k] s1(3) by (simp add: same_req_def)
    moreover obtain b where b: "files (names ! k) = Some b" using dom k nth_mem by blast
    moreover have "k < length (?a s1)" using s1(3) sl k by (simp add: same_req_def slots_def)
    ultimately obtain s2 where s2: "GetReqContainer k s1 = Inr s2" "disk_ok files s2" "same_req s1 s2"
        "take (length b) (?a s2 ! k) = b" "\<forall>j. j \<noteq> k \<longrightarrow> ?a s2 ! j = ?a s1 ! j"
      using GetReqContainer_ok [OF s1(2)] by blast
    have "\<forall>i < Suc k. \<forall>b. files (names ! i) = Some b \<longrightarrow> take (length b) (?a s2 ! i) = b"
      using s1(4) s2(4,5) b by (auto simp: less_Suc_eq)
    moreover have "same_req s s2" using s1(3) s2(3) by (simp add: same_req_def)
    ultimately show ?case using s1(1) s2(1,2) by (simp add: rfold_append)
  qed
  from this [OF order_refl] show ?thesis using sl unfolding GetReqContainers_def fetched_def slots_def same_req_def by auto
qed

section \<open>Recovering and sending\<close>

definition res_cfg :: "enclave_cfg \<Rightarrow> bool" where
  "res_cfg C \<longleftrightarrow> cfg_ok C \<and> 0 < sendChunkBatchSize C \<and> sendChunkBatchSize C * Chunk_size < 2 ^ 32"

text \<open>The buffer of the enclave holds the chunks \<open>pend\<close> that are not sent yet.\<close>

definition pending :: "net_msg \<Rightarrow> bytes list \<Rightarrow> bool" where
  "pending m pend \<longleftrightarrow> unat (dataSize m) = length (encode_chunks pend) \<and> length (encode_chunks pend) \<le> length (dataBuffer m) \<and>
     take (length (encode_chunks pend)) (dataBuffer m) = encode_chunks pend \<and> unat (currentItemNum m) = length pend \<and>
     (\<forall>d \<in> set pend. length d \<le> unat MAX_CHUNK_SIZE)"

lemma length_encode_chunks:
  "\<forall>d \<in> set cs. length d \<le> unat MAX_CHUNK_SIZE \<Longrightarrow> length (encode_chunks cs) \<le> length cs * Chunk_size"
  by (induction cs) (auto simp: encode_chunk_def Chunk_size_def)

lemma RecoverOneChunk_ok:
  assumes C: "res_cfg C" and p: "pending m pend" and n: "length pend < sendChunkBatchSize C"
    and a: "chunk_in C files a = Some d" and b: "files (containerName a) = Some b" "take (length b) x = b"
  shows "\<exists>m'. RecoverOneChunk C x (unat (re_offset a)) (unat (re_length a)) m = Inr m' \<and> pending m' (pend @ [d]) \<and>
     messageType m' = messageType m \<and> clientID m' = clientID m"
proof -
  let ?o = "unat (re_offset a)" and ?l = "unat (re_length a)" and ?e = "length (encode_chunks pend)"
  from a b(1) have le: "?o + ?l + CRYPTO_BLOCK_SIZE \<le> length b" "?l \<le> unat MAX_CHUNK_SIZE" "length d \<le> unat MAX_CHUNK_SIZE"
    and rc: "recover_chunk C (read_at b ?o ?l) (read_at b (?o + ?l) CRYPTO_BLOCK_SIZE) = Inr d"
    by (auto elim!: chunk_inE)
  have lx: "length b \<le> length x" using b(2) by (metis length_take min.cobounded1 min.commute)
  have rx: "read_at x ?o ?l = read_at b ?o ?l" "read_at x (?o + ?l) CRYPTO_BLOCK_SIZE = read_at b (?o + ?l) CRYPTO_BLOCK_SIZE"
    using read_at_prefix [OF b(2)] le by simp_all
  have "?e \<le> length pend * Chunk_size" using p length_encode_chunks by (simp add: pending_def)
  also have "\<dots> + Chunk_size \<le> sendChunkBatchSize C * Chunk_size"
    using n mult_le_mono1 [of "Suc (length pend)" "sendChunkBatchSize C" Chunk_size] by simp
  finally have room: "?e + Chunk_size \<le> sendChunkBatchSize C * Chunk_size" by simp
  then have small: "?e + 4 + length d < 2 ^ 32" using C le(3) by (simp add: res_cfg_def Chunk_size_def)
  have ds: "unat (dataSize m) = ?e" "unat (currentItemNum m) = length pend" using p by (simp_all add: pending_def)
  have "unat (4 + of_nat (length d) :: u32) = 4 + length d"
    using small by (subst unat_add_u32) (simp_all add: unat_of_nat_u32)
  then have ds': "unat (dataSize m + (4 + of_nat (length d))) = ?e + length (encode_chunk d)"
    using ds small by (subst unat_add_u32) (simp_all add: encode_chunk_def)
  have "0 < Chunk_size" by (simp add: Chunk_size_def)
  then have "sendChunkBatchSize C < 2 ^ 32" using C le_less_trans [of "sendChunkBatchSize C" "sendChunkBatchSize C * Chunk_size" "2 ^ 32"]
    by (simp add: res_cfg_def)
  then have num: "unat (currentItemNum m + 1) = Suc (length pend)"
    using ds n by (subst unat_add_u32) simp_all
  let ?buf = "memcpy_at (memcpy_at (dataBuffer m) ?e (u32_bytes (of_nat (length d)))) (?e + 4) d"
  have buf: "take (?e + length (encode_chunk d)) ?buf = encode_chunks pend @ encode_chunk d"
    using p by (simp add: pending_def memcpy_at_def encode_chunk_def)
  let ?m = "m\<lparr>dataBuffer := ?buf, dataSize := dataSize m + (4 + of_nat (length d)), currentItemNum := currentItemNum m + 1\<rparr>"
  have "RecoverOneChunk C x ?o ?l m = Inr ?m"
    using le lx rx rc room ds by (simp add: RecoverOneChunk_def)
  moreover have "pending ?m (pend @ [d])"
    using ds' num buf p le(3) by (simp add: pending_def encode_chunk_def)
  ultimately show ?thesis by auto
qed

text \<open>A message that the client decrypts to the chunks \<open>cs\<close>.\<close>

definition msg_of :: "enclave_cfg \<Rightarrow> bytes \<Rightarrow> protocol_code \<Rightarrow> net_msg \<Rightarrow> bytes list \<Rightarrow> bool" where
  "msg_of C key t m cs \<longleftrightarrow> messageType m = t \<and>
     Crypto_SessionKeyDec (cfg_evp C) (cfg_tool C) (take (unat (dataSize m)) (dataBuffer m)) key = Inr (encode_chunks cs) \<and>
     unat (currentItemNum m) = length cs \<and> length cs \<le> sendChunkBatchSize C \<and>
     (\<forall>d \<in> set cs. length d \<le> unat MAX_CHUNK_SIZE)"

text \<open>What recovering and sending leaves alone.\<close>

definition same_res :: "restore_state \<Rightarrow> restore_state \<Rightarrow> bool" where
  "same_res s s' \<longleftrightarrow> reqContainer s' = reqContainer s \<and> containerCache s' = containerCache s \<and> rfiles s' = rfiles s \<and>
     rs_sessionKey (rsgx s') = rs_sessionKey (rsgx s) \<and> rs_masterKey (rsgx s') = rs_masterKey (rsgx s) \<and>
     enclaveRecipeBuffer (rsgx s') = enclaveRecipeBuffer (rsgx s)"

lemma send_restored_ok:
  assumes C: "res_cfg C" and k: "key_ok (rs_sessionKey (rsgx s))" and p: "pending (restoreChunkBuffer (rsgx s)) pend"
    and n: "length pend \<le> sendChunkBatchSize C" and snd: "\<forall>m. can_send m"
  shows "\<exists>s' m. send_restored C can_send t s = Inr s' \<and> sent s' = sent s @ [m] \<and>
     msg_of C (rs_sessionKey (rsgx s)) t m pend \<and> pending (restoreChunkBuffer (rsgx s')) [] \<and> same_res s s'"
proof -
  let ?m = "restoreChunkBuffer (rsgx s)" and ?key = "rs_sessionKey (rsgx s)"
  have "stream_good (cfg_evp C) (cfg_tool C) ?key (encode_chunks pend)"
    using C k by (simp add: res_cfg_def stream_good_def cfg_ok_def)
  from session_back.encE [OF this] obtain x where
    x: "Ecall_SessionKeyEnc (cfg_evp C) (cfg_tool C) (encode_chunks pend) ?key = Inr x" "length x = length (encode_chunks pend)"
      "Crypto_SessionKeyDec (cfg_evp C) (cfg_tool C) x ?key = Inr (encode_chunks pend)"
    by blast
  have ds: "unat (dataSize ?m) = length x" "take (unat (dataSize ?m)) (dataBuffer ?m) = encode_chunks pend"
    using p x(2) by (simp_all add: pending_def)
  have tx: "take (length x) (memcpy_at (dataBuffer (sendChunkBuf s)) 0 x) = x" by (simp add: memcpy_at_def)
  show ?thesis
    using x ds tx snd p n
    by (simp add: send_restored_def Let_def SendBatchChunks_def msg_of_def pending_def same_res_def)
qed

section \<open>The loop over the buffered entries\<close>

definition slot :: "bytes list \<Rightarrow> enclave_recipe_entry \<Rightarrow> recipe_entry \<Rightarrow> bool" where
  "slot names e a \<longleftrightarrow> unat (er_containerID e) < length names \<and> names ! unat (er_containerID e) = containerName a \<and>
     er_offset e = re_offset a \<and> er_length e = re_length a"

text \<open>The chunks in the messages sent so far, and those in the buffer.\<close>

definition flow :: "enclave_cfg \<Rightarrow> bytes \<Rightarrow> bytes list list \<Rightarrow> bytes list \<Rightarrow> restore_state \<Rightarrow> bool" where
  "flow C key css pend s \<longleftrightarrow> res_cfg C \<and> key_ok key \<and> rs_sessionKey (rsgx s) = key \<and>
     list_all2 (msg_of C key SERVER_RESTORE_CHUNK) (sent s) css \<and>
     pending (restoreChunkBuffer (rsgx s)) pend \<and> length pend < sendChunkBatchSize C"

lemma recover_entry_ok:
  assumes f: "flow C key css pend s" and ft: "fetched files names s" and sl: "slot names e a" and a: "chunk_in C files a = Some d"
  shows "\<exists>s'. recover_entry C e s = Inr s' \<and> pending (restoreChunkBuffer (rsgx s')) (pend @ [d]) \<and> same_res s s' \<and> sent s' = sent s"
proof -
  let ?x = "containerArray (reqContainer s) ! unat (er_containerID e)"
  from a obtain b where b: "files (containerName a) = Some b" by (auto elim: chunk_inE)
  have i: "unat (er_containerID e) < length (containerArray (reqContainer s))" and tb: "take (length b) ?x = b"
    using ft sl b by (auto simp: fetched_def slot_def)
  have fl: "res_cfg C" "pending (restoreChunkBuffer (rsgx s)) pend" "length pend < sendChunkBatchSize C"
    using f by (simp_all add: flow_def)
  from RecoverOneChunk_ok [OF fl a b tb] obtain m where
    "RecoverOneChunk C ?x (unat (re_offset a)) (unat (re_length a)) (restoreChunkBuffer (rsgx s)) = Inr m" "pending m (pend @ [d])"
    by blast
  then show ?thesis using i sl by (simp add: recover_entry_def slot_def same_res_def)
qed

lemma recover_and_send_ok:
  assumes f: "flow C key css pend s" and ft: "fetched files names s" and sl: "slot names e a"
    and a: "chunk_in C files a = Some d" and snd: "\<forall>m. can_send m"
  shows "\<exists>s' css' pend'. recover_and_send C can_send e s = Inr s' \<and> flow C key css' pend' s' \<and>
     concat css' @ pend' = concat css @ pend @ [d] \<and> same_res s s'"
proof -
  from recover_entry_ok [OF f ft sl a] obtain s1 where
    s1: "recover_entry C e s = Inr s1" "pending (restoreChunkBuffer (rsgx s1)) (pend @ [d])" "same_res s s1" "sent s1 = sent s"
    by blast
  have C: "res_cfg C" and k: "key_ok (rs_sessionKey (rsgx s1))" "rs_sessionKey (rsgx s1) = key"
    and n: "length pend < sendChunkBatchSize C"
    using f s1(3) by (auto simp: flow_def same_res_def)
  have num: "unat (currentItemNum (restoreChunkBuffer (rsgx s1))) = Suc (length pend)" using s1(2) by (simp add: pending_def)
  have full: "batch_full C s1 \<longleftrightarrow> Suc (length pend) = sendChunkBatchSize C"
    using n by (auto simp: batch_full_def num mod_Suc)
  show ?thesis
  proof (cases "batch_full C s1")
    case True
    with full have "length (pend @ [d]) \<le> sendChunkBatchSize C" by simp
    from send_restored_ok [OF C k(1) s1(2) this snd, of SERVER_RESTORE_CHUNK] obtain s2 m where
      s2: "send_restored C can_send SERVER_RESTORE_CHUNK s1 = Inr s2" "sent s2 = sent s1 @ [m]"
        "msg_of C key SERVER_RESTORE_CHUNK m (pend @ [d])" "pending (restoreChunkBuffer (rsgx s2)) []" "same_res s1 s2"
      using k(2) by blast
    have "flow C key (css @ [pend @ [d]]) [] s2"
      using f s1 s2 C by (auto simp: flow_def same_res_def res_cfg_def intro: list_all2_appendI)
    moreover have "same_res s s2" using s1(3) s2(5) by (simp add: same_res_def)
    moreover have "recover_and_send C can_send e s = Inr s2" using s1(1) s2(1) True by (simp add: recover_and_send_def)
    ultimately show ?thesis by (intro exI [of _ s2] exI [of _ "css @ [pend @ [d]]"] exI [of _ "[]"]) simp
  next
    case False
    then have "flow C key css (pend @ [d]) s1" using f s1 full n by (auto simp: flow_def same_res_def)
    moreover have "recover_and_send C can_send e s = Inr s1" using s1(1) False by (simp add: recover_and_send_def)
    ultimately show ?thesis using s1(3) by (intro exI [of _ s1] exI [of _ css] exI [of _ "pend @ [d]"]) simp
  qed
qed

lemma same_res_trans: "same_res s s' \<Longrightarrow> same_res s' s'' \<Longrightarrow> same_res s s''"
  by (simp add: same_res_def)

lemma same_res_fetched: "same_res s s' \<Longrightarrow> fetched files names s' = fetched files names s"
  by (simp add: same_res_def fetched_def)

lemma recover_all_ok:
  assumes "flow C key css pend s" and "fetched files names s" and "list_all2 (slot names) es as"
    and "list_all2 (\<lambda>a d. chunk_in C files a = Some d) as ds" and "\<forall>m. can_send m"
  shows "\<exists>s' css' pend'. rfold (recover_and_send C can_send) es s = Inr s' \<and> flow C key css' pend' s' \<and>
     concat css' @ pend' = concat css @ pend @ ds \<and> same_res s s'"
  using assms(1-4)
proof (induction es arbitrary: css pend s as ds)
  case Nil
  then show ?case by (auto simp: same_res_def)
next
  case (Cons e es)
  from Cons.prems(3,4) obtain a as' d ds' where as: "as = a # as'" "slot names e a" "list_all2 (slot names) es as'"
      "ds = d # ds'" "chunk_in C files a = Some d" "list_all2 (\<lambda>a d. chunk_in C files a = Some d) as' ds'"
    by (auto simp: list_all2_Cons1)
  from recover_and_send_ok [OF Cons.prems(1,2) as(2,5) assms(5)] obtain s1 css1 pend1 where
    s1: "recover_and_send C can_send e s = Inr s1" "flow C key css1 pend1 s1" "concat css1 @ pend1 = concat css @ pend @ [d]" "same_res s s1"
    by blast
  have "fetched files names s1" using Cons.prems(2) same_res_fetched [OF s1(4)] by simp
  from Cons.IH [OF s1(2) this as(3,6)] obtain s' css' pend' where
    "rfold (recover_and_send C can_send) es s1 = Inr s'" "flow C key css' pend' s'"
    "concat css' @ pend' = concat css1 @ pend1 @ ds'" "same_res s1 s'"
    by blast
  with s1 as(4) show ?case
    by (intro exI [of _ s'] exI [of _ css'] exI [of _ pend']) (auto intro: same_res_trans simp flip: append_assoc)
qed

section \<open>The recipe\<close>

definition known :: "bytes list \<Rightarrow> (bytes \<rightharpoonup> u32) \<Rightarrow> bool" where
  "known names tm \<longleftrightarrow> (\<forall>n k. tm n = Some k \<longrightarrow> unat k < length names \<and> names ! unat k = n)"

text \<open>
  Between two entries: the chunks \<open>ds\<close> of the entries so far are in messages, in the buffer, or still
  to be recovered from the containers with the numbers in \<open>names\<close>, fewer than sixteen.
\<close>

definition res_inv ::
  "enclave_cfg \<Rightarrow> (bytes \<rightharpoonup> bytes) \<Rightarrow> bytes \<Rightarrow> bytes \<Rightarrow> (bytes \<rightharpoonup> u32) \<Rightarrow> bytes list \<Rightarrow> restore_state \<Rightarrow> bool" where
  "res_inv C files key mk tm ds s \<longleftrightarrow>
     (\<exists>css pend names as ds'. flow C key css pend s \<and> disk_ok files s \<and> slots names (reqContainer s) \<and>
        length names < CONTAINER_CAPPING_VALUE \<and> set names \<subseteq> dom files \<and> known names tm \<and>
        list_all2 (slot names) (enclaveRecipeBuffer (rsgx s)) as \<and>
        list_all2 (\<lambda>a d. chunk_in C files a = Some d) as ds' \<and> ds = concat css @ pend @ ds' \<and>
        rs_masterKey (rsgx s) = mk \<and> key_ok mk)"

lemma res_inv_empty: "res_inv C files key mk tm ds s \<Longrightarrow> res_inv C files key mk Map.empty ds s"
  unfolding res_inv_def known_def by (simp only: option.distinct simp_thms) blast

text \<open>Giving a container its number.\<close>

lemma new_slot:
  assumes sl: "slots names rq" and n: "length names < CONTAINER_CAPPING_VALUE" and l: "length nm = CONTAINER_ID_LENGTH"
    and kn: "known names tm"
  defines "rq1 \<equiv> rq\<lparr>idBuffer := memcpy_at (idBuffer rq) (unat (idNum rq) * CONTAINER_ID_LENGTH) nm, idNum := idNum rq + 1\<rparr>"
  shows "slots (names @ [nm]) rq1" and "known (names @ [nm]) (tm(nm \<mapsto> idNum rq))" and "(names @ [nm]) ! unat (idNum rq) = nm"
    and "unat (idNum rq) < length (names @ [nm])"
proof -
  have i: "unat (idNum rq) = length names" and nm: "\<forall>x \<in> set names. length x = CONTAINER_ID_LENGTH"
    and tk: "take (length names * CONTAINER_ID_LENGTH) (idBuffer rq) = concat names" using sl by (simp_all add: slots_def)
  have "unat (idNum rq + 1) = Suc (length names)" using i n by (subst unat_add_u32) (simp_all add: const_defs)
  moreover have "length names * CONTAINER_ID_LENGTH \<le> length (idBuffer rq)"
    using tk length_concat_blocks [OF nm] by (metis length_take min.cobounded1 min.commute)
  then have "take (Suc (length names) * CONTAINER_ID_LENGTH) (idBuffer rq1) = concat (names @ [nm])"
    using tk l i length_concat_blocks [OF nm] by (simp add: rq1_def memcpy_at_def add.commute)
  ultimately show "slots (names @ [nm]) rq1"
    using sl n l by (simp add: slots_def rq1_def)
  show "known (names @ [nm]) (tm(nm \<mapsto> idNum rq))"
    using kn i by (auto simp: known_def nth_append less_SucI)
  show "(names @ [nm]) ! unat (idNum rq) = nm" "unat (idNum rq) < length (names @ [nm])" using i by simp_all
qed

lemma slot_append: "slot names e a \<Longrightarrow> slot (names @ ms) e a"
  by (auto simp: slot_def nth_append)

text \<open>The state after the number of the container is found; \<open>names1\<close> may be full now.\<close>

lemma assign_slot:
  assumes sl: "slots names rq" and n: "length names < CONTAINER_CAPPING_VALUE" and kn: "known names tm"
    and wf: "wf_entry a" and dom: "set names \<subseteq> dom files" "containerName a \<in> dom files"
  shows "\<exists>cid tm1 rq1 names1.
     (case tm (containerName a) of
        None \<Rightarrow> (idNum rq, tm(containerName a \<mapsto> idNum rq),
          rq\<lparr>idBuffer := memcpy_at (idBuffer rq) (unat (idNum rq) * CONTAINER_ID_LENGTH) (containerName a), idNum := idNum rq + 1\<rparr>)
      | Some k \<Rightarrow> (k, tm, rq)) = (cid, tm1, rq1) \<and>
     slots names1 rq1 \<and> known names1 tm1 \<and> set names1 \<subseteq> dom files \<and>
     (\<forall>es as. list_all2 (slot names) es as \<longrightarrow>
        list_all2 (slot names1) (es @ [\<lparr>er_containerID = cid, er_offset = re_offset a, er_length = re_length a\<rparr>]) (as @ [a]))"
proof (cases "tm (containerName a)")
  case None
  have "length (containerName a) = CONTAINER_ID_LENGTH" using wf by (simp add: wf_entry_def)
  note ns = new_slot [OF sl n this kn]
  have "list_all2 (slot (names @ [containerName a])) es as" if "list_all2 (slot names) es as" for es as
    using that by (rule list_all2_mono) (rule slot_append)
  with None ns dom show ?thesis
    by (intro exI [of _ "idNum rq"] exI [of _ "tm(containerName a \<mapsto> idNum rq)"] exI [of _ "names @ [containerName a]"] exI conjI)
      (auto simp: slot_def intro!: list_all2_appendI)
next
  case (Some k)
  then have "unat k < length names" "names ! unat k = containerName a" using kn by (auto simp: known_def)
  with Some sl kn dom show ?thesis
    by (intro exI [of _ k] exI [of _ tm] exI [of _ rq] exI [of _ names])
      (auto simp: slot_def intro!: list_all2_appendI)
qed

lemma ProcRecipe_entry_ok:
  assumes inv: "res_inv C files key mk tm ds s" and a: "chunk_in C files a = Some d" "wf_entry a" and snd: "\<forall>m. can_send m"
  shows "\<exists>tm' s'. ProcRecipe_entry C can_send a (tm, s) = Inr (tm', s') \<and> res_inv C files key mk tm' (ds @ [d]) s'"
proof -
  from inv obtain css pend names as ds' where i: "flow C key css pend s" "disk_ok files s" "slots names (reqContainer s)"
      "length names < CONTAINER_CAPPING_VALUE" "set names \<subseteq> dom files" "known names tm"
      "list_all2 (slot names) (enclaveRecipeBuffer (rsgx s)) as"
      "list_all2 (\<lambda>a d. chunk_in C files a = Some d) as ds'" "ds = concat css @ pend @ ds'" "rs_masterKey (rsgx s) = mk" "key_ok mk"
    unfolding res_inv_def by blast
  have "containerName a \<in> dom files" using a(1) by (auto elim: chunk_inE)
  from assign_slot [OF i(3,4,6) a(2) i(5) this] obtain cid tm1 rq1 names1 where
    q: "(case tm (containerName a) of
        None \<Rightarrow> (idNum (reqContainer s), tm(containerName a \<mapsto> idNum (reqContainer s)),
          (reqContainer s)\<lparr>idBuffer := memcpy_at (idBuffer (reqContainer s)) (unat (idNum (reqContainer s)) * CONTAINER_ID_LENGTH) (containerName a),
            idNum := idNum (reqContainer s) + 1\<rparr>)
      | Some k \<Rightarrow> (k, tm, reqContainer s)) = (cid, tm1, rq1)"
      "slots names1 rq1" "known names1 tm1" "set names1 \<subseteq> dom files"
      "\<forall>es as. list_all2 (slot names) es as \<longrightarrow>
        list_all2 (slot names1) (es @ [\<lparr>er_containerID = cid, er_offset = re_offset a, er_length = re_length a\<rparr>]) (as @ [a])"
    by blast
  define s1 where "s1 = s\<lparr>reqContainer := rq1, rsgx := (rsgx s)\<lparr>enclaveRecipeBuffer :=
    enclaveRecipeBuffer (rsgx s) @ [\<lparr>er_containerID = cid, er_offset = re_offset a, er_length = re_length a\<rparr>]\<rparr>\<rparr>"
  have f1: "flow C key css pend s1" "disk_ok files s1" "slots names1 (reqContainer s1)"
      "list_all2 (slot names1) (enclaveRecipeBuffer (rsgx s1)) (as @ [a])" "rs_masterKey (rsgx s1) = mk"
    using i q(2,5) by (simp_all add: s1_def flow_def disk_ok_def)
  have cs: "list_all2 (\<lambda>a d. chunk_in C files a = Some d) (as @ [a]) (ds' @ [d])" using i(8) a(1) by (simp add: list_all2_appendI)
  have full: "idNum rq1 = of_nat CONTAINER_CAPPING_VALUE \<longleftrightarrow> length names1 = CONTAINER_CAPPING_VALUE"
    using q(2) by (auto simp: slots_def const_defs word_unat_eq_iff)
  show ?thesis
  proof (cases "length names1 = CONTAINER_CAPPING_VALUE")
    case False
    then have "ProcRecipe_entry C can_send a (tm, s) = Inr (tm1, s1)"
      using q(1) full by (simp add: ProcRecipe_entry_def Let_def s1_def)
    moreover have "length names1 < CONTAINER_CAPPING_VALUE" using False q(2) by (simp add: slots_def)
    then have "res_inv C files key mk tm1 (ds @ [d]) s1"
      unfolding res_inv_def using f1 q(3,4) cs i(9,11) by fastforce
    ultimately show ?thesis by blast
  next
    case True
    from GetReqContainers_ok [OF f1(2,3) q(4)] obtain s2 where
      s2: "GetReqContainers s1 = Inr s2" "disk_ok files s2" "same_req s1 s2" "fetched files names1 s2"
      by blast
    have f2: "flow C key css pend s2" "list_all2 (slot names1) (enclaveRecipeBuffer (rsgx s2)) (as @ [a])" "rs_masterKey (rsgx s2) = mk"
      using f1 s2(3) by (simp_all add: flow_def same_req_def)
    from recover_all_ok [OF f2(1) s2(4) f2(2) cs snd] obtain s3 css' pend' where
      s3: "rfold (recover_and_send C can_send) (enclaveRecipeBuffer (rsgx s2)) s2 = Inr s3" "flow C key css' pend' s3"
        "concat css' @ pend' = concat css @ pend @ ds' @ [d]" "same_res s2 s3"
      by blast
    let ?s4 = "s3\<lparr>reqContainer := (reqContainer s3)\<lparr>idNum := 0\<rparr>, rsgx := (rsgx s3)\<lparr>enclaveRecipeBuffer := []\<rparr>\<rparr>"
    have "ProcRecipe_entry C can_send a (tm, s) = Inr (Map.empty, ?s4)"
      using q(1) full True s2(1) s3(1) by (simp add: ProcRecipe_entry_def Let_def s1_def)
    moreover have "flow C key css' pend' ?s4" "disk_ok files ?s4" "rs_masterKey (rsgx ?s4) = mk"
      using s3(2,4) s2(2) f2(3) by (simp_all add: flow_def disk_ok_def same_res_def)
    moreover have "slots [] (reqContainer ?s4)"
      using s3(4) s2(3) f1(3) by (simp add: slots_def same_res_def same_req_def)
    ultimately have "res_inv C files key mk Map.empty (ds @ [d]) ?s4"
      unfolding res_inv_def using s3(3) i(9,11)
      by (intro exI [of _ css'] exI [of _ pend'] exI [of _ "[]"]) (simp add: known_def const_defs)
    with \<open>ProcRecipe_entry C can_send a (tm, s) = Inr (Map.empty, ?s4)\<close> show ?thesis by blast
  qed
qed

lemma ProcRecipe_entries_ok:
  assumes "res_inv C files key mk tm ds s" and "list_all2 (\<lambda>a d. wf_entry a \<and> chunk_in C files a = Some d) as cs"
    and "\<forall>m. can_send m"
  shows "\<exists>tm' s'. rfold (ProcRecipe_entry C can_send) as (tm, s) = Inr (tm', s') \<and> res_inv C files key mk tm' (ds @ cs) s'"
  using assms(1,2)
proof (induction as arbitrary: tm s ds cs)
  case Nil
  then show ?case by simp
next
  case (Cons a as)
  then obtain d cs' where cs: "cs = d # cs'" "chunk_in C files a = Some d" "wf_entry a"
      "list_all2 (\<lambda>a d. wf_entry a \<and> chunk_in C files a = Some d) as cs'"
    by (auto simp: list_all2_Cons1)
  from ProcRecipe_entry_ok [OF Cons.prems(1) cs(2,3) assms(3)] obtain tm1 s1 where
    1: "ProcRecipe_entry C can_send a (tm, s) = Inr (tm1, s1)" "res_inv C files key mk tm1 (ds @ [d]) s1"
    by blast
  from Cons.IH [OF 1(2) cs(4)] 1(1) cs(1) show ?case by auto
qed

text \<open>A batch as it was written to the recipe file.\<close>

lemma ProcRecipeBatch_ok:
  assumes inv: "res_inv C files key mk tm ds s" and as: "list_all2 (\<lambda>a d. wf_entry a \<and> chunk_in C files a = Some d) as cs"
    and snd: "\<forall>m. can_send m"
  shows "\<exists>s'. ProcRecipeBatch C can_send (enc_batch C mk (map RecipeEntry_bytes as))
       (length (enc_batch C mk (map RecipeEntry_bytes as)) div RecipeEntry_size) s = Inr s' \<and>
     res_inv C files key mk Map.empty (ds @ cs) s'"
proof -
  let ?bs = "map RecipeEntry_bytes as"
  have C: "cfg_ok C" and k: "key_ok mk" "rs_masterKey (rsgx s) = mk"
    using inv by (auto simp: res_inv_def flow_def res_cfg_def)
  have wf: "\<forall>a \<in> set as. wf_entry a" using as by (auto simp: list_all2_conv_all_nth in_set_conv_nth)
  then have eb: "entry_bytes ?bs" and blk: "\<forall>x \<in> set ?bs. length x = RecipeEntry_size" by (auto simp: entry_bytes_def)
  note e = enc_batch_eq [OF C k(1), of ?bs]
  have len: "length (enc_batch C mk ?bs) = length as * RecipeEntry_size"
    using e(2) concat_entry_length [OF eb] by simp
  have "stream_good (cfg_evp C) (cfg_tool C) mk (concat ?bs)" using C k(1) by (simp add: stream_good_def cfg_ok_def)
  from with_key.dec_enc [OF this e(1)] have dec: "Ecall_DecryptWithKey (cfg_evp C) (cfg_tool C) (enc_batch C mk ?bs) mk = Inr (concat ?bs)"
    by blast
  let ?plain = "memcpy_at (plainRecipeBuffer (rsgx s)) 0 (concat ?bs)"
  have "read_at ?plain (i * RecipeEntry_size) RecipeEntry_size = ?bs ! i" if "i < length as" for i
    using read_at_concat [OF blk, of i] that by (simp add: memcpy_at_def)
  then have rs: "map (\<lambda>i. RecipeEntry_of_bytes (read_at ?plain (i * RecipeEntry_size) RecipeEntry_size)) [0..<length as] = as"
    using wf by (intro nth_equalityI) simp_all
  let ?s = "s\<lparr>rsgx := (rsgx s)\<lparr>plainRecipeBuffer := ?plain\<rparr>\<rparr>"
  have "res_inv C files key mk Map.empty ds ?s"
    using res_inv_empty [OF inv] by (simp add: res_inv_def flow_def disk_ok_def)
  from ProcRecipe_entries_ok [OF this as snd] obtain tm' s' where
    s': "rfold (ProcRecipe_entry C can_send) as (Map.empty, ?s) = Inr (tm', s')" "res_inv C files key mk tm' (ds @ cs) s'"
    by blast
  then show ?thesis using dec k(2) len rs res_inv_empty [OF s'(2)] by (simp add: ProcRecipeBatch_def Let_def)
qed

lemma ProcRecipeBatches_ok:
  assumes "res_inv C files key mk Map.empty ds s"
    and "list_all2 (list_all2 (\<lambda>a d. wf_entry a \<and> chunk_in C files a = Some d)) ass css" and "\<forall>m. can_send m"
  shows "\<exists>s'. rfold (\<lambda>b. ProcRecipeBatch C can_send b (length b div RecipeEntry_size))
       (map (\<lambda>as. enc_batch C mk (map RecipeEntry_bytes as)) ass) s = Inr s' \<and>
     res_inv C files key mk Map.empty (ds @ concat css) s'"
  using assms(1,2)
proof (induction ass arbitrary: s ds css)
  case Nil
  then show ?case by simp
next
  case (Cons as ass)
  then obtain cs css' where css: "css = cs # css'" "list_all2 (\<lambda>a d. wf_entry a \<and> chunk_in C files a = Some d) as cs"
      "list_all2 (list_all2 (\<lambda>a d. wf_entry a \<and> chunk_in C files a = Some d)) ass css'"
    by (auto simp: list_all2_Cons1)
  from ProcRecipeBatch_ok [OF Cons.prems(1) css(2) assms(3)] obtain s1 where
    "ProcRecipeBatch C can_send (enc_batch C mk (map RecipeEntry_bytes as))
       (length (enc_batch C mk (map RecipeEntry_bytes as)) div RecipeEntry_size) s = Inr s1"
    "res_inv C files key mk Map.empty (ds @ cs) s1"
    by blast
  with Cons.IH [OF this(2) css(3)] css(1) show ?case by simp
qed

section \<open>The tail\<close>

text \<open>All messages of a restore: the last one is final, and together they carry the chunks \<open>ds\<close>.\<close>

definition restored :: "enclave_cfg \<Rightarrow> bytes \<Rightarrow> net_msg list \<Rightarrow> bytes list \<Rightarrow> bool" where
  "restored C key ms ds \<longleftrightarrow>
     (\<exists>ms' m css cs. ms = ms' @ [m] \<and> list_all2 (msg_of C key SERVER_RESTORE_CHUNK) ms' css \<and>
        msg_of C key SERVER_RESTORE_FINAL m cs \<and> ds = concat css @ cs)"

lemma send_final_ok:
  assumes f: "list_all2 (msg_of C key SERVER_RESTORE_CHUNK) (sent s) css" and C: "res_cfg C" and k: "key_ok key" "rs_sessionKey (rsgx s) = key"
    and p: "pending (restoreChunkBuffer (rsgx s)) pend" and n: "length pend \<le> sendChunkBatchSize C" and snd: "\<forall>m. can_send m"
  shows "\<exists>s'. send_restored C can_send SERVER_RESTORE_FINAL s = Inr s' \<and> restored C key (sent s') (concat css @ pend)"
proof -
  have "key_ok (rs_sessionKey (rsgx s))" using k by simp
  from send_restored_ok [OF C this p n snd, of SERVER_RESTORE_FINAL] obtain s' m where
    "send_restored C can_send SERVER_RESTORE_FINAL s = Inr s'" "sent s' = sent s @ [m]" "msg_of C key SERVER_RESTORE_FINAL m pend"
    using k(2) by blast
  with f show ?thesis unfolding restored_def by fastforce
qed

lemma tail_chunks_ok:
  assumes "flow C key css pend s" and "fetched files names s" and "list_all2 (slot names) es as"
    and "list_all2 (\<lambda>a d. chunk_in C files a = Some d) as ds" and "\<forall>m. can_send m" and "es \<noteq> []"
  shows "\<exists>s'. tail_chunks C can_send es s = Inr s' \<and> restored C key (sent s') (concat css @ pend @ ds)"
  using assms(1-4,6)
proof (induction es arbitrary: css pend s as ds)
  case Nil
  then show ?case by simp
next
  case (Cons e es)
  from Cons.prems(3,4) obtain a as' d ds' where as: "as = a # as'" "slot names e a" "list_all2 (slot names) es as'"
      "ds = d # ds'" "chunk_in C files a = Some d" "list_all2 (\<lambda>a d. chunk_in C files a = Some d) as' ds'"
    by (auto simp: list_all2_Cons1)
  show ?case
  proof (cases "es = []")
    case True
    from recover_entry_ok [OF Cons.prems(1,2) as(2,5)] obtain s1 where
      s1: "recover_entry C e s = Inr s1" "pending (restoreChunkBuffer (rsgx s1)) (pend @ [d])" "same_res s s1" "sent s1 = sent s"
      by blast
    have "\<exists>s'. send_restored C can_send SERVER_RESTORE_FINAL s1 = Inr s' \<and> restored C key (sent s') (concat css @ pend @ [d])"
      using Cons.prems(1) s1 by (intro send_final_ok assms(5)) (auto simp: flow_def same_res_def)
    then show ?thesis using s1(1) True as by auto
  next
    case False
    from recover_and_send_ok [OF Cons.prems(1,2) as(2,5) assms(5)] obtain s1 css1 pend1 where
      s1: "recover_and_send C can_send e s = Inr s1" "flow C key css1 pend1 s1" "concat css1 @ pend1 = concat css @ pend @ [d]" "same_res s s1"
      by blast
    have "fetched files names s1" using Cons.prems(2) same_res_fetched [OF s1(4)] by simp
    from Cons.IH [OF s1(2) this as(3,6) False] obtain s' where
      r: "tail_chunks C can_send es s1 = Inr s'" "restored C key (sent s') (concat css1 @ pend1 @ ds')"
      by blast
    have "tail_chunks C can_send (e # es) s = rbind (recover_and_send C can_send e s) (tail_chunks C can_send es)"
      using False by (simp add: recover_and_send_def rbind_assoc)
    moreover have "concat css1 @ pend1 @ ds' = concat css @ pend @ ds"
      using s1(3) as(4) by (metis append.assoc append_Cons append_Nil)
    ultimately show ?thesis using s1(1) r by simp
  qed
qed

lemma ProcRecipeTailBatch_ok:
  assumes inv: "res_inv C files key mk tm ds s" and snd: "\<forall>m. can_send m"
  shows "\<exists>s'. ProcRecipeTailBatch C can_send s = Inr s' \<and> restored C key (sent s') ds"
proof -
  from inv obtain css pend names as ds' where i: "flow C key css pend s" "disk_ok files s" "slots names (reqContainer s)"
      "set names \<subseteq> dom files" "list_all2 (slot names) (enclaveRecipeBuffer (rsgx s)) as"
      "list_all2 (\<lambda>a d. chunk_in C files a = Some d) as ds'" "ds = concat css @ pend @ ds'"
    unfolding res_inv_def by blast
  show ?thesis
  proof (cases "enclaveRecipeBuffer (rsgx s) = []")
    case True
    then have "ds' = []" using i(5,6) by simp
    moreover have "\<exists>s'. send_restored C can_send SERVER_RESTORE_FINAL s = Inr s' \<and> restored C key (sent s') (concat css @ pend)"
      using i(1) by (intro send_final_ok snd) (auto simp: flow_def)
    ultimately show ?thesis using True i(7) by (simp add: ProcRecipeTailBatch_def)
  next
    case False
    from GetReqContainers_ok [OF i(2,3,4)] obtain s1 where
      s1: "GetReqContainers s = Inr s1" "same_req s s1" "fetched files names s1"
      by blast
    have f1: "flow C key css pend s1" "list_all2 (slot names) (enclaveRecipeBuffer (rsgx s1)) as" "enclaveRecipeBuffer (rsgx s1) \<noteq> []"
      using i(1,5) s1(2) False by (simp_all add: flow_def same_req_def)
    from tail_chunks_ok [OF f1(1) s1(3) f1(2) i(6) snd f1(3)] show ?thesis
      using s1(1) False i(7) by (simp add: ProcRecipeTailBatch_def)
  qed
qed

section \<open>A whole restore\<close>

text \<open>The state after the login of a client for a download.\<close>

definition restore_start :: "enclave_cfg \<Rightarrow> nat \<Rightarrow> u32 \<Rightarrow> bytes \<Rightarrow> bytes \<Rightarrow> (bytes \<rightharpoonup> bytes) \<Rightarrow> restore_state" where
  "restore_start C n cid key mk files =
     ClientVar_InitRestoreBuffer n cid (EnclaveClient_InitRestoreBuffer cid key mk) files"

lemma restore_start_inv:
  assumes "res_cfg C" and "key_ok key" and "key_ok mk" and "0 < cs" and "cs < 2 ^ 32"
    and "\<forall>b \<in> ran files. length b \<le> unat MAX_CONTAINER_SIZE"
  shows "res_inv C files key mk Map.empty [] (restore_start C cs cid key mk files)"
  unfolding res_inv_def
  using assms cache_ok_new [OF assms(4,5)]
  by (intro exI [of _ "[]"]) (simp add: restore_start_def ClientVar_InitRestoreBuffer_def EnclaveClient_InitRestoreBuffer_def
      flow_def pending_def blank_msg_def disk_ok_def slots_def known_def const_defs res_cfg_def)

lemma EnclaveRecvDecoder_Run_ok:
  assumes cfg: "res_cfg C" "key_ok key" "key_ok mk" "0 < cs" "cs < 2 ^ 32"
    and files: "\<forall>b \<in> ran files. length b \<le> unat MAX_CONTAINER_SIZE"
    and rec: "file_rep C mk (map RecipeEntry_bytes as) f"
    and as: "list_all2 (\<lambda>a d. wf_entry a \<and> chunk_in C files a = Some d) as ds"
    and snd: "\<forall>m. can_send m" and rdy: "messageType m = CLIENT_RESTORE_READY"
  shows "\<exists>s'. EnclaveRecvDecoder_Run C can_send (Some m) f (restore_start C cs cid key mk files) = Inr s' \<and>
     restored C key (sent s') ds"
proof -
  have C: "cfg_ok C" using cfg(1) by (simp add: res_cfg_def)
  from read_batches_file_rep [OF C cfg(3) rec] obtain bss where
    b: "read_batches (RecipeEntry_size * sendRecipeBatchSize C) f = map (enc_batch C mk) bss"
      "concat bss = map RecipeEntry_bytes as"
    by blast
  have "\<exists>ass. bss = map (map RecipeEntry_bytes) ass \<and> concat ass = as"
    using b(2)
  proof (induction bss arbitrary: as)
    case Nil
    then show ?case by auto
  next
    case (Cons bs bss)
    then have "map RecipeEntry_bytes as = bs @ concat bss" by simp
    then obtain as1 as2 where "as = as1 @ as2" "map RecipeEntry_bytes as1 = bs" "map RecipeEntry_bytes as2 = concat bss"
      by (metis map_eq_append_conv)
    with Cons.IH [of as2] show ?case by (metis concat.simps(2) list.simps(9))
  qed
  then obtain ass where ass: "bss = map (map RecipeEntry_bytes) ass" "concat ass = as" by blast
  have "\<exists>css. concat css = ds \<and> list_all2 (list_all2 (\<lambda>a d. wf_entry a \<and> chunk_in C files a = Some d)) ass css"
    using as ass(2)
  proof (induction ass arbitrary: as ds)
    case Nil
    then show ?case by (intro exI [of _ "[]"]) auto
  next
    case (Cons a1 ass)
    from Cons.prems obtain d1 ds2 where d: "ds = d1 @ ds2" "list_all2 (\<lambda>a d. wf_entry a \<and> chunk_in C files a = Some d) a1 d1"
        "list_all2 (\<lambda>a d. wf_entry a \<and> chunk_in C files a = Some d) (concat ass) ds2"
      by (auto simp: list_all2_append1)
    from Cons.IH [OF d(3) refl] obtain css where "concat css = ds2"
        "list_all2 (list_all2 (\<lambda>a d. wf_entry a \<and> chunk_in C files a = Some d)) ass css"
      by blast
    with d show ?case by (intro exI [of _ "d1 # css"]) simp
  qed
  then obtain css where css: "concat css = ds"
      "list_all2 (list_all2 (\<lambda>a d. wf_entry a \<and> chunk_in C files a = Some d)) ass css"
    by blast
  let ?s = "restore_start C cs cid key mk files"
  from ProcRecipeBatches_ok [OF restore_start_inv [OF cfg files, of cid] css(2) snd] obtain s1 where
    s1: "rfold (\<lambda>b. ProcRecipeBatch C can_send b (length b div RecipeEntry_size))
       (map (\<lambda>as. enc_batch C mk (map RecipeEntry_bytes as)) ass) ?s = Inr s1" "res_inv C files key mk Map.empty ds s1"
    using css(1) by auto
  from ProcRecipeTailBatch_ok [OF s1(2) snd] s1(1) b(1) ass(1) rdy show ?thesis
    by (simp add: EnclaveRecvDecoder_Run_def comp_def)
qed

end
