(* ===== verification/SealedFile.thy ===== *)
theory SealedFile
  imports Database
begin

text \<open>
  Sealed files: the OCALLs that open, write, read and close them (\<open>storeOCall.cc\<close>) and the two loops
  of \<open>commonEnclave.cc\<close> that move a buffer in pieces of \<open>SGX_PERSISTENCE_BUFFER_SIZE\<close>. There is one
  output and one input stream; the file name matters only when a stream is opened.
\<close>

section \<open>Streams\<close>

text \<open>\<open>rd\<close> is the content of the file open for reading, the position and the end-of-file flag.\<close>

record sealed_io =
  files :: "string \<rightharpoonup> bytes"
  wr :: "string option"
  rd :: "(bytes \<times> nat \<times> bool) option"

text \<open>\<open>can_create\<close> is whether the operating system lets the file be opened for writing.\<close>

definition Ocall_InitWriteSealedFile :: "(string \<Rightarrow> bool) \<Rightarrow> string \<Rightarrow> sealed_io \<Rightarrow> bool \<times> sealed_io" where
  "Ocall_InitWriteSealedFile can_create name io =
     (if wr io \<noteq> None then (False, io)
      else if \<not> can_create name then (False, io)
      else (True, io\<lparr>wr := Some name, files := (files io)(name \<mapsto> [])\<rparr>))"

definition Ocall_WriteSealedData :: "bytes \<Rightarrow> sealed_io \<Rightarrow> sealed_io" where
  "Ocall_WriteSealedData d io =
     (case wr io of
        None \<Rightarrow> io
      | Some name \<Rightarrow>
          io\<lparr>files := (files io)(name \<mapsto> (case files io name of Some b \<Rightarrow> b | None \<Rightarrow> []) @ d)\<rparr>)"

definition Ocall_CloseWriteSealedFile :: "sealed_io \<Rightarrow> sealed_io" where
  "Ocall_CloseWriteSealedFile io = io\<lparr>wr := None\<rparr>"

text \<open>
  Opening a stream that is still open fails and leaves it on its old file: the size then reads as
  zero, and the stream is cleared and rewound.
\<close>

definition Ocall_InitReadSealedFile :: "string \<Rightarrow> sealed_io \<Rightarrow> nat \<times> sealed_io" where
  "Ocall_InitReadSealedFile name io =
     (case rd io of
        Some (b, p, e) \<Rightarrow> (0, io\<lparr>rd := Some (b, 0, False)\<rparr>)
      | None \<Rightarrow>
          (case files io name of
             None \<Rightarrow> (0, io)
           | Some b \<Rightarrow> (length b, io\<lparr>rd := Some (b, 0, False)\<rparr>)))"

definition Ocall_CloseReadSealedFile :: "sealed_io \<Rightarrow> sealed_io" where
  "Ocall_CloseReadSealedFile io = io\<lparr>rd := None\<rparr>"

text \<open>Reading \<open>n\<close> bytes over the buffer \<open>old\<close>.\<close>

definition Ocall_ReadSealedData :: "nat \<Rightarrow> bytes \<Rightarrow> sealed_io \<Rightarrow> bytes \<times> sealed_io" where
  "Ocall_ReadSealedData n old io =
     (case rd io of
        None \<Rightarrow> (old, io)
      | Some (b, p, e) \<Rightarrow>
          (let (buf, rest, e') = istream_read (drop p b, e) n old
           in (buf, io\<lparr>rd := Some (b, length b - length rest, e')\<rparr>)))"

section \<open>Whole buffers\<close>

function WriteBufferToFile :: "bytes \<Rightarrow> sealed_io \<Rightarrow> sealed_io" where
  "WriteBufferToFile buf io =
     (if buf = [] then io
      else if length buf > SGX_PERSISTENCE_BUFFER_SIZE
      then WriteBufferToFile (drop SGX_PERSISTENCE_BUFFER_SIZE buf)
             (Ocall_WriteSealedData (take SGX_PERSISTENCE_BUFFER_SIZE buf) io)
      else Ocall_WriteSealedData buf io)"
  by pat_completeness auto
termination
  by (relation "measure (\<lambda>(buf, io). length buf)") (auto simp: const_defs)

declare WriteBufferToFile.simps [simp del]

function ReadFileToBuffer :: "nat \<Rightarrow> bytes \<Rightarrow> sealed_io \<Rightarrow> bytes \<times> sealed_io" where
  "ReadFileToBuffer remainSize old io =
     (if remainSize = 0 then ([], io)
      else if remainSize > SGX_PERSISTENCE_BUFFER_SIZE
      then let (b1, io1) = Ocall_ReadSealedData SGX_PERSISTENCE_BUFFER_SIZE (take SGX_PERSISTENCE_BUFFER_SIZE old) io;
               (b2, io2) = ReadFileToBuffer (remainSize - SGX_PERSISTENCE_BUFFER_SIZE)
                             (drop SGX_PERSISTENCE_BUFFER_SIZE old) io1
           in (b1 @ b2, io2)
      else Ocall_ReadSealedData remainSize old io)"
  by pat_completeness auto
termination
  by (relation "measure (\<lambda>(n, old, io). n)") (auto simp: const_defs)

declare ReadFileToBuffer.simps [simp del]

section \<open>What was written is read\<close>

text \<open>The pieces add up to the buffer.\<close>

lemma WriteBufferToFile_open:
  assumes "wr io = Some name" and "files io name = Some b"
  shows "WriteBufferToFile buf io = io\<lparr>files := (files io)(name \<mapsto> b @ buf)\<rparr>"
  using assms
proof (induction buf io arbitrary: b rule: WriteBufferToFile.induct)
  case (1 buf io)
  show ?case
  proof (cases "buf = [] \<or> \<not> SGX_PERSISTENCE_BUFFER_SIZE < length buf")
    case True
    have "io\<lparr>files := (files io)(name \<mapsto> b)\<rparr> = io"
      using "1.prems" by (cases io) (simp add: fun_upd_idem)
    with True "1.prems" show ?thesis
      by (subst WriteBufferToFile.simps) (auto simp: Ocall_WriteSealedData_def)
  next
    case False
    let ?a = "take SGX_PERSISTENCE_BUFFER_SIZE buf" and ?r = "drop SGX_PERSISTENCE_BUFFER_SIZE buf"
    have w: "Ocall_WriteSealedData ?a io = io\<lparr>files := (files io)(name \<mapsto> b @ ?a)\<rparr>"
      using "1.prems" by (simp add: Ocall_WriteSealedData_def)
    have "WriteBufferToFile buf io = WriteBufferToFile ?r (Ocall_WriteSealedData ?a io)"
      using False by (subst WriteBufferToFile.simps) simp
    also have "\<dots> = (Ocall_WriteSealedData ?a io)\<lparr>files := (files (Ocall_WriteSealedData ?a io))(name \<mapsto> (b @ ?a) @ ?r)\<rparr>"
      using False "1.prems" w by (intro "1.IH") simp_all
    also have "\<dots> = io\<lparr>files := (files io)(name \<mapsto> b @ buf)\<rparr>"
      unfolding w by (cases io) (simp add: fun_eq_iff)
    finally show ?thesis .
  qed
qed

lemma Ocall_ReadSealedData_full:
  assumes "rd io = Some (b, p, False)" and "p + n \<le> length b"
  shows "Ocall_ReadSealedData n old io = (take n (drop p b), io\<lparr>rd := Some (b, p + n, False)\<rparr>)"
  using assms by (simp add: Ocall_ReadSealedData_def istream_read_def)

lemma ReadFileToBuffer_full:
  assumes "rd io = Some (b, p, False)" and "p + n \<le> length b"
  shows "ReadFileToBuffer n old io = (take n (drop p b), io\<lparr>rd := Some (b, p + n, False)\<rparr>)"
  using assms
proof (induction n old io arbitrary: p rule: ReadFileToBuffer.induct)
  case (1 n old io)
  let ?K = SGX_PERSISTENCE_BUFFER_SIZE
  consider "n = 0" | "n \<noteq> 0" "\<not> ?K < n" | "n \<noteq> 0" "?K < n" by blast
  then show ?case
  proof cases
    case 1
    then show ?thesis using "1.prems" by (subst ReadFileToBuffer.simps) (cases io, simp)
  next
    case 2
    then show ?thesis
      using "1.prems" by (subst ReadFileToBuffer.simps) (simp add: Ocall_ReadSealedData_full)
  next
    case 3
    let ?io1 = "io\<lparr>rd := Some (b, p + ?K, False)\<rparr>"
    have r1: "Ocall_ReadSealedData ?K (take ?K old) io = (take ?K (drop p b), ?io1)"
      using 3 "1.prems" by (intro Ocall_ReadSealedData_full) simp_all
    have r2: "ReadFileToBuffer (n - ?K) (drop ?K old) ?io1 =
        (take (n - ?K) (drop (p + ?K) b), ?io1\<lparr>rd := Some (b, p + ?K + (n - ?K), False)\<rparr>)"
      using 3 "1.prems" by (intro "1.IH" [OF 3 r1 [symmetric]]) simp_all
    have "take ?K (drop p b) @ take (n - ?K) (drop (p + ?K) b) = take n (drop p b)"
      using 3 by (metis add.commute drop_drop le_add_diff_inverse less_imp_le take_add)
    with 3 r1 r2 show ?thesis by (subst ReadFileToBuffer.simps) simp
  qed
qed

lemma ReadFileToBuffer_rd: "(snd (ReadFileToBuffer n old io))\<lparr>rd := x\<rparr> = io\<lparr>rd := x\<rparr>"
proof (induction n old io rule: ReadFileToBuffer.induct)
  case (1 n old io)
  have o: "(snd (Ocall_ReadSealedData n old io))\<lparr>rd := x\<rparr> = io\<lparr>rd := x\<rparr>" for n old io
    by (simp add: Ocall_ReadSealedData_def Let_def case_prod_beta split: option.splits)
  show ?case
  proof (cases "SGX_PERSISTENCE_BUFFER_SIZE < n")
    case True
    then have "n \<noteq> 0" by simp
    note ih = "1.IH" [OF this True refl, of _ "snd (Ocall_ReadSealedData SGX_PERSISTENCE_BUFFER_SIZE (take SGX_PERSISTENCE_BUFFER_SIZE old) io)", OF prod.collapse]
    with True o show ?thesis by (subst ReadFileToBuffer.simps) (simp add: case_prod_beta)
  next
    case False
    with o show ?thesis by (subst ReadFileToBuffer.simps) simp
  qed
qed

text \<open>
  Writing a file from the start and reading it: the interface the indexes persist themselves through.
\<close>

definition seal_write :: "(string \<Rightarrow> bool) \<Rightarrow> string \<Rightarrow> bytes list \<Rightarrow> sealed_io \<Rightarrow> sealed_io option" where
  "seal_write can_create name bufs io =
     (let (ok, io1) = Ocall_InitWriteSealedFile can_create name io in
      if \<not> ok then None
      else Some (Ocall_CloseWriteSealedFile (foldl (\<lambda>io b. WriteBufferToFile b io) io1 bufs)))"

lemma WriteBufferToFile_all:
  assumes "wr io = Some name" and "files io name = Some b"
  shows "foldl (\<lambda>io b. WriteBufferToFile b io) io bufs = io\<lparr>files := (files io)(name \<mapsto> b @ concat bufs)\<rparr>"
  using assms
proof (induction bufs arbitrary: io b)
  case Nil
  then have "io\<lparr>files := (files io)(name \<mapsto> b)\<rparr> = io" by (cases io) (simp add: fun_upd_idem)
  then show ?case by (simp add: fun_upd_def)
next
  case (Cons x bufs)
  let ?io1 = "io\<lparr>files := (files io)(name \<mapsto> b @ x)\<rparr>"
  have "foldl (\<lambda>io b. WriteBufferToFile b io) ?io1 bufs = ?io1\<lparr>files := (files ?io1)(name \<mapsto> (b @ x) @ concat bufs)\<rparr>"
    using Cons.prems by (intro Cons.IH) simp_all
  also have "\<dots> = io\<lparr>files := (files io)(name \<mapsto> b @ concat (x # bufs))\<rparr>"
    by (cases io) (simp add: fun_eq_iff)
  finally show ?case by (simp only: foldl_Cons WriteBufferToFile_open [OF Cons.prems])
qed

lemma seal_write_files:
  assumes "can_create name" and "wr io = None"
  shows "seal_write can_create name bufs io = Some (io\<lparr>files := (files io)(name \<mapsto> concat bufs)\<rparr>)"
proof -
  let ?io1 = "io\<lparr>wr := Some name, files := (files io)(name \<mapsto> [])\<rparr>"
  have "foldl (\<lambda>io b. WriteBufferToFile b io) ?io1 bufs = ?io1\<lparr>files := (files ?io1)(name \<mapsto> [] @ concat bufs)\<rparr>"
    by (rule WriteBufferToFile_all) simp_all
  with assms show ?thesis
    by (cases io) (simp add: seal_write_def Ocall_InitWriteSealedFile_def Ocall_CloseWriteSealedFile_def)
qed

text \<open>A read past the end of the file puts the rest of the file at the start of the buffer.\<close>

lemma ReadFileToBuffer_rest:
  assumes "rd io = Some (b, p, False)" and "p \<le> length b" and "length b \<le> p + n"
  shows "take (length b - p) (fst (ReadFileToBuffer n old io)) = drop p b"
  using assms
proof (induction n old io arbitrary: p rule: ReadFileToBuffer.induct)
  case (1 n old io)
  let ?K = SGX_PERSISTENCE_BUFFER_SIZE
  consider "n = 0" | "n \<noteq> 0" "\<not> ?K < n" | "n \<noteq> 0" "?K < n" "p + ?K \<le> length b" | "n \<noteq> 0" "?K < n" "length b < p + ?K"
    by fastforce
  then show ?case
  proof cases
    case 1
    then show ?thesis using "1.prems" by simp
  next
    case 2
    then show ?thesis using "1.prems"
      by (subst ReadFileToBuffer.simps) (simp add: Ocall_ReadSealedData_def istream_read_def)
  next
    case 3
    let ?io1 = "io\<lparr>rd := Some (b, p + ?K, False)\<rparr>"
    have r1: "Ocall_ReadSealedData ?K (take ?K old) io = (take ?K (drop p b), ?io1)"
      using 3 "1.prems" by (intro Ocall_ReadSealedData_full) simp_all
    have r2: "take (length b - (p + ?K)) (fst (ReadFileToBuffer (n - ?K) (drop ?K old) ?io1)) = drop (p + ?K) b"
      using 3 "1.prems" by (intro "1.IH" [OF 3(1,2) r1 [symmetric]]) simp_all
    have "take (length b - p) (take ?K (drop p b) @ fst (ReadFileToBuffer (n - ?K) (drop ?K old) ?io1)) =
        take ?K (drop p b) @ drop (p + ?K) b"
      using 3(3) r2 by simp
    also have "\<dots> = drop p b" by (metis add.commute append_take_drop_id drop_drop)
    finally show ?thesis using 3 r1 by (subst ReadFileToBuffer.simps) (simp add: case_prod_beta)
  next
    case 4
    then show ?thesis using "1.prems"
      by (subst ReadFileToBuffer.simps) (simp add: Ocall_ReadSealedData_def istream_read_def case_prod_beta)
  qed
qed

section \<open>The contract of a sealed index\<close>

text \<open>
  An index object that its destructor seals and its constructor reads. \<open>names\<close> are the files it uses; \<open>ok\<close>
  says when the object can be sealed over the files that are there, and \<open>reloaded\<close> is what comes back: sealing
  touches no other file, and whoever finds the sealed files unchanged loads that object.
\<close>

locale sealed_index =
  fixes names :: "string set" and ok :: "'x \<Rightarrow> (string \<rightharpoonup> bytes) \<Rightarrow> bool"
    and persist :: "'x \<Rightarrow> sealed_io \<Rightarrow> sealed_io res" and load :: "sealed_io \<Rightarrow> ('x \<times> sealed_io) res" and reloaded :: "'x \<Rightarrow> 'x"
  assumes ok_cong: "ok x f \<Longrightarrow> (\<forall>n \<in> names. f' n = f n) \<Longrightarrow> ok x f'"
    and sealed: "ok x (files io) \<Longrightarrow> wr io = None \<Longrightarrow>
      \<exists>f. persist x io = Inr (io\<lparr>files := f\<rparr>) \<and> (\<forall>n. n \<notin> names \<longrightarrow> f n = files io n) \<and>
        (\<forall>io2. rd io2 = None \<longrightarrow> (\<forall>n \<in> names. files io2 n = f n) \<longrightarrow> load io2 = Inr (reloaded x, io2))"
begin

lemma reload: "ok x (files io) \<Longrightarrow> wr io = None \<Longrightarrow> rd io = None \<Longrightarrow> \<exists>io'. persist x io = Inr io' \<and> load io' = Inr (reloaded x, io')"
  using sealed [of x io] by fastforce

text \<open>The object as one of several kinds that share a set of files.\<close>

lemma sealed_as:
  assumes "ok x (files io)" and "wr io = None" and "names \<subseteq> M"
  shows "\<exists>f. persist x io = Inr (io\<lparr>files := f\<rparr>) \<and> (\<forall>n. n \<notin> M \<longrightarrow> f n = files io n) \<and>
     (\<forall>io2. rd io2 = None \<longrightarrow> (\<forall>n \<in> M. files io2 n = f n) \<longrightarrow>
        rbind (load io2) (\<lambda>(y, io'). Inr (K y, io')) = Inr (K (reloaded x), io2))"
proof -
  from sealed [OF assms(1,2)] obtain f where
    f: "persist x io = Inr (io\<lparr>files := f\<rparr>)" "\<forall>n. n \<notin> names \<longrightarrow> f n = files io n"
      "\<forall>io2. rd io2 = None \<longrightarrow> (\<forall>n \<in> names. files io2 n = f n) \<longrightarrow> load io2 = Inr (reloaded x, io2)"
    by blast
  have "rbind (load io2) (\<lambda>(y, io'). Inr (K y, io')) = Inr (K (reloaded x), io2)"
    if "rd io2 = None" "\<forall>n \<in> M. files io2 n = f n" for io2
  proof -
    have "load io2 = Inr (reloaded x, io2)" using f(3) that assms(3) by blast
    then show ?thesis by simp
  qed
  with f(1,2) assms(3) show ?thesis by (intro exI [of _ f]) blast
qed

end

end
