(* ===== verification/InEnclave.thy ===== *)
theory InEnclave
  imports Upload SealedFile
begin

text \<open>
  \<open>EcallInEnclaveIndex\<close> (\<open>ecallIndex/ecallInEnclave.cc\<close>): the whole index is a hash map inside the
  enclave, sealed to a file when the enclave goes down and read back when it comes up.
\<close>

section \<open>Processing chunks\<close>

type_synonym in_index = "bytes \<rightharpoonup> bytes"
type_synonym in_state = "in_index \<times> up_state"

definition InEnclave_dedup :: "enclave_cfg \<Rightarrow> bytes \<Rightarrow> bytes \<Rightarrow> in_state \<Rightarrow> (bytes \<times> in_state) res" where
  "InEnclave_dedup C d h st =
     (let (m, s) = st in
      case m h of
        Some addr \<Rightarrow> Inr (addr, m, s)
      | None \<Rightarrow>
          rbind (ProcessUniqueChunk C d (count_unique (length d) s)) (\<lambda>(a, s1).
            Inr (RecipeEntry_bytes a, m(h \<mapsto> RecipeEntry_bytes a), s1)))"

definition InEnclave_chunk :: "enclave_cfg \<Rightarrow> in_state \<times> nat \<Rightarrow> (in_state \<times> nat) res" where
  "InEnclave_chunk C x =
     (let (st, currentOffset) = x in
      rbind (read_chunk (recvBuffer (sgx (snd st))) currentOffset) (\<lambda>(d, off').
      rbind (Ecall_GenerateHash (cfg_evp C) (cfg_tool C) d) (\<lambda>h.
      rbind (InEnclave_dedup C d (take CHUNK_HASH_SIZE h) st) (\<lambda>(ab, m, s1).
      rbind (UpdateFileRecipe C ab s1) (\<lambda>s2.
        Inr ((m, count_logical (length d) s2), off'))))))"

definition InEnclave_ProcessOneBatch :: "enclave_cfg \<Rightarrow> net_msg \<Rightarrow> in_state \<Rightarrow> in_state res" where
  "InEnclave_ProcessOneBatch C msg st =
     (let (m, s) = st in
      rbind (recv_batch C msg s) (\<lambda>s1.
      rbind (rfold (\<lambda>i. InEnclave_chunk C) [0..<unat (currentItemNum msg)] ((m, s1), 0)) (\<lambda>(st', off). Inr st')))"

definition InEnclave_ProcessTailBatch :: "enclave_cfg \<Rightarrow> in_state \<Rightarrow> in_state res" where
  "InEnclave_ProcessTailBatch C st =
     (let (m, s) = st in rbind (tail_recipe C s) (\<lambda>s'. Inr (m, tail_container s')))"

section \<open>Sealing the index\<close>

definition SEALED_BASELINE_INDEX_PATH :: string where
  "SEALED_BASELINE_INDEX_PATH = ''baseline-seal-index''"

definition index_item_size :: nat where
  "index_item_size = CHUNK_HASH_SIZE + RecipeEntry_size"

text \<open>
  \<open>items\<close> is the iteration order of the map. The buffer holds \<open>sendChunkBatchSize\<close> items and is
  written whenever it is full.
\<close>

definition InEnclave_persist_items :: "nat \<Rightarrow> (bytes \<times> bytes) list \<Rightarrow> sealed_io \<Rightarrow> sealed_io" where
  "InEnclave_persist_items maxBufferSize items io =
     (let (buf, io1) =
        foldl (\<lambda>(buf, io) (k, v).
          let buf' = buf @ take CHUNK_HASH_SIZE k @ take RecipeEntry_size v in
          if length buf' = maxBufferSize then ([], WriteBufferToFile buf' io) else (buf', io)) ([], io) items
      in if buf \<noteq> [] then WriteBufferToFile buf io1 else io1)"

definition InEnclave_PersistDedupIndex ::
  "(string \<Rightarrow> bool) \<Rightarrow> nat \<Rightarrow> (bytes \<times> bytes) list \<Rightarrow> sealed_io \<Rightarrow> sealed_io res" where
  "InEnclave_PersistDedupIndex can_create batchSize items io =
     (let (ok, io1) = Ocall_InitWriteSealedFile can_create SEALED_BASELINE_INDEX_PATH io in
      if \<not> ok then Inl (ProcExit ''EcallInEnclaveIndex: cannot init the index sealed file.'')
      else
        let io2 = WriteBufferToFile (u64_bytes (of_nat (length items))) io1
        in Inr (Ocall_CloseWriteSealedFile (InEnclave_persist_items (batchSize * index_item_size) items io2)))"

text \<open>The items in a buffer, inserted when the key is new; the number counts the insertions.\<close>

primrec load_items :: "nat \<Rightarrow> bytes \<Rightarrow> in_index \<times> nat \<Rightarrow> in_index \<times> nat" where
  "load_items 0 buf mc = mc"
| "load_items (Suc n) buf mc =
     (let (m, c) = mc; k = take CHUNK_HASH_SIZE buf; v = take RecipeEntry_size (drop CHUNK_HASH_SIZE buf) in
      load_items n (drop index_item_size buf) (case m k of None \<Rightarrow> (m(k \<mapsto> v), Suc c) | Some _ \<Rightarrow> (m, c)))"

primrec load_batches ::
  "nat \<Rightarrow> nat \<Rightarrow> bytes \<times> (in_index \<times> nat) \<times> sealed_io \<Rightarrow> bytes \<times> (in_index \<times> nat) \<times> sealed_io" where
  "load_batches batchSize 0 x = x"
| "load_batches batchSize (Suc n) x =
     (let (buf, mc, io) = x;
          (buf', io') = ReadFileToBuffer (batchSize * index_item_size) buf io
      in load_batches batchSize n (buf', load_items batchSize buf' mc, io'))"

text \<open>\<open>junk\<close> is the initial content of the buffer, from \<open>malloc\<close>.\<close>

definition InEnclave_LoadDedupIndex :: "nat \<Rightarrow> bytes \<Rightarrow> sealed_io \<Rightarrow> (bool \<times> in_index \<times> sealed_io) res" where
  "InEnclave_LoadDedupIndex batchSize junk io =
     (let (sealedDataSize, io1) = Ocall_InitReadSealedFile SEALED_BASELINE_INDEX_PATH io in
      if sealedDataSize = 0 then Inr (False, Map.empty, io1)
      else
        let (nb, io2) = ReadFileToBuffer 8 [] io1;
            itemNum = bytes_u64 nb;
            (buf, (m, c), io3) = load_batches batchSize (unat itemNum div batchSize)
              (take (batchSize * index_item_size) junk, (Map.empty, 0), io2);
            remain = itemNum - of_nat c;
            (m', c', io4) =
              (if remain \<noteq> 0 then
                 let (buf', io') = ReadFileToBuffer (batchSize * index_item_size) buf io3;
                     (m', c') = load_items (unat remain) buf' (m, c)
                 in (m', c', io')
               else (m, c, io3));
            io5 = Ocall_CloseReadSealedFile io4
        in if of_nat c' \<noteq> itemNum then Inl (ProcExit ''EcallInEnclaveIndex: load the index error.'')
           else Inr (True, m', io5))"

definition EcallInEnclaveIndex_init :: "nat \<Rightarrow> bytes \<Rightarrow> sealed_io \<Rightarrow> (in_index \<times> sealed_io) res" where
  "EcallInEnclaveIndex_init batchSize junk io =
     rbind (InEnclave_LoadDedupIndex batchSize junk io) (\<lambda>(loaded, m, io'). Inr (m, io'))"

section \<open>Correctness of a batch\<close>

definition in_lookup :: "in_index \<Rightarrow> bytes \<rightharpoonup> recipe_entry" where
  "in_lookup m fp = map_option RecipeEntry_of_bytes (m fp)"

definition in_inv :: "enclave_cfg \<Rightarrow> nat \<Rightarrow> in_state \<Rightarrow> bool" where
  "in_inv C n st \<longleftrightarrow> store_inv C n (snd st) \<and> (\<forall>v \<in> ran (fst st). length v = RecipeEntry_size) \<and>
     containers.sound C (chunk_fp C) (snd st) (in_lookup (fst st))"

lemma in_inv_cfg: "in_inv C n st \<Longrightarrow> cfg_ok C"
  by (simp add: in_inv_def store_inv_def)

lemma in_inv_cong: "same_containers s s' \<Longrightarrow> in_inv C n (m, s') = in_inv C n (m, s)"
  by (simp add: in_inv_def same_containers_views containers.sound_def)

lemma InEnclave_dedup_ok:
  assumes inv: "in_inv C (Suc n) (m, s)" and d: "chunk_ok C d"
  shows "\<exists>a m' s'. InEnclave_dedup C d (chunk_fp C d) (m, s) = Inr (RecipeEntry_bytes a, m', s') \<and>
     in_inv C n (m', s') \<and> extends s s' \<and> leads_to C s' [a] [d] \<and> keeps s s'"
proof (cases "m (chunk_fp C d)")
  case None
  let ?s1 = "count_unique (length d) s"
  have sc: "same_containers s ?s1" and k1: "keeps s ?s1"
    by (simp_all add: same_containers_def count_unique_def keeps_def)
  have "store_inv C (Suc n) ?s1" using inv same_containers_views(3) [OF sc] by (simp add: in_inv_def)
  from ProcessUniqueChunk_ok [OF this d] obtain a s2 where
    s2: "ProcessUniqueChunk C d ?s1 = Inr (a, s2)" "store_inv C n s2" "extends ?s1 s2"
      "resolve C s2 a = Some d" "wf_entry a" "same_rest ?s1 s2"
    by blast
  let ?m = "m(chunk_fp C d \<mapsto> RecipeEntry_bytes a)"
  have ext: "extends s s2" using extends_trans [OF same_containers_views(4) [OF sc] s2(3)] .
  have lk: "in_lookup ?m = (in_lookup m)(chunk_fp C d \<mapsto> a)"
    using s2(5) by (auto simp: in_lookup_def)
  have "containers.sound C (chunk_fp C) s2 (in_lookup ?m)"
    unfolding lk using inv s2(4)
    by (intro containers.sound_upd sound_extends [OF _ ext]) (simp_all add: in_inv_def)
  then have "in_inv C n (?m, s2)"
    using s2 inv by (auto simp: in_inv_def ran_def split: if_splits)
  moreover have "InEnclave_dedup C d (chunk_fp C d) (m, s) = Inr (RecipeEntry_bytes a, ?m, s2)"
    using None s2(1) by (simp add: InEnclave_dedup_def)
  moreover have "leads_to C s2 [a] [d]" using s2(4,5) by (simp add: leads_to_def)
  ultimately show ?thesis using ext keeps_trans [OF k1 same_rest_keeps [OF s2(6)]] by blast
next
  case (Some v)
  let ?a = "RecipeEntry_of_bytes v"
  have v: "length v = RecipeEntry_size" using inv Some by (auto simp: in_inv_def ran_def)
  have a: "RecipeEntry_bytes ?a = v" using RecipeEntry_bytes_of_bytes [OF v] .
  have "in_inv C n (m, s)" using inv fresh_ids_Suc(2) by (auto simp: in_inv_def store_inv_def)
  moreover have "leads_to C s [?a] [d]"
    using inv Some v by (auto simp: leads_to_def in_inv_def containers.sound_def in_lookup_def const_defs)
  ultimately show ?thesis
    using Some a by (intro exI [of _ ?a] exI [of _ m] exI [of _ s]) (simp add: InEnclave_dedup_def keeps_def)
qed

definition in_loop :: "enclave_cfg \<Rightarrow> recipe_id \<Rightarrow> nat \<Rightarrow> in_state \<Rightarrow> recipe_entry list \<Rightarrow> bytes list \<Rightarrow> bool" where
  "in_loop C h0 n st as ds \<longleftrightarrow> in_inv C n st \<and> recipe_holds C h0 (snd st) as \<and> leads_to C (snd st) as ds"

lemma InEnclave_chunk_ok:
  assumes st: "in_loop C h0 (Suc n) (m, s) as ds" and b: "recvBuffer (sgx s) = pre @ encode_chunk d @ post"
    and d: "chunk_ok C d"
  shows "\<exists>m' s' a. InEnclave_chunk C ((m, s), length pre) = Inr ((m', s'), length pre + length (encode_chunk d)) \<and>
     in_loop C h0 n (m', s') (as @ [a]) (ds @ [d]) \<and> recvBuffer (sgx s') = recvBuffer (sgx s) \<and>
     sessionKey (sgx s') = sessionKey (sgx s) \<and> extends s s'"
proof -
  from st have inv: "in_inv C (Suc n) (m, s)" and rc: "recipe_of C s h0 (map RecipeEntry_bytes as)" and ld: "leads_to C s as ds"
    by (auto simp: in_loop_def recipe_holds_def)
  note C = in_inv_cfg [OF inv]
  have "length d < 2 ^ 32" using d by (simp add: chunk_ok_def const_defs)
  note rd = read_chunk_encoded [OF this, of pre post, folded b]
  from InEnclave_dedup_ok [OF inv d] obtain a m1 s1 where
    s1: "InEnclave_dedup C d (chunk_fp C d) (m, s) = Inr (RecipeEntry_bytes a, m1, s1)" "in_inv C n (m1, s1)"
      "extends s s1" "leads_to C s1 [a] [d]" "keeps s s1"
    by blast
  have wf: "wf_entry a" using s1(4) by (simp add: leads_to_def)
  from UpdateFileRecipe_ok [OF C recipe_of_keeps [OF s1(5) rc] length_RecipeEntry_bytes [OF wf]] obtain s2 where
    s2: "UpdateFileRecipe C (RecipeEntry_bytes a) s1 = Inr s2" "same_store s1 s2"
      "recipe_of C s2 h0 (map RecipeEntry_bytes as @ [RecipeEntry_bytes a])"
    by blast
  let ?s3 = "count_logical (length d) s2"
  have sc: "same_containers s1 ?s3"
    using s2(2) by (simp add: same_containers_def same_store_def count_logical_def)
  have "in_inv C n (m1, ?s3)" using s1(2) in_inv_cong [OF sc] by simp
  moreover have "recipe_holds C h0 ?s3 (as @ [a])"
    using s2(3) by (auto simp: recipe_holds_def recipe_of_def recipe_rep_def count_logical_def)
  moreover have "leads_to C ?s3 (as @ [a]) (ds @ [d])"
    using leads_to_append [OF leads_to_extends [OF ld s1(3)] s1(4)] leads_to_resolve_eq [OF same_containers_views(2) [OF sc]]
    by simp
  moreover have "InEnclave_chunk C ((m, s), length pre) = Inr ((m1, ?s3), length pre + length (encode_chunk d))"
    using rd chunk_fp_eq [OF C, of d] s1(1) s2(1) by (simp add: InEnclave_chunk_def)
  moreover have "recvBuffer (sgx ?s3) = recvBuffer (sgx s)" "sessionKey (sgx ?s3) = sessionKey (sgx s)"
    using s1(5) s2(2) by (simp_all add: keeps_def same_store_def count_logical_def)
  moreover have "extends s ?s3" by (rule extends_trans [OF s1(3) same_containers_views(4) [OF sc]])
  ultimately show ?thesis unfolding in_loop_def snd_conv by blast
qed

lemma InEnclave_ProcessOneBatch_ok:
  assumes inv: "in_inv C (length cs + n) (m, s)" and rc: "recipe_holds C h0 s as" and ld: "leads_to C s as ds"
    and msg: "batch_of C s msg cs" and cs: "\<forall>d \<in> set cs. chunk_ok C d"
  shows "\<exists>m' s' bs. InEnclave_ProcessOneBatch C msg (m, s) = Inr (m', s') \<and> in_inv C n (m', s') \<and>
     recipe_holds C h0 s' (as @ bs) \<and> leads_to C s' (as @ bs) (ds @ cs) \<and> sessionKey (sgx s') = sessionKey (sgx s) \<and> extends s s'"
proof -
  note C = in_inv_cfg [OF inv]
  let ?s1 = "s\<lparr>sgx := (sgx s)\<lparr>recvBuffer := memcpy_at (recvBuffer (sgx s)) 0 (encode_chunks cs)\<rparr>\<rparr>"
  let ?P = "\<lambda>n st as ds. in_loop C h0 n st as ds \<and> sessionKey (sgx (snd st)) = sessionKey (sgx s) \<and> extends s (snd st)"
  have rb: "recv_batch C msg s = Inr ?s1" and num: "unat (currentItemNum msg) = length cs"
    using msg recv_batch_ok [OF C] by (simp_all add: batch_of_def carries_def)
  have sc: "same_containers s ?s1" by (simp add: same_containers_def)
  have buf: "recvBuffer (sgx (snd (m, ?s1))) = [] @ encode_chunks cs @ drop (length (encode_chunks cs)) (recvBuffer (sgx s))"
    by (simp add: memcpy_at_def)
  have P: "?P (length cs + n) (m, ?s1) as ds"
    using inv rc ld in_inv_cong [OF sc] leads_to_resolve_eq [OF same_containers_views(2) [OF sc]] same_containers_views(4) [OF sc]
    by (simp add: in_loop_def recipe_holds_def recipe_of_def recipe_rep_def)
  have "\<exists>st' bs off. rfold (\<lambda>i. InEnclave_chunk C) [0..<0 + length cs] ((m, ?s1), length ([] :: bytes)) = Inr (st', off) \<and>
      ?P n st' (as @ bs) (ds @ cs) \<and> recvBuffer (sgx (snd st')) = recvBuffer (sgx (snd (m, ?s1)))"
  proof (rule chunk_loop [of ?P "\<lambda>st. recvBuffer (sgx (snd st))" "chunk_ok C", OF _ P buf cs])
    fix n st as ds pre d post
    assume a: "?P (Suc n) st as ds" "recvBuffer (sgx (snd st)) = pre @ encode_chunk d @ post" "chunk_ok C d"
    obtain m0 s0 where st: "st = (m0, s0)" by (cases st)
    from InEnclave_chunk_ok [of C h0 n m0 s0 as ds pre d post] a st
    show "\<exists>st' a. InEnclave_chunk C (st, length pre) = Inr (st', length pre + length (encode_chunk d)) \<and>
        ?P n st' (as @ [a]) (ds @ [d]) \<and> recvBuffer (sgx (snd st')) = recvBuffer (sgx (snd st))"
      using extends_trans [of s s0] by fastforce
  qed
  then obtain m' s' bs off where "rfold (\<lambda>i. InEnclave_chunk C) [0..<length cs] ((m, ?s1), 0) = Inr ((m', s'), off)"
      "?P n (m', s') (as @ bs) (ds @ cs)"
    by auto
  then show ?thesis
    by (intro exI [of _ m'] exI [of _ s'] exI [of _ bs]) (simp add: InEnclave_ProcessOneBatch_def rb num in_loop_def)
qed

interpretation in_enclave: dedup_index "in_inv C" "\<lambda>st. recipe_holds C h0 (snd st)" "\<lambda>st. leads_to C (snd st)"
  "\<lambda>st. batch_of C (snd st)" "chunk_ok C" "InEnclave_ProcessOneBatch C" for C h0
proof unfold_locales
  fix cs n st as ds msg
  assume a: "in_inv C (length cs + n) st" "recipe_holds C h0 (snd st) as" "leads_to C (snd st) as ds"
    "batch_of C (snd st) msg cs" "\<forall>d \<in> set cs. chunk_ok C d"
  obtain m s where st: "st = (m, s)" by (cases st)
  from InEnclave_ProcessOneBatch_ok [of C cs n m s h0 as ds msg] a st
  show "\<exists>st' bs. InEnclave_ProcessOneBatch C msg st = Inr st' \<and> in_inv C n st' \<and> recipe_holds C h0 (snd st') (as @ bs) \<and>
      leads_to C (snd st') (as @ bs) (ds @ cs) \<and> (\<forall>msg cs. batch_of C (snd st') msg cs = batch_of C (snd st) msg cs) \<and>
      (\<forall>as ds. leads_to C (snd st) as ds \<longrightarrow> leads_to C (snd st') as ds)"
    using leads_to_extends by (fastforce simp: batch_of_def)
qed

section \<open>A sealed index is read back\<close>

definition items_ok :: "(bytes \<times> bytes) list \<Rightarrow> bool" where
  "items_ok items \<longleftrightarrow> distinct (map fst items) \<and>
     (\<forall>(k, v) \<in> set items. length k = CHUNK_HASH_SIZE \<and> length v = RecipeEntry_size)"

definition flat_items :: "(bytes \<times> bytes) list \<Rightarrow> bytes" where
  "flat_items items = concat (map (\<lambda>(k, v). k @ v) items)"

lemma flat_items_simps [simp]:
  "flat_items [] = []" "flat_items (kv # items) = fst kv @ snd kv @ flat_items items"
  "flat_items (xs @ ys) = flat_items xs @ flat_items ys"
  by (simp_all add: flat_items_def case_prod_beta)

lemma items_ok_Cons:
  "items_ok ((k, v) # items) \<longleftrightarrow> length k = CHUNK_HASH_SIZE \<and> length v = RecipeEntry_size \<and>
     k \<notin> fst ` set items \<and> items_ok items"
  by (auto simp: items_ok_def)

lemma items_ok_append:
  "items_ok (xs @ ys) \<Longrightarrow> items_ok xs \<and> items_ok ys \<and> fst ` set xs \<inter> fst ` set ys = {}"
  by (auto simp: items_ok_def)

lemma length_flat_items: "items_ok items \<Longrightarrow> length (flat_items items) = length items * index_item_size"
  by (induction items) (auto simp: items_ok_Cons index_item_size_def)

text \<open>However the buffer is cut, the file gets the items in order.\<close>

lemma persist_fold:
  assumes "wr io = Some name" and "files io name = Some b" and "items_ok items"
  shows "\<exists>buf w. foldl (\<lambda>(buf, io) (k, v).
        let buf' = buf @ take CHUNK_HASH_SIZE k @ take RecipeEntry_size v in
        if length buf' = maxBufferSize then ([], WriteBufferToFile buf' io) else (buf', io)) (buf0, io) items =
      (buf, io\<lparr>files := (files io)(name \<mapsto> w)\<rparr>) \<and> w @ buf = b @ buf0 @ flat_items items"
  using assms
proof (induction items arbitrary: io b buf0)
  case Nil
  then have "io\<lparr>files := (files io)(name \<mapsto> b)\<rparr> = io" by (cases io) (simp add: fun_upd_idem)
  then show ?case by (intro exI [of _ buf0] exI [of _ b]) (simp add: fun_upd_def)
next
  case (Cons kv items)
  obtain k v where kv: "kv = (k, v)" by (cases kv)
  have ok: "items_ok items" "take CHUNK_HASH_SIZE k = k" "take RecipeEntry_size v = v"
    using Cons.prems(3) kv by (simp_all add: items_ok_Cons)
  let ?b = "buf0 @ k @ v"
  show ?case
  proof (cases "length ?b = maxBufferSize")
    case True
    let ?io1 = "io\<lparr>files := (files io)(name \<mapsto> b @ ?b)\<rparr>"
    have w: "WriteBufferToFile ?b io = ?io1" by (rule WriteBufferToFile_open [OF Cons.prems(1,2)])
    have "wr ?io1 = Some name" "files ?io1 name = Some (b @ ?b)" using Cons.prems(1) by simp_all
    from Cons.IH [OF this ok(1), of "[]"] obtain buf w2 where
      r: "foldl (\<lambda>(buf, io) (k, v).
        let buf' = buf @ take CHUNK_HASH_SIZE k @ take RecipeEntry_size v in
        if length buf' = maxBufferSize then ([], WriteBufferToFile buf' io) else (buf', io)) ([], ?io1) items =
      (buf, ?io1\<lparr>files := (files ?io1)(name \<mapsto> w2)\<rparr>)" "w2 @ buf = (b @ ?b) @ [] @ flat_items items"
      by blast
    have "?io1\<lparr>files := (files ?io1)(name \<mapsto> w2)\<rparr> = io\<lparr>files := (files io)(name \<mapsto> w2)\<rparr>"
      by (cases io) (simp add: fun_eq_iff)
    with r w True ok show ?thesis
      by (intro exI [of _ buf] exI [of _ w2]) (simp only: kv foldl_Cons prod.case Let_def if_True fst_conv snd_conv
          append_assoc append_Nil flat_items_simps simp_thms)
  next
    case False
    from Cons.IH [OF Cons.prems(1,2) ok(1), of ?b] False ok show ?thesis by (simp add: kv Let_def)
  qed
qed

lemma InEnclave_persist_file:
  assumes "can_create SEALED_BASELINE_INDEX_PATH" and "wr io = None" and "items_ok items"
  shows "InEnclave_PersistDedupIndex can_create batchSize items io =
    Inr (io\<lparr>files := (files io)(SEALED_BASELINE_INDEX_PATH \<mapsto> u64_bytes (of_nat (length items)) @ flat_items items)\<rparr>)"
proof -
  let ?n = SEALED_BASELINE_INDEX_PATH and ?u = "u64_bytes (of_nat (length items))"
  let ?io1 = "io\<lparr>wr := Some ?n, files := (files io)(?n \<mapsto> [])\<rparr>"
  let ?io2 = "?io1\<lparr>files := (files ?io1)(?n \<mapsto> [] @ ?u)\<rparr>"
  have w2: "WriteBufferToFile ?u ?io1 = ?io2" by (rule WriteBufferToFile_open) simp_all
  have o2: "wr ?io2 = Some ?n" "files ?io2 ?n = Some ?u" by simp_all
  from persist_fold [OF o2 assms(3), of "batchSize * index_item_size" "[]"] obtain buf w where
    r: "foldl (\<lambda>(buf, io) (k, v).
        let buf' = buf @ take CHUNK_HASH_SIZE k @ take RecipeEntry_size v in
        if length buf' = batchSize * index_item_size then ([], WriteBufferToFile buf' io) else (buf', io)) ([], ?io2) items =
      (buf, ?io2\<lparr>files := (files ?io2)(?n \<mapsto> w)\<rparr>)" and wb: "w @ buf = ?u @ [] @ flat_items items"
    by blast
  let ?io3 = "?io2\<lparr>files := (files ?io2)(?n \<mapsto> w)\<rparr>"
  have "WriteBufferToFile buf ?io3 = ?io3\<lparr>files := (files ?io3)(?n \<mapsto> w @ buf)\<rparr>"
    by (rule WriteBufferToFile_open) simp_all
  then have "InEnclave_persist_items (batchSize * index_item_size) items ?io2 = ?io3\<lparr>files := (files ?io3)(?n \<mapsto> w @ buf)\<rparr>"
    unfolding InEnclave_persist_items_def r by (cases "buf = []") (cases io, simp_all)
  moreover have "Ocall_CloseWriteSealedFile (?io3\<lparr>files := (files ?io3)(?n \<mapsto> w @ buf)\<rparr>) =
      io\<lparr>files := (files io)(?n \<mapsto> ?u @ flat_items items)\<rparr>"
    using assms(2) wb by (cases io) (simp add: Ocall_CloseWriteSealedFile_def)
  ultimately show ?thesis
    using assms(1,2) w2 by (simp add: InEnclave_PersistDedupIndex_def Ocall_InitWriteSealedFile_def)
qed

lemma load_items_flat:
  assumes "items_ok its" and "fst ` set its \<inter> dom m = {}"
  shows "load_items (length its) (flat_items its @ junk) (m, c) = (m ++ map_of its, c + length its)"
  using assms
proof (induction its arbitrary: m c)
  case Nil
  then show ?case by simp
next
  case (Cons kv its)
  obtain k v where kv: "kv = (k, v)" by (cases kv)
  have ok: "length k = CHUNK_HASH_SIZE" "length v = RecipeEntry_size" "k \<notin> fst ` set its" "items_ok its" "m k = None"
    using Cons.prems by (auto simp: kv items_ok_Cons)
  have "fst ` set its \<inter> dom (m(k \<mapsto> v)) = {}" using Cons.prems(2) ok(3) kv by auto
  have "load_items (length (kv # its)) (flat_items (kv # its) @ junk) (m, c) =
      load_items (length its) (flat_items its @ junk) (m(k \<mapsto> v), Suc c)"
    using ok by (simp add: kv index_item_size_def)
  also have "\<dots> = (m(k \<mapsto> v) ++ map_of its, Suc c + length its)" by (rule Cons.IH) fact+
  also have "m(k \<mapsto> v) ++ map_of its = m ++ map_of (kv # its)"
    using ok(3) by (simp add: kv map_add_upd_left dom_map_of_conv_image_fst)
  also have "Suc c + length its = c + length (kv # its)" by simp
  finally show ?case .
qed

lemma load_batches_flat:
  assumes "items_ok its" and "length its = n * B" and "fst ` set its \<inter> dom m = {}"
    and "rd io = Some (b, p, False)" and "drop p b = flat_items its @ rest"
  shows "\<exists>buf'. load_batches B n (buf, (m, c), io) =
    (buf', (m ++ map_of its, c + length its), io\<lparr>rd := Some (b, p + length (flat_items its), False)\<rparr>)"
  using assms
proof (induction n arbitrary: its m c p io buf)
  case 0
  then show ?case by (cases io) simp
next
  case (Suc n)
  let ?i1 = "take B its" and ?i2 = "drop B its"
  have its: "its = ?i1 @ ?i2" by simp
  have ok: "items_ok ?i1" "items_ok ?i2" "fst ` set ?i1 \<inter> fst ` set ?i2 = {}"
    using items_ok_append [of ?i1 ?i2] Suc.prems(1) by simp_all
  have sub: "fst ` set ?i1 \<inter> dom m = {}" "fst ` set ?i2 \<inter> dom m = {}"
    using Suc.prems(3) set_take_subset [of B its] set_drop_subset [of B its] by blast+
  have l1: "length ?i1 = B" using Suc.prems(2) by simp
  have f1: "length (flat_items ?i1) = B * index_item_size" using length_flat_items [OF ok(1)] l1 by simp
  have fl: "flat_items its = flat_items ?i1 @ flat_items ?i2" using its flat_items_simps(3) by metis
  have "length (drop p b) = length (flat_items its @ rest)" using Suc.prems(5) by simp
  then have le: "p + B * index_item_size \<le> length b" if "B * index_item_size \<noteq> 0"
    using f1 fl that by (cases "p \<le> length b") auto
  show ?case
  proof (cases "B = 0")
    case True
    then have "its = []" using Suc.prems(2) by simp
    moreover have "ReadFileToBuffer 0 x y = ([], y)" for x y by (subst ReadFileToBuffer.simps) simp
    ultimately show ?thesis using Suc True by (simp add: index_item_size_def)
  next
    case False
    then have "B * index_item_size \<noteq> 0" by (simp add: index_item_size_def const_defs)
    note rf = ReadFileToBuffer_full [OF Suc.prems(4) le [OF this], of buf]
    let ?io1 = "io\<lparr>rd := Some (b, p + B * index_item_size, False)\<rparr>"
    have t: "take (B * index_item_size) (drop p b) = flat_items ?i1"
      using Suc.prems(5) f1 fl by simp
    have li: "load_items B (flat_items ?i1) (m, c) = (m ++ map_of ?i1, c + B)"
      using load_items_flat [OF ok(1) sub(1), of "[]" c] l1 by simp
    have "\<exists>buf'. load_batches B n (flat_items ?i1, (m ++ map_of ?i1, c + B), ?io1) =
        (buf', ((m ++ map_of ?i1) ++ map_of ?i2, (c + B) + length ?i2),
          ?io1\<lparr>rd := Some (b, p + B * index_item_size + length (flat_items ?i2), False)\<rparr>)"
    proof (rule Suc.IH)
      show "length ?i2 = n * B" using Suc.prems(2) by simp
      show "fst ` set ?i2 \<inter> dom (m ++ map_of ?i1) = {}"
        using sub(2) ok(3) by (auto simp: dom_map_of_conv_image_fst)
      show "drop (p + B * index_item_size) b = flat_items ?i2 @ rest"
      proof -
        have "drop (p + B * index_item_size) b = drop (B * index_item_size) (drop p b)"
          by (simp add: add.commute)
        then show ?thesis by (simp add: Suc.prems(5) fl f1)
      qed
    qed (simp_all add: ok)
    moreover have "(m ++ map_of ?i1) ++ map_of ?i2 = m ++ map_of its"
    proof -
      have "dom (map_of ?i1) \<inter> dom (map_of ?i2) = {}" using ok(3) by (simp add: dom_map_of_conv_image_fst)
      then have "map_of ?i1 ++ map_of ?i2 = map_of ?i2 ++ map_of ?i1" by (rule map_add_comm)
      then show ?thesis using its by (metis map_add_assoc map_of_append)
    qed
    moreover have "(c + B) + length ?i2 = c + length its" using l1 its by (metis add.assoc length_append)
    moreover have "p + B * index_item_size + length (flat_items ?i2) = p + length (flat_items its)"
      using f1 fl by simp
    ultimately show ?thesis using rf t li by simp
  qed
qed

lemma InEnclave_load_file:
  assumes items: "items_ok items" and B: "0 < B" and n: "length items < 2 ^ 64" and r: "rd io = None"
    and f: "files io SEALED_BASELINE_INDEX_PATH = Some (u64_bytes (of_nat (length items)) @ flat_items items)"
  shows "InEnclave_LoadDedupIndex B junk io = Inr (True, map_of items, io)"
proof -
  define i1 where "i1 = take (length items div B * B) items"
  define i2 where "i2 = drop (length items div B * B) items"
  define N K L where "N = length items" and "K = length i1" and "L = length i2"
  have it: "items = i1 @ i2" by (simp add: i1_def i2_def)
  have NKL: "N = K + L" by (simp add: N_def K_def L_def it)
  have K: "K = N div B * B" by (simp add: K_def i1_def N_def)
  have L: "L < B" using B by (simp add: L_def i2_def minus_div_mult_eq_mod)
  let ?b = "u64_bytes (of_nat N) @ flat_items i1 @ flat_items i2"
  let ?io1 = "io\<lparr>rd := Some (?b, 0, False)\<rparr>" and ?io2 = "io\<lparr>rd := Some (?b, 8, False)\<rparr>"
  let ?io3 = "io\<lparr>rd := Some (?b, 8 + length (flat_items i1), False)\<rparr>"
  have ok: "items_ok i1" "items_ok i2" "fst ` set i1 \<inter> fst ` set i2 = {}"
    using items_ok_append [of i1 i2] items it by simp_all
  have nn: "N < 18446744073709551616" "L < 18446744073709551616" using n NKL N_def by simp_all
  note w = unat_of_nat_u64 [OF nn(1)] unat_of_nat_u64 [OF nn(2)]
  have open1: "Ocall_InitReadSealedFile SEALED_BASELINE_INDEX_PATH io = (length ?b, ?io1)"
    using r f by (simp add: Ocall_InitReadSealedFile_def it [symmetric] N_def) (simp add: it)
  have read1: "ReadFileToBuffer 8 [] ?io1 = (u64_bytes (of_nat N), ?io2)"
    using ReadFileToBuffer_full [of ?io1 ?b 0 8 "[]"] by simp
  have "\<exists>buf'. load_batches B (N div B) (take (B * index_item_size) junk, (Map.empty, 0), ?io2) =
      (buf', (Map.empty ++ map_of i1, 0 + length i1), ?io2\<lparr>rd := Some (?b, 8 + length (flat_items i1), False)\<rparr>)"
    using ok(1) K by (intro load_batches_flat [where rest = "flat_items i2"]) (simp_all add: K_def)
  then obtain buf where lb: "load_batches B (N div B) (take (B * index_item_size) junk, (Map.empty, 0), ?io2) =
      (buf, (map_of i1, K), ?io3)"
    by (auto simp: K_def)
  have rem: "(of_nat N :: u64) - of_nat K = of_nat L" by (simp add: NKL)
  have io: "io\<lparr>rd := None\<rparr> = io" using r by (cases io) simp
  show ?thesis
  proof (cases "L = 0")
    case True
    then have "map_of items = map_of i1" "(of_nat K :: u64) = of_nat N" by (simp_all add: it L_def NKL)
    with True show ?thesis
      by (simp add: InEnclave_LoadDedupIndex_def open1 read1 w lb io Ocall_CloseReadSealedFile_def)
  next
    case False
    let ?r = "ReadFileToBuffer (B * index_item_size) buf ?io3"
    have lf: "length (flat_items i2) \<le> B * index_item_size"
      unfolding length_flat_items [OF ok(2)] using L by (simp add: L_def)
    have "take (length ?b - (8 + length (flat_items i1))) (fst ?r) = drop (8 + length (flat_items i1)) ?b"
      by (rule ReadFileToBuffer_rest) (use lf in simp_all)
    then have pre: "take (length (flat_items i2)) (fst ?r) = flat_items i2" by simp
    have "fst ?r = flat_items i2 @ drop (length (flat_items i2)) (fst ?r)" by (metis append_take_drop_id pre)
    moreover have "fst ` set i2 \<inter> dom (map_of i1) = {}" using ok(3) by (auto simp: dom_map_of_conv_image_fst)
    ultimately have li: "load_items L (fst ?r) (map_of i1, K) = (map_of i1 ++ map_of i2, K + L)"
      using load_items_flat [OF ok(2)] by (metis L_def)
    have "map_of i1 ++ map_of i2 = map_of i2 ++ map_of i1"
      using ok(3) by (intro map_add_comm) (simp add: dom_map_of_conv_image_fst)
    then have mm: "map_of i1 ++ map_of i2 = map_of items" by (simp add: it)
    have nz: "(of_nat L :: u64) \<noteq> 0" using w(2) False by (metis unat_0)
    then have ne: "(of_nat N :: u64) \<noteq> of_nat K" using rem by auto
    have rio: "(snd ?r)\<lparr>rd := None\<rparr> = io" using ReadFileToBuffer_rd io by simp
    obtain buf2 io4 where r2: "?r = (buf2, io4)" by (cases ?r)
    with li mm rio have "load_items L buf2 (map_of i1, K) = (map_of items, N)" "io4\<lparr>rd := None\<rparr> = io"
      by (simp_all add: NKL)
    with ne rem show ?thesis
      by (simp add: InEnclave_LoadDedupIndex_def open1 read1 w lb r2 Ocall_CloseReadSealedFile_def)
  qed
qed

text \<open>\<open>order\<close> is the traversal of the map; the index meets the contract of a sealed index.\<close>

definition in_sealable ::
  "(string \<Rightarrow> bool) \<Rightarrow> nat \<Rightarrow> (in_index \<Rightarrow> (bytes \<times> bytes) list) \<Rightarrow> in_index \<Rightarrow> (string \<rightharpoonup> bytes) \<Rightarrow> bool" where
  "in_sealable can_create B order m f \<longleftrightarrow> can_create SEALED_BASELINE_INDEX_PATH \<and> 0 < B \<and>
     items_ok (order m) \<and> map_of (order m) = m \<and> length (order m) < 2 ^ 64"

interpretation in_seal: sealed_index "{SEALED_BASELINE_INDEX_PATH}" "in_sealable can_create B order"
  "\<lambda>m. InEnclave_PersistDedupIndex can_create B (order m)" "EcallInEnclaveIndex_init B junk" "\<lambda>m. m" for can_create B order junk
proof
  fix m and io :: sealed_io
  assume ok: "in_sealable can_create B order m (files io)" and w: "wr io = None"
  let ?b = "u64_bytes (of_nat (length (order m))) @ flat_items (order m)"
  let ?f = "(files io)(SEALED_BASELINE_INDEX_PATH \<mapsto> ?b)"
  have p: "InEnclave_PersistDedupIndex can_create B (order m) io = Inr (io\<lparr>files := ?f\<rparr>)"
    using ok w by (intro InEnclave_persist_file) (simp_all add: in_sealable_def)
  have "EcallInEnclaveIndex_init B junk io2 = Inr (m, io2)" if "rd io2 = None" "files io2 SEALED_BASELINE_INDEX_PATH = Some ?b" for io2 :: sealed_io
    using InEnclave_load_file [of "order m" B io2 junk] ok that by (simp add: in_sealable_def EcallInEnclaveIndex_init_def)
  with p show "\<exists>f. InEnclave_PersistDedupIndex can_create B (order m) io = Inr (io\<lparr>files := f\<rparr>) \<and>
      (\<forall>n. n \<notin> {SEALED_BASELINE_INDEX_PATH} \<longrightarrow> f n = files io n) \<and>
      (\<forall>io2. rd io2 = None \<longrightarrow> (\<forall>n \<in> {SEALED_BASELINE_INDEX_PATH}. files io2 n = f n) \<longrightarrow> EcallInEnclaveIndex_init B junk io2 = Inr (m, io2))"
    by (intro exI [of _ ?f]) simp
qed (simp add: in_sealable_def)

section \<open>Properties\<close>

text \<open>
  An index that was sealed when the enclave closed is read back exactly: the file written in pieces
  of \<open>sendChunkBatchSize\<close> items is read with the same or another batch size into the same map, for any
  number of items, multiples of the batch size and the empty index included.
\<close>

theorem InEnclave_sealed_roundtrip:
  assumes "can_create SEALED_BASELINE_INDEX_PATH" and "wr io = None" and "rd io = None" and "items_ok items"
    and "0 < B" and "length items < 2 ^ 64"
  shows "\<exists>io'. InEnclave_PersistDedupIndex can_create batchSize items io = Inr io' \<and>
     InEnclave_LoadDedupIndex B junk io' = Inr (True, map_of items, io')"
  using InEnclave_persist_file [of can_create io items batchSize, OF assms(1,2,4)]
    InEnclave_load_file [OF assms(4,5,6), of "io\<lparr>files := (files io)(SEALED_BASELINE_INDEX_PATH \<mapsto> u64_bytes (of_nat (length items)) @ flat_items items)\<rparr>" junk]
    assms(3) by simp

theorem InEnclave_sealed_roundtrip_witness:
  "\<exists>io'. InEnclave_PersistDedupIndex (\<lambda>n. True) 2
       [(replicate 32 1, replicate 16 7), (replicate 32 2, replicate 16 8), (replicate 32 3, replicate 16 9)]
       \<lparr>files = Map.empty, wr = None, rd = None\<rparr> = Inr io' \<and>
     InEnclave_LoadDedupIndex 2 [] io' =
       Inr (True, map_of [(replicate 32 1, replicate 16 7), (replicate 32 2, replicate 16 8), (replicate 32 3, replicate 16 9)], io')"
  by (rule InEnclave_sealed_roundtrip) (simp_all add: items_ok_def const_defs)

end
