(* ===== verification/EntryHeap.thy ===== *)
theory EntryHeap
  imports Structures HeapOrder
begin

text \<open>
  \<open>EcallEntryHeap\<close> (\<open>Enclave/include/ecallEntryHeap.h\<close>, \<open>ecallUtil/ecallEntryHeap.cc\<close>): the top-k index
  of the enclave, a binary min-heap of iterators into a hash map. An iterator of the map is the key
  of its node; reading through an iterator whose node was erased, or past the end of the vector, is
  undefined behaviour and a value of the model. The theory ends with the contract of the index as a
  locale and its interpretation on these definitions.
\<close>

section \<open>State and operations\<close>

record heap_item =
  hi_address :: recipe_entry
  chunkFreq :: u32
  hi_idx :: u32

record entry_heap =
  heap_vec :: "bytes list"
  heap_index :: "bytes \<rightharpoonup> heap_item"

definition EntryHeap_new :: entry_heap where
  "EntryHeap_new = \<lparr>heap_vec = [], heap_index = Map.empty\<rparr>"

definition CompFreq :: "u32 \<Rightarrow> u32 \<Rightarrow> bool" where
  "CompFreq freq1 freq2 \<longleftrightarrow> freq1 < freq2"

definition ParentIdx :: "u32 \<Rightarrow> u32" where
  "ParentIdx idx = (idx - 1) div 2"

definition ChildIdx :: "u32 \<Rightarrow> u32" where
  "ChildIdx idx = idx * 2 + 1"

text \<open>\<open>_heap[i]\<close> and \<open>_heap[i]->second\<close>.\<close>

definition heap_deref :: "entry_heap \<Rightarrow> u32 \<Rightarrow> (bytes \<times> heap_item) res" where
  "heap_deref h i =
     (if unat i < length (heap_vec h)
      then case heap_index h (heap_vec h ! unat i) of
             None \<Rightarrow> Inl (Undefined ''dangling iterator'')
           | Some it \<Rightarrow> Inr (heap_vec h ! unat i, it)
      else Inl (Undefined ''vector index out of range''))"

definition heap_freq :: "entry_heap \<Rightarrow> u32 \<Rightarrow> u32 res" where
  "heap_freq h i = rbind (heap_deref h i) (\<lambda>(k, it). Inr (chunkFreq it))"

definition heap_set_idx :: "entry_heap \<Rightarrow> u32 \<Rightarrow> u32 \<Rightarrow> entry_heap res" where
  "heap_set_idx h i v =
     rbind (heap_deref h i)
       (\<lambda>(k, it). Inr (h\<lparr>heap_index := (heap_index h)(k \<mapsto> it\<lparr>hi_idx := v\<rparr>)\<rparr>))"

definition heap_set_freq :: "entry_heap \<Rightarrow> u32 \<Rightarrow> u32 \<Rightarrow> entry_heap res" where
  "heap_set_freq h i v =
     rbind (heap_deref h i)
       (\<lambda>(k, it). Inr (h\<lparr>heap_index := (heap_index h)(k \<mapsto> it\<lparr>chunkFreq := v\<rparr>)\<rparr>))"

definition heap_swap :: "entry_heap \<Rightarrow> u32 \<Rightarrow> u32 \<Rightarrow> entry_heap" where
  "heap_swap h i j = h\<lparr>heap_vec := lswap (heap_vec h) (unat i) (unat j)\<rparr>"

lemma unat_ParentIdx: "0 < i \<Longrightarrow> unat (ParentIdx i) = par (unat i)"
  by (simp add: ParentIdx_def par_def unat_div_u32 unat_minus_one word_neq_0_conv)

function EntryHeap_SwapUp :: "entry_heap \<Rightarrow> u32 \<Rightarrow> (entry_heap \<times> u32) res" where
  "EntryHeap_SwapUp h idx =
     (let parent = ParentIdx idx in
      if 0 < idx then
        rbind (heap_freq h idx) (\<lambda>f.
        rbind (heap_freq h parent) (\<lambda>fp.
          if CompFreq f fp then
            rbind (heap_set_idx (heap_swap h idx parent) idx idx)
              (\<lambda>h'. EntryHeap_SwapUp h' parent)
          else Inr (h, idx)))
      else Inr (h, idx))"
  by pat_completeness auto
termination
  by (relation "measure (\<lambda>(h, idx). unat idx)")
    (simp_all add: unat_ParentIdx par_less unat_gt_0 word_neq_0_conv)

declare EntryHeap_SwapUp.simps [simp del]

text \<open>The child to compare with: the first one, or its sibling when that has a lower frequency.\<close>

definition SwapDown_child :: "entry_heap \<Rightarrow> u32 \<Rightarrow> u32 res" where
  "SwapDown_child h child =
     (if unat (child + 1) < length (heap_vec h)
      then rbind (heap_freq h (child + 1)) (\<lambda>f1.
           rbind (heap_freq h child) (\<lambda>f0.
             Inr (if CompFreq f1 f0 then child + 1 else child)))
      else Inr child)"

text \<open>
  The loop of \<open>SwapDown\<close> with fuel: child indices are \<open>uint32_t\<close> and wrap for a heap of more than
  \<open>2 ^ 31\<close> entries, so the loop does not end for every heap.
\<close>

fun SwapDown_loop :: "nat \<Rightarrow> entry_heap \<Rightarrow> u32 \<Rightarrow> (entry_heap \<times> u32) res" where
  "SwapDown_loop 0 h idx = Inl Diverges"
| "SwapDown_loop (Suc fuel) h idx =
     (if unat (ChildIdx idx) < length (heap_vec h) then
        rbind (SwapDown_child h (ChildIdx idx)) (\<lambda>child.
        rbind (heap_freq h child) (\<lambda>fc.
        rbind (heap_freq h idx) (\<lambda>f.
          if \<not> CompFreq fc f then Inr (h, idx)
          else rbind (heap_set_idx (heap_swap h child idx) idx idx)
                 (\<lambda>h'. SwapDown_loop fuel h' child))))
      else Inr (h, idx))"

definition EntryHeap_SwapDown :: "entry_heap \<Rightarrow> u32 \<Rightarrow> (entry_heap \<times> u32) res" where
  "EntryHeap_SwapDown h idx = SwapDown_loop (Suc (length (heap_vec h))) h idx"

definition EntryHeap_TopEntry :: "entry_heap \<Rightarrow> u32 res" where
  "EntryHeap_TopEntry h = heap_freq h 0"

definition EntryHeap_Pop :: "entry_heap \<Rightarrow> entry_heap res" where
  "EntryHeap_Pop h =
     (case heap_vec h of
        [] \<Rightarrow> Inl (Undefined ''vector index out of range'')
      | t # _ \<Rightarrow>
          (let h1 = h\<lparr>heap_vec := butlast ((heap_vec h)[0 := last (heap_vec h)]),
                     heap_index := (heap_index h)(t := None)\<rparr>
           in rbind (EntryHeap_SwapDown h1 0)
                (\<lambda>(h2, idx). heap_set_idx h2 idx idx)))"

definition EntryHeap_Size :: "entry_heap \<Rightarrow> nat" where
  "EntryHeap_Size h = length (heap_vec h)"

text \<open>\<open>operator[]\<close> of the map inserts a value-initialised item when the key is missing.\<close>

definition heap_item_default :: heap_item where
  "heap_item_default =
     \<lparr>hi_address = \<lparr>containerName = replicate CONTAINER_ID_LENGTH 0, re_offset = 0, re_length = 0\<rparr>,
      chunkFreq = 0, hi_idx = 0\<rparr>"

definition index_ref :: "entry_heap \<Rightarrow> bytes \<Rightarrow> heap_item \<times> entry_heap" where
  "index_ref h key =
     (case heap_index h key of
        Some it \<Rightarrow> (it, h)
      | None \<Rightarrow> (heap_item_default,
                 h\<lparr>heap_index := (heap_index h)(key \<mapsto> heap_item_default)\<rparr>))"

definition index_set_idx :: "entry_heap \<Rightarrow> bytes \<Rightarrow> u32 \<Rightarrow> entry_heap" where
  "index_set_idx h key idx =
     (let (it, h') = index_ref h key
      in h'\<lparr>heap_index := (heap_index h')(key \<mapsto> it\<lparr>hi_idx := idx\<rparr>)\<rparr>)"

definition EntryHeap_Add :: "entry_heap \<Rightarrow> bytes \<Rightarrow> heap_item \<Rightarrow> entry_heap res" where
  "EntryHeap_Add h key v =
     (let h1 = h\<lparr>heap_index := (case heap_index h key of
                     None \<Rightarrow> (heap_index h)(key \<mapsto> v) | Some _ \<Rightarrow> heap_index h),
                heap_vec := heap_vec h @ [key]\<rparr>
      in rbind (EntryHeap_SwapUp h1 (of_nat (length (heap_vec h1) - 1)))
           (\<lambda>(h2, idx). Inr (index_set_idx h2 key idx)))"

definition EntryHeap_Update :: "entry_heap \<Rightarrow> bytes \<Rightarrow> u32 \<Rightarrow> entry_heap res" where
  "EntryHeap_Update h key freq =
     (let (it, h0) = index_ref h key in
      rbind (heap_set_freq h0 (hi_idx it) freq) (\<lambda>h1.
      rbind (EntryHeap_SwapUp h1 (hi_idx it)) (\<lambda>(h2, idx2).
      rbind (EntryHeap_SwapDown h2 idx2) (\<lambda>(h3, idx3).
        Inr (index_set_idx h3 key idx3)))))"

definition EntryHeap_Contains :: "entry_heap \<Rightarrow> bytes \<Rightarrow> bool" where
  "EntryHeap_Contains h key \<longleftrightarrow> heap_index h key \<noteq> None"

definition EntryHeap_GetPriority :: "entry_heap \<Rightarrow> bytes \<Rightarrow> heap_item \<times> entry_heap" where
  "EntryHeap_GetPriority h key = index_ref h key"

section \<open>Well-formedness\<close>

text \<open>The vector lists each key of the map once.\<close>

definition keys_ok :: "entry_heap \<Rightarrow> bool" where
  "keys_ok h \<longleftrightarrow> distinct (heap_vec h) \<and> set (heap_vec h) = dom (heap_index h)"

text \<open>Each item knows its position in the vector, except the one at \<open>k\<close>.\<close>

definition idx_ok_but :: "entry_heap \<Rightarrow> nat \<Rightarrow> bool" where
  "idx_ok_but h k \<longleftrightarrow>
     (\<forall>i < length (heap_vec h). i \<noteq> k \<longrightarrow>
        hi_idx (the (heap_index h (heap_vec h ! i))) = of_nat i)"

definition freqs :: "entry_heap \<Rightarrow> u32 list" where
  "freqs h = map (\<lambda>k. chunkFreq (the (heap_index h k))) (heap_vec h)"

definition heap_bound :: nat where
  "heap_bound = 2 ^ 31"

definition EntryHeap_inv :: "entry_heap \<Rightarrow> bool" where
  "EntryHeap_inv h \<longleftrightarrow>
     keys_ok h \<and> idx_ok_but h (length (heap_vec h)) \<and> min_heap (freqs h) \<and>
     length (heap_vec h) < heap_bound"

text \<open>What a client sees of the index: the address and frequency of every key.\<close>

definition heap_content :: "entry_heap \<Rightarrow> bytes \<rightharpoonup> recipe_entry \<times> u32" where
  "heap_content h k = map_option (\<lambda>it. (hi_address it, chunkFreq it)) (heap_index h k)"

definition sifting :: "entry_heap \<Rightarrow> nat \<Rightarrow> bool" where
  "sifting h k \<longleftrightarrow> keys_ok h \<and> idx_ok_but h k \<and> k < length (heap_vec h) \<and>
     length (heap_vec h) \<le> heap_bound \<and> heap_exc (freqs h) k"

lemma length_freqs [simp]: "length (freqs h) = length (heap_vec h)"
  by (simp add: freqs_def)

lemma keys_ok_item:
  assumes "keys_ok h" and "i < length (heap_vec h)"
  obtains it where "heap_index h (heap_vec h ! i) = Some it" and "freqs h ! i = chunkFreq it"
proof -
  have "heap_vec h ! i \<in> dom (heap_index h)" using assms by (auto simp: keys_ok_def)
  then obtain it where "heap_index h (heap_vec h ! i) = Some it" by auto
  with that assms(2) show thesis by (simp add: freqs_def)
qed

lemma heap_freq_eq:
  "keys_ok h \<Longrightarrow> unat i < length (heap_vec h) \<Longrightarrow> heap_freq h i = Inr (freqs h ! unat i)"
  by (erule (1) keys_ok_item) (simp add: heap_freq_def heap_deref_def)

section \<open>One swap\<close>

lemma set_idx_eq:
  assumes "keys_ok h" and "unat i < length (heap_vec h)"
  obtains it where "heap_index h (heap_vec h ! unat i) = Some it"
    and "heap_set_idx h i v =
      Inr (h\<lparr>heap_index := (heap_index h)(heap_vec h ! unat i \<mapsto> it\<lparr>hi_idx := v\<rparr>)\<rparr>)"
proof -
  from assms obtain it where "heap_index h (heap_vec h ! unat i) = Some it"
    by (rule keys_ok_item)
  with that assms(2) show thesis by (simp add: heap_set_idx_def heap_deref_def)
qed

lemma keys_ok_upd:
  "keys_ok h \<Longrightarrow> heap_index h k = Some it \<Longrightarrow>
   keys_ok (h\<lparr>heap_index := (heap_index h)(k \<mapsto> it')\<rparr>)"
  by (auto simp: keys_ok_def)

lemma freqs_upd_idx:
  "heap_index h k = Some it \<Longrightarrow>
   freqs (h\<lparr>heap_index := (heap_index h)(k \<mapsto> it\<lparr>hi_idx := v\<rparr>)\<rparr>) = freqs h"
  by (auto simp: freqs_def)

lemma content_upd_idx:
  "heap_index h k = Some it \<Longrightarrow>
   heap_content (h\<lparr>heap_index := (heap_index h)(k \<mapsto> it\<lparr>hi_idx := v\<rparr>)\<rparr>) = heap_content h"
  by (auto simp: heap_content_def)

lemma idx_ok_upd:
  assumes "keys_ok h" and "idx_ok_but h k" and "k < length (heap_vec h)"
    and "heap_index h (heap_vec h ! k) = Some it"
  shows "idx_ok_but (h\<lparr>heap_index := (heap_index h)(heap_vec h ! k \<mapsto> it\<lparr>hi_idx := of_nat k\<rparr>)\<rparr>) n"
  using assms by (auto simp: idx_ok_but_def keys_ok_def nth_eq_iff_index_eq)

lemma lswap_commute: "lswap xs i j = lswap xs j i"
proof (cases "i = j")
  case False
  then show ?thesis by (simp add: lswap_def list_update_swap)
qed simp

lemma keys_ok_swap:
  "keys_ok h \<Longrightarrow> unat i < length (heap_vec h) \<Longrightarrow> unat j < length (heap_vec h) \<Longrightarrow>
   keys_ok (heap_swap h i j)"
  by (simp add: keys_ok_def heap_swap_def)

lemma freqs_swap:
  "unat i < length (heap_vec h) \<Longrightarrow> unat j < length (heap_vec h) \<Longrightarrow>
   freqs (heap_swap h i j) = lswap (freqs h) (unat i) (unat j)"
  by (simp add: freqs_def heap_swap_def map_lswap)

lemma idx_ok_swap:
  assumes "keys_ok h" and "idx_ok_but h (unat i)" and "unat i < length (heap_vec h)"
    and "unat j < length (heap_vec h)" and "i \<noteq> j"
    and "heap_index h (heap_vec h ! unat j) = Some it"
  shows "idx_ok_but (heap_swap h i j
    \<lparr>heap_index := (heap_index h)(heap_vec h ! unat j \<mapsto> it\<lparr>hi_idx := i\<rparr>)\<rparr>) (unat j)"
proof -
  have ne: "unat i \<noteq> unat j" using assms(5) by (simp add: word_unat_eq_iff)
  show ?thesis
    using assms ne
    by (auto simp: idx_ok_but_def heap_swap_def nth_lswap keys_ok_def nth_eq_iff_index_eq)
qed

lemma swap_step:
  assumes k: "keys_ok h" and i: "unat i < length (heap_vec h)"
    and j: "unat j < length (heap_vec h)" and ne: "i \<noteq> j"
  obtains h' where "heap_set_idx (heap_swap h i j) i i = Inr h'" and "keys_ok h'"
    and "heap_vec h' = lswap (heap_vec h) (unat i) (unat j)"
    and "freqs h' = lswap (freqs h) (unat i) (unat j)"
    and "heap_content h' = heap_content h"
    and "idx_ok_but h (unat i) \<Longrightarrow> idx_ok_but h' (unat j)"
proof -
  let ?s = "heap_swap h i j"
  have ks: "keys_ok ?s" using k i j by (rule keys_ok_swap)
  have at: "heap_vec ?s ! unat i = heap_vec h ! unat j"
    using i j by (auto simp: heap_swap_def nth_lswap)
  have ix: "heap_index ?s = heap_index h" by (simp add: heap_swap_def)
  have li: "unat i < length (heap_vec ?s)" using i by (simp add: heap_swap_def)
  from set_idx_eq [OF ks li] obtain it
    where it: "heap_index h (heap_vec h ! unat j) = Some it"
      and r: "heap_set_idx ?s i i =
        Inr (?s\<lparr>heap_index := (heap_index h)(heap_vec h ! unat j \<mapsto> it\<lparr>hi_idx := i\<rparr>)\<rparr>)"
    using at ix by metis
  let ?h' = "?s\<lparr>heap_index := (heap_index h)(heap_vec h ! unat j \<mapsto> it\<lparr>hi_idx := i\<rparr>)\<rparr>"
  have its: "heap_index ?s (heap_vec h ! unat j) = Some it" using it ix by simp
  show thesis
  proof (rule that [OF r])
    show "keys_ok ?h'" using keys_ok_upd [OF ks its] by (simp add: ix)
    show "heap_vec ?h' = lswap (heap_vec h) (unat i) (unat j)" by (simp add: heap_swap_def)
    show "freqs ?h' = lswap (freqs h) (unat i) (unat j)"
      using freqs_upd_idx [OF its, of i] freqs_swap [OF i j] by (simp add: ix)
    show "heap_content ?h' = heap_content h"
      using content_upd_idx [OF its, of i] by (simp add: ix) (simp add: heap_content_def fun_eq_iff ix)
    show "idx_ok_but h (unat i) \<Longrightarrow> idx_ok_but ?h' (unat j)"
      using idx_ok_swap [OF k _ i j ne it] by blast
  qed
qed

section \<open>Sifting\<close>

lemma ParentIdx_neq: "0 < i \<Longrightarrow> i \<noteq> ParentIdx i"
  using unat_ParentIdx [of i] par_less [of "unat i"] by (auto simp: unat_gt_0 word_neq_0_conv)

text \<open>The state after sifting the entry at \<open>k\<close> of \<open>h\<close> to position \<open>k'\<close> of \<open>h'\<close>.\<close>

definition sifted :: "entry_heap \<Rightarrow> nat \<Rightarrow> entry_heap \<Rightarrow> nat \<Rightarrow> bool" where
  "sifted h k h' k' \<longleftrightarrow> sifting h' k' \<and> heap_content h' = heap_content h \<and>
     length (heap_vec h') = length (heap_vec h) \<and> heap_vec h' ! k' = heap_vec h ! k"

lemma sifted_refl: "sifting h k \<Longrightarrow> sifted h k h k"
  by (simp add: sifted_def)

lemma sifted_trans: "sifted h1 i h2 j \<Longrightarrow> sifted h2 j h3 k \<Longrightarrow> sifted h1 i h3 k"
  by (auto simp: sifted_def)

lemma sift_swap:
  assumes s: "sifting h (unat i)" and j: "unat j < length (heap_vec h)" and ne: "i \<noteq> j"
    and exc: "heap_exc (lswap (freqs h) (unat i) (unat j)) (unat j)"
  obtains h' where "heap_set_idx (heap_swap h i j) i i = Inr h'"
    and "freqs h' = lswap (freqs h) (unat i) (unat j)" and "sifted h (unat i) h' (unat j)"
proof -
  from s have k: "keys_ok h" and i: "unat i < length (heap_vec h)" and ix: "idx_ok_but h (unat i)"
    by (auto simp: sifting_def)
  obtain h' where h': "heap_set_idx (heap_swap h i j) i i = Inr h'" "keys_ok h'"
      "heap_vec h' = lswap (heap_vec h) (unat i) (unat j)"
      "freqs h' = lswap (freqs h) (unat i) (unat j)" "heap_content h' = heap_content h"
      "idx_ok_but h (unat i) \<Longrightarrow> idx_ok_but h' (unat j)"
    using swap_step [OF k i j ne] by metis
  have "sifted h (unat i) h' (unat j)"
    using h' s i j ix exc by (auto simp: sifted_def sifting_def nth_lswap)
  with that h' show thesis by blast
qed

lemma SwapUp_sifts:
  assumes "sifting h (unat i)"
  shows "\<exists>h' i'. EntryHeap_SwapUp h i = Inr (h', i') \<and> sifted h (unat i) h' (unat i') \<and>
     up_ok (freqs h') (unat i') \<and>
     (down_ok (freqs h) (unat i) \<longrightarrow> down_ok (freqs h') (unat i'))"
  using assms
proof (induction h i rule: EntryHeap_SwapUp.induct)
  case (1 h i)
  let ?p = "ParentIdx i"
  have k: "keys_ok h" and li: "unat i < length (heap_vec h)"
    and exc: "heap_exc (freqs h) (unat i)"
    using "1.prems" by (auto simp: sifting_def)
  show ?case
  proof (cases "0 < i")
    case False
    then have "i = 0" using word_neq_0_conv [of i] by blast
    then show ?thesis
      using "1.prems" by (subst EntryHeap_SwapUp.simps) (auto simp: sifted_refl up_ok_def)
  next
    case True
    have p: "unat ?p = par (unat i)" using True by (rule unat_ParentIdx)
    have i0: "0 < unat i" using True by (simp add: unat_gt_0 word_neq_0_conv)
    have lp: "unat ?p < length (heap_vec h)" using p li par_less [OF i0] by simp
    have fi: "heap_freq h i = Inr (freqs h ! unat i)" and fp: "heap_freq h ?p = Inr (freqs h ! unat ?p)"
      using k li lp by (simp_all add: heap_freq_eq)
    show ?thesis
    proof (cases "freqs h ! unat i < freqs h ! unat ?p")
      case lt: True
      have lt': "freqs h ! unat i < freqs h ! par (unat i)" using lt p by simp
      have exc': "heap_exc (lswap (freqs h) (unat i) (unat ?p)) (unat ?p)"
        unfolding p using exc i0 li lt' by (intro sift_up_step) simp_all
      obtain h' where h': "heap_set_idx (heap_swap h i ?p) i i = Inr h'"
          "freqs h' = lswap (freqs h) (unat i) (unat ?p)" "sifted h (unat i) h' (unat ?p)"
        using sift_swap [OF "1.prems" lp ParentIdx_neq [OF True] exc'] by blast
      have dok: "down_ok (freqs h') (unat ?p)"
        unfolding h'(2) p using exc i0 li lt' by (intro sift_up_down_ok) simp_all
      have "sifting h' (unat ?p)" using h'(3) by (simp add: sifted_def)
      with "1.IH" [OF refl True fi fp _ h'(1)] lt obtain h2 i2
        where r: "EntryHeap_SwapUp h' ?p = Inr (h2, i2)" "sifted h' (unat ?p) h2 (unat i2)"
          "up_ok (freqs h2) (unat i2)" "down_ok (freqs h2) (unat i2)"
        using dok by (auto simp: CompFreq_def)
      have "EntryHeap_SwapUp h i = Inr (h2, i2)"
        using True fi fp lt h'(1) r(1) by (subst EntryHeap_SwapUp.simps) (simp add: CompFreq_def)
      with r h'(3) show ?thesis using sifted_trans by blast
    next
      case ge: False
      have "EntryHeap_SwapUp h i = Inr (h, i)"
        using True fi fp ge by (subst EntryHeap_SwapUp.simps) (simp add: CompFreq_def)
      moreover have "up_ok (freqs h) (unat i)" using ge p by (auto simp: up_ok_def not_less)
      ultimately show ?thesis using "1.prems" by (auto intro: sifted_refl)
    qed
  qed
qed

text \<open>Below the bound on the size no child index wraps.\<close>

lemma unat_ChildIdx:
  assumes "unat i < heap_bound"
  shows "unat (ChildIdx i) = 2 * unat i + 1"
proof -
  have "unat (i * 2) = 2 * unat i" using assms by (simp add: unat_word_ariths heap_bound_def)
  moreover have "unat (i * 2 + 1) = unat (i * 2) + 1"
    using assms calculation by (subst unat_add_u32) (simp_all add: heap_bound_def)
  ultimately show ?thesis by (simp add: ChildIdx_def)
qed

text \<open>The child that \<open>SwapDown\<close> compares with: the smaller one.\<close>

lemma smaller_child:
  assumes k: "keys_ok h" and b: "length (heap_vec h) \<le> heap_bound"
    and c: "unat (ChildIdx i) < length (heap_vec h)" and i: "unat i < length (heap_vec h)"
  shows "\<exists>c. SwapDown_child h (ChildIdx i) = Inr c \<and> 0 < unat c \<and> unat c < length (heap_vec h) \<and>
    par (unat c) = unat i \<and>
    (\<forall>d. 0 < d \<and> d < length (heap_vec h) \<and> par d = unat i \<longrightarrow> freqs h ! unat c \<le> freqs h ! d)"
proof -
  let ?c0 = "ChildIdx i" and ?c1 = "ChildIdx i + 1"
  have ib: "unat i < heap_bound" using i b by simp
  note c0 = unat_ChildIdx [OF ib]
  have c1: "unat ?c1 = 2 * unat i + 2"
    using c0 c b by (subst unat_add_u32) (simp_all add: heap_bound_def)
  have p: "par (unat ?c0) = unat i" "par (unat ?c1) = unat i"
    by (simp_all add: c0 c1 par_def)
  show ?thesis
  proof (cases "unat ?c1 < length (heap_vec h)")
    case True
    then have f: "heap_freq h ?c1 = Inr (freqs h ! unat ?c1)" "heap_freq h ?c0 = Inr (freqs h ! unat ?c0)"
      using k c by (simp_all add: heap_freq_eq)
    show ?thesis
      by (rule exI [of _ "if freqs h ! unat ?c1 < freqs h ! unat ?c0 then ?c1 else ?c0"])
        (use True c f p c0 c1 in \<open>auto simp: SwapDown_child_def CompFreq_def par_eq_iff\<close>)
  next
    case False
    show ?thesis
      by (rule exI [of _ ?c0]) (use False c p c0 c1 in \<open>auto simp: SwapDown_child_def par_eq_iff\<close>)
  qed
qed

lemma SwapDown_loop_sifts:
  assumes "sifting h (unat i)" and "up_ok (freqs h) (unat i)"
    and "length (heap_vec h) - unat i < fuel"
  shows "\<exists>h' i'. SwapDown_loop fuel h i = Inr (h', i') \<and> sifted h (unat i) h' (unat i') \<and>
     up_ok (freqs h') (unat i') \<and> down_ok (freqs h') (unat i')"
  using assms
proof (induction fuel h i rule: SwapDown_loop.induct)
  case (1 h i)
  then show ?case by simp
next
  case (2 fuel h i)
  have k: "keys_ok h" and li: "unat i < length (heap_vec h)" and b: "length (heap_vec h) \<le> heap_bound"
    and exc: "heap_exc (freqs h) (unat i)"
    using "2.prems"(1) by (auto simp: sifting_def)
  have ib: "unat i < heap_bound" using li b by simp
  show ?case
  proof (cases "unat (ChildIdx i) < length (heap_vec h)")
    case False
    then have "down_ok (freqs h) (unat i)"
      by (auto simp: down_ok_def par_eq_iff unat_ChildIdx [OF ib])
    then show ?thesis using False "2.prems" by (auto intro: sifted_refl)
  next
    case True
    from smaller_child [OF k b True li] obtain c where sel: "SwapDown_child h (ChildIdx i) = Inr c"
      and c: "0 < unat c" "unat c < length (heap_vec h)" "par (unat c) = unat i"
      and least: "\<forall>d. 0 < d \<and> d < length (heap_vec h) \<and> par d = unat i \<longrightarrow>
        freqs h ! unat c \<le> freqs h ! d"
      by blast
    have fc: "heap_freq h c = Inr (freqs h ! unat c)" "heap_freq h i = Inr (freqs h ! unat i)"
      using k c li by (simp_all add: heap_freq_eq)
    show ?thesis
    proof (cases "freqs h ! unat c < freqs h ! unat i")
      case False
      then have "down_ok (freqs h) (unat i)" using least by (force simp: down_ok_def)
      then show ?thesis using True sel fc False "2.prems" by (auto simp: CompFreq_def intro: sifted_refl)
    next
      case lt: True
      note step = sift_down_step [OF exc, of "unat c"]
      have st: "heap_exc (lswap (freqs h) (unat c) (unat i)) (unat c)"
        "up_ok (lswap (freqs h) (unat c) (unat i)) (unat c)"
        using c lt least by (auto intro!: step)
      have ne: "i \<noteq> c" using c par_less [of "unat c"] by auto
      obtain h' where h': "heap_set_idx (heap_swap h i c) i i = Inr h'"
          "freqs h' = lswap (freqs h) (unat i) (unat c)" "sifted h (unat i) h' (unat c)"
        using sift_swap [OF "2.prems"(1) c(2) ne] st(1) by (metis lswap_commute)
      have sw: "heap_swap h c i = heap_swap h i c" by (simp add: heap_swap_def lswap_commute)
      have ic: "unat i < unat c" using c par_less [of "unat c"] by simp
      have "\<exists>h2 i2. SwapDown_loop fuel h' c = Inr (h2, i2) \<and> sifted h' (unat c) h2 (unat i2) \<and>
          up_ok (freqs h2) (unat i2) \<and> down_ok (freqs h2) (unat i2)"
      proof (rule "2.IH" [OF True sel fc, of h'])
        show "\<not> \<not> CompFreq (freqs h ! unat c) (freqs h ! unat i)" using lt by (simp add: CompFreq_def)
        show "heap_set_idx (heap_swap h c i) i i = Inr h'" using h'(1) sw by simp
        show "sifting h' (unat c)" using h'(3) by (simp add: sifted_def)
        show "up_ok (freqs h') (unat c)" using st(2) h'(2) by (simp add: lswap_commute)
        show "length (heap_vec h') - unat c < fuel"
          using h'(3) ic c "2.prems"(3) by (simp add: sifted_def)
      qed
      then obtain h2 i2 where r: "SwapDown_loop fuel h' c = Inr (h2, i2)"
          "sifted h' (unat c) h2 (unat i2)" "up_ok (freqs h2) (unat i2)" "down_ok (freqs h2) (unat i2)"
        by blast
      have "SwapDown_loop (Suc fuel) h i = Inr (h2, i2)"
        using True sel fc lt h'(1) sw r(1) by (simp add: CompFreq_def)
      with r h'(3) sifted_trans show ?thesis by blast
    qed
  qed
qed

lemma SwapDown_sifts:
  assumes "sifting h (unat i)" and "up_ok (freqs h) (unat i)"
  shows "\<exists>h' i'. EntryHeap_SwapDown h i = Inr (h', i') \<and> sifted h (unat i) h' (unat i') \<and>
     up_ok (freqs h') (unat i') \<and> down_ok (freqs h') (unat i')"
  unfolding EntryHeap_SwapDown_def using assms by (intro SwapDown_loop_sifts) auto

section \<open>The operations on a well-formed index\<close>

lemma settle:
  assumes s: "sifting h (unat i)" and "up_ok (freqs h) (unat i)" and "down_ok (freqs h) (unat i)"
    and "length (heap_vec h) < heap_bound"
  shows "heap_set_idx h i i = Inr (index_set_idx h (heap_vec h ! unat i) i)"
    and "EntryHeap_inv (index_set_idx h (heap_vec h ! unat i) i)"
    and "heap_content (index_set_idx h (heap_vec h ! unat i) i) = heap_content h"
proof -
  let ?k = "heap_vec h ! unat i"
  from s have k: "keys_ok h" and li: "unat i < length (heap_vec h)" and ix: "idx_ok_but h (unat i)"
    by (auto simp: sifting_def)
  from k li obtain it where it: "heap_index h ?k = Some it" by (rule keys_ok_item)
  have e: "index_set_idx h ?k i = h\<lparr>heap_index := (heap_index h)(?k \<mapsto> it\<lparr>hi_idx := i\<rparr>)\<rparr>"
    by (simp add: index_set_idx_def index_ref_def it)
  show "heap_set_idx h i i = Inr (index_set_idx h ?k i)"
    using li it e by (simp add: heap_set_idx_def heap_deref_def)
  have "min_heap (freqs h)" using s assms(2,3) min_heap_from_exc by (auto simp: sifting_def)
  then show "EntryHeap_inv (index_set_idx h ?k i)"
    using keys_ok_upd [OF k it, of "it\<lparr>hi_idx := i\<rparr>"] idx_ok_upd [OF k ix li it] freqs_upd_idx [OF it, of i] assms(4)
    by (simp add: EntryHeap_inv_def e)
  show "heap_content (index_set_idx h ?k i) = heap_content h"
    using content_upd_idx [OF it] by (simp add: e)
qed

lemma inv_idx:
  assumes "EntryHeap_inv h" and "heap_index h key = Some it"
  shows "unat (hi_idx it) < length (heap_vec h)" and "heap_vec h ! unat (hi_idx it) = key"
proof -
  have "key \<in> set (heap_vec h)" using assms by (auto simp: EntryHeap_inv_def keys_ok_def)
  then obtain i where i: "i < length (heap_vec h)" "heap_vec h ! i = key"
    by (auto simp: in_set_conv_nth)
  then have "hi_idx it = of_nat i"
    using assms by (force simp: EntryHeap_inv_def idx_ok_but_def)
  moreover have "i < 4294967296" using i assms(1) by (simp add: EntryHeap_inv_def heap_bound_def)
  ultimately have "unat (hi_idx it) = i" by (simp add: unat_of_nat_u32)
  with i show "unat (hi_idx it) < length (heap_vec h)" "heap_vec h ! unat (hi_idx it) = key" by simp_all
qed

lemma EntryHeap_Size_card: "EntryHeap_inv h \<Longrightarrow> EntryHeap_Size h = card (dom (heap_content h))"
proof -
  assume "EntryHeap_inv h"
  then have "distinct (heap_vec h)" and "set (heap_vec h) = dom (heap_content h)"
    by (auto simp: EntryHeap_inv_def keys_ok_def heap_content_def)
  then show ?thesis by (metis EntryHeap_Size_def distinct_card)
qed

lemma EntryHeap_Contains_iff: "EntryHeap_Contains h key \<longleftrightarrow> heap_content h key \<noteq> None"
  by (simp add: EntryHeap_Contains_def heap_content_def)

lemma heap_content_bound:
  assumes "EntryHeap_inv h" and "heap_content h key = Some (a, f)"
  shows "EntryHeap_TopEntry h = Inr (freqs h ! 0)" and "freqs h ! 0 \<le> f"
proof -
  from assms(2) obtain it where it: "heap_index h key = Some it" "chunkFreq it = f"
    by (auto simp: heap_content_def)
  note i = inv_idx [OF assms(1) it(1)]
  have "freqs h ! unat (hi_idx it) = f" using i it by (simp add: freqs_def)
  with min_heap_root [of "freqs h" "unat (hi_idx it)"] i assms(1) show "freqs h ! 0 \<le> f"
    by (simp add: EntryHeap_inv_def)
  have "unat (0::u32) < length (heap_vec h)" using i by (cases "heap_vec h") auto
  with assms(1) show "EntryHeap_TopEntry h = Inr (freqs h ! 0)"
    unfolding EntryHeap_TopEntry_def by (subst heap_freq_eq) (auto simp: EntryHeap_inv_def)
qed

lemma EntryHeap_Add_ok:
  assumes inv: "EntryHeap_inv h" and new: "heap_content h key = None"
    and room: "Suc (EntryHeap_Size h) < heap_bound"
  shows "\<exists>h'. EntryHeap_Add h key v = Inr h' \<and> EntryHeap_inv h' \<and>
     heap_content h' = (heap_content h)(key \<mapsto> (hi_address v, chunkFreq v))"
proof -
  let ?h1 = "h\<lparr>heap_index := (heap_index h)(key \<mapsto> v), heap_vec := heap_vec h @ [key]\<rparr>"
  let ?n = "length (heap_vec h)"
  have n: "unat (of_nat ?n :: u32) = ?n"
    using room by (intro unat_of_nat_u32) (simp add: heap_bound_def EntryHeap_Size_def)
  have k0: "heap_index h key = None" using new by (simp add: heap_content_def)
  have nin: "key \<notin> set (heap_vec h)" using inv k0 by (auto simp: EntryHeap_inv_def keys_ok_def)
  have f: "freqs ?h1 = freqs h @ [chunkFreq v]" using nin by (auto simp: freqs_def)
  have "idx_ok_but ?h1 ?n"
    using inv nin by (auto simp: EntryHeap_inv_def idx_ok_but_def nth_append less_Suc_eq)
  then have s: "sifting ?h1 (unat (of_nat ?n :: u32))"
    using inv nin room min_heap_append_exc [of "freqs h" "chunkFreq v"]
    unfolding sifting_def n f
    by (auto simp: EntryHeap_inv_def keys_ok_def EntryHeap_Size_def)
  have d: "down_ok (freqs ?h1) (unat (of_nat ?n :: u32))"
    unfolding f n using append_down_ok [of "freqs h"] by simp
  from SwapUp_sifts [OF s] d obtain h2 i where r: "EntryHeap_SwapUp ?h1 (of_nat ?n) = Inr (h2, i)"
      "sifted ?h1 (unat (of_nat ?n :: u32)) h2 (unat i)" "up_ok (freqs h2) (unat i)"
      "down_ok (freqs h2) (unat i)"
    by blast
  then have s2: "sifting h2 (unat i)" "heap_content h2 = heap_content ?h1"
      "length (heap_vec h2) = Suc ?n" "heap_vec h2 ! unat i = key"
    by (auto simp: sifted_def n)
  have b2: "length (heap_vec h2) < heap_bound" using room s2 by (simp add: EntryHeap_Size_def)
  note st = settle [OF s2(1) r(3,4) b2, unfolded s2]
  have "EntryHeap_Add h key v = Inr (index_set_idx h2 key i)"
    by (simp add: EntryHeap_Add_def k0 r(1))
  with st show ?thesis by (auto simp: heap_content_def fun_eq_iff)
qed

lemma EntryHeap_Update_ok:
  assumes inv: "EntryHeap_inv h" and old: "heap_content h key = Some (a, f0)"
  shows "\<exists>h'. EntryHeap_Update h key f = Inr h' \<and> EntryHeap_inv h' \<and>
     heap_content h' = (heap_content h)(key \<mapsto> (a, f))"
proof -
  from old obtain it where it: "heap_index h key = Some it" "hi_address it = a"
    by (auto simp: heap_content_def)
  note i = inv_idx [OF inv it(1)]
  have k: "keys_ok h" using inv by (simp add: EntryHeap_inv_def)
  let ?h1 = "h\<lparr>heap_index := (heap_index h)(key \<mapsto> it\<lparr>chunkFreq := f\<rparr>)\<rparr>"
  have set1: "heap_set_freq h (hi_idx it) f = Inr ?h1"
    using i it by (simp add: heap_set_freq_def heap_deref_def)
  have f1: "freqs ?h1 = (freqs h)[unat (hi_idx it) := f]"
  proof (rule nth_equalityI)
    fix j assume "j < length (freqs ?h1)"
    then show "freqs ?h1 ! j = (freqs h)[unat (hi_idx it) := f] ! j"
      using i it k nth_eq_iff_index_eq [of "heap_vec h" j "unat (hi_idx it)"]
      by (simp add: freqs_def keys_ok_def nth_list_update)
  qed simp
  have "idx_ok_but ?h1 (unat (hi_idx it))"
    using inv i it by (auto simp: EntryHeap_inv_def idx_ok_but_def)
  then have s: "sifting ?h1 (unat (hi_idx it))"
    using inv i keys_ok_upd [OF k it(1)] min_heap_update_exc [of "freqs h"] f1
    by (simp add: sifting_def EntryHeap_inv_def)
  from SwapUp_sifts [OF s] obtain h2 i2 where r: "EntryHeap_SwapUp ?h1 (hi_idx it) = Inr (h2, i2)"
      "sifted ?h1 (unat (hi_idx it)) h2 (unat i2)" "up_ok (freqs h2) (unat i2)"
    by blast
  then have "sifting h2 (unat i2)" by (simp add: sifted_def)
  from SwapDown_sifts [OF this r(3)] obtain h3 i3 where q: "EntryHeap_SwapDown h2 i2 = Inr (h3, i3)"
      "sifted h2 (unat i2) h3 (unat i3)" "up_ok (freqs h3) (unat i3)" "down_ok (freqs h3) (unat i3)"
    by blast
  from sifted_trans [OF r(2) q(2)] i have s3: "sifting h3 (unat i3)" "heap_content h3 = heap_content ?h1"
      "length (heap_vec h3) = length (heap_vec h)" "heap_vec h3 ! unat i3 = key"
    by (auto simp: sifted_def)
  have b3: "length (heap_vec h3) < heap_bound" using inv s3 by (simp add: EntryHeap_inv_def)
  note st = settle [OF s3(1) q(3,4) b3, unfolded s3]
  have "EntryHeap_Update h key f = Inr (index_set_idx h3 key i3)"
    by (simp add: EntryHeap_Update_def index_ref_def it(1) set1 r(1) q(1))
  with st it(2) show ?thesis by (auto simp: heap_content_def fun_eq_iff)
qed

text \<open>\<open>Pop\<close> moves the last iterator to the root of a vector of at least two.\<close>

lemma Pop_start:
  assumes inv: "EntryHeap_inv h" and v: "heap_vec h = t # rest" and ne: "rest \<noteq> []"
  defines "h1 \<equiv> h\<lparr>heap_vec := butlast ((heap_vec h)[0 := last (heap_vec h)]),
                  heap_index := (heap_index h)(t := None)\<rparr>"
  shows "sifting h1 0" and "length (heap_vec h1) < heap_bound"
proof -
  from ne obtain ys y where rest: "rest = ys @ [y]" by (metis rev_exhaust)
  have b: "heap_vec h1 = y # ys" by (simp add: h1_def v rest)
  have k: "t \<notin> set ys" "t \<noteq> y" "y \<notin> set ys" "distinct ys"
      "dom (heap_index h) = insert t (insert y (set ys))"
    using inv v rest by (auto simp: EntryHeap_inv_def keys_ok_def)
  have "dom (heap_index h1) = insert y (set ys)" using k by (simp add: h1_def)
  then have k1: "keys_ok h1" using k by (simp add: keys_ok_def b)
  have nv: "heap_vec h1 ! i = heap_vec h ! i" "heap_vec h ! i \<noteq> t"
    if "i < length (heap_vec h1)" "i \<noteq> 0" for i
    using that v k nth_mem [of "i - 1" ys] by (auto simp: b rest nth_append nth_Cons')
  have "length (heap_vec h1) \<le> length (heap_vec h)" "heap_index h1 = (heap_index h)(t := None)"
    by (simp_all add: h1_def)
  with nv inv have i1: "idx_ok_but h1 0" by (simp add: EntryHeap_inv_def idx_ok_but_def)
  have f1: "freqs h1 = butlast ((freqs h)[0 := last (freqs h)])"
    using v k by (auto simp: freqs_def h1_def rest)
  have "heap_exc (freqs h1) 0"
    unfolding f1 using inv v by (intro heap_exc_butlast min_heap_update_exc) (simp_all add: EntryHeap_inv_def)
  with k1 i1 inv v show "sifting h1 0" "length (heap_vec h1) < heap_bound"
    by (auto simp: sifting_def b rest EntryHeap_inv_def)
qed

lemma EntryHeap_Pop_ok:
  assumes inv: "EntryHeap_inv h" and two: "2 \<le> EntryHeap_Size h"
  shows "\<exists>h' key a. EntryHeap_Pop h = Inr h' \<and> EntryHeap_inv h' \<and>
     heap_content h key = Some (a, freqs h ! 0) \<and>
     heap_content h' = (heap_content h)(key := None)"
proof -
  from two obtain t rest where v: "heap_vec h = t # rest" and ne: "rest \<noteq> []"
    by (cases "heap_vec h"; cases "tl (heap_vec h)") (auto simp: EntryHeap_Size_def)
  let ?h1 = "h\<lparr>heap_vec := butlast ((heap_vec h)[0 := last (heap_vec h)]),
               heap_index := (heap_index h)(t := None)\<rparr>"
  note start = Pop_start [OF inv v ne]
  have s: "sifting ?h1 (unat (0::u32))" and u: "up_ok (freqs ?h1) (unat (0::u32))"
    using start(1) by (simp_all add: up_ok_def)
  from SwapDown_sifts [OF s u] obtain h2 i where r: "EntryHeap_SwapDown ?h1 0 = Inr (h2, i)"
      "sifted ?h1 (unat (0::u32)) h2 (unat i)" "up_ok (freqs h2) (unat i)" "down_ok (freqs h2) (unat i)"
    by blast
  have s2: "sifting h2 (unat i)" "heap_content h2 = heap_content ?h1" "length (heap_vec h2) < heap_bound"
    using r(2) start(2) by (simp_all add: sifted_def)
  note st = settle [OF s2(1) r(3,4) s2(3)]
  have "EntryHeap_Pop h = Inr (index_set_idx h2 (heap_vec h2 ! unat i) i)"
    using v r(1) st(1) by (simp add: EntryHeap_Pop_def)
  moreover obtain it where "heap_index h t = Some it" "freqs h ! 0 = chunkFreq it"
    using keys_ok_item [of h 0] inv v by (auto simp: EntryHeap_inv_def)
  ultimately show ?thesis
    using st(2,3) s2(2)
    by (intro exI [of _ "index_set_idx h2 (heap_vec h2 ! unat i) i"] exI [of _ t] exI [of _ "hi_address it"])
      (auto simp: heap_content_def fun_eq_iff)
qed

section \<open>The contract of a top-k index\<close>

text \<open>
  What the frequency-based index relies on: a finite map from keys to an address and a frequency,
  whose entry of least frequency can be read and, when it is not the only entry, removed.
\<close>

locale topk_index =
  fixes inv :: "'s \<Rightarrow> bool"
    and content :: "'s \<Rightarrow> 'k \<rightharpoonup> 'a \<times> 'f :: linorder"
    and sz :: "'s \<Rightarrow> nat" and top_entry :: "'s \<Rightarrow> 'f res" and pop :: "'s \<Rightarrow> 's res"
    and add :: "'s \<Rightarrow> 'k \<Rightarrow> 'v \<Rightarrow> 's res" and value_of :: "'v \<Rightarrow> 'a \<times> 'f" and bound :: nat
  assumes finite_content: "inv s \<Longrightarrow> finite (dom (content s))"
    and size_card: "inv s \<Longrightarrow> sz s = card (dom (content s))"
    and top_least: "inv s \<Longrightarrow> content s k = Some (a, f) \<Longrightarrow> \<exists>m. top_entry s = Inr m \<and> m \<le> f"
    and pop_least: "inv s \<Longrightarrow> 2 \<le> sz s \<Longrightarrow>
      \<exists>s' k a m. pop s = Inr s' \<and> inv s' \<and> top_entry s = Inr m \<and> content s k = Some (a, m) \<and>
        content s' = (content s)(k := None)"
    and add_new: "inv s \<Longrightarrow> content s k = None \<Longrightarrow> Suc (sz s) < bound \<Longrightarrow>
      \<exists>s'. add s k v = Inr s' \<and> inv s' \<and> content s' = (content s)(k \<mapsto> value_of v)"
begin

lemma sz_upd_new:
  assumes "inv s" and "inv s'" and "content s' = (content s)(k \<mapsto> x)" and "content s k = None"
  shows "sz s' = Suc (sz s)"
proof -
  have "dom (content s') = insert k (dom (content s))" "k \<notin> dom (content s)"
    using assms(3,4) by auto
  with finite_content [OF assms(1)] show ?thesis by (simp add: size_card assms)
qed

lemma sz_remove:
  assumes "inv s" and "inv s'" and "content s' = (content s)(k := None)" and "content s k = Some x"
  shows "Suc (sz s') = sz s"
proof -
  have "dom (content s') = dom (content s) - {k}" "k \<in> dom (content s)"
    using assms(3,4) by auto
  then have "Suc (card (dom (content s'))) = card (dom (content s))"
    using card_Suc_Diff1 [OF finite_content [OF assms(1)]] by metis
  then show ?thesis by (simp add: size_card assms(1,2))
qed

text \<open>Adding with eviction: at most one entry is lost, and it has the least frequency.\<close>

lemma evict_add:
  assumes inv: "inv s" and new: "content s k = None" and K: "2 \<le> K" "K < bound" and sz: "sz s \<le> K"
  shows "\<exists>s'. rbind (if sz s = K then pop s else Inr s) (\<lambda>s1. add s1 k v) = Inr s' \<and>
     inv s' \<and> sz s' \<le> K \<and> content s' k = Some (value_of v) \<and>
     (\<forall>j. j \<noteq> k \<longrightarrow> content s' j = content s j \<or>
        sz s = K \<and> content s' j = None \<and> (\<exists>a m. content s j = Some (a, m) \<and> top_entry s = Inr m)) \<and>
     card (dom (content s) - dom (content s')) \<le> 1"
proof (cases "sz s = K")
  case True
  then obtain s1 e a m where p: "pop s = Inr s1" "inv s1" "top_entry s = Inr m" "content s e = Some (a, m)"
      "content s1 = (content s)(e := None)"
    using pop_least [OF inv] K by auto
  have sz1: "Suc (sz s1) = K" using sz_remove [OF inv p(2,5,4)] True by simp
  have new1: "content s1 k = None" using new p(5) by simp
  obtain s2 where q: "add s1 k v = Inr s2" "inv s2" "content s2 = (content s1)(k \<mapsto> value_of v)"
    using add_new [OF p(2) new1, of v] K sz1 by auto
  have "dom (content s) - dom (content s2) \<subseteq> {e}" using q(3) p(5) by auto
  then have "card (dom (content s) - dom (content s2)) \<le> card {e}"
    by (intro card_mono) simp_all
  with sz_upd_new [OF p(2) q(2,3) new1] sz1 True p q show ?thesis by auto
next
  case False
  then obtain s2 where q: "add s k v = Inr s2" "inv s2" "content s2 = (content s)(k \<mapsto> value_of v)"
    using add_new [OF inv new, of v] K sz by auto
  have "dom (content s) - dom (content s2) = {}" using q(3) by auto
  then have "card (dom (content s) - dom (content s2)) \<le> 1" by (metis card.empty zero_le)
  with sz_upd_new [OF inv q(2,3) new] sz False q show ?thesis by auto
qed

end

interpretation entry_heap: topk_index EntryHeap_inv heap_content EntryHeap_Size EntryHeap_TopEntry
  EntryHeap_Pop EntryHeap_Add "\<lambda>v. (hi_address v, chunkFreq v)" heap_bound
proof unfold_locales
  show "finite (dom (heap_content h))" if "EntryHeap_inv h" for h
  proof -
    have "dom (heap_content h) = set (heap_vec h)"
      using that by (auto simp: EntryHeap_inv_def keys_ok_def heap_content_def)
    then show ?thesis by simp
  qed
  show "EntryHeap_Size h = card (dom (heap_content h))" if "EntryHeap_inv h" for h
    using that by (rule EntryHeap_Size_card)
  show "\<exists>m. EntryHeap_TopEntry h = Inr m \<and> m \<le> f"
    if "EntryHeap_inv h" "heap_content h k = Some (a, f)" for h k a f
    using heap_content_bound [OF that] by blast
  show "\<exists>h' k a m. EntryHeap_Pop h = Inr h' \<and> EntryHeap_inv h' \<and> EntryHeap_TopEntry h = Inr m \<and>
      heap_content h k = Some (a, m) \<and> heap_content h' = (heap_content h)(k := None)"
    if "EntryHeap_inv h" "2 \<le> EntryHeap_Size h" for h
    using EntryHeap_Pop_ok [OF that] heap_content_bound(1) [OF that(1)] by blast
  show "\<exists>h'. EntryHeap_Add h k v = Inr h' \<and> EntryHeap_inv h' \<and>
      heap_content h' = (heap_content h)(k \<mapsto> (hi_address v, chunkFreq v))"
    if "EntryHeap_inv h" "heap_content h k = None" "Suc (EntryHeap_Size h) < heap_bound" for h k v
    using that by (rule EntryHeap_Add_ok)
qed

lemma EntryHeap_new_inv [simp]: "EntryHeap_inv EntryHeap_new"
  by (simp add: EntryHeap_new_def EntryHeap_inv_def keys_ok_def idx_ok_but_def freqs_def
      min_heap_def heap_bound_def)

section \<open>Properties\<close>

text \<open>
  Adding a new key to a well-formed top-k index never faults, keeps the index well formed (the
  vector lists each key of the map once, every item knows its position, the frequencies are a
  min-heap) and maps the key to the given address and frequency without changing any other entry.
\<close>

theorem EntryHeap_Add_adds:
  assumes "EntryHeap_inv h" and "heap_content h key = None" and "Suc (EntryHeap_Size h) < heap_bound"
  shows "\<exists>h'. EntryHeap_Add h key v = Inr h' \<and> EntryHeap_inv h' \<and>
     heap_content h' = (heap_content h)(key \<mapsto> (hi_address v, chunkFreq v))"
  using assms by (rule EntryHeap_Add_ok)

definition sample_item :: "u32 \<Rightarrow> heap_item" where
  "sample_item f = heap_item_default\<lparr>chunkFreq := f\<rparr>"

theorem EntryHeap_Add_adds_witness:
  "\<exists>h'. EntryHeap_Add EntryHeap_new [7] (sample_item 3) = Inr h' \<and> EntryHeap_inv h' \<and>
     heap_content h' = (heap_content EntryHeap_new)([7] \<mapsto> (hi_address (sample_item 3), chunkFreq (sample_item 3)))"
  by (rule EntryHeap_Add_adds [OF EntryHeap_new_inv])
    (simp_all add: EntryHeap_new_def heap_content_def EntryHeap_Size_def heap_bound_def)

text \<open>
  Changing the frequency of a key of a well-formed top-k index, up or down, never faults, keeps
  the index well formed and changes only that frequency.
\<close>

theorem EntryHeap_Update_updates:
  assumes "EntryHeap_inv h" and "heap_content h key = Some (a, f0)"
  shows "\<exists>h'. EntryHeap_Update h key f = Inr h' \<and> EntryHeap_inv h' \<and>
     heap_content h' = (heap_content h)(key \<mapsto> (a, f))"
  using assms by (rule EntryHeap_Update_ok)

definition sample_heap :: entry_heap where
  "sample_heap =
     \<lparr>heap_vec = [[1], [2]],
      heap_index = [[1] \<mapsto> (sample_item 3), [2] \<mapsto> (sample_item 5)\<lparr>hi_idx := 1\<rparr>]\<rparr>"

lemma sample_heap_inv: "EntryHeap_inv sample_heap"
  by (auto simp: EntryHeap_inv_def keys_ok_def idx_ok_but_def min_heap_def freqs_def heap_bound_def
      sample_heap_def sample_item_def heap_item_default_def par_def less_Suc_eq)

theorem EntryHeap_Update_updates_witness:
  "\<exists>h'. EntryHeap_Update sample_heap [1] 9 = Inr h' \<and> EntryHeap_inv h' \<and>
     heap_content h' = (heap_content sample_heap)([1] \<mapsto> (hi_address (sample_item 3), 9))"
  by (rule EntryHeap_Update_updates [OF sample_heap_inv, where ?f0.0 = 3])
    (simp add: heap_content_def sample_heap_def sample_item_def)

text \<open>
  The root of a well-formed top-k index has the least frequency, and \<open>Pop\<close> on an index of at
  least two entries removes exactly one entry, one of least frequency, and keeps the index well
  formed.
\<close>

theorem EntryHeap_Pop_removes_least:
  assumes "EntryHeap_inv h" and "2 \<le> EntryHeap_Size h"
  shows "\<exists>h' key a m. EntryHeap_Pop h = Inr h' \<and> EntryHeap_inv h' \<and> EntryHeap_TopEntry h = Inr m \<and>
     heap_content h key = Some (a, m) \<and> heap_content h' = (heap_content h)(key := None) \<and>
     (\<forall>k b f. heap_content h k = Some (b, f) \<longrightarrow> m \<le> f)"
proof -
  obtain h' key a m where r: "EntryHeap_Pop h = Inr h'" "EntryHeap_inv h'" "EntryHeap_TopEntry h = Inr m"
      "heap_content h key = Some (a, m)" "heap_content h' = (heap_content h)(key := None)"
    using entry_heap.pop_least [OF assms] by blast
  moreover have "m \<le> f" if "heap_content h k = Some (b, f)" for k b f
    using entry_heap.top_least [OF assms(1) that] r(3) by auto
  ultimately show ?thesis by blast
qed

theorem EntryHeap_Pop_removes_least_witness:
  "\<exists>h' key a m. EntryHeap_Pop sample_heap = Inr h' \<and> EntryHeap_inv h' \<and> EntryHeap_TopEntry sample_heap = Inr m \<and>
     heap_content sample_heap key = Some (a, m) \<and> heap_content h' = (heap_content sample_heap)(key := None) \<and>
     (\<forall>k b f. heap_content sample_heap k = Some (b, f) \<longrightarrow> m \<le> f)"
  by (rule EntryHeap_Pop_removes_least [OF sample_heap_inv]) (simp add: EntryHeap_Size_def sample_heap_def)


end
