(* ===== verification/CMSketch.thy ===== *)
theory CMSketch
  imports Structures
begin

text \<open>
  \<open>EcallCMSketch\<close> (\<open>Enclave/ecallSrc/ecallUtil/ecallCMSketch.cc\<close>): the count-min sketch that
  estimates how often a fingerprint was seen. The position in row \<open>i\<close> is the i-th 32-bit word of
  the fingerprint modulo the width. The counters are \<open>uint32_t\<close> and wrap; the theorems say how
  long an estimate is an upper bound.
\<close>

record cm_sketch =
  width :: u32
  depth :: u32
  total :: u64
  counterArray :: "u32 list list"

definition CMSketch_new :: "u32 \<Rightarrow> u32 \<Rightarrow> cm_sketch" where
  "CMSketch_new w d =
     \<lparr>width = w, depth = d, total = 0,
      counterArray = replicate (unat d) (replicate (unat w) 0)\<rparr>"

text \<open>\<open>chunkHashPtr[i] % width_\<close>\<close>

definition sketch_pos :: "cm_sketch \<Rightarrow> bytes \<Rightarrow> nat \<Rightarrow> nat" where
  "sketch_pos S chunkHash i = unat (bytes_u32 (drop (4 * i) chunkHash) mod width S)"

definition CMSketch_Estimate :: "cm_sketch \<Rightarrow> bytes \<Rightarrow> u32" where
  "CMSketch_Estimate S chunkHash =
     foldl (\<lambda>minVal i. min minVal (counterArray S ! i ! sketch_pos S chunkHash i)) (- 1) [0..<unat (depth S)]"

definition CMSketch_Update :: "cm_sketch \<Rightarrow> bytes \<Rightarrow> u32 \<Rightarrow> cm_sketch" where
  "CMSketch_Update S chunkHash count =
     foldl (\<lambda>S' i. S'\<lparr>counterArray := (counterArray S')
               [i := (counterArray S' ! i)
                  [sketch_pos S chunkHash i := counterArray S' ! i ! sketch_pos S chunkHash i + count]]\<rparr>)
       (S\<lparr>total := total S + ucast count\<rparr>) [0..<unat (depth S)]"

definition CMSketch_TotalCount :: "cm_sketch \<Rightarrow> u64" where
  "CMSketch_TotalCount S = total S"

definition CMSketch_ClearUp :: "cm_sketch \<Rightarrow> cm_sketch" where
  "CMSketch_ClearUp S =
     foldl (\<lambda>S' (w, d). S'\<lparr>counterArray := (counterArray S')[d := (counterArray S' ! d)[w := 0]]\<rparr>)
       S (List.product [0..<unat (width S)] [0..<unat (depth S)])"

section \<open>Well-formed sketches\<close>

definition sketch_wf :: "cm_sketch \<Rightarrow> bool" where
  "sketch_wf S \<longleftrightarrow> width S \<noteq> 0 \<and> length (counterArray S) = unat (depth S) \<and>
     (\<forall>row \<in> set (counterArray S). length row = unat (width S))"

lemma sketch_wf_new: "w \<noteq> 0 \<Longrightarrow> sketch_wf (CMSketch_new w d)"
  by (simp add: sketch_wf_def CMSketch_new_def)

lemma sketch_pos_less: "sketch_wf S \<Longrightarrow> sketch_pos S h i < unat (width S)"
  by (simp add: sketch_wf_def sketch_pos_def unat_mod_u32 unat_gt_0)

lemma sketch_row: "sketch_wf S \<Longrightarrow> i < unat (depth S) \<Longrightarrow> length (counterArray S ! i) = unat (width S)"
  by (simp add: sketch_wf_def)

text \<open>One counter of each row is increased.\<close>

lemma Update_rows:
  assumes "n \<le> length (counterArray S0)"
  shows "foldl (\<lambda>S' i. S'\<lparr>counterArray := (counterArray S')
            [i := (counterArray S' ! i)[p i := counterArray S' ! i ! p i + c]]\<rparr>) S0 [0..<n] =
    S0\<lparr>counterArray := map (\<lambda>i. (counterArray S0 ! i)[p i := counterArray S0 ! i ! p i + c]) [0..<n]
                        @ drop n (counterArray S0)\<rparr>"
  using assms
proof (induction n)
  case 0
  then show ?case by simp
next
  case (Suc n)
  then have "drop n (counterArray S0) = counterArray S0 ! n # drop (Suc n) (counterArray S0)"
    by (simp add: Cons_nth_drop_Suc)
  with Suc show ?case by (simp add: list_update_append nth_append)
qed

lemma Update_eq:
  assumes "sketch_wf S"
  shows "CMSketch_Update S h c = S\<lparr>total := total S + ucast c,
    counterArray := map (\<lambda>i. (counterArray S ! i)[sketch_pos S h i := counterArray S ! i ! sketch_pos S h i + c])
      [0..<unat (depth S)]\<rparr>"
  using assms unfolding CMSketch_Update_def
  by (subst Update_rows) (simp_all add: sketch_wf_def)

lemma Update_fields [simp]:
  assumes "sketch_wf S"
  shows "width (CMSketch_Update S h c) = width S" "depth (CMSketch_Update S h c) = depth S"
  by (simp_all add: Update_eq assms)

lemma Update_wf: "sketch_wf S \<Longrightarrow> sketch_wf (CMSketch_Update S h c)"
  by (auto simp: Update_eq sketch_wf_def)

lemma Update_counter:
  assumes "sketch_wf S" and "i < unat (depth S)" and "j < unat (width S)"
  shows "counterArray (CMSketch_Update S h c) ! i ! j =
    counterArray S ! i ! j + (if j = sketch_pos S h i then c else 0)"
  using assms by (simp add: Update_eq sketch_row nth_list_update)

lemma Update_pos: "sketch_wf S \<Longrightarrow> sketch_pos (CMSketch_Update S h c) h' i = sketch_pos S h' i"
  by (simp add: sketch_pos_def)

section \<open>Estimates\<close>

lemma le_foldl_min_iff:
  "v \<le> foldl (\<lambda>m i. min m (f i)) a xs \<longleftrightarrow> v \<le> (a :: 'a :: linorder) \<and> (\<forall>i \<in> set xs. v \<le> f i)"
  by (induction xs arbitrary: a) auto

lemma le_Estimate_iff:
  "v \<le> CMSketch_Estimate S h \<longleftrightarrow> (\<forall>i < unat (depth S). v \<le> counterArray S ! i ! sketch_pos S h i)"
  by (auto simp: CMSketch_Estimate_def le_foldl_min_iff)

text \<open>
  The sketch after a sequence of updates by one, as the frequency index makes them, compared with
  the exact number of times a fingerprint occurs in it.
\<close>

definition sketch_run :: "cm_sketch \<Rightarrow> bytes list \<Rightarrow> cm_sketch" where
  "sketch_run S hs = foldl (\<lambda>S h. CMSketch_Update S h 1) S hs"

lemma sketch_run_wf: "sketch_wf S \<Longrightarrow> sketch_wf (sketch_run S hs)"
  unfolding sketch_run_def by (induction hs arbitrary: S) (auto simp: Update_wf)

lemma sketch_run_fields [simp]:
  "sketch_wf S \<Longrightarrow> width (sketch_run S hs) = width S \<and> depth (sketch_run S hs) = depth S"
  unfolding sketch_run_def by (induction hs arbitrary: S) (auto simp: Update_wf)

lemma sketch_run_counter:
  assumes "sketch_wf S" and "i < unat (depth S)" and "j < unat (width S)"
    and "unat (counterArray S ! i ! j) + length hs < 2 ^ 32"
  shows "unat (counterArray (sketch_run S hs) ! i ! j) =
    unat (counterArray S ! i ! j) + length (filter (\<lambda>h. sketch_pos S h i = j) hs)"
  using assms
proof (induction hs arbitrary: S)
  case Nil
  then show ?case by (simp add: sketch_run_def)
next
  case (Cons h hs)
  let ?S = "CMSketch_Update S h 1"
  have one: "unat (counterArray ?S ! i ! j) = unat (counterArray S ! i ! j) + (if sketch_pos S h i = j then 1 else 0)"
    using Cons.prems by (simp add: Update_counter unat_add_u32)
  have "unat (counterArray (sketch_run ?S hs) ! i ! j) =
      unat (counterArray ?S ! i ! j) + length (filter (\<lambda>h. sketch_pos ?S h i = j) hs)"
    using Cons.prems one by (intro Cons.IH) (auto simp: Update_wf)
  with one Cons.prems show ?case by (simp add: sketch_run_def Update_pos)
qed

lemma Estimate_run_ge:
  assumes "sketch_wf S" and "\<forall>i < unat (depth S). \<forall>j < unat (width S). unat (counterArray S ! i ! j) + length hs < 2 ^ 32"
    and "0 < unat (depth S)"
  shows "unat (CMSketch_Estimate S h) + count_list hs h \<le> unat (CMSketch_Estimate (sketch_run S hs) h)"
proof -
  let ?e = "CMSketch_Estimate S h"
  let ?v = "?e + of_nat (count_list hs h)"
  have cnt: "count_list hs h \<le> length (filter (\<lambda>h'. sketch_pos S h' i = sketch_pos S h i) hs)" for i
    by (induction hs) auto
  have at: "unat ?e + count_list hs h \<le> unat (counterArray (sketch_run S hs) ! i ! sketch_pos S h i)
      \<and> unat (counterArray (sketch_run S hs) ! i ! sketch_pos S h i) < 2 ^ 32"
    if i: "i < unat (depth S)" for i
  proof -
    have "?e \<le> counterArray S ! i ! sketch_pos S h i" using i le_Estimate_iff [of ?e S h] by simp
    then have "unat ?e \<le> unat (counterArray S ! i ! sketch_pos S h i)" by (simp add: word_le_nat_alt)
    moreover have "unat (counterArray (sketch_run S hs) ! i ! sketch_pos S h i) =
        unat (counterArray S ! i ! sketch_pos S h i) +
        length (filter (\<lambda>h'. sketch_pos S h' i = sketch_pos S h i) hs)"
      using assms i by (intro sketch_run_counter) (auto intro: sketch_pos_less)
    moreover have "unat (counterArray (sketch_run S hs) ! i ! sketch_pos S h i) < 2 ^ 32"
      using unat_less_pow32 by simp
    ultimately show ?thesis using cnt [of i] by linarith
  qed
  have b: "unat ?e + count_list hs h < 2 ^ 32" using at [OF assms(3)] by linarith
  then have v: "unat ?v = unat ?e + count_list hs h"
    by (subst unat_add_u32) (simp_all add: unat_of_nat_u32)
  have "?v \<le> CMSketch_Estimate (sketch_run S hs) h"
    unfolding le_Estimate_iff
  proof (intro allI impI)
    fix i assume "i < unat (depth (sketch_run S hs))"
    then have "i < unat (depth S)" using assms(1) by simp
    from at [OF this] v show "?v \<le> counterArray (sketch_run S hs) ! i ! sketch_pos (sketch_run S hs) h i"
      using assms(1) by (simp add: word_le_nat_alt sketch_pos_def)
  qed
  with v show ?thesis by (simp add: word_le_nat_alt)
qed

lemma new_counter [simp]:
  "i < unat d \<Longrightarrow> j < unat w \<Longrightarrow> counterArray (CMSketch_new w d) ! i ! j = 0"
  by (simp add: CMSketch_new_def)

section \<open>Clearing\<close>

lemma ClearUp_rows:
  assumes "length M = d" and "\<forall>row \<in> set M. length row = w"
  shows "foldl (\<lambda>S' (w, d). S'\<lparr>counterArray := (counterArray S')[d := (counterArray S' ! d)[w := 0]]\<rparr>)
      (S\<lparr>counterArray := M\<rparr>) xs = S\<lparr>counterArray := map (\<lambda>i. map (\<lambda>j. if (j, i) \<in> set xs then 0 else M ! i ! j) [0..<w]) [0..<d]\<rparr>"
  using assms
proof (induction xs arbitrary: M)
  case Nil
  then have "map (\<lambda>i. map (\<lambda>j. M ! i ! j) [0..<w]) [0..<d] = M"
    by (intro nth_equalityI) (auto intro: nth_equalityI)
  then show ?case by simp
next
  case (Cons x xs)
  obtain j i where x: "x = (j, i)" by (cases x)
  let ?M = "M[i := (M ! i)[j := 0]]"
  have l: "length ?M = d" "\<forall>row \<in> set ?M. length row = w"
  proof -
    show "length ?M = d" using Cons.prems by simp
    have "?M = M \<or> length (M ! i) = w" using Cons.prems by (cases "i < d") (simp_all add: list_update_beyond)
    then show "\<forall>row \<in> set ?M. length row = w"
    proof
      assume "?M = M"
      then show ?thesis using Cons.prems by simp
    next
      assume "length (M ! i) = w"
      then show ?thesis using Cons.prems by (auto dest!: set_update_subset_insert [THEN subsetD])
    qed
  qed
  have "?M ! i' ! j' = (if (j', i') = x then 0 else M ! i' ! j')" if "i' < d" "j' < w" for i' j'
    using that Cons.prems by (cases "i = i'"; cases "j = j'") (simp_all add: x)
  then show ?case
    using Cons.IH [OF l] by (simp add: x)
qed

lemma ClearUp_eq:
  assumes "sketch_wf S"
  shows "CMSketch_ClearUp S = S\<lparr>counterArray := replicate (unat (depth S)) (replicate (unat (width S)) 0)\<rparr>"
proof -
  let ?xs = "List.product [0..<unat (width S)] [0..<unat (depth S)]"
  have "map (\<lambda>i. map (\<lambda>j. if (j, i) \<in> set ?xs then 0 else counterArray S ! i ! j) [0..<unat (width S)])
      [0..<unat (depth S)] = replicate (unat (depth S)) (replicate (unat (width S)) 0)"
    by (intro nth_equalityI) (auto intro: nth_equalityI)
  with ClearUp_rows [of "counterArray S" "unat (depth S)" "unat (width S)" S ?xs] assms
  show ?thesis by (simp add: CMSketch_ClearUp_def sketch_wf_def)
qed

section \<open>Properties\<close>

text \<open>
  (C39) After a sequence of updates by one on a fresh sketch, the estimate for a fingerprint is at
  least the number of times it occurred, as long as fewer than 2 to the 32 updates were made (so that
  no counter wrapped).
\<close>

theorem CMSketch_never_underestimates:
  assumes "w \<noteq> 0" and "d \<noteq> 0" and "length hs < 2 ^ 32"
  shows "count_list hs h \<le> unat (CMSketch_Estimate (sketch_run (CMSketch_new w d) hs) h)"
proof -
  have "sketch_wf (CMSketch_new w d)" using assms(1) by (rule sketch_wf_new)
  moreover have "0 < unat (depth (CMSketch_new w d))"
    using assms(2) by (simp add: CMSketch_new_def unat_gt_0)
  moreover have "\<forall>i < unat (depth (CMSketch_new w d)). \<forall>j < unat (width (CMSketch_new w d)).
      unat (counterArray (CMSketch_new w d) ! i ! j) + length hs < 2 ^ 32"
    using assms(3) by (simp add: CMSketch_new_def)
  ultimately show ?thesis using Estimate_run_ge [of "CMSketch_new w d" hs h] by simp
qed

theorem CMSketch_never_underestimates_witness:
  "count_list [[1 :: byte, 0, 0, 0, 2, 0, 0, 0], [1, 0, 0, 0, 2, 0, 0, 0]] [1, 0, 0, 0, 2, 0, 0, 0]
     \<le> unat (CMSketch_Estimate (sketch_run (CMSketch_new 4 2)
          [[1, 0, 0, 0, 2, 0, 0, 0], [1, 0, 0, 0, 2, 0, 0, 0]]) [1, 0, 0, 0, 2, 0, 0, 0])"
  by (rule CMSketch_never_underestimates) simp_all

text \<open>
  An update never lowers an estimate while the counters do not wrap: the frequency that the
  index records for a fingerprint stays a lower bound of its later estimates, which is why a chunk
  whose estimate is below the least frequency of a full top-k index cannot be in it.
\<close>

theorem CMSketch_Estimate_monotone:
  assumes "sketch_wf S" and "0 < unat (depth S)"
    and "\<forall>i < unat (depth S). \<forall>j < unat (width S). unat (counterArray S ! i ! j) + length hs < 2 ^ 32"
  shows "unat (CMSketch_Estimate S h) + count_list hs h \<le> unat (CMSketch_Estimate (sketch_run S hs) h)"
  using Estimate_run_ge [OF assms(1,3,2)] .

theorem CMSketch_Estimate_monotone_witness:
  "unat (CMSketch_Estimate (CMSketch_new 4 2) [1, 0, 0, 0, 2, 0, 0, 0]) +
     count_list [[1 :: byte, 0, 0, 0, 2, 0, 0, 0], [9, 9, 9, 9, 9, 9, 9, 9]] [1, 0, 0, 0, 2, 0, 0, 0]
   \<le> unat (CMSketch_Estimate (sketch_run (CMSketch_new 4 2)
        [[1, 0, 0, 0, 2, 0, 0, 0], [9, 9, 9, 9, 9, 9, 9, 9]]) [1, 0, 0, 0, 2, 0, 0, 0])"
  by (rule CMSketch_Estimate_monotone) (simp_all add: sketch_wf_new, simp_all add: CMSketch_new_def)

text \<open>Clearing a sketch gives the counters of a new one and keeps its dimensions and total.\<close>

theorem CMSketch_ClearUp_clears:
  assumes "sketch_wf S"
  shows "counterArray (CMSketch_ClearUp S) = counterArray (CMSketch_new (width S) (depth S)) \<and>
     width (CMSketch_ClearUp S) = width S \<and> depth (CMSketch_ClearUp S) = depth S \<and>
     CMSketch_TotalCount (CMSketch_ClearUp S) = CMSketch_TotalCount S"
  using assms by (simp add: ClearUp_eq CMSketch_new_def CMSketch_TotalCount_def)

theorem CMSketch_ClearUp_clears_witness:
  "counterArray (CMSketch_ClearUp (CMSketch_Update (CMSketch_new 4 2) [1, 0, 0, 0, 2, 0, 0, 0] 1)) =
     counterArray (CMSketch_new (width (CMSketch_Update (CMSketch_new 4 2) [1, 0, 0, 0, 2, 0, 0, 0] 1))
       (depth (CMSketch_Update (CMSketch_new 4 2) [1, 0, 0, 0, 2, 0, 0, 0] 1)))"
  using CMSketch_ClearUp_clears [OF Update_wf [OF sketch_wf_new]] by simp

end
