(* ===== verification/FreqIndex.thy ===== *)
theory FreqIndex
  imports Upload OutIndex EntryHeap CMSketch
begin

text \<open>
  \<open>EcallFreqIndex\<close> (\<open>ecallIndex/ecallFreqIndex.cc\<close>, build option \<open>IMPACT_OF_TOP_K\<close> = 0): the
  frequency-based index. A batch goes through the sketch, the top-k index in the enclave, the
  out-of-enclave index for the rest, the storage of new chunks and the update of the top-k index. The
  loops over the array of query entries are recursions over a list, with the entries before the
  current one beside it.
\<close>

section \<open>State\<close>

record freq_index =
  insideDedupIndex :: entry_heap
  cmSketch :: cm_sketch
  insideDedupChunkNum :: u64
  insideDedupDataSize :: u64

type_synonym freq_state = "freq_index \<times> up_state"

definition EcallFreqIndex_new :: freq_index where
  "EcallFreqIndex_new =
     \<lparr>insideDedupIndex = EntryHeap_new, cmSketch = CMSketch_new (256 * 1024) 4,
      insideDedupChunkNum = 0, insideDedupDataSize = 0\<rparr>"

definition blank_addr :: recipe_entry where
  "blank_addr = \<lparr>containerName = replicate CONTAINER_ID_LENGTH 0, re_offset = 0, re_length = 0\<rparr>"

section \<open>Hashes and frequencies\<close>

text \<open>The size and the fingerprint of every chunk of the receive buffer.\<close>

primrec Freq_hash :: "enclave_cfg \<Rightarrow> bytes \<Rightarrow> nat \<Rightarrow> nat \<Rightarrow> in_query_entry list res" where
  "Freq_hash C buf 0 off = Inr []"
| "Freq_hash C buf (Suc n) off =
     rbind (read_chunk buf off) (\<lambda>(d, off').
     rbind (Ecall_GenerateHash (cfg_evp C) (cfg_tool C) d) (\<lambda>h.
     rbind (Freq_hash C buf n off') (\<lambda>es.
       Inr (\<lparr>iq_dedupFlag = UNIQUE, iq_chunkHash = take CHUNK_HASH_SIZE h, iq_chunkAddr = blank_addr,
             iq_chunkFreq = 0, iq_chunkSize = of_nat (length d)\<rparr> # es))))"

fun Freq_sketch :: "cm_sketch \<Rightarrow> in_query_entry list \<Rightarrow> cm_sketch \<times> in_query_entry list" where
  "Freq_sketch S [] = (S, [])"
| "Freq_sketch S (e # es) =
     (let S1 = CMSketch_Update S (iq_chunkHash e) 1;
          (S2, es') = Freq_sketch S1 es
      in (S2, e\<lparr>iq_chunkFreq := CMSketch_Estimate S1 (iq_chunkHash e)\<rparr> # es'))"

section \<open>The top-k index\<close>

definition Freq_minFreq :: "enclave_cfg \<Rightarrow> entry_heap \<Rightarrow> u32 res" where
  "Freq_minFreq C h = (if EntryHeap_Size h = topKParam C then EntryHeap_TopEntry h else Inr 0)"

text \<open>A query for the out-of-enclave index.\<close>

definition Freq_query :: "enclave_cfg \<Rightarrow> in_query_entry \<Rightarrow> out_query_entry list \<Rightarrow> (in_query_entry \<times> out_query_entry list) res" where
  "Freq_query C e qs =
     rbind (IndexAESCMCEnc (cfg_evp C) (cfg_tool C) (iq_chunkHash e) (indexQueryKey C)) (\<lambda>ch.
       Inr (e\<lparr>iq_dedupFlag := UNIQUE, iq_chunkAddr := (iq_chunkAddr e)\<lparr>re_offset := of_nat (length qs)\<rparr>\<rparr>,
            qs @ [\<lparr>oq_dedupFlag = UNIQUE, oq_chunkHash = ch, oq_chunkAddr = replicate RecipeEntry_size 0\<rparr>]))"

text \<open>The flag of a chunk that occurred before in this batch.\<close>

definition Freq_repeat :: "two_path_status \<Rightarrow> two_path_status res" where
  "Freq_repeat flag = (case flag of
       UNIQUE \<Rightarrow> Inr TMP_UNIQUE
     | DUPLICATE \<Rightarrow> Inr TMP_DUPLICATE
     | _ \<Rightarrow> Inl (ProcExit ''EcallFreqIndex: wrong in-enclave dedup flag''))"

fun Freq_check ::
  "enclave_cfg \<Rightarrow> entry_heap \<Rightarrow> u32 \<Rightarrow> in_query_entry list \<Rightarrow> (bytes \<rightharpoonup> nat) \<Rightarrow> out_query_entry list \<Rightarrow>
   in_query_entry list \<Rightarrow> (in_query_entry list \<times> out_query_entry list) res" where
  "Freq_check C h minFreq done li qs [] = Inr (done, qs)"
| "Freq_check C h minFreq done li qs (e # es) =
     (case li (iq_chunkHash e) of
        Some offset \<Rightarrow>
          rbind (Freq_repeat (iq_dedupFlag (done ! offset))) (\<lambda>flag.
            let e' = e\<lparr>iq_dedupFlag := flag, iq_chunkAddr := (iq_chunkAddr e)\<lparr>re_offset := of_nat offset\<rparr>\<rparr>;
                done' = done[offset := (done ! offset)\<lparr>iq_chunkFreq := iq_chunkFreq e\<rparr>]
            in Freq_check C h minFreq (done' @ [e']) li qs es)
      | None \<Rightarrow>
          if iq_chunkFreq e < minFreq then
            rbind (Freq_query C e qs) (\<lambda>(e', qs').
              Freq_check C h minFreq (done @ [e']) (li(iq_chunkHash e \<mapsto> length done)) qs' es)
          else if EntryHeap_Contains h (iq_chunkHash e) then
            let e' = e\<lparr>iq_dedupFlag := DUPLICATE,
                       iq_chunkAddr := hi_address (fst (EntryHeap_GetPriority h (iq_chunkHash e)))\<rparr>
            in Freq_check C h minFreq (done @ [e']) (li(iq_chunkHash e \<mapsto> length done)) qs es
          else
            rbind (Freq_query C e qs) (\<lambda>(e', qs').
              Freq_check C h minFreq (done @ [e']) (li(iq_chunkHash e \<mapsto> length done)) qs' es))"

section \<open>New chunks and the recipe\<close>

definition count_inside :: "u32 \<Rightarrow> freq_index \<Rightarrow> freq_index" where
  "count_inside sz x = x\<lparr>insideDedupChunkNum := insideDedupChunkNum x + 1,
                         insideDedupDataSize := insideDedupDataSize x + ucast sz\<rparr>"

text \<open>
  A chunk that is unique for the top-k index: the answer of the out-of-enclave index gives its
  address, or it is stored and its encrypted address put into the answer.
\<close>

definition Freq_unique ::
  "enclave_cfg \<Rightarrow> bytes \<Rightarrow> out_query_entry \<Rightarrow> up_state \<Rightarrow> (recipe_entry \<times> out_query_entry \<times> up_state) res" where
  "Freq_unique C d q s =
     (case oq_dedupFlag q of
        DUPLICATE \<Rightarrow>
          rbind (AESCBCDec (cfg_evp C) (cfg_tool C) (oq_chunkAddr q) (indexQueryKey C)) (\<lambda>ab.
            Inr (RecipeEntry_of_bytes ab, q, s))
      | UNIQUE \<Rightarrow>
          rbind (ProcessUniqueChunk C d s) (\<lambda>(a, s1).
          rbind (AESCBCEnc (cfg_evp C) (cfg_tool C) (RecipeEntry_bytes a) (indexQueryKey C)) (\<lambda>ca.
            Inr (a, q\<lparr>oq_chunkAddr := ca\<rparr>, count_unique (length d) s1)))
      | _ \<Rightarrow> Inl (ProcExit ''EcallFreqIndex: wrong out-enclave dedup flag''))"

text \<open>
  The address of one entry: \<open>done\<close> are the entries before it, \<open>qs\<close> the queries not yet used. The
  result has the entry with its address, the address for the recipe and the query it used, if any.
\<close>

definition Freq_entry ::
  "enclave_cfg \<Rightarrow> bytes \<Rightarrow> in_query_entry list \<Rightarrow> out_query_entry list \<Rightarrow> in_query_entry \<Rightarrow> freq_state \<Rightarrow>
   (in_query_entry \<times> recipe_entry \<times> out_query_entry list \<times> out_query_entry list \<times> freq_state) res" where
  "Freq_entry C d done qs e st =
     (let (x, s) = st in
      case iq_dedupFlag e of
        DUPLICATE \<Rightarrow> Inr (e, iq_chunkAddr e, [], qs, count_inside (iq_chunkSize e) x, s)
      | TMP_DUPLICATE \<Rightarrow>
          Inr (e, iq_chunkAddr (done ! unat (re_offset (iq_chunkAddr e))), [], qs, count_inside (iq_chunkSize e) x, s)
      | UNIQUE \<Rightarrow>
          (case qs of
             [] \<Rightarrow> Inl (Undefined ''query entry out of range'')
           | q # qs' \<Rightarrow>
               rbind (Freq_unique C d q s) (\<lambda>(a, q', s').
                 Inr (e\<lparr>iq_chunkAddr := a\<rparr>, a, [q'], qs', x, s')))
      | TMP_UNIQUE \<Rightarrow>
          Inr (e, iq_chunkAddr (done ! unat (re_offset (iq_chunkAddr e))), [], qs, count_inside (iq_chunkSize e) x, s))"

fun Freq_process ::
  "enclave_cfg \<Rightarrow> in_query_entry list \<Rightarrow> out_query_entry list \<Rightarrow> out_query_entry list \<Rightarrow> nat \<Rightarrow>
   in_query_entry list \<Rightarrow> freq_state \<Rightarrow> (in_query_entry list \<times> out_query_entry list \<times> freq_state) res" where
  "Freq_process C done qdone qs off [] st = Inr (done, qdone @ qs, st)"
| "Freq_process C done qdone qs off (e # es) st =
     (let d = read_at (recvBuffer (sgx (snd st))) (off + 4) (unat (iq_chunkSize e)) in
      rbind (Freq_entry C d done qs e st) (\<lambda>(e', a, used, qs', x, s1).
      rbind (UpdateFileRecipe C (RecipeEntry_bytes a) s1) (\<lambda>s2.
        Freq_process C (done @ [e']) (qdone @ used) qs' (off + 4 + unat (iq_chunkSize e)) es
          (x, count_logical (unat (iq_chunkSize e)) s2))))"

section \<open>Updating the top-k index\<close>

definition CheckIfAddToHeap :: "enclave_cfg \<Rightarrow> u32 \<Rightarrow> entry_heap \<Rightarrow> bool res" where
  "CheckIfAddToHeap C freq h =
     (if EntryHeap_Size h < topKParam C then Inr True
      else rbind (EntryHeap_TopEntry h) (\<lambda>currentMin. Inr (freq \<ge> currentMin)))"

text \<open>The position in the new item is not initialised; \<open>Add\<close> sets it.\<close>

definition AddChunkToHeap :: "enclave_cfg \<Rightarrow> u32 \<Rightarrow> recipe_entry \<Rightarrow> bytes \<Rightarrow> entry_heap \<Rightarrow> entry_heap res" where
  "AddChunkToHeap C freq addr fp h =
     rbind (if EntryHeap_Size h = topKParam C then EntryHeap_Pop h else Inr h) (\<lambda>h1.
       EntryHeap_Add h1 fp \<lparr>hi_address = addr, chunkFreq = freq, hi_idx = 0\<rparr>)"

definition UpdateInsideIndexFreq :: "bytes \<Rightarrow> u32 \<Rightarrow> entry_heap \<Rightarrow> entry_heap res" where
  "UpdateInsideIndexFreq fp freq h = EntryHeap_Update h fp freq"

definition Freq_heap_entry :: "enclave_cfg \<Rightarrow> in_query_entry \<Rightarrow> entry_heap \<Rightarrow> entry_heap res" where
  "Freq_heap_entry C e h =
     (if iq_dedupFlag e = UNIQUE \<or> iq_dedupFlag e = DUPLICATE then
        rbind (CheckIfAddToHeap C (iq_chunkFreq e) h) (\<lambda>ok.
          if ok then
            if EntryHeap_Contains h (iq_chunkHash e)
            then UpdateInsideIndexFreq (iq_chunkHash e) (iq_chunkFreq e) h
            else AddChunkToHeap C (iq_chunkFreq e) (iq_chunkAddr e) (iq_chunkHash e) h
          else Inr h)
      else Inr h)"

section \<open>The handlers\<close>

definition Freq_set_query :: "out_query_entry list \<Rightarrow> up_state \<Rightarrow> up_state" where
  "Freq_set_query qs s = s\<lparr>outc := (outc s)\<lparr>outQuery := qs\<rparr>\<rparr>"

definition Freq_ProcessOneBatch :: "enclave_cfg \<Rightarrow> net_msg \<Rightarrow> freq_state \<Rightarrow> freq_state res" where
  "Freq_ProcessOneBatch C m st =
     (let (x, s) = st in
      rbind (recv_batch C m s) (\<lambda>s1.
      rbind (Freq_hash C (recvBuffer (sgx s1)) (unat (currentItemNum m)) 0) (\<lambda>es.
      let (S, es1) = Freq_sketch (cmSketch x) es in
      rbind (Freq_minFreq C (insideDedupIndex x)) (\<lambda>minFreq.
      rbind (Freq_check C (insideDedupIndex x) minFreq [] (localIndex (sgx s1)) [] es1) (\<lambda>(es2, qs).
      let s2 = (if qs \<noteq> [] then Ocall_QueryOutIndex (Freq_set_query qs s1) else s1) in
      rbind (Freq_process C [] [] (if qs \<noteq> [] then outQuery (outc s2) else []) 0 es2 (x\<lparr>cmSketch := S\<rparr>, s2))
        (\<lambda>(es3, qs', x', s3).
      rbind (rfold (Freq_heap_entry C) es3 (insideDedupIndex x')) (\<lambda>h.
        Inr (x'\<lparr>insideDedupIndex := h\<rparr>,
             (Freq_set_query qs' s3)\<lparr>sgx := (sgx s3)\<lparr>localIndex := Map.empty\<rparr>\<rparr>))))))))"

definition Freq_ProcessTailBatch :: "enclave_cfg \<Rightarrow> freq_state \<Rightarrow> freq_state res" where
  "Freq_ProcessTailBatch C st =
     (let (x, s) = st in rbind (tail_recipe C s) (\<lambda>s'. Inr (x, tail_container s')))"

end
