(* ===== verification/FreqCheck.thy ===== *)
theory FreqCheck
  imports FreqIndex
begin

text \<open>
  The first half of a batch of the frequency-based index: what the hash, sketch and top-k phases
  leave in the query entries, and what the out-of-enclave index answers.
\<close>

section \<open>Hashes and frequencies\<close>

text \<open>Entries for the chunks \<open>cs\<close>.\<close>

definition entries_for :: "enclave_cfg \<Rightarrow> bytes list \<Rightarrow> in_query_entry list \<Rightarrow> bool" where
  "entries_for C cs es \<longleftrightarrow>
     map iq_chunkHash es = map (chunk_fp C) cs \<and> map iq_chunkSize es = map (\<lambda>d. of_nat (length d)) cs"

lemma Freq_hash_ok:
  assumes C: "cfg_ok C" and cs: "\<forall>d \<in> set cs. length d < 2 ^ 32"
  shows "\<exists>es. Freq_hash C (pre @ encode_chunks cs @ post) (length cs) (length pre) = Inr es \<and> entries_for C cs es"
  using cs
proof (induction cs arbitrary: pre)
  case Nil
  then show ?case by (simp add: entries_for_def)
next
  case (Cons d cs)
  have "length d < 2 ^ 32" using Cons.prems by simp
  note rd = read_chunk_encoded [OF this, of pre "encode_chunks cs @ post"]
  from Cons.IH [of "pre @ encode_chunk d"] Cons.prems obtain es where
    es: "Freq_hash C ((pre @ encode_chunk d) @ encode_chunks cs @ post) (length cs) (length (pre @ encode_chunk d)) = Inr es"
      "entries_for C cs es"
    by auto
  show ?case
    using rd es chunk_fp_eq [OF C, of d] by (simp add: entries_for_def)
qed

lemma Freq_sketch_keeps:
  "map iq_chunkHash (snd (Freq_sketch S es)) = map iq_chunkHash es \<and>
   map iq_chunkSize (snd (Freq_sketch S es)) = map iq_chunkSize es \<and>
   fst (Freq_sketch S es) = sketch_run S (map iq_chunkHash es)"
  by (induction S es rule: Freq_sketch.induct) (simp_all add: case_prod_beta Let_def sketch_run_def)

section \<open>The top-k phase\<close>

text \<open>What the later phases use of an entry: all but its frequency.\<close>

definition core :: "in_query_entry \<Rightarrow> two_path_status \<times> bytes \<times> recipe_entry \<times> u32" where
  "core e = (iq_dedupFlag e, iq_chunkHash e, iq_chunkAddr e, iq_chunkSize e)"

lemma core_upd [simp]: "core (e\<lparr>iq_dedupFlag := f, iq_chunkAddr := a\<rparr>) = (f, iq_chunkHash e, a, iq_chunkSize e)"
  by (simp add: core_def)

definition primary :: "two_path_status \<Rightarrow> bool" where
  "primary f \<longleftrightarrow> f = UNIQUE \<or> f = DUPLICATE"

abbreviation flag_of :: "two_path_status \<times> bytes \<times> recipe_entry \<times> u32 \<Rightarrow> two_path_status" where
  "flag_of \<equiv> fst"

abbreviation hash_of :: "two_path_status \<times> bytes \<times> recipe_entry \<times> u32 \<Rightarrow> bytes" where
  "hash_of k \<equiv> fst (snd k)"

abbreviation addr_of :: "two_path_status \<times> bytes \<times> recipe_entry \<times> u32 \<Rightarrow> recipe_entry" where
  "addr_of k \<equiv> fst (snd (snd k))"

text \<open>
  A duplicate has its address from the top-k index; a repeated chunk points to the entry of its first
  occurrence in the batch.
\<close>

definition core_ok :: "entry_heap \<Rightarrow> (two_path_status \<times> bytes \<times> recipe_entry \<times> u32) list \<Rightarrow> nat \<Rightarrow> bool" where
  "core_ok h ks i \<longleftrightarrow>
     (flag_of (ks ! i) = DUPLICATE \<longrightarrow> (\<exists>f. heap_content h (hash_of (ks ! i)) = Some (addr_of (ks ! i), f))) \<and>
     (\<not> primary (flag_of (ks ! i)) \<longrightarrow>
        (let j = unat (re_offset (addr_of (ks ! i))) in
         j < i \<and> hash_of (ks ! j) = hash_of (ks ! i) \<and> primary (flag_of (ks ! j))))"

definition check_inv ::
  "enclave_cfg \<Rightarrow> entry_heap \<Rightarrow> (two_path_status \<times> bytes \<times> recipe_entry \<times> u32) list \<Rightarrow> (bytes \<rightharpoonup> nat) \<Rightarrow>
   out_query_entry list \<Rightarrow> bool" where
  "check_inv C h ks li qs \<longleftrightarrow>
     (\<forall>i < length ks. core_ok h ks i) \<and>
     (\<forall>fp j. li fp = Some j \<longleftrightarrow> j < length ks \<and> hash_of (ks ! j) = fp \<and> primary (flag_of (ks ! j))) \<and>
     map oq_chunkHash qs = map (\<lambda>k. cmc_fp C (hash_of k)) (filter (\<lambda>k. flag_of k = UNIQUE) ks)"

lemma core_ok_append: "i < length ks \<Longrightarrow> core_ok h ks i \<Longrightarrow> core_ok h (ks @ ks') i"
  by (auto simp: core_ok_def nth_append Let_def)

lemma check_inv_new:
  assumes "check_inv C h ks li qs" and "li fp = None" and "primary f"
    and "f = DUPLICATE \<Longrightarrow> \<exists>g. heap_content h fp = Some (a, g) \<and> qs' = qs"
    and "f = UNIQUE \<Longrightarrow> map oq_chunkHash qs' = map oq_chunkHash qs @ [cmc_fp C fp]"
  shows "check_inv C h (ks @ [(f, fp, a, sz)]) (li(fp \<mapsto> length ks)) qs'"
proof -
  have 1: "core_ok h (ks @ [(f, fp, a, sz)]) i" if "i < length (ks @ [(f, fp, a, sz)])" for i
  proof (cases "i < length ks")
    case True
    then show ?thesis using assms(1) by (intro core_ok_append) (auto simp: check_inv_def)
  next
    case False
    then have "i = length ks" using that by simp
    then show ?thesis using assms(3,4) by (auto simp: core_ok_def)
  qed
  have li: "li fp' = Some j \<longleftrightarrow> j < length ks \<and> hash_of (ks ! j) = fp' \<and> primary (flag_of (ks ! j))" for fp' j
    using assms(1) by (simp add: check_inv_def)
  have none: "\<not> (hash_of (ks ! j) = fp \<and> primary (flag_of (ks ! j)))" if "j < length ks" for j
    using li [of fp j] assms(2) that by simp
  have 2: "(li(fp \<mapsto> length ks)) fp' = Some j \<longleftrightarrow> j < length (ks @ [(f, fp, a, sz)]) \<and>
      hash_of ((ks @ [(f, fp, a, sz)]) ! j) = fp' \<and> primary (flag_of ((ks @ [(f, fp, a, sz)]) ! j))" for fp' j
  proof (cases "j < length ks")
    case True
    then show ?thesis using li [of fp' j] none [OF True] by (auto simp: nth_append)
  next
    case False
    then show ?thesis using li [of fp' j] assms(3) by (auto simp: nth_append)
  qed
  have 3: "map oq_chunkHash qs' = map (\<lambda>k. cmc_fp C (hash_of k)) (filter (\<lambda>k. flag_of k = UNIQUE) (ks @ [(f, fp, a, sz)]))"
    using assms(1,3,4,5) by (auto simp: check_inv_def primary_def)
  from 1 2 3 show ?thesis unfolding check_inv_def by blast
qed

lemma check_inv_repeat:
  assumes "check_inv C h ks li qs" and "li fp = Some j" and "\<not> primary f" and "unat (re_offset a) = j"
  shows "check_inv C h (ks @ [(f, fp, a, sz)]) li qs"
proof -
  have j: "j < length ks" "hash_of (ks ! j) = fp" "primary (flag_of (ks ! j))"
    using assms(1,2) by (auto simp: check_inv_def)
  have 1: "core_ok h (ks @ [(f, fp, a, sz)]) i" if "i < length (ks @ [(f, fp, a, sz)])" for i
  proof (cases "i < length ks")
    case True
    then show ?thesis using assms(1) by (intro core_ok_append) (auto simp: check_inv_def)
  next
    case False
    then have "i = length ks" using that by simp
    then show ?thesis using assms(3,4) j by (auto simp: core_ok_def nth_append primary_def)
  qed
  have 2: "li fp' = Some j' \<longleftrightarrow> j' < length (ks @ [(f, fp, a, sz)]) \<and>
      hash_of ((ks @ [(f, fp, a, sz)]) ! j') = fp' \<and> primary (flag_of ((ks @ [(f, fp, a, sz)]) ! j'))" for fp' j'
    using assms(1,3) unfolding check_inv_def by (auto simp: nth_append less_Suc_eq)
  have 3: "map oq_chunkHash qs = map (\<lambda>k. cmc_fp C (hash_of k)) (filter (\<lambda>k. flag_of k = UNIQUE) (ks @ [(f, fp, a, sz)]))"
    using assms(1,3) by (auto simp: check_inv_def primary_def)
  from 1 2 3 show ?thesis unfolding check_inv_def by blast
qed

lemma Freq_query_ok:
  assumes "cfg_ok C" and "length (iq_chunkHash e) = CHUNK_HASH_SIZE"
  shows "\<exists>a q. Freq_query C e qs = Inr (e\<lparr>iq_dedupFlag := UNIQUE, iq_chunkAddr := a\<rparr>, qs @ [q]) \<and>
     oq_chunkHash q = cmc_fp C (iq_chunkHash e)"
  using cmc_fp_eq(1) [OF assms]
  by (intro exI [of _ "(iq_chunkAddr e)\<lparr>re_offset := of_nat (length qs)\<rparr>"]) (simp add: Freq_query_def)

text \<open>The phase never faults, keeps hashes and sizes, and establishes the invariant.\<close>

lemma Freq_check_ok:
  assumes C: "cfg_ok C" and inv: "check_inv C h (map core dn) li qs"
    and fps: "\<forall>e \<in> set es. length (iq_chunkHash e) = CHUNK_HASH_SIZE"
    and len: "length dn + length es < 2 ^ 32"
  shows "\<exists>dn' qs' li'. Freq_check C h minFreq dn li qs es = Inr (dn', qs') \<and>
     check_inv C h (map core dn') li' qs' \<and>
     map iq_chunkHash dn' = map iq_chunkHash dn @ map iq_chunkHash es \<and>
     map iq_chunkSize dn' = map iq_chunkSize dn @ map iq_chunkSize es"
  using inv fps len
proof (induction es arbitrary: dn li qs)
  case Nil
  then show ?case by auto
next
  case (Cons e es)
  let ?fp = "iq_chunkHash e"
  have fp: "length ?fp = CHUNK_HASH_SIZE" and fps: "\<forall>e \<in> set es. length (iq_chunkHash e) = CHUNK_HASH_SIZE"
    using Cons.prems by simp_all
  show ?case
  proof (cases "li ?fp")
    case (Some j)
    let ?d = "dn[j := (dn ! j)\<lparr>iq_chunkFreq := iq_chunkFreq e\<rparr>]"
    have j: "j < length dn" "primary (iq_dedupFlag (dn ! j))"
      using Cons.prems(1) Some by (auto simp: check_inv_def core_def)
    have "\<exists>f. Freq_repeat (iq_dedupFlag (dn ! j)) = Inr f \<and> \<not> primary f"
      using j(2) by (auto simp: primary_def Freq_repeat_def)
    then obtain f where f: "Freq_repeat (iq_dedupFlag (dn ! j)) = Inr f" "\<not> primary f" by blast
    let ?e = "e\<lparr>iq_dedupFlag := f, iq_chunkAddr := (iq_chunkAddr e)\<lparr>re_offset := of_nat j\<rparr>\<rparr>"
    have cd: "map core ?d = map core dn" "map iq_chunkHash ?d = map iq_chunkHash dn"
        "map iq_chunkSize ?d = map iq_chunkSize dn"
      using j(1) by (simp_all add: map_update_same core_def)
    have "unat (of_nat j :: u32) = j" using j(1) Cons.prems(3) by (intro unat_of_nat_u32) simp
    then have "check_inv C h (map core (?d @ [?e])) li qs"
      using check_inv_repeat [OF Cons.prems(1) Some f(2), of "(iq_chunkAddr e)\<lparr>re_offset := of_nat j\<rparr>" "iq_chunkSize e"] cd(1)
      by simp
    from Cons.IH [OF this fps] Cons.prems(3) Some f(1) cd show ?thesis by (simp add: Let_def)
  next
    case None
    note new = check_inv_new [OF Cons.prems(1) None]
    show ?thesis
    proof (cases "iq_chunkFreq e < minFreq \<or> \<not> EntryHeap_Contains h ?fp")
      case True
      from Freq_query_ok [OF C fp, of qs] obtain a q where
        q: "Freq_query C e qs = Inr (e\<lparr>iq_dedupFlag := UNIQUE, iq_chunkAddr := a\<rparr>, qs @ [q])" "oq_chunkHash q = cmc_fp C ?fp"
        by blast
      have "check_inv C h (map core (dn @ [e\<lparr>iq_dedupFlag := UNIQUE, iq_chunkAddr := a\<rparr>])) (li(?fp \<mapsto> length dn)) (qs @ [q])"
        using new [of UNIQUE a "qs @ [q]" "iq_chunkSize e"] q(2) by (simp add: primary_def)
      note IH = Cons.IH [OF this fps]
      have "Freq_check C h minFreq dn li qs (e # es) = Freq_check C h minFreq
          (dn @ [e\<lparr>iq_dedupFlag := UNIQUE, iq_chunkAddr := a\<rparr>]) (li(?fp \<mapsto> length dn)) (qs @ [q]) es"
        using None q(1) True by auto
      then show ?thesis using IH Cons.prems(3) by (simp del: Freq_check.simps fun_upd_apply)
    next
      case False
      let ?a = "hi_address (fst (EntryHeap_GetPriority h ?fp))"
      have "\<exists>g. heap_content h ?fp = Some (?a, g)"
        using False by (auto simp: EntryHeap_Contains_def EntryHeap_GetPriority_def index_ref_def heap_content_def)
      then have "check_inv C h (map core (dn @ [e\<lparr>iq_dedupFlag := DUPLICATE, iq_chunkAddr := ?a\<rparr>])) (li(?fp \<mapsto> length dn)) qs"
        using new [of DUPLICATE ?a qs "iq_chunkSize e"] by (simp add: primary_def)
      note IH = Cons.IH [OF this fps]
      have "Freq_check C h minFreq dn li qs (e # es) = Freq_check C h minFreq
          (dn @ [e\<lparr>iq_dedupFlag := DUPLICATE, iq_chunkAddr := ?a\<rparr>]) (li(?fp \<mapsto> length dn)) qs es"
        using None False by (auto simp: Let_def)
      then show ?thesis using IH Cons.prems(3) by (simp del: Freq_check.simps fun_upd_apply)
    qed
  qed
qed

section \<open>The answers of the out-of-enclave index\<close>

definition asked :: "enclave_cfg \<Rightarrow> index_map \<Rightarrow> bytes \<Rightarrow> out_query_entry \<Rightarrow> bool" where
  "asked C db fp q \<longleftrightarrow> oq_chunkHash q = cmc_fp C fp \<and>
     (case db (cmc_fp C fp) of
        Some v \<Rightarrow> oq_dedupFlag q = DUPLICATE \<and> oq_chunkAddr q = take RecipeEntry_size v
      | None \<Rightarrow> oq_dedupFlag q = UNIQUE)"

lemma QueryOutIndex_answers:
  assumes C: "cfg_ok C" and "map oq_chunkHash qs = map (cmc_fp C) fps"
    and "\<forall>fp \<in> set fps. length fp = CHUNK_HASH_SIZE"
  shows "list_all2 (asked C db) fps (Ocall_QueryOutIndex_loop db tmp qs)"
  using assms(2,3)
proof (induction qs arbitrary: fps tmp)
  case Nil
  then show ?case by simp
next
  case (Cons q qs)
  then obtain fp fps' where f: "fps = fp # fps'" "oq_chunkHash q = cmc_fp C fp" "map oq_chunkHash qs = map (cmc_fp C) fps'"
    by (cases fps) auto
  have l: "length (cmc_fp C fp) = CHUNK_HASH_SIZE" using cmc_fp_eq(2) [OF C] Cons.prems(2) f(1) by simp
  show ?case
    using Cons.IH [OF f(3)] Cons.prems(2) f l
    by (auto simp: Let_def InMemoryDatabase_QueryBuffer_def asked_def split: option.splits)
qed

end
