(* ===== verification/FreqUpload.thy ===== *)
theory FreqUpload
  imports FreqCheck
begin

text \<open>
  The second half of a batch of the frequency-based index (storing the new chunks, the recipe, the
  update of both indexes), and with it a whole upload: an interpretation of \<open>dedup_index\<close>.
\<close>

section \<open>Addresses of fingerprints\<close>

definition at_fp :: "enclave_cfg \<Rightarrow> up_state \<Rightarrow> bytes \<Rightarrow> recipe_entry \<Rightarrow> bool" where
  "at_fp C s fp a \<longleftrightarrow> wf_entry a \<and> (\<exists>d. resolve C s a = Some d \<and> chunk_fp C d = fp)"

lemma at_fp_extends: "at_fp C s fp a \<Longrightarrow> extends s s' \<Longrightarrow> at_fp C s' fp a"
  by (auto simp: at_fp_def intro: extends_resolve)

lemma at_fp_leads_to: "at_fp C s (chunk_fp C d) a \<longleftrightarrow> leads_to C s [a] [d]"
  by (simp add: at_fp_def leads_to_def)

abbreviation cbc_enc :: "enclave_cfg \<Rightarrow> bytes \<Rightarrow> bytes res" where
  "cbc_enc C x \<equiv> AESCBCEnc (cfg_evp C) (cfg_tool C) x (indexQueryKey C)"

abbreviation cbc_dec :: "enclave_cfg \<Rightarrow> bytes \<Rightarrow> bytes res" where
  "cbc_dec C x \<equiv> AESCBCDec (cfg_evp C) (cfg_tool C) x (indexQueryKey C)"

lemma addr_cipher_cbc: "cfg_ok C \<Longrightarrow> addr_cipher (cbc_enc C) (cbc_dec C)"
proof -
  assume C: "cfg_ok C"
  have "\<exists>y. cbc_enc C (RecipeEntry_bytes a) = Inr y \<and> length y = RecipeEntry_size \<and>
      cbc_dec C y = Inr (RecipeEntry_bytes a)" if "wf_entry a" for a
  proof -
    have "block_good (cfg_evp C) (cfg_tool C) (indexQueryKey C) (RecipeEntry_bytes a)"
      using C that by (simp add: block_good_def cfg_ok_def const_defs)
    from cbc.roundtrip [OF this] that show ?thesis by simp
  qed
  then show ?thesis by (simp add: addr_cipher_def)
qed

text \<open>
  The state between two batches: room for \<open>n\<close> more chunks; every address in the out-of-enclave index
  and in the top-k index leads to a chunk with the fingerprint it is stored under.
\<close>

definition db_ok :: "enclave_cfg \<Rightarrow> up_state \<Rightarrow> index_map \<Rightarrow> bool" where
  "db_ok C s db \<longleftrightarrow> values_ok (cbc_enc C) db \<and>
     (\<forall>fp a. out_lookup C (cbc_dec C) db fp = Some a \<longrightarrow> at_fp C s fp a)"

definition heap_ok :: "enclave_cfg \<Rightarrow> up_state \<Rightarrow> entry_heap \<Rightarrow> bool" where
  "heap_ok C s h \<longleftrightarrow> EntryHeap_inv h \<and> EntryHeap_Size h \<le> topKParam C \<and>
     (\<forall>fp a f. heap_content h fp = Some (a, f) \<longrightarrow> at_fp C s fp a)"

definition freq_inv :: "enclave_cfg \<Rightarrow> nat \<Rightarrow> freq_state \<Rightarrow> bool" where
  "freq_inv C n st \<longleftrightarrow> 2 \<le> topKParam C \<and> topKParam C < heap_bound \<and> store_inv C n (snd st) \<and>
     localIndex (sgx (snd st)) = Map.empty \<and>
     db_ok C (snd st) (indexStore (store (snd st))) \<and> heap_ok C (snd st) (insideDedupIndex (fst st))"

lemma db_ok_extends: "db_ok C s db \<Longrightarrow> extends s s' \<Longrightarrow> db_ok C s' db"
  by (auto simp: db_ok_def intro: at_fp_extends)

lemma heap_ok_extends: "heap_ok C s h \<Longrightarrow> extends s s' \<Longrightarrow> heap_ok C s' h"
  by (auto simp: heap_ok_def intro: at_fp_extends)

section \<open>One unique chunk\<close>

text \<open>A query that was answered \<open>UNIQUE\<close> holds the encrypted address of the chunk that was stored.\<close>

definition filled :: "enclave_cfg \<Rightarrow> up_state \<Rightarrow> out_query_entry \<Rightarrow> bool" where
  "filled C s q \<longleftrightarrow> (oq_dedupFlag q = UNIQUE \<longrightarrow>
     (\<exists>fp a. length fp = CHUNK_HASH_SIZE \<and> oq_chunkHash q = cmc_fp C fp \<and> at_fp C s fp a \<and>
        cbc_enc C (RecipeEntry_bytes a) = Inr (oq_chunkAddr q)))"

lemma filled_extends: "filled C s q \<Longrightarrow> extends s s' \<Longrightarrow> filled C s' q"
  by (auto simp: filled_def intro: at_fp_extends)

lemma Freq_unique_ok:
  assumes inv: "store_inv C (Suc n) s" and db: "db_ok C s db" and q: "asked C db (chunk_fp C d) q"
    and d: "chunk_ok C d"
  shows "\<exists>a q' s'. Freq_unique C d q s = Inr (a, q', s') \<and> store_inv C n s' \<and> extends s s' \<and>
     at_fp C s' (chunk_fp C d) a \<and> filled C s' q' \<and> keeps s s' \<and> indexStore (store s') = indexStore (store s) \<and>
     localIndex (sgx s') = localIndex (sgx s)"
proof -
  let ?fp = "chunk_fp C d"
  have C: "cfg_ok C" using inv by (simp add: store_inv_def)
  note ac = addr_cipher_cbc [OF C] and fp = chunk_fp_eq(2) [OF C, of d]
  show ?thesis
  proof (cases "db (cmc_fp C ?fp)")
    case None
    from ProcessUniqueChunk_ok [OF inv d] obtain a s1 where
      s1: "ProcessUniqueChunk C d s = Inr (a, s1)" "store_inv C n s1" "extends s s1"
        "resolve C s1 a = Some d" "wf_entry a" "same_rest s s1"
      by blast
    from ac s1(5) obtain y where y: "cbc_enc C (RecipeEntry_bytes a) = Inr y" by (auto simp: addr_cipher_def)
    let ?s2 = "count_unique (length d) s1"
    have sc: "same_containers s1 ?s2" by (simp add: same_containers_def count_unique_def)
    note v = same_containers_views [OF sc]
    have at: "at_fp C ?s2 ?fp a" using s1(4,5) v(2) by (auto simp: at_fp_def)
    moreover have "filled C ?s2 (q\<lparr>oq_chunkAddr := y\<rparr>)"
      unfolding filled_def using at y q fp by (auto simp: asked_def intro: exI [of _ ?fp])
    moreover have "Freq_unique C d q s = Inr (a, q\<lparr>oq_chunkAddr := y\<rparr>, ?s2)"
      using q None s1(1) y by (simp add: Freq_unique_def asked_def)
    moreover have "keeps s ?s2" "indexStore (store ?s2) = indexStore (store s)" "localIndex (sgx ?s2) = localIndex (sgx s)"
      using s1(6) by (simp_all add: keeps_def same_rest_def count_unique_def)
    ultimately show ?thesis using s1(2) v(3) extends_trans [OF s1(3) v(4)] by blast
  next
    case (Some v)
    from db have "values_ok (cbc_enc C) db" by (simp add: db_ok_def)
    from out_lookup_hit [OF ac this fp Some] obtain a where a: "wf_entry a" "length v = RecipeEntry_size"
        "cbc_dec C v = Inr (RecipeEntry_bytes a)" "out_lookup C (cbc_dec C) db ?fp = Some a"
      by blast
    have "Freq_unique C d q s = Inr (a, q, s)"
      using q Some a by (simp add: Freq_unique_def asked_def)
    moreover have "at_fp C s ?fp a" using db a(4) by (simp add: db_ok_def)
    moreover have "store_inv C n s" using inv fresh_ids_Suc(2) by (auto simp: store_inv_def)
    moreover have "filled C s q" using q Some by (simp add: asked_def filled_def)
    ultimately show ?thesis by (auto simp: keeps_def)
  qed
qed

section \<open>One entry\<close>

text \<open>What the earlier phases leave for an entry: its address, its query or an earlier entry.\<close>

definition ready :: "enclave_cfg \<Rightarrow> entry_heap \<Rightarrow> index_map \<Rightarrow> in_query_entry list \<Rightarrow> out_query_entry list \<Rightarrow> in_query_entry \<Rightarrow> bool" where
  "ready C h db dn qs e \<longleftrightarrow>
     (iq_dedupFlag e = DUPLICATE \<longrightarrow> (\<exists>f. heap_content h (iq_chunkHash e) = Some (iq_chunkAddr e, f))) \<and>
     (iq_dedupFlag e = UNIQUE \<longrightarrow> qs \<noteq> [] \<and> asked C db (iq_chunkHash e) (hd qs)) \<and>
     (\<not> primary (iq_dedupFlag e) \<longrightarrow>
        (let j = unat (re_offset (iq_chunkAddr e)) in
         j < length dn \<and> iq_chunkHash (dn ! j) = iq_chunkHash e \<and> primary (iq_dedupFlag (dn ! j))))"

definition entry_done :: "enclave_cfg \<Rightarrow> up_state \<Rightarrow> in_query_entry \<Rightarrow> bool" where
  "entry_done C s e \<longleftrightarrow> (primary (iq_dedupFlag e) \<longrightarrow> at_fp C s (iq_chunkHash e) (iq_chunkAddr e))"

lemma entry_done_extends: "entry_done C s e \<Longrightarrow> extends s s' \<Longrightarrow> entry_done C s' e"
  by (auto simp: entry_done_def intro: at_fp_extends)

definition entry_id :: "in_query_entry \<Rightarrow> two_path_status \<times> bytes" where
  "entry_id e = (iq_dedupFlag e, iq_chunkHash e)"

lemma Freq_entry_ok:
  assumes inv: "store_inv C (Suc n) s" and db: "db_ok C s db" and h: "heap_ok C s h"
    and dn: "\<forall>e \<in> set dn. entry_done C s e" and r: "ready C h db dn qs e"
    and e: "iq_chunkHash e = chunk_fp C d" and d: "chunk_ok C d"
  shows "\<exists>e' a used x' s'. Freq_entry C d dn qs e (x, s) =
       Inr (e', a, used, if iq_dedupFlag e = UNIQUE then tl qs else qs, x', s') \<and>
     store_inv C n s' \<and> extends s s' \<and> at_fp C s' (chunk_fp C d) a \<and> entry_done C s' e' \<and>
     (\<forall>q \<in> set used. filled C s' q) \<and> keeps s s' \<and> indexStore (store s') = indexStore (store s) \<and>
     insideDedupIndex x' = insideDedupIndex x \<and> cmSketch x' = cmSketch x \<and> entry_id e' = entry_id e"
proof -
  have inv': "store_inv C n s" using inv fresh_ids_Suc(2) by (auto simp: store_inv_def)
  have k: "keeps s s" by (simp add: keeps_def)
  show ?thesis
  proof (cases "iq_dedupFlag e = UNIQUE")
    case True
    then obtain q qs' where q: "qs = q # qs'" "asked C db (chunk_fp C d) q"
      using r e by (cases qs) (auto simp: ready_def)
    from Freq_unique_ok [OF inv db q(2) d] obtain a q' s' where
      s': "Freq_unique C d q s = Inr (a, q', s')" "store_inv C n s'" "extends s s'"
        "at_fp C s' (chunk_fp C d) a" "filled C s' q'" "keeps s s'" "indexStore (store s') = indexStore (store s)"
      by blast
    have "Freq_entry C d dn qs e (x, s) = Inr (e\<lparr>iq_chunkAddr := a\<rparr>, a, [q'], qs', x, s')"
      using True q(1) s'(1) by (simp add: Freq_entry_def)
    moreover have "entry_done C s' (e\<lparr>iq_chunkAddr := a\<rparr>)" using s'(4) e by (simp add: entry_done_def)
    ultimately show ?thesis using True q(1) s' by (force simp: entry_id_def)
  next
    case nu: False
    let ?a = "if iq_dedupFlag e = DUPLICATE then iq_chunkAddr e else iq_chunkAddr (dn ! unat (re_offset (iq_chunkAddr e)))"
    have at: "at_fp C s (chunk_fp C d) ?a"
    proof (cases "iq_dedupFlag e = DUPLICATE")
      case True
      then show ?thesis using r h e by (auto simp: ready_def heap_ok_def)
    next
      case False
      let ?j = "unat (re_offset (iq_chunkAddr e))"
      have "\<not> primary (iq_dedupFlag e)" using nu False by (simp add: primary_def)
      then have "?j < length dn" "iq_chunkHash (dn ! ?j) = chunk_fp C d" "primary (iq_dedupFlag (dn ! ?j))"
        using r e by (simp_all add: ready_def Let_def)
      then show ?thesis using dn False nth_mem by (fastforce simp: entry_done_def)
    qed
    have "Freq_entry C d dn qs e (x, s) = Inr (e, ?a, [], qs, count_inside (iq_chunkSize e) x, s)"
      using nu by (cases "iq_dedupFlag e") (simp_all add: Freq_entry_def)
    moreover have "entry_done C s e"
      using at nu e by (auto simp: entry_done_def primary_def)
    ultimately show ?thesis using nu inv' at k by (auto simp: count_inside_def)
  qed
qed

section \<open>The loop over the entries\<close>

definition proc_inv ::
  "enclave_cfg \<Rightarrow> entry_heap \<Rightarrow> index_map \<Rightarrow> recipe_id \<Rightarrow> nat \<Rightarrow> in_query_entry list \<Rightarrow> out_query_entry list \<Rightarrow>
   up_state \<Rightarrow> recipe_entry list \<Rightarrow> bytes list \<Rightarrow> bool" where
  "proc_inv C h db h0 n dn qd s as ds \<longleftrightarrow>
     store_inv C n s \<and> indexStore (store s) = db \<and> db_ok C s db \<and> heap_ok C s h \<and>
     recipe_of C s h0 (map RecipeEntry_bytes as) \<and> leads_to C s as ds \<and>
     (\<forall>e \<in> set dn. entry_done C s e) \<and> (\<forall>q \<in> set qd. filled C s q)"

lemma Freq_step_ok:
  assumes P: "proc_inv C h db h0 (Suc n) dn qd s as ds" and r: "ready C h db dn qs e"
    and e: "iq_chunkHash e = chunk_fp C d" "iq_chunkSize e = of_nat (length d)" and d: "chunk_ok C d"
    and b: "recvBuffer (sgx s) = pre @ encode_chunk d @ post"
  shows "\<exists>e' a used x' s'. Freq_process C dn qd qs (length pre) (e # es) (x, s) =
       Freq_process C (dn @ [e']) (qd @ used) (if iq_dedupFlag e = UNIQUE then tl qs else qs)
         (length (pre @ encode_chunk d)) es (x', s') \<and>
     proc_inv C h db h0 n (dn @ [e']) (qd @ used) s' (as @ [a]) (ds @ [d]) \<and>
     recvBuffer (sgx s') = recvBuffer (sgx s) \<and> sessionKey (sgx s') = sessionKey (sgx s) \<and>
     insideDedupIndex x' = insideDedupIndex x \<and> cmSketch x' = cmSketch x \<and> entry_id e' = entry_id e \<and> extends s s'"
proof -
  from P have inv: "store_inv C (Suc n) s" and ix: "indexStore (store s) = db" and db: "db_ok C s db"
    and h: "heap_ok C s h" and rc: "recipe_of C s h0 (map RecipeEntry_bytes as)" and ld: "leads_to C s as ds"
    and dn: "\<forall>e \<in> set dn. entry_done C s e" and qd: "\<forall>q \<in> set qd. filled C s q"
    by (simp_all add: proc_inv_def)
  have C: "cfg_ok C" using inv by (simp add: store_inv_def)
  from Freq_entry_ok [OF inv db h dn r e(1) d, of x] obtain e' a used x' s1 where
    s1: "Freq_entry C d dn qs e (x, s) = Inr (e', a, used, if iq_dedupFlag e = UNIQUE then tl qs else qs, x', s1)"
      "store_inv C n s1" "extends s s1" "at_fp C s1 (chunk_fp C d) a" "entry_done C s1 e'"
      "\<forall>q \<in> set used. filled C s1 q" "keeps s s1" "indexStore (store s1) = indexStore (store s)"
      "insideDedupIndex x' = insideDedupIndex x" "cmSketch x' = cmSketch x" "entry_id e' = entry_id e"
    by blast
  have wf: "wf_entry a" using s1(4) by (simp add: at_fp_def)
  from UpdateFileRecipe_ok [OF C recipe_of_keeps [OF s1(7) rc] length_RecipeEntry_bytes [OF wf]] obtain s2 where
    s2: "UpdateFileRecipe C (RecipeEntry_bytes a) s1 = Inr s2" "same_store s1 s2"
      "recipe_of C s2 h0 (map RecipeEntry_bytes as @ [RecipeEntry_bytes a])"
    by blast
  have "length d < 2 ^ 32" using d by (simp add: chunk_ok_def const_defs)
  then have sz: "unat (iq_chunkSize e) = length d" using e(2) by (simp add: unat_of_nat_u32)
  have rd: "read_at (recvBuffer (sgx s)) (length pre + 4) (length d) = d"
    unfolding b by (simp add: read_at_def encode_chunk_def)
  let ?s3 = "count_logical (length d) s2"
  have sc: "same_containers s1 ?s3" using s2(2) by (simp add: same_containers_def same_store_def count_logical_def)
  note v = same_containers_views [OF sc]
  have ext: "extends s ?s3" by (rule extends_trans [OF s1(3) v(4)])
  have "leads_to C ?s3 (as @ [a]) (ds @ [d])"
    using leads_to_extends [OF ld ext] at_fp_extends [OF s1(4) v(4)] at_fp_leads_to leads_to_append by blast
  moreover have "recipe_of C ?s3 h0 (map RecipeEntry_bytes (as @ [a]))"
    using s2(3) by (auto simp: recipe_of_def recipe_rep_def count_logical_def)
  moreover have "indexStore (store ?s3) = db"
    using s1(8) s2(2) ix by (simp add: same_store_def count_logical_def)
  moreover have "\<forall>e \<in> set (dn @ [e']). entry_done C ?s3 e" "\<forall>q \<in> set (qd @ used). filled C ?s3 q"
    using dn qd s1(5,6) entry_done_extends [OF _ ext] entry_done_extends [OF _ v(4)]
      filled_extends [OF _ ext] filled_extends [OF _ v(4)] by auto
  ultimately have "proc_inv C h db h0 n (dn @ [e']) (qd @ used) ?s3 (as @ [a]) (ds @ [d])"
    using s1(2) v(3) db_ok_extends [OF db ext] heap_ok_extends [OF h ext] by (simp add: proc_inv_def)
  moreover have "Freq_process C dn qd qs (length pre) (e # es) (x, s) =
       Freq_process C (dn @ [e']) (qd @ used) (if iq_dedupFlag e = UNIQUE then tl qs else qs)
         (length (pre @ encode_chunk d)) es (x', ?s3)"
    using sz rd s1(1) s2(1) by (simp add: Let_def encode_chunk_def add.assoc)
  moreover have "recvBuffer (sgx ?s3) = recvBuffer (sgx s)" "sessionKey (sgx ?s3) = sessionKey (sgx s)"
    using s1(7) s2(2) by (simp_all add: keeps_def same_store_def count_logical_def)
  ultimately show ?thesis using s1(9-11) ext by blast
qed

text \<open>The queries that the rest \<open>es\<close> of the entries will use.\<close>

definition queries_for :: "enclave_cfg \<Rightarrow> index_map \<Rightarrow> in_query_entry list \<Rightarrow> out_query_entry list \<Rightarrow> bool" where
  "queries_for C db es qs \<longleftrightarrow>
     list_all2 (asked C db) (map iq_chunkHash (filter (\<lambda>e. iq_dedupFlag e = UNIQUE) es)) qs"

lemma ready_next:
  assumes ks: "core_ok h (map core dn0 @ core e # ks) (length dn0)" and dn: "map entry_id dn = map entry_id dn0"
    and q: "queries_for C db (e # es) qs"
  shows "ready C h db dn qs e"
    and "queries_for C db es (if iq_dedupFlag e = UNIQUE then tl qs else qs)"
proof -
  have len: "length dn = length dn0" using dn by (rule map_eq_imp_length_eq)
  have id: "iq_dedupFlag (dn ! j) = iq_dedupFlag (dn0 ! j)" "iq_chunkHash (dn ! j) = iq_chunkHash (dn0 ! j)"
    if "j < length dn0" for j
    using arg_cong [OF dn, of "\<lambda>l. l ! j"] that len by (simp_all add: entry_id_def)
  show "ready C h db dn qs e"
    using ks q id len
    by (auto simp: core_ok_def ready_def core_def nth_append Let_def queries_for_def list_all2_Cons1)
  show "queries_for C db es (if iq_dedupFlag e = UNIQUE then tl qs else qs)"
    using q by (auto simp: queries_for_def list_all2_Cons1)
qed

lemma Freq_process_ok:
  assumes "\<forall>i < length (map core (dn0 @ es)). core_ok h (map core (dn0 @ es)) i"
    and "map entry_id dn = map entry_id dn0" and "queries_for C db es qs" and "entries_for C cs es"
    and "\<forall>d \<in> set cs. chunk_ok C d" and "recvBuffer (sgx s) = pre @ encode_chunks cs @ post"
    and "proc_inv C h db h0 (length cs + n) dn qd s as ds"
  shows "\<exists>dn' qd' x' s' bs. Freq_process C dn qd qs (length pre) es (x, s) = Inr (dn', qd', x', s') \<and>
     proc_inv C h db h0 n dn' qd' s' (as @ bs) (ds @ cs) \<and> sessionKey (sgx s') = sessionKey (sgx s) \<and>
     insideDedupIndex x' = insideDedupIndex x \<and> cmSketch x' = cmSketch x \<and> extends s s'"
  using assms
proof (induction es arbitrary: dn0 dn qs cs pre qd s as ds x)
  case Nil
  then have "qs = []" "cs = []" by (simp_all add: queries_for_def entries_for_def)
  with Nil.prems show ?case by (auto intro: exI [of _ "[]"])
next
  case (Cons e es)
  from Cons.prems(4) obtain d cs' where cs: "cs = d # cs'" "iq_chunkHash e = chunk_fp C d"
      "iq_chunkSize e = of_nat (length d)" "entries_for C cs' es"
    by (cases cs) (auto simp: entries_for_def)
  have d: "chunk_ok C d" "\<forall>d \<in> set cs'. chunk_ok C d" using Cons.prems(5) cs(1) by simp_all
  have "core_ok h (map core dn0 @ core e # map core es) (length dn0)" using Cons.prems(1) by simp
  note rn = ready_next [OF this Cons.prems(2,3)]
  have P: "proc_inv C h db h0 (Suc (length cs' + n)) dn qd s as ds" using Cons.prems(7) cs(1) by simp
  have b: "recvBuffer (sgx s) = pre @ encode_chunk d @ (encode_chunks cs' @ post)" using Cons.prems(6) cs(1) by simp
  let ?qs = "if iq_dedupFlag e = UNIQUE then tl qs else qs"
  from Freq_step_ok [OF P rn(1) cs(2,3) d(1) b, of es x] obtain e' a used x1 s1 where
    1: "Freq_process C dn qd qs (length pre) (e # es) (x, s) =
        Freq_process C (dn @ [e']) (qd @ used) ?qs (length (pre @ encode_chunk d)) es (x1, s1)"
      "proc_inv C h db h0 (length cs' + n) (dn @ [e']) (qd @ used) s1 (as @ [a]) (ds @ [d])"
      "recvBuffer (sgx s1) = recvBuffer (sgx s)" "sessionKey (sgx s1) = sessionKey (sgx s)"
      "insideDedupIndex x1 = insideDedupIndex x" "cmSketch x1 = cmSketch x" "entry_id e' = entry_id e" "extends s s1"
    by blast
  have ks: "\<forall>i < length (map core ((dn0 @ [e]) @ es)). core_ok h (map core ((dn0 @ [e]) @ es)) i"
    using Cons.prems(1) by simp
  have id: "map entry_id (dn @ [e']) = map entry_id (dn0 @ [e])" using Cons.prems(2) 1(7) by simp
  have b1: "recvBuffer (sgx s1) = (pre @ encode_chunk d) @ encode_chunks cs' @ post" using 1(3) b by simp
  from Cons.IH [OF ks id rn(2) cs(4) d(2) b1 1(2), of x1] obtain dn' qd' x' s' bs where
    "Freq_process C (dn @ [e']) (qd @ used) ?qs (length (pre @ encode_chunk d)) es (x1, s1) = Inr (dn', qd', x', s')"
    "proc_inv C h db h0 n dn' qd' s' ((as @ [a]) @ bs) ((ds @ [d]) @ cs')" "sessionKey (sgx s') = sessionKey (sgx s1)"
    "insideDedupIndex x' = insideDedupIndex x1" "cmSketch x' = cmSketch x1" "extends s1 s'"
    by blast
  with 1 cs(1) extends_trans [OF 1(8)] show ?case
    by (intro exI [of _ dn'] exI [of _ qd'] exI [of _ x'] exI [of _ s'] exI [of _ "a # bs"]) simp
qed

section \<open>Updating the indexes\<close>

lemma UpdateOutIndex_ok:
  assumes C: "cfg_ok C" and "db_ok C s db" and "\<forall>q \<in> set qs. filled C s q"
  shows "db_ok C s (foldl (\<lambda>db e. if oq_dedupFlag e = UNIQUE
      then snd (InMemoryDatabase_InsertBothBuffer db (oq_chunkHash e) CHUNK_HASH_SIZE (oq_chunkAddr e) RecipeEntry_size)
      else db) db qs)"
  using assms(2,3)
proof (induction qs arbitrary: db)
  case Nil
  then show ?case by simp
next
  case (Cons q qs)
  show ?case
  proof (cases "oq_dedupFlag q = UNIQUE")
    case True
    then obtain fp a where fa: "length fp = CHUNK_HASH_SIZE" "oq_chunkHash q = cmc_fp C fp" "at_fp C s fp a"
        "cbc_enc C (RecipeEntry_bytes a) = Inr (oq_chunkAddr q)"
      using Cons.prems(2) by (auto simp: filled_def)
    have wf: "wf_entry a" using fa(3) by (simp add: at_fp_def)
    note ac = addr_cipher_cbc [OF C]
    have l: "length (oq_chunkAddr q) = RecipeEntry_size" using ac wf fa(4) by (auto simp: addr_cipher_def)
    have "values_ok (cbc_enc C) db" using Cons.prems(1) by (simp add: db_ok_def)
    note ins = out_lookup_insert [OF C ac this fa(1) wf fa(4)]
    have "db_ok C s (db(cmc_fp C fp \<mapsto> oq_chunkAddr q))"
      using Cons.prems(1) ins(2) fa(3) unfolding db_ok_def ins(1) by simp
    moreover have "snd (InMemoryDatabase_InsertBothBuffer db (oq_chunkHash q) CHUNK_HASH_SIZE (oq_chunkAddr q) RecipeEntry_size)
        = db(cmc_fp C fp \<mapsto> oq_chunkAddr q)"
      using fa(2) cmc_fp_eq(2) [OF C fa(1)] l by (simp add: InMemoryDatabase_InsertBothBuffer_def)
    ultimately show ?thesis using Cons.IH Cons.prems(2) True by simp
  next
    case False
    then show ?thesis using Cons by simp
  qed
qed

lemma EntryHeap_Contains_content: "EntryHeap_Contains h fp \<longleftrightarrow> heap_content h fp \<noteq> None"
  by (auto simp: EntryHeap_Contains_def heap_content_def)

lemma EntryHeap_TopEntry_nonempty:
  assumes "EntryHeap_inv h" and "0 < EntryHeap_Size h"
  shows "\<exists>m. EntryHeap_TopEntry h = Inr m"
proof -
  have "dom (heap_content h) \<noteq> {}"
    using assms entry_heap.size_card [OF assms(1)] by (metis card.empty less_numeral_extra(3))
  then obtain k where "k \<in> dom (heap_content h)" by blast
  then obtain a f where "heap_content h k = Some (a, f)" by auto
  then show ?thesis using entry_heap.top_least [OF assms(1)] by blast
qed

lemma AddChunkToHeap_ok:
  assumes h: "heap_ok C s h" and K: "2 \<le> topKParam C" "topKParam C < heap_bound"
    and new: "heap_content h fp = None" and a: "at_fp C s fp a"
  shows "\<exists>h'. AddChunkToHeap C f a fp h = Inr h' \<and> heap_ok C s h' \<and> heap_content h' fp = Some (a, f)"
proof -
  have i: "EntryHeap_inv h" "EntryHeap_Size h \<le> topKParam C" using h by (simp_all add: heap_ok_def)
  from entry_heap.evict_add [OF i(1) new K i(2), of "\<lparr>hi_address = a, chunkFreq = f, hi_idx = 0\<rparr>"] obtain h' where
    h': "AddChunkToHeap C f a fp h = Inr h'" "EntryHeap_inv h'" "EntryHeap_Size h' \<le> topKParam C"
      "heap_content h' fp = Some (a, f)"
      "\<forall>j. j \<noteq> fp \<longrightarrow> heap_content h' j = heap_content h j \<or> heap_content h' j = None"
    unfolding AddChunkToHeap_def by fastforce
  have "at_fp C s k b" if "heap_content h' k = Some (b, g)" for k b g
  proof (cases "k = fp")
    case True
    then show ?thesis using that h'(4) a by simp
  next
    case False
    then have "heap_content h k = Some (b, g)" using h'(5) that by (metis option.distinct(1))
    then show ?thesis using h by (auto simp: heap_ok_def)
  qed
  with h' show ?thesis by (auto simp: heap_ok_def)
qed

lemma Freq_heap_entry_ok:
  assumes h: "heap_ok C s h" and K: "2 \<le> topKParam C" "topKParam C < heap_bound" and e: "entry_done C s e"
  shows "\<exists>h'. Freq_heap_entry C e h = Inr h' \<and> heap_ok C s h'"
proof (cases "primary (iq_dedupFlag e)")
  case True
  let ?fp = "iq_chunkHash e"
  have i: "EntryHeap_inv h" using h by (simp add: heap_ok_def)
  have at: "at_fp C s ?fp (iq_chunkAddr e)" using e True by (simp add: entry_done_def)
  have "\<exists>ok. CheckIfAddToHeap C (iq_chunkFreq e) h = Inr ok"
    using EntryHeap_TopEntry_nonempty [OF i] K(1) by (auto simp: CheckIfAddToHeap_def)
  then obtain ok where ok: "CheckIfAddToHeap C (iq_chunkFreq e) h = Inr ok" ..
  have step: "Freq_heap_entry C e h =
     (if ok then if EntryHeap_Contains h ?fp then EntryHeap_Update h ?fp (iq_chunkFreq e)
        else AddChunkToHeap C (iq_chunkFreq e) (iq_chunkAddr e) ?fp h else Inr h)"
    using True ok by (auto simp: Freq_heap_entry_def primary_def UpdateInsideIndexFreq_def)
  show ?thesis
  proof (cases "heap_content h ?fp")
    case None
    from AddChunkToHeap_ok [OF h K None at, of "iq_chunkFreq e"] show ?thesis
      using h None by (auto simp: step EntryHeap_Contains_content)
  next
    case (Some af)
    obtain a f0 where af: "af = (a, f0)" by (cases af)
    from EntryHeap_Update_ok [OF i, of ?fp a f0 "iq_chunkFreq e"] Some af obtain h' where
      h': "EntryHeap_Update h ?fp (iq_chunkFreq e) = Inr h'" "EntryHeap_inv h'"
        "heap_content h' = (heap_content h)(?fp \<mapsto> (a, iq_chunkFreq e))"
      by auto
    have "dom (heap_content h') = dom (heap_content h)" using h'(3) Some by auto
    then have "EntryHeap_Size h' = EntryHeap_Size h"
      using entry_heap.size_card i h'(2) by simp
    then have "heap_ok C s h'" using h h'(2,3) Some af by (auto simp: heap_ok_def)
    then show ?thesis using h h'(1) Some by (auto simp: step EntryHeap_Contains_content)
  qed
next
  case False
  then show ?thesis using h by (auto simp: Freq_heap_entry_def primary_def)
qed

lemma Freq_heap_update_ok:
  assumes "2 \<le> topKParam C" and "topKParam C < heap_bound" and "heap_ok C s h" and "\<forall>e \<in> set es. entry_done C s e"
  shows "\<exists>h'. rfold (Freq_heap_entry C) es h = Inr h' \<and> heap_ok C s h'"
  using assms(3,4)
proof (induction es arbitrary: h)
  case Nil
  then show ?case by simp
next
  case (Cons e es)
  from Freq_heap_entry_ok [OF Cons.prems(1) assms(1,2), of e] Cons.prems(2) obtain h1 where
    "Freq_heap_entry C e h = Inr h1" "heap_ok C s h1"
    by auto
  with Cons.IH [of h1] Cons.prems(2) show ?case by simp
qed

section \<open>A batch\<close>

lemma check_inv_empty [simp]: "check_inv C h [] Map.empty []"
  by (simp add: check_inv_def)

text \<open>The phases before the chunks are stored.\<close>

lemma Freq_phases:
  assumes C: "cfg_ok C" and cs: "\<forall>d \<in> set cs. chunk_ok C d" and n: "length cs < 2 ^ 32"
  shows "\<exists>es. Freq_hash C (encode_chunks cs @ post) (length cs) 0 = Inr es \<and>
     (\<exists>es2 qs. Freq_check C h m [] Map.empty [] (snd (Freq_sketch S es)) = Inr (es2, qs) \<and> entries_for C cs es2 \<and>
        (\<forall>i < length (map core es2). core_ok h (map core es2) i) \<and>
        map oq_chunkHash qs = map (cmc_fp C) (map iq_chunkHash (filter (\<lambda>e. iq_dedupFlag e = UNIQUE) es2)))"
proof -
  have "\<forall>d \<in> set cs. length d < 2 ^ 32" using cs by (auto simp: chunk_ok_def const_defs)
  from Freq_hash_ok [OF C this, of "[]" post] obtain es where
    es: "Freq_hash C (encode_chunks cs @ post) (length cs) 0 = Inr es" "entries_for C cs es"
    by auto
  let ?es1 = "snd (Freq_sketch S es)"
  have es1: "entries_for C cs ?es1" using es(2) Freq_sketch_keeps [of S es] by (simp add: entries_for_def)
  have "set (map iq_chunkHash ?es1) = chunk_fp C ` set cs" using es1 by (simp add: entries_for_def)
  then have fps: "\<forall>e \<in> set ?es1. length (iq_chunkHash e) = CHUNK_HASH_SIZE"
    using chunk_fp_eq(2) [OF C] by (metis (no_types, lifting) image_eqI imageE list.set_map)
  have len: "length ?es1 = length cs" using es1 map_eq_imp_length_eq by (auto simp: entries_for_def)
  have ci: "check_inv C h (map core []) Map.empty []" by simp
  obtain es2 qs li where 2: "Freq_check C h m [] Map.empty [] ?es1 = Inr (es2, qs)"
      "check_inv C h (map core es2) li qs" "map iq_chunkHash es2 = map iq_chunkHash ?es1"
      "map iq_chunkSize es2 = map iq_chunkSize ?es1"
    using Freq_check_ok [OF C ci fps, of m] len n by auto
  have "filter (\<lambda>k. flag_of k = UNIQUE) (map core es2) = map core (filter (\<lambda>e. iq_dedupFlag e = UNIQUE) es2)"
    by (simp add: filter_map comp_def core_def)
  then have "map oq_chunkHash qs = map (cmc_fp C) (map iq_chunkHash (filter (\<lambda>e. iq_dedupFlag e = UNIQUE) es2))"
    using 2(2) by (simp add: check_inv_def comp_def core_def)
  with es 2 es1 show ?thesis by (auto simp: entries_for_def check_inv_def)
qed

lemma Freq_minFreq_ok:
  assumes "heap_ok C s h" and "2 \<le> topKParam C"
  shows "\<exists>m. Freq_minFreq C h = Inr m"
  using EntryHeap_TopEntry_nonempty [of h] assms by (auto simp: Freq_minFreq_def heap_ok_def)

text \<open>The state after the out-of-enclave index was asked; only the queries change.\<close>

lemma Freq_queries_ok:
  assumes C: "cfg_ok C" and q: "map oq_chunkHash qs = map (cmc_fp C) (map iq_chunkHash (filter (\<lambda>e. iq_dedupFlag e = UNIQUE) es))"
    and cs: "entries_for C cs es"
  shows "queries_for C (indexStore (store s)) es
     (if qs \<noteq> [] then outQuery (outc (Ocall_QueryOutIndex (Freq_set_query qs s))) else [])"
proof (cases "qs = []")
  case True
  then show ?thesis using q by (simp add: queries_for_def)
next
  case False
  let ?fps = "map iq_chunkHash (filter (\<lambda>e. iq_dedupFlag e = UNIQUE) es)"
  have "set (map iq_chunkHash es) = chunk_fp C ` set cs" using cs by (simp add: entries_for_def)
  then have "\<forall>fp \<in> set ?fps. length fp = CHUNK_HASH_SIZE"
    using chunk_fp_eq(2) [OF C] by (auto simp: image_iff) (metis imageE image_eqI)
  from QueryOutIndex_answers [OF C q this] False show ?thesis
    by (simp add: queries_for_def Ocall_QueryOutIndex_def Freq_set_query_def)
qed

lemma Freq_ProcessOneBatch_ok:
  assumes inv: "freq_inv C (length cs + n) (x, s)" and rc: "recipe_holds C h0 s as" and ld: "leads_to C s as ds"
    and m: "batch_of C s m cs" and cs: "\<forall>d \<in> set cs. chunk_ok C d"
  shows "\<exists>x' s' bs. Freq_ProcessOneBatch C m (x, s) = Inr (x', s') \<and> freq_inv C n (x', s') \<and>
     (\<forall>q \<in> set (outQuery (outc s')). filled C s' q) \<and> recipe_holds C h0 s' (as @ bs) \<and>
     leads_to C s' (as @ bs) (ds @ cs) \<and> sessionKey (sgx s') = sessionKey (sgx s) \<and> extends s s'"
proof -
  from inv have K: "2 \<le> topKParam C" "topKParam C < heap_bound" and si: "store_inv C (length cs + n) s"
    and li: "localIndex (sgx s) = Map.empty" and db: "db_ok C s (indexStore (store s))"
    and h: "heap_ok C s (insideDedupIndex x)"
    by (simp_all add: freq_inv_def)
  have C: "cfg_ok C" using si by (simp add: store_inv_def)
  let ?h = "insideDedupIndex x" and ?db = "indexStore (store s)"
  define s1 where "s1 = s\<lparr>sgx := (sgx s)\<lparr>recvBuffer := memcpy_at (recvBuffer (sgx s)) 0 (encode_chunks cs)\<rparr>\<rparr>"
  have rb: "recv_batch C m s = Inr s1" and num: "unat (currentItemNum m) = length cs"
    using m recv_batch_ok [OF C] by (simp_all add: batch_of_def carries_def s1_def)
  have n32: "length cs < 2 ^ 32" using num unat_less_pow32 [of "currentItemNum m"] by simp
  define post where "post = drop (length (encode_chunks cs)) (recvBuffer (sgx s))"
  have buf: "recvBuffer (sgx s1) = encode_chunks cs @ post" by (simp add: s1_def memcpy_at_def post_def)
  have li1: "localIndex (sgx s1) = Map.empty" using li by (simp add: s1_def)
  from Freq_minFreq_ok [OF h K(1)] obtain mf where mf: "Freq_minFreq C ?h = Inr mf" ..
  from Freq_phases [OF C cs n32, of post ?h mf "cmSketch x"] obtain es es2 qs where
    es: "Freq_hash C (encode_chunks cs @ post) (length cs) 0 = Inr es"
      "Freq_check C ?h mf [] Map.empty [] (snd (Freq_sketch (cmSketch x) es)) = Inr (es2, qs)" "entries_for C cs es2"
      "\<forall>i < length (map core es2). core_ok ?h (map core es2) i"
      "map oq_chunkHash qs = map (cmc_fp C) (map iq_chunkHash (filter (\<lambda>e. iq_dedupFlag e = UNIQUE) es2))"
    by blast
  define s2 where "s2 = (if qs \<noteq> [] then Ocall_QueryOutIndex (Freq_set_query qs s1) else s1)"
  define qs2 where "qs2 = (if qs \<noteq> [] then outQuery (outc s2) else [])"
  have q2: "queries_for C ?db es2 qs2"
    using Freq_queries_ok [OF C es(5,3), of s1] by (auto simp: qs2_def s2_def s1_def)
  have sc: "same_containers s s2" and f2: "indexStore (store s2) = ?db" "recvBuffer (sgx s2) = [] @ encode_chunks cs @ post"
      "sessionKey (sgx s2) = sessionKey (sgx s)" "recipe_of C s2 h0 (map RecipeEntry_bytes as)"
    using buf rc by (simp_all add: s2_def s1_def same_containers_def Ocall_QueryOutIndex_def Freq_set_query_def
        recipe_holds_def recipe_of_def recipe_rep_def)
  note v = same_containers_views [OF sc]
  have P: "proc_inv C ?h ?db h0 (length cs + n) [] [] s2 as ds"
    using si v f2 db_ok_extends [OF db v(4)] heap_ok_extends [OF h v(4)] leads_to_extends [OF ld v(4)]
    by (simp add: proc_inv_def)
  define x1 where "x1 = x\<lparr>cmSketch := fst (Freq_sketch (cmSketch x) es)\<rparr>"
  have ks: "\<forall>i < length (map core ([] @ es2)). core_ok ?h (map core ([] @ es2)) i" using es(4) by simp
  from Freq_process_ok [OF ks refl q2 es(3) cs f2(2) P, of x1] obtain es3 qs' x' s3 bs where
    3: "Freq_process C [] [] qs2 0 es2 (x1, s2) = Inr (es3, qs', x', s3)"
      "proc_inv C ?h ?db h0 n es3 qs' s3 (as @ bs) (ds @ cs)" "sessionKey (sgx s3) = sessionKey (sgx s2)"
      "insideDedupIndex x' = insideDedupIndex x1" "extends s2 s3"
    by auto
  have p3: "store_inv C n s3" "indexStore (store s3) = ?db" "db_ok C s3 ?db" "heap_ok C s3 ?h"
      "recipe_of C s3 h0 (map RecipeEntry_bytes (as @ bs))" "leads_to C s3 (as @ bs) (ds @ cs)"
      "\<forall>e \<in> set es3. entry_done C s3 e" "\<forall>q \<in> set qs'. filled C s3 q"
    using 3(2) by (simp_all add: proc_inv_def)
  from Freq_heap_update_ok [OF K p3(4,7)] obtain h' where h': "rfold (Freq_heap_entry C) es3 ?h = Inr h'" "heap_ok C s3 h'"
    by blast
  define s4 where "s4 = (Freq_set_query qs' s3)\<lparr>sgx := (sgx s3)\<lparr>localIndex := Map.empty\<rparr>\<rparr>"
  have sc4: "same_containers s3 s4" by (simp add: s4_def same_containers_def Freq_set_query_def)
  note v4 = same_containers_views [OF sc4]
  have "Freq_ProcessOneBatch C m (x, s) = Inr (x'\<lparr>insideDedupIndex := h'\<rparr>, s4)"
    using rb num buf es(1,2) mf li1 3(1) [unfolded qs2_def s2_def] h'(1) 3(4)
    by (cases "qs = []") (simp_all add: Freq_ProcessOneBatch_def case_prod_beta Let_def s4_def x1_def)
  moreover have "freq_inv C n (x'\<lparr>insideDedupIndex := h'\<rparr>, s4)"
    using K p3(1,2) v4(3) db_ok_extends [OF p3(3) v4(4)] heap_ok_extends [OF h'(2) v4(4)]
    by (simp add: freq_inv_def s4_def Freq_set_query_def)
  moreover have "\<forall>q \<in> set (outQuery (outc s4)). filled C s4 q"
    using p3(8) filled_extends [OF _ v4(4)] by (simp add: s4_def Freq_set_query_def)
  moreover have "recipe_holds C h0 s4 (as @ bs)"
    using p3(5) by (simp add: recipe_holds_def recipe_of_def recipe_rep_def s4_def Freq_set_query_def)
  moreover have "leads_to C s4 (as @ bs) (ds @ cs)" by (rule leads_to_extends [OF p3(6) v4(4)])
  moreover have "sessionKey (sgx s4) = sessionKey (sgx s)" using 3(3) f2(3) by (simp add: s4_def)
  moreover have "extends s s4" by (rule extends_trans [OF extends_trans [OF v(4) 3(5)] v4(4)])
  ultimately show ?thesis by blast
qed

text \<open>With the update of the out-of-enclave index that the server makes after the enclave returned.\<close>

interpretation freq_index: dedup_index "freq_inv C" "\<lambda>st. recipe_holds C h0 (snd st)" "\<lambda>st. leads_to C (snd st)"
  "\<lambda>st. batch_of C (snd st)" "chunk_ok C" "EnclaveIndex_ProcessOneBatch (Freq_ProcessOneBatch C)" for C h0
proof unfold_locales
  fix cs n st as ds m
  assume a: "freq_inv C (length cs + n) st" "recipe_holds C h0 (snd st) as" "leads_to C (snd st) as ds"
    "batch_of C (snd st) m cs" "\<forall>d \<in> set cs. chunk_ok C d"
  obtain x s where st: "st = (x, s)" by (cases st)
  from Freq_ProcessOneBatch_ok [of C cs n x s h0 as ds m] a st obtain x' s' bs where
    r: "Freq_ProcessOneBatch C m (x, s) = Inr (x', s')" "freq_inv C n (x', s')"
      "\<forall>q \<in> set (outQuery (outc s')). filled C s' q" "recipe_holds C h0 s' (as @ bs)"
      "leads_to C s' (as @ bs) (ds @ cs)" "sessionKey (sgx s') = sessionKey (sgx s)" "extends s s'"
    by auto
  let ?s = "if outQuery (outc s') \<noteq> [] then Ocall_UpdateOutIndex s' else s'"
  have sc: "same_containers s' ?s" by (simp add: same_containers_def Ocall_UpdateOutIndex_def)
  note v = same_containers_views [OF sc]
  have C: "cfg_ok C" and db: "db_ok C s' (indexStore (store s'))" using r(2) by (simp_all add: freq_inv_def store_inv_def)
  have "db_ok C s' (indexStore (store ?s))"
    using db UpdateOutIndex_ok [OF C db r(3)] by (auto simp: Ocall_UpdateOutIndex_def)
  then have "freq_inv C n (x', ?s)"
    using r(2) v(3) db_ok_extends [OF _ v(4)] heap_ok_extends [OF _ v(4)]
    by (simp add: freq_inv_def Ocall_UpdateOutIndex_def)
  moreover have "recipe_holds C h0 ?s (as @ bs)"
    using r(4) by (simp add: recipe_holds_def recipe_of_def recipe_rep_def Ocall_UpdateOutIndex_def)
  moreover have "leads_to C ?s (as @ bs) (ds @ cs)" by (rule leads_to_extends [OF r(5) v(4)])
  moreover have "EnclaveIndex_ProcessOneBatch (Freq_ProcessOneBatch C) m st = Inr (x', ?s)"
    using r(1) st by (simp add: EnclaveIndex_ProcessOneBatch_def)
  moreover have "batch_of C ?s m' cs' = batch_of C s m' cs'" for m' cs'
    using r(6) by (simp add: batch_of_def Ocall_UpdateOutIndex_def)
  moreover have "leads_to C s as ds \<longrightarrow> leads_to C ?s as ds" for as ds
    using leads_to_extends extends_trans [OF r(7) v(4)] by blast
  ultimately show "\<exists>st' bs. EnclaveIndex_ProcessOneBatch (Freq_ProcessOneBatch C) m st = Inr st' \<and> freq_inv C n st' \<and>
      recipe_holds C h0 (snd st') (as @ bs) \<and> leads_to C (snd st') (as @ bs) (ds @ cs) \<and>
      (\<forall>m cs. batch_of C (snd st') m cs = batch_of C (snd st) m cs) \<and> (\<forall>as ds. leads_to C (snd st) as ds \<longrightarrow> leads_to C (snd st') as ds)"
    using st by (intro exI [of _ "(x', ?s)"] exI [of _ bs]) simp
qed

end
