(* ===== verification/EndToEnd.thy ===== *)
theory EndToEnd
  imports Restore InEnclave FreqUpload
begin

text \<open>
  An upload and a restore together. The locale \<open>server_index\<close> is what \<open>DataReceiver::Run\<close> needs of an
  index; the three indexes with a batch-wise enclave interface are instances. What the restore of the
  finished recipe sends has, chunk by chunk, the fingerprints of what was uploaded.
\<close>

section \<open>The receiver\<close>

lemma receive_chunks:
  assumes "\<forall>m \<in> set ms. messageType m = CLIENT_UPLOAD_CHUNK"
    and "rfold (EnclaveIndex_ProcessOneBatch batch) ms st = Inr st'"
  shows "rfold (DataReceiver_message batch tail) ms (r, st) = Inr (r\<lparr>batchNum := batchNum r + of_nat (length ms)\<rparr>, st')"
  using assms
proof (induction ms arbitrary: r st)
  case Nil
  then show ?case by simp
next
  case (Cons m ms)
  from Cons.prems(2) obtain st1 where st1: "EnclaveIndex_ProcessOneBatch batch m st = Inr st1"
      "rfold (EnclaveIndex_ProcessOneBatch batch) ms st1 = Inr st'"
    by (auto simp: rbind_eq_Inr)
  from Cons.IH [OF _ st1(2), of "r\<lparr>batchNum := batchNum r + 1\<rparr>"] Cons.prems(1) st1(1) show ?case
    by (simp add: DataReceiver_message_def algebra_simps)
qed

text \<open>The result of an upload: what is on disk, and what the recipe says about it.\<close>

definition uploaded :: "enclave_cfg \<Rightarrow> bytes \<Rightarrow> (bytes \<rightharpoonup> bytes) \<Rightarrow> bytes \<Rightarrow> bytes list \<Rightarrow> bool" where
  "uploaded C mk fs recipe cs \<longleftrightarrow>
     (\<forall>b \<in> ran fs. length b \<le> unat MAX_CONTAINER_SIZE) \<and>
     (\<exists>as. file_rep C mk (map RecipeEntry_bytes as) (drop 16 recipe) \<and>
        list_all2 (\<lambda>a d. wf_entry a \<and> (\<exists>d'. chunk_in C fs a = Some d' \<and> chunk_fp C d' = chunk_fp C d)) as cs)"

text \<open>A connection with all its messages, through any index.\<close>

context upload_index
begin

lemma Run_progress:
  assumes p: "progress [] (concat css) st" and h: "length (fst h0) = 16"
    and ms: "list_all2 (batch_of C (snd st)) ms css" "\<forall>m \<in> set ms. messageType m = CLIENT_UPLOAD_CHUNK"
    and em: "messageType em = CLIENT_UPLOAD_RECIPE_END" and op: "\<forall>x. can_open x"
  shows "\<exists>r x s f. DataReceiver_Run C batch tail can_open (ms @ [em]) st = Inr (r, x, s) \<and> finished r = Some f \<and>
     take 16 f = FileRecipeHead_bytes (FileRecipeHead_of_bytes (dataBuffer em)) \<and>
     uploaded C (snd h0) (containerFiles (store s)) f (concat css) \<and> key_ok (snd h0) \<and>
     (\<exists>s1. settled x s1 \<and> indexStore (store s) = indexStore (store s1) \<and>
        (\<forall>a d. resolve C s1 a = Some d \<longrightarrow> chunk_in C (containerFiles (store s)) a = Some d) \<and>
        (\<forall>as ds. leads_to C (snd st) as ds \<longrightarrow> leads_to C s1 as ds))"
proof -
  from progress_batches [of "[]" css "[]" st ms] p ms(1) obtain st1 where
    u: "rfold (EnclaveIndex_ProcessOneBatch batch) ms st = Inr st1" "progress (concat css) [] st1"
      "\<forall>as ds. leads_to C (snd st) as ds \<longrightarrow> leads_to C (snd st1) as ds"
    by auto
  from progress_tail [OF u(2)] obtain x1 s1 n as where
    t: "tail st1 = rbind (tail_recipe C s1) (\<lambda>s'. Inr (x1, tail_container s'))" "store_inv C n s1" "recipe_holds C h0 s1 as"
      "leads_to C s1 as (concat css)" "settled x1 s1" "\<forall>as ds. leads_to C (snd st1) as ds \<longrightarrow> leads_to C s1 as ds"
    by blast
  have C: "cfg_ok C" and ci: "container_inv s1" using t(2) by (simp_all add: store_inv_def)
  from tail_recipe_ok [OF C, of s1 h0 "map RecipeEntry_bytes as"] t(3) obtain s2 f where
    s2: "tail_recipe C s1 = Inr s2" "same_store s1 s2" "recipeFile (outc s2) = Some (fst h0 @ f)"
      "file_rep C (snd h0) (map RecipeEntry_bytes as) f"
    by (auto simp: recipe_holds_def)
  let ?head = "FileRecipeHead_bytes (FileRecipeHead_of_bytes (dataBuffer em))"
  let ?t = "(tail_container s2)\<lparr>outc := (outc (tail_container s2))\<lparr>recipeFile := None\<rparr>\<rparr>"
  from upload_end_files [OF ci op same_store_containers [OF s2(2)], of C None] obtain s3 where
    s3: "drain_queue can_open (last_container C ?t) = Inr s3"
      "\<And>a r. raw_at s1 a = Some r \<Longrightarrow> raw_in (containerFiles (store s3)) a = Some r"
      "\<forall>b \<in> ran (containerFiles (store s3)). length b \<le> unat MAX_CONTAINER_SIZE" "indexStore (store s3) = indexStore (store s1)"
    using s2(2) unfolding same_store_def by metis
  have rf: "recipeFile (outc (tail_container s2)) = Some (fst h0 @ f)"
    using s2(3) by (simp add: tail_container_def Let_def)
  have fin: "FinalizeRecipe (FileRecipeHead_of_bytes (dataBuffer em)) (Some (fst h0 @ f)) = Inr (?head @ f)"
    using h by (simp add: FinalizeRecipe_def memcpy_at_def)
  have run: "\<exists>r. DataReceiver_Run C batch tail can_open (ms @ [em]) st = Inr (r, x1, s3) \<and> finished r = Some (?head @ f)"
    using receive_chunks [OF ms(2) u(1), of tail DataReceiver_new] em t(1) s2(1) rf fin s3(1)
    by (simp add: DataReceiver_Run_def rfold_append DataReceiver_message_def)
  have ci3: "chunk_in C (containerFiles (store s3)) a = Some d" if "resolve C s1 a = Some d" for a d
    using that s3(2) by (auto simp: resolve_def chunk_in_def split: option.splits sum.splits if_splits)
  then have "list_all2 (\<lambda>a d. wf_entry a \<and> (\<exists>d'. chunk_in C (containerFiles (store s3)) a = Some d' \<and> chunk_fp C d' = chunk_fp C d))
      as (concat css)"
    using t(4) unfolding leads_to_def by (auto elim!: list_all2_mono)
  then have "uploaded C (snd h0) (containerFiles (store s3)) (?head @ f) (concat css)"
    using s2(4) s3(3) by (auto simp: uploaded_def)
  moreover have "take 16 (?head @ f) = ?head" by simp
  moreover have "key_ok (snd h0)" using t(3) by (auto simp: recipe_holds_def recipe_of_def recipe_rep_def)
  moreover have "\<forall>as ds. leads_to C (snd st) as ds \<longrightarrow> leads_to C s1 as ds" using u(3) t(6) by blast
  ultimately show ?thesis using run t(5) s3(4) ci3 by blast
qed

end

text \<open>The indexes that give every chunk its address at once.\<close>

locale server_index =
  dedup_index inv "\<lambda>st. recipe_holds C h0 (snd st)" "\<lambda>st. leads_to C (snd st)" "\<lambda>st. batch_of C (snd st)" "chunk_ok C"
    "EnclaveIndex_ProcessOneBatch batch"
  for inv :: "nat \<Rightarrow> 'i \<times> up_state \<Rightarrow> bool" and C :: enclave_cfg and h0 :: recipe_id
    and batch :: "net_msg \<Rightarrow> 'i \<times> up_state \<Rightarrow> ('i \<times> up_state) res" +
  fixes tail :: "'i \<times> up_state \<Rightarrow> ('i \<times> up_state) res"
  assumes inv_store: "inv n st \<Longrightarrow> store_inv C n (snd st)"
    and tail_eq: "tail (x, s) = rbind (tail_recipe C s) (\<lambda>s'. Inr (x, tail_container s'))"
begin

definition served :: "bytes list \<Rightarrow> bytes list \<Rightarrow> 'i \<times> up_state \<Rightarrow> bool" where
  "served ds rest st \<longleftrightarrow> (\<exists>as n. inv (length rest + n) st \<and> recipe_holds C h0 (snd st) as \<and> leads_to C (snd st) as ds \<and>
     (\<forall>d \<in> set rest. chunk_ok C d))"

lemma served_start:
  "inv (length cs + n) st \<Longrightarrow> recipe_holds C h0 (snd st) [] \<Longrightarrow> \<forall>d \<in> set cs. chunk_ok C d \<Longrightarrow> served [] cs st"
  unfolding served_def by (intro exI [of _ "[]"] exI [of _ n]) simp

end

sublocale server_index \<subseteq> receiver: upload_index C h0 served batch tail "\<lambda>x s. \<exists>n. inv n (x, s)"
proof unfold_locales
  fix ds cs rest st m
  assume "served ds (cs @ rest) st" and m: "batch_of C (snd st) m cs"
  then obtain as n where s: "inv (length cs + (length rest + n)) st" "recipe_holds C h0 (snd st) as" "leads_to C (snd st) as ds"
      "\<forall>d \<in> set cs. chunk_ok C d" "\<forall>d \<in> set rest. chunk_ok C d"
    by (auto simp: served_def add.assoc)
  from process_ok [OF s(1-3) m s(4)] s(5)
  show "\<exists>st'. EnclaveIndex_ProcessOneBatch batch m st = Inr st' \<and> served (ds @ cs) rest st' \<and>
      (\<forall>m cs. batch_of C (snd st') m cs = batch_of C (snd st) m cs) \<and> (\<forall>as ds. leads_to C (snd st) as ds \<longrightarrow> leads_to C (snd st') as ds)"
    unfolding served_def by blast
next
  fix ds st
  assume "served ds [] st"
  then obtain as n where "inv n st" "recipe_holds C h0 (snd st) as" "leads_to C (snd st) as ds" by (auto simp: served_def)
  then show "\<exists>x s1 n as. tail st = rbind (tail_recipe C s1) (\<lambda>s'. Inr (x, tail_container s')) \<and> store_inv C n s1 \<and>
      recipe_holds C h0 s1 as \<and> leads_to C s1 as ds \<and> (\<exists>n. inv n (x, s1)) \<and> (\<forall>as ds. leads_to C (snd st) as ds \<longrightarrow> leads_to C s1 as ds)"
    using inv_store [of n st] tail_eq [of "fst st" "snd st"]
    by (intro exI [of _ "fst st"] exI [of _ "snd st"] exI [of _ n] exI [of _ as]) auto
qed

section \<open>The indexes\<close>

interpretation freq_server: server_index "freq_inv C" C h0 "Freq_ProcessOneBatch C" "Freq_ProcessTailBatch C" for C h0
  by unfold_locales (simp_all add: freq_inv_def Freq_ProcessTailBatch_def)

lemma in_inv_update:
  "in_inv C n (m, Ocall_UpdateOutIndex s) = in_inv C n (m, s)"
  by (rule in_inv_cong) (simp add: same_containers_def Ocall_UpdateOutIndex_def)

interpretation in_server: server_index "in_inv C" C h0 "InEnclave_ProcessOneBatch C" "InEnclave_ProcessTailBatch C" for C h0
proof unfold_locales
  fix cs n st as ds m
  assume "in_inv C (length cs + n) st" "recipe_holds C h0 (snd st) as" "leads_to C (snd st) as ds"
    "batch_of C (snd st) m cs" "\<forall>d \<in> set cs. chunk_ok C d"
  from in_enclave.process_ok [OF this] obtain x s bs where
    r: "InEnclave_ProcessOneBatch C m st = Inr (x, s)" "in_inv C n (x, s)" "recipe_holds C h0 s (as @ bs)"
      "leads_to C s (as @ bs) (ds @ cs)" "\<forall>m cs. batch_of C s m cs = batch_of C (snd st) m cs"
      "\<forall>as ds. leads_to C (snd st) as ds \<longrightarrow> leads_to C s as ds"
    by auto
  let ?s = "if outQuery (outc s) \<noteq> [] then Ocall_UpdateOutIndex s else s"
  have sc: "same_containers s ?s" by (simp add: same_containers_def Ocall_UpdateOutIndex_def)
  have "recipe_holds C h0 ?s (as @ bs)"
    using r(3) by (simp add: recipe_holds_def recipe_of_def recipe_rep_def Ocall_UpdateOutIndex_def)
  moreover have "leads_to C ?s (as @ bs) (ds @ cs)" by (rule leads_to_extends [OF r(4) same_containers_views(4) [OF sc]])
  moreover have "batch_of C ?s m cs = batch_of C (snd st) m cs" for m cs
    using r(5) by (simp add: batch_of_def Ocall_UpdateOutIndex_def)
  moreover have "in_inv C n (x, ?s)" using r(2) by (simp add: in_inv_update)
  moreover have "EnclaveIndex_ProcessOneBatch (InEnclave_ProcessOneBatch C) m st = Inr (x, ?s)"
    using r(1) by (simp add: EnclaveIndex_ProcessOneBatch_def)
  moreover have "leads_to C (snd st) as ds \<longrightarrow> leads_to C ?s as ds" for as ds
    using r(6) leads_to_extends [OF _ same_containers_views(4) [OF sc]] by blast
  ultimately show "\<exists>s' bs. EnclaveIndex_ProcessOneBatch (InEnclave_ProcessOneBatch C) m st = Inr s' \<and> in_inv C n s' \<and>
      recipe_holds C h0 (snd s') (as @ bs) \<and> leads_to C (snd s') (as @ bs) (ds @ cs) \<and>
      (\<forall>m cs. batch_of C (snd s') m cs = batch_of C (snd st) m cs) \<and> (\<forall>as ds. leads_to C (snd st) as ds \<longrightarrow> leads_to C (snd s') as ds)"
    by (intro exI [of _ "(x, ?s)"] exI [of _ bs]) simp
qed (auto simp: in_inv_def InEnclave_ProcessTailBatch_def)

text \<open>The out-of-enclave index keeps nothing in the enclave.\<close>

definition out_batch :: "enclave_cfg \<Rightarrow> net_msg \<Rightarrow> unit \<times> up_state \<Rightarrow> (unit \<times> up_state) res" where
  "out_batch C m st = rbind (OutEnclave_ProcessOneBatch C m (snd st)) (\<lambda>s. Inr ((), s))"

definition out_tail :: "enclave_cfg \<Rightarrow> unit \<times> up_state \<Rightarrow> (unit \<times> up_state) res" where
  "out_tail C st = rbind (OutEnclave_ProcessTailBatch C (snd st)) (\<lambda>s. Inr ((), s))"

interpretation out_server: server_index "\<lambda>n st. out_inv C n (snd st)" C h0 "out_batch C" "out_tail C" for C h0
proof unfold_locales
  fix cs n and st :: "unit \<times> up_state" and as ds m
  assume "out_inv C (length cs + n) (snd st)" "recipe_holds C h0 (snd st) as" "leads_to C (snd st) as ds"
    "batch_of C (snd st) m cs" "\<forall>d \<in> set cs. chunk_ok C d"
  from out_enclave.process_ok [OF this] obtain s bs where
    r: "OutEnclave_ProcessOneBatch C m (snd st) = Inr s" "out_inv C n s" "recipe_holds C h0 s (as @ bs)"
      "leads_to C s (as @ bs) (ds @ cs)" "\<forall>m cs. batch_of C s m cs = batch_of C (snd st) m cs"
      "\<forall>as ds. leads_to C (snd st) as ds \<longrightarrow> leads_to C s as ds"
    by blast
  have "outQuery (outc s) = []" using r(2) by (simp add: out_inv_def)
  then have "EnclaveIndex_ProcessOneBatch (out_batch C) m st = Inr ((), s)"
    using r(1) by (simp add: EnclaveIndex_ProcessOneBatch_def out_batch_def)
  with r show "\<exists>s' bs. EnclaveIndex_ProcessOneBatch (out_batch C) m st = Inr s' \<and> out_inv C n (snd s') \<and>
      recipe_holds C h0 (snd s') (as @ bs) \<and> leads_to C (snd s') (as @ bs) (ds @ cs) \<and>
      (\<forall>m cs. batch_of C (snd s') m cs = batch_of C (snd st) m cs) \<and> (\<forall>as ds. leads_to C (snd st) as ds \<longrightarrow> leads_to C (snd s') as ds)"
    by (intro exI [of _ "((), s)"] exI [of _ bs]) simp
qed (auto simp: out_inv_def out_tail_def OutEnclave_ProcessTailBatch_def rbind_assoc)

section \<open>Restoring what was uploaded\<close>

lemma uploaded_restore:
  assumes cfg: "res_cfg C" "key_ok key" "key_ok mk" "0 < cacheN" "cacheN < 2 ^ 32"
    and up: "uploaded C mk fs recipe cs" and snd: "\<forall>m. can_send m" and rdy: "messageType m = CLIENT_RESTORE_READY"
  shows "\<exists>s' ds. EnclaveRecvDecoder_Run C can_send (Some m) (drop 16 recipe) (restore_start C cacheN cid key mk fs) = Inr s' \<and>
     restored C key (sent s') ds \<and> map (chunk_fp C) ds = map (chunk_fp C) cs"
proof -
  from up obtain as where as: "\<forall>b \<in> ran fs. length b \<le> unat MAX_CONTAINER_SIZE"
      "file_rep C mk (map RecipeEntry_bytes as) (drop 16 recipe)"
      "list_all2 (\<lambda>a d. wf_entry a \<and> (\<exists>d'. chunk_in C fs a = Some d' \<and> chunk_fp C d' = chunk_fp C d)) as cs"
    by (auto simp: uploaded_def)
  have "\<exists>ds. list_all2 (\<lambda>a d. wf_entry a \<and> chunk_in C fs a = Some d) as ds \<and> map (chunk_fp C) ds = map (chunk_fp C) cs"
    using as(3)
  proof (induction as cs rule: list_all2_induct)
    case Nil
    then show ?case by simp
  next
    case (Cons a as d cs)
    then obtain d' ds where "wf_entry a" "chunk_in C fs a = Some d'" "chunk_fp C d' = chunk_fp C d"
        "list_all2 (\<lambda>a d. wf_entry a \<and> chunk_in C fs a = Some d) as ds" "map (chunk_fp C) ds = map (chunk_fp C) cs"
      by blast
    then show ?case by (intro exI [of _ "d' # ds"]) simp
  qed
  then obtain ds where ds: "list_all2 (\<lambda>a d. wf_entry a \<and> chunk_in C fs a = Some d) as ds"
      "map (chunk_fp C) ds = map (chunk_fp C) cs"
    by blast
  from EnclaveRecvDecoder_Run_ok [OF cfg as(1,2) ds(1) snd rdy, of cid] ds(2) show ?thesis by blast
qed

context upload_index
begin

text \<open>An upload through an index and the restore of the recipe it finished.\<close>

lemma restore_progress:
  assumes p: "progress [] (concat css) st" and h: "length (fst h0) = 16"
    and ms: "list_all2 (batch_of C (snd st)) ms css" "\<forall>m \<in> set ms. messageType m = CLIENT_UPLOAD_CHUNK"
    and em: "messageType em = CLIENT_UPLOAD_RECIPE_END"
    and op: "\<forall>x. can_open x" and cfg: "res_cfg C" "key_ok key" "0 < cacheN" "cacheN < 2 ^ 32"
    and snd: "\<forall>m. can_send m" and rdy: "messageType m = CLIENT_RESTORE_READY"
  shows "\<exists>r x s f t ds. DataReceiver_Run C batch tail can_open (ms @ [em]) st = Inr (r, x, s) \<and> finished r = Some f \<and>
     EnclaveRecvDecoder_Run C can_send (Some m) (drop 16 f)
       (restore_start C cacheN cid key (snd h0) (containerFiles (store s))) = Inr t \<and>
     restored C key (sent t) ds \<and> map (chunk_fp C) ds = map (chunk_fp C) (concat css)"
proof -
  from Run_progress [OF p h ms em op] obtain r x s f where
    u: "DataReceiver_Run C batch tail can_open (ms @ [em]) st = Inr (r, x, s)" "finished r = Some f"
      "uploaded C (snd h0) (containerFiles (store s)) f (concat css)" "key_ok (snd h0)"
    by blast
  from uploaded_restore [OF cfg(1,2) u(4) cfg(3,4) u(3) snd rdy, of cid] u(1,2) show ?thesis by blast
qed

end

context server_index
begin

lemma upload_restore:
  assumes inv: "inv (length (concat css) + n) st" and rc: "recipe_holds C h0 (snd st) []" and h: "length (fst h0) = 16"
    and ms: "list_all2 (batch_of C (snd st)) ms css" "\<forall>m \<in> set ms. messageType m = CLIENT_UPLOAD_CHUNK"
    and cs: "\<forall>cs \<in> set css. \<forall>d \<in> set cs. chunk_ok C d" and em: "messageType em = CLIENT_UPLOAD_RECIPE_END"
    and op: "\<forall>x. can_open x" and cfg: "res_cfg C" "key_ok key" "0 < cacheN" "cacheN < 2 ^ 32"
    and snd: "\<forall>m. can_send m" and rdy: "messageType m = CLIENT_RESTORE_READY"
  shows "\<exists>r x s f t ds. DataReceiver_Run C batch tail can_open (ms @ [em]) st = Inr (r, x, s) \<and> finished r = Some f \<and>
     EnclaveRecvDecoder_Run C can_send (Some m) (drop 16 f)
       (restore_start C cacheN cid key (snd h0) (containerFiles (store s))) = Inr t \<and>
     restored C key (sent t) ds \<and> map (chunk_fp C) ds = map (chunk_fp C) (concat css)"
proof -
  have "served [] (concat css) st" using cs by (intro served_start [OF inv rc]) auto
  from receiver.restore_progress [OF this h ms em op cfg snd rdy] show ?thesis .
qed

text \<open>A connection that ends before the message that finishes the recipe.\<close>

lemma disconnect:
  assumes inv: "inv (length (concat css) + n) st" and rc: "recipe_holds C h0 (snd st) []"
    and ms: "list_all2 (batch_of C (snd st)) ms css" "\<forall>m \<in> set ms. messageType m = CLIENT_UPLOAD_CHUNK"
    and cs: "\<forall>cs \<in> set css. \<forall>d \<in> set cs. chunk_ok C d" and op: "\<forall>x. can_open x"
  shows "\<exists>x s1 r s as. rfold (EnclaveIndex_ProcessOneBatch batch) ms st = Inr (x, s1) \<and> leads_to C s1 as (concat css) \<and>
     DataReceiver_Run C batch tail can_open ms st = Inr (r, x, s) \<and> finished r = None \<and>
     (\<forall>a. containerName a = cur_name s1 \<longrightarrow> chunk_in C (containerFiles (store s)) a = None)"
proof -
  from upload_ok [OF inv rc _ ms(1) cs, of "[]"] obtain x1 s1 as where
    u: "rfold (EnclaveIndex_ProcessOneBatch batch) ms st = Inr (x1, s1)" "inv n (x1, s1)" "leads_to C s1 as (concat css)"
    by (auto simp: leads_to_def)
  have ci: "container_inv s1" using inv_store [OF u(2)] by (simp add: store_inv_def)
  then have lc: "last_container C s1 = s1" by (simp add: last_container_def container_inv_def)
  let ?m = "containerFiles (store s1) ++ mq_map (inputMQ (outc s1))"
  let ?s = "s1\<lparr>outc := (outc s1)\<lparr>inputMQ := []\<rparr>, store := (store s1)\<lparr>containerFiles := ?m\<rparr>\<rparr>"
  have "drain_queue can_open s1 = Inr ?s" by (simp add: drain_queue_def SaveToFile_all [OF op])
  then have "DataReceiver_Run C batch tail can_open ms st =
      Inr (DataReceiver_new\<lparr>batchNum := batchNum DataReceiver_new + of_nat (length ms)\<rparr>, x1, ?s)"
    using receive_chunks [OF ms(2) u(1), of tail DataReceiver_new] lc by (simp add: DataReceiver_Run_def)
  moreover have "?m (cur_name s1) = None" using ci by (auto simp: container_inv_def map_add_def split: option.split)
  then have "\<forall>a. containerName a = cur_name s1 \<longrightarrow> chunk_in C (containerFiles (store ?s)) a = None"
    by (simp add: chunk_in_def raw_in_def del: map_add_None)
  ultimately show ?thesis using u(1,3) by (fastforce simp: DataReceiver_new_def)
qed

end

end
