(* ===== verification/FreqShortcut.thy ===== *)
theory FreqShortcut
  imports FreqUpload
begin

text \<open>
  The shortcut of the frequency-based index: a chunk whose estimated frequency is below the least
  frequency of the full top-k index is not looked up there. It is sound because every frequency in the
  top-k index is at most the current estimate of the sketch, which every batch keeps.
\<close>

section \<open>Frequencies and estimates\<close>

definition freq_bounded :: "cm_sketch \<Rightarrow> entry_heap \<Rightarrow> bool" where
  "freq_bounded S h \<longleftrightarrow> (\<forall>fp a f. heap_content h fp = Some (a, f) \<longrightarrow> f \<le> CMSketch_Estimate S fp)"

text \<open>No counter wraps during the next \<open>n\<close> updates.\<close>

definition no_wrap :: "cm_sketch \<Rightarrow> nat \<Rightarrow> bool" where
  "no_wrap S n \<longleftrightarrow> sketch_wf S \<and> 0 < unat (depth S) \<and>
     (\<forall>i < unat (depth S). \<forall>j < unat (width S). unat (counterArray S ! i ! j) + n < 2 ^ 32)"

lemma Estimate_mono: "no_wrap S (length hs) \<Longrightarrow> CMSketch_Estimate S h \<le> CMSketch_Estimate (sketch_run S hs) h"
  using Estimate_run_ge [of S hs h] by (simp add: no_wrap_def word_le_nat_alt)

lemma no_wrap_Update:
  assumes "no_wrap S (Suc n)"
  shows "no_wrap (CMSketch_Update S h 1) n"
proof -
  have wf: "sketch_wf S" using assms by (simp add: no_wrap_def)
  have "unat (counterArray (CMSketch_Update S h 1) ! i ! j) \<le> Suc (unat (counterArray S ! i ! j))"
    if "i < unat (depth S)" "j < unat (width S)" for i j
    using that unat_plus_one_le by (simp add: Update_counter [OF wf])
  moreover have "unat (counterArray S ! i ! j) + Suc n < 2 ^ 32" if "i < unat (depth S)" "j < unat (width S)" for i j
    using that assms by (simp add: no_wrap_def)
  ultimately have "unat (counterArray (CMSketch_Update S h 1) ! i ! j) + n < 2 ^ 32" if "i < unat (depth S)" "j < unat (width S)" for i j
    using that by fastforce
  then show ?thesis using assms Update_wf [OF wf] wf by (simp add: no_wrap_def)
qed

lemma no_wrap_mono: "no_wrap S n \<Longrightarrow> m \<le> n \<Longrightarrow> no_wrap S m"
  unfolding no_wrap_def by (meson add_le_mono1 le_less_trans nat_add_left_cancel_le)

text \<open>The frequency of an entry lies between the estimates before and after the batch.\<close>

lemma Freq_sketch_freq:
  assumes "no_wrap S (length es)" and "e \<in> set (snd (Freq_sketch S es))"
  shows "CMSketch_Estimate S (iq_chunkHash e) \<le> iq_chunkFreq e \<and>
     iq_chunkFreq e \<le> CMSketch_Estimate (fst (Freq_sketch S es)) (iq_chunkHash e)"
  using assms
proof (induction es arbitrary: S)
  case Nil
  then show ?case by simp
next
  case (Cons d es)
  let ?S = "CMSketch_Update S (iq_chunkHash d) 1"
  have nw: "no_wrap ?S (length es)" using Cons.prems(1) by (intro no_wrap_Update) simp
  have "no_wrap S (length [iq_chunkHash d])" using Cons.prems(1) by (rule no_wrap_mono) simp
  from Estimate_mono [OF this] have up: "CMSketch_Estimate S h \<le> CMSketch_Estimate ?S h" for h
    by (simp add: sketch_run_def)
  have fin: "fst (Freq_sketch S (d # es)) = fst (Freq_sketch ?S es)" by (simp add: case_prod_beta Let_def)
  from Cons.prems(2) consider "e = d\<lparr>iq_chunkFreq := CMSketch_Estimate ?S (iq_chunkHash d)\<rparr>" | "e \<in> set (snd (Freq_sketch ?S es))"
    by (auto simp: case_prod_beta Let_def)
  then show ?case
  proof cases
    case 1
    have "no_wrap ?S (length (map iq_chunkHash es))" using nw by simp
    from Estimate_mono [OF this, of "iq_chunkHash d"] 1 up fin show ?thesis
      using Freq_sketch_keeps [of ?S es] by simp
  next
    case 2
    from Cons.IH [OF nw 2] up fin show ?thesis by (metis order_trans)
  qed
qed

section \<open>The shortcut\<close>

lemma Freq_check_shortcut:
  assumes h: "EntryHeap_inv h" and m: "Freq_minFreq C h = Inr m"
    and es: "\<forall>e \<in> set es. \<forall>a f. heap_content h (iq_chunkHash e) = Some (a, f) \<longrightarrow> f \<le> iq_chunkFreq e"
  shows "Freq_check C h m dn li qs es = Freq_check C h 0 dn li qs es"
  using es
proof (induction es arbitrary: dn li qs)
  case Nil
  then show ?case by simp
next
  case (Cons e es)
  have "\<not> EntryHeap_Contains h (iq_chunkHash e)" if lt: "iq_chunkFreq e < m"
  proof
    assume "EntryHeap_Contains h (iq_chunkHash e)"
    then obtain a f where af: "heap_content h (iq_chunkHash e) = Some (a, f)" by (auto simp: EntryHeap_Contains_content)
    have "m \<noteq> 0" using lt by auto
    then have "EntryHeap_TopEntry h = Inr m" using m by (auto simp: Freq_minFreq_def split: if_splits)
    then have "m \<le> f" using entry_heap.top_least [OF h af] by auto
    moreover have "f \<le> iq_chunkFreq e" using Cons.prems af by simp
    ultimately show False using lt by simp
  qed
  moreover have "Freq_check C h m dn' li' qs' es = Freq_check C h 0 dn' li' qs' es" for dn' li' qs'
    using Cons.prems by (intro Cons.IH) simp
  ultimately show ?case by (cases "li (iq_chunkHash e)") auto
qed

section \<open>Every batch keeps the bound\<close>

definition entry_bounded :: "cm_sketch \<Rightarrow> in_query_entry \<Rightarrow> bool" where
  "entry_bounded S e \<longleftrightarrow> iq_chunkFreq e \<le> CMSketch_Estimate S (iq_chunkHash e)"

lemma entry_bounded_upd [simp]:
  "entry_bounded S (e\<lparr>iq_dedupFlag := f, iq_chunkAddr := a\<rparr>) = entry_bounded S e"
  by (simp add: entry_bounded_def)

lemma Freq_check_bounded:
  assumes "Freq_check C h m dn li qs es = Inr (dn', qs')" and "\<forall>e \<in> set dn \<union> set es. entry_bounded S e"
    and "\<forall>fp j. li fp = Some j \<longrightarrow> j < length dn \<and> iq_chunkHash (dn ! j) = fp"
  shows "\<forall>e \<in> set dn'. entry_bounded S e"
  using assms
proof (induction es arbitrary: dn li qs)
  case Nil
  then show ?case by simp
next
  case (Cons e es)
  let ?fp = "iq_chunkHash e"
  have b: "entry_bounded S e" using Cons.prems(2) by simp
  show ?case
  proof (cases "li ?fp")
    case (Some j)
    then have j: "j < length dn" "iq_chunkHash (dn ! j) = ?fp" using Cons.prems(3) by auto
    from Some Cons.prems(1) obtain f where f:
      "Freq_check C h m (dn[j := (dn ! j)\<lparr>iq_chunkFreq := iq_chunkFreq e\<rparr>] @ [e\<lparr>iq_dedupFlag := f, iq_chunkAddr := (iq_chunkAddr e)\<lparr>re_offset := of_nat j\<rparr>\<rparr>])
         li qs es = Inr (dn', qs')"
      by (auto simp: rbind_eq_Inr Let_def)
    have "entry_bounded S ((dn ! j)\<lparr>iq_chunkFreq := iq_chunkFreq e\<rparr>)" using b j(2) by (simp add: entry_bounded_def)
    then have "\<forall>x \<in> set (dn[j := (dn ! j)\<lparr>iq_chunkFreq := iq_chunkFreq e\<rparr>]). entry_bounded S x"
      using Cons.prems(2) set_update_subset_insert [of dn j] by blast
    moreover have "\<forall>fp i. li fp = Some i \<longrightarrow> i < length dn \<and> iq_chunkHash (dn[j := (dn ! j)\<lparr>iq_chunkFreq := iq_chunkFreq e\<rparr>] ! i) = fp"
      using Cons.prems(3) j by (auto simp: nth_list_update)
    ultimately show ?thesis
      using Cons.prems(2) by (intro Cons.IH [OF f]) (auto simp: nth_append less_SucI)
  next
    case None
    from Freq_query_def [of C e] Cons.prems(1) None obtain f a qs1 where
      f: "Freq_check C h m (dn @ [e\<lparr>iq_dedupFlag := f, iq_chunkAddr := a\<rparr>]) (li(?fp \<mapsto> length dn)) qs1 es = Inr (dn', qs')"
      by (auto simp: rbind_eq_Inr Let_def split: if_splits)
    show ?thesis
      using Cons.prems(2,3) by (intro Cons.IH [OF f]) (auto simp: nth_append less_SucI)
  qed
qed

lemma Freq_entry_keeps:
  "Freq_entry C d dn qs e (x, s) = Inr (e', a, used, qs', x', s') \<Longrightarrow>
   iq_chunkFreq e' = iq_chunkFreq e \<and> iq_chunkHash e' = iq_chunkHash e \<and>
   insideDedupIndex x' = insideDedupIndex x \<and> cmSketch x' = cmSketch x"
  by (auto simp: Freq_entry_def rbind_eq_Inr count_inside_def split: two_path_status.splits list.splits)

lemma Freq_process_bounded:
  assumes "Freq_process C dn qd qs off es (x, s) = Inr (dn', qd', x', s')" and "\<forall>e \<in> set dn \<union> set es. entry_bounded S e"
  shows "(\<forall>e \<in> set dn'. entry_bounded S e) \<and> insideDedupIndex x' = insideDedupIndex x \<and> cmSketch x' = cmSketch x"
  using assms
proof (induction es arbitrary: dn qd qs off x s)
  case Nil
  then show ?case by simp
next
  case (Cons e es)
  from Cons.prems(1) obtain e1 a used qs1 x1 s1 s2 where
    1: "Freq_entry C (read_at (recvBuffer (sgx s)) (off + 4) (unat (iq_chunkSize e))) dn qs e (x, s) = Inr (e1, a, used, qs1, x1, s1)"
      "Freq_process C (dn @ [e1]) (qd @ used) qs1 (off + 4 + unat (iq_chunkSize e)) es
         (x1, count_logical (unat (iq_chunkSize e)) s2) = Inr (dn', qd', x', s')"
    by (auto simp: rbind_eq_Inr Let_def)
  note k = Freq_entry_keeps [OF 1(1)]
  have "entry_bounded S e1" using Cons.prems(2) k by (simp add: entry_bounded_def)
  then have "\<forall>e \<in> set (dn @ [e1]) \<union> set es. entry_bounded S e" using Cons.prems(2) by auto
  from Cons.IH [OF 1(2) this] k show ?case by simp
qed

text \<open>One entry changes the top-k index at most by its own key and frequency, apart from an eviction.\<close>

lemma Freq_heap_entry_content:
  assumes h: "EntryHeap_inv h" "EntryHeap_Size h \<le> topKParam C" and K: "2 \<le> topKParam C" "topKParam C < heap_bound"
    and r: "Freq_heap_entry C e h = Inr h'"
  shows "EntryHeap_inv h'" and "EntryHeap_Size h' \<le> topKParam C"
    and "heap_content h' fp = Some (a, f) \<Longrightarrow> heap_content h fp = Some (a, f) \<or> fp = iq_chunkHash e \<and> f = iq_chunkFreq e"
proof -
  let ?k = "iq_chunkHash e" and ?f = "iq_chunkFreq e"
  have "EntryHeap_inv h' \<and> EntryHeap_Size h' \<le> topKParam C \<and>
    (\<forall>fp a f. heap_content h' fp = Some (a, f) \<longrightarrow> heap_content h fp = Some (a, f) \<or> fp = ?k \<and> f = ?f)"
  proof (cases "h' = h")
    case True
    then show ?thesis using h by simp
  next
    case changed: False
    show ?thesis
    proof (cases "heap_content h ?k")
      case None
      then have ad: "AddChunkToHeap C ?f (iq_chunkAddr e) ?k h = Inr h'"
        using r changed by (auto simp: Freq_heap_entry_def rbind_eq_Inr EntryHeap_Contains_content split: if_splits)
      from entry_heap.evict_add [OF h(1) None K h(2), of "\<lparr>hi_address = iq_chunkAddr e, chunkFreq = ?f, hi_idx = 0\<rparr>"] obtain h2 where
        h2: "AddChunkToHeap C ?f (iq_chunkAddr e) ?k h = Inr h2" "EntryHeap_inv h2" "EntryHeap_Size h2 \<le> topKParam C"
          "heap_content h2 ?k = Some (iq_chunkAddr e, ?f)"
          "\<forall>j. j \<noteq> ?k \<longrightarrow> heap_content h2 j = heap_content h j \<or> heap_content h2 j = None"
        unfolding AddChunkToHeap_def by fastforce
      have "h2 = h'" using h2(1) ad by simp
      with h2 show ?thesis by (metis option.distinct(1) option.inject prod.inject)
    next
      case (Some af)
      obtain a f0 where af: "af = (a, f0)" by (cases af)
      have up: "EntryHeap_Update h ?k ?f = Inr h'"
        using r changed Some by (auto simp: Freq_heap_entry_def rbind_eq_Inr EntryHeap_Contains_content UpdateInsideIndexFreq_def split: if_splits)
      from EntryHeap_Update_ok [OF h(1), of ?k a f0 ?f] Some af up have
        c: "EntryHeap_inv h'" "heap_content h' = (heap_content h)(?k \<mapsto> (a, ?f))" by auto
      have "dom (heap_content h') = dom (heap_content h)" using c(2) Some by auto
      then have "EntryHeap_Size h' = EntryHeap_Size h" using entry_heap.size_card h(1) c(1) by simp
      with c h(2) show ?thesis by auto
    qed
  qed
  then show "EntryHeap_inv h'" "EntryHeap_Size h' \<le> topKParam C"
    "heap_content h' fp = Some (a, f) \<Longrightarrow> heap_content h fp = Some (a, f) \<or> fp = ?k \<and> f = ?f"
    by blast+
qed

lemma Freq_heap_bounded:
  assumes "EntryHeap_inv h" and "EntryHeap_Size h \<le> topKParam C" and "2 \<le> topKParam C" and "topKParam C < heap_bound"
    and "rfold (Freq_heap_entry C) es h = Inr h'" and "freq_bounded S h" and "\<forall>e \<in> set es. entry_bounded S e"
  shows "freq_bounded S h'"
  using assms(1,2,5-7)
proof (induction es arbitrary: h)
  case Nil
  then show ?case by simp
next
  case (Cons e es)
  from Cons.prems(3) obtain h1 where h1: "Freq_heap_entry C e h = Inr h1" "rfold (Freq_heap_entry C) es h1 = Inr h'"
    by (auto simp: rbind_eq_Inr)
  note c = Freq_heap_entry_content [OF Cons.prems(1,2) assms(3,4) h1(1)]
  have "freq_bounded S h1" using Cons.prems(4,5) c(3) by (fastforce simp: freq_bounded_def entry_bounded_def)
  with Cons.IH [OF c(1,2) h1(2)] Cons.prems(5) show ?case by simp
qed

lemma Freq_batch_bounded:
  assumes r: "Freq_ProcessOneBatch C m (x, s) = Inr (x', s')" and h: "heap_ok C s (insideDedupIndex x)"
    and K: "2 \<le> topKParam C" "topKParam C < heap_bound" and li: "localIndex (sgx s) = Map.empty"
    and b: "freq_bounded (cmSketch x) (insideDedupIndex x)" and nw: "no_wrap (cmSketch x) (unat (currentItemNum m))"
  shows "freq_bounded (cmSketch x') (insideDedupIndex x')"
proof -
  let ?h = "insideDedupIndex x"
  from r obtain s1 es mf es2 qs s2 q2 es3 qs3 x3 s3 h' where
    1: "recv_batch C m s = Inr s1" "Freq_hash C (recvBuffer (sgx s1)) (unat (currentItemNum m)) 0 = Inr es"
      "Freq_check C ?h mf [] (localIndex (sgx s1)) [] (snd (Freq_sketch (cmSketch x) es)) = Inr (es2, qs)"
      "Freq_process C [] [] q2 0 es2 (x\<lparr>cmSketch := fst (Freq_sketch (cmSketch x) es)\<rparr>, s2) = Inr (es3, qs3, x3, s3)"
      "rfold (Freq_heap_entry C) es3 (insideDedupIndex x3) = Inr h'" "x' = x3\<lparr>insideDedupIndex := h'\<rparr>"
    by (auto simp: Freq_ProcessOneBatch_def rbind_eq_Inr Let_def case_prod_beta)
  let ?S = "fst (Freq_sketch (cmSketch x) es)" and ?es = "snd (Freq_sketch (cmSketch x) es)"
  have len: "length es = n" if "Freq_hash C buf n off = Inr es" for buf n off es
    using that by (induction n arbitrary: off es) (auto simp: rbind_eq_Inr)
  have nw: "no_wrap (cmSketch x) (length es)" using nw len [OF 1(2)] by simp
  have "localIndex (sgx s1) = Map.empty" using 1(1) li by (auto simp: recv_batch_def rbind_eq_Inr)
  moreover have "\<forall>e \<in> set ?es. entry_bounded ?S e" using Freq_sketch_freq [OF nw] by (simp add: entry_bounded_def)
  ultimately have e2: "\<forall>e \<in> set es2. entry_bounded ?S e" using Freq_check_bounded [OF 1(3), of ?S] by simp
  from Freq_process_bounded [OF 1(4), of ?S] e2 have
    3: "\<forall>e \<in> set es3. entry_bounded ?S e" "insideDedupIndex x3 = ?h" "cmSketch x3 = ?S" by simp_all
  have "CMSketch_Estimate (cmSketch x) fp \<le> CMSketch_Estimate ?S fp" for fp
    using Estimate_mono [of "cmSketch x" "map iq_chunkHash es" fp] nw Freq_sketch_keeps [of "cmSketch x" es] by simp
  then have "freq_bounded ?S ?h" using b unfolding freq_bounded_def by (meson order_trans)
  from Freq_heap_bounded [OF _ _ K 1(5), of ?S] h 3 this 1(6) show ?thesis by (simp add: heap_ok_def)
qed

end
