(* ===== verification/Session.thy ===== *)
theory Session
  imports EndToEnd FreqShortcut
begin

text \<open>
  The start of an upload session: the enclave side (\<open>Ecall_Init_Client\<close>) and the server side
  (\<open>ClientVar::InitUploadBuffer\<close>) of a new client together establish the invariants that the indexes
  need. A small configuration and an upload in it serve as concrete instances.
\<close>

section \<open>A new client\<close>

definition zero_stats :: statistics where
  "zero_stats = \<lparr>uniqueChunkNum = 0, uniqueDataSize = 0, logicalChunkNum = 0, logicalDataSize = 0,
                 compressedDataSize = 0, writtenDataSize = 0, writtenChunkNum = 0\<rparr>"

definition upload_start :: "enclave_cfg \<Rightarrow> enclave_client \<Rightarrow> bytes \<Rightarrow> storage \<Rightarrow> up_state" where
  "upload_start C c junk S =
     (let (v, S') = ClientVar_InitUploadBuffer C junk S in \<lparr>sgx = c, outc = v, store = S', stats = zero_stats\<rparr>)"

text \<open>The names that the session will draw, the first one for its first container.\<close>

definition names_free :: "enclave_cfg \<Rightarrow> nat \<Rightarrow> storage \<Rightarrow> bool" where
  "names_free C n S \<longleftrightarrow>
     (let ids = map (\<lambda>i. uuid_at C (randPos S + CONTAINER_ID_LENGTH * i)) [0..<Suc n]
      in distinct ids \<and> set ids \<inter> dom (containerFiles S) = {})"

lemma Ecall_Init_Client_ok:
  assumes C: "cfg_ok C" and k: "ki cid = Some key" "key_ok key" and mk: "key_ok mk" "length rand_iv = CRYPTO_BLOCK_SIZE"
    and enc: "Crypto_SessionKeyEnc (cfg_evp C) (cfg_tool C) mk key = Inr emk"
  shows "\<exists>c. Ecall_Init_Client C ki cid t rand_iv emk = Inr c \<and> sessionKey c = key \<and> masterKey c = mk \<and> iv c = rand_iv \<and>
     inRecipe c = \<lparr>recipeNum = 0, entryList = []\<rparr> \<and> recvBuffer c = [] \<and> localIndex c = Map.empty \<and>
     inContainer c = \<lparr>ic_buf = [], curSize = 0\<rparr>"
proof -
  have "stream_good (cfg_evp C) (cfg_tool C) key mk" using C k(2) by (simp add: stream_good_def cfg_ok_def)
  from session.dec_enc [OF this enc] have d: "Ecall_SessionKeyDec (cfg_evp C) (cfg_tool C) emk key = Inr mk" "length emk = length mk"
    by simp_all
  have "take CHUNK_HASH_SIZE key = key" "take CHUNK_HASH_SIZE emk = emk"
    using k(2) mk(1) d(2) by (simp_all add: key_ok_def const_defs)
  with k(1) d(1) show ?thesis
    by (simp add: Ecall_Init_Client_def SetMasterKey_def EnclaveClient_InitUploadBuffer_def Let_def)
qed

lemma upload_start_inv:
  assumes C: "cfg_ok C" and c: "length (iv c) = CRYPTO_BLOCK_SIZE" "key_ok (masterKey c)"
      "inRecipe c = \<lparr>recipeNum = 0, entryList = []\<rparr>" "inContainer c = \<lparr>ic_buf = [], curSize = 0\<rparr>"
    and files: "\<forall>b \<in> ran (containerFiles S). length b \<le> unat MAX_CONTAINER_SIZE" and ids: "names_free C n S"
  shows "store_inv C n (upload_start C c junk S)"
    and "recipe_holds C (take 16 (junk @ replicate 16 0), masterKey c) (upload_start C c junk S) []"
    and "resolve C (upload_start C c junk S) = chunk_in C ((containerFiles S)(uuid_at C (randPos S) \<mapsto> []))"
proof -
  let ?s = "upload_start C c junk S" and ?u = "uuid_at C (randPos S)"
  have u: "CreateUUID (cfg_rnd C) (randPos S) CONTAINER_ID_LENGTH = (?u, randPos S + CONTAINER_ID_LENGTH)"
    by (simp add: uuid_at_def prod_eq_iff)
  have f: "sgx ?s = c" "containerID (curContainer (outc ?s)) = ?u" "currentSize (curContainer (outc ?s)) = 0"
      "inputMQ (outc ?s) = []" "containerFiles (store ?s) = containerFiles S" "randPos (store ?s) = randPos S + CONTAINER_ID_LENGTH"
      "recipeFile (outc ?s) = Some (take 16 (junk @ replicate 16 0))"
    by (simp_all add: upload_start_def ClientVar_InitUploadBuffer_def u)
  have name: "cur_name ?s = ?u" using f(2) by (simp add: cur_name_def)
  let ?ids = "map (\<lambda>i. uuid_at C (randPos S + CONTAINER_ID_LENGTH * i)) [0..<Suc n]"
  let ?rest = "map (\<lambda>i. uuid_at C (randPos S + CONTAINER_ID_LENGTH + CONTAINER_ID_LENGTH * i)) [0..<n]"
  have "?ids = ?u # ?rest" unfolding map_upt_Suc by (simp add: algebra_simps)
  then have i: "distinct (?u # ?rest)" "set (?u # ?rest) \<inter> dom (containerFiles S) = {}"
    using ids unfolding names_free_def Let_def by metis+
  have mq: "mq_map (inputMQ (outc ?s)) = Map.empty" using f(4) by (simp add: mq_map_def)
  have "container_inv ?s"
    unfolding container_inv_def name mq using f c(1,4) files i(2) by (auto simp: const_defs)
  moreover have "fresh_ids C n ?s"
    using i unfolding fresh_ids_def fresh_from_def used_names_def name mq f(5,6) Let_def by auto
  ultimately show "store_inv C n ?s" using C by (simp add: store_inv_def)
  show "recipe_holds C (take 16 (junk @ replicate 16 0), masterKey c) ?s []"
    using c(2,3) f(1,7) C unfolding recipe_holds_def recipe_of_def recipe_rep_def
    by (intro exI [of _ "[]"]) (simp add: entry_bytes_def cfg_ok_def)
  have st: "stored_container ?s = (containerFiles S)(?u \<mapsto> [])"
    unfolding stored_container_def name mq using f(1,5) c(4) by simp
  show "resolve C ?s = chunk_in C ((containerFiles S)(?u \<mapsto> []))"
    by (rule ext) (simp only: resolve_chunk_in st)
qed

section \<open>A sample\<close>

text \<open>
  A configuration in which the cipher adds one to every byte, nothing is compressed and the random
  numbers count up, and a message that carries the chunks \<open>cs\<close>.
\<close>

definition sample_cfg :: enclave_cfg where
  "sample_cfg =
     \<lparr>cfg_evp = plain_evp, cfg_tool = EcallCrypto_new AES_256_GCM SHA_256, cfg_lz4c = (\<lambda>d. []), cfg_lz4d = (\<lambda>p. None),
      cfg_rnd = (\<lambda>i. i div 8), enclaveKey = replicate 32 1, indexQueryKey = replicate 32 2,
      sendChunkBatchSize = 2, sendRecipeBatchSize = 2, topKParam = 2\<rparr>"

lemma sample_cfg_ok: "cfg_ok sample_cfg"
  by (simp add: cfg_ok_def sample_cfg_def key_ok_def lz4_ok_def const_defs tool_ok_def EcallCrypto_new_def)

lemma sample_res_cfg: "res_cfg sample_cfg"
  using sample_cfg_ok by (simp add: res_cfg_def sample_cfg_def Chunk_size_def const_defs)

definition sample_client :: enclave_client where
  "sample_client = blank_client\<lparr>iv := replicate 16 0, sessionKey := replicate 32 3, masterKey := replicate 32 4\<rparr>"

definition sample_storage :: storage where
  "sample_storage = \<lparr>indexStore = Map.empty, containerFiles = Map.empty, randPos = 0\<rparr>"

definition sample_start :: up_state where
  "sample_start = upload_start sample_cfg sample_client [] sample_storage"

definition sample_id :: recipe_id where
  "sample_id = (replicate 16 0, replicate 32 4)"

lemma sample_names: "names_free sample_cfg 4 sample_storage"
  by (simp add: names_free_def sample_storage_def sample_cfg_def uuid_at_def CreateUUID_def const_defs upt_rec ALPHABET_def)

lemma sample_start_inv:
  "store_inv sample_cfg 4 sample_start" "recipe_holds sample_cfg sample_id sample_start []"
  using upload_start_inv [OF sample_cfg_ok, of sample_client sample_storage 4 "[]"] sample_names
  by (simp_all add: sample_start_def sample_client_def blank_client_def sample_storage_def key_ok_def const_defs sample_id_def)

lemma sample_start_fields:
  "sgx sample_start = sample_client" "outQuery (outc sample_start) = []" "indexStore (store sample_start) = Map.empty"
  by (simp_all add: sample_start_def upload_start_def ClientVar_InitUploadBuffer_def sample_storage_def case_prod_beta)

definition sample_msg :: "bytes list \<Rightarrow> net_msg" where
  "sample_msg cs =
     \<lparr>messageType = CLIENT_UPLOAD_CHUNK, clientID = 1, dataSize = of_nat (length (encode_chunks cs)),
      currentItemNum = of_nat (length cs), dataBuffer = map (\<lambda>b. b + 1) (encode_chunks cs)\<rparr>"

definition sample_end :: net_msg where
  "sample_end = \<lparr>messageType = CLIENT_UPLOAD_RECIPE_END, clientID = 1, dataSize = 16, currentItemNum = 0, dataBuffer = replicate 16 7\<rparr>"

definition sample_ready :: net_msg where
  "sample_ready = (blank_msg 1)\<lparr>messageType := CLIENT_RESTORE_READY\<rparr>"

definition sample_chunks :: "bytes list" where
  "sample_chunks = [[1, 2, 3], [4, 5], [1, 2, 3]]"

lemma sample_batch: "batch_of sample_cfg sample_start (sample_msg sample_chunks) sample_chunks"
  by (simp add: batch_of_def carries_def sample_start_fields sample_client_def key_ok_def sample_cfg_def sample_msg_def
      sample_chunks_def Crypto_SessionKeyEnc_def plain_evp_def encode_chunk_def EcallCrypto_new_def const_defs Let_def
      u32_bytes_def rbind_def evp_checked_def)

lemma sample_chunks_ok: "\<forall>d \<in> set sample_chunks. chunk_ok sample_cfg d"
  by (simp add: sample_chunks_def chunk_ok_def sample_cfg_def const_defs)

lemma sample_chunks_length: "length sample_chunks = 3"
  by (simp add: sample_chunks_def)

lemma sample_types:
  "messageType (sample_msg cs) = CLIENT_UPLOAD_CHUNK" "messageType sample_end = CLIENT_UPLOAD_RECIPE_END"
  "messageType sample_ready = CLIENT_RESTORE_READY" "length (fst sample_id) = 16"
  by (simp_all add: sample_msg_def sample_end_def sample_ready_def sample_id_def)

lemma sample_freq_inv: "freq_inv sample_cfg 4 (EcallFreqIndex_new, sample_start)"
  using sample_start_inv(1)
  by (simp add: freq_inv_def sample_start_fields sample_client_def blank_client_def db_ok_def heap_ok_def EcallFreqIndex_new_def
      EntryHeap_Size_def heap_bound_def) (simp add: EntryHeap_new_def heap_content_def sample_cfg_def)

lemma sample_in_inv: "in_inv sample_cfg 4 (Map.empty, sample_start)"
  using sample_start_inv(1) by (simp add: in_inv_def in_lookup_def containers.sound_def)

lemma sample_out_inv: "out_inv sample_cfg 4 sample_start"
  using sample_start_inv(1) by (simp add: out_inv_def sample_start_fields containers.sound_def)

lemma sample_store_inv_lz4: "store_inv (sample_cfg\<lparr>cfg_lz4d := f\<rparr>) (Suc 3) sample_start"
proof -
  have "cfg_ok (sample_cfg\<lparr>cfg_lz4d := f\<rparr>)"
    using sample_cfg_ok by (simp add: cfg_ok_def) (simp add: sample_cfg_def lz4_ok_def)
  moreover have "uuid_at (sample_cfg\<lparr>cfg_lz4d := f\<rparr>) = uuid_at sample_cfg" by (simp add: fun_eq_iff uuid_at_def)
  ultimately show ?thesis using sample_start_inv(1) by (simp add: store_inv_def fresh_ids_def fresh_from_def numeral_eq_Suc)
qed

definition sample_entry_state :: up_state where
  "sample_entry_state = sample_start\<lparr>sgx := sample_client\<lparr>inRecipe := \<lparr>recipeNum = 1, entryList = replicate 16 5\<rparr>\<rparr>\<rparr>"

lemma sample_entry_recipe: "recipe_of sample_cfg sample_entry_state sample_id [replicate 16 5]"
proof -
  have "recipeFile (outc sample_start) = Some (fst sample_id)"
    by (simp add: sample_start_def upload_start_def ClientVar_InitUploadBuffer_def case_prod_beta sample_id_def)
  then have "recipe_rep sample_cfg sample_entry_state sample_id [] [replicate 16 5]"
    by (simp add: recipe_rep_def sample_entry_state_def sample_client_def sample_id_def entry_bytes_def key_ok_def const_defs sample_cfg_def)
  then show ?thesis unfolding recipe_of_def by fastforce
qed

text \<open>A container with one chunk, its address and a recipe for it.\<close>

definition sample_addr :: recipe_entry where
  "sample_addr = \<lparr>containerName = replicate 8 65, re_offset = 0, re_length = 3\<rparr>"

definition sample_disk :: "bytes \<rightharpoonup> bytes" where
  "sample_disk = [replicate 8 65 \<mapsto> [2, 3, 4] @ replicate 16 0]"

lemma sample_disk_ok: "\<forall>b \<in> ran sample_disk. length b \<le> unat MAX_CONTAINER_SIZE"
  by (simp add: sample_disk_def const_defs)

lemma sample_addr_chunk: "wf_entry sample_addr" "chunk_in sample_cfg sample_disk sample_addr = Some [1, 2, 3]"
  by (simp_all add: wf_entry_def sample_addr_def chunk_in_def raw_in_def sample_disk_def const_defs read_at_def Let_def
      recover_chunk_def Ecall_DecryptionWithKeyIV_def evp_checked_def case_prod_beta sample_cfg_def plain_evp_def)

lemma sample_file_rep: "file_rep sample_cfg mk [RecipeEntry_bytes sample_addr] (enc_batch sample_cfg mk [RecipeEntry_bytes sample_addr])"
  unfolding file_rep_def
  by (intro exI [of _ "[]"] exI [of _ "[RecipeEntry_bytes sample_addr]"])
    (simp add: entry_bytes_def sample_addr_chunk(1), simp add: sample_cfg_def)

lemma sample_no_wrap: "no_wrap (cmSketch EcallFreqIndex_new) (length sample_chunks)"
proof -
  have "width (CMSketch_new w d) = w" "depth (CMSketch_new w d) = d" for w d by (simp_all add: CMSketch_new_def)
  then show ?thesis
    by (simp add: no_wrap_def EcallFreqIndex_new_def sketch_wf_new sample_chunks_length)
qed

definition sample_query :: in_query_entry where
  "sample_query = \<lparr>iq_dedupFlag = UNIQUE, iq_chunkHash = replicate CHUNK_HASH_SIZE 7, iq_chunkAddr = blank_addr,
     iq_chunkFreq = 0, iq_chunkSize = 3\<rparr>"

text \<open>A full top-k index of one entry, with the frequency that the sketch estimates.\<close>

definition full_heap :: entry_heap where
  "full_heap = \<lparr>heap_vec = [[7]], heap_index = [[7] \<mapsto> \<lparr>hi_address = sample_addr, chunkFreq = 2, hi_idx = 0\<rparr>]\<rparr>"

definition sample_sketch :: cm_sketch where
  "sample_sketch = \<lparr>width = 1, depth = 1, total = 2, counterArray = [[2]]\<rparr>"

lemma sample_sketch_estimate: "CMSketch_Estimate sample_sketch fp = 2"
  by (simp add: CMSketch_Estimate_def sample_sketch_def sketch_pos_def upt_rec)

lemma full_heap: "EntryHeap_inv full_heap" "Freq_minFreq (sample_cfg\<lparr>topKParam := Suc 0\<rparr>) full_heap = Inr 2"
  by (simp_all add: full_heap_def EntryHeap_inv_def keys_ok_def idx_ok_but_def freqs_def min_heap_def heap_bound_def
      Freq_minFreq_def EntryHeap_Size_def EntryHeap_TopEntry_def heap_freq_def heap_deref_def)

lemma sample_sketch: "freq_bounded sample_sketch full_heap" "no_wrap sample_sketch (Suc (Suc 0))"
  by (auto simp: freq_bounded_def sample_sketch_estimate heap_content_def full_heap_def split: if_splits)
    (simp add: no_wrap_def sample_sketch_def sketch_wf_def)

end
