(* ===== verification/Chunker.thy ===== *)
theory Chunker
  imports Client Complex_Main
begin

text \<open>
  The chunker of the client (\<open>src/Client/chunker.cc\<close>): fixed-size chunking and FastCDC. The input file
  is a list of bytes read through a buffer of \<open>readSize\<close> bytes; \<open>istream::read\<close> sets the end-of-file
  flag when fewer bytes are left than requested. The result is what is pushed to the output queue. The
  trace-driven modes (\<open>FSLChunking\<close>, \<open>UBCChunking\<close>) synthesise chunks from a random generator and are
  not modelled.
\<close>

section \<open>Configuration\<close>

datatype chunker_type = FIXED_SIZE_CHUNKING | FAST_CDC | FSL_TRACE | UBC_TRACE

record chunker_conf =
  conf_type :: "chunker_type option"
  conf_avg :: u64
  conf_min :: u64
  conf_max :: u64
  conf_read :: u64

record chunker =
  chunkerType :: chunker_type
  avgChunkSize :: u64
  minChunkSize :: u64
  maxChunkSize :: u64
  readSize :: u64
  normalSize :: u32
  maskS :: u32
  maskL :: u32

definition CalNormalSize :: "u32 \<Rightarrow> u32 \<Rightarrow> u32 \<Rightarrow> u32" where
  "CalNormalSize mn av mx =
     (let off = mn + DivCeil mn 2;
          off' = (if off > av then av else off);
          diff = av - off'
      in if diff > mx then mx else diff)"

text \<open>The shift is on \<open>int\<close>: with 31 bits it gives the least value, and subtracting one overflows.\<close>

definition GenerateFastCDCMask :: "u32 \<Rightarrow> u32 res" where
  "GenerateFastCDCMask bits =
     (let k = CompareLimit bits 1 31 in
      if k = 31 then Inl (Undefined ''signed overflow'') else Inr (push_bit (unat k) 1 - 1))"

text \<open>\<open>round(log2(n))\<close>, computed exactly: \<open>n\<close> lies above the geometric middle of two powers of two or not.\<close>

fun ilog2 :: "nat \<Rightarrow> nat" where
  "ilog2 n = (if n < 2 then 0 else Suc (ilog2 (n div 2)))"

declare ilog2.simps [simp del]

definition round_log2 :: "nat \<Rightarrow> nat" where
  "round_log2 n = (let k = ilog2 n in if 2 ^ (2 * k + 1) \<le> n * n then Suc k else k)"

definition ChunkerInit :: "chunker_conf \<Rightarrow> chunker res" where
  "ChunkerInit cf =
     (let av = conf_avg cf; mn = conf_min cf; mx = conf_max cf;
          base = \<lparr>chunkerType = FIXED_SIZE_CHUNKING, avgChunkSize = av, minChunkSize = mn, maxChunkSize = mx,
                  readSize = conf_read cf * (1024 * 1024), normalSize = 0, maskS = 0, maskL = 0\<rparr>
      in case conf_type cf of
           None \<Rightarrow> Inl (ProcExit ''error chunker type.'')
         | Some FIXED_SIZE_CHUNKING \<Rightarrow>
             if mn \<ge> av \<or> mn \<ge> mx then Inl (ProcExit ''minChunkSize_ setting error.'')
             else if mx \<le> av \<or> mx \<le> mn then Inl (ProcExit ''maxChunkSize_ setting error.'')
             else Inr base
         | Some FAST_CDC \<Rightarrow>
             if mn \<ge> av \<or> mn \<ge> mx then Inl (ProcExit ''minChunkSize_ setting error.'')
             else if mx \<le> av \<or> mx \<le> mn then Inl (ProcExit ''maxChunkSize_ setting error.'')
             else
               let bits = of_nat (round_log2 (unat av))
               in rbind (GenerateFastCDCMask (bits + 1)) (\<lambda>mS.
                  rbind (GenerateFastCDCMask (bits - 1)) (\<lambda>mL.
                    Inr (base\<lparr>chunkerType := FAST_CDC, normalSize := CalNormalSize (ucast mn) (ucast av) (ucast mx),
                              maskS := mS, maskL := mL\<rparr>)))
         | Some tr \<Rightarrow> Inr (base\<lparr>chunkerType := tr\<rparr>))"

section \<open>Cut points\<close>

definition GEAR :: "u32 list" where
  "GEAR =
    [0x5C95C078, 0x22408989, 0x2D48A214, 0x12842087, 0x530F8AFB, 0x474536B9, 0x2963B4F1, 0x44CB738B,
     0x4EA7403D, 0x4D606B6E, 0x074EC5D3, 0x3AF39D18, 0x726003CA, 0x37A62A74, 0x51A2F58E, 0x7506358E,
     0x5D4AB128, 0x4D4AE17B, 0x41E85924, 0x470C36F7, 0x4741CBE1, 0x01BB7F30, 0x617C1DE3, 0x2B0C3A1F,
     0x50C48F73, 0x21A82D37, 0x6095ACE0, 0x419167A0, 0x3CAF49B0, 0x40CEA62D, 0x66BC1C66, 0x545E1DAD,
     0x2BFA77CD, 0x6E85DA24, 0x5FB0BDC5, 0x652CFC29, 0x3A0AE1AB, 0x2837E0F3, 0x6387B70E, 0x13176012,
     0x4362C2BB, 0x66D8F4B1, 0x37FCE834, 0x2C9CD386, 0x21144296, 0x627268A8, 0x650DF537, 0x2805D579,
     0x3B21EBBD, 0x7357ED34, 0x3F58B583, 0x7150DDCA, 0x7362225E, 0x620A6070, 0x2C5EF529, 0x7B522466,
     0x768B78C0, 0x4B54E51E, 0x75FA07E5, 0x06A35FC6, 0x30B71024, 0x1C8626E1, 0x296AD578, 0x28D7BE2E,
     0x1490A05A, 0x7CEE43BD, 0x698B56E3, 0x09DC0126, 0x4ED6DF6E, 0x02C1BFC7, 0x2A59AD53, 0x29C0E434,
     0x7D6C5278, 0x507940A7, 0x5EF6BA93, 0x68B6AF1E, 0x46537276, 0x611BC766, 0x155C587D, 0x301BA847,
     0x2CC9DDA7, 0x0A438E2C, 0x0A69D514, 0x744C72D3, 0x4F326B9B, 0x7EF34286, 0x4A0EF8A7, 0x6AE06EBE,
     0x669C5372, 0x12402DCB, 0x5FEAE99D, 0x76C7F4A7, 0x6ABDB79C, 0x0DFAA038, 0x20E2282C, 0x730ED48B,
     0x069DAC2F, 0x168ECF3E, 0x2610E61F, 0x2C512C8E, 0x15FB8C06, 0x5E62BC76, 0x69555135, 0x0ADB864C,
     0x4268F914, 0x349AB3AA, 0x20EDFDB2, 0x51727981, 0x37B4B3D8, 0x5DD17522, 0x6B2CBFE4, 0x5C47CF9F,
     0x30FA1CCD, 0x23DEDB56, 0x13D1F50A, 0x64EDDEE7, 0x0820B0F7, 0x46E07308, 0x1E2D1DFD, 0x17B06C32,
     0x250036D8, 0x284DBF34, 0x68292EE0, 0x362EC87C, 0x087CB1EB, 0x76B46720, 0x104130DB, 0x71966387,
     0x482DC43F, 0x2388EF25, 0x524144E1, 0x44BD834E, 0x448E7DA3, 0x3FA6EAF9, 0x3CDA215C, 0x3A500CF3,
     0x395CB432, 0x5195129F, 0x43945F87, 0x51862CA4, 0x56EA8FF1, 0x201034DC, 0x4D328FF5, 0x7D73A909,
     0x6234D379, 0x64CFBF9C, 0x36F6589A, 0x0A2CE98A, 0x5FE4D971, 0x03BC15C5, 0x44021D33, 0x16C1932B,
     0x37503614, 0x1ACAF69D, 0x3F03B779, 0x49E61A03, 0x1F52D7EA, 0x1C6DDD5C, 0x062218CE, 0x07E7A11A,
     0x1905757A, 0x7CE00A53, 0x49F44F29, 0x4BCC70B5, 0x39FEEA55, 0x5242CEE8, 0x3CE56B85, 0x00B81672,
     0x46BEECCC, 0x3CA0AD56, 0x2396CEE8, 0x78547F40, 0x6B08089B, 0x66A56751, 0x781E7E46, 0x1E2CF856,
     0x3BC13591, 0x494A4202, 0x520494D7, 0x2D87459A, 0x757555B6, 0x42284CC1, 0x1F478507, 0x75C95DFF,
     0x35FF8DD7, 0x4E4757ED, 0x2E11F88C, 0x5E1B5048, 0x420E6699, 0x226B0695, 0x4D1679B4, 0x5A22646F,
     0x161D1131, 0x125C68D9, 0x1313E32E, 0x4AA85724, 0x21DC7EC1, 0x4FFA29FE, 0x72968382, 0x1CA8EEF3,
     0x3F3B1C28, 0x39C2FB6C, 0x6D76493F, 0x7A22A62E, 0x789B1C2A, 0x16E0CB53, 0x7DECEEEB, 0x0DC7E1C6,
     0x5C75BF3D, 0x52218333, 0x106DE4D6, 0x7DC64422, 0x65590FF4, 0x2C02EC30, 0x64A9AC67, 0x59CAB2E9,
     0x4A21D2F3, 0x0F616E57, 0x23B54EE8, 0x02730AAA, 0x2F3C634D, 0x7117FC6C, 0x01AC6F05, 0x5A9ED20C,
     0x158C4E2A, 0x42B699F0, 0x0C7C14B3, 0x02BD9641, 0x15AD56FC, 0x1C722F60, 0x7DA1AF91, 0x23E0DBCB,
     0x0E93E12B, 0x64B2791D, 0x440D2476, 0x588EA8DD, 0x4665A658, 0x7446C418, 0x1877A774, 0x5626407E,
     0x7F63BD46, 0x32D2DBD8, 0x3C790F4A, 0x772B7239, 0x6F8B2826, 0x677FF609, 0x0DC82C11, 0x23FFE354,
     0x2EAC53A6, 0x16139E09, 0x0AFD0DBC, 0x2A4D4237, 0x56A368C7, 0x234325E4, 0x2DCE9187, 0x32E8EA7E]"

text \<open>One of the two loops of \<open>CutPoint\<close>: \<open>Inl\<close> is its \<open>return\<close>, \<open>Inr\<close> the state at its end.\<close>

function cut_loop :: "u32 \<Rightarrow> bytes \<Rightarrow> nat \<Rightarrow> nat \<Rightarrow> u32 \<Rightarrow> nat + nat \<times> u32" where
  "cut_loop msk src n i fp =
     (if i < n then
        let fp' = drop_bit 1 fp + GEAR ! unat (src ! i) in
        if fp' AND msk = 0 then Inl (i + 1) else cut_loop msk src n (i + 1) fp'
      else Inr (i, fp))"
  by pat_completeness auto
termination
  by (relation "measure (\<lambda>(msk, src, n, i, fp). n - i)") auto

declare cut_loop.simps [simp del]

definition CutPoint :: "chunker \<Rightarrow> bytes \<Rightarrow> u32 \<Rightarrow> nat" where
  "CutPoint c src len =
     (let i = min (unat len) (unat (ucast (minChunkSize c) :: u32)) in
      case cut_loop (maskS c) src (min (unat (normalSize c)) (unat len)) i 0 of
        Inl r \<Rightarrow> r
      | Inr (i, fp) \<Rightarrow>
          (case cut_loop (maskL c) src (min (unat (ucast (maxChunkSize c) :: u32)) (unat len)) i fp of
             Inl r \<Rightarrow> r
           | Inr (i, fp) \<Rightarrow> i))"

section \<open>Chunking a file\<close>

text \<open>What goes to the queue: a chunk, or the end of the recipe.\<close>

datatype data_item = DATA_CHUNK bytes | RECIPE_END file_recipe_head

definition chunking_items :: "bytes list \<Rightarrow> data_item list" where
  "chunking_items cs = map DATA_CHUNK cs @
     [RECIPE_END \<lparr>fileSize = of_nat (length (concat cs)), totalChunkNum = of_nat (length cs)\<rparr>]"

text \<open>Copying a chunk into \<open>tempChunk.chunk.data\<close>.\<close>

definition put_data :: "bytes \<Rightarrow> bytes res" where
  "put_data d = (if length d > unat MAX_CHUNK_SIZE then Inl (Undefined ''chunk buffer overflow'') else Inr d)"

function fix_buffer :: "nat \<Rightarrow> bytes \<Rightarrow> bytes list \<Rightarrow> bytes list res" where
  "fix_buffer av buf cs =
     (if buf = [] then Inr cs
      else if length buf > av then
        if av = 0 then Inl Diverges
        else rbind (put_data (take av buf)) (\<lambda>d. fix_buffer av (drop av buf) (cs @ [d]))
      else rbind (put_data buf) (\<lambda>d. Inr (cs @ [d])))"
  by pat_completeness auto
termination
  by (relation "measure (\<lambda>(av, buf, cs). length buf)") auto

declare fix_buffer.simps [simp del]

function fixSizeChunking :: "chunker \<Rightarrow> bytes \<Rightarrow> bytes list \<Rightarrow> bytes list res" where
  "fixSizeChunking c inp cs =
     (let buf = take (unat (readSize c)) inp;
          eof = (length inp < unat (readSize c))
      in if buf = [] then Inr cs
         else rbind (fix_buffer (unat (avgChunkSize c)) buf cs) (\<lambda>cs'.
           if eof then Inr cs' else fixSizeChunking c (drop (unat (readSize c)) inp) cs'))"
  by pat_completeness auto
termination
  by (relation "measure (\<lambda>(c, inp, cs). length inp)") (auto simp: take_eq_Nil)

declare fixSizeChunking.simps [simp del]

text \<open>
  The inner loop of \<open>FastCDC\<close>. Every round but one of length zero moves the offset, so the fuel
  \<open>Suc (length buf)\<close> given to it runs out only when the loop stands still.
\<close>

primrec cdc_buffer :: "nat \<Rightarrow> chunker \<Rightarrow> bool \<Rightarrow> bytes \<Rightarrow> nat \<Rightarrow> bytes list \<Rightarrow> (bytes list \<times> nat) res" where
  "cdc_buffer 0 c eof buf localOffset cs = Inl Diverges"
| "cdc_buffer (Suc n) c eof buf localOffset cs =
     (if length buf - localOffset \<ge> unat (maxChunkSize c) \<or> (eof \<and> localOffset < length buf) then
        let cp = CutPoint c (drop localOffset buf) (of_nat (length buf - localOffset)) in
        rbind (put_data (read_at buf localOffset cp)) (\<lambda>d.
          cdc_buffer n c eof buf (localOffset + cp) (cs @ [d]))
      else Inr (cs, localOffset))"

primrec cdc_file :: "nat \<Rightarrow> chunker \<Rightarrow> bytes \<Rightarrow> nat \<Rightarrow> bytes list \<Rightarrow> bytes list res" where
  "cdc_file 0 c inp totalOffset cs = Inl Diverges"
| "cdc_file (Suc n) c inp totalOffset cs =
     (let buf = take (unat (readSize c)) (drop totalOffset inp);
          eof = (length (drop totalOffset inp) < unat (readSize c))
      in if buf = [] then Inr cs
         else rbind (cdc_buffer (Suc (length buf)) c eof buf 0 cs) (\<lambda>(cs', localOffset).
           if eof then Inr cs' else cdc_file n c inp (totalOffset + localOffset) cs'))"

definition FastCDC :: "chunker \<Rightarrow> bytes \<Rightarrow> bytes list res" where
  "FastCDC c inp = cdc_file (length inp + 2) c inp 0 []"

text \<open>\<open>trace\<close> stands for the two trace-driven modes.\<close>

definition Chunking :: "(chunker \<Rightarrow> bytes \<Rightarrow> bytes list res) \<Rightarrow> chunker \<Rightarrow> bytes \<Rightarrow> data_item list res" where
  "Chunking trace c inp =
     rbind (case chunkerType c of
              FIXED_SIZE_CHUNKING \<Rightarrow> fixSizeChunking c inp []
            | FAST_CDC \<Rightarrow> FastCDC c inp
            | _ \<Rightarrow> trace c inp) (\<lambda>cs. Inr (chunking_items cs))"

section \<open>Where a chunk ends\<close>

definition chunker_ok :: "chunker \<Rightarrow> bool" where
  "chunker_ok c \<longleftrightarrow> minChunkSize c < maxChunkSize c \<and> unat (normalSize c) \<le> unat (maxChunkSize c) \<and>
     unat (maxChunkSize c) \<le> unat MAX_CHUNK_SIZE"

lemma unat_ucast_u32: "unat (w :: u64) < 2 ^ 32 \<Longrightarrow> unat (ucast w :: u32) = unat w"
  by (simp add: unsigned_ucast_eq take_bit_nat_eq_self)

lemma chunker_ok_casts:
  assumes "chunker_ok c"
  shows "unat (ucast (minChunkSize c) :: u32) = unat (minChunkSize c)"
    and "unat (ucast (maxChunkSize c) :: u32) = unat (maxChunkSize c)"
    and "unat (minChunkSize c) < unat (maxChunkSize c)" and "unat (maxChunkSize c) \<le> 16384"
  using assms by (simp_all add: chunker_ok_def unat_ucast_u32 word_less_nat_alt const_defs)

lemma cut_loop_Inl: "cut_loop msk src n i fp = Inl r \<Longrightarrow> i < r \<and> r \<le> n"
  by (induction msk src n i fp rule: cut_loop.induct)
    (subst (asm) cut_loop.simps, fastforce simp: Let_def split: if_splits)

lemma cut_loop_Inr: "cut_loop msk src n i fp = Inr (j, fp') \<Longrightarrow> j = max i n"
  by (induction msk src n i fp rule: cut_loop.induct)
    (subst (asm) cut_loop.simps, fastforce simp: Let_def split: if_splits)

lemma cut_loop_prefix:
  assumes "\<And>k. k < n \<Longrightarrow> src ! k = src' ! k"
  shows "cut_loop msk src n i fp = cut_loop msk src' n i fp"
  using assms
proof (induction msk src n i fp rule: cut_loop.induct)
  case (1 msk src n i fp)
  then show ?case by (subst (1 2) cut_loop.simps) (simp add: Let_def)
qed

text \<open>A cut lies between the smallest and the largest size, or at the end.\<close>

lemma CutPoint_bounds:
  assumes ok: "chunker_ok c" and len: "0 < unat len"
  shows "0 < CutPoint c src len" and "min (unat len) (unat (minChunkSize c)) \<le> CutPoint c src len"
    and "CutPoint c src len \<le> min (unat len) (unat (maxChunkSize c))"
proof -
  note k = chunker_ok_casts [OF ok]
  have nz: "unat (normalSize c) \<le> unat (maxChunkSize c)" using ok by (simp add: chunker_ok_def)
  let ?i = "min (unat len) (unat (minChunkSize c))" and ?n = "min (unat (normalSize c)) (unat len)"
    and ?m = "min (unat (maxChunkSize c)) (unat len)"
  have m: "0 < ?m" "?i \<le> ?m" using len k by linarith+
  have "?i \<le> CutPoint c src len \<and> CutPoint c src len \<le> ?m \<and> 0 < CutPoint c src len"
  proof (cases "cut_loop (maskS c) src ?n ?i 0")
    case (Inl r)
    from cut_loop_Inl [OF this] Inl nz show ?thesis by (auto simp: CutPoint_def k)
  next
    case (Inr x)
    obtain i1 fp1 where x: "x = (i1, fp1)" by (cases x)
    have i1: "i1 = max ?i ?n" using cut_loop_Inr Inr x by metis
    then have i1m: "?i \<le> i1" "i1 \<le> ?m" using m(2) nz by auto
    show ?thesis
    proof (cases "cut_loop (maskL c) src ?m i1 fp1")
      case (Inl r)
      from cut_loop_Inl [OF this] Inl Inr x i1m show ?thesis by (auto simp: CutPoint_def k)
    next
      case (Inr y)
      obtain i2 fp2 where y: "y = (i2, fp2)" by (cases y)
      have "i2 = max i1 ?m" using cut_loop_Inr Inr y by metis
      then have "i2 = ?m" using i1m by simp
      moreover have "CutPoint c src len = i2"
        using Inr y x \<open>cut_loop (maskS c) src ?n ?i 0 = Inr x\<close> by (simp add: CutPoint_def k)
      ultimately show ?thesis using m by simp
    qed
  qed
  then show "0 < CutPoint c src len" "min (unat len) (unat (minChunkSize c)) \<le> CutPoint c src len"
    "CutPoint c src len \<le> min (unat len) (unat (maxChunkSize c))" by simp_all
qed

text \<open>A cut depends on the next \<open>maxChunkSize\<close> bytes only.\<close>

lemma CutPoint_prefix:
  assumes ok: "chunker_ok c"
    and len: "min (unat len) (unat (maxChunkSize c)) = min (unat len') (unat (maxChunkSize c))"
    and src: "\<And>k. k < min (unat len) (unat (maxChunkSize c)) \<Longrightarrow> src ! k = src' ! k"
  shows "CutPoint c src len = CutPoint c src' len'"
proof -
  note k = chunker_ok_casts [OF ok]
  have nz: "unat (normalSize c) \<le> unat (maxChunkSize c)" using ok by (simp add: chunker_ok_def)
  have i: "min (unat len) (unat (minChunkSize c)) = min (unat len') (unat (minChunkSize c))"
    "min (unat (normalSize c)) (unat len) = min (unat (normalSize c)) (unat len')"
    "min (unat (maxChunkSize c)) (unat len) = min (unat (maxChunkSize c)) (unat len')"
    using len nz k(3) by linarith+
  have e: "cut_loop m src n i fp = cut_loop m src' n i fp" if "n \<le> min (unat len) (unat (maxChunkSize c))" for m n i fp
    using that by (intro cut_loop_prefix src) simp
  have e1: "cut_loop m src (min (unat (normalSize c)) (unat len')) i fp = cut_loop m src' (min (unat (normalSize c)) (unat len')) i fp" for m i fp
    using nz len by (intro e) simp
  have e2: "cut_loop m src (min (unat (maxChunkSize c)) (unat len')) i fp = cut_loop m src' (min (unat (maxChunkSize c)) (unat len')) i fp" for m i fp
    using len by (intro e) simp
  show ?thesis unfolding CutPoint_def k i Let_def e1 e2 ..
qed

section \<open>Reference chunking\<close>

text \<open>FastCDC on the whole file, without a read buffer.\<close>

definition cut_at :: "chunker \<Rightarrow> bytes \<Rightarrow> nat" where
  "cut_at c f = CutPoint c f (of_nat (min (length f) (unat (maxChunkSize c))))"

function cdc_chunks :: "chunker \<Rightarrow> bytes \<Rightarrow> bytes list" where
  "cdc_chunks c f =
     (if f = [] \<or> cut_at c f = 0 then [] else take (cut_at c f) f # cdc_chunks c (drop (cut_at c f) f))"
  by pat_completeness auto
termination
  by (relation "measure (\<lambda>(c, f). length f)") auto

declare cdc_chunks.simps [simp del]

lemma cut_at_bounds:
  assumes "chunker_ok c" and "f \<noteq> []"
  shows "0 < cut_at c f" and "min (length f) (unat (minChunkSize c)) \<le> cut_at c f"
    and "cut_at c f \<le> length f" and "cut_at c f \<le> unat (maxChunkSize c)"
proof -
  note k = chunker_ok_casts [OF assms(1)]
  let ?l = "of_nat (min (length f) (unat (maxChunkSize c))) :: u32"
  have l: "unat ?l = min (length f) (unat (maxChunkSize c))" using k(4) by (intro unat_of_nat_u32) simp
  have "0 < unat ?l" unfolding l using assms(2) k(3) by simp
  note b = CutPoint_bounds [OF assms(1) this, of f]
  show "0 < cut_at c f" "min (length f) (unat (minChunkSize c)) \<le> cut_at c f"
    "cut_at c f \<le> length f" "cut_at c f \<le> unat (maxChunkSize c)"
    unfolding cut_at_def using b k(3) by (simp_all add: l)
qed

lemma cdc_chunks_Nil [simp]: "cdc_chunks c [] = []"
  by (subst cdc_chunks.simps) simp

lemma cdc_chunks_step:
  "chunker_ok c \<Longrightarrow> f \<noteq> [] \<Longrightarrow> cdc_chunks c f = take (cut_at c f) f # cdc_chunks c (drop (cut_at c f) f)"
  using cut_at_bounds(1) by (subst cdc_chunks.simps) simp

text \<open>The sizes of all chunks but the last lie between the two limits.\<close>

definition sizes_ok :: "nat \<Rightarrow> nat \<Rightarrow> bytes list \<Rightarrow> bool" where
  "sizes_ok mn mx cs \<longleftrightarrow> (\<forall>d \<in> set cs. d \<noteq> [] \<and> length d \<le> mx) \<and> (\<forall>d \<in> set (butlast cs). mn \<le> length d)"

lemma sizes_ok_Cons:
  "sizes_ok mn mx (d # cs) \<longleftrightarrow> d \<noteq> [] \<and> length d \<le> mx \<and> (cs = [] \<or> mn \<le> length d) \<and> sizes_ok mn mx cs"
  by (auto simp: sizes_ok_def)

lemma cdc_chunks_partition:
  assumes "chunker_ok c"
  shows "concat (cdc_chunks c f) = f \<and> sizes_ok (unat (minChunkSize c)) (unat (maxChunkSize c)) (cdc_chunks c f)"
proof (induction f rule: length_induct)
  case (1 f)
  show ?case
  proof (cases "f = []")
    case True
    then show ?thesis by (simp add: sizes_ok_def)
  next
    case False
    note b = cut_at_bounds [OF assms False] and st = cdc_chunks_step [OF assms False]
    let ?r = "drop (cut_at c f) f"
    have "length ?r < length f" using b(1) False by simp
    with 1 have ih: "concat (cdc_chunks c ?r) = ?r" "sizes_ok (unat (minChunkSize c)) (unat (maxChunkSize c)) (cdc_chunks c ?r)"
      by blast+
    have last: "cdc_chunks c ?r = [] \<or> unat (minChunkSize c) \<le> length (take (cut_at c f) f)"
    proof (cases "length f \<le> unat (minChunkSize c)")
      case True
      then have "?r = []" using b(2) by simp
      then show ?thesis by simp
    next
      case False
      then show ?thesis using b(2,3) by simp
    qed
    show ?thesis unfolding st sizes_ok_Cons using ih last b False by simp
  qed
qed

section \<open>The read buffer does not matter\<close>

lemma cut_in_buffer:
  assumes ok: "chunker_ok c" and b: "length (take R g) < 2 ^ 32" and off: "off < length (take R g)"
    and go: "unat (maxChunkSize c) \<le> length (take R g) - off \<or> length g < R"
  shows "CutPoint c (drop off (take R g)) (of_nat (length (take R g) - off)) = cut_at c (drop off g)"
proof -
  let ?l = "of_nat (length (take R g) - off) :: u32"
    and ?l' = "of_nat (min (length (drop off g)) (unat (maxChunkSize c))) :: u32"
  have l: "unat ?l = length (take R g) - off" using b by (intro unat_of_nat_u32) simp
  have l': "unat ?l' = min (length (drop off g)) (unat (maxChunkSize c))"
    using chunker_ok_casts(4) [OF ok] by (intro unat_of_nat_u32) simp
  have m: "min (unat ?l) (unat (maxChunkSize c)) = min (unat ?l') (unat (maxChunkSize c))"
    unfolding l l' using go off by auto
  show ?thesis unfolding cut_at_def
  proof (rule CutPoint_prefix [OF ok m])
    fix k
    assume "k < min (unat ?l) (unat (maxChunkSize c))"
    then have "off + k < length (take R g)" unfolding l by linarith
    then show "drop off (take R g) ! k = drop off g ! k" by simp
  qed
qed

lemma cdc_buffer_ok:
  assumes ok: "chunker_ok c" and b: "length (take R g) < 2 ^ 32" and off: "off \<le> length (take R g)"
    and n: "length (take R g) - off \<le> n"
  shows "\<exists>ds off'. cdc_buffer (Suc n) c (length g < R) (take R g) off cs = Inr (cs @ ds, off') \<and>
     off \<le> off' \<and> off' \<le> length (take R g) \<and> cdc_chunks c (drop off g) = ds @ cdc_chunks c (drop off' g) \<and>
     length (take R g) - off' < unat (maxChunkSize c) \<and> (length g < R \<longrightarrow> off' = length g)"
  using off n
proof (induction n arbitrary: off cs)
  case 0
  then have "off = length (take R g)" by linarith
  then show ?case using chunker_ok_casts(3) [OF ok] by auto
next
  case (Suc n)
  let ?buf = "take R g"
  show ?case
  proof (cases "unat (maxChunkSize c) \<le> length ?buf - off \<or> (length g < R \<and> off < length ?buf)")
    case False
    then have "\<not> length g < R \<or> off = length g" using Suc.prems(1) by auto
    then show ?thesis using False Suc.prems(1)
      by (intro exI [of _ "[]"] exI [of _ off]) auto
  next
    case True
    have o: "off < length ?buf" using True chunker_ok_casts(3) [OF ok] by auto
    have go: "unat (maxChunkSize c) \<le> length ?buf - off \<or> length g < R" using True by blast
    note cut = cut_in_buffer [OF ok b o go]
    define cp where "cp = cut_at c (drop off g)"
    have ne: "drop off g \<noteq> []" using o by simp
    have bb: "0 < cp" "cp \<le> length ?buf - off" "cp \<le> unat MAX_CHUNK_SIZE"
    proof -
      show "0 < cp" using cut_at_bounds(1) [OF ok ne] by (simp add: cp_def)
      have l: "unat (of_nat (length ?buf - off) :: u32) = length ?buf - off" using b by (intro unat_of_nat_u32) simp
      show "cp \<le> length ?buf - off"
        using CutPoint_bounds(3) [OF ok, of "of_nat (length ?buf - off)" "drop off ?buf"] cut l o by (simp add: cp_def)
      show "cp \<le> unat MAX_CHUNK_SIZE" using cut_at_bounds(4) [OF ok ne] ok by (simp add: cp_def chunker_ok_def)
    qed
    have d: "read_at ?buf off cp = take cp (drop off g)" using bb(2) by (simp add: read_at_def drop_take)
    have p: "put_data (take cp (drop off g)) = Inr (take cp (drop off g))" using bb(3) by (simp add: put_data_def)
    have step: "cdc_buffer (Suc (Suc n)) c (length g < R) ?buf off cs =
        cdc_buffer (Suc n) c (length g < R) ?buf (off + cp) (cs @ [take cp (drop off g)])"
      using True cut p d by (subst cdc_buffer.simps(2)) (simp add: cp_def [symmetric] Let_def)
    have "off + cp \<le> length ?buf" "length ?buf - (off + cp) \<le> n" using bb(1,2) Suc.prems o by linarith+
    from Suc.IH [OF this, of "cs @ [take cp (drop off g)]"] obtain ds off' where
      r: "cdc_buffer (Suc n) c (length g < R) ?buf (off + cp) (cs @ [take cp (drop off g)]) = Inr ((cs @ [take cp (drop off g)]) @ ds, off')"
        "off + cp \<le> off'" "off' \<le> length ?buf" "cdc_chunks c (drop (off + cp) g) = ds @ cdc_chunks c (drop off' g)"
        "length ?buf - off' < unat (maxChunkSize c)" "length g < R \<longrightarrow> off' = length g"
      by blast
    have "cdc_chunks c (drop off g) = take cp (drop off g) # cdc_chunks c (drop (off + cp) g)"
      using cdc_chunks_step [OF ok ne] by (simp add: cp_def [symmetric] add.commute)
    with r step show ?thesis
      by (intro exI [of _ "take cp (drop off g) # ds"] exI [of _ off']) simp
  qed
qed

lemma cdc_file_ok:
  assumes ok: "chunker_ok c" and R: "unat (maxChunkSize c) \<le> unat (readSize c)" "unat (readSize c) < 2 ^ 32"
    and n: "length (drop off inp) < n"
  shows "cdc_file n c inp off cs = Inr (cs @ cdc_chunks c (drop off inp))"
  using n
proof (induction n arbitrary: off cs)
  case 0
  then show ?case by simp
next
  case (Suc n)
  let ?R = "unat (readSize c)" and ?g = "drop off inp"
  show ?case
  proof (cases "?g = []")
    case True
    then show ?thesis by (simp add: Let_def)
  next
    case False
    have m: "0 < unat (maxChunkSize c)" using chunker_ok_casts(3) [OF ok] by simp
    then have ne: "take ?R ?g \<noteq> []" using False R(1) by auto
    have b: "length (take ?R ?g) < 2 ^ 32" using R(2) by simp
    from cdc_buffer_ok [OF ok b, of 0 "length (take ?R ?g)" cs] obtain ds off' where
      r: "cdc_buffer (Suc (length (take ?R ?g))) c (length ?g < ?R) (take ?R ?g) 0 cs = Inr (cs @ ds, off')"
        "off' \<le> length (take ?R ?g)" "cdc_chunks c ?g = ds @ cdc_chunks c (drop off' ?g)"
        "length (take ?R ?g) - off' < unat (maxChunkSize c)" "length ?g < ?R \<longrightarrow> off' = length ?g"
      by auto
    have step: "cdc_file (Suc n) c inp off cs =
        (if length ?g < ?R then Inr (cs @ ds) else cdc_file n c inp (off + off') (cs @ ds))"
      using ne r(1) by (subst cdc_file.simps(2)) (simp only: Let_def if_False rbind_Inr prod.case)
    show ?thesis
    proof (cases "length ?g < ?R")
      case True
      then have "drop off' ?g = []" using r(5) by simp
      then show ?thesis using step True r(3) by simp
    next
      case False
      then have "0 < off'" using r(2,4) R(1) by (cases "off' = 0") auto
      then have "length (drop (off + off') inp) < n" using Suc.prems \<open>?g \<noteq> []\<close> by auto
      from Suc.IH [OF this, of "cs @ ds"] step False r(3) show ?thesis by (simp add: add.commute)
    qed
  qed
qed

lemma FastCDC_eq:
  assumes "chunker_ok c" and "unat (maxChunkSize c) \<le> unat (readSize c)" and "unat (readSize c) < 2 ^ 32"
  shows "FastCDC c inp = Inr (cdc_chunks c inp)"
  using cdc_file_ok [where off = 0 and n = "length inp + 2" and cs = "[]" and inp = inp, OF assms] by (simp add: FastCDC_def)

text \<open>A read buffer smaller than the largest chunk never lets the loop advance.\<close>

lemma cdc_file_stalls:
  assumes "unat (readSize c) < unat (maxChunkSize c)" and "0 < unat (readSize c)" and "unat (readSize c) \<le> length inp"
  shows "cdc_file n c inp 0 cs = Inl Diverges"
proof (induction n)
  case 0
  then show ?case by simp
next
  case (Suc n)
  have "take (unat (readSize c)) inp \<noteq> []" using assms(2,3) by auto
  then show ?case using assms Suc by (simp add: Let_def)
qed

section \<open>Fixed-size chunks\<close>

lemma fix_buffer_ok:
  assumes "0 < av" and "av \<le> unat MAX_CHUNK_SIZE"
  shows "\<exists>ds. fix_buffer av buf cs = Inr (cs @ ds) \<and> concat ds = buf \<and> sizes_ok av av ds"
proof (induction buf arbitrary: cs rule: length_induct)
  case (1 buf)
  consider "buf = []" | "buf \<noteq> []" "length buf \<le> av" | "av < length buf" by fastforce
  then show ?case
  proof cases
    case 1
    then show ?thesis by (subst fix_buffer.simps) (simp add: sizes_ok_def)
  next
    case 2
    then have "fix_buffer av buf cs = Inr (cs @ [buf])"
      using assms by (subst fix_buffer.simps) (simp add: put_data_def)
    then show ?thesis using 2 by (intro exI [of _ "[buf]"]) (simp add: sizes_ok_def)
  next
    case 3
    have "length (drop av buf) < length buf" using 3 assms(1) by simp
    with 1 obtain ds where ds: "fix_buffer av (drop av buf) (cs @ [take av buf]) = Inr ((cs @ [take av buf]) @ ds)"
      "concat ds = drop av buf" "sizes_ok av av ds" by blast
    have "fix_buffer av buf cs = Inr (cs @ take av buf # ds)"
      using 3 assms ds(1) by (subst fix_buffer.simps) (auto simp: put_data_def)
    then show ?thesis
      using 3 ds assms(1) by (intro exI [of _ "take av buf # ds"]) (auto simp: sizes_ok_Cons)
  qed
qed

lemma fixSizeChunking_ok:
  assumes av: "0 < unat (avgChunkSize c)" "unat (avgChunkSize c) \<le> unat MAX_CHUNK_SIZE" and R: "0 < unat (readSize c)"
  shows "\<exists>ds. fixSizeChunking c inp cs = Inr (cs @ ds) \<and> concat ds = inp \<and>
     (\<forall>d \<in> set ds. d \<noteq> [] \<and> length d \<le> unat (avgChunkSize c))"
proof (induction inp arbitrary: cs rule: length_induct)
  case (1 inp)
  let ?R = "unat (readSize c)"
  show ?case
  proof (cases "inp = []")
    case True
    then show ?thesis by (subst fixSizeChunking.simps) (simp add: Let_def)
  next
    case False
    then have ne: "take ?R inp \<noteq> []" using R by simp
    from fix_buffer_ok [OF av, of "take ?R inp" cs] obtain ds where
      ds: "fix_buffer (unat (avgChunkSize c)) (take ?R inp) cs = Inr (cs @ ds)" "concat ds = take ?R inp"
        "\<forall>d \<in> set ds. d \<noteq> [] \<and> length d \<le> unat (avgChunkSize c)" by (auto simp: sizes_ok_def)
    have step: "fixSizeChunking c inp cs =
        (if length inp < ?R then Inr (cs @ ds) else fixSizeChunking c (drop ?R inp) (cs @ ds))"
      using ne ds(1) by (subst fixSizeChunking.simps) (simp only: Let_def if_False rbind_Inr)
    show ?thesis
    proof (cases "length inp < ?R")
      case True
      then show ?thesis using step ds by (intro exI [of _ ds]) simp
    next
      case False
      have "length (drop ?R inp) < length inp" using R \<open>inp \<noteq> []\<close> by simp
      with 1 obtain es where es: "fixSizeChunking c (drop ?R inp) (cs @ ds) = Inr ((cs @ ds) @ es)"
        "concat es = drop ?R inp" "\<forall>d \<in> set es. d \<noteq> [] \<and> length d \<le> unat (avgChunkSize c)" by blast
      then show ?thesis using step False ds by (intro exI [of _ "ds @ es"]) auto
    qed
  qed
qed

section \<open>What initialisation gives\<close>

lemma CalNormalSize_le: "unat (CalNormalSize mn av mx) \<le> unat mx"
  by (simp add: CalNormalSize_def Let_def word_less_nat_alt not_less)

lemma ChunkerInit_FastCDC:
  assumes "ChunkerInit cf = Inr c" and "conf_type cf = Some FAST_CDC" and "unat (conf_max cf) \<le> unat MAX_CHUNK_SIZE"
  shows "chunker_ok c \<and> chunkerType c = FAST_CDC \<and> maxChunkSize c = conf_max cf \<and> minChunkSize c = conf_min cf \<and>
     readSize c = conf_read cf * (1024 * 1024)"
proof -
  have u: "unat (ucast (conf_max cf) :: u32) = unat (conf_max cf)"
    using assms(3) by (intro unat_ucast_u32) (simp add: const_defs)
  from assms(1,2) have "conf_min cf < conf_max cf"
    and c: "chunkerType c = FAST_CDC" "maxChunkSize c = conf_max cf" "minChunkSize c = conf_min cf"
      "readSize c = conf_read cf * (1024 * 1024)"
      "normalSize c = CalNormalSize (ucast (conf_min cf)) (ucast (conf_avg cf)) (ucast (conf_max cf))"
    by (auto simp: ChunkerInit_def Let_def rbind_eq_Inr split: if_splits)
  then show ?thesis
    using assms(3) CalNormalSize_le [of "ucast (conf_min cf)" "ucast (conf_avg cf)" "ucast (conf_max cf)"] u
    by (simp add: chunker_ok_def)
qed

text \<open>The configuration in \<open>config.json\<close>.\<close>

definition default_conf :: chunker_conf where
  "default_conf = \<lparr>conf_type = Some FAST_CDC, conf_avg = 8192, conf_min = 4096, conf_max = 16384, conf_read = 128\<rparr>"

lemma round_log2_8192: "round_log2 8192 = 13"
  by (simp add: round_log2_def ilog2.simps)

lemma ChunkerInit_default:
  "ChunkerInit default_conf =
     Inr \<lparr>chunkerType = FAST_CDC, avgChunkSize = 8192, minChunkSize = 4096, maxChunkSize = 16384,
          readSize = 134217728, normalSize = 2048, maskS = 16383, maskL = 4095\<rparr>"
  by (simp add: ChunkerInit_def default_conf_def round_log2_8192 GenerateFastCDCMask_def CompareLimit_def CalNormalSize_def DivCeil_def word_le_nat_alt word_less_nat_alt)

text \<open>\<open>round_log2\<close> is the rounded binary logarithm over the reals.\<close>

lemma ilog2_bounds: "0 < n \<Longrightarrow> 2 ^ ilog2 n \<le> n \<and> n < 2 ^ Suc (ilog2 n)"
proof (induction n rule: ilog2.induct)
  case (1 n)
  show ?case
  proof (cases "n < 2")
    case True
    then show ?thesis using "1.prems" by (simp add: ilog2.simps)
  next
    case False
    then have "2 ^ ilog2 (n div 2) \<le> n div 2 \<and> n div 2 < 2 ^ Suc (ilog2 (n div 2))" using "1.IH" by simp
    moreover have "ilog2 n = Suc (ilog2 (n div 2))" using False by (subst ilog2.simps) simp
    moreover have "2 * p \<le> n \<and> n < 4 * p" if "p \<le> n div 2 \<and> n div 2 < 2 * p" for p using that by linarith
    ultimately show ?thesis by simp
  qed
qed

lemma log2_square:
  assumes "0 < n"
  shows "real k + 1 / 2 \<le> log 2 (real n) \<longleftrightarrow> 2 ^ (2 * k + 1) \<le> n * n"
proof -
  have "real k + 1 / 2 \<le> log 2 (real n) \<longleftrightarrow> real (2 * k + 1) \<le> log 2 (real n ^ 2)"
    using assms by (simp add: log_nat_power field_simps)
  also have "\<dots> \<longleftrightarrow> 2 powr real (2 * k + 1) \<le> real n ^ 2"
    using assms by (intro le_log_iff) simp_all
  also have "\<dots> \<longleftrightarrow> (2 :: real) ^ (2 * k + 1) \<le> real n ^ 2" by (subst powr_realpow) simp_all
  also have "\<dots> \<longleftrightarrow> real (2 ^ (2 * k + 1)) \<le> real (n * n)" by (simp add: power2_eq_square)
  also have "\<dots> \<longleftrightarrow> 2 ^ (2 * k + 1) \<le> n * n" by (rule of_nat_le_iff)
  finally show ?thesis .
qed

lemma round_log2_real:
  assumes "0 < n"
  shows "round (log 2 (real n)) = int (round_log2 n)"
proof -
  let ?k = "ilog2 n" and ?x = "log 2 (real n)"
  have b: "2 ^ ?k \<le> n" "n < 2 ^ Suc ?k" using ilog2_bounds [OF assms] by blast+
  have "2 ^ ?k \<le> real n" "real n < 2 ^ Suc ?k"
    using b by (metis of_nat_le_iff of_nat_numeral of_nat_power, metis of_nat_less_iff of_nat_numeral of_nat_power)
  then have x: "real ?k \<le> ?x" "?x < real (Suc ?k)"
    using assms log2_of_power_less [of n "Suc (ilog2 n)"] le_log2_of_power [of "ilog2 n" n] b by simp_all
  show ?thesis
  proof (cases "2 ^ (2 * ?k + 1) \<le> n * n")
    case True
    then show ?thesis
      using x log2_square [OF assms, of ?k] by (simp add: round_def round_log2_def floor_eq_iff)
  next
    case False
    then show ?thesis
      using x log2_square [OF assms, of ?k] by (simp add: round_def round_log2_def floor_eq_iff)
  qed
qed

section \<open>Properties\<close>

text \<open>
  (C27) FastCDC through the read buffer gives the same chunks as cutting the whole file at once: the cut
  points do not depend on how many bytes are read at a time, as long as a buffer holds one chunk of the
  largest size. In particular the loop ends.
\<close>

theorem FastCDC_buffer_independent:
  assumes "chunker_ok c" and "unat (maxChunkSize c) \<le> unat (readSize c)" and "unat (readSize c) < 2 ^ 32"
  shows "FastCDC c inp = Inr (cdc_chunks c inp)"
  using assms by (rule FastCDC_eq)

text \<open>A small chunker that the evaluations below use.\<close>

definition small_chunker :: chunker where
  "small_chunker = \<lparr>chunkerType = FAST_CDC, avgChunkSize = 3, minChunkSize = 2, maxChunkSize = 4,
     readSize = 5, normalSize = 0, maskS = 7, maskL = 1\<rparr>"

theorem FastCDC_buffer_independent_witness:
  "FastCDC small_chunker [1, 2, 3, 4, 5, 6, 7, 8, 9] = Inr (cdc_chunks small_chunker [1, 2, 3, 4, 5, 6, 7, 8, 9])"
  by (rule FastCDC_buffer_independent) (simp_all add: small_chunker_def chunker_ok_def const_defs)

text \<open>
  (C28) Chunking ends and loses nothing: after a successful initialisation for FastCDC with chunks that fit
  the message buffers, the chunks pushed to the queue add up to the file, none is empty or above
  \<open>maxChunkSize\<close>, all but the last have at least \<open>minChunkSize\<close> bytes, and the recipe head that follows
  them has the size of the file and the number of chunks.
\<close>

theorem Chunking_partitions:
  assumes "ChunkerInit cf = Inr c" and "conf_type cf = Some FAST_CDC" and "unat (conf_max cf) \<le> unat MAX_CHUNK_SIZE"
    and "unat (conf_max cf) \<le> unat (readSize c)" and "unat (readSize c) < 2 ^ 32"
  shows "\<exists>cs. Chunking trace c inp = Inr (map DATA_CHUNK cs @ [RECIPE_END \<lparr>fileSize = of_nat (length inp), totalChunkNum = of_nat (length cs)\<rparr>]) \<and>
     concat cs = inp \<and> (\<forall>d \<in> set cs. d \<noteq> [] \<and> length d \<le> unat (conf_max cf)) \<and>
     (\<forall>d \<in> set (butlast cs). unat (conf_min cf) \<le> length d)"
proof -
  have c: "chunker_ok c" "chunkerType c = FAST_CDC" "maxChunkSize c = conf_max cf" "minChunkSize c = conf_min cf"
    using ChunkerInit_FastCDC [OF assms(1-3)] by auto
  have "FastCDC c inp = Inr (cdc_chunks c inp)" using assms(4,5) c(3) by (intro FastCDC_eq c(1)) simp_all
  with cdc_chunks_partition [OF c(1), of inp] c show ?thesis
    by (intro exI [of _ "cdc_chunks c inp"]) (simp add: Chunking_def chunking_items_def sizes_ok_def)
qed

theorem Chunking_partitions_witness:
  "\<exists>cs. Chunking (\<lambda>c f. Inr []) (projr (ChunkerInit default_conf)) (replicate 20000 0) =
       Inr (map DATA_CHUNK cs @ [RECIPE_END \<lparr>fileSize = of_nat (length (replicate 20000 (0 :: byte))), totalChunkNum = of_nat (length cs)\<rparr>]) \<and>
     concat cs = replicate 20000 0 \<and> (\<forall>d \<in> set cs. d \<noteq> [] \<and> length d \<le> unat (conf_max default_conf)) \<and>
     (\<forall>d \<in> set (butlast cs). unat (conf_min default_conf) \<le> length d)"
  by (rule Chunking_partitions) (simp_all add: ChunkerInit_default, simp_all add: default_conf_def const_defs)

text \<open>
  (C29) A read buffer smaller than the largest chunk makes FastCDC loop for ever on any file that fills
  the buffer: no number of rounds is enough.
\<close>

theorem FastCDC_small_buffer_diverges:
  assumes "unat (readSize c) < unat (maxChunkSize c)" and "0 < unat (readSize c)" and "unat (readSize c) \<le> length inp"
  shows "cdc_file n c inp 0 [] = Inl Diverges"
  using assms by (rule cdc_file_stalls)

theorem FastCDC_small_buffer_diverges_witness:
  "cdc_file 1000 (small_chunker\<lparr>readSize := 3\<rparr>) [1, 2, 3, 4] 0 [] = Inl Diverges"
  by (rule FastCDC_small_buffer_diverges) (simp_all add: small_chunker_def)

text \<open>
  Fixed-size chunking ends and loses nothing: the chunks add up to the file and none is empty or
  above \<open>avgChunkSize\<close>.
\<close>

theorem fixSizeChunking_partitions:
  assumes "0 < unat (avgChunkSize c)" and "unat (avgChunkSize c) \<le> unat MAX_CHUNK_SIZE" and "0 < unat (readSize c)"
  shows "\<exists>cs. fixSizeChunking c inp [] = Inr cs \<and> concat cs = inp \<and>
     (\<forall>d \<in> set cs. d \<noteq> [] \<and> length d \<le> unat (avgChunkSize c))"
  using fixSizeChunking_ok [OF assms, of inp "[]"] by simp

theorem fixSizeChunking_partitions_witness:
  "\<exists>cs. fixSizeChunking small_chunker [1, 2, 3, 4, 5, 6, 7] [] = Inr cs \<and> concat cs = [1, 2, 3, 4, 5, 6, 7] \<and>
     (\<forall>d \<in> set cs. d \<noteq> [] \<and> length d \<le> unat (avgChunkSize small_chunker))"
  by (rule fixSizeChunking_partitions) (simp_all add: small_chunker_def const_defs)

text \<open>
  With the configuration of the repository the strict mask is never used: \<open>CalNormalSize\<close> gives 2048,
  below the smallest chunk of 4096, so the first loop of \<open>CutPoint\<close> has no round.
\<close>

theorem default_strict_mask_unused:
  "CutPoint (projr (ChunkerInit default_conf)) src len = CutPoint (projr (ChunkerInit default_conf)\<lparr>maskS := m\<rparr>) src len"
proof -
  have "cut_loop x src n i fp = Inr (i, fp)" if "n \<le> i" for x n i fp
    using that by (subst cut_loop.simps) simp
  moreover have "min 2048 (unat len) \<le> min (unat len) 4096" by simp
  ultimately show ?thesis by (simp add: ChunkerInit_default CutPoint_def)
qed

end
