(* ===== verification/ClientIO.thy ===== *)
theory ClientIO
  imports Chunker Restore
begin

text \<open>
  The client's side of an upload and of a restore: \<open>DataSender\<close> (\<open>dataSender.cc\<close>) packs the chunks of the
  chunker into encrypted messages, \<open>DataRetriever\<close> (\<open>dataRetriever.cc\<close>) unpacks the messages of a
  restore, \<open>RestoreWriter\<close> (\<open>restoreWriter.cc\<close>) writes the file. \<open>V\<close> is OpenSSL and \<open>T\<close> the client's
  \<open>CryptoPrimitive\<close>; \<open>can_send\<close> tells whether the connection takes a message.
\<close>

section \<open>Sending\<close>

text \<open>\<open>wire\<close> is what has gone over the connection, \<open>closed\<close> whether \<open>Finish\<close> was called on it.\<close>

record data_sender =
  ds_buf :: net_msg
  ds_key :: bytes
  ds_batchSize :: nat
  ds_batchNum :: u64
  wire :: "net_msg list"
  closed :: bool

definition DataSender_new :: "u32 \<Rightarrow> bytes \<Rightarrow> nat \<Rightarrow> data_sender" where
  "DataSender_new cid key batchSize =
     \<lparr>ds_buf = \<lparr>messageType = CLIENT_UPLOAD_CHUNK, clientID = cid, dataSize = 0, currentItemNum = 0, dataBuffer = []\<rparr>,
      ds_key = key, ds_batchSize = batchSize, ds_batchNum = 0, wire = [], closed = False\<rparr>"

definition SendData :: "(net_msg \<Rightarrow> bool) \<Rightarrow> string \<Rightarrow> net_msg \<Rightarrow> data_sender \<Rightarrow> data_sender res" where
  "SendData can_send msg m s =
     (if closed s then Inl (Undefined ''use of a closed connection'')
      else if can_send m then Inr (s\<lparr>wire := wire s @ [m]\<rparr>) else Inl (ProcExit msg))"

definition SendChunks :: "evp \<Rightarrow> crypto_tool \<Rightarrow> (net_msg \<Rightarrow> bool) \<Rightarrow> data_sender \<Rightarrow> data_sender res" where
  "SendChunks V T can_send s =
     (let m = (ds_buf s)\<lparr>messageType := CLIENT_UPLOAD_CHUNK\<rparr> in
      rbind (Crypto_SessionKeyEnc V T (take (unat (dataSize m)) (dataBuffer m)) (ds_key s)) (\<lambda>x.
      rbind (SendData can_send ''send the chunk batch error.'' (m\<lparr>dataBuffer := x\<rparr>) s) (\<lambda>s1.
        Inr (s1\<lparr>ds_buf := m\<lparr>dataSize := 0, currentItemNum := 0\<rparr>, ds_batchNum := ds_batchNum s1 + 1\<rparr>))))"

definition append_chunk :: "bytes \<Rightarrow> net_msg \<Rightarrow> net_msg" where
  "append_chunk d m =
     m\<lparr>dataBuffer := memcpy_at (memcpy_at (dataBuffer m) (unat (dataSize m)) (u32_bytes (of_nat (length d))))
                       (unat (dataSize m) + 4) d,
       dataSize := dataSize m + 4 + of_nat (length d), currentItemNum := currentItemNum m + 1\<rparr>"

definition ProcessChunk :: "evp \<Rightarrow> crypto_tool \<Rightarrow> (net_msg \<Rightarrow> bool) \<Rightarrow> bytes \<Rightarrow> data_sender \<Rightarrow> data_sender res" where
  "ProcessChunk V T can_send d s =
     (if ds_batchSize s * Chunk_size < unat (dataSize (ds_buf s)) + 4 + length d then Inl (Undefined ''send buffer overflow'')
      else if ds_batchSize s = 0 then Inl (Undefined ''division by zero'')
      else
        let s1 = s\<lparr>ds_buf := append_chunk d (ds_buf s)\<rparr> in
        if unat (currentItemNum (ds_buf s1)) mod ds_batchSize s = 0 then SendChunks V T can_send s1 else Inr s1)"

definition ProcessRecipeEnd ::
  "evp \<Rightarrow> crypto_tool \<Rightarrow> (net_msg \<Rightarrow> bool) \<Rightarrow> file_recipe_head \<Rightarrow> data_sender \<Rightarrow> data_sender res" where
  "ProcessRecipeEnd V T can_send recipeHead s =
     rbind (if currentItemNum (ds_buf s) \<noteq> 0 then SendChunks V T can_send s else Inr s) (\<lambda>s1.
       let b = memcpy_at (dataBuffer (ds_buf s1)) 0 (FileRecipeHead_bytes recipeHead);
           m = (ds_buf s1)\<lparr>messageType := CLIENT_UPLOAD_RECIPE_END, dataSize := 16, dataBuffer := b\<rparr>
       in SendData can_send ''send the recipe end error.'' (m\<lparr>dataBuffer := take 16 b\<rparr>) (s1\<lparr>ds_buf := m\<rparr>))"

text \<open>One item of the queue.\<close>

definition DataSender_item :: "evp \<Rightarrow> crypto_tool \<Rightarrow> (net_msg \<Rightarrow> bool) \<Rightarrow> data_item \<Rightarrow> data_sender \<Rightarrow> data_sender res" where
  "DataSender_item V T can_send it s =
     (case it of
        DATA_CHUNK d \<Rightarrow> ProcessChunk V T can_send d s
      | RECIPE_END h \<Rightarrow> rbind (ProcessRecipeEnd V T can_send h s) (\<lambda>s1. Inr (s1\<lparr>closed := True\<rparr>)))"

text \<open>The items in the order in which they leave the queue.\<close>

definition DataSender_Run ::
  "evp \<Rightarrow> crypto_tool \<Rightarrow> (net_msg \<Rightarrow> bool) \<Rightarrow> data_item list \<Rightarrow> data_sender \<Rightarrow> data_sender res" where
  "DataSender_Run V T can_send items s = rfold (DataSender_item V T can_send) items s"

section \<open>Receiving\<close>

record data_retriever =
  dr_key :: bytes
  decBuffer :: bytes
  dr_head :: file_recipe_head
  totalRecvDataSize :: u64
  totalRecvChunkNum :: u64
  outputMQ :: "bytes list"
  mq_done :: bool

definition DataRetriever_new :: "bytes \<Rightarrow> file_recipe_head \<Rightarrow> data_retriever" where
  "DataRetriever_new key h =
     \<lparr>dr_key = key, decBuffer = [], dr_head = h, totalRecvDataSize = 0, totalRecvChunkNum = 0, outputMQ = [], mq_done = False\<rparr>"

definition retrieve_chunk :: "data_retriever \<times> nat \<Rightarrow> (data_retriever \<times> nat) res" where
  "retrieve_chunk x =
     (let (s, offset) = x in
      rbind (read_chunk (decBuffer s) offset) (\<lambda>(d, offset').
        if unat MAX_CHUNK_SIZE < length d then Inl (Undefined ''chunk buffer overflow'')
        else Inr (s\<lparr>outputMQ := outputMQ s @ [d], totalRecvDataSize := totalRecvDataSize s + of_nat (length d),
                    totalRecvChunkNum := totalRecvChunkNum s + 1\<rparr>, offset')))"

definition ProcessChunkBatch :: "evp \<Rightarrow> crypto_tool \<Rightarrow> net_msg \<Rightarrow> data_retriever \<Rightarrow> data_retriever res" where
  "ProcessChunkBatch V T m s =
     rbind (Crypto_SessionKeyDec V T (take (unat (dataSize m)) (dataBuffer m)) (dr_key s)) (\<lambda>p.
     rbind (rfold (\<lambda>i. retrieve_chunk) [0..<unat (currentItemNum m)] (s\<lparr>decBuffer := memcpy_at (decBuffer s) 0 p\<rparr>, 0)) (\<lambda>(s1, off).
       Inr s1))"

text \<open>The messages in the order in which they arrive; \<open>[]\<close> is a connection that ended too early.\<close>

fun retrieve_loop :: "evp \<Rightarrow> crypto_tool \<Rightarrow> net_msg list \<Rightarrow> data_retriever \<Rightarrow> data_retriever res" where
  "retrieve_loop V T [] s = Inl (ProcExit ''recv the data from the server error.'')"
| "retrieve_loop V T (m # ms) s =
     (case messageType m of
        SERVER_RESTORE_CHUNK \<Rightarrow> rbind (ProcessChunkBatch V T m s) (retrieve_loop V T ms)
      | SERVER_RESTORE_FINAL \<Rightarrow> rbind (ProcessChunkBatch V T m s) (\<lambda>s1. Inr (s1\<lparr>mq_done := True\<rparr>))
      | _ \<Rightarrow> Inl (ProcExit ''wrong message type.''))"

definition DataRetriever_Run :: "evp \<Rightarrow> crypto_tool \<Rightarrow> net_msg list \<Rightarrow> data_retriever \<Rightarrow> data_retriever res" where
  "DataRetriever_Run V T ms s =
     rbind (retrieve_loop V T ms s) (\<lambda>s1.
       if totalRecvChunkNum s1 \<noteq> totalChunkNum (dr_head s1) then Inl (ProcExit ''recv chunk num cannot match.'') else Inr s1)"

section \<open>Writing the file\<close>

record restore_writer =
  outputFile :: bytes
  totalRecvNum :: u64
  totalWrittenSize :: u64

definition RestoreWriter_new :: restore_writer where
  "RestoreWriter_new = \<lparr>outputFile = [], totalRecvNum = 0, totalWrittenSize = 0\<rparr>"

definition write_chunk :: "bytes \<Rightarrow> restore_writer \<Rightarrow> restore_writer" where
  "write_chunk d w = w\<lparr>outputFile := outputFile w @ d, totalRecvNum := totalRecvNum w + 1,
     totalWrittenSize := totalWrittenSize w + of_nat (length d)\<rparr>"

definition RestoreWriter_Run :: "bytes list \<Rightarrow> restore_writer \<Rightarrow> restore_writer" where
  "RestoreWriter_Run q w = foldl (\<lambda>w d. write_chunk d w) w q"

section \<open>What the sender puts on the wire\<close>

text \<open>The session cipher of the client and of the enclave agree when their tools have the same IV.\<close>

definition same_iv :: "enclave_cfg \<Rightarrow> crypto_tool \<Rightarrow> bool" where
  "same_iv C T \<longleftrightarrow> tool_iv T = tool_iv (cfg_tool C)"

lemma same_iv_session:
  "same_iv C T \<Longrightarrow> Crypto_SessionKeyEnc V T d k = Crypto_SessionKeyEnc V (cfg_tool C) d k"
  "same_iv C T \<Longrightarrow> Crypto_SessionKeyDec V T d k = Crypto_SessionKeyDec V (cfg_tool C) d k"
  by (simp_all add: same_iv_def Crypto_SessionKeyEnc_def Crypto_SessionKeyDec_def)

lemma append_chunk_pending:
  assumes p: "pending m pend" and d: "length d \<le> unat MAX_CHUNK_SIZE" and n: "length pend < B" and B: "B * Chunk_size < 2 ^ 32"
  shows "pending (append_chunk d m) (pend @ [d])" and "unat (dataSize m) + 4 + length d \<le> B * Chunk_size"
proof -
  let ?e = "length (encode_chunks pend)"
  have "?e \<le> length pend * Chunk_size" using p length_encode_chunks by (simp add: pending_def)
  also have "\<dots> + Chunk_size \<le> B * Chunk_size" using n mult_le_mono1 [of "Suc (length pend)" B Chunk_size] by simp
  finally have room: "?e + Chunk_size \<le> B * Chunk_size" by simp
  then have small: "?e + 4 + length d < 2 ^ 32" using B d by (simp add: Chunk_size_def)
  have ds: "unat (dataSize m) = ?e" "unat (currentItemNum m) = length pend" using p by (simp_all add: pending_def)
  show "unat (dataSize m) + 4 + length d \<le> B * Chunk_size" using room d ds by (simp add: Chunk_size_def)
  have s4: "unat (dataSize m + 4) = ?e + 4" using ds small by (subst unat_add_u32) simp_all
  then have ds': "unat (dataSize m + 4 + of_nat (length d)) = ?e + length (encode_chunk d)"
    using small by (subst unat_add_u32) (simp_all add: unat_of_nat_u32 encode_chunk_def)
  have "1 \<le> Chunk_size" by (simp add: Chunk_size_def)
  then have "B \<le> B * Chunk_size" by simp
  then have "Suc (length pend) < 2 ^ 32" using n B by linarith
  then have num: "unat (currentItemNum m + 1) = Suc (length pend)" using ds by (subst unat_add_u32) simp_all
  let ?buf = "memcpy_at (memcpy_at (dataBuffer m) ?e (u32_bytes (of_nat (length d)))) (?e + 4) d"
  have buf: "take (?e + length (encode_chunk d)) ?buf = encode_chunks pend @ encode_chunk d"
    using p by (simp add: pending_def memcpy_at_def encode_chunk_def)
  show "pending (append_chunk d m) (pend @ [d])"
    using ds ds' num buf p d by (simp add: append_chunk_def pending_def encode_chunk_def)
qed

definition upload_msg :: "enclave_cfg \<Rightarrow> bytes \<Rightarrow> net_msg \<Rightarrow> bytes list \<Rightarrow> bool" where
  "upload_msg C key m cs \<longleftrightarrow> messageType m = CLIENT_UPLOAD_CHUNK \<and> carries C key m cs"

definition send_flow :: "enclave_cfg \<Rightarrow> crypto_tool \<Rightarrow> bytes \<Rightarrow> bytes list list \<Rightarrow> bytes list \<Rightarrow> data_sender \<Rightarrow> bool" where
  "send_flow C T key css pend s \<longleftrightarrow> evp_ok (cfg_evp C) \<and> tool_ok (cfg_tool C) \<and> same_iv C T \<and> key_ok key \<and>
     ds_key s = key \<and> 0 < ds_batchSize s \<and> ds_batchSize s * Chunk_size < 2 ^ 32 \<and> \<not> closed s \<and>
     list_all2 (upload_msg C key) (wire s) css \<and> pending (ds_buf s) pend \<and> length pend < ds_batchSize s"

lemma SendChunks_ok:
  assumes C: "evp_ok (cfg_evp C)" "tool_ok (cfg_tool C)" "same_iv C T" "key_ok (ds_key s)"
    and p: "pending (ds_buf s) pend" and o: "\<not> closed s" and snd: "\<forall>m. can_send m"
  shows "\<exists>m b. SendChunks (cfg_evp C) T can_send s =
       Inr (s\<lparr>wire := wire s @ [m], ds_buf := b, ds_batchNum := ds_batchNum s + 1\<rparr>) \<and>
     upload_msg C (ds_key s) m pend \<and> pending b []"
proof -
  have "stream_good (cfg_evp C) (cfg_tool C) (ds_key s) (encode_chunks pend)" using C by (simp add: stream_good_def)
  from session.encE [OF this] obtain x where
    x: "Crypto_SessionKeyEnc (cfg_evp C) (cfg_tool C) (encode_chunks pend) (ds_key s) = Inr x" "length x = length (encode_chunks pend)"
    by blast
  have ds: "unat (dataSize (ds_buf s)) = length x" "take (unat (dataSize (ds_buf s))) (dataBuffer (ds_buf s)) = encode_chunks pend"
    "unat (currentItemNum (ds_buf s)) = length pend"
    using p x(2) by (simp_all add: pending_def)
  let ?m = "(ds_buf s)\<lparr>messageType := CLIENT_UPLOAD_CHUNK, dataBuffer := x\<rparr>"
    and ?b = "(ds_buf s)\<lparr>messageType := CLIENT_UPLOAD_CHUNK, dataSize := 0, currentItemNum := 0\<rparr>"
  have "SendChunks (cfg_evp C) T can_send s = Inr (s\<lparr>wire := wire s @ [?m], ds_buf := ?b, ds_batchNum := ds_batchNum s + 1\<rparr>)"
    using x ds o snd by (simp add: SendChunks_def Let_def same_iv_session(1) [OF C(3)] SendData_def)
  moreover have "upload_msg C (ds_key s) ?m pend" using x ds by (simp add: upload_msg_def carries_def)
  moreover have "pending ?b []" by (simp add: pending_def)
  ultimately show ?thesis by blast
qed

lemma ProcessChunk_ok:
  assumes f: "send_flow C T key css pend s" and d: "length d \<le> unat MAX_CHUNK_SIZE" and snd: "\<forall>m. can_send m"
  shows "\<exists>s' css' pend'. ProcessChunk (cfg_evp C) T can_send d s = Inr s' \<and> send_flow C T key css' pend' s' \<and>
     concat css' @ pend' = concat css @ pend @ [d]"
proof -
  from f have C: "evp_ok (cfg_evp C)" "tool_ok (cfg_tool C)" "same_iv C T" "key_ok key" "ds_key s = key" and o: "\<not> closed s"
    and B: "0 < ds_batchSize s" "ds_batchSize s * Chunk_size < 2 ^ 32" and p: "pending (ds_buf s) pend" "length pend < ds_batchSize s"
    by (simp_all add: send_flow_def)
  let ?s1 = "s\<lparr>ds_buf := append_chunk d (ds_buf s)\<rparr>"
  note ap = append_chunk_pending [OF p(1) d p(2) B(2)]
  have num: "unat (currentItemNum (append_chunk d (ds_buf s))) = Suc (length pend)" using ap(1) by (simp add: pending_def)
  have full: "Suc (length pend) mod ds_batchSize s = 0 \<longleftrightarrow> Suc (length pend) = ds_batchSize s"
    using p(2) by (auto simp: mod_Suc)
  have eq: "ProcessChunk (cfg_evp C) T can_send d s =
      (if Suc (length pend) = ds_batchSize s then SendChunks (cfg_evp C) T can_send ?s1 else Inr ?s1)"
    using ap(2) B(1) full num by (simp add: ProcessChunk_def Let_def)
  show ?thesis
  proof (cases "Suc (length pend) = ds_batchSize s")
    case True
    have "key_ok (ds_key ?s1)" "pending (ds_buf ?s1) (pend @ [d])" "\<not> closed ?s1" using C ap(1) o by simp_all
    from SendChunks_ok [OF C(1-3) this snd] obtain m b where
      r: "SendChunks (cfg_evp C) T can_send ?s1 = Inr (?s1\<lparr>wire := wire ?s1 @ [m], ds_buf := b, ds_batchNum := ds_batchNum ?s1 + 1\<rparr>)"
        "upload_msg C (ds_key ?s1) m (pend @ [d])" "pending b []"
      by blast
    have "send_flow C T key (css @ [pend @ [d]]) [] (?s1\<lparr>wire := wire ?s1 @ [m], ds_buf := b, ds_batchNum := ds_batchNum ?s1 + 1\<rparr>)"
      using f r(2,3) C(5) by (auto simp: send_flow_def intro: list_all2_appendI)
    then show ?thesis using eq True r(1)
      by (intro exI [of _ "?s1\<lparr>wire := wire ?s1 @ [m], ds_buf := b, ds_batchNum := ds_batchNum ?s1 + 1\<rparr>"] exI [of _ "css @ [pend @ [d]]"] exI [of _ "[]"]) simp
  next
    case False
    then have "send_flow C T key css (pend @ [d]) ?s1" using f ap(1) p(2) by (simp add: send_flow_def)
    then show ?thesis using eq False by (intro exI [of _ ?s1] exI [of _ css] exI [of _ "pend @ [d]"]) simp
  qed
qed

lemma DataSender_item_simps [simp]:
  "DataSender_item V T can_send (DATA_CHUNK d) s = ProcessChunk V T can_send d s"
  "DataSender_item V T can_send (RECIPE_END h) s = rbind (ProcessRecipeEnd V T can_send h s) (\<lambda>s1. Inr (s1\<lparr>closed := True\<rparr>))"
  by (simp_all add: DataSender_item_def)

lemma send_all_ok:
  assumes "send_flow C T key css pend s" and "\<forall>d \<in> set cs. length d \<le> unat MAX_CHUNK_SIZE" and "\<forall>m. can_send m"
  shows "\<exists>s' css' pend'. rfold (DataSender_item (cfg_evp C) T can_send) (map DATA_CHUNK cs) s = Inr s' \<and>
     send_flow C T key css' pend' s' \<and> concat css' @ pend' = concat css @ pend @ cs"
  using assms(1,2)
proof (induction cs arbitrary: css pend s)
  case Nil
  then show ?case by auto
next
  case (Cons d cs)
  from ProcessChunk_ok [OF Cons.prems(1) _ assms(3), of d] Cons.prems(2) obtain s1 css1 pend1 where
    s1: "ProcessChunk (cfg_evp C) T can_send d s = Inr s1" "send_flow C T key css1 pend1 s1"
      "concat css1 @ pend1 = concat css @ pend @ [d]" by auto
  from Cons.IH [OF s1(2)] Cons.prems(2) obtain s' css' pend' where
    "rfold (DataSender_item (cfg_evp C) T can_send) (map DATA_CHUNK cs) s1 = Inr s'" "send_flow C T key css' pend' s'"
    "concat css' @ pend' = concat css1 @ pend1 @ cs" by auto
  with s1 show ?case
    by (intro exI [of _ s'] exI [of _ css'] exI [of _ pend']) (simp flip: append_assoc)
qed

text \<open>The messages of a whole upload: batches that carry the chunks, then the head of the recipe.\<close>

definition upload_msgs :: "enclave_cfg \<Rightarrow> bytes \<Rightarrow> net_msg list \<Rightarrow> bytes list \<Rightarrow> file_recipe_head \<Rightarrow> bool" where
  "upload_msgs C key ms cs h \<longleftrightarrow>
     (\<exists>ms' em css. ms = ms' @ [em] \<and> list_all2 (upload_msg C key) ms' css \<and> concat css = cs \<and>
        messageType em = CLIENT_UPLOAD_RECIPE_END \<and> dataBuffer em = FileRecipeHead_bytes h)"

lemma DataSender_Run_ok:
  assumes C: "evp_ok (cfg_evp C)" "tool_ok (cfg_tool C)" "same_iv C T" "key_ok key"
    and B: "0 < B" "B * Chunk_size < 2 ^ 32" and cs: "\<forall>d \<in> set cs. length d \<le> unat MAX_CHUNK_SIZE" and snd: "\<forall>m. can_send m"
  shows "\<exists>s. DataSender_Run (cfg_evp C) T can_send (map DATA_CHUNK cs @ [RECIPE_END h]) (DataSender_new cid key B) = Inr s \<and>
     upload_msgs C key (wire s) cs h"
proof -
  have "send_flow C T key [] [] (DataSender_new cid key B)"
    using C B by (simp add: send_flow_def DataSender_new_def pending_def)
  from send_all_ok [OF this cs snd] obtain s1 css pend where
    s1: "rfold (DataSender_item (cfg_evp C) T can_send) (map DATA_CHUNK cs) (DataSender_new cid key B) = Inr s1"
      "send_flow C T key css pend s1" "concat css @ pend = cs" by auto
  have p: "pending (ds_buf s1) pend" "ds_key s1 = key" "\<not> closed s1" "list_all2 (upload_msg C key) (wire s1) css"
    using s1(2) by (simp_all add: send_flow_def)
  have "\<exists>s2 css2. (if currentItemNum (ds_buf s1) \<noteq> 0 then SendChunks (cfg_evp C) T can_send s1 else Inr s1) = Inr s2 \<and>
      \<not> closed s2 \<and> list_all2 (upload_msg C key) (wire s2) css2 \<and> concat css2 = cs"
  proof (cases "pend = []")
    case True
    then have "currentItemNum (ds_buf s1) = 0" using p(1) by (simp add: pending_def unat_eq_0)
    then show ?thesis using p s1(3) True by auto
  next
    case False
    then have nz: "currentItemNum (ds_buf s1) \<noteq> 0" using p(1) by (auto simp: pending_def)
    have "key_ok (ds_key s1)" using C(4) p(2) by simp
    from SendChunks_ok [OF C(1-3) this p(1,3) snd] obtain m b where
      r: "SendChunks (cfg_evp C) T can_send s1 = Inr (s1\<lparr>wire := wire s1 @ [m], ds_buf := b, ds_batchNum := ds_batchNum s1 + 1\<rparr>)"
        "upload_msg C (ds_key s1) m pend"
      by blast
    then show ?thesis using nz p s1(3)
      by (intro exI [of _ "s1\<lparr>wire := wire s1 @ [m], ds_buf := b, ds_batchNum := ds_batchNum s1 + 1\<rparr>"] exI [of _ "css @ [pend]"])
        (auto intro: list_all2_appendI)
  qed
  then obtain s2 css2 where s2: "(if currentItemNum (ds_buf s1) \<noteq> 0 then SendChunks (cfg_evp C) T can_send s1 else Inr s1) = Inr s2"
      "\<not> closed s2" "list_all2 (upload_msg C key) (wire s2) css2" "concat css2 = cs"
    by blast
  let ?b = "memcpy_at (dataBuffer (ds_buf s2)) 0 (FileRecipeHead_bytes h)"
  let ?m = "(ds_buf s2)\<lparr>messageType := CLIENT_UPLOAD_RECIPE_END, dataSize := 16, dataBuffer := ?b\<rparr>"
  have hb: "take 16 ?b = FileRecipeHead_bytes h" by (simp add: memcpy_at_def FileRecipeHead_bytes_def)
  have "DataSender_Run (cfg_evp C) T can_send (map DATA_CHUNK cs @ [RECIPE_END h]) (DataSender_new cid key B) =
      Inr (s2\<lparr>ds_buf := ?m, wire := wire s2 @ [?m\<lparr>dataBuffer := FileRecipeHead_bytes h\<rparr>], closed := True\<rparr>)"
    using s1(1) s2(1,2) snd hb
    by (simp add: DataSender_Run_def rfold_append ProcessRecipeEnd_def Let_def SendData_def)
  moreover have "upload_msgs C key (wire s2 @ [?m\<lparr>dataBuffer := FileRecipeHead_bytes h\<rparr>]) cs h"
    using s2(3,4) unfolding upload_msgs_def by fastforce
  ultimately show ?thesis by simp
qed

section \<open>What the retriever and the writer make of a restore\<close>

lemma retrieve_chunk_all:
  assumes "decBuffer s = pre @ encode_chunks cs @ post" and "\<forall>d \<in> set cs. length d \<le> unat MAX_CHUNK_SIZE"
  shows "\<exists>off. rfold (\<lambda>i. retrieve_chunk) [k..<k + length cs] (s, length pre) =
     Inr (s\<lparr>outputMQ := outputMQ s @ cs, totalRecvDataSize := totalRecvDataSize s + of_nat (length (concat cs)),
           totalRecvChunkNum := totalRecvChunkNum s + of_nat (length cs)\<rparr>, off)"
  using assms
proof (induction cs arbitrary: s pre k)
  case Nil
  then show ?case by simp
next
  case (Cons d cs)
  have d: "length d \<le> unat MAX_CHUNK_SIZE" "length d < 2 ^ 32" using Cons.prems(2) by (simp_all add: const_defs)
  let ?s1 = "s\<lparr>outputMQ := outputMQ s @ [d], totalRecvDataSize := totalRecvDataSize s + of_nat (length d),
     totalRecvChunkNum := totalRecvChunkNum s + 1\<rparr>"
  have b: "decBuffer s = pre @ encode_chunk d @ (encode_chunks cs @ post)" using Cons.prems(1) by simp
  have st: "retrieve_chunk (s, length pre) = Inr (?s1, length (pre @ encode_chunk d))"
    using read_chunk_encoded [OF d(2), of pre "encode_chunks cs @ post"] d(1) b by (simp add: retrieve_chunk_def)
  have b1: "decBuffer ?s1 = (pre @ encode_chunk d) @ encode_chunks cs @ post" using b by simp
  have "\<forall>d \<in> set cs. length d \<le> unat MAX_CHUNK_SIZE" using Cons.prems(2) by simp
  from Cons.IH [OF b1 this, of "Suc k"] obtain off where
    ih: "rfold (\<lambda>i. retrieve_chunk) [Suc k..<Suc k + length cs] (?s1, length (pre @ encode_chunk d)) =
     Inr (?s1\<lparr>outputMQ := outputMQ ?s1 @ cs, totalRecvDataSize := totalRecvDataSize ?s1 + of_nat (length (concat cs)),
           totalRecvChunkNum := totalRecvChunkNum ?s1 + of_nat (length cs)\<rparr>, off)" by blast
  have "[k..<k + length (d # cs)] = k # [Suc k..<Suc k + length cs]" by (subst upt_rec) simp
  with st ih show ?case by (intro exI [of _ off]) (simp add: add.assoc add.commute)
qed

text \<open>The queue and the counters after the chunks \<open>cs\<close>; the buffer holds some other content.\<close>

definition retrieved :: "data_retriever \<Rightarrow> bytes list \<Rightarrow> data_retriever \<Rightarrow> bool" where
  "retrieved s cs s' \<longleftrightarrow> outputMQ s' = outputMQ s @ cs \<and> totalRecvChunkNum s' = totalRecvChunkNum s + of_nat (length cs) \<and>
     totalRecvDataSize s' = totalRecvDataSize s + of_nat (length (concat cs)) \<and>
     dr_key s' = dr_key s \<and> dr_head s' = dr_head s"

lemma ProcessChunkBatch_ok:
  assumes "msg_of C (dr_key s) t m cs" and "same_iv C T"
  shows "\<exists>s'. ProcessChunkBatch (cfg_evp C) T m s = Inr s' \<and> retrieved s cs s' \<and> mq_done s' = mq_done s"
proof -
  let ?s1 = "s\<lparr>decBuffer := memcpy_at (decBuffer s) 0 (encode_chunks cs)\<rparr>"
  have "decBuffer ?s1 = [] @ encode_chunks cs @ drop (length (encode_chunks cs)) (decBuffer s)" by (simp add: memcpy_at_def)
  moreover have "\<forall>d \<in> set cs. length d \<le> unat MAX_CHUNK_SIZE" using assms(1) by (simp add: msg_of_def)
  ultimately obtain off where r: "rfold (\<lambda>i. retrieve_chunk) [0..<0 + length cs] (?s1, length ([] :: bytes)) =
     Inr (?s1\<lparr>outputMQ := outputMQ ?s1 @ cs, totalRecvDataSize := totalRecvDataSize ?s1 + of_nat (length (concat cs)),
           totalRecvChunkNum := totalRecvChunkNum ?s1 + of_nat (length cs)\<rparr>, off)"
    using retrieve_chunk_all [of ?s1 "[]" cs] by blast
  have "Crypto_SessionKeyDec (cfg_evp C) T (take (unat (dataSize m)) (dataBuffer m)) (dr_key s) = Inr (encode_chunks cs)"
    "unat (currentItemNum m) = length cs"
    using assms by (simp_all add: msg_of_def same_iv_session(2) [OF assms(2)])
  with r show ?thesis by (simp add: ProcessChunkBatch_def retrieved_def)
qed

lemma retrieved_trans: "retrieved s cs s1 \<Longrightarrow> retrieved s1 ds s' \<Longrightarrow> retrieved s (cs @ ds) s'"
  by (simp add: retrieved_def add.assoc)

lemma retrieve_loop_ok:
  assumes "list_all2 (msg_of C key SERVER_RESTORE_CHUNK) ms css" and "msg_of C key SERVER_RESTORE_FINAL m cs"
    and "same_iv C T" and "dr_key s = key"
  shows "\<exists>s'. retrieve_loop (cfg_evp C) T (ms @ [m]) s = Inr s' \<and> retrieved s (concat css @ cs) s' \<and> mq_done s'"
  using assms(1,4)
proof (induction ms arbitrary: css s)
  case Nil
  from ProcessChunkBatch_ok [of C s, OF _ assms(3)] assms(2) Nil.prems obtain s1 where
    "ProcessChunkBatch (cfg_evp C) T m s = Inr s1" "retrieved s cs s1" by blast
  moreover have "messageType m = SERVER_RESTORE_FINAL" using assms(2) by (simp add: msg_of_def)
  ultimately show ?case using Nil.prems by (simp add: retrieved_def)
next
  case (Cons m1 ms)
  then obtain cs1 css1 where css: "css = cs1 # css1" "msg_of C key SERVER_RESTORE_CHUNK m1 cs1"
    "list_all2 (msg_of C key SERVER_RESTORE_CHUNK) ms css1" by (auto simp: list_all2_Cons1)
  from ProcessChunkBatch_ok [of C s, OF _ assms(3)] css(2) Cons.prems(2) obtain s1 where
    s1: "ProcessChunkBatch (cfg_evp C) T m1 s = Inr s1" "retrieved s cs1 s1" by blast
  have "messageType m1 = SERVER_RESTORE_CHUNK" using css(2) by (simp add: msg_of_def)
  moreover have "dr_key s1 = key" using s1(2) Cons.prems(2) by (simp add: retrieved_def)
  from Cons.IH [OF css(3) this] obtain s' where
    "retrieve_loop (cfg_evp C) T (ms @ [m]) s1 = Inr s'" "retrieved s1 (concat css1 @ cs) s'" "mq_done s'" by blast
  ultimately show ?case using s1 css(1) retrieved_trans by fastforce
qed

lemma DataRetriever_Run_ok:
  assumes "restored C key ms ds" and "same_iv C T"
  shows "if totalChunkNum h = of_nat (length ds)
     then \<exists>s. DataRetriever_Run (cfg_evp C) T ms (DataRetriever_new key h) = Inr s \<and> outputMQ s = ds \<and> mq_done s \<and>
            totalRecvDataSize s = of_nat (length (concat ds))
     else DataRetriever_Run (cfg_evp C) T ms (DataRetriever_new key h) = Inl (ProcExit ''recv chunk num cannot match.'')"
proof -
  from assms(1) obtain ms' m css cs where r: "ms = ms' @ [m]" "list_all2 (msg_of C key SERVER_RESTORE_CHUNK) ms' css"
      "msg_of C key SERVER_RESTORE_FINAL m cs" "ds = concat css @ cs"
    unfolding restored_def by blast
  have "dr_key (DataRetriever_new key h) = key" by (simp add: DataRetriever_new_def)
  from retrieve_loop_ok [OF r(2,3) assms(2) this] obtain s' where
    s': "retrieve_loop (cfg_evp C) T ms (DataRetriever_new key h) = Inr s'" "retrieved (DataRetriever_new key h) ds s'" "mq_done s'"
    using r(1,4) by blast
  then have "outputMQ s' = ds" "totalRecvChunkNum s' = of_nat (length ds)" "dr_head s' = h"
      "totalRecvDataSize s' = of_nat (length (concat ds))"
    by (simp_all add: retrieved_def DataRetriever_new_def)
  with s'(1,3) show ?thesis by (auto simp: DataRetriever_Run_def)
qed

lemma RestoreWriter_Run_eq:
  "RestoreWriter_Run q w = w\<lparr>outputFile := outputFile w @ concat q, totalRecvNum := totalRecvNum w + of_nat (length q),
     totalWrittenSize := totalWrittenSize w + of_nat (length (concat q))\<rparr>"
  by (induction q arbitrary: w) (simp_all add: RestoreWriter_Run_def write_chunk_def add.assoc)

end
