(* ===== verification/System.thy ===== *)
theory System
  imports Session ClientIO
begin

text \<open>
  The client program (\<open>dbeClient.cc\<close>) and the server together: a file is chunked, sent, stored, and
  later restored and written. The client's two threads are composed through their queue, whose
  interleavings are the subject of the theory \<open>MessageQueue\<close>.
\<close>

section \<open>The client program\<close>

text \<open>The upload: what \<open>Chunker::Chunking\<close> pushes, \<open>DataSender::Run\<close> sends.\<close>

definition client_upload ::
  "evp \<Rightarrow> crypto_tool \<Rightarrow> (net_msg \<Rightarrow> bool) \<Rightarrow> (chunker \<Rightarrow> bytes \<Rightarrow> bytes list res) \<Rightarrow> u32 \<Rightarrow> bytes \<Rightarrow> nat \<Rightarrow> chunker \<Rightarrow> bytes \<Rightarrow> net_msg list res" where
  "client_upload V T can_send trace cid key batchSize c inp =
     rbind (Chunking trace c inp) (\<lambda>items.
     rbind (DataSender_Run V T can_send items (DataSender_new cid key batchSize)) (\<lambda>s. Inr (wire s)))"

text \<open>The restore: what \<open>DataRetriever::Run\<close> pushes, \<open>RestoreWriter::Run\<close> writes.\<close>

definition client_restore :: "evp \<Rightarrow> crypto_tool \<Rightarrow> bytes \<Rightarrow> file_recipe_head \<Rightarrow> net_msg list \<Rightarrow> bytes res" where
  "client_restore V T key h ms =
     rbind (DataRetriever_Run V T ms (DataRetriever_new key h)) (\<lambda>s.
       Inr (outputFile (RestoreWriter_Run (outputMQ s) RestoreWriter_new)))"

lemma client_upload_ok:
  assumes "Chunking trace c inp = Inr (map DATA_CHUNK cs @ [RECIPE_END h])"
    and "evp_ok (cfg_evp C)" and "tool_ok (cfg_tool C)" and "same_iv C T" and "key_ok key"
    and "0 < B" and "B * Chunk_size < 2 ^ 32" and "\<forall>d \<in> set cs. length d \<le> unat MAX_CHUNK_SIZE" and "\<forall>m. can_send m"
  shows "\<exists>ms. client_upload (cfg_evp C) T can_send trace cid key B c inp = Inr ms \<and> upload_msgs C key ms cs h"
  using DataSender_Run_ok [OF assms(2-9), of h cid] assms(1) by (auto simp: client_upload_def)

lemma client_restore_ok:
  assumes "restored C key ms ds" and "same_iv C T" and "totalChunkNum h = of_nat (length ds)"
  shows "client_restore (cfg_evp C) T key h ms = Inr (concat ds)"
  using DataRetriever_Run_ok [OF assms(1,2), of h] assms(3)
  by (auto simp: client_restore_def RestoreWriter_Run_eq RestoreWriter_new_def)

section \<open>A file there and back\<close>

text \<open>No other chunk has the fingerprint of one of \<open>cs\<close>.\<close>

definition no_collision :: "enclave_cfg \<Rightarrow> bytes list \<Rightarrow> bool" where
  "no_collision C cs \<longleftrightarrow> (\<forall>d \<in> set cs. \<forall>d'. chunk_fp C d' = chunk_fp C d \<longrightarrow> d' = d)"

lemma no_collision_eq:
  assumes "no_collision C cs" and "map (chunk_fp C) ds = map (chunk_fp C) cs"
  shows "ds = cs"
proof (rule nth_equalityI)
  show l: "length ds = length cs" using assms(2) by (metis length_map)
  fix i
  assume "i < length ds"
  then show "ds ! i = cs ! i" using assms l by (metis no_collision_def nth_map nth_mem)
qed

context upload_index
begin

text \<open>The client's messages of a file, the server's upload, and the restore.\<close>

lemma file_progress:
  assumes chunks: "Chunking trace c inp = Inr (map DATA_CHUNK cs @ [RECIPE_END h])" "concat cs = inp"
      "totalChunkNum h = of_nat (length cs)" "\<forall>d \<in> set cs. chunk_ok C d"
    and st: "progress [] cs st" "length (fst h0) = 16"
    and cfg: "res_cfg C" "same_iv C T" "key_ok (sessionKey (sgx (snd st)))" "0 < B" "B * Chunk_size < 2 ^ 32"
    and rest: "key_ok key" "0 < cacheN" "cacheN < 2 ^ 32" "messageType m = CLIENT_RESTORE_READY"
    and io: "\<forall>m. can_send m" "\<forall>f. can_open f"
  shows "\<exists>ms r x s f t out. client_upload (cfg_evp C) T can_send trace cid (sessionKey (sgx (snd st))) B c inp = Inr ms \<and>
     DataReceiver_Run C batch tail can_open ms st = Inr (r, x, s) \<and> finished r = Some f \<and>
     EnclaveRecvDecoder_Run C can_send (Some m) (drop 16 f)
       (restore_start C cacheN cid key (snd h0) (containerFiles (store s))) = Inr t \<and>
     client_restore (cfg_evp C) T key (FileRecipeHead_of_bytes (take 16 f)) (sent t) = Inr out \<and>
     (\<exists>ds. out = concat ds \<and> map (chunk_fp C) ds = map (chunk_fp C) cs) \<and> (no_collision C cs \<longrightarrow> out = inp)"
proof -
  let ?k = "sessionKey (sgx (snd st))"
  have C: "evp_ok (cfg_evp C)" "tool_ok (cfg_tool C)" using cfg(1) by (simp_all add: res_cfg_def cfg_ok_def)
  have sz: "\<forall>d \<in> set cs. length d \<le> unat MAX_CHUNK_SIZE" using chunks(4) by (simp add: chunk_ok_def)
  from client_upload_ok [OF chunks(1) C cfg(2-5) sz io(1), of cid] obtain ms where
    ms: "client_upload (cfg_evp C) T can_send trace cid ?k B c inp = Inr ms" "upload_msgs C ?k ms cs h" by blast
  from ms(2) obtain ms' em css where m': "ms = ms' @ [em]" "list_all2 (upload_msg C ?k) ms' css" "concat css = cs"
      "messageType em = CLIENT_UPLOAD_RECIPE_END" "dataBuffer em = FileRecipeHead_bytes h"
    unfolding upload_msgs_def by blast
  have b: "list_all2 (batch_of C (snd st)) ms' css"
    using m'(2) by (rule list_all2_mono) (simp add: batch_of_def upload_msg_def cfg(3))
  have ty: "\<forall>m \<in> set ms'. messageType m = CLIENT_UPLOAD_CHUNK"
    using m'(2) by (auto simp: list_all2_conv_all_nth upload_msg_def in_set_conv_nth)
  have i: "progress [] (concat css) st" using st(1) m'(3) by simp
  from Run_progress [OF i st(2) b ty m'(4) io(2)] obtain r x s f where
    u: "DataReceiver_Run C batch tail can_open ms st = Inr (r, x, s)" "finished r = Some f"
      "take 16 f = FileRecipeHead_bytes (FileRecipeHead_of_bytes (dataBuffer em))"
      "uploaded C (snd h0) (containerFiles (store s)) f cs" "key_ok (snd h0)"
    using m'(1,3) by blast
  have hd: "FileRecipeHead_of_bytes (take 16 f) = h"
    using u(3) m'(5) FileRecipeHead_roundtrip [of h "[]"] by simp
  from uploaded_restore [OF cfg(1) rest(1) u(5) rest(2,3) u(4) io(1) rest(4), of cid] obtain t ds where
    t: "EnclaveRecvDecoder_Run C can_send (Some m) (drop 16 f) (restore_start C cacheN cid key (snd h0) (containerFiles (store s))) = Inr t"
      "restored C key (sent t) ds" "map (chunk_fp C) ds = map (chunk_fp C) cs"
    by blast
  have "length ds = length cs" using t(3) by (metis length_map)
  then have "totalChunkNum h = of_nat (length ds)" using chunks(3) by simp
  from client_restore_ok [OF t(2) cfg(2) this]
  have o: "client_restore (cfg_evp C) T key (FileRecipeHead_of_bytes (take 16 f)) (sent t) = Inr (concat ds)" by (simp add: hd)
  have "no_collision C cs \<longrightarrow> concat ds = inp" using no_collision_eq [OF _ t(3)] chunks(2) by blast
  with ms(1) u(1,2) t(1,3) o show ?thesis by blast
qed

end

context server_index
begin

lemma file_back:
  assumes chunks: "Chunking trace c inp = Inr (map DATA_CHUNK cs @ [RECIPE_END h])" "concat cs = inp"
      "totalChunkNum h = of_nat (length cs)" "\<forall>d \<in> set cs. chunk_ok C d"
    and st: "inv (length cs + n) st" "recipe_holds C h0 (snd st) []" "length (fst h0) = 16"
    and cfg: "res_cfg C" "same_iv C T" "key_ok (sessionKey (sgx (snd st)))" "0 < B" "B * Chunk_size < 2 ^ 32"
    and rest: "key_ok key" "0 < cacheN" "cacheN < 2 ^ 32" "messageType m = CLIENT_RESTORE_READY"
    and io: "\<forall>m. can_send m" "\<forall>f. can_open f"
  shows "\<exists>ms r x s f t out. client_upload (cfg_evp C) T can_send trace cid (sessionKey (sgx (snd st))) B c inp = Inr ms \<and>
     DataReceiver_Run C batch tail can_open ms st = Inr (r, x, s) \<and> finished r = Some f \<and>
     EnclaveRecvDecoder_Run C can_send (Some m) (drop 16 f)
       (restore_start C cacheN cid key (snd h0) (containerFiles (store s))) = Inr t \<and>
     client_restore (cfg_evp C) T key (FileRecipeHead_of_bytes (take 16 f)) (sent t) = Inr out \<and>
     (\<exists>ds. out = concat ds \<and> map (chunk_fp C) ds = map (chunk_fp C) cs) \<and> (no_collision C cs \<longrightarrow> out = inp)"
  by (rule receiver.file_progress [OF chunks served_start [OF st(1,2) chunks(4)] st(3) cfg rest io])

end

lemma FastCDC_items:
  assumes "ChunkerInit cf = Inr c" and "conf_type cf = Some FAST_CDC" and "unat (conf_max cf) \<le> unat MAX_CHUNK_SIZE"
    and "unat (conf_max cf) \<le> unat (readSize c)" and "unat (readSize c) < 2 ^ 32"
  shows "Chunking trace c inp = Inr (map DATA_CHUNK (cdc_chunks c inp) @
      [RECIPE_END \<lparr>fileSize = of_nat (length inp), totalChunkNum = of_nat (length (cdc_chunks c inp))\<rparr>])"
    and "concat (cdc_chunks c inp) = inp"
proof -
  have c: "chunker_ok c" "chunkerType c = FAST_CDC" "maxChunkSize c = conf_max cf"
    using ChunkerInit_FastCDC [OF assms(1-3)] by auto
  have e: "FastCDC c inp = Inr (cdc_chunks c inp)" using assms(4,5) c(3) by (intro FastCDC_eq c(1)) simp_all
  show "concat (cdc_chunks c inp) = inp" using cdc_chunks_partition [OF c(1)] by blast
  then show "Chunking trace c inp = Inr (map DATA_CHUNK (cdc_chunks c inp) @
      [RECIPE_END \<lparr>fileSize = of_nat (length inp), totalChunkNum = of_nat (length (cdc_chunks c inp))\<rparr>])"
    using e c(2) by (simp add: Chunking_def chunking_items_def)
qed

section \<open>A concrete system\<close>

text \<open>A hash without a second preimage for one chunk, in the small configuration.\<close>

definition sharp_cfg :: enclave_cfg where
  "sharp_cfg = sample_cfg\<lparr>cfg_evp := plain_evp\<lparr>evp_md := \<lambda>t d. Some (replicate (hash_size t) (if d = [1, 2, 3] then 1 else 0))\<rparr>\<rparr>"

lemma sharp_evp: "evp_ok (cfg_evp sharp_cfg)"
  using plain_evp_ok by (simp add: sharp_cfg_def evp_ok_def)

lemma sharp_cfg_ok: "cfg_ok sharp_cfg"
  using sample_cfg_ok sharp_evp by (simp add: cfg_ok_def) (simp add: sharp_cfg_def lz4_ok_def sample_cfg_def)

lemma sharp_res_cfg: "res_cfg sharp_cfg"
  using sample_res_cfg sharp_cfg_ok by (simp add: res_cfg_def) (simp add: sharp_cfg_def)

lemma sharp_no_collision: "no_collision sharp_cfg [[1, 2, 3]]"
proof -
  have "hashType (cfg_tool sharp_cfg) = SHA_256" using sharp_cfg_ok by (simp add: cfg_ok_def)
  then have "chunk_fp sharp_cfg d = replicate 32 (if d = [1, 2, 3] then 1 else 0)" for d
    by (simp add: chunk_fp_def Ecall_GenerateHash_def evp_checked_def hash_size_def) (simp add: sharp_cfg_def plain_evp_def hash_size_def)
  then show ?thesis by (simp add: no_collision_def)
qed

lemma sharp_start: "upload_start sharp_cfg sample_client [] sample_storage = sample_start"
  by (simp add: sample_start_def upload_start_def ClientVar_InitUploadBuffer_def sharp_cfg_def)

lemma sharp_names: "names_free sharp_cfg 4 sample_storage"
  using sample_names by (simp add: names_free_def uuid_at_def sharp_cfg_def)

lemma sharp_start_inv: "store_inv sharp_cfg 4 sample_start" "recipe_holds sharp_cfg sample_id sample_start []"
  using upload_start_inv [OF sharp_cfg_ok, of sample_client sample_storage 4 "[]"] sharp_names
  unfolding sharp_start by (simp_all add: sample_client_def blank_client_def sample_storage_def key_ok_def const_defs sample_id_def)

lemma sharp_freq_inv: "freq_inv sharp_cfg 4 (EcallFreqIndex_new, sample_start)"
  using sharp_start_inv(1)
  by (simp add: freq_inv_def sample_start_fields sample_client_def blank_client_def db_ok_def heap_ok_def EcallFreqIndex_new_def
      EntryHeap_Size_def heap_bound_def) (simp add: EntryHeap_new_def heap_content_def sharp_cfg_def sample_cfg_def)

definition sample_chunker :: chunker where
  "sample_chunker = \<lparr>chunkerType = FAST_CDC, avgChunkSize = 8192, minChunkSize = 4096, maxChunkSize = 16384,
     readSize = 134217728, normalSize = 2048, maskS = 16383, maskL = 4095\<rparr>"

lemma sample_chunker_init: "ChunkerInit default_conf = Inr sample_chunker"
  by (simp add: ChunkerInit_default sample_chunker_def)

lemma sample_chunker_ok: "chunker_ok sample_chunker"
  by (simp add: chunker_ok_def sample_chunker_def const_defs)

text \<open>A file below the smallest chunk size is one chunk.\<close>

lemma small_file_chunks:
  assumes "chunker_ok c" and "f \<noteq> []" and "length f \<le> unat (minChunkSize c)"
  shows "cdc_chunks c f = [f]"
proof -
  have "cut_at c f = length f" using cut_at_bounds(2,3) [OF assms(1,2)] assms(3) by simp
  then show ?thesis using cdc_chunks_step [OF assms(1,2)] by simp
qed

lemma sample_file_chunks: "cdc_chunks sample_chunker [1, 2, 3] = [[1, 2, 3]]"
  by (rule small_file_chunks [OF sample_chunker_ok]) (simp_all add: sample_chunker_def)

lemma sharp_chunk_ok: "chunk_ok sharp_cfg [1, 2, 3]"
  by (simp add: chunk_ok_def sharp_cfg_def sample_cfg_def const_defs)

end
