(* ===== verification/MessageQueue.thy ===== *)
theory MessageQueue
  imports System
begin

text \<open>
  The queue between two threads (\<open>messageQueue.h\<close>) and the loop of every consumer
  (\<open>DataSender::Run\<close>, \<open>RestoreWriter::Run\<close>, \<open>DataWriter::Run\<close>): look at the done flag and at the queue,
  try to take an item, leave when the job is done. Producer and consumer run interleaved, one access to
  the shared queue or flag at a time; the lock-free queue underneath is a bounded FIFO queue, and a
  \<open>Push\<close> on a full queue spins. Whatever the interleaving, the result is that of the sequential loop
  over the items.
\<close>

section \<open>The queue\<close>

text \<open>\<open>None\<close> is a failed \<open>try_enqueue\<close> or \<open>try_dequeue\<close>.\<close>

definition try_enqueue :: "nat \<Rightarrow> 'a \<Rightarrow> 'a list \<Rightarrow> 'a list option" where
  "try_enqueue cap x q = (if length q < cap then Some (q @ [x]) else None)"

definition MQ_Pop :: "'a list \<Rightarrow> ('a \<times> 'a list) option" where
  "MQ_Pop q = (case q of [] \<Rightarrow> None | x # q' \<Rightarrow> Some (x, q'))"

definition MQ_IsEmpty :: "'a list \<Rightarrow> bool" where
  "MQ_IsEmpty q \<longleftrightarrow> length q = 0"

section \<open>Producer and consumer\<close>

text \<open>
  Where the consumer is in its loop: before reading \<open>done_\<close>, before \<open>IsEmpty\<close>, before \<open>Pop\<close> (with
  \<open>jobDoneFlag\<close>), out of the loop, or in \<open>exit\<close> after a fault in the handling of an item.
\<close>

datatype consumer_pc = CHECK_DONE | CHECK_EMPTY | POP bool | EXIT | FAILED fault

record ('a, 's) mq_state =
  to_push :: "'a list"
  done_flag :: bool
  mq :: "'a list"
  consumer :: consumer_pc
  handled :: 's

definition mq_start :: "'a list \<Rightarrow> 's \<Rightarrow> ('a, 's) mq_state" where
  "mq_start items s0 = \<lparr>to_push = items, done_flag = False, mq = [], consumer = CHECK_DONE, handled = s0\<rparr>"

definition after_pop :: "bool \<Rightarrow> consumer_pc" where
  "after_pop jobDone = (if jobDone then EXIT else CHECK_DONE)"

inductive mq_step :: "nat \<Rightarrow> ('a \<Rightarrow> 's \<Rightarrow> 's res) \<Rightarrow> ('a, 's) mq_state \<Rightarrow> ('a, 's) mq_state \<Rightarrow> bool"
  for cap handle where
  push: "to_push s = x # xs \<Longrightarrow> try_enqueue cap x (mq s) = Some q \<Longrightarrow>
      mq_step cap handle s (s\<lparr>to_push := xs, mq := q\<rparr>)"
| set_done: "to_push s = [] \<Longrightarrow> \<not> done_flag s \<Longrightarrow> mq_step cap handle s (s\<lparr>done_flag := True\<rparr>)"
| not_done: "consumer s = CHECK_DONE \<Longrightarrow> \<not> done_flag s \<Longrightarrow> mq_step cap handle s (s\<lparr>consumer := POP False\<rparr>)"
| is_done: "consumer s = CHECK_DONE \<Longrightarrow> done_flag s \<Longrightarrow> mq_step cap handle s (s\<lparr>consumer := CHECK_EMPTY\<rparr>)"
| empty: "consumer s = CHECK_EMPTY \<Longrightarrow> mq_step cap handle s (s\<lparr>consumer := POP (MQ_IsEmpty (mq s))\<rparr>)"
| pop_none: "consumer s = POP j \<Longrightarrow> MQ_Pop (mq s) = None \<Longrightarrow> mq_step cap handle s (s\<lparr>consumer := after_pop j\<rparr>)"
| pop_item: "consumer s = POP j \<Longrightarrow> MQ_Pop (mq s) = Some (x, q) \<Longrightarrow> handle x (handled s) = Inr h \<Longrightarrow>
      mq_step cap handle s (s\<lparr>mq := q, handled := h, consumer := after_pop j\<rparr>)"
| pop_fault: "consumer s = POP j \<Longrightarrow> MQ_Pop (mq s) = Some (x, q) \<Longrightarrow> handle x (handled s) = Inl e \<Longrightarrow>
      mq_step cap handle s (s\<lparr>mq := q, consumer := FAILED e\<rparr>)"

section \<open>Invariant\<close>

text \<open>
  The items are those handled, those in the queue and those still to come, in this order; the flag is
  only up when nothing is to come, and the consumer only leaves when nothing is left.
\<close>

definition mq_inv :: "('a \<Rightarrow> 's \<Rightarrow> 's res) \<Rightarrow> 'a list \<Rightarrow> 's \<Rightarrow> ('a, 's) mq_state \<Rightarrow> bool" where
  "mq_inv handle items s0 s \<longleftrightarrow>
     (done_flag s \<longrightarrow> to_push s = []) \<and>
     (case consumer s of
        FAILED e \<Rightarrow> rfold handle items s0 = Inl e
      | pc \<Rightarrow>
          (\<exists>pre. items = pre @ mq s @ to_push s \<and> rfold handle pre s0 = Inr (handled s)) \<and>
          (pc = CHECK_EMPTY \<longrightarrow> done_flag s) \<and> (pc = POP True \<or> pc = EXIT \<longrightarrow> done_flag s \<and> mq s = []))"

lemma mq_inv_start: "mq_inv handle items s0 (mq_start items s0)"
  by (simp add: mq_inv_def mq_start_def)

lemma MQ_Pop_Some: "MQ_Pop q = Some (x, q') \<longleftrightarrow> q = x # q'"
  by (auto simp: MQ_Pop_def split: list.splits)

lemma MQ_Pop_None: "MQ_Pop q = None \<longleftrightarrow> q = []"
  by (auto simp: MQ_Pop_def split: list.splits)

lemma mq_inv_running:
  "mq_inv handle items s0 s \<Longrightarrow> (\<And>e. consumer s \<noteq> FAILED e) \<Longrightarrow>
   \<exists>pre. items = pre @ mq s @ to_push s \<and> rfold handle pre s0 = Inr (handled s)"
  by (cases "consumer s") (auto simp: mq_inv_def)

lemma mq_inv_step:
  assumes "mq_step cap handle s s'" and "mq_inv handle items s0 s"
  shows "mq_inv handle items s0 s'"
  using assms
proof (induction rule: mq_step.induct)
  case (push s x xs q)
  then have q: "q = mq s @ [x]" by (auto simp: try_enqueue_def split: if_splits)
  show ?case
  proof (cases "consumer s")
    case (POP j)
    then show ?thesis using push q by (cases j) (auto simp: mq_inv_def)
  qed (use push q in \<open>auto simp: mq_inv_def\<close>)
next
  case (set_done s)
  then show ?case by (auto simp: mq_inv_def split: consumer_pc.splits)
next
  case (empty s)
  then show ?case by (auto simp: mq_inv_def MQ_IsEmpty_def)
next
  case (pop_none s j)
  then show ?case by (auto simp: mq_inv_def after_pop_def MQ_Pop_None)
next
  case (pop_item s j x q h)
  then obtain pre where pre: "items = pre @ mq s @ to_push s" "rfold handle pre s0 = Inr (handled s)"
    using mq_inv_running [of handle items s0 s] by auto
  have q: "mq s = x # q" using pop_item by (simp add: MQ_Pop_Some)
  then have "\<not> j" using pop_item by (auto simp: mq_inv_def)
  moreover have "items = (pre @ [x]) @ q @ to_push s" "rfold handle (pre @ [x]) s0 = Inr h"
    using pre q pop_item by (simp_all add: rfold_append)
  ultimately show ?case using pop_item unfolding mq_inv_def after_pop_def by fastforce
next
  case (pop_fault s j x q e)
  then obtain pre where pre: "items = pre @ mq s @ to_push s" "rfold handle pre s0 = Inr (handled s)"
    using mq_inv_running [of handle items s0 s] by auto
  then have "items = pre @ x # q @ to_push s" using pop_fault by (simp add: MQ_Pop_Some)
  then have "rfold handle items s0 = Inl e" using pre(2) pop_fault by (simp add: rfold_append)
  then show ?case using pop_fault by (simp add: mq_inv_def)
qed (auto simp: mq_inv_def)

abbreviation mq_steps :: "nat \<Rightarrow> ('a \<Rightarrow> 's \<Rightarrow> 's res) \<Rightarrow> ('a, 's) mq_state \<Rightarrow> ('a, 's) mq_state \<Rightarrow> bool" where
  "mq_steps cap handle \<equiv> (mq_step cap handle)\<^sup>*\<^sup>*"

lemma mq_inv_steps: "mq_steps cap handle s s' \<Longrightarrow> mq_inv handle items s0 s \<Longrightarrow> mq_inv handle items s0 s'"
  by (induction rule: rtranclp_induct) (auto intro: mq_inv_step)

section \<open>Results\<close>

lemma mq_exit:
  assumes "mq_steps cap handle (mq_start items s0) s" and "consumer s = EXIT"
  shows "rfold handle items s0 = Inr (handled s) \<and> mq s = [] \<and> to_push s = []"
  using mq_inv_steps [OF assms(1) mq_inv_start] assms(2) by (auto simp: mq_inv_def)

lemma mq_failed:
  assumes "mq_steps cap handle (mq_start items s0) s" and "consumer s = FAILED e"
  shows "rfold handle items s0 = Inl e"
  using mq_inv_steps [OF assms(1) mq_inv_start] assms(2) by (auto simp: mq_inv_def)

definition mq_over :: "('a, 's) mq_state \<Rightarrow> bool" where
  "mq_over s \<longleftrightarrow> consumer s = EXIT \<or> (\<exists>e. consumer s = FAILED e)"

text \<open>The consumer comes to a \<open>Pop\<close> without touching the queue.\<close>

lemma to_pop:
  assumes "\<not> mq_over s"
  shows "\<exists>j. mq_steps cap handle s (s\<lparr>consumer := POP j\<rparr>) \<and> (consumer s = CHECK_DONE \<and> done_flag s \<longrightarrow> j = MQ_IsEmpty (mq s))"
proof -
  have e: "mq_step cap handle (s\<lparr>consumer := CHECK_EMPTY\<rparr>) (s\<lparr>consumer := POP (MQ_IsEmpty (mq s))\<rparr>)"
    using mq_step.empty [of "s\<lparr>consumer := CHECK_EMPTY\<rparr>"] by simp
  show ?thesis
  proof (cases "consumer s")
    case CHECK_DONE
    show ?thesis
    proof (cases "done_flag s")
      case True
      have "mq_steps cap handle s (s\<lparr>consumer := POP (MQ_IsEmpty (mq s))\<rparr>)"
        using mq_step.is_done [OF CHECK_DONE True] e by (rule converse_rtranclp_into_rtranclp [OF _ r_into_rtranclp])
      then show ?thesis by blast
    next
      case False
      with mq_step.not_done [OF CHECK_DONE False] show ?thesis by blast
    qed
  next
    case CHECK_EMPTY
    then have "s\<lparr>consumer := CHECK_EMPTY\<rparr> = s" by (cases s) simp
    with e CHECK_EMPTY show ?thesis by auto
  next
    case (POP j)
    then have "s\<lparr>consumer := POP j\<rparr> = s" by (cases s) simp
    then show ?thesis using POP by (metis consumer_pc.distinct(3) rtranclp.rtrancl_refl)
  qed (use assms in \<open>auto simp: mq_over_def\<close>)
qed

lemma consume_one:
  assumes s: "\<not> mq_over s" and q: "mq s = x # q"
  shows "\<exists>s'. mq_steps cap handle s s' \<and> (mq_over s' \<or> mq s' = q \<and> to_push s' = to_push s)"
proof -
  from to_pop [OF s, of cap handle] obtain j where j: "mq_steps cap handle s (s\<lparr>consumer := POP j\<rparr>)" by blast
  let ?t = "s\<lparr>consumer := POP j\<rparr>"
  have p: "consumer ?t = POP j" "MQ_Pop (mq ?t) = Some (x, q)" by (simp_all add: MQ_Pop_Some q)
  have "\<exists>s'. mq_step cap handle ?t s' \<and> (mq_over s' \<or> mq s' = q \<and> to_push s' = to_push s)"
  proof (cases "handle x (handled s)")
    case (Inl e)
    then have "mq_step cap handle ?t (?t\<lparr>mq := q, consumer := FAILED e\<rparr>)" using p by (intro mq_step.pop_fault [where x = x]) simp_all
    then show ?thesis by (intro exI [of _ "?t\<lparr>mq := q, consumer := FAILED e\<rparr>"]) (simp add: mq_over_def)
  next
    case (Inr h)
    then have "mq_step cap handle ?t (?t\<lparr>mq := q, handled := h, consumer := after_pop j\<rparr>)"
      using p by (intro mq_step.pop_item [where x = x]) simp_all
    then show ?thesis by (intro exI [of _ "?t\<lparr>mq := q, handled := h, consumer := after_pop j\<rparr>"]) simp
  qed
  then obtain s' where "mq_step cap handle ?t s'" "mq_over s' \<or> mq s' = q \<and> to_push s' = to_push s" by blast
  then show ?thesis by (intro exI [of _ s'] conjI rtranclp.rtrancl_into_rtrancl [OF j])
qed

text \<open>With nothing left and the flag up, the consumer leaves.\<close>

lemma leave_from_check:
  assumes "consumer s = CHECK_DONE" and "done_flag s" and "mq s = []"
  shows "mq_steps cap handle s (s\<lparr>consumer := EXIT\<rparr>)"
proof -
  have "\<not> mq_over s" using assms(1) by (simp add: mq_over_def)
  from to_pop [OF this, of cap handle] assms have "mq_steps cap handle s (s\<lparr>consumer := POP True\<rparr>)"
    by (auto simp: MQ_IsEmpty_def)
  moreover have "mq_step cap handle (s\<lparr>consumer := POP True\<rparr>) (s\<lparr>consumer := EXIT\<rparr>)"
    using mq_step.pop_none [of "s\<lparr>consumer := POP True\<rparr>" True] assms(3) by (simp add: MQ_Pop_None after_pop_def)
  ultimately show ?thesis by (rule rtranclp.rtrancl_into_rtrancl)
qed

lemma leave:
  assumes "\<not> mq_over s" and "done_flag s" and "mq s = []"
  shows "mq_steps cap handle s (s\<lparr>consumer := EXIT\<rparr>)"
proof -
  from to_pop [OF assms(1), of cap handle] obtain j where j: "mq_steps cap handle s (s\<lparr>consumer := POP j\<rparr>)" by blast
  let ?t = "s\<lparr>consumer := after_pop j\<rparr>"
  have "mq_step cap handle (s\<lparr>consumer := POP j\<rparr>) ?t"
    using mq_step.pop_none [of "s\<lparr>consumer := POP j\<rparr>" j] assms(3) by (simp add: MQ_Pop_None)
  with j have st: "mq_steps cap handle s ?t" by (rule rtranclp.rtrancl_into_rtrancl)
  show ?thesis
  proof (cases j)
    case True
    then show ?thesis using st by (simp add: after_pop_def)
  next
    case False
    then have "mq_steps cap handle ?t (?t\<lparr>consumer := EXIT\<rparr>)"
      using assms by (intro leave_from_check) (simp_all add: after_pop_def)
    with st show ?thesis by simp
  qed
qed

lemma can_finish:
  assumes "0 < cap"
  shows "\<exists>s'. mq_steps cap handle s s' \<and> mq_over s'"
proof (induction "length (mq s) + 2 * length (to_push s)" arbitrary: s rule: less_induct)
  case less
  show ?case
  proof (cases "mq_over s")
    case True
    then show ?thesis by blast
  next
    case False
    consider (item) x q where "mq s = x # q" | (push) x xs where "mq s = []" "to_push s = x # xs" | (over) "mq s = []" "to_push s = []"
      by (metis list.exhaust)
    then show ?thesis
    proof cases
      case item
      from consume_one [OF False item, of cap handle] obtain t where
        t: "mq_steps cap handle s t" "mq_over t \<or> mq t = q \<and> to_push t = to_push s" by blast
      show ?thesis
      proof (cases "mq_over t")
        case True
        then show ?thesis using t(1) by blast
      next
        case False
        then obtain s' where "mq_steps cap handle t s'" "mq_over s'" using less [of t] t(2) item by auto
        then show ?thesis using t(1) by (meson rtranclp_trans)
      qed
    next
      case push
      let ?t = "s\<lparr>to_push := xs, mq := [x]\<rparr>"
      have "mq_step cap handle s ?t" using push assms by (intro mq_step.push) (auto simp: try_enqueue_def)
      moreover have "\<exists>s'. mq_steps cap handle ?t s' \<and> mq_over s'" using push by (intro less) simp
      ultimately show ?thesis by (meson converse_rtranclp_into_rtranclp)
    next
      case over
      have "mq_steps cap handle s (s\<lparr>done_flag := True\<rparr>)"
      proof (cases "done_flag s")
        case True
        then have "s\<lparr>done_flag := True\<rparr> = s" by (cases s) simp
        then show ?thesis by simp
      next
        case not_set: False
        then show ?thesis using mq_step.set_done [OF over(2) not_set] by blast
      qed
      moreover have "mq_steps cap handle (s\<lparr>done_flag := True\<rparr>) (s\<lparr>done_flag := True, consumer := EXIT\<rparr>)"
        using leave [of "s\<lparr>done_flag := True\<rparr>" cap handle] False over by (simp add: mq_over_def)
      moreover have "mq_over (s\<lparr>done_flag := True, consumer := EXIT\<rparr>)" by (simp add: mq_over_def)
      ultimately show ?thesis by (meson rtranclp_trans)
    qed
  qed
qed

section \<open>Properties\<close>

text \<open>
  (C30) The threads of a pipeline refine the sequential loop. However the producer and the consumer are
  interleaved and however small the queue: when the consumer leaves its loop, every item has been
  handled once, in order, and the result is that of the loop over the items; when the handling of an
  item ends the process, so does the sequential loop, with the same fault.
\<close>

theorem pipeline_refines_loop:
  assumes "mq_steps cap handle (mq_start items s0) s"
  shows "(consumer s = EXIT \<longrightarrow> rfold handle items s0 = Inr (handled s) \<and> mq s = [] \<and> to_push s = []) \<and>
     (\<forall>e. consumer s = FAILED e \<longrightarrow> rfold handle items s0 = Inl e)"
  using mq_exit [OF assms] mq_failed [OF assms] by blast

theorem pipeline_refines_loop_witness:
  "\<exists>s :: (nat, nat list) mq_state. consumer s = EXIT \<and> rfold (\<lambda>x s. Inr (s @ [x])) [1, 2, 3 :: nat] [] = Inr (handled s) \<and> mq s = [] \<and> to_push s = []"
proof -
  let ?h = "\<lambda>x s. Inr (s @ [x]) :: nat list res"
  from can_finish [of 1 ?h "mq_start [1, 2, 3] []"] obtain s where
    s: "mq_steps 1 ?h (mq_start [1, 2, 3] []) s" "mq_over s" by auto
  have "consumer s = EXIT" using pipeline_refines_loop [OF s(1)] s(2) by (auto simp: mq_over_def)
  with pipeline_refines_loop [OF s(1)] show ?thesis by blast
qed

text \<open>
  (C31) The pipeline never gets stuck: from every state that the threads can reach there is a way for the
  consumer to leave its loop or to fail, for every queue that holds at least one item.
\<close>

theorem pipeline_never_stuck:
  assumes "0 < cap" and "mq_steps cap handle (mq_start items s0) s"
  shows "\<exists>s'. mq_steps cap handle s s' \<and> (consumer s' = EXIT \<and> rfold handle items s0 = Inr (handled s') \<or>
     (\<exists>e. consumer s' = FAILED e \<and> rfold handle items s0 = Inl e))"
proof -
  from can_finish [OF assms(1), of handle s] obtain s' where s': "mq_steps cap handle s s'" "mq_over s'" by blast
  have "mq_steps cap handle (mq_start items s0) s'" using assms(2) s'(1) by (rule rtranclp_trans)
  with s' mq_exit [of cap handle items s0 s'] mq_failed [of cap handle items s0 s'] show ?thesis
    unfolding mq_over_def by blast
qed

theorem pipeline_never_stuck_witness:
  "\<exists>s'. mq_steps 1 (\<lambda>x s. Inr (s @ [x])) (mq_start [1 :: nat, 2, 3] []) s' \<and>
     (consumer s' = EXIT \<and> rfold (\<lambda>x s. Inr (s @ [x])) [1, 2, 3] [] = Inr (handled s') \<or>
     (\<exists>e. consumer s' = FAILED e \<and> rfold (\<lambda>x s. Inr (s @ [x])) [1 :: nat, 2, 3] [] = Inl e))"
  by (rule pipeline_never_stuck [where s = "mq_start [1, 2, 3] []"]) simp_all

text \<open>
  The client's upload, thread by thread: with the chunker's items in the queue of
  \<open>CHUNK_QUEUE_SIZE\<close> places, whenever the sender's loop ends, what has gone over the connection is what
  the composed upload of the client sends.
\<close>

theorem sender_thread_sends_upload:
  assumes "Chunking trace c inp = Inr items"
    and "mq_steps 8192 (DataSender_item V T can_send) (mq_start items (DataSender_new cid key B)) s" and "consumer s = EXIT"
  shows "client_upload V T can_send trace cid key B c inp = Inr (wire (handled s))"
  using mq_exit [OF assms(2,3)] assms(1) by (simp add: client_upload_def DataSender_Run_def)

theorem sender_thread_sends_upload_witness:
  "\<exists>s :: (data_item, data_sender) mq_state. consumer s = EXIT \<and>
     client_upload (cfg_evp sharp_cfg) (cfg_tool sharp_cfg) (\<lambda>m. True) (\<lambda>c f. Inr []) 1 (replicate 32 3) 2 sample_chunker [1, 2, 3] =
       Inr (wire (handled s))"
proof -
  let ?h = "DataSender_item (cfg_evp sharp_cfg) (cfg_tool sharp_cfg) (\<lambda>m. True)" and ?s0 = "DataSender_new 1 (replicate 32 3) 2"
  let ?items = "map DATA_CHUNK [[1, 2, 3]] @ [RECIPE_END \<lparr>fileSize = 3, totalChunkNum = 1\<rparr>]"
  have it: "Chunking (\<lambda>c f. Inr []) sample_chunker [1, 2, 3] = Inr ?items"
    using FastCDC_items(1) [OF sample_chunker_init, of "\<lambda>c f. Inr []" "[1, 2, 3]"]
    by (simp add: sample_file_chunks) (simp add: default_conf_def sample_chunker_def const_defs)
  from can_finish [of 8192 ?h "mq_start ?items ?s0"] obtain s where
    s: "mq_steps 8192 ?h (mq_start ?items ?s0) s" "mq_over s" by auto
  have "\<exists>x. DataSender_Run (cfg_evp sharp_cfg) (cfg_tool sharp_cfg) (\<lambda>m. True) ?items ?s0 = Inr x"
    using DataSender_Run_ok [of sharp_cfg "cfg_tool sharp_cfg" "replicate 32 3" 2 "[[1, 2, 3]]" "\<lambda>m. True" "\<lparr>fileSize = 3, totalChunkNum = 1\<rparr>" 1] sharp_cfg_ok
    by (auto simp: cfg_ok_def same_iv_def key_ok_def const_defs Chunk_size_def)
  then have "consumer s = EXIT" using mq_failed [OF s(1)] s(2) by (auto simp: mq_over_def DataSender_Run_def)
  with sender_thread_sends_upload [OF it s(1)] show ?thesis by blast
qed

end
