(* ===== verification/ServerLock.thy ===== *)
theory ServerLock
  imports Structures
begin

text \<open>
  The locks of \<open>ServerOptThread::Run\<close> (\<open>serverOptThread.cc\<close>): every connection is served by a thread of
  its own. A thread takes the lock of the table \<open>clientLockIndex_\<close>, looks up or creates the mutex of its
  client there, locks it while it still holds the lock of the table, gives the table back, serves the
  client and unlocks the mutex at the end. Threads are numbered; \<open>cid t\<close> is the client of thread \<open>t\<close>.
\<close>

section \<open>Steps\<close>

datatype phase = ARRIVED | IN_SET | LOCKED | SERVING | LEFT

text \<open>
  \<open>clientLockIndex\<close> maps a client to its mutex: \<open>Some None\<close> is an unlocked mutex, \<open>Some (Some t)\<close> one that
  thread \<open>t\<close> holds.
\<close>

record lock_state =
  clientLockSetLock :: "nat option"
  clientLockIndex :: "u32 \<rightharpoonup> nat option"
  phase_of :: "nat \<Rightarrow> phase"

definition lock_start :: lock_state where
  "lock_start = \<lparr>clientLockSetLock = None, clientLockIndex = Map.empty, phase_of = (\<lambda>t. ARRIVED)\<rparr>"

abbreviation to_phase :: "nat \<Rightarrow> phase \<Rightarrow> lock_state \<Rightarrow> lock_state" where
  "to_phase t p s \<equiv> s\<lparr>phase_of := (phase_of s)(t := p)\<rparr>"

inductive lock_step :: "(nat \<Rightarrow> u32) \<Rightarrow> lock_state \<Rightarrow> lock_state \<Rightarrow> bool" for cid where
  enter_set: "phase_of s t = ARRIVED \<Longrightarrow> clientLockSetLock s = None \<Longrightarrow>
      lock_step cid s (to_phase t IN_SET (s\<lparr>clientLockSetLock := Some t\<rparr>))"
| lock_known: "phase_of s t = IN_SET \<Longrightarrow> clientLockIndex s (cid t) = Some None \<Longrightarrow>
      lock_step cid s (to_phase t LOCKED (s\<lparr>clientLockIndex := (clientLockIndex s)(cid t \<mapsto> Some t)\<rparr>))"
| lock_new: "phase_of s t = IN_SET \<Longrightarrow> clientLockIndex s (cid t) = None \<Longrightarrow>
      lock_step cid s (to_phase t LOCKED (s\<lparr>clientLockIndex := (clientLockIndex s)(cid t \<mapsto> Some t)\<rparr>))"
| leave_set: "phase_of s t = LOCKED \<Longrightarrow> lock_step cid s (to_phase t SERVING (s\<lparr>clientLockSetLock := None\<rparr>))"
| unlock: "phase_of s t = SERVING \<Longrightarrow>
      lock_step cid s (to_phase t LEFT (s\<lparr>clientLockIndex := (clientLockIndex s)(cid t \<mapsto> None)\<rparr>))"

abbreviation lock_steps :: "(nat \<Rightarrow> u32) \<Rightarrow> lock_state \<Rightarrow> lock_state \<Rightarrow> bool" where
  "lock_steps cid \<equiv> (lock_step cid)\<^sup>*\<^sup>*"

section \<open>Invariant\<close>

definition lock_inv :: "(nat \<Rightarrow> u32) \<Rightarrow> lock_state \<Rightarrow> bool" where
  "lock_inv cid s \<longleftrightarrow>
     (\<forall>t. clientLockSetLock s = Some t \<longleftrightarrow> phase_of s t \<in> {IN_SET, LOCKED}) \<and>
     (\<forall>c t. clientLockIndex s c = Some (Some t) \<longleftrightarrow> cid t = c \<and> phase_of s t \<in> {LOCKED, SERVING})"

lemma lock_inv_start: "lock_inv cid lock_start"
  by (simp add: lock_inv_def lock_start_def)

lemma lock_invD:
  assumes "lock_inv cid s"
  shows "phase_of s t = IN_SET \<Longrightarrow> clientLockSetLock s = Some t" and "phase_of s t = LOCKED \<Longrightarrow> clientLockSetLock s = Some t"
    and "phase_of s t = LOCKED \<Longrightarrow> clientLockIndex s (cid t) = Some (Some t)"
    and "phase_of s t = SERVING \<Longrightarrow> clientLockIndex s (cid t) = Some (Some t)"
    and "clientLockSetLock s = Some t \<Longrightarrow> phase_of s t = IN_SET \<or> phase_of s t = LOCKED"
    and "clientLockIndex s c = Some (Some t) \<Longrightarrow> cid t = c \<and> (phase_of s t = LOCKED \<or> phase_of s t = SERVING)"
  using assms unfolding lock_inv_def by auto

lemma lock_inv_step: "lock_step cid s s' \<Longrightarrow> lock_inv cid s \<Longrightarrow> lock_inv cid s'"
proof (induction rule: lock_step.induct)
  case (enter_set s t)
  note d = lock_invD [OF enter_set(3)]
  show ?case unfolding lock_inv_def using enter_set(1,2) by (auto dest: d)
next
  case (lock_known s t)
  note d = lock_invD [OF lock_known(3)]
  show ?case unfolding lock_inv_def using lock_known(1,2) by (auto dest: d)
next
  case (lock_new s t)
  note d = lock_invD [OF lock_new(3)]
  show ?case unfolding lock_inv_def using lock_new(1,2) by (auto dest: d)
next
  case (leave_set s t)
  note d = lock_invD [OF leave_set(2)]
  have "clientLockSetLock s = Some t" using d(2) leave_set(1) .
  then have "phase_of s u \<noteq> IN_SET" "phase_of s u \<noteq> LOCKED" if "u \<noteq> t" for u using d(1,2) [of u] that by auto
  then show ?case unfolding lock_inv_def using leave_set(1) by (auto dest: d)
next
  case (unlock s t)
  note d = lock_invD [OF unlock(2)]
  have "clientLockIndex s (cid t) = Some (Some t)" using d(4) unlock(1) .
  then have "phase_of s u \<noteq> LOCKED" "phase_of s u \<noteq> SERVING" if "u \<noteq> t" "cid u = cid t" for u using d(3,4) [of u] that by auto
  then show ?case unfolding lock_inv_def using unlock(1) by (auto dest: d)
qed

lemma lock_inv_steps: "lock_steps cid s s' \<Longrightarrow> lock_inv cid s \<Longrightarrow> lock_inv cid s'"
  by (induction rule: rtranclp_induct) (auto intro: lock_inv_step)

lemma lock_inv_reach: "lock_steps cid lock_start s \<Longrightarrow> lock_inv cid s"
  using lock_inv_steps lock_inv_start by blast

section \<open>Every thread can leave\<close>

lemma serve_out: "phase_of s t = SERVING \<Longrightarrow> \<exists>s'. lock_steps cid s s' \<and> phase_of s' t = LEFT"
  using lock_step.unlock [of s t cid] by (intro exI [of _ "to_phase t LEFT (s\<lparr>clientLockIndex := (clientLockIndex s)(cid t \<mapsto> None)\<rparr>)"]) auto

text \<open>The holder of the table's lock gets its mutex, after the thread that holds it has left.\<close>

lemma get_mutex:
  assumes inv: "lock_inv cid s" and u: "phase_of s u = IN_SET"
  shows "\<exists>s'. lock_steps cid s s' \<and> phase_of s' u = LOCKED \<and> (\<forall>t. phase_of s' t = phase_of s t \<or> t = u \<or> phase_of s' t = LEFT)"
proof -
  have take: "\<exists>s'. lock_step cid r s' \<and> phase_of s' u = LOCKED \<and> (\<forall>t. t \<noteq> u \<longrightarrow> phase_of s' t = phase_of r t)"
    if "phase_of r u = IN_SET" "clientLockIndex r (cid u) = None \<or> clientLockIndex r (cid u) = Some None" for r
    using that lock_step.lock_new [of r u cid] lock_step.lock_known [of r u cid]
    by (intro exI [of _ "to_phase u LOCKED (r\<lparr>clientLockIndex := (clientLockIndex r)(cid u \<mapsto> Some u)\<rparr>)"]) auto
  show ?thesis
  proof (cases "\<exists>v. clientLockIndex s (cid u) = Some (Some v)")
    case False
    then have "clientLockIndex s (cid u) = None \<or> clientLockIndex s (cid u) = Some None" by (metis option.exhaust)
    from take [OF u this] show ?thesis by blast
  next
    case True
    then obtain v where v: "clientLockIndex s (cid u) = Some (Some v)" by blast
    have c: "cid v = cid u" "phase_of s v = SERVING"
      using lock_invD(6) [OF inv v] lock_invD(1) [OF inv u] lock_invD(2) [OF inv, of v] u by auto
    let ?r = "to_phase v LEFT (s\<lparr>clientLockIndex := (clientLockIndex s)(cid v \<mapsto> None)\<rparr>)"
    have st: "lock_step cid s ?r" using c(2) by (rule lock_step.unlock)
    have "phase_of ?r u = IN_SET" using u c by auto
    from take [OF this] c(1) obtain s' where s': "lock_step cid ?r s'" "phase_of s' u = LOCKED" "\<forall>t. t \<noteq> u \<longrightarrow> phase_of s' t = phase_of ?r t" by auto
    have "lock_steps cid s s'" using st s'(1) by (meson converse_rtranclp_into_rtranclp r_into_rtranclp)
    moreover have "phase_of ?r t = phase_of s t \<or> phase_of ?r t = LEFT" for t by simp
    then have "\<forall>t. phase_of s' t = phase_of s t \<or> t = u \<or> phase_of s' t = LEFT" using s'(3) by metis
    ultimately show ?thesis using s'(2) by blast
  qed
qed

lemma finish_holder:
  assumes inv: "lock_inv cid s" and u: "clientLockSetLock s = Some u"
  shows "\<exists>s'. lock_steps cid s s' \<and> clientLockSetLock s' = None \<and> phase_of s' u = SERVING \<and>
     (\<forall>t. phase_of s' t = phase_of s t \<or> t = u \<or> phase_of s' t = LEFT)"
proof -
  have "\<exists>r. lock_steps cid s r \<and> phase_of r u = LOCKED \<and> (\<forall>t. phase_of r t = phase_of s t \<or> t = u \<or> phase_of r t = LEFT)"
    using lock_invD(5) [OF inv u] get_mutex [OF inv, of u] by auto
  then obtain r where r: "lock_steps cid s r" "phase_of r u = LOCKED" "\<forall>t. phase_of r t = phase_of s t \<or> t = u \<or> phase_of r t = LEFT" by blast
  let ?s = "to_phase u SERVING (r\<lparr>clientLockSetLock := None\<rparr>)"
  have "lock_steps cid s ?s" using r(1) lock_step.leave_set [OF r(2)] by (rule rtranclp.rtrancl_into_rtrancl)
  with r(3) show ?thesis by (intro exI [of _ ?s]) auto
qed

lemma can_leave:
  assumes inv: "lock_inv cid s"
  shows "\<exists>s'. lock_steps cid s s' \<and> phase_of s' t = LEFT"
proof -
  have serving: "\<exists>s'. lock_steps cid s s' \<and> phase_of s' t = LEFT" if "lock_steps cid s r" "phase_of r t = SERVING" for r
    using serve_out [OF that(2), of cid] that(1) by (meson rtranclp_trans)
  have free: "\<exists>s'. lock_steps cid s s' \<and> phase_of s' t = LEFT"
    if r: "lock_steps cid s r" "clientLockSetLock r = None" "phase_of r t = ARRIVED" for r
  proof -
    let ?e = "to_phase t IN_SET (r\<lparr>clientLockSetLock := Some t\<rparr>)"
    have e: "lock_step cid r ?e" using r(3,2) by (rule lock_step.enter_set)
    then have "lock_inv cid ?e" using lock_inv_steps [OF r(1) inv] by (rule lock_inv_step)
    from finish_holder [OF this, of t] obtain f where f: "lock_steps cid ?e f" "phase_of f t = SERVING" by auto
    have "lock_steps cid s f" using r(1) e f(1) by (meson rtranclp.rtrancl_into_rtrancl rtranclp_trans)
    then show ?thesis using f(2) by (rule serving)
  qed
  show ?thesis
  proof (cases "clientLockSetLock s")
    case None
    show ?thesis
    proof (cases "phase_of s t")
      case ARRIVED
      then show ?thesis using free [of s] None by blast
    next
      case SERVING
      then show ?thesis using serving [of s] by blast
    qed (use lock_invD(1,2) [OF inv] None in auto)
  next
    case (Some u)
    from finish_holder [OF inv Some] obtain r where r: "lock_steps cid s r" "clientLockSetLock r = None" "phase_of r u = SERVING"
      "\<forall>t. phase_of r t = phase_of s t \<or> t = u \<or> phase_of r t = LEFT" by blast
    note ri = lock_invD(1,2) [OF lock_inv_steps [OF r(1) inv]]
    show ?thesis
    proof (cases "phase_of r t")
      case ARRIVED
      then show ?thesis using free [OF r(1,2)] by blast
    next
      case SERVING
      then show ?thesis using serving [OF r(1)] by blast
    qed (use ri r(1,2) in auto)
  qed
qed

section \<open>Waiting behind another client\<close>

lemma blocked_step:
  assumes "lock_step cid s s'" and "lock_inv cid s" and "cid t1 = cid t2" and "t1 \<noteq> t2"
    and "phase_of s' t1 = SERVING" and "phase_of s t1 = SERVING \<longrightarrow> phase_of s t2 = IN_SET \<and> phase_of s t3 = ARRIVED"
    and "phase_of s t1 = SERVING"
  shows "phase_of s' t2 = IN_SET \<and> phase_of s' t3 = ARRIVED"
  using assms
proof (induction rule: lock_step.induct)
  case (enter_set s t)
  then show ?case using lock_invD(1) [OF enter_set.prems(1), of t2] by (auto split: if_splits)
next
  case (lock_known s t)
  then show ?case using lock_invD(4) [OF lock_known.prems(1), of t1] by (auto split: if_splits)
next
  case (lock_new s t)
  then show ?case using lock_invD(4) [OF lock_new.prems(1), of t1] by (auto split: if_splits)
qed (auto split: if_splits)

lemma serving_before: "lock_step cid s s' \<Longrightarrow> phase_of s' t = SERVING \<Longrightarrow> phase_of s t = SERVING \<or> phase_of s t = LOCKED"
  by (induction rule: lock_step.induct) (auto split: if_splits)

lemma serving_forward: "lock_step cid s s' \<Longrightarrow> phase_of s t = SERVING \<Longrightarrow> phase_of s' t = SERVING \<or> phase_of s' t = LEFT"
  by (induction rule: lock_step.induct) (auto split: if_splits)

lemma left_forward: "lock_step cid s s' \<Longrightarrow> phase_of s t = LEFT \<Longrightarrow> phase_of s' t = LEFT"
  by (induction rule: lock_step.induct) (auto split: if_splits)

lemma blocked_steps:
  assumes "lock_steps cid s s'" and "lock_inv cid s" and "cid t1 = cid t2" and "t1 \<noteq> t2"
    and "phase_of s t1 = SERVING" and "phase_of s t2 = IN_SET" and "phase_of s t3 = ARRIVED"
  shows "phase_of s' t1 = LEFT \<or> phase_of s' t1 = SERVING \<and> phase_of s' t2 = IN_SET \<and> phase_of s' t3 = ARRIVED"
  using assms(1)
proof (induction rule: rtranclp_induct)
  case base
  then show ?case using assms by simp
next
  case (step y z)
  show ?case
  proof (cases "phase_of y t1 = LEFT")
    case True
    then show ?thesis using left_forward [OF step(2)] by blast
  next
    case False
    then have y: "phase_of y t1 = SERVING" "phase_of y t2 = IN_SET" "phase_of y t3 = ARRIVED" using step.IH by auto
    have "lock_inv cid y" using lock_inv_steps [OF step(1) assms(2)] .
    with blocked_step [OF step(2) _ assms(3,4), of t3] serving_forward [OF step(2) y(1)] y show ?thesis by blast
  qed
qed

section \<open>Properties\<close>

text \<open>
  (C32) At most one session per client: in every state that the threads can reach, two threads that hold
  their client's lock or serve their client serve different clients.
\<close>

theorem one_session_per_client:
  assumes "lock_steps cid lock_start s" and "cid t = cid u" and "t \<noteq> u" and "phase_of s t \<in> {LOCKED, SERVING}"
  shows "phase_of s u \<notin> {LOCKED, SERVING}"
proof
  assume u: "phase_of s u \<in> {LOCKED, SERVING}"
  note inv = lock_inv_reach [OF assms(1)]
  have "clientLockIndex s (cid x) = Some (Some x)" if "phase_of s x \<in> {LOCKED, SERVING}" for x
    using lock_invD(3) [OF inv, of x] lock_invD(4) [OF inv, of x] that by (elim insertE) auto
  then have "Some (Some t) = Some (Some u)" using assms(2,4) u by metis
  with assms(3) show False by simp
qed

text \<open>Two threads of client 5: the first is serving, the second waits inside the table.\<close>

definition two_waiting :: lock_state where
  "two_waiting = \<lparr>clientLockSetLock = Some 1, clientLockIndex = [5 \<mapsto> Some 0],
     phase_of = (\<lambda>t. ARRIVED)(0 := SERVING, 1 := IN_SET)\<rparr>"

lemma two_waiting_reached: "cid 0 = 5 \<Longrightarrow> lock_steps cid lock_start two_waiting"
proof -
  assume c: "cid 0 = 5"
  let ?s1 = "to_phase 0 IN_SET (lock_start\<lparr>clientLockSetLock := Some 0\<rparr>)"
  let ?s2 = "to_phase 0 LOCKED (?s1\<lparr>clientLockIndex := (clientLockIndex ?s1)(cid 0 \<mapsto> Some 0)\<rparr>)"
  let ?s3 = "to_phase 0 SERVING (?s2\<lparr>clientLockSetLock := None\<rparr>)"
  let ?s4 = "to_phase 1 IN_SET (?s3\<lparr>clientLockSetLock := Some 1\<rparr>)"
  have "lock_step cid lock_start ?s1" by (rule lock_step.enter_set) (simp_all add: lock_start_def)
  moreover have "lock_step cid ?s1 ?s2" by (rule lock_step.lock_new) (simp_all add: lock_start_def)
  moreover have "lock_step cid ?s2 ?s3" by (rule lock_step.leave_set) simp
  moreover have "lock_step cid ?s3 ?s4" by (rule lock_step.enter_set) (simp_all add: lock_start_def)
  moreover have "?s4 = two_waiting" by (simp add: two_waiting_def lock_start_def c fun_eq_iff)
  ultimately show ?thesis by (metis (no_types, lifting) converse_rtranclp_into_rtranclp rtranclp.rtrancl_refl)
qed

theorem one_session_per_client_witness: "phase_of two_waiting 0 = SERVING \<and> phase_of two_waiting 1 \<notin> {LOCKED, SERVING}"
  using one_session_per_client [OF two_waiting_reached [of "\<lambda>t. 5", OF refl], of 0 1] by (simp add: two_waiting_def)

text \<open>
  (C33) No deadlock: from every state that the threads can reach, every thread can still come to its end.
\<close>

theorem every_thread_can_leave:
  assumes "lock_steps cid lock_start s"
  shows "\<exists>s'. lock_steps cid s s' \<and> phase_of s' t = LEFT"
  by (rule can_leave [OF lock_inv_reach [OF assms]])

theorem every_thread_can_leave_witness: "\<exists>s'. lock_steps (\<lambda>t. 5) two_waiting s' \<and> phase_of s' 7 = LEFT"
  by (rule every_thread_can_leave [OF two_waiting_reached]) simp

text \<open>
  (C34) A second connection of a client that is being served stops all other clients: as long as the first
  connection has not ended, no thread that arrives, for whatever client, gets past the table of locks,
  because the second one waits for the mutex while it holds the lock of the table.
\<close>

theorem same_client_blocks_others:
  assumes "lock_steps cid lock_start s" and "cid t1 = cid t2" and "t1 \<noteq> t2"
    and "phase_of s t1 = SERVING" and "phase_of s t2 = IN_SET" and "phase_of s t3 = ARRIVED"
    and "lock_steps cid s s'" and "phase_of s' t1 \<noteq> LEFT"
  shows "phase_of s' t3 = ARRIVED"
  using blocked_steps [OF assms(7) lock_inv_reach [OF assms(1)] assms(2-6)] assms(8) by blast

theorem same_client_blocks_others_witness:
  "phase_of two_waiting 0 = SERVING \<and> phase_of two_waiting 1 = IN_SET \<and> phase_of two_waiting 2 = ARRIVED"
  using same_client_blocks_others [OF two_waiting_reached, of "\<lambda>t. if t = 2 then 9 else 5" 0 1 2 two_waiting]
  by (simp add: two_waiting_def)

end
