(* ===== verification/FreqSeal.thy ===== *)
theory FreqSeal
  imports FreqIndex SealedFile
begin

text \<open>
  Sealing of the frequency-based index (\<open>PersistDedupIndex\<close> and \<open>LoadDedupIndex\<close> of
  \<open>ecallFreqIndex.cc\<close>): the counters of the sketch go to one file, the top-k index in the order of its
  vector to another. The constructor loads both when they exist (\<open>ENABLE_SEALING\<close> = 1), the
  destructor writes them.
\<close>

section \<open>Layout\<close>

definition SEALED_FREQ_INDEX :: string where
  "SEALED_FREQ_INDEX = ''freq-index''"

definition SEALED_SKETCH :: string where
  "SEALED_SKETCH = ''cm-sketch''"

definition sketchWidth :: nat where
  "sketchWidth = 256 * 1024"

definition sketchDepth :: nat where
  "sketchDepth = 4"

text \<open>A row of counters as \<open>memcpy\<close> sees it.\<close>

definition row_bytes :: "u32 list \<Rightarrow> bytes" where
  "row_bytes row = concat (map u32_bytes row)"

definition row_of_bytes :: "nat \<Rightarrow> bytes \<Rightarrow> u32 list" where
  "row_of_bytes n b = map (\<lambda>i. bytes_u32 (drop (i * 4) b)) [0..<n]"

definition HeapItem_size :: nat where
  "HeapItem_size = RecipeEntry_size + 8"

definition HeapItem_bytes :: "heap_item \<Rightarrow> bytes" where
  "HeapItem_bytes it = RecipeEntry_bytes (hi_address it) @ u32_bytes (chunkFreq it) @ u32_bytes (hi_idx it)"

definition HeapItem_of_bytes :: "bytes \<Rightarrow> heap_item" where
  "HeapItem_of_bytes b =
     \<lparr>hi_address = RecipeEntry_of_bytes b, chunkFreq = bytes_u32 (drop RecipeEntry_size b),
      hi_idx = bytes_u32 (drop (RecipeEntry_size + 4) b)\<rparr>"

section \<open>Writing\<close>

definition heap_entry_bytes :: "entry_heap \<Rightarrow> bytes \<Rightarrow> bytes res" where
  "heap_entry_bytes h k =
     (case heap_index h k of
        None \<Rightarrow> Inl (Undefined ''dangling iterator'')
      | Some it \<Rightarrow>
          if length k < CHUNK_HASH_SIZE then Inl (Undefined ''memcpy past the end of the key'')
          else Inr (take CHUNK_HASH_SIZE k @ HeapItem_bytes it))"

definition heap_buffer :: "entry_heap \<Rightarrow> bytes res" where
  "heap_buffer h =
     rfold (\<lambda>k buf. rbind (heap_entry_bytes h k) (\<lambda>b. Inr (buf @ b))) (heap_vec h)
       (u64_bytes (of_nat (length (heap_vec h))))"

definition Freq_PersistDedupIndex :: "(string \<Rightarrow> bool) \<Rightarrow> freq_index \<Rightarrow> sealed_io \<Rightarrow> sealed_io res" where
  "Freq_PersistDedupIndex can_create x io =
     (let (ok, io1) = Ocall_InitWriteSealedFile can_create SEALED_SKETCH io in
      if \<not> ok then Inl (ProcExit ''EcallFreqIndex: cannot init the sketch sealed file.'')
      else
        let io2 = foldl (\<lambda>io i. WriteBufferToFile (row_bytes (counterArray (cmSketch x) ! i)) io) io1 [0..<sketchDepth];
            (ok', io3) = Ocall_InitWriteSealedFile can_create SEALED_FREQ_INDEX (Ocall_CloseWriteSealedFile io2)
        in if \<not> ok' then Inl (ProcExit ''EcallFreqIndex: cannot init the heap sealed file.'')
           else rbind (heap_buffer (insideDedupIndex x)) (\<lambda>buf.
                  Inr (Ocall_CloseWriteSealedFile (WriteBufferToFile buf io3))))"

section \<open>Reading\<close>

fun load_rows :: "u32 list list \<Rightarrow> sealed_io \<Rightarrow> u32 list list \<times> sealed_io" where
  "load_rows [] io = ([], io)"
| "load_rows (row # rows) io =
     (let (b, io1) = ReadFileToBuffer (4 * sketchWidth) (row_bytes row) io;
          (rows', io2) = load_rows rows io1
      in (row_of_bytes sketchWidth b # rows', io2))"

text \<open>\<open>insert\<close> of the hash map keeps an entry that is already there.\<close>

definition load_heap_item :: "bytes \<Rightarrow> nat \<Rightarrow> entry_heap \<Rightarrow> entry_heap" where
  "load_heap_item buf offset h =
     (let fp = read_at buf offset CHUNK_HASH_SIZE;
          it = HeapItem_of_bytes (read_at buf (offset + CHUNK_HASH_SIZE) HeapItem_size)
      in \<lparr>heap_vec = heap_vec h @ [fp],
          heap_index = (case heap_index h fp of None \<Rightarrow> (heap_index h)(fp \<mapsto> it) | Some _ \<Rightarrow> heap_index h)\<rparr>)"

primrec load_heap_items :: "nat \<Rightarrow> bytes \<Rightarrow> nat \<Rightarrow> entry_heap \<Rightarrow> entry_heap res" where
  "load_heap_items 0 buf offset h = Inr h"
| "load_heap_items (Suc n) buf offset h =
     (if length buf < offset + CHUNK_HASH_SIZE + HeapItem_size then Inl (Undefined ''memcpy past the end of the buffer'')
      else load_heap_items n buf (offset + CHUNK_HASH_SIZE + HeapItem_size) (load_heap_item buf offset h))"

definition load_heap :: "bytes \<Rightarrow> entry_heap \<Rightarrow> entry_heap res" where
  "load_heap buf h =
     (if length buf < 8 then Inl (Undefined ''memcpy past the end of the buffer'')
      else load_heap_items (unat (bytes_u64 buf)) buf 8 h)"

text \<open>\<open>junk\<close> is the content of the buffer from \<open>malloc\<close>. The early returns leave the stream as it is.\<close>

definition Freq_LoadDedupIndex :: "bytes \<Rightarrow> freq_index \<Rightarrow> sealed_io \<Rightarrow> (bool \<times> freq_index \<times> sealed_io) res" where
  "Freq_LoadDedupIndex junk x io =
     (let (sealedDataSize, io1) = Ocall_InitReadSealedFile SEALED_SKETCH io in
      if sealedDataSize = 0 then Inr (False, x, io1)
      else
        let (rows, io2) = load_rows (counterArray (cmSketch x)) io1;
            x1 = x\<lparr>cmSketch := (cmSketch x)\<lparr>counterArray := rows\<rparr>\<rparr>;
            (size2, io3) = Ocall_InitReadSealedFile SEALED_FREQ_INDEX (Ocall_CloseReadSealedFile io2)
        in if size2 = 0 then Inr (False, x1, io3)
           else
             let (buf, io4) = ReadFileToBuffer size2 junk io3
             in rbind (load_heap buf (insideDedupIndex x1)) (\<lambda>h.
                  Inr (True, x1\<lparr>insideDedupIndex := h\<rparr>, Ocall_CloseReadSealedFile io4)))"

definition EcallFreqIndex_init :: "bytes \<Rightarrow> sealed_io \<Rightarrow> (freq_index \<times> sealed_io) res" where
  "EcallFreqIndex_init junk io = rbind (Freq_LoadDedupIndex junk EcallFreqIndex_new io) (\<lambda>(loaded, x, io'). Inr (x, io'))"

section \<open>What was written is read\<close>

lemma length_row_bytes [simp]: "length (row_bytes row) = 4 * length row"
  by (induction row) (simp_all add: row_bytes_def)

lemma row_of_row_bytes [simp]: "row_of_bytes (length row) (row_bytes row) = row"
proof (rule nth_equalityI)
  fix i assume i: "i < length (row_of_bytes (length row) (row_bytes row))"
  then have "i < length row" by (simp add: row_of_bytes_def)
  then have "drop (i * 4) (row_bytes row) = u32_bytes (row ! i) @ row_bytes (drop (Suc i) row)"
  proof (induction row arbitrary: i)
    case Nil
    then show ?case by simp
  next
    case (Cons w row)
    then show ?case by (cases i) (simp_all add: row_bytes_def)
  qed
  with i show "row_of_bytes (length row) (row_bytes row) ! i = row ! i" by (simp add: row_of_bytes_def)
qed (simp add: row_of_bytes_def)

lemma load_rows_written:
  assumes "rd io = Some (b, p, False)" and "drop p b = concat (map row_bytes rows)"
    and "length old = length rows" and "\<forall>row \<in> set rows. length row = sketchWidth"
  shows "\<exists>q. load_rows old io = (rows, io\<lparr>rd := q\<rparr>)"
  using assms
proof (induction rows arbitrary: old io p)
  case Nil
  then have "load_rows old io = ([], io\<lparr>rd := rd io\<rparr>)" by simp
  then show ?case by blast
next
  case (Cons row rows)
  obtain o1 old' where old: "old = o1 # old'" using Cons.prems(3) by (cases old) simp_all
  have l: "length row = sketchWidth" using Cons.prems(4) by simp
  have d: "drop p b = row_bytes row @ concat (map row_bytes rows)" using Cons.prems(2) by simp
  have "length (drop p b) = 4 * sketchWidth + length (concat (map row_bytes rows))" unfolding d by (simp add: l)
  then have le: "p + 4 * sketchWidth \<le> length b" by (simp add: sketchWidth_def)
  note r = ReadFileToBuffer_full [OF Cons.prems(1) le, of "row_bytes o1"]
  let ?io1 = "io\<lparr>rd := Some (b, p + 4 * sketchWidth, False)\<rparr>"
  have "drop (p + 4 * sketchWidth) b = drop (4 * sketchWidth) (drop p b)" by (simp add: add.commute)
  then have "drop (p + 4 * sketchWidth) b = concat (map row_bytes rows)" by (simp add: d l)
  moreover have "length old' = length rows" "\<forall>row \<in> set rows. length row = sketchWidth" using Cons.prems(3,4) old by simp_all
  ultimately obtain q where q: "load_rows old' ?io1 = (rows, ?io1\<lparr>rd := q\<rparr>)" using Cons.IH [of ?io1 "p + 4 * sketchWidth" old'] by auto
  have "take (4 * sketchWidth) (drop p b) = row_bytes row" by (simp add: d l)
  with r q l have "load_rows old io = (row # rows, io\<lparr>rd := q\<rparr>)"
    using row_of_row_bytes [of row] by (simp add: old del: row_of_row_bytes)
  then show ?case by blast
qed

text \<open>The top-k index, entry by entry.\<close>

definition heap_entries_ok :: "entry_heap \<Rightarrow> bool" where
  "heap_entries_ok h \<longleftrightarrow> (\<forall>k it. heap_index h k = Some it \<longrightarrow> length k = CHUNK_HASH_SIZE \<and> wf_entry (hi_address it))"

lemma HeapItem_of_HeapItem_bytes:
  "wf_entry (hi_address it) \<Longrightarrow> HeapItem_of_bytes (HeapItem_bytes it) = it"
  by (cases it) (simp add: HeapItem_of_bytes_def HeapItem_bytes_def)

lemma length_HeapItem_bytes: "wf_entry (hi_address it) \<Longrightarrow> length (HeapItem_bytes it) = HeapItem_size"
  by (simp add: HeapItem_bytes_def HeapItem_size_def)

definition entries_of :: "entry_heap \<Rightarrow> bytes list \<Rightarrow> bytes" where
  "entries_of h ks = concat (map (\<lambda>k. k @ HeapItem_bytes (the (heap_index h k))) ks)"

lemma heap_buffer_fold:
  assumes "heap_entries_ok h" and "set ks \<subseteq> dom (heap_index h)"
  shows "rfold (\<lambda>k buf. rbind (heap_entry_bytes h k) (\<lambda>b. Inr (buf @ b))) ks buf = Inr (buf @ entries_of h ks)"
  using assms(2)
proof (induction ks arbitrary: buf)
  case Nil
  then show ?case by (simp add: entries_of_def)
next
  case (Cons k ks)
  then obtain it where it: "heap_index h k = Some it" by auto
  then have "length k = CHUNK_HASH_SIZE" using assms(1) by (simp add: heap_entries_ok_def)
  then have "heap_entry_bytes h k = Inr (k @ HeapItem_bytes it)" using it by (simp add: heap_entry_bytes_def)
  with Cons it show ?case by (simp add: entries_of_def)
qed

lemma load_heap_items_written:
  assumes ok: "heap_entries_ok h" and "set ks \<subseteq> dom (heap_index h)" and "distinct (ks0 @ ks)"
    and "buf = pre @ entries_of h ks"
    and "g = \<lparr>heap_vec = ks0, heap_index = heap_index h |` set ks0\<rparr>"
  shows "load_heap_items (length ks) buf (length pre) g = Inr \<lparr>heap_vec = ks0 @ ks, heap_index = heap_index h |` set (ks0 @ ks)\<rparr>"
  using assms(2-)
proof (induction ks arbitrary: ks0 pre g)
  case Nil
  then show ?case by simp
next
  case (Cons k ks)
  then obtain it where it: "heap_index h k = Some it" by auto
  then have k: "length k = CHUNK_HASH_SIZE" and w: "wf_entry (hi_address it)" using ok by (simp_all add: heap_entries_ok_def)
  note lb = length_HeapItem_bytes [OF w]
  let ?e = "k @ HeapItem_bytes it"
  have buf: "buf = (pre @ ?e) @ entries_of h ks" using Cons.prems(3) it by (simp add: entries_of_def)
  have new: "k \<notin> set ks0" using Cons.prems(2) by auto
  let ?g = "\<lparr>heap_vec = ks0 @ [k], heap_index = heap_index h |` set (ks0 @ [k])\<rparr>"
  have "read_at buf (length pre) CHUNK_HASH_SIZE = k" "read_at buf (length pre + CHUNK_HASH_SIZE) HeapItem_size = HeapItem_bytes it"
    unfolding buf using k lb by (simp_all add: read_at_def)
  then have li: "load_heap_item buf (length pre) g = ?g"
    using new it w by (auto simp: load_heap_item_def Cons.prems(4) HeapItem_of_HeapItem_bytes restrict_map_def fun_eq_iff)
  have "load_heap_items (length ks) buf (length (pre @ ?e)) ?g =
      Inr \<lparr>heap_vec = (ks0 @ [k]) @ ks, heap_index = heap_index h |` set ((ks0 @ [k]) @ ks)\<rparr>"
    using Cons.prems by (intro Cons.IH buf) auto
  moreover have "\<not> length buf < length pre + CHUNK_HASH_SIZE + HeapItem_size" unfolding buf using k lb by simp
  ultimately show ?case by (simp add: li k lb add.assoc)
qed

lemma load_heap_written:
  assumes inv: "EntryHeap_inv h" and ok: "heap_entries_ok h"
  shows "\<exists>buf. heap_buffer h = Inr buf \<and> load_heap buf EntryHeap_new = Inr h \<and> buf \<noteq> []"
proof -
  let ?ks = "heap_vec h" and ?n = "u64_bytes (of_nat (length (heap_vec h)))"
  have ks: "distinct ?ks" "set ?ks = dom (heap_index h)" using inv by (simp_all add: EntryHeap_inv_def keys_ok_def)
  have n: "unat (of_nat (length ?ks) :: u64) = length ?ks"
    using inv by (intro unat_of_nat_u64) (simp add: EntryHeap_inv_def heap_bound_def)
  have "heap_buffer h = Inr (?n @ entries_of h ?ks)" unfolding heap_buffer_def by (rule heap_buffer_fold [OF ok]) (simp add: ks)
  moreover have "load_heap_items (length ?ks) (?n @ entries_of h ?ks) (length ?n) EntryHeap_new =
      Inr \<lparr>heap_vec = [] @ ?ks, heap_index = heap_index h |` set ([] @ ?ks)\<rparr>"
    by (rule load_heap_items_written [OF ok]) (simp_all add: ks EntryHeap_new_def)
  moreover have "heap_index h |` set ?ks = heap_index h" by (simp add: restrict_map_def fun_eq_iff ks domIff)
  ultimately show ?thesis
    by (intro exI [of _ "?n @ entries_of h ?ks"]) (simp add: load_heap_def n, metis length_0_conv length_u64_bytes zero_neq_numeral)
qed

text \<open>The two files that the destructor leaves.\<close>

lemma Freq_persist_files:
  assumes cc: "can_create SEALED_SKETCH" "can_create SEALED_FREQ_INDEX" and w: "wr io = None"
    and d: "length (counterArray (cmSketch x)) = sketchDepth" and b: "heap_buffer (insideDedupIndex x) = Inr buf"
  shows "Freq_PersistDedupIndex can_create x io =
     Inr (io\<lparr>files := (files io)(SEALED_SKETCH \<mapsto> concat (map row_bytes (counterArray (cmSketch x))), SEALED_FREQ_INDEX \<mapsto> buf)\<rparr>)"
proof -
  let ?A = "counterArray (cmSketch x)" and ?S = SEALED_SKETCH and ?F = SEALED_FREQ_INDEX
  let ?io1 = "io\<lparr>wr := Some ?S, files := (files io)(?S \<mapsto> [])\<rparr>"
  have rows: "map (\<lambda>i. row_bytes (?A ! i)) [0..<sketchDepth] = map row_bytes ?A"
    by (rule nth_equalityI) (simp_all add: d)
  have "foldl (\<lambda>io i. WriteBufferToFile (row_bytes (?A ! i)) io) ?io1 [0..<sketchDepth] =
      foldl (\<lambda>io b. WriteBufferToFile b io) ?io1 (map row_bytes ?A)"
    unfolding rows [symmetric] foldl_map ..
  also have "\<dots> = ?io1\<lparr>files := (files ?io1)(?S \<mapsto> [] @ concat (map row_bytes ?A))\<rparr>"
    by (rule WriteBufferToFile_all) simp_all
  finally have s: "foldl (\<lambda>io i. WriteBufferToFile (row_bytes (?A ! i)) io) ?io1 [0..<sketchDepth] =
      io\<lparr>wr := Some ?S, files := (files io)(?S \<mapsto> concat (map row_bytes ?A))\<rparr>" by (cases io) simp
  let ?io2 = "io\<lparr>wr := None, files := (files io)(?S \<mapsto> concat (map row_bytes ?A))\<rparr>"
  let ?io3 = "?io2\<lparr>wr := Some ?F, files := (files ?io2)(?F \<mapsto> [])\<rparr>"
  have "WriteBufferToFile buf ?io3 = ?io3\<lparr>files := (files ?io3)(?F \<mapsto> [] @ buf)\<rparr>"
    by (rule WriteBufferToFile_open) simp_all
  then show ?thesis
    using cc w b s
    by (cases io) (simp add: Freq_PersistDedupIndex_def Ocall_InitWriteSealedFile_def Ocall_CloseWriteSealedFile_def)
qed

lemma Freq_load_files:
  assumes r: "rd io = None" and S: "files io SEALED_SKETCH = Some (concat (map row_bytes rows))"
    and F: "files io SEALED_FREQ_INDEX = Some buf" and ne: "buf \<noteq> []"
    and l: "load_heap buf (insideDedupIndex x) = Inr h"
    and rows: "length rows = sketchDepth" "\<forall>row \<in> set rows. length row = sketchWidth"
    and x: "length (counterArray (cmSketch x)) = sketchDepth"
  shows "Freq_LoadDedupIndex junk x io =
     Inr (True, x\<lparr>cmSketch := (cmSketch x)\<lparr>counterArray := rows\<rparr>, insideDedupIndex := h\<rparr>, io)"
proof -
  let ?b = "concat (map row_bytes rows)"
  have lb: "length ?b = sketchDepth * (4 * sketchWidth)"
    using length_concat_blocks [of "map row_bytes rows" "4 * sketchWidth"] rows by simp
  have o1: "Ocall_InitReadSealedFile SEALED_SKETCH io = (length ?b, io\<lparr>rd := Some (?b, 0, False)\<rparr>)"
    using r S by (simp add: Ocall_InitReadSealedFile_def)
  from load_rows_written [of "io\<lparr>rd := Some (?b, 0, False)\<rparr>" ?b 0 rows "counterArray (cmSketch x)"] rows x
  obtain q where q: "load_rows (counterArray (cmSketch x)) (io\<lparr>rd := Some (?b, 0, False)\<rparr>) = (rows, io\<lparr>rd := q\<rparr>)"
    by auto
  have io: "io\<lparr>rd := None\<rparr> = io" using r by (cases io) simp
  have o2: "Ocall_InitReadSealedFile SEALED_FREQ_INDEX (Ocall_CloseReadSealedFile (io\<lparr>rd := q\<rparr>)) = (length buf, io\<lparr>rd := Some (buf, 0, False)\<rparr>)"
    using F by (simp add: Ocall_InitReadSealedFile_def Ocall_CloseReadSealedFile_def)
  have rb: "ReadFileToBuffer (length buf) junk (io\<lparr>rd := Some (buf, 0, False)\<rparr>) = (buf, io\<lparr>rd := Some (buf, length buf, False)\<rparr>)"
    using ReadFileToBuffer_full [of "io\<lparr>rd := Some (buf, 0, False)\<rparr>" buf 0 "length buf" junk] by simp
  have "length ?b \<noteq> 0" unfolding lb by (simp add: sketchDepth_def sketchWidth_def)
  with o1 q o2 rb l ne io show ?thesis
    by (simp add: Freq_LoadDedupIndex_def Ocall_CloseReadSealedFile_def Let_def del: length_concat length_0_conv)
qed

section \<open>Properties\<close>

text \<open>What is not sealed: the number of processed items of the sketch and the counters of the index.\<close>

definition freq_reloaded :: "freq_index \<Rightarrow> freq_index" where
  "freq_reloaded x = x\<lparr>cmSketch := (cmSketch x)\<lparr>total := 0\<rparr>, insideDedupChunkNum := 0, insideDedupDataSize := 0\<rparr>"

definition freq_sealable :: "(string \<Rightarrow> bool) \<Rightarrow> freq_index \<Rightarrow> (string \<rightharpoonup> bytes) \<Rightarrow> bool" where
  "freq_sealable can_create x f \<longleftrightarrow> can_create SEALED_SKETCH \<and> can_create SEALED_FREQ_INDEX \<and>
     EntryHeap_inv (insideDedupIndex x) \<and> heap_entries_ok (insideDedupIndex x) \<and> sketch_wf (cmSketch x) \<and>
     unat (width (cmSketch x)) = sketchWidth \<and> unat (depth (cmSketch x)) = sketchDepth"

lemma freq_sealed:
  assumes ok: "freq_sealable can_create x f0" and w: "wr io = None"
  shows "\<exists>f. Freq_PersistDedupIndex can_create x io = Inr (io\<lparr>files := f\<rparr>) \<and>
     (\<forall>n. n \<notin> {SEALED_SKETCH, SEALED_FREQ_INDEX} \<longrightarrow> f n = files io n) \<and>
     (\<forall>io2. rd io2 = None \<longrightarrow> (\<forall>n \<in> {SEALED_SKETCH, SEALED_FREQ_INDEX}. files io2 n = f n) \<longrightarrow>
        EcallFreqIndex_init junk io2 = Inr (freq_reloaded x, io2))"
proof -
  have cc: "can_create SEALED_SKETCH" "can_create SEALED_FREQ_INDEX" using ok by (simp_all add: freq_sealable_def)
  from load_heap_written [of "insideDedupIndex x"] ok obtain buf where
    b: "heap_buffer (insideDedupIndex x) = Inr buf" "load_heap buf EntryHeap_new = Inr (insideDedupIndex x)" "buf \<noteq> []"
    unfolding freq_sealable_def by blast
  let ?A = "counterArray (cmSketch x)"
  let ?f = "(files io)(SEALED_SKETCH \<mapsto> concat (map row_bytes ?A), SEALED_FREQ_INDEX \<mapsto> buf)"
  have d: "length ?A = sketchDepth" "\<forall>row \<in> set ?A. length row = sketchWidth" using ok by (simp_all add: freq_sealable_def sketch_wf_def)
  have n: "SEALED_SKETCH \<noteq> SEALED_FREQ_INDEX" by (simp add: SEALED_SKETCH_def SEALED_FREQ_INDEX_def)
  have wd: "width (cmSketch x) = 256 * 1024" "depth (cmSketch x) = 4"
    using ok by (simp_all add: freq_sealable_def sketchWidth_def sketchDepth_def word_unat_eq_iff)
  have x: "EcallFreqIndex_new\<lparr>cmSketch := (cmSketch EcallFreqIndex_new)\<lparr>counterArray := ?A\<rparr>, insideDedupIndex := insideDedupIndex x\<rparr> = freq_reloaded x"
    using wd by (cases x, cases "cmSketch x") (simp add: freq_reloaded_def EcallFreqIndex_new_def CMSketch_new_def)
  have "EcallFreqIndex_init junk io2 = Inr (freq_reloaded x, io2)"
    if "rd io2 = None" "files io2 SEALED_SKETCH = ?f SEALED_SKETCH" "files io2 SEALED_FREQ_INDEX = ?f SEALED_FREQ_INDEX" for io2 :: sealed_io
    using Freq_load_files [of io2 ?A buf EcallFreqIndex_new "insideDedupIndex x" junk] that b d n x
    by (simp add: EcallFreqIndex_init_def) (simp add: EcallFreqIndex_new_def CMSketch_new_def sketchDepth_def)
  with Freq_persist_files [where can_create = can_create, OF cc w d(1) b(1)] show ?thesis by (intro exI [of _ ?f]) simp
qed

interpretation freq_seal: sealed_index "{SEALED_SKETCH, SEALED_FREQ_INDEX}" "freq_sealable can_create"
  "Freq_PersistDedupIndex can_create" "EcallFreqIndex_init junk" freq_reloaded for can_create junk
proof
  fix x f f'
  assume "freq_sealable can_create x f"
  then show "freq_sealable can_create x f'" by (simp add: freq_sealable_def)
qed (rule freq_sealed)

text \<open>
  The frequency-based index survives a restart of the enclave: after the destructor has sealed it,
  the constructor comes back with the same top-k index, in the same order, and the same counters. What
  is lost is the number of processed items of the sketch and the statistics of the index, which are not
  part of the sealed files.
\<close>

theorem Freq_sealed_roundtrip:
  assumes "can_create SEALED_SKETCH" and "can_create SEALED_FREQ_INDEX" and "wr io = None" and "rd io = None"
    and "EntryHeap_inv (insideDedupIndex x)" and "heap_entries_ok (insideDedupIndex x)"
    and "sketch_wf (cmSketch x)" and "unat (width (cmSketch x)) = sketchWidth" and "unat (depth (cmSketch x)) = sketchDepth"
  shows "\<exists>io'. Freq_PersistDedupIndex can_create x io = Inr io' \<and>
     EcallFreqIndex_init junk io' =
       Inr (x\<lparr>cmSketch := (cmSketch x)\<lparr>total := 0\<rparr>, insideDedupChunkNum := 0, insideDedupDataSize := 0\<rparr>, io')"
  using freq_seal.reload [of can_create x io junk] assms by (simp add: freq_sealable_def freq_reloaded_def)

definition sealed_sample :: freq_index where
  "sealed_sample = EcallFreqIndex_new\<lparr>insideDedupIndex :=
     \<lparr>heap_vec = [replicate CHUNK_HASH_SIZE 7], heap_index = [replicate CHUNK_HASH_SIZE 7 \<mapsto> \<lparr>hi_address = blank_addr, chunkFreq = 2, hi_idx = 0\<rparr>]\<rparr>,
     insideDedupChunkNum := 5\<rparr>"

theorem Freq_sealed_roundtrip_witness:
  "\<exists>io'. Freq_PersistDedupIndex (\<lambda>f. True) sealed_sample \<lparr>files = Map.empty, wr = None, rd = None\<rparr> = Inr io' \<and>
     EcallFreqIndex_init [] io' =
       Inr (sealed_sample\<lparr>cmSketch := (cmSketch sealed_sample)\<lparr>total := 0\<rparr>, insideDedupChunkNum := 0, insideDedupDataSize := 0\<rparr>, io')"
  by (rule Freq_sealed_roundtrip)
    (simp_all add: sealed_sample_def EntryHeap_inv_def keys_ok_def idx_ok_but_def freqs_def min_heap_def heap_bound_def
      heap_entries_ok_def wf_entry_def blank_addr_def EcallFreqIndex_new_def sketch_wf_new, simp_all add: CMSketch_new_def sketchWidth_def sketchDepth_def)

end
