(* ===== verification/Segment.thy ===== *)
theory Segment
  imports Upload
begin

text \<open>
  The segments of the two near-exact indexes (\<open>EcallExtremeBinIndex\<close>, \<open>EcallSparseIndex\<close>): chunks are
  collected in the segment buffer of the client until \<open>EnclaveBase::IsEndOfSegment\<close> says that the next
  chunk starts a new segment. The loop over a batch and the tail are the same code in both indexes but
  for the smallest hash value, which only the Extreme Binning index keeps; what is done with a complete
  segment is their parameter. The segmentation is compared with a function on lists of chunks.
\<close>

section \<open>Operations\<close>

definition SegmentMeta_size :: nat where
  "SegmentMeta_size = 4 + CHUNK_HASH_SIZE"

definition SegmentMeta_bytes :: "u32 \<times> bytes \<Rightarrow> bytes" where
  "SegmentMeta_bytes m = u32_bytes (fst m) @ take CHUNK_HASH_SIZE (snd m)"

text \<open>
  The two buffers of a segment hold \<open>MAX_SEGMENT_SIZE\<close> bytes and \<open>MAX_SEGMENT_SIZE / MIN_CHUNK_SIZE\<close>
  metadata entries; a write beyond them is undefined.
\<close>

definition add_to_segment :: "bytes \<Rightarrow> bytes \<Rightarrow> segment \<Rightarrow> segment res" where
  "add_to_segment d h sg =
     (if unat MAX_SEGMENT_SIZE < unat (segmentSize sg) + length d then Inl (Undefined ''segment buffer overflow'')
      else if unat maxSegmentChunkNum \<le> unat (seg_chunkNum sg) then Inl (Undefined ''segment metadata overflow'')
      else
        let i = unat (seg_chunkNum sg) in
        Inr (sg\<lparr>seg_buffer := memcpy_at (seg_buffer sg) (unat (segmentSize sg)) d,
                seg_metadata := take i (seg_metadata sg) @ [(of_nat (length d), h)] @ drop (Suc i) (seg_metadata sg),
                segmentSize := segmentSize sg + of_nat (length d), seg_chunkNum := seg_chunkNum sg + 1\<rparr>))"

definition update_min :: "u32 \<Rightarrow> bytes \<Rightarrow> segment \<Rightarrow> segment" where
  "update_min hv h sg = (if hv < minHashVal sg then sg\<lparr>minHashVal := hv, minHash := h\<rparr> else sg)"

definition keep_min :: "u32 \<Rightarrow> bytes \<Rightarrow> segment \<Rightarrow> segment" where
  "keep_min hv h sg = sg"

definition close_segment :: "('i \<times> up_state \<Rightarrow> ('i \<times> up_state) res) \<Rightarrow> 'i \<times> up_state \<Rightarrow> ('i \<times> up_state) res" where
  "close_segment proc st = rbind (proc st) (\<lambda>(x, s). Inr (x, ResetCurrentSegment s))"

definition segment_chunk ::
  "enclave_cfg \<Rightarrow> (u32 \<Rightarrow> bytes \<Rightarrow> segment \<Rightarrow> segment) \<Rightarrow> ('i \<times> up_state \<Rightarrow> ('i \<times> up_state) res) \<Rightarrow>
   ('i \<times> up_state) \<times> nat \<Rightarrow> (('i \<times> up_state) \<times> nat) res" where
  "segment_chunk C upd proc sto =
     (let (st, off) = sto in
      rbind (read_chunk (recvBuffer (sgx (snd st))) off) (\<lambda>(d, off').
      rbind (Ecall_GenerateHash (cfg_evp C) (cfg_tool C) d) (\<lambda>h0.
        let h = take CHUNK_HASH_SIZE h0; hv = ConvertHashToValue h in
        rbind (if IsEndOfSegment hv (of_nat (length d)) (seg (sgx (snd st))) then close_segment proc st else Inr st) (\<lambda>(x, s).
        rbind (add_to_segment d h (seg (sgx s))) (\<lambda>sg.
          Inr ((x, count_logical (length d) (s\<lparr>sgx := (sgx s)\<lparr>seg := upd hv h sg\<rparr>\<rparr>)), off'))))))"

definition segment_batch ::
  "enclave_cfg \<Rightarrow> (u32 \<Rightarrow> bytes \<Rightarrow> segment \<Rightarrow> segment) \<Rightarrow> ('i \<times> up_state \<Rightarrow> ('i \<times> up_state) res) \<Rightarrow>
   net_msg \<Rightarrow> 'i \<times> up_state \<Rightarrow> ('i \<times> up_state) res" where
  "segment_batch C upd proc m st =
     rbind (recv_batch C m (snd st)) (\<lambda>s1.
     rbind (rfold (\<lambda>i. segment_chunk C upd proc) [0..<unat (currentItemNum m)] ((fst st, s1), 0)) (\<lambda>((x, s2), off).
       Inr (x, clear_recv C s2)))"

definition segment_tail ::
  "enclave_cfg \<Rightarrow> ('i \<times> up_state \<Rightarrow> ('i \<times> up_state) res) \<Rightarrow> 'i \<times> up_state \<Rightarrow> ('i \<times> up_state) res" where
  "segment_tail C proc st =
     rbind (if seg_chunkNum (seg (sgx (snd st))) \<noteq> 0 then close_segment proc st else Inr st) (\<lambda>(x, s).
     rbind (tail_recipe C s) (\<lambda>s'. Inr (x, tail_container s')))"

section \<open>Segmentation of a list of chunks\<close>

definition meta_of :: "enclave_cfg \<Rightarrow> bytes \<Rightarrow> u32 \<times> bytes" where
  "meta_of C d = (of_nat (length d), chunk_fp C d)"

definition ends_segment :: "enclave_cfg \<Rightarrow> bytes list \<Rightarrow> bytes \<Rightarrow> bool" where
  "ends_segment C cur d \<longleftrightarrow>
     unat maxSegmentChunkNum < length cur + 1 \<or>
     unat MIN_SEGMENT_SIZE \<le> length (concat cur) + length d \<and>
     (unat MAX_SEGMENT_SIZE < length (concat cur) + length d \<or> ConvertHashToValue (chunk_fp C d) mod DIVISOR = PATTERN)"

text \<open>The complete segments and the open one at the end, from the open segment \<open>cur\<close>.\<close>

fun segments :: "enclave_cfg \<Rightarrow> bytes list \<Rightarrow> bytes list \<Rightarrow> bytes list list" where
  "segments C cur [] = (if cur = [] then [] else [cur])"
| "segments C cur (d # ds) = (if ends_segment C cur d then cur # segments C [d] ds else segments C (cur @ [d]) ds)"

lemma concat_segments: "concat (segments C cur ds) = cur @ ds"
  by (induction C cur ds rule: segments.induct) auto

text \<open>\<open>holds C sg cs\<close>: the chunks in the segment buffer are \<open>cs\<close>.\<close>

definition holds :: "enclave_cfg \<Rightarrow> segment \<Rightarrow> bytes list \<Rightarrow> bool" where
  "holds C sg cs \<longleftrightarrow>
     unat (seg_chunkNum sg) = length cs \<and> unat (segmentSize sg) = length (concat cs) \<and>
     take (length (concat cs)) (seg_buffer sg) = concat cs \<and>
     take (length cs) (seg_metadata sg) = map (meta_of C) cs \<and>
     length cs \<le> unat maxSegmentChunkNum \<and> length (concat cs) \<le> unat MAX_SEGMENT_SIZE"

lemma maxSegmentChunkNum_val: "unat maxSegmentChunkNum = 5120"
  by (simp add: maxSegmentChunkNum_def const_defs)

lemma MAX_SEGMENT_SIZE_nat: "unat MAX_SEGMENT_SIZE = 20971520" "unat MIN_SEGMENT_SIZE = 5242880"
  by (simp_all add: const_defs)

lemma holds_empty: "seg_chunkNum sg = 0 \<Longrightarrow> segmentSize sg = 0 \<Longrightarrow> holds C sg []"
  by (simp add: holds_def)

text \<open>The test of the code on the words of a segment is the test on the chunks: nothing wraps.\<close>

lemma IsEndOfSegment_eq:
  assumes h: "holds C sg cur" and d: "length d \<le> unat MAX_CHUNK_SIZE"
  shows "IsEndOfSegment (ConvertHashToValue (chunk_fp C d)) (of_nat (length d)) sg = ends_segment C cur d"
proof -
  let ?n = "length (concat cur) + length d"
  have l: "length d \<le> 16384" using d by (simp add: const_defs)
  have b: "length cur \<le> 5120" "length (concat cur) \<le> 20971520"
    using h by (simp_all add: holds_def maxSegmentChunkNum_val MAX_SEGMENT_SIZE_nat)
  have n: "unat (seg_chunkNum sg + 1) = length cur + 1"
    using h b by (subst unat_add_u32) (simp_all add: holds_def)
  have "unat (of_nat (length d) :: u32) = length d" using l by (simp add: unat_of_nat_u32)
  then have z: "unat (segmentSize sg + of_nat (length d)) = ?n"
    using h l b by (subst unat_add_u32) (simp_all add: holds_def)
  have "(seg_chunkNum sg + 1 > maxSegmentChunkNum) = (unat maxSegmentChunkNum < length cur + 1)"
    "(segmentSize sg + of_nat (length d) < MIN_SEGMENT_SIZE) = (?n < unat MIN_SEGMENT_SIZE)"
    "(segmentSize sg + of_nat (length d) > MAX_SEGMENT_SIZE) = (unat MAX_SEGMENT_SIZE < ?n)"
    unfolding word_less_nat_alt n z by simp_all
  then show ?thesis by (auto simp: IsEndOfSegment_def ends_segment_def)
qed

lemma ends_segment_not_Nil: "ends_segment C cur d \<Longrightarrow> length d \<le> unat MAX_CHUNK_SIZE \<Longrightarrow> cur \<noteq> []"
  by (auto simp: ends_segment_def maxSegmentChunkNum_val const_defs)

lemma add_to_segment_ok:
  assumes h: "holds C sg cur" and d: "length d \<le> unat MAX_CHUNK_SIZE" and e: "\<not> ends_segment C cur d"
  shows "\<exists>sg'. add_to_segment d (chunk_fp C d) sg = Inr sg' \<and> holds C sg' (cur @ [d]) \<and>
     minHashVal sg' = minHashVal sg \<and> minHash sg' = minHash sg"
proof -
  have l: "length d \<le> 16384" using d by (simp add: const_defs)
  have c: "length cur < 5120" "length (concat cur) + length d \<le> 20971520"
    using e l by (auto simp: ends_segment_def maxSegmentChunkNum_val MAX_SEGMENT_SIZE_nat not_less)
  have n: "unat (seg_chunkNum sg) = length cur" "unat (segmentSize sg) = length (concat cur)"
    "take (length (concat cur)) (seg_buffer sg) = concat cur" "take (length cur) (seg_metadata sg) = map (meta_of C) cur"
    using h by (simp_all add: holds_def)
  have lb: "length (concat cur) \<le> length (seg_buffer sg)" using n(3) by (metis length_take min.cobounded1 min.commute)
  have "unat (of_nat (length d) :: u32) = length d" using l by (simp add: unat_of_nat_u32)
  then have z: "unat (segmentSize sg + of_nat (length d)) = length (concat cur) + length d"
    using n c by (subst unat_add_u32) simp_all
  have k: "unat (seg_chunkNum sg + 1) = length cur + 1" using n c by (subst unat_add_u32) simp_all
  have "length (take (length cur) (seg_metadata sg)) = length cur" unfolding n(4) by simp
  then have lm: "length cur \<le> length (seg_metadata sg)" by simp
  show ?thesis
    unfolding add_to_segment_def holds_def
    using n z k c lb lm
    by (simp add: maxSegmentChunkNum_val MAX_SEGMENT_SIZE_nat meta_of_def memcpy_at_def)
qed

section \<open>The loop over a batch\<close>

text \<open>A loop over the chunks of a buffer, with what is still to come as the argument of the invariant.\<close>

lemma buffer_loop:
  fixes rb :: "'s \<Rightarrow> bytes" and P :: "bytes list \<Rightarrow> bytes list \<Rightarrow> 's \<Rightarrow> bool"
  assumes step: "\<And>ds d rest s pre post. P ds (d # rest) s \<Longrightarrow> rb s = pre @ encode_chunk d @ post \<Longrightarrow>
      \<exists>s'. f (s, length pre) = Inr (s', length pre + length (encode_chunk d)) \<and> P (ds @ [d]) rest s' \<and> rb s' = rb s"
    and "P ds (cs @ rest) s" and "rb s = pre @ encode_chunks cs @ post"
  shows "\<exists>s' off. rfold (\<lambda>i. f) [k..<k + length cs] (s, length pre) = Inr (s', off) \<and> P (ds @ cs) rest s'"
  using assms(2,3)
proof (induction cs arbitrary: s ds pre k)
  case Nil
  then show ?case by simp
next
  case (Cons d cs)
  have "P ds (d # cs @ rest) s" "rb s = pre @ encode_chunk d @ (encode_chunks cs @ post)" using Cons.prems by simp_all
  from step [OF this] obtain s1 where s1: "f (s, length pre) = Inr (s1, length (pre @ encode_chunk d))"
      "P (ds @ [d]) (cs @ rest) s1" "rb s1 = rb s"
    by auto
  have b: "rb s1 = (pre @ encode_chunk d) @ encode_chunks cs @ post" using s1(3) Cons.prems(2) by simp
  from Cons.IH [OF s1(2) b, of "Suc k"] obtain s' off where
    r: "rfold (\<lambda>i. f) [Suc k..<Suc k + length cs] (s1, length (pre @ encode_chunk d)) = Inr (s', off)"
      "P ((ds @ [d]) @ cs) rest s'"
    by auto
  have "[k..<k + length (d # cs)] = k # [Suc k..<Suc k + length cs]" by (subst upt_rec) simp
  with s1 r show ?case by (intro exI [of _ s'] exI [of _ off]) simp
qed

text \<open>The parts of the state that only the segments, the buffers and the counters are in.\<close>

definition same_index :: "up_state \<Rightarrow> up_state \<Rightarrow> bool" where
  "same_index s s' \<longleftrightarrow> same_containers s s' \<and> indexStore (store s') = indexStore (store s) \<and>
     inRecipe (sgx s') = inRecipe (sgx s) \<and> masterKey (sgx s') = masterKey (sgx s) \<and>
     recipeFile (outc s') = recipeFile (outc s) \<and> outQuery (outc s') = outQuery (outc s)"

lemma same_index_simps [simp]:
  "same_index s (ResetCurrentSegment s)"
  "same_index s (clear_recv C s)"
  "same_index s (s\<lparr>sgx := (sgx s)\<lparr>recvBuffer := b\<rparr>\<rparr>)"
  "same_index s (count_logical n (s\<lparr>sgx := (sgx s)\<lparr>seg := sg\<rparr>\<rparr>))"
  by (simp_all add: same_index_def same_containers_def ResetCurrentSegment_def clear_recv_def count_logical_def)

lemma same_index_trans: "same_index s1 s2 \<Longrightarrow> same_index s2 s3 \<Longrightarrow> same_index s1 s3"
  by (simp add: same_index_def same_containers_def)

lemma same_index_extends: "same_index s s' \<Longrightarrow> extends s s'"
  using same_containers_views(4) by (simp add: same_index_def)

lemma same_index_views:
  assumes "same_index s s'"
  shows "recipe_holds C h0 s' as = recipe_holds C h0 s as" and "leads_to C s' = leads_to C s"
    and "store_inv C n s' = store_inv C n s"
proof -
  from assms have sc: "same_containers s s'" by (simp add: same_index_def)
  show "leads_to C s' = leads_to C s" by (rule leads_to_resolve_eq [OF same_containers_views(2) [OF sc]])
  show "store_inv C n s' = store_inv C n s" by (rule same_containers_views(3) [OF sc])
  show "recipe_holds C h0 s' as = recipe_holds C h0 s as"
    using assms by (simp add: recipe_holds_def recipe_of_def recipe_rep_def same_index_def)
qed

text \<open>
  What an index promises for a complete segment. \<open>safe st sgs\<close> is what it assumes about the segments
  that will come; a chunk needs at most one container name and two halves of a segment name.
\<close>

locale segment_index =
  fixes C :: enclave_cfg and h0 :: recipe_id and inv :: "nat \<Rightarrow> 'i \<times> up_state \<Rightarrow> bool"
    and safe :: "'i \<times> up_state \<Rightarrow> bytes list list \<Rightarrow> bool"
    and upd :: "u32 \<Rightarrow> bytes \<Rightarrow> segment \<Rightarrow> segment" and proc :: "'i \<times> up_state \<Rightarrow> ('i \<times> up_state) res"
  assumes upd_keeps: "holds C (upd hv h sg) cs = holds C sg cs"
    and inv_store: "inv n (x, s) \<Longrightarrow> store_inv C n s"
    and inv_query: "inv n (x, s) \<Longrightarrow> outQuery (outc s) = []"
    and inv_same: "same_index s s' \<Longrightarrow> inv n (x, s') = inv n (x, s)"
    and safe_same: "same_index s s' \<Longrightarrow> safe (x, s') sgs = safe (x, s) sgs"
    and proc_ok: "inv (3 * length cs + n) (x, s) \<Longrightarrow> safe (x, s) (cs # sgs) \<Longrightarrow> recipe_holds C h0 s as \<Longrightarrow>
      leads_to C s as ds \<Longrightarrow> holds C (seg (sgx s)) cs \<Longrightarrow> cs \<noteq> [] \<Longrightarrow> \<forall>d \<in> set cs. chunk_ok C d \<Longrightarrow>
      \<exists>x' s' bs. proc (x, s) = Inr (x', s') \<and> inv n (x', s') \<and> safe (x', s') sgs \<and> recipe_holds C h0 s' (as @ bs) \<and>
        leads_to C s' (as @ bs) (ds @ cs) \<and> recvBuffer (sgx s') = recvBuffer (sgx s) \<and> sessionKey (sgx s') = sessionKey (sgx s) \<and> extends s s'"
begin

text \<open>
  \<open>ds\<close> are the chunks received so far: some are in complete segments and have their addresses, the
  others are in the segment buffer. \<open>rest\<close> are the chunks still to come.
\<close>

definition progress :: "bytes list \<Rightarrow> bytes list \<Rightarrow> 'i \<times> up_state \<Rightarrow> bool" where
  "progress ds rest st \<longleftrightarrow> (\<exists>as ds0 cur n. ds = ds0 @ cur \<and> holds C (seg (sgx (snd st))) cur \<and>
     inv (3 * (length cur + length rest) + n) st \<and> safe st (segments C cur rest) \<and> recipe_holds C h0 (snd st) as \<and>
     leads_to C (snd st) as ds0 \<and> (\<forall>d \<in> set (cur @ rest). chunk_ok C d))"

lemma progress_same:
  assumes "same_index s s'" and "seg (sgx s') = seg (sgx s)"
  shows "progress ds rest (x, s') = progress ds rest (x, s)"
  unfolding progress_def using assms by (simp add: inv_same safe_same same_index_views)

lemma progress_cfg: "progress ds rest st \<Longrightarrow> cfg_ok C"
  unfolding progress_def using inv_store by (metis prod.collapse store_inv_def)

lemma close_ok:
  assumes i: "inv (3 * length cur + n) (x, s)" and sf: "safe (x, s) (cur # sgs)" and rc: "recipe_holds C h0 s as"
    and ld: "leads_to C s as ds" and h: "holds C (seg (sgx s)) cur" "cur \<noteq> []" and ok: "\<forall>d \<in> set cur. chunk_ok C d"
  shows "\<exists>x' s' bs. close_segment proc (x, s) = Inr (x', s') \<and> inv n (x', s') \<and> safe (x', s') sgs \<and>
     recipe_holds C h0 s' (as @ bs) \<and> leads_to C s' (as @ bs) (ds @ cur) \<and> holds C (seg (sgx s')) [] \<and>
     recvBuffer (sgx s') = recvBuffer (sgx s) \<and> sessionKey (sgx s') = sessionKey (sgx s) \<and> extends s s'"
proof -
  from proc_ok [OF assms] obtain x' s1 bs where p: "proc (x, s) = Inr (x', s1)" "inv n (x', s1)" "safe (x', s1) sgs"
      "recipe_holds C h0 s1 (as @ bs)" "leads_to C s1 (as @ bs) (ds @ cur)" "recvBuffer (sgx s1) = recvBuffer (sgx s)"
      "sessionKey (sgx s1) = sessionKey (sgx s)" "extends s s1"
    by blast
  let ?s = "ResetCurrentSegment s1"
  note si = same_index_simps(1) [of s1]
  have "close_segment proc (x, s) = Inr (x', ?s)" using p(1) by (simp add: close_segment_def)
  moreover have "inv n (x', ?s)" "safe (x', ?s) sgs" using p(2,3) by (simp_all add: inv_same [OF si] safe_same [OF si])
  moreover have "recipe_holds C h0 ?s (as @ bs)" "leads_to C ?s (as @ bs) (ds @ cur)"
    using p(4,5) by (simp_all add: same_index_views [OF si])
  moreover have "holds C (seg (sgx ?s)) []" by (rule holds_empty) (simp_all add: ResetCurrentSegment_def)
  moreover have "recvBuffer (sgx ?s) = recvBuffer (sgx s)" "sessionKey (sgx ?s) = sessionKey (sgx s)"
    using p(6,7) by (simp_all add: ResetCurrentSegment_def)
  moreover have "extends s ?s" by (rule extends_trans [OF p(8) same_index_extends [OF si]])
  ultimately show ?thesis by blast
qed

lemma segment_chunk_ok:
  assumes p: "progress ds (d # rest) (x, s)" and b: "recvBuffer (sgx s) = pre @ encode_chunk d @ post"
  shows "\<exists>x' s'. segment_chunk C upd proc ((x, s), length pre) = Inr ((x', s'), length pre + length (encode_chunk d)) \<and>
     progress (ds @ [d]) rest (x', s') \<and> recvBuffer (sgx s') = recvBuffer (sgx s) \<and> sessionKey (sgx s') = sessionKey (sgx s) \<and> extends s s'"
proof -
  note C = progress_cfg [OF p]
  from p obtain as ds0 cur n where ds: "ds = ds0 @ cur" and h: "holds C (seg (sgx s)) cur"
      and i: "inv (3 * (length cur + length (d # rest)) + n) (x, s)" and sf: "safe (x, s) (segments C cur (d # rest))"
      and rc: "recipe_holds C h0 s as" and ld: "leads_to C s as ds0" and ok: "\<forall>d \<in> set (cur @ d # rest). chunk_ok C d"
    by (auto simp: progress_def)
  have d: "length d \<le> unat MAX_CHUNK_SIZE" using ok by (simp add: chunk_ok_def)
  then have d32: "length d < 2 ^ 32" by (simp add: const_defs)
  note rd = read_chunk_encoded [OF d32, of pre post, folded b]
  note hs = chunk_fp_eq [OF C, of d]
  note en = IsEndOfSegment_eq [OF h d]
  have "\<exists>x1 s1 cur1 ds1 as1. (if ends_segment C cur d then close_segment proc (x, s) else Inr (x, s)) = Inr (x1, s1) \<and>
      ds = ds1 @ cur1 \<and> \<not> ends_segment C cur1 d \<and> holds C (seg (sgx s1)) cur1 \<and> inv (3 * (length (cur1 @ [d]) + length rest) + n) (x1, s1) \<and>
      safe (x1, s1) (segments C (cur1 @ [d]) rest) \<and> recipe_holds C h0 s1 as1 \<and> leads_to C s1 as1 ds1 \<and> set cur1 \<subseteq> set cur \<and>
      recvBuffer (sgx s1) = recvBuffer (sgx s) \<and> sessionKey (sgx s1) = sessionKey (sgx s) \<and> extends s s1"
  proof (cases "ends_segment C cur d")
    case False
    then show ?thesis
      using ds h i sf rc ld by (intro exI [of _ x] exI [of _ s] exI [of _ cur] exI [of _ ds0] exI [of _ as]) (simp add: algebra_simps)
  next
    case True
    have ne: "cur \<noteq> []" using ends_segment_not_Nil [OF True d] .
    have i': "inv (3 * length cur + (3 * (length ([] @ [d]) + length rest) + n)) (x, s)" using i by (simp add: algebra_simps)
    have sf': "safe (x, s) (cur # segments C ([] @ [d]) rest)" using sf True by simp
    have ok': "\<forall>d \<in> set cur. chunk_ok C d" using ok by simp
    from close_ok [OF i' sf' rc ld h ne ok'] obtain x1 s1 bs where
      q: "close_segment proc (x, s) = Inr (x1, s1)" "inv (3 * (length ([] @ [d]) + length rest) + n) (x1, s1)"
        "safe (x1, s1) (segments C ([] @ [d]) rest)" "recipe_holds C h0 s1 (as @ bs)" "leads_to C s1 (as @ bs) (ds0 @ cur)"
        "holds C (seg (sgx s1)) []" "recvBuffer (sgx s1) = recvBuffer (sgx s)" "sessionKey (sgx s1) = sessionKey (sgx s)" "extends s s1"
      by blast
    have "\<not> ends_segment C [] d" using ends_segment_not_Nil [OF _ d] by blast
    with q ds True show ?thesis
      by (intro exI [of _ x1] exI [of _ s1] exI [of _ "[]"] exI [of _ ds] exI [of _ "as @ bs"]) simp
  qed
  then obtain x1 s1 cur1 ds1 as1 where
    q: "(if ends_segment C cur d then close_segment proc (x, s) else Inr (x, s)) = Inr (x1, s1)" "ds = ds1 @ cur1"
      "\<not> ends_segment C cur1 d" "holds C (seg (sgx s1)) cur1" "inv (3 * (length (cur1 @ [d]) + length rest) + n) (x1, s1)"
      "safe (x1, s1) (segments C (cur1 @ [d]) rest)" "recipe_holds C h0 s1 as1" "leads_to C s1 as1 ds1" "set cur1 \<subseteq> set cur"
      "recvBuffer (sgx s1) = recvBuffer (sgx s)" "sessionKey (sgx s1) = sessionKey (sgx s)" "extends s s1"
    by blast
  from add_to_segment_ok [OF q(4) d q(3)] obtain sg where sg: "add_to_segment d (chunk_fp C d) (seg (sgx s1)) = Inr sg" "holds C sg (cur1 @ [d])"
    by blast
  let ?hv = "ConvertHashToValue (chunk_fp C d)"
  let ?s = "count_logical (length d) (s1\<lparr>sgx := (sgx s1)\<lparr>seg := upd ?hv (chunk_fp C d) sg\<rparr>\<rparr>)"
  note si = same_index_simps(4) [of s1 "length d" "upd ?hv (chunk_fp C d) sg"]
  have "holds C (seg (sgx ?s)) (cur1 @ [d])" using sg(2) by (simp add: count_logical_def upd_keeps)
  moreover have "inv (3 * (length (cur1 @ [d]) + length rest) + n) (x1, ?s)" "safe (x1, ?s) (segments C (cur1 @ [d]) rest)"
    using q(5,6) by (simp_all only: inv_same [OF si] safe_same [OF si])
  moreover have "recipe_holds C h0 ?s as1" "leads_to C ?s as1 ds1" using q(7,8) by (simp_all only: same_index_views [OF si])
  moreover have "\<forall>d \<in> set ((cur1 @ [d]) @ rest). chunk_ok C d" using ok q(9) by auto
  ultimately have "progress (ds @ [d]) rest (x1, ?s)" unfolding progress_def using q(2)
    by (intro exI [of _ as1] exI [of _ ds1] exI [of _ "cur1 @ [d]"] exI [of _ n]) simp
  moreover have "segment_chunk C upd proc ((x, s), length pre) = Inr ((x1, ?s), length pre + length (encode_chunk d))"
    using rd hs q(1) sg(1) en by (simp add: segment_chunk_def Let_def)
  moreover have "recvBuffer (sgx ?s) = recvBuffer (sgx s)" "sessionKey (sgx ?s) = sessionKey (sgx s)"
    using q(10,11) by (simp_all add: count_logical_def)
  moreover have "extends s ?s" by (rule extends_trans [OF q(12) same_index_extends [OF si]])
  ultimately show ?thesis by blast
qed

lemma segment_batch_ok:
  assumes p: "progress ds (cs @ rest) (x, s)" and m: "batch_of C s m cs"
  shows "\<exists>x' s'. segment_batch C upd proc m (x, s) = Inr (x', s') \<and> progress (ds @ cs) rest (x', s') \<and>
     sessionKey (sgx s') = sessionKey (sgx s) \<and> extends s s'"
proof -
  note C = progress_cfg [OF p]
  let ?s1 = "s\<lparr>sgx := (sgx s)\<lparr>recvBuffer := memcpy_at (recvBuffer (sgx s)) 0 (encode_chunks cs)\<rparr>\<rparr>"
  let ?P = "\<lambda>ds rest st. progress ds rest st \<and> sessionKey (sgx (snd st)) = sessionKey (sgx s) \<and> extends s (snd st)"
  have rb: "recv_batch C m s = Inr ?s1" and num: "unat (currentItemNum m) = length cs"
    using m recv_batch_ok [OF C] by (simp_all add: batch_of_def carries_def)
  have P: "?P ds (cs @ rest) (x, ?s1)"
    using p progress_same [OF same_index_simps(3) [of s]] same_index_extends [OF same_index_simps(3) [of s]] by simp
  have buf: "recvBuffer (sgx (snd (x, ?s1))) = [] @ encode_chunks cs @ drop (length (encode_chunks cs)) (recvBuffer (sgx s))"
    by (simp add: memcpy_at_def)
  have "\<exists>st off. rfold (\<lambda>i. segment_chunk C upd proc) [0..<0 + length cs] ((x, ?s1), length ([] :: bytes)) = Inr (st, off) \<and>
      ?P (ds @ cs) rest st"
  proof (rule buffer_loop [of ?P "\<lambda>st. recvBuffer (sgx (snd st))", OF _ P buf])
    fix ds d rest st pre post
    assume a: "?P ds (d # rest) st" "recvBuffer (sgx (snd st)) = pre @ encode_chunk d @ post"
    from segment_chunk_ok [of ds d rest "fst st" "snd st" pre post] a
    show "\<exists>st'. segment_chunk C upd proc (st, length pre) = Inr (st', length pre + length (encode_chunk d)) \<and>
        ?P (ds @ [d]) rest st' \<and> recvBuffer (sgx (snd st')) = recvBuffer (sgx (snd st))"
      using extends_trans [of s "snd st"] by fastforce
  qed
  then obtain x2 s2 off where r: "rfold (\<lambda>i. segment_chunk C upd proc) [0..<length cs] ((x, ?s1), 0) = Inr ((x2, s2), off)"
      "progress (ds @ cs) rest (x2, s2)" "sessionKey (sgx s2) = sessionKey (sgx s)" "extends s s2"
    by auto
  have "progress (ds @ cs) rest (x2, clear_recv C s2)"
    using r(2) progress_same [OF same_index_simps(2) [of s2 C]] by (simp add: clear_recv_def)
  moreover have "segment_batch C upd proc m (x, s) = Inr (x2, clear_recv C s2)"
    by (simp add: segment_batch_def rb num r(1))
  moreover have "sessionKey (sgx (clear_recv C s2)) = sessionKey (sgx s)" using r(3) by (simp add: clear_recv_def)
  moreover have "extends s (clear_recv C s2)" by (rule extends_trans [OF r(4) same_index_extends [OF same_index_simps(2)]])
  ultimately show ?thesis by blast
qed

lemma segment_tail_ok:
  assumes p: "progress ds [] (x, s)"
  shows "\<exists>x1 s1 n as. segment_tail C proc (x, s) = rbind (tail_recipe C s1) (\<lambda>s'. Inr (x1, tail_container s')) \<and>
     inv n (x1, s1) \<and> recipe_holds C h0 s1 as \<and> leads_to C s1 as ds \<and> extends s s1"
proof -
  from p obtain as ds0 cur n where ds: "ds = ds0 @ cur" and h: "holds C (seg (sgx s)) cur"
      and i: "inv (3 * length cur + n) (x, s)" and sf: "safe (x, s) (segments C cur [])"
      and rc: "recipe_holds C h0 s as" and ld: "leads_to C s as ds0" and ok: "\<forall>d \<in> set cur. chunk_ok C d"
    by (auto simp: progress_def)
  have z: "seg_chunkNum (seg (sgx s)) = 0 \<longleftrightarrow> cur = []"
    using h by (auto simp: holds_def word_unat_eq_iff simp del: unat_eq_zero)
  show ?thesis
  proof (cases "cur = []")
    case True
    then show ?thesis using z ds i rc ld
      by (intro exI [of _ x] exI [of _ s] exI [of _ n] exI [of _ as]) (simp add: segment_tail_def)
  next
    case False
    with sf have sf': "safe (x, s) (cur # [])" by simp
    from close_ok [OF i sf' rc ld h False ok] obtain x1 s1 bs where
      "close_segment proc (x, s) = Inr (x1, s1)" "inv n (x1, s1)" "recipe_holds C h0 s1 (as @ bs)" "leads_to C s1 (as @ bs) (ds0 @ cur)"
      "extends s s1"
      by blast
    then show ?thesis using False z ds
      by (intro exI [of _ x1] exI [of _ s1] exI [of _ n] exI [of _ "as @ bs"]) (simp add: segment_tail_def)
  qed
qed

end

context segment_index
begin

lemma progress_start:
  assumes "inv (3 * length cs + n) (x, s)" and "safe (x, s) (segments C [] cs)" and "recipe_holds C h0 s []"
    and "seg_chunkNum (seg (sgx s)) = 0" and "segmentSize (seg (sgx s)) = 0" and "\<forall>d \<in> set cs. chunk_ok C d"
  shows "progress [] cs (x, s)"
  unfolding progress_def using assms holds_empty [OF assms(4,5), of C]
  by (intro exI [of _ "[]"] exI [of _ n]) simp

end

text \<open>A segment index is an index for the receiver.\<close>

sublocale segment_index \<subseteq> receiver: upload_index C h0 progress "segment_batch C upd proc" "segment_tail C proc" "\<lambda>x s. \<exists>n. inv n (x, s)"
proof unfold_locales
  fix ds cs rest m and st :: "'i \<times> up_state"
  assume p: "progress ds (cs @ rest) st" and m: "batch_of C (snd st) m cs"
  from segment_batch_ok [of ds cs rest "fst st" "snd st" m] p m obtain x s where
    r: "segment_batch C upd proc m st = Inr (x, s)" "progress (ds @ cs) rest (x, s)" "sessionKey (sgx s) = sessionKey (sgx (snd st))"
      "extends (snd st) s"
    by auto
  have "outQuery (outc s) = []" using r(2) inv_query by (auto simp: progress_def)
  then have "EnclaveIndex_ProcessOneBatch (segment_batch C upd proc) m st = Inr (x, s)"
    using r(1) by (simp add: EnclaveIndex_ProcessOneBatch_def)
  moreover have "\<forall>m cs. batch_of C s m cs = batch_of C (snd st) m cs" using r(3) by (simp add: batch_of_def)
  ultimately show "\<exists>st'. EnclaveIndex_ProcessOneBatch (segment_batch C upd proc) m st = Inr st' \<and> progress (ds @ cs) rest st' \<and>
      (\<forall>m cs. batch_of C (snd st') m cs = batch_of C (snd st) m cs) \<and>
      (\<forall>as ds. leads_to C (snd st) as ds \<longrightarrow> leads_to C (snd st') as ds)"
    using r(2) leads_to_extends [OF _ r(4)] by (intro exI [of _ "(x, s)"]) simp
next
  fix ds and st :: "'i \<times> up_state"
  assume "progress ds [] st"
  with segment_tail_ok [of ds "fst st" "snd st"] obtain x s1 n as where
    r: "segment_tail C proc st = rbind (tail_recipe C s1) (\<lambda>s'. Inr (x, tail_container s'))" "inv n (x, s1)"
      "recipe_holds C h0 s1 as" "leads_to C s1 as ds" "extends (snd st) s1"
    by auto
  have "\<forall>as ds. leads_to C (snd st) as ds \<longrightarrow> leads_to C s1 as ds" using leads_to_extends [OF _ r(5)] by blast
  with r inv_store [OF r(2)] show "\<exists>x s1 n as. segment_tail C proc st = rbind (tail_recipe C s1) (\<lambda>s'. Inr (x, tail_container s')) \<and> store_inv C n s1 \<and>
      recipe_holds C h0 s1 as \<and> leads_to C s1 as ds \<and> (\<exists>n. inv n (x, s1)) \<and> (\<forall>as ds. leads_to C (snd st) as ds \<longrightarrow> leads_to C s1 as ds)"
    by blast
qed

section \<open>Properties\<close>

lemma segments_sizes:
  assumes "\<forall>d \<in> set ds. length d \<le> unat MAX_CHUNK_SIZE"
    and "length cur \<le> unat maxSegmentChunkNum" and "length (concat cur) \<le> unat MAX_SEGMENT_SIZE"
  shows "[] \<notin> set (segments C cur ds)"
    and "\<forall>sg \<in> set (segments C cur ds). length sg \<le> unat maxSegmentChunkNum \<and> length (concat sg) \<le> unat MAX_SEGMENT_SIZE"
    and "\<forall>sg \<in> set (butlast (segments C cur ds)). length sg = unat maxSegmentChunkNum \<or>
      unat MIN_SEGMENT_SIZE \<le> length (concat sg) + unat MAX_CHUNK_SIZE"
proof -
  have "[] \<notin> set (segments C cur ds) \<and>
      (\<forall>sg \<in> set (segments C cur ds). length sg \<le> unat maxSegmentChunkNum \<and> length (concat sg) \<le> unat MAX_SEGMENT_SIZE) \<and>
      (\<forall>sg \<in> set (butlast (segments C cur ds)). length sg = unat maxSegmentChunkNum \<or>
        unat MIN_SEGMENT_SIZE \<le> length (concat sg) + unat MAX_CHUNK_SIZE)"
    using assms
  proof (induction C cur ds rule: segments.induct)
    case (1 C cur)
    then show ?case by simp
  next
    case (2 C cur d ds)
    have d: "length d \<le> unat MAX_CHUNK_SIZE" using "2.prems"(1) by simp
    show ?case
    proof (cases "ends_segment C cur d")
      case True
      have "length [d] \<le> unat maxSegmentChunkNum" "length (concat [d]) \<le> unat MAX_SEGMENT_SIZE"
        using d by (simp_all add: maxSegmentChunkNum_val MAX_SEGMENT_SIZE_nat) (simp add: const_defs)
      with "2.IH"(1) [OF True] "2.prems"(1) have ih: "[] \<notin> set (segments C [d] ds)"
          "\<forall>sg \<in> set (segments C [d] ds). length sg \<le> unat maxSegmentChunkNum \<and> length (concat sg) \<le> unat MAX_SEGMENT_SIZE"
          "\<forall>sg \<in> set (butlast (segments C [d] ds)). length sg = unat maxSegmentChunkNum \<or>
            unat MIN_SEGMENT_SIZE \<le> length (concat sg) + unat MAX_CHUNK_SIZE"
        by simp_all
      have c: "length cur = unat maxSegmentChunkNum \<or> unat MIN_SEGMENT_SIZE \<le> length (concat cur) + unat MAX_CHUNK_SIZE"
        using True d "2.prems"(2) unfolding ends_segment_def by linarith
      have "segments C [d] ds \<noteq> []" using concat_segments [of C "[d]" ds] by auto
      then have "set (butlast (segments C cur (d # ds))) = insert cur (set (butlast (segments C [d] ds)))" using True by simp
      with ih c "2.prems"(2,3) True ends_segment_not_Nil [OF True d] show ?thesis by simp
    next
      case False
      have "length (cur @ [d]) \<le> unat maxSegmentChunkNum" "length (concat (cur @ [d])) \<le> unat MAX_SEGMENT_SIZE"
        using False d by (auto simp: ends_segment_def maxSegmentChunkNum_val MAX_SEGMENT_SIZE_nat not_less) 
      with "2.IH"(2) [OF False] "2.prems"(1) False show ?thesis by simp
    qed
  qed
  then show "[] \<notin> set (segments C cur ds)"
    "\<forall>sg \<in> set (segments C cur ds). length sg \<le> unat maxSegmentChunkNum \<and> length (concat sg) \<le> unat MAX_SEGMENT_SIZE"
    "\<forall>sg \<in> set (butlast (segments C cur ds)). length sg = unat maxSegmentChunkNum \<or>
      unat MIN_SEGMENT_SIZE \<le> length (concat sg) + unat MAX_CHUNK_SIZE"
    by blast+
qed

text \<open>
  (C21) The words that \<open>IsEndOfSegment\<close> works on never wrap and the segments keep their limits: for a segment
  buffer that holds chunks, the code ends the segment exactly where the function on the list of chunks
  does, a chunk that does not end the segment fits both of its buffers, and cutting any list of chunks this way
  gives non-empty segments of at most 5120 chunks and 20 MB that add up to the list, all but the last of
  which have 5120 chunks or are at most one chunk short of 5 MB.
\<close>

theorem segments_bounded:
  assumes "\<forall>d \<in> set ds. length d \<le> unat MAX_CHUNK_SIZE" and "holds C sg cur" and "length d \<le> unat MAX_CHUNK_SIZE"
  shows "IsEndOfSegment (ConvertHashToValue (chunk_fp C d)) (of_nat (length d)) sg = ends_segment C cur d \<and>
    (ends_segment C cur d \<or> (\<exists>sg'. add_to_segment d (chunk_fp C d) sg = Inr sg' \<and> holds C sg' (cur @ [d]))) \<and>
    concat (segments C [] ds) = ds \<and> [] \<notin> set (segments C [] ds) \<and>
    (\<forall>sg \<in> set (segments C [] ds). length sg \<le> 5120 \<and> length (concat sg) \<le> 20971520) \<and>
    (\<forall>sg \<in> set (butlast (segments C [] ds)). length sg = 5120 \<or> 5242880 \<le> length (concat sg) + unat MAX_CHUNK_SIZE)"
proof (intro conjI)
  show "IsEndOfSegment (ConvertHashToValue (chunk_fp C d)) (of_nat (length d)) sg = ends_segment C cur d"
    by (rule IsEndOfSegment_eq [OF assms(2,3)])
  show "ends_segment C cur d \<or> (\<exists>sg'. add_to_segment d (chunk_fp C d) sg = Inr sg' \<and> holds C sg' (cur @ [d]))"
    using add_to_segment_ok [OF assms(2,3)] by blast
  show "concat (segments C [] ds) = ds" by (simp add: concat_segments)
qed (use segments_sizes [OF assms(1), of "[]" C] in \<open>simp_all add: maxSegmentChunkNum_val MAX_SEGMENT_SIZE_nat\<close>)

end
