(* ===== verification/BinStore.thy ===== *)
theory BinStore
  imports Segment "HOL-Library.Multiset"
begin

text \<open>
  What the near-exact indexes keep outside the enclave: lists of fingerprints and addresses (\<open>BinValue_t\<close>),
  encrypted with AES-CMC under a name drawn at random, in the same index store that the exact index uses
  for single addresses. The deduplication of a segment against such a list is the same loop in both
  indexes; it is defined here once.
\<close>

section \<open>Operations\<close>

text \<open>\<open>unordered_map::insert\<close>: an entry that is there stays.\<close>

definition um_insert :: "'k \<Rightarrow> 'v \<Rightarrow> ('k \<times> 'v) list \<Rightarrow> ('k \<times> 'v) list" where
  "um_insert k v m = (case map_of m k of None \<Rightarrow> m @ [(k, v)] | Some _ \<Rightarrow> m)"

text \<open>
  The order in which \<open>unordered_map\<close> is traversed is the function \<open>iter\<close>: every entry once, in an order
  that the language leaves open.
\<close>

definition iteration :: "('a list \<Rightarrow> 'a list) \<Rightarrow> bool" where
  "iteration iter \<longleftrightarrow> (\<forall>m. mset (iter m) = mset m)"

definition BinValue_size :: nat where
  "BinValue_size = CHUNK_HASH_SIZE + RecipeEntry_size"

definition BinValue_bytes :: "bytes \<times> bytes \<Rightarrow> bytes" where
  "BinValue_bytes e = take CHUNK_HASH_SIZE (fst e) @ take RecipeEntry_size (snd e)"

definition bin_bytes :: "(bytes \<times> bytes) list \<Rightarrow> bytes" where
  "bin_bytes items = concat (map BinValue_bytes items)"

definition bin_items :: "bytes \<Rightarrow> (bytes \<times> bytes) list" where
  "bin_items b =
     map (\<lambda>i. (read_at b (i * BinValue_size) CHUNK_HASH_SIZE, read_at b (i * BinValue_size + CHUNK_HASH_SIZE) RecipeEntry_size))
       [0..<length b div BinValue_size]"

text \<open>The entries of a decrypted list go into the deduplication index of the segment, a hash map.\<close>

definition load_bin :: "(bytes \<times> bytes) list \<Rightarrow> bytes \<Rightarrow> (bytes \<times> bytes) list" where
  "load_bin tmp b = foldl (\<lambda>m (k, v). um_insert k v m) tmp (bin_items b)"

definition FetchBin :: "enclave_cfg \<Rightarrow> bytes \<Rightarrow> (bytes \<times> bytes) list \<Rightarrow> up_state \<Rightarrow> (bool \<times> (bytes \<times> bytes) list \<times> up_state) res" where
  "FetchBin C binAddress tmp s =
     (let (status, cipherBinValue, s1) = ReadIndexStore binAddress s in
      if \<not> status then Inr (False, tmp, s1)
      else rbind (IndexAESCMCDec (cfg_evp C) (cfg_tool C) cipherBinValue (indexQueryKey C)) (\<lambda>b. Inr (True, load_bin tmp b, s1)))"

definition write_bin :: "enclave_cfg \<Rightarrow> bytes \<Rightarrow> (bytes \<times> bytes) list \<Rightarrow> up_state \<Rightarrow> (bool \<times> up_state) res" where
  "write_bin C binAddress items s =
     rbind (IndexAESCMCEnc (cfg_evp C) (cfg_tool C) (bin_bytes items) (indexQueryKey C)) (\<lambda>c. Inr (UpdateIndexStore binAddress c s))"

definition Ocall_CreateUUID :: "enclave_cfg \<Rightarrow> nat \<Rightarrow> up_state \<Rightarrow> bytes \<times> up_state" where
  "Ocall_CreateUUID C len s =
     (let (u, p) = CreateUUID (cfg_rnd C) (randPos (store s)) len in (u, s\<lparr>store := (store s)\<lparr>randPos := p\<rparr>\<rparr>))"

text \<open>
  One chunk of a segment: a fingerprint that the deduplication index knows gives the address, any other
  chunk is stored and entered. The result has the address and whether the chunk was new.
\<close>

definition segment_dedup ::
  "enclave_cfg \<Rightarrow> segment \<Rightarrow> u32 \<times> bytes \<Rightarrow> (bytes \<times> bytes) list \<times> nat \<times> up_state \<Rightarrow>
   ((bytes \<times> bool) \<times> (bytes \<times> bytes) list \<times> nat \<times> up_state) res" where
  "segment_dedup C sg m z =
     (let (tmp, off, s) = z; fp = take CHUNK_HASH_SIZE (snd m); n = unat (fst m) in
      case map_of tmp fp of
        Some ab \<Rightarrow> rbind (UpdateFileRecipe C ab s) (\<lambda>s1. Inr ((ab, False), tmp, off + n, s1))
      | None \<Rightarrow>
          if length (seg_buffer sg) < off + n then Inl (Undefined ''read of uninitialised memory'')
          else
            rbind (ProcessUniqueChunk C (read_at (seg_buffer sg) off n) (count_unique n s)) (\<lambda>(a, s1).
            rbind (UpdateFileRecipe C (RecipeEntry_bytes a) s1) (\<lambda>s2.
              Inr ((RecipeEntry_bytes a, True), um_insert fp (RecipeEntry_bytes a) tmp, off + n, s2))))"

definition dedup_segment ::
  "enclave_cfg \<Rightarrow> segment \<Rightarrow> (u32 \<times> bytes) list \<Rightarrow> (bytes \<times> bytes) list \<Rightarrow> up_state \<Rightarrow>
   ((bytes \<times> bool) list \<times> (bytes \<times> bytes) list \<times> up_state) res" where
  "dedup_segment C sg metas tmp s =
     rbind (rfold (\<lambda>m (rs, z). rbind (segment_dedup C sg m z) (\<lambda>(r, z'). Inr (rs @ [r], z'))) metas ([], tmp, 0, s))
       (\<lambda>(rs, tmp', off, s'). Inr (rs, tmp', s'))"

section \<open>Lists of addresses\<close>

lemma um_insert_keys: "fst ` set (um_insert k v m) = insert k (fst ` set m)"
proof (cases "map_of m k")
  case None
  then show ?thesis by (simp add: um_insert_def)
next
  case (Some w)
  then have "k \<in> fst ` set m" by (metis weak_map_of_SomeI image_eqI map_of_SomeD fst_conv)
  with Some show ?thesis by (auto simp: um_insert_def)
qed

lemma um_insert_subset: "set m \<subseteq> set (um_insert k v m)" "set (um_insert k v m) \<subseteq> insert (k, v) (set m)"
  by (auto simp: um_insert_def split: option.splits)

lemma load_items_set:
  "set tmp \<subseteq> set (foldl (\<lambda>m (k, v). um_insert k v m) tmp items)"
  "set (foldl (\<lambda>m (k, v). um_insert k v m) tmp items) \<subseteq> set tmp \<union> set items"
  "fst ` set (foldl (\<lambda>m (k, v). um_insert k v m) tmp items) = fst ` set tmp \<union> fst ` set items"
proof (induction items arbitrary: tmp)
  case Nil
  case 1
  show ?case by simp
  case 2
  show ?case by simp
  case 3
  show ?case by simp
next
  case (Cons e items)
  obtain k v where e: "e = (k, v)" by (cases e)
  case 1
  show ?case using Cons.IH(1) [of "um_insert k v tmp"] um_insert_subset(1) [of tmp k v] by (auto simp: e)
  case 2
  show ?case using Cons.IH(2) [of "um_insert k v tmp"] um_insert_subset(2) [of k v tmp] by (auto simp: e)
  case 3
  show ?case using Cons.IH(3) [of "um_insert k v tmp"] by (simp add: e um_insert_keys)
qed

definition item_sizes :: "(bytes \<times> bytes) list \<Rightarrow> bool" where
  "item_sizes items \<longleftrightarrow> (\<forall>e \<in> set items. length (fst e) = CHUNK_HASH_SIZE \<and> length (snd e) = RecipeEntry_size)"

lemma bin_items_bytes:
  assumes "item_sizes items"
  shows "bin_items (bin_bytes items) = items" and "length (bin_bytes items) = length items * BinValue_size"
proof -
  have bs: "\<forall>x \<in> set (map BinValue_bytes items). length x = BinValue_size"
    using assms by (auto simp: item_sizes_def BinValue_bytes_def BinValue_size_def)
  show l: "length (bin_bytes items) = length items * BinValue_size"
    unfolding bin_bytes_def using length_concat_blocks [OF bs] by simp
  have pos: "0 < BinValue_size" by (simp add: BinValue_size_def const_defs)
  show "bin_items (bin_bytes items) = items"
  proof (rule nth_equalityI)
    show li: "length (bin_items (bin_bytes items)) = length items" using pos by (simp add: bin_items_def l)
    fix i
    assume "i < length (bin_items (bin_bytes items))"
    then have i: "i < length items" by (simp add: li)
    then have it: "length (fst (items ! i)) = CHUNK_HASH_SIZE" "length (snd (items ! i)) = RecipeEntry_size"
      using assms by (simp_all add: item_sizes_def)
    have "read_at (bin_bytes items) (i * BinValue_size) BinValue_size = BinValue_bytes (items ! i)"
      using read_at_concat [OF bs, of i "[]"] i by (simp add: bin_bytes_def)
    then have r: "read_at (bin_bytes items) (i * BinValue_size) BinValue_size = fst (items ! i) @ snd (items ! i)"
      using it by (simp add: BinValue_bytes_def)
    have "read_at (bin_bytes items) (i * BinValue_size) CHUNK_HASH_SIZE = take CHUNK_HASH_SIZE (read_at (bin_bytes items) (i * BinValue_size) BinValue_size)"
      by (simp add: read_at_def BinValue_size_def)
    moreover have "read_at (bin_bytes items) (i * BinValue_size + CHUNK_HASH_SIZE) RecipeEntry_size =
        drop CHUNK_HASH_SIZE (read_at (bin_bytes items) (i * BinValue_size) BinValue_size)"
      by (simp add: read_at_def BinValue_size_def drop_take add.commute)
    ultimately show "bin_items (bin_bytes items) ! i = items ! i"
      using i it by (simp add: bin_items_def l pos r)
  qed
qed

text \<open>Every entry of \<open>items\<close> has the address of a chunk with its fingerprint.\<close>

definition sound_items :: "enclave_cfg \<Rightarrow> up_state \<Rightarrow> (bytes \<times> bytes) list \<Rightarrow> bool" where
  "sound_items C s items \<longleftrightarrow> (\<forall>(fp, ab) \<in> set items. length fp = CHUNK_HASH_SIZE \<and>
     (\<exists>a d. wf_entry a \<and> ab = RecipeEntry_bytes a \<and> resolve C s a = Some d \<and> chunk_fp C d = fp))"

lemma sound_items_sizes: "sound_items C s items \<Longrightarrow> item_sizes items"
  by (fastforce simp: sound_items_def item_sizes_def)

lemma sound_items_extends: "sound_items C s items \<Longrightarrow> extends s s' \<Longrightarrow> sound_items C s' items"
  unfolding sound_items_def using extends_resolve by fastforce

lemma sound_items_subset: "sound_items C s items \<Longrightarrow> set items' \<subseteq> set items \<Longrightarrow> sound_items C s items'"
  unfolding sound_items_def by blast

lemma sound_itemsD:
  "sound_items C s items \<Longrightarrow> map_of items fp = Some ab \<Longrightarrow>
   \<exists>a d. wf_entry a \<and> ab = RecipeEntry_bytes a \<and> resolve C s a = Some d \<and> chunk_fp C d = fp"
  by (auto simp: sound_items_def dest!: map_of_SomeD)

definition bin_enc :: "enclave_cfg \<Rightarrow> (bytes \<times> bytes) list \<Rightarrow> bytes res" where
  "bin_enc C items = IndexAESCMCEnc (cfg_evp C) (cfg_tool C) (bin_bytes items) (indexQueryKey C)"

lemma bin_encE:
  assumes "cfg_ok C" and "item_sizes items"
  obtains v where "bin_enc C items = Inr v" "length v = length (bin_bytes items)"
    "IndexAESCMCDec (cfg_evp C) (cfg_tool C) v (indexQueryKey C) = Inr (bin_bytes items)"
proof -
  have "length (bin_bytes items) mod CRYPTO_BLOCK_SIZE = 0"
    unfolding bin_items_bytes(2) [OF assms(2)] by (simp add: BinValue_size_def const_defs)
  then have "block_good (cfg_evp C) (cfg_tool C) (indexQueryKey C) (bin_bytes items)"
    using assms(1) by (simp add: block_good_def cfg_ok_def)
  from cmc.encE [OF this] show ?thesis using that by (auto simp: bin_enc_def)
qed

text \<open>The list stored under a name, and that every stored list is sound.\<close>

definition bin_at :: "enclave_cfg \<Rightarrow> up_state \<Rightarrow> bytes \<Rightarrow> (bytes \<times> bytes) list \<Rightarrow> bool" where
  "bin_at C s k items \<longleftrightarrow> (\<exists>v. indexStore (store s) k = Some v \<and> bin_enc C items = Inr v) \<and> item_sizes items"

definition store_bins :: "enclave_cfg \<Rightarrow> up_state \<Rightarrow> bool" where
  "store_bins C s \<longleftrightarrow> (\<forall>k \<in> dom (indexStore (store s)). \<exists>items. bin_at C s k items \<and> sound_items C s items)"

lemma store_bins_keep:
  "store_bins C s \<Longrightarrow> extends s s' \<Longrightarrow> indexStore (store s') = indexStore (store s) \<Longrightarrow> store_bins C s'"
  unfolding store_bins_def bin_at_def using sound_items_extends by (metis domIff)

lemma FetchBin_ok:
  assumes C: "cfg_ok C" and b: "bin_at C s k items"
  shows "FetchBin C k tmp s = Inr (True, foldl (\<lambda>m (k, v). um_insert k v m) tmp items,
     s\<lparr>outc := (outc s)\<lparr>tmpQueryBufferStr := the (indexStore (store s) k)\<rparr>\<rparr>)"
proof -
  from b obtain v where v: "indexStore (store s) k = Some v" "bin_enc C items = Inr v" and it: "item_sizes items"
    by (auto simp: bin_at_def)
  from bin_encE [OF C it] v(2) have "IndexAESCMCDec (cfg_evp C) (cfg_tool C) v (indexQueryKey C) = Inr (bin_bytes items)" by auto
  with v(1) show ?thesis
    by (simp add: FetchBin_def ReadIndexStore_def Ocall_ReadIndexStore_def InMemoryDatabase_QueryBuffer_def load_bin_def
        bin_items_bytes(1) [OF it])
qed

lemma write_bin_ok:
  assumes C: "cfg_ok C" and st: "store_bins C s" and it: "sound_items C s items"
  shows "\<exists>s'. write_bin C k items s = Inr (True, s') \<and> same_containers s s' \<and> store_bins C s' \<and> bin_at C s' k items \<and>
     (\<forall>k' is. k' \<noteq> k \<longrightarrow> bin_at C s' k' is = bin_at C s k' is) \<and> dom (indexStore (store s')) = insert k (dom (indexStore (store s))) \<and>
     sgx s' = sgx s \<and> outc s' = outc s"
proof -
  note sz = sound_items_sizes [OF it]
  from bin_encE [OF C sz] obtain v where v: "bin_enc C items = Inr v" by blast
  let ?s = "s\<lparr>store := (store s)\<lparr>indexStore := (indexStore (store s))(k \<mapsto> v)\<rparr>\<rparr>"
  have sc: "same_containers s ?s" by (simp add: same_containers_def)
  have w: "write_bin C k items s = Inr (True, ?s)"
    using v by (simp add: write_bin_def bin_enc_def UpdateIndexStore_def Ocall_UpdateIndexStoreBuffer_def InMemoryDatabase_InsertBothBuffer_def)
  have b: "bin_at C ?s k items" using v sz by (simp add: bin_at_def)
  have o: "bin_at C ?s k' is = bin_at C s k' is" if "k' \<noteq> k" for k' "is" using that by (simp add: bin_at_def)
  note ext = same_containers_views(4) [OF sc]
  have "store_bins C ?s"
    unfolding store_bins_def
  proof
    fix k'
    assume k': "k' \<in> dom (indexStore (store ?s))"
    show "\<exists>items. bin_at C ?s k' items \<and> sound_items C ?s items"
    proof (cases "k' = k")
      case True
      then show ?thesis using b sound_items_extends [OF it ext] by blast
    next
      case False
      then have "k' \<in> dom (indexStore (store s))" using k' by simp
      with st obtain "is" where "bin_at C s k' is" "sound_items C s is" unfolding store_bins_def by blast
      then show ?thesis using o [OF False] sound_items_extends [OF _ ext] by blast
    qed
  qed
  with w sc b o show ?thesis by (intro exI [of _ ?s]) simp
qed

section \<open>Deduplicating a segment\<close>

text \<open>The names drawn from now on differ from the first half of every name in the index store.\<close>

definition free_names :: "enclave_cfg \<Rightarrow> nat \<Rightarrow> up_state \<Rightarrow> bool" where
  "free_names C n s \<longleftrightarrow> (\<forall>k \<in> dom (indexStore (store s)). \<forall>i < n.
     take CONTAINER_ID_LENGTH k \<noteq> uuid_at C (randPos (store s) + CONTAINER_ID_LENGTH * i))"

definition bin_inv :: "enclave_cfg \<Rightarrow> nat \<Rightarrow> up_state \<Rightarrow> bool" where
  "bin_inv C n s \<longleftrightarrow> store_inv C n s \<and> store_bins C s \<and> free_names C n s \<and> outQuery (outc s) = []"

lemma bin_inv_cfg: "bin_inv C n s \<Longrightarrow> cfg_ok C"
  by (simp add: bin_inv_def store_inv_def)

lemma bin_at_same: "indexStore (store s') = indexStore (store s) \<Longrightarrow> bin_at C s' = bin_at C s"
  by (simp add: fun_eq_iff bin_at_def)

lemma bin_inv_same: "same_index s s' \<Longrightarrow> bin_inv C n s' = bin_inv C n s"
proof -
  assume "same_index s s'"
  then have sc: "same_containers s s'" and db: "indexStore (store s') = indexStore (store s)" "outQuery (outc s') = outQuery (outc s)"
    by (simp_all add: same_index_def)
  have "sound_items C s' = sound_items C s" by (simp add: fun_eq_iff sound_items_def same_containers_views(2) [OF sc])
  then have "store_bins C s' = store_bins C s" by (simp add: store_bins_def bin_at_same [OF db(1)] db)
  moreover have "free_names C n s' = free_names C n s" using sc db by (simp add: free_names_def same_containers_def)
  ultimately show ?thesis by (simp add: bin_inv_def same_containers_views(3) [OF sc] db)
qed

lemma free_names_advance:
  assumes "free_names C (k + n) s" and "dom (indexStore (store s')) \<subseteq> dom (indexStore (store s))"
    and "randPos (store s') = randPos (store s) + CONTAINER_ID_LENGTH * j" and "j \<le> k"
  shows "free_names C n s'"
  unfolding free_names_def
proof (intro ballI allI impI)
  fix x i
  assume x: "x \<in> dom (indexStore (store s'))" and i: "i < n"
  have "j + i < k + n" using i assms(4) by simp
  with assms(1,2) x have "take CONTAINER_ID_LENGTH x \<noteq> uuid_at C (randPos (store s) + CONTAINER_ID_LENGTH * (j + i))"
    unfolding free_names_def by blast
  then show "take CONTAINER_ID_LENGTH x \<noteq> uuid_at C (randPos (store s') + CONTAINER_ID_LENGTH * i)"
    by (simp add: assms(3) algebra_simps)
qed

lemma ProcessUniqueChunk_names:
  assumes "ProcessUniqueChunk C d s = Inr (a, s')"
  shows "\<exists>j \<le> 1. randPos (store s') = randPos (store s) + CONTAINER_ID_LENGTH * j"
proof -
  have "\<exists>j \<le> 1. randPos (store (snd (SaveChunk C x t))) = randPos (store t) + CONTAINER_ID_LENGTH * j" for x t
    by (cases "of_nat CRYPTO_BLOCK_SIZE + of_nat (length x) + curSize (inContainer (sgx t)) < MAX_CONTAINER_SIZE")
      (auto simp: SaveChunk_unfold Let_def rollover_def intro: exI [of _ 0] exI [of _ 1])
  from this [of _ "s\<lparr>sgx := (sgx s)\<lparr>iv := PickNewIV (iv (sgx s))\<rparr>, stats := _\<rparr>"] assms show ?thesis
    by (simp add: ProcessUniqueChunk_def Let_def rbind_eq_Inr split: if_splits) (metis snd_conv)+
qed

text \<open>What the deduplication of a segment leaves alone.\<close>

definition seg_same :: "up_state \<Rightarrow> up_state \<Rightarrow> bool" where
  "seg_same s s' \<longleftrightarrow> extends s s' \<and> indexStore (store s') = indexStore (store s) \<and> seg (sgx s') = seg (sgx s) \<and>
     recvBuffer (sgx s') = recvBuffer (sgx s) \<and> sessionKey (sgx s') = sessionKey (sgx s)"

lemma seg_same_trans: "seg_same s1 s2 \<Longrightarrow> seg_same s2 s3 \<Longrightarrow> seg_same s1 s3"
  using extends_trans by (auto simp: seg_same_def)

lemma UpdateFileRecipe_address:
  assumes i: "bin_inv C n s" and rc: "recipe_holds C h0 s as" and a: "wf_entry a"
  shows "\<exists>s'. UpdateFileRecipe C (RecipeEntry_bytes a) s = Inr s' \<and> bin_inv C n s' \<and> recipe_holds C h0 s' (as @ [a]) \<and>
     seg_same s s' \<and> resolve C s' = resolve C s"
proof -
  from UpdateFileRecipe_ok [OF bin_inv_cfg [OF i] rc [unfolded recipe_holds_def] length_RecipeEntry_bytes [OF a]] obtain s'
    where s': "UpdateFileRecipe C (RecipeEntry_bytes a) s = Inr s'" "same_store s s'"
      "recipe_of C s' h0 (map RecipeEntry_bytes as @ [RecipeEntry_bytes a])"
    by blast
  have db: "indexStore (store s') = indexStore (store s)" "outQuery (outc s') = outQuery (outc s)" "randPos (store s') = randPos (store s)"
    using s'(2) by (simp_all add: same_store_def)
  note v = same_store_views [OF s'(2)]
  have "free_names C n s'" using i db by (simp add: bin_inv_def free_names_def)
  then have "bin_inv C n s'" using i db v store_bins_keep by (auto simp: bin_inv_def)
  moreover have "seg_same s s'" using s'(2) v(4) by (simp add: seg_same_def same_store_def)
  ultimately show ?thesis using s' v(2) by (auto simp: recipe_holds_def)
qed

lemma segment_dedup_ok:
  assumes i: "bin_inv C (Suc n) s" and t: "sound_items C s tmp" and rc: "recipe_holds C h0 s as" and d: "chunk_ok C d"
    and b: "seg_buffer sg = pre @ d @ post"
  shows "\<exists>a u tmp' s'. segment_dedup C sg (meta_of C d) (tmp, length pre, s) = Inr ((RecipeEntry_bytes a, u), tmp', length pre + length d, s') \<and>
     bin_inv C n s' \<and> sound_items C s' tmp' \<and> recipe_holds C h0 s' (as @ [a]) \<and> leads_to C s' [a] [d] \<and> seg_same s s' \<and>
     insert (chunk_fp C d) (fst ` set tmp) \<subseteq> fst ` set tmp'"
proof -
  note C = bin_inv_cfg [OF i]
  have "length d < 2 ^ 32" using d by (simp add: chunk_ok_def const_defs)
  then have l: "unat (of_nat (length d) :: u32) = length d" by (simp add: unat_of_nat_u32)
  note fp = chunk_fp_eq(2) [OF C, of d]
  show ?thesis
  proof (cases "map_of tmp (chunk_fp C d)")
    case (Some ab)
    from sound_itemsD [OF t Some] obtain a d' where a: "wf_entry a" "ab = RecipeEntry_bytes a" "resolve C s a = Some d'"
        "chunk_fp C d' = chunk_fp C d"
      by blast
    have i0: "bin_inv C n s"
      using i fresh_ids_Suc(2) by (auto simp: bin_inv_def store_inv_def free_names_def)
    from UpdateFileRecipe_address [OF i0 rc a(1)] obtain s' where
      s': "UpdateFileRecipe C ab s = Inr s'" "bin_inv C n s'" "recipe_holds C h0 s' (as @ [a])" "seg_same s s'" "resolve C s' = resolve C s"
      using a(2) by blast
    have "segment_dedup C sg (meta_of C d) (tmp, length pre, s) = Inr ((RecipeEntry_bytes a, False), tmp, length pre + length d, s')"
      using Some s'(1) a(2) fp by (simp add: segment_dedup_def meta_of_def l)
    moreover have "leads_to C s' [a] [d]" using a s'(5) by (simp add: leads_to_def)
    moreover have "sound_items C s' tmp" using sound_items_extends [OF t] s'(4) by (simp add: seg_same_def)
    moreover have "chunk_fp C d \<in> fst ` set tmp" using map_of_SomeD [OF Some] by force
    ultimately show ?thesis using s' by blast
  next
    case None
    let ?s1 = "count_unique (length d) s"
    have sc: "same_containers s ?s1" by (simp add: same_containers_def count_unique_def)
    have "store_inv C (Suc n) ?s1" using i same_containers_views(3) [OF sc] by (simp add: bin_inv_def)
    from ProcessUniqueChunk_ok [OF this d] obtain a s2 where
      s2: "ProcessUniqueChunk C d ?s1 = Inr (a, s2)" "store_inv C n s2" "extends ?s1 s2" "resolve C s2 a = Some d" "wf_entry a" "same_rest ?s1 s2"
      by blast
    have e2: "extends s s2" using extends_trans [OF same_containers_views(4) [OF sc] s2(3)] .
    have db: "indexStore (store s2) = indexStore (store s)" "outQuery (outc s2) = outQuery (outc s)"
      using s2(6) by (simp_all add: same_rest_def count_unique_def)
    obtain j where j: "j \<le> 1" "randPos (store s2) = randPos (store s) + CONTAINER_ID_LENGTH * j"
      using ProcessUniqueChunk_names [OF s2(1)] by (auto simp: count_unique_def)
    have "free_names C (1 + n) s" using i by (simp add: bin_inv_def)
    then have fn: "free_names C n s2" using free_names_advance [of C 1 n s s2 j] j db(1) by simp
    have i2: "bin_inv C n s2" using i s2(2) db fn store_bins_keep [OF _ e2 db(1)] by (simp add: bin_inv_def)
    have "keeps s s2" using same_rest_keeps [OF s2(6)] by (simp add: keeps_def count_unique_def)
    then have rc2: "recipe_holds C h0 s2 as" using rc unfolding recipe_holds_def by (rule recipe_of_keeps)
    from UpdateFileRecipe_address [OF i2 rc2 s2(5)] obtain s' where
      s': "UpdateFileRecipe C (RecipeEntry_bytes a) s2 = Inr s'" "bin_inv C n s'" "recipe_holds C h0 s' (as @ [a])" "seg_same s2 s'"
        "resolve C s' = resolve C s2"
      by blast
    let ?t = "um_insert (chunk_fp C d) (RecipeEntry_bytes a) tmp"
    have "segment_dedup C sg (meta_of C d) (tmp, length pre, s) = Inr ((RecipeEntry_bytes a, True), ?t, length pre + length d, s')"
      using None s2(1) s'(1) fp b by (simp add: segment_dedup_def meta_of_def l read_at_def)
    moreover have "seg_same s s2" using s2(6) e2 db by (simp add: seg_same_def same_rest_def count_unique_def)
    then have ss: "seg_same s s'" using s'(4) by (rule seg_same_trans)
    moreover have "leads_to C s' [a] [d]" using s2(4,5) s'(5) by (simp add: leads_to_def)
    moreover have "sound_items C s' tmp" using sound_items_extends [OF t] ss by (simp add: seg_same_def)
    then have "sound_items C s' ?t"
      using um_insert_subset(2) [of "chunk_fp C d" "RecipeEntry_bytes a" tmp] s2(4,5) s'(5) fp
      unfolding sound_items_def by fastforce
    ultimately show ?thesis using s'(2,3) um_insert_keys [of "chunk_fp C d" "RecipeEntry_bytes a" tmp] by blast
  qed
qed

lemma dedup_loop:
  assumes "bin_inv C (length cs + n) s" and "sound_items C s tmp" and "recipe_holds C h0 s as" and "\<forall>d \<in> set cs. chunk_ok C d"
    and "seg_buffer sg = pre @ concat cs @ post"
  shows "\<exists>rs bs tmp' off s'. rfold (\<lambda>m (rs, z). rbind (segment_dedup C sg m z) (\<lambda>(r, z'). Inr (rs @ [r], z'))) (map (meta_of C) cs)
       (rs0, tmp, length pre, s) = Inr (rs0 @ rs, tmp', off, s') \<and> map fst rs = map RecipeEntry_bytes bs \<and>
     bin_inv C n s' \<and> sound_items C s' tmp' \<and> recipe_holds C h0 s' (as @ bs) \<and> leads_to C s' bs cs \<and> seg_same s s' \<and>
     chunk_fp C ` set cs \<union> fst ` set tmp \<subseteq> fst ` set tmp'"
  using assms
proof (induction cs arbitrary: s tmp as pre rs0)
  case Nil
  then show ?case by (auto simp: seg_same_def intro!: exI [of _ "[]"])
next
  case (Cons d cs)
  have "bin_inv C (Suc (length cs + n)) s" "chunk_ok C d" "seg_buffer sg = pre @ d @ (concat cs @ post)" using Cons.prems(1,4,5) by simp_all
  from segment_dedup_ok [OF this(1) Cons.prems(2,3) this(2,3)] obtain a u t1 s1 where
    s1: "segment_dedup C sg (meta_of C d) (tmp, length pre, s) = Inr ((RecipeEntry_bytes a, u), t1, length (pre @ d), s1)"
      "bin_inv C (length cs + n) s1" "sound_items C s1 t1" "recipe_holds C h0 s1 (as @ [a])" "leads_to C s1 [a] [d]" "seg_same s s1"
      "insert (chunk_fp C d) (fst ` set tmp) \<subseteq> fst ` set t1"
    unfolding length_append by blast
  have "\<forall>d \<in> set cs. chunk_ok C d" "seg_buffer sg = (pre @ d) @ concat cs @ post" using Cons.prems(4,5) by simp_all
  from Cons.IH [OF s1(2-4) this, of "rs0 @ [(RecipeEntry_bytes a, u)]"] obtain rs bs tmp' off s' where
    r: "rfold (\<lambda>m (rs, z). rbind (segment_dedup C sg m z) (\<lambda>(r, z'). Inr (rs @ [r], z'))) (map (meta_of C) cs)
        (rs0 @ [(RecipeEntry_bytes a, u)], t1, length (pre @ d), s1) = Inr ((rs0 @ [(RecipeEntry_bytes a, u)]) @ rs, tmp', off, s')"
      "map fst rs = map RecipeEntry_bytes bs" "bin_inv C n s'" "sound_items C s' tmp'" "recipe_holds C h0 s' ((as @ [a]) @ bs)"
      "leads_to C s' bs cs" "seg_same s1 s'" "chunk_fp C ` set cs \<union> fst ` set t1 \<subseteq> fst ` set tmp'"
    by blast
  have "leads_to C s' [a] [d]" using leads_to_extends [OF s1(5)] r(7) by (simp add: seg_same_def)
  then have "leads_to C s' (a # bs) (d # cs)" using leads_to_append [OF _ r(6)] by fastforce
  moreover have "seg_same s s'" using s1(6) r(7) by (rule seg_same_trans)
  moreover have "chunk_fp C ` set (d # cs) \<union> fst ` set tmp \<subseteq> fst ` set tmp'" using s1(7) r(8) unfolding list.set image_insert by blast
  moreover have "rfold (\<lambda>m (rs, z). rbind (segment_dedup C sg m z) (\<lambda>(r, z'). Inr (rs @ [r], z'))) (map (meta_of C) (d # cs))
      (rs0, tmp, length pre, s) = Inr (rs0 @ ((RecipeEntry_bytes a, u) # rs), tmp', off, s')"
    using s1(1) r(1) by simp
  moreover have "map fst ((RecipeEntry_bytes a, u) # rs) = map RecipeEntry_bytes (a # bs)" using r(2) by simp
  moreover have "recipe_holds C h0 s' (as @ a # bs)" using r(5) by simp
  ultimately show ?case using r(3,4) by blast
qed

lemma dedup_segment_ok:
  assumes i: "bin_inv C (length cs + n) s" and t: "sound_items C s tmp" and rc: "recipe_holds C h0 s as"
    and ok: "\<forall>d \<in> set cs. chunk_ok C d" and h: "holds C sg cs"
  shows "\<exists>rs bs tmp' s'. dedup_segment C sg (map (meta_of C) cs) tmp s = Inr (rs, tmp', s') \<and> map fst rs = map RecipeEntry_bytes bs \<and>
     bin_inv C n s' \<and> sound_items C s' tmp' \<and> recipe_holds C h0 s' (as @ bs) \<and> leads_to C s' bs cs \<and> seg_same s s' \<and>
     chunk_fp C ` set cs \<union> fst ` set tmp \<subseteq> fst ` set tmp'"
proof -
  have b: "seg_buffer sg = [] @ concat cs @ drop (length (concat cs)) (seg_buffer sg)"
    using h unfolding holds_def by (metis append_Nil append_take_drop_id)
  from dedup_loop [OF i t rc ok b, of "[]"] show ?thesis by (fastforce simp: dedup_segment_def)
qed

lemma bin_inv_mono: "bin_inv C (k + n) s \<Longrightarrow> bin_inv C n s"
proof (induction k)
  case (Suc k)
  then have "bin_inv C (k + n) s"
    using fresh_ids_Suc(2) by (auto simp: bin_inv_def store_inv_def free_names_def)
  then show ?case by (rule Suc.IH)
qed simp

text \<open>A name for a bin: two steps of the random source further on.\<close>

lemma store_inv_skip:
  assumes "store_inv C (Suc n) s" and "s' = s\<lparr>store := (store s)\<lparr>randPos := randPos (store s) + CONTAINER_ID_LENGTH\<rparr>\<rparr>"
  shows "store_inv C n s'"
proof -
  have u: "used_names s' = used_names s" "cur_name s' = cur_name s" by (simp_all add: assms(2) used_names_def cur_name_def)
  have "fresh_ids C n s'" using assms(1) by (intro fresh_ids_Suc(3) [of C n s]) (auto simp: store_inv_def u(1), simp add: assms(2))
  moreover have "container_inv s'" using assms(1) unfolding store_inv_def container_inv_def u(2) by (simp add: assms(2))
  ultimately show ?thesis using assms(1) by (simp add: store_inv_def)
qed

lemma new_bin_name:
  assumes i: "bin_inv C (Suc (Suc n)) s" and u: "Ocall_CreateUUID C SEGMENT_ID_LENGTH s = (u, s')"
  shows "u \<notin> dom (indexStore (store s))" and "bin_inv C n s'" and "extends s s'"
    and "\<And>i. i < n \<Longrightarrow> take CONTAINER_ID_LENGTH u \<noteq> uuid_at C (randPos (store s') + CONTAINER_ID_LENGTH * i)"
    and "sgx s' = sgx s" and "outc s' = outc s" and "indexStore (store s') = indexStore (store s)"
proof -
  let ?L = CONTAINER_ID_LENGTH and ?p = "randPos (store s)"
  have s': "s' = s\<lparr>store := (store s)\<lparr>randPos := ?p + SEGMENT_ID_LENGTH\<rparr>\<rparr>" and u0: "u = fst (CreateUUID (cfg_rnd C) ?p SEGMENT_ID_LENGTH)"
    using u by (auto simp: Ocall_CreateUUID_def CreateUUID_def)
  have L: "SEGMENT_ID_LENGTH = ?L + ?L" by (simp add: const_defs)
  show "sgx s' = sgx s" "outc s' = outc s" "indexStore (store s') = indexStore (store s)" by (simp_all add: s')
  have tu: "take ?L u = uuid_at C ?p"
    by (simp add: u0 uuid_at_def CreateUUID_def L take_map)
  have fn: "free_names C (Suc (Suc n)) s" using i by (simp add: bin_inv_def)
  show "u \<notin> dom (indexStore (store s))"
  proof
    assume "u \<in> dom (indexStore (store s))"
    with fn have "take ?L u \<noteq> uuid_at C (?p + ?L * 0)" unfolding free_names_def by blast
    with tu show False by simp
  qed
  show ex: "extends s s'" by (simp add: s' extends_def stored_container_def cur_name_def)
  let ?s1 = "s\<lparr>store := (store s)\<lparr>randPos := ?p + ?L\<rparr>\<rparr>"
  have "store_inv C (Suc n) ?s1" using i by (intro store_inv_skip [of C "Suc n" s]) (simp_all add: bin_inv_def)
  then have "store_inv C n s'" by (rule store_inv_skip) (simp add: s' L algebra_simps)
  moreover have "free_names C n s'" using free_names_advance [of C 2 n s s' 2] fn by (simp add: s' L numeral_eq_Suc)
  moreover have "store_bins C s'" using i store_bins_keep [OF _ ex] by (simp add: bin_inv_def s')
  ultimately show "bin_inv C n s'" using i by (simp add: bin_inv_def s')
  fix j
  assume j: "j < n"
  let ?ids = "map (\<lambda>i. uuid_at C (?p + ?L * i)) [0..<Suc (Suc n)]"
  have "distinct ?ids" using i by (simp add: bin_inv_def store_inv_def fresh_ids_def fresh_from_def Let_def del: upt_Suc)
  then have "?ids ! 0 \<noteq> ?ids ! (2 + j)" using j by (subst nth_eq_iff_index_eq) simp_all
  moreover have "?ids ! 0 = uuid_at C ?p" "?ids ! (2 + j) = uuid_at C (randPos (store s') + ?L * j)"
    using j by (simp_all add: s' L algebra_simps del: upt_Suc)
  ultimately show "take ?L u \<noteq> uuid_at C (randPos (store s') + ?L * j)" using tu by simp
qed

lemma holds_metas: "holds C sg cs \<Longrightarrow> take (unat (seg_chunkNum sg)) (seg_metadata sg) = map (meta_of C) cs"
  by (simp add: holds_def)

lemma iteration_set: "iteration iter \<Longrightarrow> set (iter m) = set m"
  unfolding iteration_def by (metis set_mset_mset)

end
