(* ===== verification/Extreme.thy ===== *)
theory Extreme
  imports BinStore SealedFile
begin

text \<open>
  \<open>EcallExtremeBinIndex\<close> (\<open>ecallIndex/ecallExtreme.cc\<close>): the enclave keeps one entry per segment, under
  the fingerprint with the smallest value in it; the entry names a bin outside the enclave with the
  addresses of the chunks of all segments that had this representative. A segment with the very same
  metadata as the first one of the bin takes its addresses from the bin without further work.
\<close>

section \<open>Operations\<close>

record primary_value =
  segmentHash :: bytes
  binID :: bytes

record extreme_index =
  primaryIndex :: "bytes \<rightharpoonup> primary_value"
  totalSegmentNum :: u64
  uniqueSegmentNum :: u64
  differentSegmentNum :: u64
  duplicateSegmentNum :: u64

definition EcallExtremeBinIndex_new :: extreme_index where
  "EcallExtremeBinIndex_new = \<lparr>primaryIndex = Map.empty, totalSegmentNum = 0, uniqueSegmentNum = 0, differentSegmentNum = 0, duplicateSegmentNum = 0\<rparr>"

definition UpdateBinStore ::
  "enclave_cfg \<Rightarrow> ((bytes \<times> bytes) list \<Rightarrow> (bytes \<times> bytes) list) \<Rightarrow> bytes \<Rightarrow> (bytes \<times> bytes) list \<Rightarrow> up_state \<Rightarrow> up_state res" where
  "UpdateBinStore C iter binAddress tmp s =
     rbind (write_bin C binAddress (iter tmp) s) (\<lambda>(status, s').
       if \<not> status then Inl (ProcExit ''EcallExtremeBinIndex: cannot update the bin store.'') else Inr s')"

text \<open>A segment that was seen before: every address is in the bin.\<close>

definition duplicate_chunk :: "enclave_cfg \<Rightarrow> (bytes \<times> bytes) list \<Rightarrow> u32 \<times> bytes \<Rightarrow> up_state \<Rightarrow> up_state res" where
  "duplicate_chunk C tmp m s =
     (case map_of tmp (take CHUNK_HASH_SIZE (snd m)) of
        Some ab \<Rightarrow> UpdateFileRecipe C ab s
      | None \<Rightarrow> Inl (ProcExit ''EcallExtremeBinIndex: cannot find the chunk address of tmp deduplication index.''))"

definition Extreme_known ::
  "enclave_cfg \<Rightarrow> ((bytes \<times> bytes) list \<Rightarrow> (bytes \<times> bytes) list) \<Rightarrow> (u32 \<times> bytes) list \<Rightarrow> bytes \<Rightarrow> primary_value \<Rightarrow>
   extreme_index \<times> up_state \<Rightarrow> (extreme_index \<times> up_state) res" where
  "Extreme_known C iter metas hash pv st =
     (let (x, s) = st in
      rbind (FetchBin C (binID pv) [] s) (\<lambda>(found, tmp, s1).
        if \<not> found then Inl (ProcExit ''EcallExtremeBinIndex: cannot find the bin.'')
        else if hash \<noteq> segmentHash pv then
          rbind (dedup_segment C (seg (sgx s)) metas tmp s1) (\<lambda>(rs, tmp', s2).
          rbind (UpdateBinStore C iter (binID pv) tmp' s2) (\<lambda>s3.
            Inr (x\<lparr>differentSegmentNum := differentSegmentNum x + 1, totalSegmentNum := totalSegmentNum x + 1\<rparr>, s3)))
        else
          rbind (rfold (duplicate_chunk C tmp) metas s1) (\<lambda>s2.
            Inr (x\<lparr>duplicateSegmentNum := duplicateSegmentNum x + 1, totalSegmentNum := totalSegmentNum x + 1\<rparr>, s2))))"

definition Extreme_new ::
  "enclave_cfg \<Rightarrow> ((bytes \<times> bytes) list \<Rightarrow> (bytes \<times> bytes) list) \<Rightarrow> (u32 \<times> bytes) list \<Rightarrow> bytes \<Rightarrow> bytes \<Rightarrow>
   extreme_index \<times> up_state \<Rightarrow> (extreme_index \<times> up_state) res" where
  "Extreme_new C iter metas hash mh st =
     (let (x, s) = st in
      rbind (dedup_segment C (seg (sgx s)) metas [] s) (\<lambda>(rs, tmp, s1).
        let (u, s2) = Ocall_CreateUUID C SEGMENT_ID_LENGTH s1 in
        rbind (UpdateBinStore C iter u tmp s2) (\<lambda>s3.
          Inr (x\<lparr>primaryIndex := (primaryIndex x)(mh \<mapsto> \<lparr>segmentHash = hash, binID = u\<rparr>),
                 uniqueSegmentNum := uniqueSegmentNum x + 1, totalSegmentNum := totalSegmentNum x + 1\<rparr>, s3))))"

definition Extreme_ProcessOneSegment ::
  "enclave_cfg \<Rightarrow> ((bytes \<times> bytes) list \<Rightarrow> (bytes \<times> bytes) list) \<Rightarrow> extreme_index \<times> up_state \<Rightarrow> (extreme_index \<times> up_state) res" where
  "Extreme_ProcessOneSegment C iter st =
     (let sg = seg (sgx (snd st)); metas = take (unat (seg_chunkNum sg)) (seg_metadata sg); mh = take CHUNK_HASH_SIZE (minHash sg) in
      rbind (Ecall_GenerateHash (cfg_evp C) (cfg_tool C) (concat (map SegmentMeta_bytes metas))) (\<lambda>hash.
        case primaryIndex (fst st) mh of
          Some pv \<Rightarrow> Extreme_known C iter metas (take CHUNK_HASH_SIZE hash) pv st
        | None \<Rightarrow> Extreme_new C iter metas (take CHUNK_HASH_SIZE hash) mh st))"

definition Extreme_ProcessOneBatch ::
  "enclave_cfg \<Rightarrow> ((bytes \<times> bytes) list \<Rightarrow> (bytes \<times> bytes) list) \<Rightarrow> net_msg \<Rightarrow> extreme_index \<times> up_state \<Rightarrow> (extreme_index \<times> up_state) res" where
  "Extreme_ProcessOneBatch C iter = segment_batch C update_min (Extreme_ProcessOneSegment C iter)"

definition Extreme_ProcessTailBatch ::
  "enclave_cfg \<Rightarrow> ((bytes \<times> bytes) list \<Rightarrow> (bytes \<times> bytes) list) \<Rightarrow> extreme_index \<times> up_state \<Rightarrow> (extreme_index \<times> up_state) res" where
  "Extreme_ProcessTailBatch C iter = segment_tail C (Extreme_ProcessOneSegment C iter)"

section \<open>Correctness of a segment\<close>

definition seg_hash :: "enclave_cfg \<Rightarrow> bytes list \<Rightarrow> bytes" where
  "seg_hash C cs = chunk_fp C (concat (map (SegmentMeta_bytes \<circ> meta_of C) cs))"

text \<open>The bin of every entry is there; \<open>covers\<close> says that the bin has all chunks of a segment.\<close>

definition extreme_inv :: "enclave_cfg \<Rightarrow> nat \<Rightarrow> extreme_index \<times> up_state \<Rightarrow> bool" where
  "extreme_inv C n st \<longleftrightarrow> bin_inv C n (snd st) \<and>
     (\<forall>pv \<in> ran (primaryIndex (fst st)). binID pv \<in> dom (indexStore (store (snd st))))"

definition covers :: "enclave_cfg \<Rightarrow> up_state \<Rightarrow> bytes \<Rightarrow> bytes list \<Rightarrow> bool" where
  "covers C s k cs \<longleftrightarrow> (\<exists>items. bin_at C s k items \<and> chunk_fp C ` set cs \<subseteq> fst ` set items)"

text \<open>
  No two different segments among those to come have the same hash, and none has by chance the hash of
  an entry whose bin does not have its chunks.
\<close>

definition extreme_safe :: "enclave_cfg \<Rightarrow> extreme_index \<times> up_state \<Rightarrow> bytes list list \<Rightarrow> bool" where
  "extreme_safe C st sgs \<longleftrightarrow>
     (\<forall>c1 \<in> set sgs. \<forall>c2 \<in> set sgs. seg_hash C c1 = seg_hash C c2 \<longrightarrow> map (chunk_fp C) c1 = map (chunk_fp C) c2) \<and>
     (\<forall>cs \<in> set sgs. \<forall>pv \<in> ran (primaryIndex (fst st)). segmentHash pv = seg_hash C cs \<longrightarrow> covers C (snd st) (binID pv) cs)"

lemma covers_cong: "map (chunk_fp C) c1 = map (chunk_fp C) c2 \<Longrightarrow> covers C s k c1 = covers C s k c2"
  unfolding covers_def by (metis list.set_map)

lemma covers_keep:
  assumes "covers C s k cs" and "k \<noteq> k' \<Longrightarrow> (\<forall>is. bin_at C s' k is = bin_at C s k is)"
    and "k = k' \<Longrightarrow> (\<exists>items. bin_at C s' k items \<and> (\<forall>old. bin_at C s k old \<longrightarrow> fst ` set old \<subseteq> fst ` set items))"
  shows "covers C s' k cs"
proof (cases "k = k'")
  case True
  with assms(1,3) show ?thesis unfolding covers_def by (meson subset_trans)
next
  case False
  with assms(1,2) show ?thesis by (auto simp: covers_def)
qed

text \<open>The list under a name is determined by what is stored.\<close>

lemma bin_at_unique:
  assumes "cfg_ok C" and "bin_at C s k i1" and "bin_at C s k i2"
  shows "i1 = i2"
proof -
  from assms(2,3) obtain v where v: "bin_enc C i1 = Inr v" "bin_enc C i2 = Inr v" and z: "item_sizes i1" "item_sizes i2"
    by (auto simp: bin_at_def)
  from bin_encE [OF assms(1) z(1)] v(1) have "IndexAESCMCDec (cfg_evp C) (cfg_tool C) v (indexQueryKey C) = Inr (bin_bytes i1)" by auto
  moreover from bin_encE [OF assms(1) z(2)] v(2) have "IndexAESCMCDec (cfg_evp C) (cfg_tool C) v (indexQueryKey C) = Inr (bin_bytes i2)" by auto
  ultimately show ?thesis using bin_items_bytes(1) [OF z(1)] bin_items_bytes(1) [OF z(2)] by simp
qed

lemma extreme_same_inv: "same_index s s' \<Longrightarrow> extreme_inv C n (x, s') = extreme_inv C n (x, s)"
proof -
  assume a: "same_index s s'"
  then have "indexStore (store s') = indexStore (store s)" by (simp add: same_index_def)
  then show ?thesis by (simp add: extreme_inv_def bin_inv_same [OF a])
qed

lemma extreme_safe_cong:
  "bin_at C s' = bin_at C s \<Longrightarrow> primaryIndex x' = primaryIndex x \<Longrightarrow> extreme_safe C (x', s') sgs = extreme_safe C (x, s) sgs"
  by (simp only: extreme_safe_def covers_def fst_conv snd_conv)

lemma extreme_same_safe: "same_index s s' \<Longrightarrow> extreme_safe C (x, s') sgs = extreme_safe C (x, s) sgs"
proof -
  assume "same_index s s'"
  then have "bin_at C s' = bin_at C s" by (intro bin_at_same) (simp add: same_index_def)
  then show ?thesis by (rule extreme_safe_cong) simp
qed

lemma extreme_safe_tl: "extreme_safe C st (cs # sgs) \<Longrightarrow> extreme_safe C st sgs"
  unfolding extreme_safe_def list.set by blast

lemma UpdateBinStore_ok:
  assumes it: "iteration iter" and i: "bin_inv C n s" and t: "sound_items C s tmp"
  shows "\<exists>s' items. UpdateBinStore C iter k tmp s = Inr s' \<and> same_containers s s' \<and> store_bins C s' \<and>
     bin_at C s' k items \<and> set items = set tmp \<and> (\<forall>k' is. k' \<noteq> k \<longrightarrow> bin_at C s' k' is = bin_at C s k' is) \<and>
     dom (indexStore (store s')) = insert k (dom (indexStore (store s))) \<and> sgx s' = sgx s \<and> outc s' = outc s"
proof -
  have "sound_items C s (iter tmp)" using sound_items_subset [OF t] iteration_set [OF it] by blast
  moreover have "cfg_ok C" "store_bins C s" using i by (simp_all add: bin_inv_def store_inv_def)
  ultimately obtain s' where "write_bin C k (iter tmp) s = Inr (True, s')" "same_containers s s'" "store_bins C s'" "bin_at C s' k (iter tmp)"
      "\<forall>k' is. k' \<noteq> k \<longrightarrow> bin_at C s' k' is = bin_at C s k' is" "dom (indexStore (store s')) = insert k (dom (indexStore (store s)))"
      "sgx s' = sgx s" "outc s' = outc s"
    using write_bin_ok by blast
  then show ?thesis using iteration_set [OF it] by (intro exI [of _ s'] exI [of _ "iter tmp"]) (simp add: UpdateBinStore_def)
qed

text \<open>The fetched bin, and the steps of a duplicate segment.\<close>

lemma extreme_fetch:
  assumes i: "extreme_inv C n (x, s)" and pv: "pv \<in> ran (primaryIndex x)"
  shows "\<exists>items tmp s1. bin_at C s (binID pv) items \<and> FetchBin C (binID pv) [] s = Inr (True, tmp, s1) \<and> sound_items C s1 tmp \<and>
     fst ` set tmp = fst ` set items \<and> same_index s s1 \<and> sgx s1 = sgx s"
proof -
  have b: "bin_inv C n s" and "binID pv \<in> dom (indexStore (store s))" using i pv by (auto simp: extreme_inv_def)
  then obtain items where it: "bin_at C s (binID pv) items" "sound_items C s items" by (auto simp: bin_inv_def store_bins_def)
  let ?t = "foldl (\<lambda>m (k, v). um_insert k v m) [] items"
  let ?s = "s\<lparr>outc := (outc s)\<lparr>tmpQueryBufferStr := the (indexStore (store s) (binID pv))\<rparr>\<rparr>"
  have si: "same_index s ?s" by (simp add: same_index_def same_containers_def)
  have "sound_items C s ?t" using sound_items_subset [OF it(2)] load_items_set(2) [of "[]" items] by simp
  then have "sound_items C ?s ?t"
    using sound_items_extends same_containers_views(4) [of s ?s] by (simp add: same_containers_def)
  with it(1) FetchBin_ok [OF bin_inv_cfg [OF b] it(1), of "[]"] si load_items_set(3) [of "[]" items] show ?thesis by fastforce
qed

lemma duplicate_segment_ok:
  assumes "bin_inv C n s" and "sound_items C s tmp" and "recipe_holds C h0 s as" and "chunk_fp C ` set cs \<subseteq> fst ` set tmp"
  shows "\<exists>s' bs. rfold (duplicate_chunk C tmp) (map (meta_of C) cs) s = Inr s' \<and> bin_inv C n s' \<and> recipe_holds C h0 s' (as @ bs) \<and>
     leads_to C s' bs cs \<and> seg_same s s'"
  using assms
proof (induction cs arbitrary: s as)
  case Nil
  then show ?case by (intro exI [of _ s] exI [of _ "[]"]) (simp add: seg_same_def)
next
  case (Cons d cs)
  note fp = chunk_fp_eq(2) [OF bin_inv_cfg [OF Cons.prems(1)], of d]
  have "chunk_fp C d \<in> fst ` set tmp" using Cons.prems(4) by simp
  then obtain ab where ab: "map_of tmp (chunk_fp C d) = Some ab" by (metis map_of_eq_None_iff option.exhaust)
  from sound_itemsD [OF Cons.prems(2) ab] obtain a d' where a: "wf_entry a" "ab = RecipeEntry_bytes a" "resolve C s a = Some d'"
      "chunk_fp C d' = chunk_fp C d" by blast
  from UpdateFileRecipe_address [OF Cons.prems(1,3) a(1)] obtain s1 where
    s1: "UpdateFileRecipe C ab s = Inr s1" "bin_inv C n s1" "recipe_holds C h0 s1 (as @ [a])" "seg_same s s1" "resolve C s1 = resolve C s"
    using a(2) by blast
  have t1: "sound_items C s1 tmp" using sound_items_extends [OF Cons.prems(2)] s1(4) by (simp add: seg_same_def)
  have cv: "chunk_fp C ` set cs \<subseteq> fst ` set tmp" using Cons.prems(4) by (simp only: list.set image_insert insert_subset)
  from Cons.IH [OF s1(2) t1 s1(3) cv] obtain s' bs where
    s': "rfold (duplicate_chunk C tmp) (map (meta_of C) cs) s1 = Inr s'" "bin_inv C n s'" "recipe_holds C h0 s' ((as @ [a]) @ bs)"
      "leads_to C s' bs cs" "seg_same s1 s'"
    by blast
  have "leads_to C s1 [a] [d]" using a s1(5) by (simp add: leads_to_def)
  then have "leads_to C s' [a] [d]" using leads_to_extends s'(5) by (auto simp: seg_same_def)
  then have "leads_to C s' (a # bs) (d # cs)" using leads_to_append [OF _ s'(4)] by fastforce
  moreover have "rfold (duplicate_chunk C tmp) (map (meta_of C) (d # cs)) s = Inr s'"
    using ab s1(1) s'(1) fp by (simp add: duplicate_chunk_def meta_of_def)
  moreover have "seg_same s s'" using s1(4) s'(5) by (rule seg_same_trans)
  ultimately show ?case using s'(2,3) by (intro exI [of _ s'] exI [of _ "a # bs"]) simp
qed

text \<open>What a segment promises, in the shape that the loop over batches needs.\<close>

definition segment_result ::
  "enclave_cfg \<Rightarrow> recipe_id \<Rightarrow> nat \<Rightarrow> bytes list list \<Rightarrow> bytes list \<Rightarrow> recipe_entry list \<Rightarrow> up_state \<Rightarrow> (extreme_index \<times> up_state) res \<Rightarrow> bool" where
  "segment_result C h0 n sgs cs as s r \<longleftrightarrow> (\<exists>x' s' bs. r = Inr (x', s') \<and> extreme_inv C n (x', s') \<and> extreme_safe C (x', s') sgs \<and>
     recipe_holds C h0 s' (as @ bs) \<and> leads_to C s' bs cs \<and> extends s s' \<and>
     recvBuffer (sgx s') = recvBuffer (sgx s) \<and> sessionKey (sgx s') = sessionKey (sgx s))"

lemma Extreme_duplicate_ok:
  assumes i: "extreme_inv C (3 * length cs + n) (x, s)" and sf: "extreme_safe C (x, s) (cs # sgs)" and rc: "recipe_holds C h0 s as"
    and pv: "pv \<in> ran (primaryIndex x)" and eq: "seg_hash C cs = segmentHash pv"
  shows "segment_result C h0 n sgs cs as s (Extreme_known C iter (map (meta_of C) cs) (seg_hash C cs) pv (x, s))"
proof -
  from extreme_fetch [OF i pv] obtain items tmp s1 where
    f: "bin_at C s (binID pv) items" "FetchBin C (binID pv) [] s = Inr (True, tmp, s1)" "sound_items C s1 tmp"
      "fst ` set tmp = fst ` set items" "same_index s s1" "sgx s1 = sgx s"
    by blast
  have C: "cfg_ok C" using i bin_inv_cfg by (auto simp: extreme_inv_def)
  have "covers C s (binID pv) cs" using sf pv eq by (auto simp: extreme_safe_def)
  then have cv: "chunk_fp C ` set cs \<subseteq> fst ` set tmp" using bin_at_unique [OF C f(1)] f(4) by (auto simp: covers_def)
  have b1: "bin_inv C n s1"
    using i bin_inv_mono [of C "3 * length cs" n] bin_inv_same [OF f(5)] by (simp add: extreme_inv_def)
  have rc1: "recipe_holds C h0 s1 as" using rc by (simp add: same_index_views(1) [OF f(5)])
  from duplicate_segment_ok [OF b1 f(3) rc1 cv] obtain s' bs where
    s': "rfold (duplicate_chunk C tmp) (map (meta_of C) cs) s1 = Inr s'" "bin_inv C n s'" "recipe_holds C h0 s' (as @ bs)"
      "leads_to C s' bs cs" "seg_same s1 s'"
    by blast
  let ?x = "x\<lparr>duplicateSegmentNum := duplicateSegmentNum x + 1, totalSegmentNum := totalSegmentNum x + 1\<rparr>"
  have db: "indexStore (store s') = indexStore (store s)" using s'(5) f(5) by (simp add: seg_same_def same_index_def)
  have "extreme_inv C n (?x, s')" using s'(2) i db by (simp add: extreme_inv_def)
  moreover have "extreme_safe C (?x, s') sgs"
    using extreme_safe_cong [OF bin_at_same [OF db, of C], of ?x x sgs] extreme_safe_tl [OF sf] by simp
  moreover have "extends s s'"
    using extends_trans [OF same_containers_views(4)] f(5) s'(5) by (auto simp: seg_same_def same_index_def)
  ultimately show ?thesis
    using s' f(2,6) eq by (auto simp: segment_result_def Extreme_known_def seg_same_def)
qed

lemma extreme_safe_write:
  assumes C: "cfg_ok C" and sf: "extreme_safe C (x, s) sgs" and it: "bin_at C s' k items"
    and old: "\<And>old. bin_at C s k old \<Longrightarrow> fst ` set old \<subseteq> fst ` set items"
    and oth: "\<forall>k' is. k' \<noteq> k \<longrightarrow> bin_at C s' k' is = bin_at C s k' is" and x: "primaryIndex x' = primaryIndex x"
  shows "extreme_safe C (x', s') sgs"
proof -
  have "covers C s' b cs" if "covers C s b cs" for b cs
    using that by (rule covers_keep [where k' = k]) (use oth it old in auto)
  then show ?thesis using sf unfolding extreme_safe_def fst_conv snd_conv x by blast
qed

lemma Extreme_different_ok:
  assumes it: "iteration iter" and i: "extreme_inv C (3 * length cs + n) (x, s)" and sf: "extreme_safe C (x, s) (cs # sgs)"
    and rc: "recipe_holds C h0 s as" and h: "holds C (seg (sgx s)) cs" and ok: "\<forall>d \<in> set cs. chunk_ok C d"
    and pv: "pv \<in> ran (primaryIndex x)" and ne: "seg_hash C cs \<noteq> segmentHash pv"
  shows "segment_result C h0 n sgs cs as s (Extreme_known C iter (map (meta_of C) cs) (seg_hash C cs) pv (x, s))"
proof -
  from extreme_fetch [OF i pv] obtain items tmp s1 where
    f: "bin_at C s (binID pv) items" "FetchBin C (binID pv) [] s = Inr (True, tmp, s1)" "sound_items C s1 tmp"
      "fst ` set tmp = fst ` set items" "same_index s s1" "sgx s1 = sgx s"
    by blast
  have C: "cfg_ok C" using i bin_inv_cfg by (auto simp: extreme_inv_def)
  have "bin_inv C (3 * length cs + n) s1" using i bin_inv_same [OF f(5)] by (simp add: extreme_inv_def)
  then have b1: "bin_inv C (length cs + n) s1" using bin_inv_mono [of C "2 * length cs" "length cs + n" s1] by (simp add: algebra_simps)
  have rc1: "recipe_holds C h0 s1 as" using rc by (simp add: same_index_views(1) [OF f(5)])
  from dedup_segment_ok [OF b1 f(3) rc1 ok h] obtain rs bs tmp' s2 where
    d: "dedup_segment C (seg (sgx s)) (map (meta_of C) cs) tmp s1 = Inr (rs, tmp', s2)" "bin_inv C n s2" "sound_items C s2 tmp'"
      "recipe_holds C h0 s2 (as @ bs)" "leads_to C s2 bs cs" "seg_same s1 s2" "chunk_fp C ` set cs \<union> fst ` set tmp \<subseteq> fst ` set tmp'"
    by blast
  obtain s3 items' where
    u: "UpdateBinStore C iter (binID pv) tmp' s2 = Inr s3" "same_containers s2 s3" "store_bins C s3" "bin_at C s3 (binID pv) items'"
      "set items' = set tmp'" "\<forall>k' is. k' \<noteq> binID pv \<longrightarrow> bin_at C s3 k' is = bin_at C s2 k' is"
      "dom (indexStore (store s3)) = insert (binID pv) (dom (indexStore (store s2)))" "sgx s3 = sgx s2" "outc s3 = outc s2"
    using UpdateBinStore_ok [OF it d(2,3), of "binID pv"] by (elim exE conjE) (rule that; assumption)
  let ?x = "x\<lparr>differentSegmentNum := differentSegmentNum x + 1, totalSegmentNum := totalSegmentNum x + 1\<rparr>"
  have db: "indexStore (store s2) = indexStore (store s)" using d(6) f(5) by (simp add: seg_same_def same_index_def)
  have dom3: "dom (indexStore (store s3)) = dom (indexStore (store s2))" using u(7) i pv db by (auto simp: extreme_inv_def)
  have "free_names C n s3" using d(2) u(2) dom3 by (simp add: bin_inv_def free_names_def same_containers_def)
  then have "bin_inv C n s3" using d(2) u(2,3,9) same_containers_views(3) [OF u(2)] by (simp add: bin_inv_def)
  then have inv: "extreme_inv C n (?x, s3)" using i dom3 db by (simp add: extreme_inv_def)
  have oth: "\<forall>k' is. k' \<noteq> binID pv \<longrightarrow> bin_at C s3 k' is = bin_at C s k' is" using u(6) bin_at_same [OF db] by simp
  have "extreme_safe C (?x, s3) sgs"
  proof (rule extreme_safe_write [OF C extreme_safe_tl [OF sf] u(4) _ oth])
    fix old
    assume "bin_at C s (binID pv) old"
    then have "old = items" using bin_at_unique [OF C f(1)] by simp
    then show "fst ` set old \<subseteq> fst ` set items'" using d(7) f(4) u(5) by simp
  qed simp
  moreover have "recipe_holds C h0 s3 (as @ bs)"
    using d(4) u(8,9) by (simp add: recipe_holds_def recipe_of_def recipe_rep_def)
  moreover note v3 = same_containers_views [OF u(2)]
  moreover have "leads_to C s3 bs cs" using d(5) leads_to_resolve_eq [OF v3(2)] by simp
  moreover have "extends s s3"
    using extends_trans [OF extends_trans [OF same_containers_views(4)] v3(4)] f(5) d(6) by (auto simp: seg_same_def same_index_def)
  moreover have "Extreme_known C iter (map (meta_of C) cs) (seg_hash C cs) pv (x, s) = Inr (?x, s3)"
    using f(2) d(1) u(1) ne by (simp add: Extreme_known_def)
  moreover have "recvBuffer (sgx s3) = recvBuffer (sgx s)" "sessionKey (sgx s3) = sessionKey (sgx s)"
    using u(8) d(6) f(6) by (simp_all add: seg_same_def)
  ultimately show ?thesis using inv unfolding segment_result_def by blast
qed

lemma Extreme_new_ok:
  assumes it: "iteration iter" and i: "extreme_inv C (3 * length cs + n) (x, s)" and sf: "extreme_safe C (x, s) (cs # sgs)"
    and rc: "recipe_holds C h0 s as" and h: "holds C (seg (sgx s)) cs" and ok: "\<forall>d \<in> set cs. chunk_ok C d" and ne: "cs \<noteq> []"
    and mh: "primaryIndex x mh = None"
  shows "segment_result C h0 n sgs cs as s (Extreme_new C iter (map (meta_of C) cs) (seg_hash C cs) mh (x, s))"
proof -
  have b: "bin_inv C (3 * length cs + n) s" and ids: "\<forall>pv \<in> ran (primaryIndex x). binID pv \<in> dom (indexStore (store s))"
    using i by (simp_all add: extreme_inv_def)
  note C = bin_inv_cfg [OF b]
  have sz: "3 * length cs + n = (2 * length cs - 2) + (length cs + Suc (Suc n))" using ne by (cases cs) simp_all
  have b1: "bin_inv C (length cs + Suc (Suc n)) s" using b unfolding sz by (rule bin_inv_mono)
  have e0: "sound_items C s []" by (simp add: sound_items_def)
  obtain rs bs tmp s1 where
    d: "dedup_segment C (seg (sgx s)) (map (meta_of C) cs) [] s = Inr (rs, tmp, s1)" "bin_inv C (Suc (Suc n)) s1" "sound_items C s1 tmp"
      "recipe_holds C h0 s1 (as @ bs)" "leads_to C s1 bs cs" "seg_same s s1" "chunk_fp C ` set cs \<union> fst ` set ([] :: (bytes \<times> bytes) list) \<subseteq> fst ` set tmp"
    using dedup_segment_ok [OF b1 e0 rc ok h] by (elim exE conjE) (rule that; assumption)
  obtain u s2 where cu: "Ocall_CreateUUID C SEGMENT_ID_LENGTH s1 = (u, s2)" by (cases "Ocall_CreateUUID C SEGMENT_ID_LENGTH s1")
  note nb = new_bin_name [OF d(2) cu]
  have t2: "sound_items C s2 tmp" by (rule sound_items_extends [OF d(3) nb(3)])
  obtain s3 items where
    w: "UpdateBinStore C iter u tmp s2 = Inr s3" "same_containers s2 s3" "store_bins C s3" "bin_at C s3 u items"
      "set items = set tmp" "\<forall>k' is. k' \<noteq> u \<longrightarrow> bin_at C s3 k' is = bin_at C s2 k' is"
      "dom (indexStore (store s3)) = insert u (dom (indexStore (store s2)))" "sgx s3 = sgx s2" "outc s3 = outc s2"
    using UpdateBinStore_ok [OF it nb(2) t2, of u] by (elim exE conjE) (rule that; assumption)
  note v3 = same_containers_views [OF w(2)]
  let ?pv = "\<lparr>segmentHash = seg_hash C cs, binID = u\<rparr>"
  let ?x = "x\<lparr>primaryIndex := (primaryIndex x)(mh \<mapsto> ?pv), uniqueSegmentNum := uniqueSegmentNum x + 1, totalSegmentNum := totalSegmentNum x + 1\<rparr>"
  have db: "indexStore (store s2) = indexStore (store s)" using d(6) nb(7) by (simp add: seg_same_def)
  have rp: "randPos (store s3) = randPos (store s2)" using w(2) by (simp add: same_containers_def)
  have "free_names C n s3"
    using nb(2,4) unfolding free_names_def w(7) rp bin_inv_def by blast
  then have "bin_inv C n s3" using nb(2) w(2,3,9) v3(3) by (simp add: bin_inv_def)
  moreover have rn: "ran (primaryIndex ?x) = insert ?pv (ran (primaryIndex x))" using mh by (simp add: ran_map_upd)
  moreover have "binID ?pv = u" by simp
  ultimately have inv: "extreme_inv C n (?x, s3)" using ids w(7) db unfolding extreme_inv_def fst_conv snd_conv rn by auto
  have old: "covers C s3 (binID pv) c" if "pv \<in> ran (primaryIndex x)" "covers C s (binID pv) c" for pv c
  proof -
    have "binID pv \<noteq> u" using that(1) ids nb(1) d(6) by (auto simp: seg_same_def)
    then show ?thesis using that(2) w(6) bin_at_same [OF db, of C] by (auto simp: covers_def)
  qed
  have new: "covers C s3 u cs" using w(4,5) d(7) unfolding covers_def by (intro exI [of _ items]) simp
  have "extreme_safe C (?x, s3) sgs"
    unfolding extreme_safe_def fst_conv snd_conv rn
  proof (intro conjI ballI impI)
    show "map (chunk_fp C) c1 = map (chunk_fp C) c2" if "c1 \<in> set sgs" "c2 \<in> set sgs" "seg_hash C c1 = seg_hash C c2" for c1 c2
      using sf that unfolding extreme_safe_def list.set by blast
    fix c pv
    assume c: "c \<in> set sgs" and pv: "pv \<in> insert ?pv (ran (primaryIndex x))" "segmentHash pv = seg_hash C c"
    show "covers C s3 (binID pv) c"
    proof (cases "pv = ?pv")
      case True
      then have "seg_hash C cs = seg_hash C c" using pv(2) by simp
      then have "map (chunk_fp C) cs = map (chunk_fp C) c" using sf c unfolding extreme_safe_def list.set by blast
      from covers_cong [OF this] new True show ?thesis by simp
    next
      case False
      then have "pv \<in> ran (primaryIndex x)" using pv(1) by blast
      moreover have "covers C s (binID pv) c"
        using sf c pv(2) calculation unfolding extreme_safe_def list.set fst_conv snd_conv by blast
      ultimately show ?thesis by (rule old)
    qed
  qed
  moreover have "recipe_holds C h0 s3 (as @ bs)"
    using d(4) w(8,9) nb(5,6) by (simp add: recipe_holds_def recipe_of_def recipe_rep_def)
  moreover have e3: "extends s1 s3" by (rule extends_trans [OF nb(3) v3(4)])
  moreover have "leads_to C s3 bs cs" by (rule leads_to_extends [OF d(5) e3])
  moreover have "extends s s3" using d(6) extends_trans [OF _ e3] by (simp add: seg_same_def)
  moreover have "Extreme_new C iter (map (meta_of C) cs) (seg_hash C cs) mh (x, s) = Inr (?x, s3)"
    using d(1) cu w(1) by (simp add: Extreme_new_def)
  moreover have "recvBuffer (sgx s3) = recvBuffer (sgx s)" "sessionKey (sgx s3) = sessionKey (sgx s)"
    using w(8) d(6) nb(5) by (simp_all add: seg_same_def)
  ultimately show ?thesis using inv unfolding segment_result_def by blast
qed

lemma Extreme_ProcessOneSegment_ok:
  assumes it: "iteration iter" and i: "extreme_inv C (3 * length cs + n) (x, s)" and sf: "extreme_safe C (x, s) (cs # sgs)"
    and rc: "recipe_holds C h0 s as" and h: "holds C (seg (sgx s)) cs" and ne: "cs \<noteq> []" and ok: "\<forall>d \<in> set cs. chunk_ok C d"
  shows "segment_result C h0 n sgs cs as s (Extreme_ProcessOneSegment C iter (x, s))"
proof -
  have C: "cfg_ok C" using i bin_inv_cfg by (auto simp: extreme_inv_def)
  have hh: "Ecall_GenerateHash (cfg_evp C) (cfg_tool C) (concat (map SegmentMeta_bytes (map (meta_of C) cs))) = Inr (seg_hash C cs)"
    "length (seg_hash C cs) = CHUNK_HASH_SIZE"
    using chunk_fp_eq [OF C] by (simp_all add: seg_hash_def)
  let ?mh = "take CHUNK_HASH_SIZE (minHash (seg (sgx s)))"
  show ?thesis
  proof (cases "primaryIndex x ?mh")
    case None
    from Extreme_new_ok [OF it i sf rc h ok ne None] hh None show ?thesis
      by (simp add: Extreme_ProcessOneSegment_def Let_def holds_metas [OF h])
  next
    case (Some pv)
    then have pv: "pv \<in> ran (primaryIndex x)" by (rule ranI)
    have "segment_result C h0 n sgs cs as s (Extreme_known C iter (map (meta_of C) cs) (seg_hash C cs) pv (x, s))"
      using Extreme_duplicate_ok [OF i sf rc pv] Extreme_different_ok [OF it i sf rc h ok pv] by blast
    with hh Some show ?thesis by (simp add: Extreme_ProcessOneSegment_def Let_def holds_metas [OF h])
  qed
qed

lemma update_min_holds: "holds C (update_min hv h sg) cs = holds C sg cs"
  by (simp add: update_min_def holds_def)

section \<open>The index\<close>

definition extreme_ok :: "enclave_cfg \<Rightarrow> ((bytes \<times> bytes) list \<Rightarrow> (bytes \<times> bytes) list) \<Rightarrow> nat \<Rightarrow> extreme_index \<times> up_state \<Rightarrow> bool" where
  "extreme_ok C iter n st \<longleftrightarrow> iteration iter \<and> extreme_inv C n st"

interpretation extreme: segment_index C h0 "extreme_ok C iter" "extreme_safe C" update_min "Extreme_ProcessOneSegment C iter"
  for C h0 iter
proof unfold_locales
  fix cs n x s sgs as ds
  assume a: "extreme_ok C iter (3 * length cs + n) (x, s)" "extreme_safe C (x, s) (cs # sgs)" "recipe_holds C h0 s as"
    "leads_to C s as ds" "holds C (seg (sgx s)) cs" "cs \<noteq> []" "\<forall>d \<in> set cs. chunk_ok C d"
  then have "iteration iter" "extreme_inv C (3 * length cs + n) (x, s)" by (simp_all add: extreme_ok_def)
  from Extreme_ProcessOneSegment_ok [OF this a(2,3,5-7)] obtain x' s' bs where
    r: "Extreme_ProcessOneSegment C iter (x, s) = Inr (x', s')" "extreme_inv C n (x', s')" "extreme_safe C (x', s') sgs"
      "recipe_holds C h0 s' (as @ bs)" "leads_to C s' bs cs" "extends s s'"
      "recvBuffer (sgx s') = recvBuffer (sgx s)" "sessionKey (sgx s') = sessionKey (sgx s)"
    unfolding segment_result_def by blast
  have "leads_to C s' (as @ bs) (ds @ cs)" by (rule leads_to_append [OF leads_to_extends [OF a(4) r(6)] r(5)])
  with r \<open>iteration iter\<close> show "\<exists>x' s' bs. Extreme_ProcessOneSegment C iter (x, s) = Inr (x', s') \<and> extreme_ok C iter n (x', s') \<and>
      extreme_safe C (x', s') sgs \<and> recipe_holds C h0 s' (as @ bs) \<and> leads_to C s' (as @ bs) (ds @ cs) \<and>
      recvBuffer (sgx s') = recvBuffer (sgx s) \<and> sessionKey (sgx s') = sessionKey (sgx s) \<and> extends s s'"
    unfolding extreme_ok_def by blast
qed (simp_all add: update_min_holds extreme_ok_def extreme_same_inv extreme_same_safe, simp_all add: extreme_inv_def bin_inv_def)

end
