(* ===== verification/Sparse.thy ===== *)
theory Sparse
  imports BinStore "HOL-Library.AList" "HOL-Library.List_Lexorder"
begin

text \<open>
  \<open>EcallSparseIndex\<close> (\<open>ecallIndex/ecallSparse.cc\<close>): some fingerprints are hooks; the enclave keeps for every
  hook the names of the last manifests of segments that had it. A new segment is deduplicated against
  the manifests that share most hooks with it, its champions.
\<close>

section \<open>Operations\<close>

record sparse_index =
  hookIndex :: "bytes \<rightharpoonup> bytes list"
  sparseSegmentNum :: u64

definition EcallSparseIndex_new :: sparse_index where
  "EcallSparseIndex_new = \<lparr>hookIndex = Map.empty, sparseSegmentNum = 0\<rparr>"

text \<open>A hook has zeros in its first \<open>SPARSE_SAMPLE_RATE\<close> bits; the loop tests them one by one.\<close>

primrec IsHook_loop :: "nat \<Rightarrow> bytes \<Rightarrow> nat \<Rightarrow> nat \<Rightarrow> bool" where
  "IsHook_loop 0 fp currentByte maskBit = True"
| "IsHook_loop (Suc n) fp currentByte maskBit =
     (if (fp ! currentByte) AND push_bit (8 - maskBit) 1 \<noteq> 0 then False
      else if maskBit + 1 = 9 then IsHook_loop n fp (currentByte + 1) 1
      else IsHook_loop n fp currentByte (maskBit + 1))"

definition IsHook :: "bytes \<Rightarrow> bool" where
  "IsHook chunkFp = IsHook_loop SPARSE_SAMPLE_RATE chunkFp 0 1"

text \<open>\<open>std::set\<close> keeps its strings in order.\<close>

definition hook_set :: "(u32 \<times> bytes) list \<Rightarrow> bytes list" where
  "hook_set metas =
     foldl (\<lambda>hs m. if IsHook (snd m) then insort_insert (take CHUNK_HASH_SIZE (snd m)) hs else hs) [] metas"

definition UpdateCandidateList :: "bytes list \<Rightarrow> (bytes \<times> u32) list \<Rightarrow> (bytes \<times> u32) list" where
  "UpdateCandidateList inputSet candidates =
     foldl (\<lambda>c m. case map_of c m of Some n \<Rightarrow> AList.update m (n + 1) c | None \<Rightarrow> um_insert m 1 c) candidates inputSet"

definition candidate_segments :: "(bytes \<rightharpoonup> bytes list) \<Rightarrow> bytes list \<Rightarrow> (bytes \<times> u32) list" where
  "candidate_segments H hooks =
     foldl (\<lambda>c h. case H h of Some l \<Rightarrow> UpdateCandidateList l c | None \<Rightarrow> c) [] hooks"

definition LoadManifiest :: "enclave_cfg \<Rightarrow> bytes \<Rightarrow> (bytes \<times> bytes) list \<times> up_state \<Rightarrow> ((bytes \<times> bytes) list \<times> up_state) res" where
  "LoadManifiest C segmentID ts =
     rbind (FetchBin C segmentID (fst ts) (snd ts)) (\<lambda>(status, tmp, s).
       if \<not> status then Inl (ProcExit ''EcallSparseIndex: cannot find the manifest in the manifest store.'') else Inr (tmp, s))"

text \<open>
  \<open>iter\<close> is the order in which the candidates are traversed and \<open>srt\<close> is \<open>std::sort\<close> with the comparison
  \<open>Cmp\<close>, whose order of equal elements is not specified.
\<close>

definition sorts_by_count :: "((bytes \<times> u32) list \<Rightarrow> (bytes \<times> u32) list) \<Rightarrow> bool" where
  "sorts_by_count srt \<longleftrightarrow> (\<forall>l. mset (srt l) = mset l \<and> sorted_wrt (\<lambda>a b. snd b \<le> snd a) (srt l))"

definition champions ::
  "((bytes \<times> u32) list \<Rightarrow> (bytes \<times> u32) list) \<Rightarrow> ((bytes \<times> u32) list \<Rightarrow> (bytes \<times> u32) list) \<Rightarrow> (bytes \<times> u32) list \<Rightarrow> bytes list" where
  "champions iter srt candidates =
     (if candidates = [] then []
      else if SPARSE_CHAMPION_NUM > length candidates then map fst (iter candidates)
      else map fst (take SPARSE_CHAMPION_NUM (srt (iter candidates))))"

definition FindChampionSegment ::
  "enclave_cfg \<Rightarrow> ((bytes \<times> u32) list \<Rightarrow> (bytes \<times> u32) list) \<Rightarrow> ((bytes \<times> u32) list \<Rightarrow> (bytes \<times> u32) list) \<Rightarrow> (bytes \<times> u32) list \<Rightarrow>
   (bytes \<times> bytes) list \<Rightarrow> up_state \<Rightarrow> ((bytes \<times> bytes) list \<times> up_state) res" where
  "FindChampionSegment C iter srt candidates tmp s = rfold (LoadManifiest C) (champions iter srt candidates) (tmp, s)"

definition UpdateManifiestStore :: "enclave_cfg \<Rightarrow> bytes \<Rightarrow> (bytes \<times> bytes) list \<Rightarrow> up_state \<Rightarrow> up_state res" where
  "UpdateManifiestStore C manifestID items s =
     rbind (write_bin C manifestID items s) (\<lambda>(status, s').
       if \<not> status then Inl (ProcExit ''EcallSparseIndex: cannot update the manifest store.'') else Inr s')"

text \<open>A hook keeps its \<open>SPARSE_MANIFIEST_CAP_NUM\<close> newest manifests.\<close>

definition UpdateHookIndex :: "bytes \<Rightarrow> bytes list \<Rightarrow> (bytes \<rightharpoonup> bytes list) \<Rightarrow> (bytes \<rightharpoonup> bytes list)" where
  "UpdateHookIndex manifest hooks H =
     foldl (\<lambda>H h. case H h of
               Some l \<Rightarrow> H(h \<mapsto> (if length l < SPARSE_MANIFIEST_CAP_NUM then l @ [manifest] else tl l @ [manifest]))
             | None \<Rightarrow> H(h \<mapsto> [manifest])) H hooks"

definition Sparse_ProcessOneSegment ::
  "enclave_cfg \<Rightarrow> ((bytes \<times> u32) list \<Rightarrow> (bytes \<times> u32) list) \<Rightarrow> ((bytes \<times> u32) list \<Rightarrow> (bytes \<times> u32) list) \<Rightarrow>
   sparse_index \<times> up_state \<Rightarrow> (sparse_index \<times> up_state) res" where
  "Sparse_ProcessOneSegment C iter srt st =
     (let (x, s) = st; sg = seg (sgx s); metas = take (unat (seg_chunkNum sg)) (seg_metadata sg); hooks = hook_set metas in
      rbind (FindChampionSegment C iter srt (candidate_segments (hookIndex x) hooks) [] s) (\<lambda>(tmp, s1).
      rbind (dedup_segment C sg metas tmp s1) (\<lambda>(rs, tmp', s2).
        if \<exists>r \<in> set rs. snd r then
          let (u, s3) = Ocall_CreateUUID C SEGMENT_ID_LENGTH s2 in
          rbind (UpdateManifiestStore C u (zip (map (\<lambda>m. take CHUNK_HASH_SIZE (snd m)) metas) (map fst rs)) s3) (\<lambda>s4.
            Inr (x\<lparr>hookIndex := UpdateHookIndex u hooks (hookIndex x), sparseSegmentNum := sparseSegmentNum x + 1\<rparr>, s4))
        else Inr (x\<lparr>sparseSegmentNum := sparseSegmentNum x + 1\<rparr>, s2))))"

definition Sparse_ProcessOneBatch ::
  "enclave_cfg \<Rightarrow> ((bytes \<times> u32) list \<Rightarrow> (bytes \<times> u32) list) \<Rightarrow> ((bytes \<times> u32) list \<Rightarrow> (bytes \<times> u32) list) \<Rightarrow>
   net_msg \<Rightarrow> sparse_index \<times> up_state \<Rightarrow> (sparse_index \<times> up_state) res" where
  "Sparse_ProcessOneBatch C iter srt = segment_batch C keep_min (Sparse_ProcessOneSegment C iter srt)"

definition Sparse_ProcessTailBatch ::
  "enclave_cfg \<Rightarrow> ((bytes \<times> u32) list \<Rightarrow> (bytes \<times> u32) list) \<Rightarrow> ((bytes \<times> u32) list \<Rightarrow> (bytes \<times> u32) list) \<Rightarrow>
   sparse_index \<times> up_state \<Rightarrow> (sparse_index \<times> up_state) res" where
  "Sparse_ProcessTailBatch C iter srt = segment_tail C (Sparse_ProcessOneSegment C iter srt)"

section \<open>Candidates and champions\<close>

lemma UpdateCandidateList_keys: "fst ` set (UpdateCandidateList l c) = fst ` set c \<union> set l"
  unfolding UpdateCandidateList_def
proof (induction l arbitrary: c)
  case Nil
  then show ?case by simp
next
  case (Cons m l)
  have "fst ` set (case map_of c m of Some n \<Rightarrow> AList.update m (n + 1) c | None \<Rightarrow> um_insert m 1 c) = insert m (fst ` set c)"
    by (simp add: um_insert_keys dom_update split: option.split)
  with Cons show ?case by simp
qed

lemma candidate_keys:
  "fst ` set (foldl (\<lambda>c h. case H h of Some l \<Rightarrow> UpdateCandidateList l c | None \<Rightarrow> c) c hooks) \<subseteq> fst ` set c \<union> \<Union> (set ` ran H)"
proof (induction hooks arbitrary: c)
  case Nil
  then show ?case by simp
next
  case (Cons h hooks)
  let ?c = "case H h of Some l \<Rightarrow> UpdateCandidateList l c | None \<Rightarrow> c"
  have "fst ` set ?c \<subseteq> fst ` set c \<union> \<Union> (set ` ran H)"
    by (auto simp: UpdateCandidateList_keys ranI split: option.split)
  with Cons.IH [of ?c] show ?case by (simp add: subset_iff) blast
qed

lemma champions_subset:
  assumes "iteration iter" and "sorts_by_count srt"
  shows "set (champions iter srt c) \<subseteq> fst ` set c"
proof -
  have "set (srt l) = set l" for l using assms(2) unfolding sorts_by_count_def by (metis set_mset_mset)
  then have "set (take k (srt (iter c))) \<subseteq> set c" for k using iteration_set [OF assms(1)] set_take_subset by metis
  then show ?thesis using iteration_set [OF assms(1)] by (auto simp: champions_def)
qed

section \<open>Correctness of a segment\<close>

definition hooks_ok :: "(bytes \<rightharpoonup> bytes list) \<Rightarrow> bytes set \<Rightarrow> bool" where
  "hooks_ok H names \<longleftrightarrow> (\<forall>l \<in> ran H. set l \<subseteq> names \<and> l \<noteq> [] \<and> length l \<le> SPARSE_MANIFIEST_CAP_NUM)"

lemma hooks_ok_empty [simp]: "hooks_ok Map.empty names"
  by (simp add: hooks_ok_def)

lemma UpdateHookIndex_ok: "hooks_ok H names \<Longrightarrow> hooks_ok (UpdateHookIndex u hooks H) (insert u names)"
  unfolding UpdateHookIndex_def
proof (induction hooks arbitrary: H names)
  case Nil
  then show ?case by (auto simp: hooks_ok_def)
next
  case (Cons h hooks)
  let ?H = "case H h of Some l \<Rightarrow> H(h \<mapsto> (if length l < SPARSE_MANIFIEST_CAP_NUM then l @ [u] else tl l @ [u]))
      | None \<Rightarrow> H(h \<mapsto> [u])"
  have "hooks_ok ?H (insert u names)"
  proof (cases "H h")
    case None
    have "\<forall>l \<in> ran H. set l \<subseteq> insert u names \<and> l \<noteq> [] \<and> length l \<le> SPARSE_MANIFIEST_CAP_NUM"
      using Cons.prems by (auto simp: hooks_ok_def)
    then show ?thesis using None unfolding hooks_ok_def by (simp add: ran_map_upd const_defs)
  next
    case (Some l)
    let ?l = "if length l < SPARSE_MANIFIEST_CAP_NUM then l @ [u] else tl l @ [u]"
    have l: "set l \<subseteq> names" "l \<noteq> []" "length l \<le> SPARSE_MANIFIEST_CAP_NUM" using Cons.prems Some by (auto simp: hooks_ok_def ran_def)
    have "set (tl l) \<subseteq> set l" by (cases l) auto
    with l have "set ?l \<subseteq> insert u names \<and> ?l \<noteq> [] \<and> length ?l \<le> SPARSE_MANIFIEST_CAP_NUM"
      by (auto simp: const_defs)
    moreover have "\<forall>l \<in> ran H. set l \<subseteq> insert u names \<and> l \<noteq> [] \<and> length l \<le> SPARSE_MANIFIEST_CAP_NUM"
      using Cons.prems by (auto simp: hooks_ok_def)
    ultimately have "\<forall>l \<in> ran (H(h \<mapsto> ?l)). set l \<subseteq> insert u names \<and> l \<noteq> [] \<and> length l \<le> SPARSE_MANIFIEST_CAP_NUM"
      by (intro ran_upd_ball) auto
    with Some show ?thesis by (simp add: hooks_ok_def)
  qed
  from Cons.IH [OF this] show ?case by simp
qed

definition sparse_inv :: "enclave_cfg \<Rightarrow> nat \<Rightarrow> sparse_index \<times> up_state \<Rightarrow> bool" where
  "sparse_inv C n st \<longleftrightarrow> bin_inv C n (snd st) \<and> hooks_ok (hookIndex (fst st)) (dom (indexStore (store (snd st))))"

text \<open>Loading manifests only fills the deduplication index.\<close>

lemma LoadManifiests_ok:
  assumes "bin_inv C n s" and "set ids \<subseteq> dom (indexStore (store s))" and "sound_items C s tmp"
  shows "\<exists>tmp' s'. rfold (LoadManifiest C) ids (tmp, s) = Inr (tmp', s') \<and> sound_items C s' tmp' \<and> same_index s s' \<and> sgx s' = sgx s"
  using assms
proof (induction ids arbitrary: s tmp)
  case Nil
  then show ?case by (simp add: same_index_def same_containers_def)
next
  case (Cons k ids)
  have "store_bins C s" "k \<in> dom (indexStore (store s))" using Cons.prems(1,2) by (simp_all add: bin_inv_def)
  then obtain items where it: "bin_at C s k items" "sound_items C s items" unfolding store_bins_def by blast
  let ?t = "foldl (\<lambda>m (k, v). um_insert k v m) tmp items"
  let ?s = "s\<lparr>outc := (outc s)\<lparr>tmpQueryBufferStr := the (indexStore (store s) k)\<rparr>\<rparr>"
  have si: "same_index s ?s" by (simp add: same_index_def same_containers_def)
  have "sound_items C s ?t"
    using load_items_set(2) [of tmp items] it(2) Cons.prems(3) unfolding sound_items_def by blast
  then have t: "sound_items C ?s ?t"
    using sound_items_extends same_containers_views(4) [of s ?s] by (simp add: same_containers_def)
  have "bin_inv C n ?s" "set ids \<subseteq> dom (indexStore (store ?s))" using Cons.prems(1,2) bin_inv_same [OF si, of C n] by simp_all
  from Cons.IH [OF this t] obtain tmp' s' where
    r: "rfold (LoadManifiest C) ids (?t, ?s) = Inr (tmp', s')" "sound_items C s' tmp'" "same_index ?s s'" "sgx s' = sgx ?s" by blast
  have "LoadManifiest C k (tmp, s) = Inr (?t, ?s)"
    using FetchBin_ok [OF bin_inv_cfg [OF Cons.prems(1)] it(1)] by (simp add: LoadManifiest_def)
  with r si show ?case using same_index_trans by auto
qed

lemma manifest_sound:
  assumes "cfg_ok C" and "leads_to C s bs cs" and "map fst rs = map RecipeEntry_bytes bs"
  shows "sound_items C s (zip (map (\<lambda>m. take CHUNK_HASH_SIZE (snd m)) (map (meta_of C) cs)) (map fst rs))"
  unfolding sound_items_def
proof (clarify)
  fix fp ab
  assume a: "(fp, ab) \<in> set (zip (map (\<lambda>m. take CHUNK_HASH_SIZE (snd m)) (map (meta_of C) cs)) (map fst rs))"
  have l: "length bs = length cs" using assms(2) by (simp add: leads_to_def list_all2_lengthD)
  from a obtain i where i: "i < length cs" "i < length bs" "fp = chunk_fp C (cs ! i)" "ab = RecipeEntry_bytes (bs ! i)"
    unfolding assms(3) using chunk_fp_eq(2) [OF assms(1)] l by (auto simp: in_set_zip meta_of_def)
  then have "wf_entry (bs ! i) \<and> (\<exists>d'. resolve C s (bs ! i) = Some d' \<and> chunk_fp C d' = chunk_fp C (cs ! i))"
    using assms(2) by (simp add: leads_to_def list_all2_conv_all_nth)
  then show "length fp = CHUNK_HASH_SIZE \<and> (\<exists>a d. wf_entry a \<and> ab = RecipeEntry_bytes a \<and> resolve C s a = Some d \<and> chunk_fp C d = fp)"
    using i chunk_fp_eq(2) [OF assms(1)] by auto
qed

lemma Sparse_ProcessOneSegment_ok:
  assumes it: "iteration iter" "sorts_by_count srt" and i: "sparse_inv C (3 * length cs + n) (x, s)" and rc: "recipe_holds C h0 s as"
    and h: "holds C (seg (sgx s)) cs" and ne: "cs \<noteq> []" and ok: "\<forall>d \<in> set cs. chunk_ok C d"
  shows "\<exists>x' s' bs. Sparse_ProcessOneSegment C iter srt (x, s) = Inr (x', s') \<and> sparse_inv C n (x', s') \<and>
     recipe_holds C h0 s' (as @ bs) \<and> leads_to C s' bs cs \<and> extends s s' \<and>
     recvBuffer (sgx s') = recvBuffer (sgx s) \<and> sessionKey (sgx s') = sessionKey (sgx s)"
proof -
  let ?H = "hookIndex x" and ?hooks = "hook_set (map (meta_of C) cs)" and ?sg = "seg (sgx s)"
  let ?cand = "candidate_segments ?H ?hooks"
  have b: "bin_inv C (3 * length cs + n) s" and ho: "hooks_ok ?H (dom (indexStore (store s)))" using i by (simp_all add: sparse_inv_def)
  note C = bin_inv_cfg [OF b]
  have "\<Union> (set ` ran ?H) \<subseteq> dom (indexStore (store s))" using ho by (auto simp: hooks_ok_def)
  then have ch: "set (champions iter srt ?cand) \<subseteq> dom (indexStore (store s))"
    using champions_subset [OF it, of ?cand] candidate_keys [of ?H "[]" ?hooks] by (auto simp: candidate_segments_def)
  have "sound_items C s []" by (simp add: sound_items_def)
  from LoadManifiests_ok [OF b ch this] obtain tmp s1 where
    l: "FindChampionSegment C iter srt ?cand [] s = Inr (tmp, s1)" "sound_items C s1 tmp" "same_index s s1" "sgx s1 = sgx s"
    by (auto simp: FindChampionSegment_def)
  have db1: "indexStore (store s1) = indexStore (store s)" using l(3) by (simp add: same_index_def)
  have sz: "3 * length cs + n = (2 * length cs - 2) + (length cs + Suc (Suc n))" using ne by (cases cs) simp_all
  have b1: "bin_inv C (length cs + Suc (Suc n)) s1"
    using b unfolding sz bin_inv_same [OF l(3), symmetric] by (rule bin_inv_mono)
  have rc1: "recipe_holds C h0 s1 as" using rc by (simp add: same_index_views(1) [OF l(3)])
  obtain rs bs tmp' s2 where
    d: "dedup_segment C ?sg (map (meta_of C) cs) tmp s1 = Inr (rs, tmp', s2)" "map fst rs = map RecipeEntry_bytes bs"
      "bin_inv C (Suc (Suc n)) s2" "recipe_holds C h0 s2 (as @ bs)" "leads_to C s2 bs cs" "seg_same s1 s2"
    using dedup_segment_ok [OF b1 l(2) rc1 ok h] by (elim exE conjE) (rule that; assumption)
  have db2: "indexStore (store s2) = indexStore (store s)" using d(6) db1 by (simp add: seg_same_def)
  have e1: "extends s s1" using l(3) same_containers_views(4) by (simp add: same_index_def)
  have e2: "extends s s2" using extends_trans [OF e1] d(6) by (simp add: seg_same_def)
  have k2: "recvBuffer (sgx s2) = recvBuffer (sgx s)" "sessionKey (sgx s2) = sessionKey (sgx s)"
    using d(6) l(4) by (simp_all add: seg_same_def)
  note hm = holds_metas [OF h]
  show ?thesis
  proof (cases "\<exists>r \<in> set rs. snd r")
    case False
    let ?x = "x\<lparr>sparseSegmentNum := sparseSegmentNum x + 1\<rparr>"
    have "bin_inv C n s2" using d(3) bin_inv_mono [of C 2 n s2] by (simp add: numeral_eq_Suc)
    then have "sparse_inv C n (?x, s2)" using ho db2 by (simp add: sparse_inv_def)
    moreover have "Sparse_ProcessOneSegment C iter srt (x, s) = Inr (?x, s2)"
      using l(1) d(1) False by (simp add: Sparse_ProcessOneSegment_def Let_def hm)
    ultimately show ?thesis using d(4,5) e2 k2 by blast
  next
    case True
    obtain u s3 where cu: "Ocall_CreateUUID C SEGMENT_ID_LENGTH s2 = (u, s3)" by (cases "Ocall_CreateUUID C SEGMENT_ID_LENGTH s2")
    note nb = new_bin_name [OF d(3) cu]
    let ?items = "zip (map (\<lambda>m. take CHUNK_HASH_SIZE (snd m)) (map (meta_of C) cs)) (map fst rs)"
    have si: "sound_items C s3 ?items" by (rule sound_items_extends [OF manifest_sound [OF C d(5,2)] nb(3)])
    have sb: "store_bins C s3" using nb(2) by (simp add: bin_inv_def)
    obtain s4 where w: "write_bin C u ?items s3 = Inr (True, s4)" "same_containers s3 s4" "store_bins C s4"
        "dom (indexStore (store s4)) = insert u (dom (indexStore (store s3)))" "sgx s4 = sgx s3" "outc s4 = outc s3"
      using write_bin_ok [OF C sb si, of u] by (elim exE conjE) (rule that; assumption)
    note v4 = same_containers_views [OF w(2)]
    let ?x = "x\<lparr>hookIndex := UpdateHookIndex u ?hooks ?H, sparseSegmentNum := sparseSegmentNum x + 1\<rparr>"
    have rp: "randPos (store s4) = randPos (store s3)" using w(2) by (simp add: same_containers_def)
    have "free_names C n s4" using nb(2,4) unfolding free_names_def w(4) rp bin_inv_def by blast
    then have "bin_inv C n s4" using nb(2) w(3,6) v4(3) by (simp add: bin_inv_def)
    moreover have "hooks_ok (UpdateHookIndex u ?hooks ?H) (dom (indexStore (store s4)))"
      using UpdateHookIndex_ok [OF ho] w(4) nb(7) db2 by simp
    ultimately have "sparse_inv C n (?x, s4)" by (simp add: sparse_inv_def)
    moreover have "Sparse_ProcessOneSegment C iter srt (x, s) = Inr (?x, s4)"
      using l(1) d(1) True cu w(1) by (simp add: Sparse_ProcessOneSegment_def Let_def hm UpdateManifiestStore_def)
    moreover have "recipe_holds C h0 s4 (as @ bs)"
      using d(4) w(5,6) nb(5,6) by (simp add: recipe_holds_def recipe_of_def recipe_rep_def)
    moreover have e4: "extends s2 s4" by (rule extends_trans [OF nb(3) v4(4)])
    moreover have "leads_to C s4 bs cs" by (rule leads_to_extends [OF d(5) e4])
    moreover have "extends s s4" by (rule extends_trans [OF e2 e4])
    moreover have "recvBuffer (sgx s4) = recvBuffer (sgx s)" "sessionKey (sgx s4) = sessionKey (sgx s)"
      using w(5) nb(5) k2 by simp_all
    ultimately show ?thesis by blast
  qed
qed

lemma sparse_same_inv: "same_index s s' \<Longrightarrow> sparse_inv C n (x, s') = sparse_inv C n (x, s)"
proof -
  assume a: "same_index s s'"
  then have "indexStore (store s') = indexStore (store s)" by (simp add: same_index_def)
  then show ?thesis by (simp add: sparse_inv_def bin_inv_same [OF a])
qed

section \<open>The index\<close>

definition sparse_ok ::
  "enclave_cfg \<Rightarrow> ((bytes \<times> u32) list \<Rightarrow> (bytes \<times> u32) list) \<Rightarrow> ((bytes \<times> u32) list \<Rightarrow> (bytes \<times> u32) list) \<Rightarrow> nat \<Rightarrow> sparse_index \<times> up_state \<Rightarrow> bool" where
  "sparse_ok C iter srt n st \<longleftrightarrow> iteration iter \<and> sorts_by_count srt \<and> sparse_inv C n st"

interpretation sparse: segment_index C h0 "sparse_ok C iter srt" "\<lambda>st sgs. True" keep_min "Sparse_ProcessOneSegment C iter srt"
  for C h0 iter srt
proof unfold_locales
  fix cs n x s and sgs :: "bytes list list" and as ds
  assume a: "sparse_ok C iter srt (3 * length cs + n) (x, s)" "recipe_holds C h0 s as"
    "leads_to C s as ds" "holds C (seg (sgx s)) cs" "cs \<noteq> []" "\<forall>d \<in> set cs. chunk_ok C d"
  then have p: "iteration iter" "sorts_by_count srt" "sparse_inv C (3 * length cs + n) (x, s)" by (simp_all add: sparse_ok_def)
  from Sparse_ProcessOneSegment_ok [OF p a(2,4-6)] obtain x' s' bs where
    r: "Sparse_ProcessOneSegment C iter srt (x, s) = Inr (x', s')" "sparse_inv C n (x', s')"
      "recipe_holds C h0 s' (as @ bs)" "leads_to C s' bs cs" "extends s s'"
      "recvBuffer (sgx s') = recvBuffer (sgx s)" "sessionKey (sgx s') = sessionKey (sgx s)"
    by blast
  have "leads_to C s' (as @ bs) (ds @ cs)" by (rule leads_to_append [OF leads_to_extends [OF a(3) r(5)] r(4)])
  with r p(1,2) show "\<exists>x' s' bs. Sparse_ProcessOneSegment C iter srt (x, s) = Inr (x', s') \<and> sparse_ok C iter srt n (x', s') \<and>
      True \<and> recipe_holds C h0 s' (as @ bs) \<and> leads_to C s' (as @ bs) (ds @ cs) \<and>
      recvBuffer (sgx s') = recvBuffer (sgx s) \<and> sessionKey (sgx s') = sessionKey (sgx s) \<and> extends s s'"
    unfolding sparse_ok_def by blast
qed (simp_all add: keep_min_def sparse_ok_def sparse_same_inv, simp_all add: sparse_inv_def bin_inv_def)

section \<open>Properties\<close>

definition count_value :: "nat \<Rightarrow> u32 option" where
  "count_value n = (if n = 0 then None else Some (of_nat n))"

lemma UpdateCandidateList_counts:
  assumes "\<And>m. map_of c m = count_value (f m)"
  shows "map_of (UpdateCandidateList l c) m = count_value (f m + count_list l m)"
  using assms unfolding UpdateCandidateList_def
proof (induction l arbitrary: c f)
  case Nil
  then show ?case by simp
next
  case (Cons k l)
  let ?c = "case map_of c k of Some n \<Rightarrow> AList.update k (n + 1) c | None \<Rightarrow> um_insert k 1 c"
  have "map_of ?c m = count_value ((f(k := Suc (f k))) m)" for m
  proof (cases "f k = 0")
    case True
    then have "map_of c k = None" using Cons.prems by (simp add: count_value_def)
    then show ?thesis using Cons.prems [of m] True by (auto simp: um_insert_def count_value_def map_add_def split: option.splits)
  next
    case False
    then have "map_of c k = Some (of_nat (f k))" using Cons.prems by (simp add: count_value_def)
    then show ?thesis using Cons.prems [of m] False by (simp add: update_conv count_value_def algebra_simps)
  qed
  from Cons.IH [of ?c, OF this] show ?case by simp
qed

text \<open>
  The table of candidates counts: after the loop over the hooks of a segment, a manifest is in the
  table exactly when a hook of the segment lists it, with the number of times that the hooks list it.
\<close>

theorem candidate_segments_count:
  "map_of (candidate_segments H hooks) m =
     count_value (count_list (concat (map (\<lambda>h. case H h of Some l \<Rightarrow> l | None \<Rightarrow> []) hooks)) m)"
proof -
  let ?l = "\<lambda>h. case H h of Some l \<Rightarrow> l | None \<Rightarrow> []"
  let ?f = "\<lambda>c h. case H h of Some l \<Rightarrow> UpdateCandidateList l c | None \<Rightarrow> c"
  have step: "?f c h = UpdateCandidateList (?l h) c" for c h
    by (simp add: UpdateCandidateList_def split: option.split)
  have "map_of (foldl ?f c hooks) m = count_value (f m + count_list (concat (map ?l hooks)) m)"
    if "\<And>m. map_of c m = count_value (f m)" for c f
    using that
  proof (induction hooks arbitrary: c f)
    case Nil
    then show ?case by simp
  next
    case (Cons h hooks)
    have "map_of (?f c h) m = count_value (f m + count_list (?l h) m)" for m
      unfolding step by (rule UpdateCandidateList_counts [OF Cons.prems])
    from Cons.IH [OF this] show ?case by (simp add: add.assoc)
  qed
  from this [of "[]" "\<lambda>m. 0"] show ?thesis by (simp add: candidate_segments_def count_value_def)
qed


text \<open>Sorting by insertion is one way to sort.\<close>

definition sort_by_count :: "(bytes \<times> u32) list \<Rightarrow> (bytes \<times> u32) list" where
  "sort_by_count l = rev (sort_key snd l)"

lemma sort_by_count_sorts: "sorts_by_count sort_by_count"
  unfolding sorts_by_count_def
proof (intro allI conjI)
  fix l :: "(bytes \<times> u32) list"
  show "mset (sort_by_count l) = mset l" by (simp add: sort_by_count_def)
  have "sorted (map snd (sort_key snd l))" by simp
  then have "sorted_wrt (\<lambda>a b. snd a \<le> snd b) (sort_key snd l)" by (simp add: sorted_wrt_map)
  then show "sorted_wrt (\<lambda>a b. snd b \<le> snd a) (sort_by_count l)" by (simp add: sort_by_count_def sorted_wrt_rev)
qed

lemma iteration_id: "iteration (\<lambda>l. l)"
  by (simp add: iteration_def)

definition sample_candidates :: "(bytes \<times> u32) list" where
  "sample_candidates = map (\<lambda>i. ([of_nat i], if i = 3 then 1 else 2)) [0..<11]"


text \<open>
  The loop over the bits of a fingerprint finds the hooks: a fingerprint is a hook exactly when its
  first byte is less than four, which one in 64 is.
\<close>

theorem IsHook_first_byte: "IsHook fp \<longleftrightarrow> unat (fp ! 0) < 4"
proof -
  let ?w = "fp ! 0"
  have all8: "(\<forall>n < 8. Q n) \<longleftrightarrow> Q 0 \<and> Q 1 \<and> Q 2 \<and> Q 3 \<and> Q 4 \<and> Q 5 \<and> Q 6 \<and> Q 7" for Q :: "nat \<Rightarrow> bool"
    by (simp add: numeral_eq_Suc All_less_Suc) blast
  have "IsHook fp \<longleftrightarrow> (\<forall>i \<in> {2, 3, 4, 5, 6, 7}. \<not> bit ?w i)"
    by (auto simp: IsHook_def const_defs numeral_eq_Suc push_bit_eq_mult and_exp_eq_0_iff_not_bit [of ?w, symmetric])
  also have "\<dots> \<longleftrightarrow> take_bit 2 ?w = ?w"
    by (auto simp: bit_eq_iff bit_take_bit_iff all8)
  also have "\<dots> \<longleftrightarrow> unat ?w < 4"
    by (simp add: word_unat_eq_iff unsigned_take_bit_eq take_bit_nat_eq_self_iff)
  finally show ?thesis .
qed

end
