(* ===== verification/SegmentSeal.thy ===== *)
theory SegmentSeal
  imports Extreme Sparse
begin

text \<open>
  Sealing of the two near-exact indexes: \<open>PersistPrimaryIndex\<close> and \<open>LoadPrimaryIndex\<close> of
  \<open>ecallExtreme.cc\<close>, \<open>PersistHookIndex\<close> and \<open>LoadHookIndex\<close> of \<open>ecallSparse.cc\<close>. Both write the index to
  one buffer, whose size they compute in 32 bits, and the buffer to one file; an empty index is not
  written. The iteration order of the hash map is the order of the list \<open>items\<close>.
\<close>

section \<open>Whole files\<close>

definition seal_read :: "string \<Rightarrow> bytes \<Rightarrow> sealed_io \<Rightarrow> bytes option \<times> sealed_io" where
  "seal_read name junk io =
     (let (sealedDataSize, io1) = Ocall_InitReadSealedFile name io in
      if sealedDataSize = 0 then (None, io1)
      else let (b, io2) = ReadFileToBuffer sealedDataSize junk io1 in (Some b, Ocall_CloseReadSealedFile io2))"

lemma seal_read_file:
  assumes "rd io = None" and "files io name = Some b" and "b \<noteq> []"
  shows "seal_read name junk io = (Some b, io)"
proof -
  have "ReadFileToBuffer (length b) junk (io\<lparr>rd := Some (b, 0, False)\<rparr>) = (b, io\<lparr>rd := Some (b, length b, False)\<rparr>)"
    using ReadFileToBuffer_full [of "io\<lparr>rd := Some (b, 0, False)\<rparr>" b 0 "length b" junk] by simp
  moreover have "io\<lparr>rd := None\<rparr> = io" using assms(1) by (cases io) simp
  ultimately show ?thesis
    using assms by (simp add: seal_read_def Ocall_InitReadSealedFile_def Ocall_CloseReadSealedFile_def)
qed

section \<open>The primary index\<close>

definition SEALED_PRIMAR_INDEX :: string where
  "SEALED_PRIMAR_INDEX = ''primary-seal-index''"

definition PrimaryValue_size :: nat where
  "PrimaryValue_size = CHUNK_HASH_SIZE + SEGMENT_ID_LENGTH"

definition PrimaryValue_bytes :: "primary_value \<Rightarrow> bytes" where
  "PrimaryValue_bytes pv = take CHUNK_HASH_SIZE (segmentHash pv) @ take SEGMENT_ID_LENGTH (binID pv)"

definition PrimaryValue_of_bytes :: "bytes \<Rightarrow> primary_value" where
  "PrimaryValue_of_bytes b = \<lparr>segmentHash = read_at b 0 CHUNK_HASH_SIZE, binID = read_at b CHUNK_HASH_SIZE SEGMENT_ID_LENGTH\<rparr>"

definition primary_item_size :: nat where
  "primary_item_size = CHUNK_HASH_SIZE + PrimaryValue_size"

definition primary_item_bytes :: "bytes \<times> primary_value \<Rightarrow> bytes" where
  "primary_item_bytes e = take CHUNK_HASH_SIZE (fst e) @ PrimaryValue_bytes (snd e)"

text \<open>A size beyond 32 bits is cut off, and the loop then writes past the end of the buffer.\<close>

definition PersistPrimaryIndex :: "(string \<Rightarrow> bool) \<Rightarrow> (bytes \<times> primary_value) list \<Rightarrow> sealed_io \<Rightarrow> sealed_io res" where
  "PersistPrimaryIndex can_create items io =
     (if 2 ^ 32 \<le> length items * primary_item_size then Inl (Undefined ''heap buffer overflow'')
      else case seal_write can_create SEALED_PRIMAR_INDEX [concat (map primary_item_bytes items)] io of
             None \<Rightarrow> Inl (ProcExit ''EcallExtremeBinIndex: cannot init the sealed file.'')
           | Some io' \<Rightarrow> Inr io')"

definition load_primary :: "bytes \<Rightarrow> (bytes \<rightharpoonup> primary_value) \<Rightarrow> (bytes \<rightharpoonup> primary_value)" where
  "load_primary b m =
     foldl (\<lambda>m i. let k = read_at b (i * primary_item_size) CHUNK_HASH_SIZE;
                      v = PrimaryValue_of_bytes (read_at b (i * primary_item_size + CHUNK_HASH_SIZE) PrimaryValue_size)
                  in case m k of None \<Rightarrow> m(k \<mapsto> v) | Some _ \<Rightarrow> m) m [0..<length b div primary_item_size]"

definition LoadPrimaryIndex :: "bytes \<Rightarrow> extreme_index \<Rightarrow> sealed_io \<Rightarrow> bool \<times> extreme_index \<times> sealed_io" where
  "LoadPrimaryIndex junk x io =
     (case seal_read SEALED_PRIMAR_INDEX junk io of
        (None, io') \<Rightarrow> (False, x, io')
      | (Some b, io') \<Rightarrow> (True, x\<lparr>primaryIndex := load_primary b (primaryIndex x)\<rparr>, io'))"

definition EcallExtremeBinIndex_init :: "bytes \<Rightarrow> sealed_io \<Rightarrow> extreme_index \<times> sealed_io" where
  "EcallExtremeBinIndex_init junk io = (let (loaded, x, io') = LoadPrimaryIndex junk EcallExtremeBinIndex_new io in (x, io'))"

definition EcallExtremeBinIndex_destroy :: "(string \<Rightarrow> bool) \<Rightarrow> (bytes \<times> primary_value) list \<Rightarrow> sealed_io \<Rightarrow> sealed_io res" where
  "EcallExtremeBinIndex_destroy can_create items io = (if items \<noteq> [] then PersistPrimaryIndex can_create items io else Inr io)"

section \<open>The hook index\<close>

definition SEALED_SPARSE_INDEX :: string where
  "SEALED_SPARSE_INDEX = ''sparse-seal-index''"

definition hook_item_bytes :: "bytes \<times> bytes list \<Rightarrow> bytes" where
  "hook_item_bytes e =
     take CHUNK_HASH_SIZE (fst e) @ u64_bytes (of_nat (length (snd e))) @ concat (map (take SEGMENT_ID_LENGTH) (snd e))"

definition hook_index_size :: "(bytes \<times> bytes list) list \<Rightarrow> nat" where
  "hook_index_size items = sum_list (map (\<lambda>e. CHUNK_HASH_SIZE + 8 + length (snd e) * SEGMENT_ID_LENGTH) items)"

definition PersistHookIndex :: "(string \<Rightarrow> bool) \<Rightarrow> (bytes \<times> bytes list) list \<Rightarrow> sealed_io \<Rightarrow> sealed_io res" where
  "PersistHookIndex can_create items io =
     (if 2 ^ 32 \<le> hook_index_size items then Inl (Undefined ''heap buffer overflow'')
      else case seal_write can_create SEALED_SPARSE_INDEX [concat (map hook_item_bytes items)] io of
             None \<Rightarrow> Inl (ProcExit ''EcallSparseIndex: cannot init the sealed file.'')
           | Some io' \<Rightarrow> Inr io')"

text \<open>The loop runs until the offset is exactly at the end of the buffer.\<close>

function load_hooks :: "bytes \<Rightarrow> nat \<Rightarrow> (bytes \<rightharpoonup> bytes list) \<Rightarrow> (bytes \<rightharpoonup> bytes list) res" where
  "load_hooks b off H =
     (if off = length b then Inr H
      else if length b < off + CHUNK_HASH_SIZE + 8 then Inl (Undefined ''read past the end of the buffer'')
      else
        let fp = read_at b off CHUNK_HASH_SIZE;
            n = unat (bytes_u64 (drop (off + CHUNK_HASH_SIZE) b));
            off1 = off + CHUNK_HASH_SIZE + 8
        in if length b < off1 + n * SEGMENT_ID_LENGTH then Inl (Undefined ''read past the end of the buffer'')
           else load_hooks b (off1 + n * SEGMENT_ID_LENGTH)
                  (case H fp of
                     None \<Rightarrow> H(fp \<mapsto> map (\<lambda>i. read_at b (off1 + i * SEGMENT_ID_LENGTH) SEGMENT_ID_LENGTH) [0..<n])
                   | Some _ \<Rightarrow> H))"
  by pat_completeness auto
termination
  by (relation "measure (\<lambda>(b, off, H). length b - off)") (auto simp: const_defs)

declare load_hooks.simps [simp del]

definition LoadHookIndex :: "bytes \<Rightarrow> sparse_index \<Rightarrow> sealed_io \<Rightarrow> (bool \<times> sparse_index \<times> sealed_io) res" where
  "LoadHookIndex junk x io =
     (case seal_read SEALED_SPARSE_INDEX junk io of
        (None, io') \<Rightarrow> Inr (False, x, io')
      | (Some b, io') \<Rightarrow> rbind (load_hooks b 0 (hookIndex x)) (\<lambda>H. Inr (True, x\<lparr>hookIndex := H\<rparr>, io')))"

definition EcallSparseIndex_init :: "bytes \<Rightarrow> sealed_io \<Rightarrow> (sparse_index \<times> sealed_io) res" where
  "EcallSparseIndex_init junk io = rbind (LoadHookIndex junk EcallSparseIndex_new io) (\<lambda>(loaded, x, io'). Inr (x, io'))"

definition EcallSparseIndex_destroy :: "(string \<Rightarrow> bool) \<Rightarrow> (bytes \<times> bytes list) list \<Rightarrow> sealed_io \<Rightarrow> sealed_io res" where
  "EcallSparseIndex_destroy can_create items io = (if items \<noteq> [] then PersistHookIndex can_create items io else Inr io)"

section \<open>What was written is read\<close>

definition primary_items_ok :: "(bytes \<times> primary_value) list \<Rightarrow> bool" where
  "primary_items_ok items \<longleftrightarrow> distinct (map fst items) \<and> length items * primary_item_size < 2 ^ 32 \<and>
     (\<forall>(k, v) \<in> set items. length k = CHUNK_HASH_SIZE \<and> length (segmentHash v) = CHUNK_HASH_SIZE \<and> length (binID v) = SEGMENT_ID_LENGTH)"

lemma foldl_insert_new:
  assumes "distinct (map fst items)" and "fst ` set items \<inter> dom m = {}"
  shows "foldl (\<lambda>m (k, v). case m k of None \<Rightarrow> m(k \<mapsto> v) | Some _ \<Rightarrow> m) m items = m ++ map_of items"
  using assms
proof (induction items arbitrary: m)
  case Nil
  then show ?case by simp
next
  case (Cons e items)
  obtain k v where e: "e = (k, v)" by (cases e)
  have k: "m k = None" "k \<notin> fst ` set items" using Cons.prems by (auto simp: e domIff)
  have "foldl (\<lambda>m (k, v). case m k of None \<Rightarrow> m(k \<mapsto> v) | Some _ \<Rightarrow> m) (m(k \<mapsto> v)) items = m(k \<mapsto> v) ++ map_of items"
    using Cons.prems k(2) by (intro Cons.IH) (simp_all add: e Int_insert_right del: fun_upd_apply)
  also have "\<dots> = m ++ map_of (e # items)"
    using k(2) by (intro ext) (simp add: e map_add_def map_of_eq_None_iff [THEN iffD2] split: option.split)
  finally show ?case using k(1) by (simp add: e del: fun_upd_apply)
qed

lemma load_primary_written:
  assumes ok: "primary_items_ok items"
  shows "load_primary (concat (map primary_item_bytes items)) Map.empty = map_of items"
proof -
  let ?b = "concat (map primary_item_bytes items)"
  have bs: "\<forall>x \<in> set (map primary_item_bytes items). length x = primary_item_size"
    using ok by (auto simp: primary_items_ok_def primary_item_bytes_def PrimaryValue_bytes_def primary_item_size_def PrimaryValue_size_def)
  have pos: "0 < primary_item_size" by (simp add: primary_item_size_def PrimaryValue_size_def const_defs)
  have n: "length ?b div primary_item_size = length items" using length_concat_blocks [OF bs] pos by simp
  have it: "(read_at ?b (i * primary_item_size) CHUNK_HASH_SIZE,
      PrimaryValue_of_bytes (read_at ?b (i * primary_item_size + CHUNK_HASH_SIZE) PrimaryValue_size)) = items ! i"
    if i: "i < length items" for i
  proof -
    obtain k v where e: "items ! i = (k, v)" by (cases "items ! i")
    have "(k, v) \<in> set items" using i e by (metis nth_mem)
    then have kv: "length k = CHUNK_HASH_SIZE" "length (segmentHash v) = CHUNK_HASH_SIZE" "length (binID v) = SEGMENT_ID_LENGTH"
      using ok by (auto simp: primary_items_ok_def)
    have "read_at (?b @ []) (i * primary_item_size) primary_item_size = map primary_item_bytes items ! i"
      using i by (intro read_at_concat bs) simp
    then have r: "read_at ?b (i * primary_item_size) primary_item_size = k @ segmentHash v @ binID v"
      using i e kv by (simp add: primary_item_bytes_def PrimaryValue_bytes_def)
    have "read_at ?b (i * primary_item_size) CHUNK_HASH_SIZE = take CHUNK_HASH_SIZE (read_at ?b (i * primary_item_size) primary_item_size)"
      "read_at ?b (i * primary_item_size + CHUNK_HASH_SIZE) PrimaryValue_size = drop CHUNK_HASH_SIZE (read_at ?b (i * primary_item_size) primary_item_size)"
      by (simp_all add: read_at_def primary_item_size_def drop_take add.commute)
    then show ?thesis using e kv unfolding r by (simp add: PrimaryValue_of_bytes_def read_at_def)
  qed
  let ?g = "\<lambda>i. (read_at ?b (i * primary_item_size) CHUNK_HASH_SIZE,
      PrimaryValue_of_bytes (read_at ?b (i * primary_item_size + CHUNK_HASH_SIZE) PrimaryValue_size))"
  have "load_primary ?b Map.empty = foldl (\<lambda>m (k, v). case m k of None \<Rightarrow> m(k \<mapsto> v) | Some _ \<Rightarrow> m) Map.empty (map ?g [0..<length items])"
    by (simp add: load_primary_def n foldl_map Let_def)
  also have "map ?g [0..<length items] = items" by (rule nth_equalityI) (simp_all add: it)
  finally show ?thesis using foldl_insert_new [of items Map.empty] ok by (simp add: primary_items_ok_def)
qed

lemma seal_one_file:
  assumes "can_create name" and "wr io = None"
  shows "seal_write can_create name [b] io = Some (io\<lparr>files := (files io)(name \<mapsto> b)\<rparr>)"
  using seal_write_files [where can_create = can_create, OF assms, of "[b]"] by simp

definition hook_items_ok :: "(bytes \<times> bytes list) list \<Rightarrow> bool" where
  "hook_items_ok items \<longleftrightarrow> distinct (map fst items) \<and> hook_index_size items < 2 ^ 32 \<and>
     (\<forall>(k, l) \<in> set items. length k = CHUNK_HASH_SIZE \<and> (\<forall>u \<in> set l. length u = SEGMENT_ID_LENGTH))"

lemma load_hooks_written:
  assumes "\<forall>(k, l) \<in> set items. length k = CHUNK_HASH_SIZE \<and> (\<forall>u \<in> set l. length u = SEGMENT_ID_LENGTH)"
    and "hook_index_size items < 2 ^ 32"
  shows "load_hooks (pre @ concat (map hook_item_bytes items)) (length pre) H =
     Inr (foldl (\<lambda>m (k, v). case m k of None \<Rightarrow> m(k \<mapsto> v) | Some _ \<Rightarrow> m) H items)"
  using assms
proof (induction items arbitrary: pre H)
  case Nil
  then show ?case by (subst load_hooks.simps) simp
next
  case (Cons e items)
  obtain k l where e: "e = (k, l)" by (cases e)
  have k: "length k = CHUNK_HASH_SIZE" and l: "\<forall>u \<in> set l. length u = SEGMENT_ID_LENGTH" using Cons.prems(1) by (simp_all add: e)
  have "map (take SEGMENT_ID_LENGTH) l = l" using l by (simp add: map_idI)
  then have hb: "hook_item_bytes e = k @ u64_bytes (of_nat (length l)) @ concat l" using k by (simp add: hook_item_bytes_def e)
  have lc: "length (concat l) = length l * SEGMENT_ID_LENGTH" using length_concat_blocks [OF l] .
  let ?rest = "concat (map hook_item_bytes items)"
  let ?b = "pre @ concat (map hook_item_bytes (e # items))" and ?pre = "pre @ hook_item_bytes e"
  have b: "?b = ?pre @ ?rest" by simp
  have "length l * SEGMENT_ID_LENGTH < 2 ^ 32" using Cons.prems(2) by (simp add: hook_index_size_def e)
  then have "length l < 2 ^ 32" by (simp add: const_defs)
  then have n: "unat (bytes_u64 (drop (length pre + CHUNK_HASH_SIZE) ?b)) = length l"
    using k by (simp add: hb unat_of_nat_u64)
  have ids: "map (\<lambda>i. read_at ?b (length pre + CHUNK_HASH_SIZE + 8 + i * SEGMENT_ID_LENGTH) SEGMENT_ID_LENGTH) [0..<length l] = l"
  proof (rule nth_equalityI)
    fix i
    assume "i < length (map (\<lambda>i. read_at ?b (length pre + CHUNK_HASH_SIZE + 8 + i * SEGMENT_ID_LENGTH) SEGMENT_ID_LENGTH) [0..<length l])"
    then have i: "i < length l" by simp
    have "drop (length pre + CHUNK_HASH_SIZE + 8) ?b = concat l @ ?rest" using k by (simp add: hb)
    moreover have "drop (length pre + CHUNK_HASH_SIZE + 8 + i * SEGMENT_ID_LENGTH) ?b =
        drop (i * SEGMENT_ID_LENGTH) (drop (length pre + CHUNK_HASH_SIZE + 8) ?b)"
      by (simp only: drop_drop add.commute [of _ "i * SEGMENT_ID_LENGTH"])
    ultimately have "read_at ?b (length pre + CHUNK_HASH_SIZE + 8 + i * SEGMENT_ID_LENGTH) SEGMENT_ID_LENGTH =
        read_at (concat l @ ?rest) (i * SEGMENT_ID_LENGTH) SEGMENT_ID_LENGTH"
      unfolding read_at_def by (simp only:)
    also have "\<dots> = l ! i" by (rule read_at_concat [OF l i])
    finally show "map (\<lambda>i. read_at ?b (length pre + CHUNK_HASH_SIZE + 8 + i * SEGMENT_ID_LENGTH) SEGMENT_ID_LENGTH) [0..<length l] ! i = l ! i"
      using i by simp
  qed simp
  have fp: "read_at ?b (length pre) CHUNK_HASH_SIZE = k" using k by (simp add: hb read_at_def)
  have lp: "length pre + CHUNK_HASH_SIZE + 8 + length l * SEGMENT_ID_LENGTH = length ?pre" using k lc by (simp add: hb)
  have lb: "length ?b = length pre + CHUNK_HASH_SIZE + 8 + length l * SEGMENT_ID_LENGTH + length ?rest"
    unfolding lp by simp
  have ne: "length pre \<noteq> length ?b" "\<not> length ?b < length pre + CHUNK_HASH_SIZE + 8"
    "\<not> length ?b < length pre + CHUNK_HASH_SIZE + 8 + length l * SEGMENT_ID_LENGTH"
    unfolding lb by simp_all
  let ?H = "case H k of None \<Rightarrow> H(k \<mapsto> l) | Some _ \<Rightarrow> H"
  have "load_hooks ?b (length pre) H = load_hooks ?b (length ?pre) ?H"
    using ne unfolding lp by (subst load_hooks.simps) (simp only: if_False Let_def n ids fp lp)
  also have "\<dots> = Inr (foldl (\<lambda>m (k, v). case m k of None \<Rightarrow> m(k \<mapsto> v) | Some _ \<Rightarrow> m) ?H items)"
    unfolding b using Cons.prems by (intro Cons.IH) (simp_all add: hook_index_size_def)
  finally show ?case by (simp add: e)
qed

section \<open>Properties\<close>

definition extreme_reloaded :: "extreme_index \<Rightarrow> extreme_index" where
  "extreme_reloaded x = EcallExtremeBinIndex_new\<lparr>primaryIndex := primaryIndex x\<rparr>"

definition extreme_sealable ::
  "(string \<Rightarrow> bool) \<Rightarrow> ((bytes \<rightharpoonup> primary_value) \<Rightarrow> (bytes \<times> primary_value) list) \<Rightarrow> extreme_index \<Rightarrow> (string \<rightharpoonup> bytes) \<Rightarrow> bool" where
  "extreme_sealable can_create order x f \<longleftrightarrow> can_create SEALED_PRIMAR_INDEX \<and> primary_items_ok (order (primaryIndex x)) \<and>
     map_of (order (primaryIndex x)) = primaryIndex x \<and> (primaryIndex x = Map.empty \<longrightarrow> f SEALED_PRIMAR_INDEX = None)"

lemma extreme_sealed:
  assumes ok: "extreme_sealable can_create order x (files io)" and w: "wr io = None"
  shows "\<exists>f. EcallExtremeBinIndex_destroy can_create (order (primaryIndex x)) io = Inr (io\<lparr>files := f\<rparr>) \<and>
     (\<forall>n. n \<notin> {SEALED_PRIMAR_INDEX} \<longrightarrow> f n = files io n) \<and>
     (\<forall>io2. rd io2 = None \<longrightarrow> (\<forall>n \<in> {SEALED_PRIMAR_INDEX}. files io2 n = f n) \<longrightarrow>
        Inr (EcallExtremeBinIndex_init junk io2) = Inr (extreme_reloaded x, io2))"
proof (cases "order (primaryIndex x) = []")
  case True
  then have e: "primaryIndex x = Map.empty" using ok by (metis extreme_sealable_def map_of.simps(1))
  then have "EcallExtremeBinIndex_init junk io2 = (extreme_reloaded x, io2)"
    if "rd io2 = None" "files io2 SEALED_PRIMAR_INDEX = None" for io2 :: sealed_io
    using that by (simp add: EcallExtremeBinIndex_init_def LoadPrimaryIndex_def seal_read_def Ocall_InitReadSealedFile_def
        extreme_reloaded_def EcallExtremeBinIndex_new_def)
  then show ?thesis using True ok e by (intro exI [of _ "files io"]) (simp add: EcallExtremeBinIndex_destroy_def extreme_sealable_def)
next
  case False
  let ?items = "order (primaryIndex x)"
  let ?b = "concat (map primary_item_bytes ?items)"
  let ?f = "(files io)(SEALED_PRIMAR_INDEX \<mapsto> ?b)"
  have it: "primary_items_ok ?items" "map_of ?items = primaryIndex x" "can_create SEALED_PRIMAR_INDEX" using ok by (simp_all add: extreme_sealable_def)
  have ne: "?b \<noteq> []" using False it(1) by (cases ?items) (auto simp: primary_item_bytes_def primary_items_ok_def const_defs)
  have "EcallExtremeBinIndex_init junk io2 = (extreme_reloaded x, io2)"
    if "rd io2 = None" "files io2 SEALED_PRIMAR_INDEX = Some ?b" for io2 :: sealed_io
    using seal_read_file [OF that ne, of junk] load_primary_written [OF it(1)] it(2)
    by (simp add: EcallExtremeBinIndex_init_def LoadPrimaryIndex_def extreme_reloaded_def EcallExtremeBinIndex_new_def)
  moreover have "EcallExtremeBinIndex_destroy can_create ?items io = Inr (io\<lparr>files := ?f\<rparr>)"
    using False it seal_one_file [where can_create = can_create, OF it(3) w, of ?b]
    by (simp add: EcallExtremeBinIndex_destroy_def PersistPrimaryIndex_def primary_items_ok_def)
  ultimately show ?thesis by (intro exI [of _ ?f]) simp
qed

interpretation extreme_seal: sealed_index "{SEALED_PRIMAR_INDEX}" "extreme_sealable can_create order"
  "\<lambda>x. EcallExtremeBinIndex_destroy can_create (order (primaryIndex x))" "\<lambda>io. Inr (EcallExtremeBinIndex_init junk io)" extreme_reloaded
  for can_create order junk
proof
  fix x f f'
  assume "extreme_sealable can_create order x f" and "\<forall>n \<in> {SEALED_PRIMAR_INDEX}. f' n = f n"
  then show "extreme_sealable can_create order x f'" by (simp add: extreme_sealable_def)
qed (rule extreme_sealed)

text \<open>
  The primary index of the Extreme Binning index survives a restart of the enclave: what the
  destructor seals, the constructor reads back, whatever the order in which the map was traversed. An
  empty index is not sealed, and a new index starts empty.
\<close>

theorem Extreme_sealed_roundtrip:
  assumes "can_create SEALED_PRIMAR_INDEX" and "wr io = None" and "rd io = None" and "primary_items_ok items"
    and "items = [] \<Longrightarrow> files io SEALED_PRIMAR_INDEX = None"
  shows "\<exists>io'. EcallExtremeBinIndex_destroy can_create items io = Inr io' \<and>
     EcallExtremeBinIndex_init junk io' = (EcallExtremeBinIndex_new\<lparr>primaryIndex := map_of items\<rparr>, io')"
proof -
  have "items = []" if "map_of items = Map.empty" using that by simp
  then have "extreme_sealable can_create (\<lambda>m. items) (EcallExtremeBinIndex_new\<lparr>primaryIndex := map_of items\<rparr>) (files io)"
    using assms(1,4,5) by (simp add: extreme_sealable_def)
  from extreme_seal.reload [OF this assms(2,3), of junk] show ?thesis by (simp add: extreme_reloaded_def)
qed

theorem Extreme_sealed_roundtrip_witness:
  "\<exists>io'. EcallExtremeBinIndex_destroy (\<lambda>f. True) [(replicate 32 1, \<lparr>segmentHash = replicate 32 2, binID = replicate 16 3\<rparr>)]
       \<lparr>files = Map.empty, wr = None, rd = None\<rparr> = Inr io' \<and>
     EcallExtremeBinIndex_init [] io' =
       (EcallExtremeBinIndex_new\<lparr>primaryIndex := map_of [(replicate 32 1, \<lparr>segmentHash = replicate 32 2, binID = replicate 16 3\<rparr>)]\<rparr>, io')"
  by (rule Extreme_sealed_roundtrip) (simp_all add: primary_items_ok_def primary_item_size_def PrimaryValue_size_def const_defs)

definition sparse_reloaded :: "sparse_index \<Rightarrow> sparse_index" where
  "sparse_reloaded x = EcallSparseIndex_new\<lparr>hookIndex := hookIndex x\<rparr>"

definition sparse_sealable ::
  "(string \<Rightarrow> bool) \<Rightarrow> ((bytes \<rightharpoonup> bytes list) \<Rightarrow> (bytes \<times> bytes list) list) \<Rightarrow> sparse_index \<Rightarrow> (string \<rightharpoonup> bytes) \<Rightarrow> bool" where
  "sparse_sealable can_create order x f \<longleftrightarrow> can_create SEALED_SPARSE_INDEX \<and> hook_items_ok (order (hookIndex x)) \<and>
     map_of (order (hookIndex x)) = hookIndex x \<and> (hookIndex x = Map.empty \<longrightarrow> f SEALED_SPARSE_INDEX = None)"

lemma sparse_sealed:
  assumes ok: "sparse_sealable can_create order x (files io)" and w: "wr io = None"
  shows "\<exists>f. EcallSparseIndex_destroy can_create (order (hookIndex x)) io = Inr (io\<lparr>files := f\<rparr>) \<and>
     (\<forall>n. n \<notin> {SEALED_SPARSE_INDEX} \<longrightarrow> f n = files io n) \<and>
     (\<forall>io2. rd io2 = None \<longrightarrow> (\<forall>n \<in> {SEALED_SPARSE_INDEX}. files io2 n = f n) \<longrightarrow>
        EcallSparseIndex_init junk io2 = Inr (sparse_reloaded x, io2))"
proof (cases "order (hookIndex x) = []")
  case True
  then have e: "hookIndex x = Map.empty" using ok by (metis sparse_sealable_def map_of.simps(1))
  then have "EcallSparseIndex_init junk io2 = Inr (sparse_reloaded x, io2)"
    if "rd io2 = None" "files io2 SEALED_SPARSE_INDEX = None" for io2 :: sealed_io
    using that by (simp add: EcallSparseIndex_init_def LoadHookIndex_def seal_read_def Ocall_InitReadSealedFile_def
        sparse_reloaded_def EcallSparseIndex_new_def)
  then show ?thesis using True ok e by (intro exI [of _ "files io"]) (simp add: EcallSparseIndex_destroy_def sparse_sealable_def)
next
  case False
  let ?items = "order (hookIndex x)"
  let ?b = "concat (map hook_item_bytes ?items)"
  let ?f = "(files io)(SEALED_SPARSE_INDEX \<mapsto> ?b)"
  have it: "hook_items_ok ?items" "map_of ?items = hookIndex x" "can_create SEALED_SPARSE_INDEX" using ok by (simp_all add: sparse_sealable_def)
  have ne: "?b \<noteq> []" using False it(1) by (cases ?items) (auto simp: hook_item_bytes_def hook_items_ok_def const_defs)
  have l: "load_hooks ?b 0 Map.empty = Inr (hookIndex x)"
    using load_hooks_written [of ?items "[]" Map.empty] foldl_insert_new [of ?items Map.empty] it by (simp add: hook_items_ok_def)
  have "EcallSparseIndex_init junk io2 = Inr (sparse_reloaded x, io2)"
    if "rd io2 = None" "files io2 SEALED_SPARSE_INDEX = Some ?b" for io2 :: sealed_io
    using seal_read_file [OF that ne, of junk] l
    by (simp add: EcallSparseIndex_init_def LoadHookIndex_def sparse_reloaded_def EcallSparseIndex_new_def)
  moreover have "EcallSparseIndex_destroy can_create ?items io = Inr (io\<lparr>files := ?f\<rparr>)"
    using False it seal_one_file [where can_create = can_create, OF it(3) w, of ?b]
    by (simp add: EcallSparseIndex_destroy_def PersistHookIndex_def hook_items_ok_def)
  ultimately show ?thesis by (intro exI [of _ ?f]) simp
qed

interpretation sparse_seal: sealed_index "{SEALED_SPARSE_INDEX}" "sparse_sealable can_create order"
  "\<lambda>x. EcallSparseIndex_destroy can_create (order (hookIndex x))" "EcallSparseIndex_init junk" sparse_reloaded for can_create order junk
proof
  fix x f f'
  assume "sparse_sealable can_create order x f" and "\<forall>n \<in> {SEALED_SPARSE_INDEX}. f' n = f n"
  then show "sparse_sealable can_create order x f'" by (simp add: sparse_sealable_def)
qed (rule sparse_sealed)

text \<open>
  The hook index of the sparse index survives a restart of the enclave, with the manifests of every
  hook in their order; the loop that parses the sealed file stops exactly at its end.
\<close>

theorem Sparse_sealed_roundtrip:
  assumes "can_create SEALED_SPARSE_INDEX" and "wr io = None" and "rd io = None" and "hook_items_ok items"
    and "items = [] \<Longrightarrow> files io SEALED_SPARSE_INDEX = None"
  shows "\<exists>io'. EcallSparseIndex_destroy can_create items io = Inr io' \<and>
     EcallSparseIndex_init junk io' = Inr (EcallSparseIndex_new\<lparr>hookIndex := map_of items\<rparr>, io')"
proof -
  have "items = []" if "map_of items = Map.empty" using that by simp
  then have "sparse_sealable can_create (\<lambda>m. items) (EcallSparseIndex_new\<lparr>hookIndex := map_of items\<rparr>) (files io)"
    using assms(1,4,5) by (simp add: sparse_sealable_def)
  from sparse_seal.reload [OF this assms(2,3), of junk] show ?thesis by (simp add: sparse_reloaded_def)
qed

theorem Sparse_sealed_roundtrip_witness:
  "\<exists>io'. EcallSparseIndex_destroy (\<lambda>f. True) [(replicate 32 1, [replicate 16 3, replicate 16 4]), (replicate 32 0, [replicate 16 4])]
       \<lparr>files = Map.empty, wr = None, rd = None\<rparr> = Inr io' \<and>
     EcallSparseIndex_init [] io' =
       Inr (EcallSparseIndex_new\<lparr>hookIndex := map_of [(replicate 32 1, [replicate 16 3, replicate 16 4]), (replicate 32 0, [replicate 16 4])]\<rparr>, io')"
  by (rule Sparse_sealed_roundtrip) (simp_all add: hook_items_ok_def hook_index_size_def const_defs)

end
