(* ===== verification/NearExact.thy ===== *)
theory NearExact
  imports System SegmentSeal
begin

text \<open>
  Uploads through the two near-exact indexes, composed with the receiver and the restore in the same way
  as those through the exact indexes: the locale \<open>segment_index\<close> gives \<open>upload_index\<close>.
\<close>

section \<open>The receiver\<close>

interpretation extreme_server: upload_index C h0 "extreme.progress C h0 iter" "Extreme_ProcessOneBatch C iter" "Extreme_ProcessTailBatch C iter"
    "\<lambda>x s. \<exists>n. extreme_ok C iter n (x, s)"
  for C h0 iter
  unfolding Extreme_ProcessOneBatch_def Extreme_ProcessTailBatch_def by (rule extreme.receiver.upload_index_axioms)

interpretation sparse_server: upload_index C h0 "sparse.progress C h0 iter srt" "Sparse_ProcessOneBatch C iter srt" "Sparse_ProcessTailBatch C iter srt"
    "\<lambda>x s. \<exists>n. sparse_ok C iter srt n (x, s)"
  for C h0 iter srt
  unfolding Sparse_ProcessOneBatch_def Sparse_ProcessTailBatch_def by (rule sparse.receiver.upload_index_axioms)

section \<open>Samples\<close>

lemma sample_names_many: "names_free sample_cfg 10 sample_storage"
  by (simp add: names_free_def sample_storage_def sample_cfg_def uuid_at_def CreateUUID_def const_defs upt_rec ALPHABET_def)

lemma sample_store_inv_many: "store_inv sample_cfg 10 sample_start"
  using upload_start_inv(1) [OF sample_cfg_ok, of sample_client sample_storage 10 "[]"] sample_names_many
  by (simp add: sample_start_def sample_client_def blank_client_def sample_storage_def key_ok_def const_defs)

lemma sample_bin_inv: "bin_inv sample_cfg 10 sample_start"
  using sample_store_inv_many by (simp add: bin_inv_def store_bins_def free_names_def sample_start_fields)

lemma sample_segment_empty: "seg_chunkNum (seg (sgx sample_start)) = 0" "segmentSize (seg (sgx sample_start)) = 0"
  by (simp_all add: sample_start_fields sample_client_def blank_client_def)

lemma sample_segments: "segments C [] sample_chunks = [sample_chunks]"
  by (simp add: sample_chunks_def ends_segment_def maxSegmentChunkNum_val MAX_SEGMENT_SIZE_nat)

lemma sample_extreme_inv: "extreme_inv sample_cfg 10 (EcallExtremeBinIndex_new, sample_start)"
  using sample_bin_inv by (simp add: extreme_inv_def EcallExtremeBinIndex_new_def)

lemma sample_extreme_safe: "extreme_safe sample_cfg (EcallExtremeBinIndex_new, sample_start) (segments sample_cfg [] sample_chunks)"
  by (simp add: extreme_safe_def sample_segments EcallExtremeBinIndex_new_def)

lemma sample_sparse_inv: "sparse_inv sample_cfg 10 (EcallSparseIndex_new, sample_start)"
  using sample_bin_inv by (simp add: sparse_inv_def EcallSparseIndex_new_def)

section \<open>Properties\<close>





text \<open>The limits of segments, at a segment that holds one chunk.\<close>

definition sample_segment :: segment where
  "sample_segment = \<lparr>seg_chunkNum = 1, segmentSize = 1, minHashVal = - 1, minHash = [],
     seg_buffer = [7], seg_metadata = [(1, chunk_fp sample_cfg [7])]\<rparr>"

theorem segments_bounded_witness:
  "IsEndOfSegment (ConvertHashToValue (chunk_fp sample_cfg [9])) 1 sample_segment = ends_segment sample_cfg [[7]] [9] \<and>
   concat (segments sample_cfg [] [[1, 2], [3]]) = [[1, 2], [3]] \<and> [] \<notin> set (segments sample_cfg [] [[1, 2], [3]])"
proof -
  have h: "holds sample_cfg sample_segment [[7]]"
    by (simp add: holds_def sample_segment_def meta_of_def maxSegmentChunkNum_val MAX_SEGMENT_SIZE_nat)
  have s: "\<forall>d \<in> set [[1, 2], [3 :: byte]]. length d \<le> unat MAX_CHUNK_SIZE" "length [9 :: byte] \<le> unat MAX_CHUNK_SIZE" by (simp_all add: const_defs)
  from segments_bounded [OF s(1) h s(2)] show ?thesis by simp
qed

end
