(* ===== verification/EnclaveLife.thy ===== *)
theory EnclaveLife
  imports Session SegmentSeal FreqSeal
begin

text \<open>
  The life of the enclave (\<open>storeECall.cc\<close>) and of the server around it (\<open>dbeServer.cc\<close>,
  \<open>serverOptThread.cc\<close>): the keys are drawn at the first start and sealed at the end, the index object is
  made by its constructor and sealed by its destructor, the statistics are kept in a file of their own and
  the index store in the file of the database. A restart gives back keys, index, statistics and store.
\<close>

section \<open>Keys\<close>

definition ENCLAVE_KEY_FILE_NAME :: string where
  "ENCLAVE_KEY_FILE_NAME = ''enclave-key''"

definition ENCLAVE_INDEX_INFO_NAME :: string where
  "ENCLAVE_INDEX_INFO_NAME = ''enclave-index-info''"

record enclave_config =
  ec_sendChunkBatchSize :: u64
  ec_sendRecipeBatchSize :: u64
  ec_topKParam :: u64

text \<open>
  The enclave with its keys and the flag of the first start. \<open>r1\<close> and \<open>r2\<close> are the results of the two
  calls of \<open>sgx_read_rand\<close>, \<open>junk\<close> is the content of the buffer from \<open>malloc\<close>; the other components of
  the configuration, the libraries, are those of \<open>C\<close>.
\<close>

definition Ecall_Enclave_Init ::
  "enclave_config \<Rightarrow> bytes \<Rightarrow> bytes \<Rightarrow> bytes \<Rightarrow> enclave_cfg \<Rightarrow> sealed_io \<Rightarrow> (enclave_cfg \<times> bool) \<times> sealed_io" where
  "Ecall_Enclave_Init conf r1 r2 junk C io =
     (let C1 = C\<lparr>sendChunkBatchSize := unat (ec_sendChunkBatchSize conf), sendRecipeBatchSize := unat (ec_sendRecipeBatchSize conf),
                 topKParam := unat (ec_topKParam conf)\<rparr>;
          (readFileSize, io1) = Ocall_InitReadSealedFile ENCLAVE_KEY_FILE_NAME io
      in if readFileSize = 0 then ((C1\<lparr>enclaveKey := r1, indexQueryKey := r2\<rparr>, True), Ocall_CloseReadSealedFile io1)
         else let (b, io2) = Ocall_ReadSealedData (CHUNK_HASH_SIZE * 2) junk io1
              in ((C1\<lparr>enclaveKey := take CHUNK_HASH_SIZE b, indexQueryKey := take CHUNK_HASH_SIZE (drop CHUNK_HASH_SIZE b)\<rparr>, False),
                  Ocall_CloseReadSealedFile io2))"

definition Ecall_Enclave_Destroy :: "(string \<Rightarrow> bool) \<Rightarrow> enclave_cfg \<times> bool \<Rightarrow> sealed_io \<Rightarrow> sealed_io res" where
  "Ecall_Enclave_Destroy can_create E io =
     (if snd E then
        let (ret, io1) = Ocall_InitWriteSealedFile can_create ENCLAVE_KEY_FILE_NAME io in
        if \<not> ret then Inl (ProcExit ''cannot open the enclave key file.'')
        else Inr (Ocall_CloseWriteSealedFile
                   (Ocall_WriteSealedData (indexQueryKey (fst E)) (Ocall_WriteSealedData (enclaveKey (fst E)) io1)))
      else Inr io)"

section \<open>The index object\<close>

text \<open>The argument of \<open>Ecall_Init_Upload\<close> is an \<open>int\<close>, the value of an enumerator.\<close>

definition index_type_of_int :: "int \<Rightarrow> index_type option" where
  "index_type_of_int i =
     (if i = 0 then Some OUT_ENCLAVE else if i = 1 then Some IN_ENCLAVE else if i = 2 then Some EXTREME_BIN
      else if i = 3 then Some SPARSE_INDEX else if i = 4 then Some FREQ_INDEX else None)"

datatype index_obj =
    OutEnclaveIndex | InEnclaveIndex in_index | ExtremeBinIndex extreme_index | SparseIndex sparse_index | FreqIndex freq_index

text \<open>The orders in which the hash maps are traversed when they are sealed.\<close>

record map_orders =
  in_order :: "in_index \<Rightarrow> (bytes \<times> bytes) list"
  primary_order :: "(bytes \<rightharpoonup> primary_value) \<Rightarrow> (bytes \<times> primary_value) list"
  hook_order :: "(bytes \<rightharpoonup> bytes list) \<Rightarrow> (bytes \<times> bytes list) list"

definition new_index :: "nat \<Rightarrow> bytes \<Rightarrow> index_type option \<Rightarrow> sealed_io \<Rightarrow> (index_obj \<times> sealed_io) res" where
  "new_index batchSize junk t io =
     (case t of
        Some OUT_ENCLAVE \<Rightarrow> Inr (OutEnclaveIndex, io)
      | Some EXTREME_BIN \<Rightarrow> (let (x, io') = EcallExtremeBinIndex_init junk io in Inr (ExtremeBinIndex x, io'))
      | Some SPARSE_INDEX \<Rightarrow> rbind (EcallSparseIndex_init junk io) (\<lambda>(x, io'). Inr (SparseIndex x, io'))
      | Some FREQ_INDEX \<Rightarrow> rbind (EcallFreqIndex_init junk io) (\<lambda>(x, io'). Inr (FreqIndex x, io'))
      | Some IN_ENCLAVE \<Rightarrow> rbind (EcallInEnclaveIndex_init batchSize junk io) (\<lambda>(x, io'). Inr (InEnclaveIndex x, io'))
      | None \<Rightarrow> Inl (ProcExit ''wrong enclave index type.''))"

definition delete_index :: "(string \<Rightarrow> bool) \<Rightarrow> nat \<Rightarrow> map_orders \<Rightarrow> index_obj \<Rightarrow> sealed_io \<Rightarrow> sealed_io res" where
  "delete_index can_create batchSize orders obj io =
     (case obj of
        OutEnclaveIndex \<Rightarrow> Inr io
      | InEnclaveIndex m \<Rightarrow> InEnclave_PersistDedupIndex can_create batchSize (in_order orders m) io
      | ExtremeBinIndex x \<Rightarrow> EcallExtremeBinIndex_destroy can_create (primary_order orders (primaryIndex x)) io
      | SparseIndex x \<Rightarrow> EcallSparseIndex_destroy can_create (hook_order orders (hookIndex x)) io
      | FreqIndex x \<Rightarrow> Freq_PersistDedupIndex can_create x io)"

section \<open>Statistics\<close>

definition write_info :: "(string \<Rightarrow> bool) \<Rightarrow> statistics \<Rightarrow> sealed_io \<Rightarrow> sealed_io res" where
  "write_info can_create st io =
     (let (ret, io1) = Ocall_InitWriteSealedFile can_create ENCLAVE_INDEX_INFO_NAME io in
      if \<not> ret then Inl (ProcExit ''cannot open the enclave index info file.'')
      else Inr (Ocall_CloseWriteSealedFile
             (foldl (\<lambda>io w. Ocall_WriteSealedData (u64_bytes w) io) io1
                [logicalDataSize st, logicalChunkNum st, uniqueDataSize st, uniqueChunkNum st, compressedDataSize st])))"

text \<open>The five counters are read over the zeros of a new object; \<open>junk\<close> is the buffer from \<open>malloc\<close>.\<close>

definition read_info :: "bytes \<Rightarrow> statistics \<Rightarrow> sealed_io \<Rightarrow> statistics \<times> sealed_io" where
  "read_info junk st io =
     (let (readFileSize, io1) = Ocall_InitReadSealedFile ENCLAVE_INDEX_INFO_NAME io in
      if readFileSize = 0 then (st, Ocall_CloseReadSealedFile io1)
      else let (b, io2) = Ocall_ReadSealedData (8 * 5) junk io1
           in (st\<lparr>logicalDataSize := bytes_u64 b, logicalChunkNum := bytes_u64 (drop 8 b), uniqueDataSize := bytes_u64 (drop 16 b),
                  uniqueChunkNum := bytes_u64 (drop 24 b), compressedDataSize := bytes_u64 (drop 32 b)\<rparr>,
               Ocall_CloseReadSealedFile io2))"

definition Ecall_Init_Upload ::
  "enclave_cfg \<Rightarrow> bytes \<Rightarrow> bytes \<Rightarrow> int \<Rightarrow> sealed_io \<Rightarrow> (index_obj \<times> statistics \<times> sealed_io) res" where
  "Ecall_Init_Upload C junk junk' indexType io =
     rbind (new_index (sendChunkBatchSize C) junk (index_type_of_int indexType) io) (\<lambda>(obj, io1).
       let (st, io2) = read_info junk' zero_stats io1 in Inr (obj, st, io2))"

definition Ecall_Destroy_Upload ::
  "enclave_cfg \<Rightarrow> (string \<Rightarrow> bool) \<Rightarrow> map_orders \<Rightarrow> index_obj \<Rightarrow> statistics \<Rightarrow> sealed_io \<Rightarrow> sealed_io res" where
  "Ecall_Destroy_Upload C can_create orders obj st io =
     rbind (write_info can_create st io) (delete_index can_create (sendChunkBatchSize C) orders obj)"

section \<open>The server\<close>

text \<open>
  Starting the server: the database is opened, the enclave initialised, the index made. Stopping it
  (\<open>CTRLC\<close> and the destructor of \<open>ServerOptThread\<close>) is the other way round; \<open>items\<close> is the traversal of
  the database. \<open>disk\<close> holds the sealed files, \<open>db\<close> the file of the database.
\<close>

record server =
  srv_cfg :: enclave_cfg
  srv_first :: bool
  srv_index :: index_obj
  srv_stats :: statistics
  srv_store :: index_map

record disk =
  disk_sealed :: sealed_io
  disk_db :: "bytes option"

definition server_start ::
  "enclave_config \<Rightarrow> bytes \<Rightarrow> bytes \<Rightarrow> bytes \<Rightarrow> bytes \<Rightarrow> bytes \<Rightarrow> int \<Rightarrow> enclave_cfg \<Rightarrow> disk \<Rightarrow> (server \<times> disk) res" where
  "server_start conf r1 r2 j1 j2 j3 indexType C dk =
     rbind (InMemoryDatabase_OpenDB (disk_db dk)) (\<lambda>db.
       let ((C', first), io1) = Ecall_Enclave_Init conf r1 r2 j1 C (disk_sealed dk) in
       rbind (Ecall_Init_Upload C' j2 j3 indexType io1) (\<lambda>(obj, st, io2).
         Inr (\<lparr>srv_cfg = C', srv_first = first, srv_index = obj, srv_stats = st, srv_store = db\<rparr>, dk\<lparr>disk_sealed := io2\<rparr>)))"

definition server_stop ::
  "(string \<Rightarrow> bool) \<Rightarrow> map_orders \<Rightarrow> (bytes \<times> bytes) list \<Rightarrow> server \<Rightarrow> disk \<Rightarrow> disk res" where
  "server_stop can_create orders items S dk =
     rbind (Ecall_Destroy_Upload (srv_cfg S) can_create orders (srv_index S) (srv_stats S) (disk_sealed dk)) (\<lambda>io1.
     rbind (Ecall_Enclave_Destroy can_create (srv_cfg S, srv_first S) io1) (\<lambda>io2.
     rbind (InMemoryDatabase_destroy items) (\<lambda>b. Inr \<lparr>disk_sealed = io2, disk_db = Some b\<rparr>)))"

section \<open>What comes back\<close>

lemma sealed_names_distinct:
  "ENCLAVE_KEY_FILE_NAME \<notin> {ENCLAVE_INDEX_INFO_NAME, SEALED_BASELINE_INDEX_PATH, SEALED_PRIMAR_INDEX, SEALED_SPARSE_INDEX, SEALED_SKETCH, SEALED_FREQ_INDEX}"
  "ENCLAVE_INDEX_INFO_NAME \<notin> {SEALED_BASELINE_INDEX_PATH, SEALED_PRIMAR_INDEX, SEALED_SPARSE_INDEX, SEALED_SKETCH, SEALED_FREQ_INDEX}"
  by (simp_all add: ENCLAVE_KEY_FILE_NAME_def ENCLAVE_INDEX_INFO_NAME_def SEALED_BASELINE_INDEX_PATH_def SEALED_PRIMAR_INDEX_def
      SEALED_SPARSE_INDEX_def SEALED_SKETCH_def SEALED_FREQ_INDEX_def)

definition index_names :: "string set" where
  "index_names = {SEALED_BASELINE_INDEX_PATH, SEALED_PRIMAR_INDEX, SEALED_SPARSE_INDEX, SEALED_SKETCH, SEALED_FREQ_INDEX}"

definition type_of :: "index_obj \<Rightarrow> index_type" where
  "type_of obj =
     (case obj of OutEnclaveIndex \<Rightarrow> OUT_ENCLAVE | InEnclaveIndex m \<Rightarrow> IN_ENCLAVE | ExtremeBinIndex x \<Rightarrow> EXTREME_BIN
      | SparseIndex x \<Rightarrow> SPARSE_INDEX | FreqIndex x \<Rightarrow> FREQ_INDEX)"

definition obj_reloaded :: "index_obj \<Rightarrow> index_obj" where
  "obj_reloaded obj =
     (case obj of OutEnclaveIndex \<Rightarrow> OutEnclaveIndex | InEnclaveIndex m \<Rightarrow> InEnclaveIndex m
      | ExtremeBinIndex x \<Rightarrow> ExtremeBinIndex (extreme_reloaded x) | SparseIndex x \<Rightarrow> SparseIndex (sparse_reloaded x)
      | FreqIndex x \<Rightarrow> FreqIndex (freq_reloaded x))"

definition obj_sealable :: "(string \<Rightarrow> bool) \<Rightarrow> nat \<Rightarrow> map_orders \<Rightarrow> index_type \<Rightarrow> index_obj \<Rightarrow> (string \<rightharpoonup> bytes) \<Rightarrow> bool" where
  "obj_sealable can_create B orders t obj f \<longleftrightarrow> type_of obj = t \<and>
     (case obj of OutEnclaveIndex \<Rightarrow> True | InEnclaveIndex m \<Rightarrow> in_sealable can_create B (in_order orders) m f
      | ExtremeBinIndex x \<Rightarrow> extreme_sealable can_create (primary_order orders) x f
      | SparseIndex x \<Rightarrow> sparse_sealable can_create (hook_order orders) x f | FreqIndex x \<Rightarrow> freq_sealable can_create x f)"

interpretation obj_seal: sealed_index index_names "obj_sealable can_create B orders t" "delete_index can_create B orders"
  "new_index B junk (Some t)" obj_reloaded for can_create B orders t junk
proof
  fix obj f f'
  assume ok: "obj_sealable can_create B orders t obj f" and f: "\<forall>n \<in> index_names. f' n = f n"
  have p: "f' SEALED_PRIMAR_INDEX = f SEALED_PRIMAR_INDEX" "f' SEALED_SPARSE_INDEX = f SEALED_SPARSE_INDEX"
    using f by (simp_all add: index_names_def)
  show "obj_sealable can_create B orders t obj f'"
    using ok p by (cases obj) (simp_all add: obj_sealable_def in_sealable_def extreme_sealable_def sparse_sealable_def freq_sealable_def)
next
  fix obj and io :: sealed_io
  assume ok: "obj_sealable can_create B orders t obj (files io)" and w: "wr io = None"
  show "\<exists>f. delete_index can_create B orders obj io = Inr (io\<lparr>files := f\<rparr>) \<and> (\<forall>n. n \<notin> index_names \<longrightarrow> f n = files io n) \<and>
      (\<forall>io2. rd io2 = None \<longrightarrow> (\<forall>n \<in> index_names. files io2 n = f n) \<longrightarrow> new_index B junk (Some t) io2 = Inr (obj_reloaded obj, io2))"
  proof (cases obj)
    case OutEnclaveIndex
    with ok show ?thesis
      by (intro exI [of _ "files io"]) (simp add: obj_sealable_def type_of_def delete_index_def new_index_def obj_reloaded_def)
  next
    case (InEnclaveIndex m)
    with ok in_seal.sealed_as [of can_create B "in_order orders" m io index_names junk InEnclaveIndex] w show ?thesis
      by (auto simp: obj_sealable_def type_of_def delete_index_def new_index_def obj_reloaded_def index_names_def)
  next
    case (ExtremeBinIndex x)
    with ok extreme_seal.sealed_as [of can_create "primary_order orders" x io index_names junk ExtremeBinIndex] w show ?thesis
      by (auto simp: obj_sealable_def type_of_def delete_index_def new_index_def obj_reloaded_def index_names_def)
  next
    case (SparseIndex x)
    with ok sparse_seal.sealed_as [of can_create "hook_order orders" x io index_names junk SparseIndex] w show ?thesis
      by (auto simp: obj_sealable_def type_of_def delete_index_def new_index_def obj_reloaded_def index_names_def)
  next
    case (FreqIndex x)
    with ok freq_seal.sealed_as [of can_create x io index_names junk FreqIndex] w show ?thesis
      by (auto simp: obj_sealable_def type_of_def delete_index_def new_index_def obj_reloaded_def index_names_def)
  qed
qed

section \<open>A restart of the index\<close>

definition info_bytes :: "statistics \<Rightarrow> bytes" where
  "info_bytes st = concat (map u64_bytes
     [logicalDataSize st, logicalChunkNum st, uniqueDataSize st, uniqueChunkNum st, compressedDataSize st])"

definition info_of :: "statistics \<Rightarrow> statistics" where
  "info_of st = st\<lparr>writtenDataSize := 0, writtenChunkNum := 0\<rparr>"

lemma write_sealed_all:
  assumes "wr io = Some name" and "files io name = Some b"
  shows "foldl (\<lambda>io d. Ocall_WriteSealedData (g d) io) io ds = io\<lparr>files := (files io)(name \<mapsto> b @ concat (map g ds))\<rparr>"
  using assms
proof (induction ds arbitrary: io b)
  case Nil
  then show ?case by (cases io) (simp add: fun_upd_idem)
next
  case (Cons d ds)
  have w: "Ocall_WriteSealedData (g d) io = io\<lparr>files := (files io)(name \<mapsto> b @ g d)\<rparr>"
    using Cons.prems by (simp add: Ocall_WriteSealedData_def)
  have "foldl (\<lambda>io d. Ocall_WriteSealedData (g d) io) (io\<lparr>files := (files io)(name \<mapsto> b @ g d)\<rparr>) ds =
      (io\<lparr>files := (files io)(name \<mapsto> b @ g d)\<rparr>)\<lparr>files := (files (io\<lparr>files := (files io)(name \<mapsto> b @ g d)\<rparr>))(name \<mapsto> (b @ g d) @ concat (map g ds))\<rparr>"
    using Cons.prems by (intro Cons.IH) simp_all
  with w show ?case by (cases io) (simp add: fun_eq_iff)
qed

text \<open>A file written in pieces, and a file read at once.\<close>

lemma write_pieces:
  assumes "can_create name" and "wr io = None"
  shows "(let (ret, io1) = Ocall_InitWriteSealedFile can_create name io in
      if \<not> ret then Inl e else Inr (Ocall_CloseWriteSealedFile (foldl (\<lambda>io d. Ocall_WriteSealedData (g d) io) io1 ds))) =
    Inr (io\<lparr>files := (files io)(name \<mapsto> concat (map g ds))\<rparr>)"
proof -
  let ?io1 = "io\<lparr>wr := Some name, files := (files io)(name \<mapsto> [])\<rparr>"
  have "foldl (\<lambda>io d. Ocall_WriteSealedData (g d) io) ?io1 ds = ?io1\<lparr>files := (files ?io1)(name \<mapsto> [] @ concat (map g ds))\<rparr>"
    by (rule write_sealed_all) simp_all
  with assms show ?thesis
    by (cases io) (simp add: Ocall_InitWriteSealedFile_def Ocall_CloseWriteSealedFile_def)
qed

lemma read_pieces:
  assumes "rd io = None" and "files io name = Some b" and "n \<le> length b"
  shows "Ocall_InitReadSealedFile name io = (length b, io\<lparr>rd := Some (b, 0, False)\<rparr>)"
    and "Ocall_ReadSealedData n junk (io\<lparr>rd := Some (b, 0, False)\<rparr>) = (take n b, io\<lparr>rd := Some (b, n, False)\<rparr>)"
    and "Ocall_CloseReadSealedFile (io\<lparr>rd := Some r\<rparr>) = io"
proof -
  have "Ocall_ReadSealedData n junk (io\<lparr>rd := Some (b, 0, False)\<rparr>) =
      (take n (drop 0 b), (io\<lparr>rd := Some (b, 0, False)\<rparr>)\<lparr>rd := Some (b, 0 + n, False)\<rparr>)"
    using assms(3) by (intro Ocall_ReadSealedData_full) simp_all
  then show "Ocall_ReadSealedData n junk (io\<lparr>rd := Some (b, 0, False)\<rparr>) = (take n b, io\<lparr>rd := Some (b, n, False)\<rparr>)" by simp
qed (use assms in \<open>cases io; simp add: Ocall_InitReadSealedFile_def Ocall_CloseReadSealedFile_def\<close>)+

lemma write_info_file:
  assumes "can_create ENCLAVE_INDEX_INFO_NAME" and "wr io = None"
  shows "write_info can_create st io = Inr (io\<lparr>files := (files io)(ENCLAVE_INDEX_INFO_NAME \<mapsto> info_bytes st)\<rparr>)"
  unfolding write_info_def info_bytes_def by (rule write_pieces [where can_create = can_create, OF assms])

lemma read_info_file:
  assumes "rd io = None" and "files io ENCLAVE_INDEX_INFO_NAME = Some (info_bytes st)"
  shows "read_info junk zero_stats io = (info_of st, io)"
proof -
  have l: "length (info_bytes st) = 40" by (simp add: info_bytes_def)
  have le: "40 \<le> length (info_bytes st)" using l by simp
  note r = read_pieces [OF assms le, unfolded l]
  have "take 40 (info_bytes st) = info_bytes st" by (simp add: l)
  with r show ?thesis
    by (simp add: read_info_def l info_of_def) (cases st, simp add: zero_stats_def info_bytes_def)
qed

context sealed_index
begin

lemma restart:
  assumes ok: "ok x (files io)" and w: "wr io = None" and c: "may ENCLAVE_INDEX_INFO_NAME" and n: "ENCLAVE_INDEX_INFO_NAME \<notin> names"
  shows "\<exists>f. rbind (write_info may st io) (persist x) = Inr (io\<lparr>files := f\<rparr>) \<and>
     (\<forall>n. n \<notin> insert ENCLAVE_INDEX_INFO_NAME names \<longrightarrow> f n = files io n) \<and>
     (\<forall>io2. rd io2 = None \<longrightarrow> (\<forall>n \<in> insert ENCLAVE_INDEX_INFO_NAME names. files io2 n = f n) \<longrightarrow>
        load io2 = Inr (reloaded x, io2) \<and> read_info junk zero_stats io2 = (info_of st, io2))"
proof -
  let ?io = "io\<lparr>files := (files io)(ENCLAVE_INDEX_INFO_NAME \<mapsto> info_bytes st)\<rparr>"
  have "ok x (files ?io)" by (rule ok_cong [OF ok]) (use n in auto)
  from sealed [OF this] w obtain f where
    f: "persist x ?io = Inr (?io\<lparr>files := f\<rparr>)" "\<forall>n. n \<notin> names \<longrightarrow> f n = files ?io n"
      "\<forall>io2. rd io2 = None \<longrightarrow> (\<forall>n \<in> names. files io2 n = f n) \<longrightarrow> load io2 = Inr (reloaded x, io2)"
    by auto
  have i: "f ENCLAVE_INDEX_INFO_NAME = Some (info_bytes st)" using f(2) n by simp
  have "load io2 = Inr (reloaded x, io2) \<and> read_info junk zero_stats io2 = (info_of st, io2)"
    if "rd io2 = None" "\<forall>n \<in> insert ENCLAVE_INDEX_INFO_NAME names. files io2 n = f n" for io2
    using that f(3) i by (intro conjI read_info_file) auto
  then show ?thesis using f(1,2) write_info_file [where can_create = may, OF c w, of st] by (intro exI [of _ f]) auto
qed

end

section \<open>A restart of the server\<close>

text \<open>
  The key file is either missing or long enough, and an enclave that did not draw its keys has read them
  from it; \<open>keys_on\<close> is what holds between start and stop.
\<close>

definition key_file_ok :: "sealed_io \<Rightarrow> bool" where
  "key_file_ok io \<longleftrightarrow>
     (case files io ENCLAVE_KEY_FILE_NAME of None \<Rightarrow> True | Some b \<Rightarrow> b = [] \<or> 2 * CHUNK_HASH_SIZE \<le> length b)"

definition keys_on :: "enclave_cfg \<times> bool \<Rightarrow> sealed_io \<Rightarrow> bool" where
  "keys_on E io \<longleftrightarrow> key_ok (enclaveKey (fst E)) \<and> key_ok (indexQueryKey (fst E)) \<and>
     (snd E \<or> (\<exists>rest. files io ENCLAVE_KEY_FILE_NAME = Some (enclaveKey (fst E) @ indexQueryKey (fst E) @ rest)))"

definition configured :: "enclave_config \<Rightarrow> enclave_cfg \<Rightarrow> enclave_cfg" where
  "configured conf C = C\<lparr>sendChunkBatchSize := unat (ec_sendChunkBatchSize conf), sendRecipeBatchSize := unat (ec_sendRecipeBatchSize conf),
     topKParam := unat (ec_topKParam conf)\<rparr>"

lemma Ecall_Enclave_Init_keys:
  assumes r: "rd io = None" and k: "key_file_ok io" and rnd: "key_ok r1" "key_ok r2"
  shows "\<exists>k1 k2 first. Ecall_Enclave_Init conf r1 r2 junk C io = (((configured conf C)\<lparr>enclaveKey := k1, indexQueryKey := k2\<rparr>, first), io) \<and>
     keys_on ((configured conf C)\<lparr>enclaveKey := k1, indexQueryKey := k2\<rparr>, first) io"
proof (cases "files io ENCLAVE_KEY_FILE_NAME = None \<or> files io ENCLAVE_KEY_FILE_NAME = Some []")
  case True
  then have "Ecall_Enclave_Init conf r1 r2 junk C io = (((configured conf C)\<lparr>enclaveKey := r1, indexQueryKey := r2\<rparr>, True), io)"
    using r by (cases io) (auto simp: Ecall_Enclave_Init_def configured_def Ocall_InitReadSealedFile_def Ocall_CloseReadSealedFile_def)
  then show ?thesis using rnd by (intro exI [of _ r1] exI [of _ r2] exI [of _ True]) (simp add: keys_on_def)
next
  case False
  then obtain b where b: "files io ENCLAVE_KEY_FILE_NAME = Some b" "2 * CHUNK_HASH_SIZE \<le> length b" "b \<noteq> []"
    using k by (auto simp: key_file_ok_def)
  then have l: "CHUNK_HASH_SIZE * 2 \<le> length b" by simp
  let ?k1 = "take CHUNK_HASH_SIZE b" and ?k2 = "take CHUNK_HASH_SIZE (drop CHUNK_HASH_SIZE b)"
  have t: "take CHUNK_HASH_SIZE (take (CHUNK_HASH_SIZE * 2) b) = ?k1"
    "take CHUNK_HASH_SIZE (drop CHUNK_HASH_SIZE (take (CHUNK_HASH_SIZE * 2) b)) = ?k2"
    by (simp_all add: const_defs drop_take)
  have "Ecall_Enclave_Init conf r1 r2 junk C io = (((configured conf C)\<lparr>enclaveKey := ?k1, indexQueryKey := ?k2\<rparr>, False), io)"
    using read_pieces [OF r b(1) l] b(3) t by (simp add: Ecall_Enclave_Init_def configured_def Let_def)
  moreover have "b = ?k1 @ ?k2 @ drop (2 * CHUNK_HASH_SIZE) b"
    by (metis append_take_drop_id drop_drop mult_2)
  then have "\<exists>rest. files io ENCLAVE_KEY_FILE_NAME = Some (?k1 @ ?k2 @ rest)" using b(1) by metis
  moreover have "key_ok ?k1" "key_ok ?k2" using b(2) by (simp_all add: key_ok_def const_defs)
  ultimately show ?thesis by (intro exI [of _ ?k1] exI [of _ ?k2] exI [of _ False]) (simp add: keys_on_def)
qed

lemma Ecall_Enclave_Destroy_file:
  assumes w: "wr io = None" and c: "can_create ENCLAVE_KEY_FILE_NAME" and k: "keys_on E io"
  shows "\<exists>f. Ecall_Enclave_Destroy can_create E io = Inr (io\<lparr>files := f\<rparr>) \<and> (\<forall>n. n \<noteq> ENCLAVE_KEY_FILE_NAME \<longrightarrow> f n = files io n) \<and>
     (\<exists>rest. f ENCLAVE_KEY_FILE_NAME = Some (enclaveKey (fst E) @ indexQueryKey (fst E) @ rest))"
proof (cases "snd E")
  case True
  have "Ecall_Enclave_Destroy can_create E io = Inr (io\<lparr>files := (files io)(ENCLAVE_KEY_FILE_NAME \<mapsto> concat (map (\<lambda>k. k) [enclaveKey (fst E), indexQueryKey (fst E)]))\<rparr>)"
    using write_pieces [where can_create = can_create and g = "\<lambda>k. k" and ds = "[enclaveKey (fst E), indexQueryKey (fst E)]",
        OF c w, unfolded foldl_Cons foldl_Nil] True
    by (simp add: Ecall_Enclave_Destroy_def)
  then show ?thesis
    by (intro exI [of _ "(files io)(ENCLAVE_KEY_FILE_NAME \<mapsto> enclaveKey (fst E) @ indexQueryKey (fst E) @ [])"]) simp
next
  case False
  then show ?thesis using k by (intro exI [of _ "files io"]) (simp add: Ecall_Enclave_Destroy_def keys_on_def)
qed

lemma Ecall_Enclave_Init_again:
  assumes r: "rd io = None" and f: "files io ENCLAVE_KEY_FILE_NAME = Some (k1 @ k2 @ rest)" and k: "key_ok k1" "key_ok k2"
  shows "Ecall_Enclave_Init conf r1 r2 junk C io = (((configured conf C)\<lparr>enclaveKey := k1, indexQueryKey := k2\<rparr>, False), io)"
proof -
  have l: "length k1 = CHUNK_HASH_SIZE" "length k2 = CHUNK_HASH_SIZE" using k by (simp_all add: key_ok_def const_defs)
  let ?b = "k1 @ k2 @ rest"
  have "take CHUNK_HASH_SIZE (take (CHUNK_HASH_SIZE * 2) ?b) = k1"
    "take CHUNK_HASH_SIZE (drop CHUNK_HASH_SIZE (take (CHUNK_HASH_SIZE * 2) ?b)) = k2"
    using l by (simp_all add: drop_take)
  moreover have "CHUNK_HASH_SIZE * 2 \<le> length ?b" using l by simp
  moreover have "length ?b \<noteq> 0" using l by (simp add: const_defs)
  ultimately show ?thesis
    using read_pieces [OF r f, of "CHUNK_HASH_SIZE * 2"] by (simp add: Ecall_Enclave_Init_def configured_def Let_def)
qed

lemma server_stop_files:
  assumes w: "wr io = None" and cc: "\<forall>f. can_create f" and k: "keys_on (C, first) io"
    and obj: "obj_sealable can_create (sendChunkBatchSize C) orders t obj (files io)"
  shows "\<exists>f. rbind (Ecall_Destroy_Upload C can_create orders obj st io) (Ecall_Enclave_Destroy can_create (C, first)) = Inr (io\<lparr>files := f\<rparr>) \<and>
     (\<exists>rest. f ENCLAVE_KEY_FILE_NAME = Some (enclaveKey C @ indexQueryKey C @ rest)) \<and>
     (\<forall>io2. rd io2 = None \<longrightarrow> files io2 = f \<longrightarrow>
        new_index (sendChunkBatchSize C) j2 (Some t) io2 = Inr (obj_reloaded obj, io2) \<and> read_info j3 zero_stats io2 = (info_of st, io2))"
proof -
  have n: "ENCLAVE_INDEX_INFO_NAME \<notin> index_names" "ENCLAVE_KEY_FILE_NAME \<notin> insert ENCLAVE_INDEX_INFO_NAME index_names"
    using sealed_names_distinct by (simp_all add: index_names_def)
  have c: "can_create ENCLAVE_INDEX_INFO_NAME" using cc by blast
  obtain f where
    f: "Ecall_Destroy_Upload C can_create orders obj st io = Inr (io\<lparr>files := f\<rparr>)"
      "\<forall>n. n \<notin> insert ENCLAVE_INDEX_INFO_NAME index_names \<longrightarrow> f n = files io n"
      "\<forall>io2. rd io2 = None \<longrightarrow> (\<forall>n \<in> insert ENCLAVE_INDEX_INFO_NAME index_names. files io2 n = f n) \<longrightarrow>
         new_index (sendChunkBatchSize C) j2 (Some t) io2 = Inr (obj_reloaded obj, io2) \<and> read_info j3 zero_stats io2 = (info_of st, io2)"
    using obj_seal.restart [where may = can_create and st = st and junk = j3 and junka = j2, OF obj w c n(1),
        folded Ecall_Destroy_Upload_def]
    by (elim exE conjE) (rule that; assumption)
  let ?io = "io\<lparr>files := f\<rparr>"
  have "keys_on (C, first) ?io" using k f(2) n(2) by (simp add: keys_on_def)
  then obtain g where
    g: "Ecall_Enclave_Destroy can_create (C, first) ?io = Inr (?io\<lparr>files := g\<rparr>)" "\<forall>n. n \<noteq> ENCLAVE_KEY_FILE_NAME \<longrightarrow> g n = f n"
      "\<exists>rest. g ENCLAVE_KEY_FILE_NAME = Some (enclaveKey C @ indexQueryKey C @ rest)"
    using Ecall_Enclave_Destroy_file [of ?io can_create "(C, first)"] w cc by auto
  have "g n = f n" if "n \<in> insert ENCLAVE_INDEX_INFO_NAME index_names" for n using g(2) n(2) that by metis
  with f(3) have "new_index (sendChunkBatchSize C) j2 (Some t) io2 = Inr (obj_reloaded obj, io2) \<and> read_info j3 zero_stats io2 = (info_of st, io2)"
    if "rd io2 = None" "files io2 = g" for io2 using that by blast
  then show ?thesis using f(1) g(1,3) by (intro exI [of _ g]) simp
qed

section \<open>A start changes no file\<close>

definition same_files :: "sealed_io \<Rightarrow> sealed_io \<Rightarrow> bool" where
  "same_files io io' \<longleftrightarrow> files io' = files io \<and> wr io' = wr io"

lemma same_files_trans: "same_files a b \<Longrightarrow> same_files b c \<Longrightarrow> same_files a c"
  by (simp add: same_files_def)

lemma same_files_ocalls:
  "same_files io (snd (Ocall_InitReadSealedFile name io))" "same_files io (Ocall_CloseReadSealedFile io)"
  "same_files io (snd (Ocall_ReadSealedData n old io))"
  by (simp_all add: same_files_def Ocall_InitReadSealedFile_def Ocall_CloseReadSealedFile_def Ocall_ReadSealedData_def case_prod_beta
      split: option.splits)

lemma same_files_read: "same_files io (snd (ReadFileToBuffer n old io))"
proof (induction n old io rule: ReadFileToBuffer.induct)
  case (1 n old io)
  let ?K = SGX_PERSISTENCE_BUFFER_SIZE and ?r = "Ocall_ReadSealedData SGX_PERSISTENCE_BUFFER_SIZE (take SGX_PERSISTENCE_BUFFER_SIZE old) io"
  show ?case
  proof (cases "n = 0 \<or> \<not> ?K < n")
    case True
    then show ?thesis using same_files_ocalls(3) by (subst ReadFileToBuffer.simps) (auto simp: same_files_def)
  next
    case False
    have "same_files (snd ?r) (snd (ReadFileToBuffer (n - ?K) (drop ?K old) (snd ?r)))"
      using False by (intro "1.IH" [of ?r "fst ?r" "snd ?r"]) simp_all
    from same_files_trans [OF same_files_ocalls(3) this] False show ?thesis
      by (subst ReadFileToBuffer.simps) (simp add: case_prod_beta)
  qed
qed

lemma same_files_seal_read: "same_files io (snd (seal_read name junk io))"
  using same_files_ocalls(1) [of io name]
    same_files_read [of "snd (Ocall_InitReadSealedFile name io)" "fst (Ocall_InitReadSealedFile name io)" junk]
  by (simp add: seal_read_def case_prod_beta same_files_def Ocall_CloseReadSealedFile_def)

lemma same_files_rows: "same_files io (snd (load_rows rows io))"
proof (induction rows arbitrary: io)
  case Nil
  then show ?case by (simp add: same_files_def)
next
  case (Cons row rows)
  let ?r = "ReadFileToBuffer (4 * sketchWidth) (row_bytes row) io"
  from same_files_trans [OF same_files_read Cons.IH [of "snd ?r"]] show ?case by (simp add: case_prod_beta)
qed

lemma same_files_batches: "same_files (snd (snd x)) (snd (snd (load_batches B n x)))"
proof (induction n arbitrary: x)
  case 0
  then show ?case by (simp add: same_files_def)
next
  case (Suc n)
  obtain buf mc io where x: "x = (buf, mc, io)" by (rule prod_cases3)
  let ?r = "ReadFileToBuffer (B * index_item_size) buf io"
  from same_files_trans [OF same_files_read Suc.IH [of "(fst ?r, load_items B (fst ?r) mc, snd ?r)", simplified]] show ?case
    by (simp add: x case_prod_beta)
qed

lemma same_files_new_index:
  assumes "new_index B junk t io = Inr (obj, io')"
  shows "same_files io io'"
proof -
  let ?P = "Ocall_InitReadSealedFile SEALED_BASELINE_INDEX_PATH io"
  have in_: "same_files io io'" if "InEnclave_LoadDedupIndex B junk io = Inr (l, m, io')" for l m
  proof -
    let ?r = "ReadFileToBuffer 8 [] (snd ?P)"
    let ?z = "load_batches B (unat (bytes_u64 (fst ?r)) div B) (take (B * index_item_size) junk, (Map.empty, 0), snd ?r)"
    let ?q = "ReadFileToBuffer (B * index_item_size) (fst ?z) (snd (snd ?z))"
    have "same_files io (snd (snd ?z))" "same_files (snd (snd ?z)) (snd ?q)"
      using same_files_trans [OF same_files_trans [OF same_files_ocalls(1) same_files_read] same_files_batches [of "(take (B * index_item_size) junk, (Map.empty, 0), snd ?r)", simplified]]
        same_files_read by blast+
    with that same_files_ocalls(1) [of io SEALED_BASELINE_INDEX_PATH] show ?thesis
      by (auto simp: InEnclave_LoadDedupIndex_def Let_def case_prod_beta same_files_def Ocall_CloseReadSealedFile_def split: if_splits)
  qed
  let ?P1 = "Ocall_InitReadSealedFile SEALED_SKETCH io"
  let ?P2 = "load_rows (counterArray (cmSketch EcallFreqIndex_new)) (snd ?P1)"
  let ?P3 = "Ocall_InitReadSealedFile SEALED_FREQ_INDEX (Ocall_CloseReadSealedFile (snd ?P2))"
  have "same_files io (snd ?P3)" "same_files (snd ?P3) (snd (ReadFileToBuffer (fst ?P3) junk (snd ?P3)))"
    using same_files_trans [OF same_files_trans [OF same_files_trans [OF same_files_ocalls(1) same_files_rows] same_files_ocalls(2)] same_files_ocalls(1)]
      same_files_read by blast+
  with same_files_ocalls(1) [of io SEALED_SKETCH]
  have fr: "same_files io io'" if "Freq_LoadDedupIndex junk EcallFreqIndex_new io = Inr (l, m, io')" for l m
    using that by (auto simp: Freq_LoadDedupIndex_def Let_def case_prod_beta same_files_def Ocall_CloseReadSealedFile_def rbind_def
        split: if_splits sum.splits)
  show ?thesis
    using assms same_files_seal_read [of io SEALED_PRIMAR_INDEX junk] same_files_seal_read [of io SEALED_SPARSE_INDEX junk] in_ fr
    by (auto simp: new_index_def EcallInEnclaveIndex_init_def EcallFreqIndex_init_def EcallExtremeBinIndex_init_def LoadPrimaryIndex_def
        EcallSparseIndex_init_def LoadHookIndex_def rbind_def case_prod_beta same_files_def
        split: option.splits index_type.splits sum.splits prod.splits)
qed

lemma read_info_closes: "rd (snd (read_info junk st io)) = None" "same_files io (snd (read_info junk st io))"
  using same_files_ocalls(1) [of io ENCLAVE_INDEX_INFO_NAME]
    same_files_ocalls(3) [of "snd (Ocall_InitReadSealedFile ENCLAVE_INDEX_INFO_NAME io)" 40 junk]
  by (simp_all add: read_info_def case_prod_beta Let_def Ocall_CloseReadSealedFile_def same_files_def)

lemma server_start_disk:
  assumes "server_start conf r1 r2 j1 j2 j3 indexType C dk = Inr (S, dk1)"
    and I: "Ecall_Enclave_Init conf r1 r2 j1 C (disk_sealed dk) = ((C', first), disk_sealed dk)"
  shows "srv_cfg S = C'" and "srv_first S = first" and "same_files (disk_sealed dk) (disk_sealed dk1)" and "rd (disk_sealed dk1) = None"
proof -
  obtain obj io' where n: "new_index (sendChunkBatchSize C') j2 (index_type_of_int indexType) (disk_sealed dk) = Inr (obj, io')"
      and d: "disk_sealed dk1 = snd (read_info j3 zero_stats io')" and S: "srv_cfg S = C'" "srv_first S = first"
    using assms by (auto simp: server_start_def Ecall_Init_Upload_def rbind_def Let_def case_prod_beta split: sum.splits)
  show "same_files (disk_sealed dk) (disk_sealed dk1)" unfolding d by (rule same_files_trans [OF same_files_new_index [OF n] read_info_closes(2)])
  show "rd (disk_sealed dk1) = None" unfolding d by (rule read_info_closes(1))
  show "srv_cfg S = C'" and "srv_first S = first" by (fact S)+
qed

text \<open>What holds of a running server and its disk, for the configuration and the index type it was started with.\<close>

definition started :: "enclave_config \<Rightarrow> enclave_cfg \<Rightarrow> server \<Rightarrow> disk \<Rightarrow> bool" where
  "started conf C S dk \<longleftrightarrow> rd (disk_sealed dk) = None \<and> wr (disk_sealed dk) = None \<and>
     keys_on (srv_cfg S, srv_first S) (disk_sealed dk) \<and>
     srv_cfg S = (configured conf C)\<lparr>enclaveKey := enclaveKey (srv_cfg S), indexQueryKey := indexQueryKey (srv_cfg S)\<rparr>"

lemma server_start_started:
  assumes start: "server_start conf r1 r2 j1 j2 j3 indexType C dk = Inr (S, dk1)" and rnd: "key_ok r1" "key_ok r2"
    and disk: "key_file_ok (disk_sealed dk)" "wr (disk_sealed dk) = None" "rd (disk_sealed dk) = None"
  shows "started conf C S dk1" and "files (disk_sealed dk1) = files (disk_sealed dk)"
proof -
  obtain k1 k2 first where
    I: "Ecall_Enclave_Init conf r1 r2 j1 C (disk_sealed dk) = (((configured conf C)\<lparr>enclaveKey := k1, indexQueryKey := k2\<rparr>, first), disk_sealed dk)"
      "keys_on ((configured conf C)\<lparr>enclaveKey := k1, indexQueryKey := k2\<rparr>, first) (disk_sealed dk)"
    using Ecall_Enclave_Init_keys [OF disk(3,1) rnd] by blast
  note d = server_start_disk [OF start I(1)]
  show "files (disk_sealed dk1) = files (disk_sealed dk)" using d(3) by (simp add: same_files_def)
  with d I(2) disk(2) show "started conf C S dk1" by (simp add: started_def same_files_def keys_on_def configured_def)
qed

lemma server_stop_start:
  assumes st: "started conf C S dk" and cc: "\<forall>f. can_create f"
    and obj: "index_type_of_int indexType = Some t"
      "obj_sealable can_create (unat (ec_sendChunkBatchSize conf)) orders t (srv_index S) (files (disk_sealed dk))"
    and db: "srv_store S = map_of items" "distinct (map fst items)" "\<forall>kv \<in> set items. item_ok kv \<and> fst kv \<noteq> []"
    and S': "S' = S\<lparr>srv_first := False, srv_index := obj_reloaded (srv_index S), srv_stats := info_of (srv_stats S)\<rparr>"
  shows "\<exists>dk2. server_stop can_create orders items S dk = Inr dk2 \<and> server_start conf r1 r2 j1 j2 j3 indexType C dk2 = Inr (S', dk2) \<and>
     started conf C S' dk2"
proof -
  let ?io = "disk_sealed dk" and ?C = "srv_cfg S" and ?k1 = "enclaveKey (srv_cfg S)" and ?k2 = "indexQueryKey (srv_cfg S)"
  have d: "rd ?io = None" "wr ?io = None" and k: "keys_on (?C, srv_first S) ?io"
      and C: "?C = (configured conf C)\<lparr>enclaveKey := ?k1, indexQueryKey := ?k2\<rparr>"
    using st by (simp_all add: started_def)
  have B: "sendChunkBatchSize ?C = unat (ec_sendChunkBatchSize conf)" by (subst C) (simp add: configured_def)
  obtain f rest where
    f: "rbind (Ecall_Destroy_Upload ?C can_create orders (srv_index S) (srv_stats S) ?io) (Ecall_Enclave_Destroy can_create (?C, srv_first S)) =
        Inr (?io\<lparr>files := f\<rparr>)"
      "f ENCLAVE_KEY_FILE_NAME = Some (?k1 @ ?k2 @ rest)"
      "\<forall>io2. rd io2 = None \<longrightarrow> files io2 = f \<longrightarrow> new_index (sendChunkBatchSize ?C) j2 (Some t) io2 = Inr (obj_reloaded (srv_index S), io2) \<and>
         read_info j3 zero_stats io2 = (info_of (srv_stats S), io2)"
    using server_stop_files [OF d(2) cc k, of orders t "srv_index S" "srv_stats S" j2 j3] obj(2) B by auto
  from db_reopened [OF db(2,3)] obtain b where b: "InMemoryDatabase_destroy items = Inr b" "InMemoryDatabase_OpenDB (Some b) = Inr (map_of items)" by blast
  let ?io2 = "?io\<lparr>files := f\<rparr>" and ?dk2 = "\<lparr>disk_sealed = ?io\<lparr>files := f\<rparr>, disk_db = Some b\<rparr>"
  have stop: "server_stop can_create orders items S dk = Inr ?dk2"
    using f(1) b(1) by (auto simp: server_stop_def rbind_def split: sum.splits)
  have kk: "key_ok ?k1" "key_ok ?k2" using k by (simp_all add: keys_on_def)
  have "Ecall_Enclave_Init conf r1 r2 j1 C ?io2 = ((?C, False), ?io2)"
    using d(1) f(2) kk by (subst C, intro Ecall_Enclave_Init_again) simp_all
  moreover have "Ecall_Init_Upload ?C j2 j3 indexType ?io2 = Inr (obj_reloaded (srv_index S), info_of (srv_stats S), ?io2)"
    using f(3) d(1) obj(1) by (simp add: Ecall_Init_Upload_def)
  ultimately have "server_start conf r1 r2 j1 j2 j3 indexType C ?dk2 = Inr (S', ?dk2)"
    using b(2) db(1) S' by (cases S) (simp add: server_start_def)
  moreover have "started conf C S' ?dk2" using d kk f(2) C S' by (simp add: started_def keys_on_def)
  ultimately show ?thesis using stop by blast
qed

text \<open>
  (C9) A restart loses nothing. A server is started on whatever is on the disk, its index, its statistics and
  its index store change, and it is stopped and started again with the same configuration and index type:
  the stop succeeds, and the new server has the same keys, although they were perhaps drawn only at the
  first start, the same index up to the counters that are not sealed, the same statistics and the same index
  store. The random numbers of the second start and the contents of uninitialised buffers do not matter.
\<close>

theorem server_restart:
  assumes start: "server_start conf r1 r2 j1 j2 j3 indexType C dk = Inr (S, dk1)"
    and rnd: "key_ok r1" "key_ok r2" and disk: "key_file_ok (disk_sealed dk)" "wr (disk_sealed dk) = None" "rd (disk_sealed dk) = None"
    and run: "S' = S\<lparr>srv_index := obj, srv_stats := st, srv_store := map_of items\<rparr>"
    and obj: "index_type_of_int indexType = Some t" "obj_sealable can_create (unat (ec_sendChunkBatchSize conf)) orders t obj (files (disk_sealed dk))"
    and db: "distinct (map fst items)" "\<forall>kv \<in> set items. item_ok kv \<and> fst kv \<noteq> []" and cc: "\<forall>f. can_create f"
  shows "\<exists>dk2. server_stop can_create orders items S' dk1 = Inr dk2 \<and>
     server_start conf r1' r2' j1' j2' j3' indexType C dk2 =
       Inr (S'\<lparr>srv_first := False, srv_index := obj_reloaded obj, srv_stats := info_of st\<rparr>, dk2)"
proof -
  note s = server_start_started [OF start rnd disk]
  have st: "started conf C S' dk1" using s(1) run by (simp add: started_def)
  have "\<exists>dk2. server_stop can_create orders items S' dk1 = Inr dk2 \<and>
      server_start conf r1' r2' j1' j2' j3' indexType C dk2 =
        Inr (S'\<lparr>srv_first := False, srv_index := obj_reloaded (srv_index S'), srv_stats := info_of (srv_stats S')\<rparr>, dk2) \<and>
      started conf C (S'\<lparr>srv_first := False, srv_index := obj_reloaded (srv_index S'), srv_stats := info_of (srv_stats S')\<rparr>) dk2"
    by (rule server_stop_start [OF st cc obj(1) _ _ db refl]) (use obj(2) run s(2) in simp_all)
  then show ?thesis using run by auto
qed

definition blank_disk :: disk where
  "blank_disk = \<lparr>disk_sealed = \<lparr>files = Map.empty, wr = None, rd = None\<rparr>, disk_db = None\<rparr>"

definition sample_conf :: enclave_config where
  "sample_conf = \<lparr>ec_sendChunkBatchSize = 2, ec_sendRecipeBatchSize = 2, ec_topKParam = 2\<rparr>"

definition sample_server :: server where
  "sample_server = \<lparr>srv_cfg = (configured sample_conf sample_cfg)\<lparr>enclaveKey := replicate 32 1, indexQueryKey := replicate 32 2\<rparr>,
     srv_first = True, srv_index = InEnclaveIndex Map.empty, srv_stats = zero_stats, srv_store = Map.empty\<rparr>"

lemma sample_server_start:
  "server_start sample_conf (replicate 32 1) (replicate 32 2) [] [] [] 1 sample_cfg blank_disk = Inr (sample_server, blank_disk)"
  by (simp add: server_start_def blank_disk_def InMemoryDatabase_OpenDB_def Ecall_Enclave_Init_def Ocall_InitReadSealedFile_def
      Ocall_CloseReadSealedFile_def Ecall_Init_Upload_def index_type_of_int_def new_index_def EcallInEnclaveIndex_init_def
      InEnclave_LoadDedupIndex_def read_info_def sample_server_def configured_def)

definition sample_items :: "(bytes \<times> bytes) list" where
  "sample_items = [(replicate 32 5, replicate 16 6)]"

theorem server_restart_witness:
  "\<exists>dk2. server_stop (\<lambda>f. True) \<lparr>in_order = \<lambda>m. sample_items, primary_order = \<lambda>m. [], hook_order = \<lambda>m. []\<rparr> [([1], [2, 3])]
       (sample_server\<lparr>srv_index := InEnclaveIndex (map_of sample_items), srv_stats := zero_stats\<lparr>logicalChunkNum := 7\<rparr>, srv_store := map_of [([1], [2, 3])]\<rparr>) blank_disk = Inr dk2 \<and>
     server_start sample_conf (replicate 32 8) (replicate 32 9) [] [] [] 1 sample_cfg dk2 =
       Inr (sample_server\<lparr>srv_index := InEnclaveIndex (map_of sample_items), srv_stats := zero_stats\<lparr>logicalChunkNum := 7\<rparr>, srv_store := map_of [([1], [2, 3])],
         srv_first := False\<rparr>, dk2)"
proof -
  have ok: "obj_sealable (\<lambda>f. True) (unat (ec_sendChunkBatchSize sample_conf)) \<lparr>in_order = \<lambda>m. sample_items, primary_order = \<lambda>m. [], hook_order = \<lambda>m. []\<rparr> IN_ENCLAVE
      (InEnclaveIndex (map_of sample_items)) (files (disk_sealed blank_disk))"
    by (simp add: obj_sealable_def type_of_def in_sealable_def sample_conf_def items_ok_def sample_items_def const_defs)
  have "\<exists>dk2. server_stop (\<lambda>f. True) \<lparr>in_order = \<lambda>m. sample_items, primary_order = \<lambda>m. [], hook_order = \<lambda>m. []\<rparr> [([1], [2, 3])]
       (sample_server\<lparr>srv_index := InEnclaveIndex (map_of sample_items), srv_stats := zero_stats\<lparr>logicalChunkNum := 7\<rparr>, srv_store := map_of [([1], [2, 3])]\<rparr>) blank_disk = Inr dk2 \<and>
     server_start sample_conf (replicate 32 8) (replicate 32 9) [] [] [] 1 sample_cfg dk2 =
       Inr ((sample_server\<lparr>srv_index := InEnclaveIndex (map_of sample_items), srv_stats := zero_stats\<lparr>logicalChunkNum := 7\<rparr>, srv_store := map_of [([1], [2, 3])]\<rparr>)\<lparr>
         srv_first := False, srv_index := obj_reloaded (InEnclaveIndex (map_of sample_items)), srv_stats := info_of (zero_stats\<lparr>logicalChunkNum := 7\<rparr>)\<rparr>, dk2)"
    by (rule server_restart [OF sample_server_start _ _ _ _ _ refl _ ok])
      (simp_all add: key_ok_def const_defs key_file_ok_def blank_disk_def index_type_of_int_def item_ok_def)
  then show ?thesis by (simp add: obj_reloaded_def info_of_def zero_stats_def sample_server_def)
qed

end
