(* ===== verification/Sessions.thy ===== *)
theory Sessions
  imports NearExact EnclaveLife
begin

text \<open>
  Uploads one after the other. The locale \<open>lasting_index\<close> adds to an index for the receiver that its
  invariant depends on the storage only: what one session leaves behind is what the next one needs, and
  every recipe that led to its chunks before a session leads to them afterwards. All five indexes are
  instances.
\<close>

section \<open>The storage between two sessions\<close>

definition session_start :: "enclave_cfg \<Rightarrow> enclave_client \<Rightarrow> bytes \<Rightarrow> statistics \<Rightarrow> storage \<Rightarrow> up_state" where
  "session_start C c junk st S = (upload_start C c junk S)\<lparr>stats := st\<rparr>"

text \<open>A client that \<open>Ecall_Init_Client\<close> has just made.\<close>

definition new_client :: "enclave_client \<Rightarrow> bool" where
  "new_client c \<longleftrightarrow> length (iv c) = CRYPTO_BLOCK_SIZE \<and> key_ok (masterKey c) \<and> inRecipe c = \<lparr>recipeNum = 0, entryList = []\<rparr> \<and>
     inContainer c = \<lparr>ic_buf = [], curSize = 0\<rparr> \<and> localIndex c = Map.empty \<and> seg_chunkNum (seg c) = 0 \<and> segmentSize (seg c) = 0"

definition blank_session :: "up_state \<Rightarrow> bool" where
  "blank_session s \<longleftrightarrow> localIndex (sgx s) = Map.empty \<and> outQuery (outc s) = [] \<and>
     seg_chunkNum (seg (sgx s)) = 0 \<and> segmentSize (seg (sgx s)) = 0"

definition small_containers :: "(bytes \<rightharpoonup> bytes) \<Rightarrow> bool" where
  "small_containers fs \<longleftrightarrow> (\<forall>b \<in> ran fs. length b \<le> unat MAX_CONTAINER_SIZE)"

lemma Ecall_Init_Client_new:
  assumes "Ecall_Init_Client C ki cid t rand_iv emk = Inr c" and "length rand_iv = CRYPTO_BLOCK_SIZE" and "key_ok (masterKey c)"
  shows "new_client c"
  using assms
  by (auto simp: Ecall_Init_Client_def SetMasterKey_def EnclaveClient_InitUploadBuffer_def blank_client_def new_client_def rbind_eq_Inr Let_def
      split: option.splits)

lemma session_start_inv:
  assumes C: "cfg_ok C" and c: "new_client c" and S: "small_containers (containerFiles S)" and ids: "names_free C n S"
  shows "store_inv C n (session_start C c junk st S)" and "recipe_holds C (take 16 (junk @ replicate 16 0), masterKey c) (session_start C c junk st S) []"
    and "chunk_in C (containerFiles S) a = Some d \<Longrightarrow> resolve C (session_start C c junk st S) a = Some d"
    and "blank_session (session_start C c junk st S)" and "indexStore (store (session_start C c junk st S)) = indexStore S"
    and "sgx (session_start C c junk st S) = c"
proof -
  let ?s = "upload_start C c junk S" and ?t = "session_start C c junk st S"
  have c': "length (iv c) = CRYPTO_BLOCK_SIZE" "key_ok (masterKey c)" "inRecipe c = \<lparr>recipeNum = 0, entryList = []\<rparr>"
      "inContainer c = \<lparr>ic_buf = [], curSize = 0\<rparr>"
    using c by (simp_all add: new_client_def)
  note u = upload_start_inv [OF C c' S [unfolded small_containers_def] ids, of junk]
  have sc: "same_containers ?s ?t" by (simp add: same_containers_def session_start_def)
  show "store_inv C n ?t" using u(1) same_containers_views(3) [OF sc] by simp
  show "recipe_holds C (take 16 (junk @ replicate 16 0), masterKey c) ?t []"
    using u(2) by (simp add: recipe_holds_def recipe_of_def recipe_rep_def session_start_def)
  show "resolve C ?t a = Some d" if "chunk_in C (containerFiles S) a = Some d"
  proof -
    let ?ids = "map (\<lambda>i. uuid_at C (randPos S + CONTAINER_ID_LENGTH * i)) [0..<Suc n]"
    have "uuid_at C (randPos S + CONTAINER_ID_LENGTH * 0) \<in> set ?ids" unfolding set_map by (rule imageI) (simp del: upt_Suc)
    then have "uuid_at C (randPos S) \<notin> dom (containerFiles S)"
      using ids unfolding names_free_def Let_def by auto
    then have "resolve C ?s a = Some d"
      using that unfolding u(3) by (auto simp: chunk_in_def raw_in_def split: option.splits)
    then show ?thesis using same_containers_views(2) [OF sc] by simp
  qed
  show "sgx ?t = c" by (simp add: session_start_def upload_start_def ClientVar_InitUploadBuffer_def case_prod_beta)
  then show "blank_session ?t"
    using c by (simp add: blank_session_def new_client_def) (simp add: session_start_def upload_start_def ClientVar_InitUploadBuffer_def case_prod_beta)
  show "indexStore (store ?t) = indexStore S"
    by (simp add: session_start_def upload_start_def ClientVar_InitUploadBuffer_def case_prod_beta)
qed

section \<open>The contract\<close>

text \<open>
  What a session leaves behind, as \<open>Run_progress\<close> of \<open>upload_index\<close> states it; \<open>settled\<close> is the
  invariant of the index.
\<close>

definition left_behind ::
  "enclave_cfg \<Rightarrow> ('i \<Rightarrow> up_state \<Rightarrow> bool) \<Rightarrow> bytes \<Rightarrow> bytes list \<Rightarrow> net_msg \<Rightarrow> up_state \<Rightarrow> (receiver \<times> 'i \<times> up_state) res \<Rightarrow> bool" where
  "left_behind C settled mk cs em s0 result \<longleftrightarrow>
     (\<exists>r x s f. result = Inr (r, x, s) \<and> finished r = Some f \<and> uploaded C mk (containerFiles (store s)) f cs \<and>
        take 16 f = FileRecipeHead_bytes (FileRecipeHead_of_bytes (dataBuffer em)) \<and>
        (\<exists>s1. settled x s1 \<and> indexStore (store s) = indexStore (store s1) \<and>
           (\<forall>a d. resolve C s1 a = Some d \<longrightarrow> chunk_in C (containerFiles (store s)) a = Some d) \<and>
           (\<forall>as ds. leads_to C s0 as ds \<longrightarrow> leads_to C s1 as ds)))"

text \<open>
  \<open>per\<close> is the number of names a chunk may need, \<open>fresh\<close> what an index that draws names itself needs of
  them, \<open>safe\<close> what it assumes about the chunks to come.
\<close>

locale lasting_index =
  fixes C :: enclave_cfg and inv :: "nat \<Rightarrow> 'i \<times> up_state \<Rightarrow> bool"
    and batch :: "net_msg \<Rightarrow> 'i \<times> up_state \<Rightarrow> ('i \<times> up_state) res" and tail :: "'i \<times> up_state \<Rightarrow> ('i \<times> up_state) res"
    and per :: nat and fresh :: "nat \<Rightarrow> up_state \<Rightarrow> bool" and safe :: "'i \<times> up_state \<Rightarrow> bytes list \<Rightarrow> bool"
  assumes inv_moves: "inv n0 (x, s0) \<Longrightarrow> store_inv C n s \<Longrightarrow> blank_session s \<Longrightarrow> indexStore (store s) = indexStore (store s0) \<Longrightarrow>
      \<forall>a d. resolve C s0 a = Some d \<longrightarrow> resolve C s a = Some d \<Longrightarrow> fresh n s \<Longrightarrow> inv n (x, s)"
    and runs: "inv (per * length (concat css)) (x, s) \<Longrightarrow> blank_session s \<Longrightarrow> safe (x, s) (concat css) \<Longrightarrow> recipe_holds C h0 s [] \<Longrightarrow>
      length (fst h0) = 16 \<Longrightarrow> list_all2 (batch_of C s) ms css \<Longrightarrow> \<forall>m \<in> set ms. messageType m = CLIENT_UPLOAD_CHUNK \<Longrightarrow>
      \<forall>d \<in> set (concat css). chunk_ok C d \<Longrightarrow> messageType em = CLIENT_UPLOAD_RECIPE_END \<Longrightarrow> \<forall>f. can_open f \<Longrightarrow>
      left_behind C (\<lambda>x s1. \<exists>n. inv n (x, s1)) (snd h0) (concat css) em s (DataReceiver_Run C batch tail can_open (ms @ [em]) (x, s))"
begin

definition kept :: "'i \<Rightarrow> storage \<Rightarrow> bool" where
  "kept x S \<longleftrightarrow> small_containers (containerFiles S) \<and>
     (\<exists>n s. inv n (x, s) \<and> indexStore (store s) = indexStore S \<and>
        (\<forall>a d. resolve C s a = Some d \<longrightarrow> chunk_in C (containerFiles S) a = Some d))"

text \<open>A session on what an earlier one has left.\<close>

lemma session:
  assumes C: "cfg_ok C" and k: "kept x S" and c: "new_client c" and ids: "names_free C (per * length (concat css)) S"
    and st: "s = session_start C c junk st0 S" and fr: "fresh (per * length (concat css)) s" and sf: "safe (x, s) (concat css)"
    and ms: "list_all2 (batch_of C s) ms css" "\<forall>m \<in> set ms. messageType m = CLIENT_UPLOAD_CHUNK"
      "\<forall>d \<in> set (concat css). chunk_ok C d" "messageType em = CLIENT_UPLOAD_RECIPE_END" and op: "\<forall>f. can_open f"
  shows "\<exists>r x' s' f. DataReceiver_Run C batch tail can_open (ms @ [em]) (x, s) = Inr (r, x', s') \<and> finished r = Some f \<and>
     uploaded C (masterKey c) (containerFiles (store s')) f (concat css) \<and>
     take 16 f = FileRecipeHead_bytes (FileRecipeHead_of_bytes (dataBuffer em)) \<and> kept x' (store s') \<and>
     (\<forall>mk f cs. uploaded C mk (containerFiles S) f cs \<longrightarrow> uploaded C mk (containerFiles (store s')) f cs)"
proof -
  from k obtain n0 s0 where
    k0: "small_containers (containerFiles S)" "inv n0 (x, s0)" "indexStore (store s0) = indexStore S"
      "\<forall>a d. resolve C s0 a = Some d \<longrightarrow> chunk_in C (containerFiles S) a = Some d"
    unfolding kept_def by blast
  note i = session_start_inv [OF C c k0(1) ids, where junk = junk and st = st0, folded st]
  have "indexStore (store s) = indexStore (store s0)" using i(5) k0(3) by simp
  moreover have "\<forall>a d. resolve C s0 a = Some d \<longrightarrow> resolve C s a = Some d" using k0(4) i(3) by blast
  ultimately have v: "inv (per * length (concat css)) (x, s)" using inv_moves [OF k0(2) i(1,4)] fr by blast
  have l: "length (fst (take 16 (junk @ replicate 16 0), masterKey c)) = 16" by simp
  from runs [OF v i(4) sf i(2) l ms op] obtain r x' s' f s1 where
    r: "DataReceiver_Run C batch tail can_open (ms @ [em]) (x, s) = Inr (r, x', s')" "finished r = Some f"
      "uploaded C (masterKey c) (containerFiles (store s')) f (concat css)" "\<exists>n. inv n (x', s1)"
      "indexStore (store s') = indexStore (store s1)"
      "\<forall>a d. resolve C s1 a = Some d \<longrightarrow> chunk_in C (containerFiles (store s')) a = Some d"
      "\<forall>as ds. leads_to C s as ds \<longrightarrow> leads_to C s1 as ds" "take 16 f = FileRecipeHead_bytes (FileRecipeHead_of_bytes (dataBuffer em))"
    unfolding left_behind_def snd_conv by blast
  have small: "small_containers (containerFiles (store s'))" using r(3) by (simp add: uploaded_def small_containers_def)
  have one: "\<exists>d''. chunk_in C (containerFiles (store s')) a = Some d'' \<and> chunk_fp C d'' = chunk_fp C d"
    if "wf_entry a" "chunk_in C (containerFiles S) a = Some d'" "chunk_fp C d' = chunk_fp C d" for a d d'
  proof -
    have "leads_to C s [a] [d]" using that i(3) by (auto simp: leads_to_def)
    then have "leads_to C s1 [a] [d]" using r(7) by blast
    then show ?thesis using r(6) by (auto simp: leads_to_def)
  qed
  have "uploaded C mk (containerFiles (store s')) f cs" if "uploaded C mk (containerFiles S) f cs" for mk f cs
  proof -
    from that obtain as where as: "file_rep C mk (map RecipeEntry_bytes as) (drop 16 f)"
        "list_all2 (\<lambda>a d. wf_entry a \<and> (\<exists>d'. chunk_in C (containerFiles S) a = Some d' \<and> chunk_fp C d' = chunk_fp C d)) as cs"
      by (auto simp: uploaded_def)
    have "list_all2 (\<lambda>a d. wf_entry a \<and> (\<exists>d'. chunk_in C (containerFiles (store s')) a = Some d' \<and> chunk_fp C d' = chunk_fp C d)) as cs"
      using as(2) by (rule list_all2_mono) (use one in blast)
    with as(1) small show ?thesis by (auto simp: uploaded_def small_containers_def)
  qed
  moreover have "kept x' (store s')" unfolding kept_def using small r(4-6) by metis
  ultimately show ?thesis using r(1-3,8) by blast
qed

end

section \<open>The five indexes\<close>

context upload_index
begin

lemma Run_left:
  assumes "progress [] (concat css) st" and "length (fst h0) = 16"
    and "list_all2 (batch_of C (snd st)) ms css" and "\<forall>m \<in> set ms. messageType m = CLIENT_UPLOAD_CHUNK"
    and "messageType em = CLIENT_UPLOAD_RECIPE_END" and "\<forall>x. can_open x"
  shows "left_behind C settled (snd h0) (concat css) em (snd st) (DataReceiver_Run C batch tail can_open (ms @ [em]) st)"
  using Run_progress [OF assms] unfolding left_behind_def by blast

end

context server_index
begin

lemma served_left:
  assumes "inv (1 * length (concat css)) (x, s)" and "recipe_holds C h0 s []" and "length (fst h0) = 16"
    and "list_all2 (batch_of C s) ms css" and "\<forall>m \<in> set ms. messageType m = CLIENT_UPLOAD_CHUNK"
    and "\<forall>d \<in> set (concat css). chunk_ok C d" and "messageType em = CLIENT_UPLOAD_RECIPE_END" and "\<forall>x. can_open x"
  shows "left_behind C (\<lambda>x s. \<exists>n. inv n (x, s)) (snd h0) (concat css) em s (DataReceiver_Run C batch tail can_open (ms @ [em]) (x, s))"
proof -
  have "served [] (concat css) (x, s)" using served_start [of "concat css" 0 "(x, s)"] assms(1,2,6) by simp
  from receiver.Run_left [OF this assms(3) _ assms(5,7,8)] assms(4) show ?thesis by simp
qed

end

lemma at_fp_mono: "at_fp C s0 fp a \<Longrightarrow> \<forall>a d. resolve C s0 a = Some d \<longrightarrow> resolve C s a = Some d \<Longrightarrow> at_fp C s fp a"
  by (auto simp: at_fp_def)

lemma sound_items_mono: "sound_items C s0 items \<Longrightarrow> \<forall>a d. resolve C s0 a = Some d \<longrightarrow> resolve C s a = Some d \<Longrightarrow> sound_items C s items"
  unfolding sound_items_def by fastforce

lemma sound_mono: "containers.sound C fp s0 m \<Longrightarrow> \<forall>a d. resolve C s0 a = Some d \<longrightarrow> resolve C s a = Some d \<Longrightarrow> containers.sound C fp s m"
  unfolding containers.sound_def by blast

lemma bin_inv_moves:
  assumes "bin_inv C n0 s0" and "store_inv C n s" and "blank_session s" and i: "indexStore (store s) = indexStore (store s0)"
    and r: "\<forall>a d. resolve C s0 a = Some d \<longrightarrow> resolve C s a = Some d" and "free_names C n s"
  shows "bin_inv C n s"
proof -
  have "store_bins C s0" using assms(1) by (simp add: bin_inv_def)
  then have "store_bins C s"
    unfolding store_bins_def bin_at_same [OF i] i using sound_items_mono [OF _ r] by blast
  with assms show ?thesis by (simp add: bin_inv_def blank_session_def)
qed

interpretation freq_last: lasting_index C "freq_inv C" "Freq_ProcessOneBatch C" "Freq_ProcessTailBatch C" 1 "\<lambda>n s. True" "\<lambda>st cs. True" for C
proof
  fix n0 x s0 n s
  assume a: "freq_inv C n0 (x, s0)" "store_inv C n s" "blank_session s" "indexStore (store s) = indexStore (store s0)"
    "\<forall>a d. resolve C s0 a = Some d \<longrightarrow> resolve C s a = Some d"
  have "db_ok C s (indexStore (store s))" "heap_ok C s (insideDedupIndex x)"
    using a(1,4) at_fp_mono [OF _ a(5)] by (auto simp: freq_inv_def db_ok_def heap_ok_def)
  then show "freq_inv C n (x, s)" using a(1-3) by (simp add: freq_inv_def blank_session_def)
qed (rule freq_server.served_left)

interpretation in_last: lasting_index C "in_inv C" "InEnclave_ProcessOneBatch C" "InEnclave_ProcessTailBatch C" 1 "\<lambda>n s. True" "\<lambda>st cs. True" for C
proof
  fix n0 x s0 n s
  assume a: "in_inv C n0 (x, s0)" "store_inv C n s" "\<forall>a d. resolve C s0 a = Some d \<longrightarrow> resolve C s a = Some d"
  then show "in_inv C n (x, s)" using sound_mono [where fp = "chunk_fp C", OF _ a(3)] by (simp add: in_inv_def)
qed (rule in_server.served_left)

interpretation out_last: lasting_index C "\<lambda>n st. out_inv C n (snd st)" "out_batch C" "out_tail C" 1 "\<lambda>n s. True" "\<lambda>st cs. True" for C
proof
  fix n0 and x :: unit and s0 n s
  assume a: "out_inv C n0 (snd (x, s0))" "store_inv C n s" "blank_session s" "indexStore (store s) = indexStore (store s0)"
    "\<forall>a d. resolve C s0 a = Some d \<longrightarrow> resolve C s a = Some d"
  then show "out_inv C n (snd (x, s))" using sound_mono [where fp = "chunk_fp C", OF _ a(5)] by (simp add: out_inv_def blank_session_def)
qed (rule out_server.served_left)

interpretation extreme_last: lasting_index C "extreme_ok C iter" "Extreme_ProcessOneBatch C iter" "Extreme_ProcessTailBatch C iter"
  3 "free_names C" "\<lambda>st cs. extreme_safe C st (segments C [] cs)" for C iter
proof
  fix n0 x s0 n s
  assume a: "extreme_ok C iter n0 (x, s0)" "store_inv C n s" "blank_session s" "indexStore (store s) = indexStore (store s0)"
    "\<forall>a d. resolve C s0 a = Some d \<longrightarrow> resolve C s a = Some d" "free_names C n s"
  have "bin_inv C n0 s0" using a(1) by (simp add: extreme_ok_def extreme_inv_def)
  from bin_inv_moves [OF this a(2-6)] a(1,4) show "extreme_ok C iter n (x, s)" by (simp add: extreme_ok_def extreme_inv_def)
next
  fix css x s h0 ms and em :: net_msg and can_open :: "bytes \<Rightarrow> bool"
  assume a: "extreme_ok C iter (3 * length (concat css)) (x, s)" "blank_session s" "extreme_safe C (x, s) (segments C [] (concat css))"
    "recipe_holds C h0 s []" "length (fst h0) = 16" "list_all2 (batch_of C s) ms css"
    "\<forall>m \<in> set ms. messageType m = CLIENT_UPLOAD_CHUNK" "\<forall>d \<in> set (concat css). chunk_ok C d"
    "messageType em = CLIENT_UPLOAD_RECIPE_END" "\<forall>f. can_open f"
  have b: "seg_chunkNum (seg (sgx s)) = 0" "segmentSize (seg (sgx s)) = 0" using a(2) by (simp_all add: blank_session_def)
  have "extreme_ok C iter (3 * length (concat css) + 0) (x, s)" using a(1) by simp
  from extreme_server.Run_left [OF extreme.progress_start [OF this a(3,4) b a(8)] a(5) _ a(7,9,10)] a(6)
  show "left_behind C (\<lambda>x s1. \<exists>n. extreme_ok C iter n (x, s1)) (snd h0) (concat css) em s
      (DataReceiver_Run C (Extreme_ProcessOneBatch C iter) (Extreme_ProcessTailBatch C iter) can_open (ms @ [em]) (x, s))"
    by simp
qed

interpretation sparse_last: lasting_index C "sparse_ok C iter srt" "Sparse_ProcessOneBatch C iter srt" "Sparse_ProcessTailBatch C iter srt"
  3 "free_names C" "\<lambda>st cs. True" for C iter srt
proof
  fix n0 x s0 n s
  assume a: "sparse_ok C iter srt n0 (x, s0)" "store_inv C n s" "blank_session s" "indexStore (store s) = indexStore (store s0)"
    "\<forall>a d. resolve C s0 a = Some d \<longrightarrow> resolve C s a = Some d" "free_names C n s"
  have "bin_inv C n0 s0" using a(1) by (simp add: sparse_ok_def sparse_inv_def)
  from bin_inv_moves [OF this a(2-6)] a(1,4) show "sparse_ok C iter srt n (x, s)" by (simp add: sparse_ok_def sparse_inv_def)
next
  fix css x s h0 ms and em :: net_msg and can_open :: "bytes \<Rightarrow> bool"
  assume a: "sparse_ok C iter srt (3 * length (concat css)) (x, s)" "blank_session s"
    "recipe_holds C h0 s []" "length (fst h0) = 16" "list_all2 (batch_of C s) ms css"
    "\<forall>m \<in> set ms. messageType m = CLIENT_UPLOAD_CHUNK" "\<forall>d \<in> set (concat css). chunk_ok C d"
    "messageType em = CLIENT_UPLOAD_RECIPE_END" "\<forall>f. can_open f"
  have b: "seg_chunkNum (seg (sgx s)) = 0" "segmentSize (seg (sgx s)) = 0" using a(2) by (simp_all add: blank_session_def)
  have "sparse_ok C iter srt (3 * length (concat css) + 0) (x, s)" using a(1) by simp
  from sparse_server.Run_left [OF sparse.progress_start [OF this TrueI a(3) b a(7)] a(4) _ a(6,8,9)] a(5)
  show "left_behind C (\<lambda>x s1. \<exists>n. sparse_ok C iter srt n (x, s1)) (snd h0) (concat css) em s
      (DataReceiver_Run C (Sparse_ProcessOneBatch C iter srt) (Sparse_ProcessTailBatch C iter srt) can_open (ms @ [em]) (x, s))"
    by simp
qed

end
