(* ===== verification/History.thy ===== *)
theory History
  imports Sessions
begin

text \<open>
  The server over its whole life. The batches of a connection go to whatever index object the enclave has
  (\<open>Ecall_ProcChunkBatch\<close>), connections come one after the other, and between them the server may be
  stopped and started again. A step relation over these events has one invariant for all five indexes;
  it gives that every recipe on the disk can be restored, however long ago it was uploaded.
\<close>

section \<open>Dispatch\<close>

text \<open>The orders in which the segment indexes traverse their hash maps, and the sort of the sparse index.\<close>

record traversals =
  bin_iter :: "(bytes \<times> bytes) list \<Rightarrow> (bytes \<times> bytes) list"
  candidate_iter :: "(bytes \<times> u32) list \<Rightarrow> (bytes \<times> u32) list"
  candidate_sort :: "(bytes \<times> u32) list \<Rightarrow> (bytes \<times> u32) list"

definition as_obj :: "('i \<Rightarrow> index_obj) \<Rightarrow> ('i \<times> up_state) res \<Rightarrow> (index_obj \<times> up_state) res" where
  "as_obj K r = rbind r (\<lambda>(x, s). Inr (K x, s))"

definition Ecall_ProcChunkBatch :: "enclave_cfg \<Rightarrow> traversals \<Rightarrow> net_msg \<Rightarrow> index_obj \<times> up_state \<Rightarrow> (index_obj \<times> up_state) res" where
  "Ecall_ProcChunkBatch C tr m st =
     (case fst st of
        OutEnclaveIndex \<Rightarrow> as_obj (\<lambda>u. OutEnclaveIndex) (out_batch C m ((), snd st))
      | InEnclaveIndex x \<Rightarrow> as_obj InEnclaveIndex (InEnclave_ProcessOneBatch C m (x, snd st))
      | ExtremeBinIndex x \<Rightarrow> as_obj ExtremeBinIndex (Extreme_ProcessOneBatch C (bin_iter tr) m (x, snd st))
      | SparseIndex x \<Rightarrow> as_obj SparseIndex (Sparse_ProcessOneBatch C (candidate_iter tr) (candidate_sort tr) m (x, snd st))
      | FreqIndex x \<Rightarrow> as_obj FreqIndex (Freq_ProcessOneBatch C m (x, snd st)))"

definition Ecall_ProcTailChunkBatch :: "enclave_cfg \<Rightarrow> traversals \<Rightarrow> index_obj \<times> up_state \<Rightarrow> (index_obj \<times> up_state) res" where
  "Ecall_ProcTailChunkBatch C tr st =
     (case fst st of
        OutEnclaveIndex \<Rightarrow> as_obj (\<lambda>u. OutEnclaveIndex) (out_tail C ((), snd st))
      | InEnclaveIndex x \<Rightarrow> as_obj InEnclaveIndex (InEnclave_ProcessTailBatch C (x, snd st))
      | ExtremeBinIndex x \<Rightarrow> as_obj ExtremeBinIndex (Extreme_ProcessTailBatch C (bin_iter tr) (x, snd st))
      | SparseIndex x \<Rightarrow> as_obj SparseIndex (Sparse_ProcessTailBatch C (candidate_iter tr) (candidate_sort tr) (x, snd st))
      | FreqIndex x \<Rightarrow> as_obj FreqIndex (Freq_ProcessTailBatch C (x, snd st)))"

text \<open>A connection on the object is the connection on the index inside.\<close>

lemma as_obj_message:
  assumes b: "\<And>m x s. batch' m (K x, s) = as_obj K (batch m (x, s))" and t: "\<And>x s. tail' (K x, s) = as_obj K (tail (x, s))"
  shows "DataReceiver_message batch' tail' m (r, K x, s) = rbind (DataReceiver_message batch tail m (r, x, s)) (\<lambda>(r, x, s). Inr (r, K x, s))"
  by (auto simp: DataReceiver_message_def EnclaveIndex_ProcessOneBatch_def b t as_obj_def rbind_def split: protocol_code.splits sum.splits)

lemma as_obj_messages:
  assumes "\<And>m x s. batch' m (K x, s) = as_obj K (batch m (x, s))" and "\<And>x s. tail' (K x, s) = as_obj K (tail (x, s))"
  shows "rfold (DataReceiver_message batch' tail') ms (r, K x, s) =
     rbind (rfold (DataReceiver_message batch tail) ms (r, x, s)) (\<lambda>(r, x, s). Inr (r, K x, s))"
proof (induction ms arbitrary: r x s)
  case Nil
  then show ?case by simp
next
  case (Cons m ms)
  show ?case
  proof (cases "DataReceiver_message batch tail m (r, x, s)")
    case (Inl e)
    then show ?thesis by (simp add: as_obj_message [where batch' = batch' and tail' = tail', OF assms])
  next
    case (Inr q)
    then show ?thesis using Cons.IH by (cases q) (simp add: as_obj_message [where batch' = batch' and tail' = tail', OF assms])
  qed
qed

lemma as_obj_Run:
  assumes "\<And>m x s. batch' m (K x, s) = as_obj K (batch m (x, s))" and "\<And>x s. tail' (K x, s) = as_obj K (tail (x, s))"
    and "DataReceiver_Run C batch tail can_open ms (x, s) = Inr (r, x', s')"
  shows "DataReceiver_Run C batch' tail' can_open ms (K x, s) = Inr (r, K x', s')"
  using assms(3) unfolding DataReceiver_Run_def as_obj_messages [where batch' = batch' and tail' = tail', OF assms(1,2)]
  by (auto simp: rbind_def split: sum.splits)

section \<open>One session on any index\<close>

definition traversals_ok :: "traversals \<Rightarrow> bool" where
  "traversals_ok tr \<longleftrightarrow> iteration (bin_iter tr) \<and> iteration (candidate_iter tr) \<and> sorts_by_count (candidate_sort tr)"

definition names_per_chunk :: "index_obj \<Rightarrow> nat" where
  "names_per_chunk obj = (case obj of ExtremeBinIndex x \<Rightarrow> 3 | SparseIndex x \<Rightarrow> 3 | _ \<Rightarrow> 1)"

definition obj_fresh :: "enclave_cfg \<Rightarrow> index_obj \<Rightarrow> nat \<Rightarrow> up_state \<Rightarrow> bool" where
  "obj_fresh C obj n s = (case obj of ExtremeBinIndex x \<Rightarrow> free_names C n s | SparseIndex x \<Rightarrow> free_names C n s | _ \<Rightarrow> True)"

definition obj_safe :: "enclave_cfg \<Rightarrow> index_obj \<times> up_state \<Rightarrow> bytes list \<Rightarrow> bool" where
  "obj_safe C st cs = (case fst st of ExtremeBinIndex x \<Rightarrow> extreme_safe C (x, snd st) (segments C [] cs) | _ \<Rightarrow> True)"

definition obj_kept :: "enclave_cfg \<Rightarrow> traversals \<Rightarrow> index_obj \<Rightarrow> storage \<Rightarrow> bool" where
  "obj_kept C tr obj S =
     (case obj of
        OutEnclaveIndex \<Rightarrow> out_last.kept C () S
      | InEnclaveIndex x \<Rightarrow> in_last.kept C x S
      | ExtremeBinIndex x \<Rightarrow> extreme_last.kept C (bin_iter tr) x S
      | SparseIndex x \<Rightarrow> sparse_last.kept C (candidate_iter tr) (candidate_sort tr) x S
      | FreqIndex x \<Rightarrow> freq_last.kept C x S)"

text \<open>The conclusion of \<open>lasting_index.session\<close>, for any index.\<close>

definition session_result ::
  "enclave_cfg \<Rightarrow> ('i \<Rightarrow> storage \<Rightarrow> bool) \<Rightarrow> bytes \<Rightarrow> bytes list \<Rightarrow> net_msg \<Rightarrow> storage \<Rightarrow> (receiver \<times> 'i \<times> up_state) res \<Rightarrow> bool" where
  "session_result C kept mk cs em S result \<longleftrightarrow>
     (\<exists>r x' s' f. result = Inr (r, x', s') \<and> finished r = Some f \<and> uploaded C mk (containerFiles (store s')) f cs \<and>
        take 16 f = FileRecipeHead_bytes (FileRecipeHead_of_bytes (dataBuffer em)) \<and> kept x' (store s') \<and> (\<forall>mk f cs. uploaded C mk (containerFiles S) f cs \<longrightarrow> uploaded C mk (containerFiles (store s')) f cs))"

lemma session_result_obj:
  assumes "session_result C kept mk cs em S (DataReceiver_Run C batch tail can_open ms (x, s))"
    and b: "\<And>m x s. batch' m (K x, s) = as_obj K (batch m (x, s))" and t: "\<And>x s. tail' (K x, s) = as_obj K (tail (x, s))"
    and k: "\<And>x S. kept x S \<Longrightarrow> kept' (K x) S \<and> type_of (K x) = t"
  shows "session_result C (\<lambda>x S. kept' x S \<and> type_of x = t) mk cs em S (DataReceiver_Run C batch' tail' can_open ms (K x, s))"
proof -
  from assms(1) obtain r x' s' f where
    r: "DataReceiver_Run C batch tail can_open ms (x, s) = Inr (r, x', s')" "finished r = Some f" "uploaded C mk (containerFiles (store s')) f cs"
      "kept x' (store s')" "take 16 f = FileRecipeHead_bytes (FileRecipeHead_of_bytes (dataBuffer em))" "\<forall>mk f cs. uploaded C mk (containerFiles S) f cs \<longrightarrow> uploaded C mk (containerFiles (store s')) f cs"
    unfolding session_result_def by blast
  from as_obj_Run [where batch' = batch' and tail' = tail', OF b t r(1)] r(2,3,5,6) k [OF r(4)] show ?thesis
    unfolding session_result_def by blast
qed

lemmas dispatch_defs = Ecall_ProcChunkBatch_def Ecall_ProcTailChunkBatch_def

lemma obj_session:
  assumes C: "cfg_ok C" and k: "obj_kept C tr obj S" and c: "new_client c" and ids: "names_free C (names_per_chunk obj * length (concat css)) S"
    and st: "s = session_start C c junk st0 S" and fr: "obj_fresh C obj (names_per_chunk obj * length (concat css)) s"
    and sf: "obj_safe C (obj, s) (concat css)"
    and ms: "list_all2 (batch_of C s) ms css" "\<forall>m \<in> set ms. messageType m = CLIENT_UPLOAD_CHUNK"
      "\<forall>d \<in> set (concat css). chunk_ok C d" "messageType em = CLIENT_UPLOAD_RECIPE_END" and op: "\<forall>f. can_open f"
  shows "session_result C (\<lambda>x S. obj_kept C tr x S \<and> type_of x = type_of obj) (masterKey c) (concat css) em S
     (DataReceiver_Run C (Ecall_ProcChunkBatch C tr) (Ecall_ProcTailChunkBatch C tr) can_open (ms @ [em]) (obj, s))"
proof (cases obj)
  case OutEnclaveIndex
  have "session_result C (out_last.kept C) (masterKey c) (concat css) em S (DataReceiver_Run C (out_batch C) (out_tail C) can_open (ms @ [em]) ((), s))"
    unfolding session_result_def
    by (rule out_last.session [OF C _ c _ st _ _ ms op]) (use k ids OutEnclaveIndex in \<open>simp_all add: obj_kept_def names_per_chunk_def\<close>)
  from session_result_obj [where K = "\<lambda>u. OutEnclaveIndex" and batch' = "Ecall_ProcChunkBatch C tr" and tail' = "Ecall_ProcTailChunkBatch C tr", OF this]
  show ?thesis unfolding OutEnclaveIndex by (simp add: dispatch_defs obj_kept_def)
next
  case (InEnclaveIndex x)
  have "session_result C (in_last.kept C) (masterKey c) (concat css) em S
      (DataReceiver_Run C (InEnclave_ProcessOneBatch C) (InEnclave_ProcessTailBatch C) can_open (ms @ [em]) (x, s))"
    unfolding session_result_def
    by (rule in_last.session [OF C _ c _ st _ _ ms op]) (use k ids InEnclaveIndex in \<open>simp_all add: obj_kept_def names_per_chunk_def\<close>)
  from session_result_obj [where K = InEnclaveIndex and batch' = "Ecall_ProcChunkBatch C tr" and tail' = "Ecall_ProcTailChunkBatch C tr", OF this]
  show ?thesis unfolding InEnclaveIndex by (simp add: dispatch_defs obj_kept_def type_of_def)
next
  case (ExtremeBinIndex x)
  have "session_result C (extreme_last.kept C (bin_iter tr)) (masterKey c) (concat css) em S
      (DataReceiver_Run C (Extreme_ProcessOneBatch C (bin_iter tr)) (Extreme_ProcessTailBatch C (bin_iter tr)) can_open (ms @ [em]) (x, s))"
    unfolding session_result_def
    by (rule extreme_last.session [OF C _ c _ st _ _ ms op])
      (use k ids fr sf ExtremeBinIndex in \<open>simp_all add: obj_kept_def names_per_chunk_def obj_fresh_def obj_safe_def\<close>)
  from session_result_obj [where K = ExtremeBinIndex and batch' = "Ecall_ProcChunkBatch C tr" and tail' = "Ecall_ProcTailChunkBatch C tr", OF this]
  show ?thesis unfolding ExtremeBinIndex by (simp add: dispatch_defs obj_kept_def type_of_def)
next
  case (SparseIndex x)
  have "session_result C (sparse_last.kept C (candidate_iter tr) (candidate_sort tr)) (masterKey c) (concat css) em S
      (DataReceiver_Run C (Sparse_ProcessOneBatch C (candidate_iter tr) (candidate_sort tr))
        (Sparse_ProcessTailBatch C (candidate_iter tr) (candidate_sort tr)) can_open (ms @ [em]) (x, s))"
    unfolding session_result_def
    by (rule sparse_last.session [OF C _ c _ st _ _ ms op])
      (use k ids fr SparseIndex in \<open>simp_all add: obj_kept_def names_per_chunk_def obj_fresh_def\<close>)
  from session_result_obj [where K = SparseIndex and batch' = "Ecall_ProcChunkBatch C tr" and tail' = "Ecall_ProcTailChunkBatch C tr", OF this]
  show ?thesis unfolding SparseIndex by (simp add: dispatch_defs obj_kept_def type_of_def)
next
  case (FreqIndex x)
  have "session_result C (freq_last.kept C) (masterKey c) (concat css) em S
      (DataReceiver_Run C (Freq_ProcessOneBatch C) (Freq_ProcessTailBatch C) can_open (ms @ [em]) (x, s))"
    unfolding session_result_def
    by (rule freq_last.session [OF C _ c _ st _ _ ms op]) (use k ids FreqIndex in \<open>simp_all add: obj_kept_def names_per_chunk_def\<close>)
  from session_result_obj [where K = FreqIndex and batch' = "Ecall_ProcChunkBatch C tr" and tail' = "Ecall_ProcTailChunkBatch C tr", OF this]
  show ?thesis unfolding FreqIndex by (simp add: dispatch_defs obj_kept_def type_of_def)
qed

text \<open>What a restart brings back is as good as what was sealed.\<close>

lemma obj_kept_reloaded: "obj_kept C tr (obj_reloaded obj) S = obj_kept C tr obj S" "type_of (obj_reloaded obj) = type_of obj"
  by (cases obj; simp add: obj_kept_def obj_reloaded_def extreme_last.kept_def sparse_last.kept_def freq_last.kept_def extreme_ok_def extreme_inv_def
      extreme_reloaded_def sparse_ok_def sparse_inv_def sparse_reloaded_def freq_inv_def freq_reloaded_def)
    (cases obj; simp add: type_of_def obj_reloaded_def)

section \<open>The machine\<close>

text \<open>
  What does not change: the configuration, the libraries, the index type and the traversals. The state:
  the running server, its disk, the container files, the position in the random numbers and the recipe
  files. A restart seeds the random numbers again, so the position is arbitrary afterwards.
\<close>

record environment =
  env_conf :: enclave_config
  env_cfg :: enclave_cfg
  env_type :: int
  env_traversals :: traversals

record machine =
  m_server :: server
  m_disk :: disk
  m_containers :: "bytes \<rightharpoonup> bytes"
  m_rand :: nat
  m_recipes :: "string \<rightharpoonup> bytes"

abbreviation m_cfg :: "machine \<Rightarrow> enclave_cfg" where
  "m_cfg m \<equiv> srv_cfg (m_server m)"

definition storage_of :: "machine \<Rightarrow> storage" where
  "storage_of m = \<lparr>indexStore = srv_store (m_server m), containerFiles = m_containers m, randPos = m_rand m\<rparr>"

definition after_upload :: "machine \<Rightarrow> string \<Rightarrow> index_obj \<Rightarrow> up_state \<Rightarrow> bytes \<Rightarrow> machine" where
  "after_upload m path obj s f =
     m\<lparr>m_server := (m_server m)\<lparr>srv_index := obj, srv_stats := stats s, srv_store := indexStore (store s)\<rparr>,
       m_containers := containerFiles (store s), m_rand := randPos (store s), m_recipes := (m_recipes m)(path \<mapsto> f)\<rparr>"

datatype event = Upload string bytes "bytes list" | Restart

text \<open>
  The guards of an upload: the names it draws are new, the chunks keep the limits and, for the Extreme
  Binning index, segment hashes do not collide.
\<close>

definition upload_allowed :: "machine \<Rightarrow> up_state \<Rightarrow> bytes list \<Rightarrow> bool" where
  "upload_allowed m s cs \<longleftrightarrow>
     (let obj = srv_index (m_server m); n = names_per_chunk obj * length cs
      in names_free (m_cfg m) n (storage_of m) \<and> obj_fresh (m_cfg m) obj n s \<and> obj_safe (m_cfg m) (obj, s) cs \<and>
         (\<forall>d \<in> set cs. chunk_ok (m_cfg m) d))"

text \<open>The messages that a client sends for the chunks \<open>css\<close>.\<close>

definition client_messages :: "enclave_cfg \<Rightarrow> up_state \<Rightarrow> net_msg list \<Rightarrow> net_msg \<Rightarrow> bytes list list \<Rightarrow> bool" where
  "client_messages C s ms em css \<longleftrightarrow> list_all2 (batch_of C s) ms css \<and> (\<forall>m \<in> set ms. messageType m = CLIENT_UPLOAD_CHUNK) \<and>
     messageType em = CLIENT_UPLOAD_RECIPE_END \<and> totalChunkNum (FileRecipeHead_of_bytes (dataBuffer em)) = of_nat (length (concat css))"

text \<open>The guards of a restart: files can be created, and the sizes of what is sealed fit its format.\<close>

definition restart_allowed :: "(string \<Rightarrow> bool) \<Rightarrow> map_orders \<Rightarrow> (bytes \<times> bytes) list \<Rightarrow> machine \<Rightarrow> bool" where
  "restart_allowed can_create orders items m \<longleftrightarrow> (\<forall>f. can_create f) \<and>
     obj_sealable can_create (sendChunkBatchSize (m_cfg m)) orders (type_of (srv_index (m_server m))) (srv_index (m_server m))
       (files (disk_sealed (m_disk m))) \<and>
     srv_store (m_server m) = map_of items \<and> distinct (map fst items) \<and> (\<forall>kv \<in> set items. item_ok kv \<and> fst kv \<noteq> [])"

inductive machine_step :: "environment \<Rightarrow> machine \<Rightarrow> event \<Rightarrow> machine \<Rightarrow> bool" for E where
  upload: "Ecall_Init_Client (m_cfg m) keys cid (type_of (srv_index (m_server m))) rand_iv emk = Inr c \<Longrightarrow>
    length rand_iv = CRYPTO_BLOCK_SIZE \<Longrightarrow> key_ok (masterKey c) \<Longrightarrow>
    s = session_start (m_cfg m) c junk (srv_stats (m_server m)) (storage_of m) \<Longrightarrow>
    upload_allowed m s (concat css) \<Longrightarrow> client_messages (m_cfg m) s ms em css \<Longrightarrow> \<forall>f. can_open f \<Longrightarrow>
    DataReceiver_Run (m_cfg m) (Ecall_ProcChunkBatch (m_cfg m) (env_traversals E)) (Ecall_ProcTailChunkBatch (m_cfg m) (env_traversals E))
      can_open (ms @ [em]) (srv_index (m_server m), s) = Inr (r, obj, s') \<Longrightarrow> finished r = Some f \<Longrightarrow>
    machine_step E m (Upload path (masterKey c) (concat css)) (after_upload m path obj s' f)"
| restart: "restart_allowed can_create orders items m \<Longrightarrow>
    server_stop can_create orders items (m_server m) (m_disk m) = Inr dk1 \<Longrightarrow>
    server_start (env_conf E) r1 r2 j1 j2 j3 (env_type E) (env_cfg E) dk1 = Inr (S, dk2) \<Longrightarrow>
    machine_step E m Restart (m\<lparr>m_server := S, m_disk := dk2, m_rand := p\<rparr>)"

inductive_cases machine_uploadE: "machine_step E m (Upload path mk cs) m'"
inductive_cases machine_restartE: "machine_step E m Restart m'"

inductive machine_run :: "environment \<Rightarrow> machine \<Rightarrow> event list \<Rightarrow> machine \<Rightarrow> bool" for E m0 where
  start: "machine_run E m0 [] m0"
| continue: "machine_run E m0 es m \<Longrightarrow> machine_step E m e m' \<Longrightarrow> machine_run E m0 (es @ [e]) m'"

text \<open>The first start, on an empty disk.\<close>

definition first_machine :: "server \<Rightarrow> disk \<Rightarrow> nat \<Rightarrow> machine" where
  "first_machine S dk p = \<lparr>m_server = S, m_disk = dk, m_containers = Map.empty, m_rand = p, m_recipes = Map.empty\<rparr>"

text \<open>What was uploaded last under a path.\<close>

definition last_uploads :: "event list \<Rightarrow> string \<rightharpoonup> bytes \<times> bytes list" where
  "last_uploads es = foldl (\<lambda>l e. case e of Upload path mk cs \<Rightarrow> l(path \<mapsto> (mk, cs)) | Restart \<Rightarrow> l) Map.empty es"

section \<open>The invariant\<close>

definition machine_inv :: "environment \<Rightarrow> machine \<Rightarrow> bool" where
  "machine_inv E m \<longleftrightarrow> res_cfg (m_cfg m) \<and> started (env_conf E) (env_cfg E) (m_server m) (m_disk m) \<and>
     index_type_of_int (env_type E) = Some (type_of (srv_index (m_server m))) \<and>
     obj_kept (m_cfg m) (env_traversals E) (srv_index (m_server m)) (storage_of m)"

definition head_ok :: "bytes \<Rightarrow> bytes list \<Rightarrow> bool" where
  "head_ok f cs \<longleftrightarrow> 16 \<le> length f \<and> totalChunkNum (FileRecipeHead_of_bytes (take 16 f)) = of_nat (length cs)"

lemma head_ok_bytes:
  assumes "take 16 f = FileRecipeHead_bytes h" and "totalChunkNum h = of_nat (length cs)"
  shows "head_ok f cs"
proof -
  have "length (take 16 f) = 16" unfolding assms(1) by simp
  then have "16 \<le> length f" by simp
  then show ?thesis using assms FileRecipeHead_roundtrip [of h "[]"] by (simp add: head_ok_def)
qed

definition recipes_inv :: "(string \<rightharpoonup> bytes \<times> bytes list) \<Rightarrow> machine \<Rightarrow> bool" where
  "recipes_inv l m \<longleftrightarrow> dom (m_recipes m) = dom l \<and> (\<forall>path mk cs. l path = Some (mk, cs) \<longrightarrow>
     key_ok mk \<and> (\<exists>f. m_recipes m path = Some f \<and> uploaded (m_cfg m) mk (m_containers m) f cs \<and> head_ok f cs))"

lemmas kept_defs = out_last.kept_def in_last.kept_def extreme_last.kept_def sparse_last.kept_def freq_last.kept_def

lemma obj_kept_rand: "obj_kept C tr obj (S\<lparr>randPos := p\<rparr>) = obj_kept C tr obj S"
  by (cases obj) (simp_all add: obj_kept_def kept_defs)

lemma upload_step_inv:
  assumes inv: "machine_inv E m" and init: "Ecall_Init_Client (m_cfg m) keys cid (type_of (srv_index (m_server m))) rand_iv emk = Inr c"
    "length rand_iv = CRYPTO_BLOCK_SIZE" "key_ok (masterKey c)"
    and s: "s = session_start (m_cfg m) c junk (srv_stats (m_server m)) (storage_of m)"
    and ok: "upload_allowed m s (concat css)" "client_messages (m_cfg m) s ms em css" "\<forall>f. can_open f"
  shows "\<exists>r obj s' f. DataReceiver_Run (m_cfg m) (Ecall_ProcChunkBatch (m_cfg m) (env_traversals E))
      (Ecall_ProcTailChunkBatch (m_cfg m) (env_traversals E)) can_open (ms @ [em]) (srv_index (m_server m), s) = Inr (r, obj, s') \<and>
     finished r = Some f \<and> machine_inv E (after_upload m path obj s' f) \<and>
     (\<forall>l. recipes_inv l m \<longrightarrow> recipes_inv (l(path \<mapsto> (masterKey c, concat css))) (after_upload m path obj s' f))"
proof -
  let ?obj = "srv_index (m_server m)" and ?C = "m_cfg m" and ?S = "storage_of m"
  have i: "cfg_ok ?C" "obj_kept ?C (env_traversals E) ?obj ?S" using inv by (simp_all add: machine_inv_def res_cfg_def)
  have a: "names_free ?C (names_per_chunk ?obj * length (concat css)) ?S" "obj_fresh ?C ?obj (names_per_chunk ?obj * length (concat css)) s"
      "obj_safe ?C (?obj, s) (concat css)" "\<forall>d \<in> set (concat css). chunk_ok ?C d"
    using ok(1) unfolding upload_allowed_def Let_def by blast+
  have ms: "list_all2 (batch_of ?C s) ms css" "\<forall>m \<in> set ms. messageType m = CLIENT_UPLOAD_CHUNK" "messageType em = CLIENT_UPLOAD_RECIPE_END"
      "totalChunkNum (FileRecipeHead_of_bytes (dataBuffer em)) = of_nat (length (concat css))"
    using ok(2) by (simp_all add: client_messages_def)
  from obj_session [OF i Ecall_Init_Client_new [OF init] a(1) s a(2,3) ms(1,2) a(4) ms(3) ok(3)] obtain r obj s' f where
    r: "DataReceiver_Run ?C (Ecall_ProcChunkBatch ?C (env_traversals E)) (Ecall_ProcTailChunkBatch ?C (env_traversals E)) can_open (ms @ [em]) (?obj, s) =
        Inr (r, obj, s')" "finished r = Some f" "uploaded ?C (masterKey c) (containerFiles (store s')) f (concat css)"
      "obj_kept ?C (env_traversals E) obj (store s')" "type_of obj = type_of ?obj"
      "\<forall>mk f cs. uploaded ?C mk (containerFiles ?S) f cs \<longrightarrow> uploaded ?C mk (containerFiles (store s')) f cs"
      "take 16 f = FileRecipeHead_bytes (FileRecipeHead_of_bytes (dataBuffer em))"
    unfolding session_result_def by blast
  let ?m = "after_upload m path obj s' f"
  have st: "storage_of ?m = store s'" by (simp add: storage_of_def after_upload_def)
  have "machine_inv E ?m"
    using inv r(4,5) unfolding machine_inv_def st by (simp add: after_upload_def started_def)
  moreover have "recipes_inv (l(path \<mapsto> (masterKey c, concat css))) ?m" if "recipes_inv l m" for l
    using that r(3,6) init(3) head_ok_bytes [OF r(7) ms(4)] unfolding recipes_inv_def
    by (simp add: after_upload_def storage_of_def) blast
  ultimately show ?thesis using r(1,2) by blast
qed

text \<open>A restart: nothing but the counters that are not sealed is lost.\<close>

definition restarted :: "server \<Rightarrow> server" where
  "restarted S = S\<lparr>srv_first := False, srv_index := obj_reloaded (srv_index S), srv_stats := info_of (srv_stats S)\<rparr>"

lemma restart_step_inv:
  assumes inv: "machine_inv E m" and ok: "restart_allowed can_create orders items m"
  shows "\<exists>dk. server_stop can_create orders items (m_server m) (m_disk m) = Inr dk \<and>
     server_start (env_conf E) r1 r2 j1 j2 j3 (env_type E) (env_cfg E) dk = Inr (restarted (m_server m), dk) \<and>
     machine_inv E (m\<lparr>m_server := restarted (m_server m), m_disk := dk, m_rand := p\<rparr>) \<and>
     (\<forall>l. recipes_inv l m \<longrightarrow> recipes_inv l (m\<lparr>m_server := restarted (m_server m), m_disk := dk, m_rand := p\<rparr>))"
proof -
  let ?S = "m_server m"
  have st: "started (env_conf E) (env_cfg E) ?S (m_disk m)" and ty: "index_type_of_int (env_type E) = Some (type_of (srv_index ?S))"
    using inv by (simp_all add: machine_inv_def)
  have C: "srv_cfg ?S = (configured (env_conf E) (env_cfg E))\<lparr>enclaveKey := enclaveKey (srv_cfg ?S), indexQueryKey := indexQueryKey (srv_cfg ?S)\<rparr>"
    using st by (simp add: started_def)
  have "sendChunkBatchSize (srv_cfg ?S) = unat (ec_sendChunkBatchSize (env_conf E))" by (subst C) (simp add: configured_def)
  with ok have r: "obj_sealable can_create (unat (ec_sendChunkBatchSize (env_conf E))) orders (type_of (srv_index ?S)) (srv_index ?S) (files (disk_sealed (m_disk m)))"
      "\<forall>f. can_create f" "srv_store ?S = map_of items" "distinct (map fst items)" "\<forall>kv \<in> set items. item_ok kv \<and> fst kv \<noteq> []"
    unfolding restart_allowed_def by metis+
  from server_stop_start [OF st r(2) ty r(1,3-5) restarted_def] obtain dk where
    dk: "server_stop can_create orders items ?S (m_disk m) = Inr dk"
      "server_start (env_conf E) r1 r2 j1 j2 j3 (env_type E) (env_cfg E) dk = Inr (restarted ?S, dk)" "started (env_conf E) (env_cfg E) (restarted ?S) dk"
    by blast
  let ?m = "m\<lparr>m_server := restarted ?S, m_disk := dk, m_rand := p\<rparr>"
  have "storage_of ?m = (storage_of m)\<lparr>randPos := p\<rparr>" by (simp add: storage_of_def restarted_def)
  then have "machine_inv E ?m" using inv dk(3) by (simp add: machine_inv_def obj_kept_reloaded obj_kept_rand) (simp add: restarted_def obj_kept_reloaded)
  moreover have "recipes_inv l ?m" if "recipes_inv l m" for l using that by (simp add: recipes_inv_def restarted_def)
  ultimately show ?thesis using dk(1,2) by blast
qed

lemma recipes_inv_start: "recipes_inv (last_uploads []) (first_machine S dk p)"
  by (simp add: recipes_inv_def last_uploads_def first_machine_def)

lemma machine_step_inv:
  assumes "machine_step E m e m'" and "machine_inv E m" and "recipes_inv (last_uploads es) m"
  shows "machine_inv E m' \<and> recipes_inv (last_uploads (es @ [e])) m'"
  using assms(1)
proof cases
  case (upload keys cid rand_iv emk c s junk css ms em can_open r obj s' f path)
  from upload_step_inv [OF assms(2) upload(3-9), of path] upload(10,11) assms(3) show ?thesis
    unfolding upload(1,2) by (auto simp: last_uploads_def)
next
  case (restart can_create orders items dk1 r1 r2 j1 j2 j3 S dk2 p)
  from restart_step_inv [OF assms(2) restart(3), of r1 r2 j1 j2 j3 p] restart(4,5) assms(3) show ?thesis
    unfolding restart(1,2) by (auto simp: last_uploads_def)
qed

lemma machine_run_inv:
  assumes "machine_run E m0 es m" and "machine_inv E m0" and "recipes_inv (last_uploads []) m0"
  shows "machine_inv E m \<and> recipes_inv (last_uploads es) m"
  using assms
proof (induction rule: machine_run.induct)
  case start
  then show ?case by simp
next
  case (continue es m e m')
  then show ?case using machine_step_inv by blast
qed

section \<open>The first start\<close>

definition empty_obj :: "index_type \<Rightarrow> index_obj" where
  "empty_obj t = (case t of OUT_ENCLAVE \<Rightarrow> OutEnclaveIndex | IN_ENCLAVE \<Rightarrow> InEnclaveIndex Map.empty | EXTREME_BIN \<Rightarrow> ExtremeBinIndex EcallExtremeBinIndex_new
     | SPARSE_INDEX \<Rightarrow> SparseIndex EcallSparseIndex_new | FREQ_INDEX \<Rightarrow> FreqIndex EcallFreqIndex_new)"

text \<open>A session on an empty storage, in which no address leads anywhere.\<close>

lemma empty_session:
  assumes "cfg_ok C" and k: "key_ok mk"
  obtains s where "store_inv C 0 s" and "blank_session s" and "indexStore (store s) = Map.empty" and "\<And>a. resolve C s a = None"
proof -
  let ?c = "blank_client\<lparr>iv := replicate CRYPTO_BLOCK_SIZE 0, masterKey := mk\<rparr>" and ?S = "\<lparr>indexStore = Map.empty, containerFiles = Map.empty, randPos = 0\<rparr>"
  have c: "new_client ?c" using k by (simp add: new_client_def blank_client_def)
  have n: "names_free C 0 ?S" "small_containers (containerFiles ?S)" by (simp_all add: names_free_def small_containers_def)
  note i = session_start_inv [OF assms(1) c n(2,1), where junk = "[]" and st = zero_stats]
  have c': "length (iv ?c) = CRYPTO_BLOCK_SIZE" "key_ok (masterKey ?c)" "inRecipe ?c = \<lparr>recipeNum = 0, entryList = []\<rparr>"
      "inContainer ?c = \<lparr>ic_buf = [], curSize = 0\<rparr>" "\<forall>b \<in> ran (containerFiles ?S). length b \<le> unat MAX_CONTAINER_SIZE"
    using c by (simp_all add: new_client_def)
  let ?s = "session_start C ?c [] zero_stats ?S"
  have "same_containers (upload_start C ?c [] ?S) ?s" by (simp add: same_containers_def session_start_def)
  from same_containers_views(2) [OF this]
  have "resolve C ?s = chunk_in C (Map.empty(uuid_at C 0 \<mapsto> []))" using upload_start_inv(3) [OF assms(1) c' n(1), of "[]"] by simp
  then have "resolve C ?s a = None" for a by (simp add: chunk_in_def raw_in_def const_defs)
  with i(1,4,5) show thesis by (intro that [of ?s]) simp_all
qed

lemma empty_obj_kept:
  assumes C: "cfg_ok C" "2 \<le> topKParam C" "topKParam C < heap_bound" and tr: "traversals_ok tr" and S: "indexStore S = Map.empty" "containerFiles S = Map.empty"
  shows "obj_kept C tr (empty_obj t) S"
proof -
  have "key_ok (enclaveKey C)" using C(1) by (simp add: cfg_ok_def)
  with empty_session C(1) obtain s where s: "store_inv C 0 s" "blank_session s" "indexStore (store s) = Map.empty" "\<And>a. resolve C s a = None"
    by blast
  have k: "small_containers (containerFiles S)" using S by (simp add: small_containers_def)
  have b: "bin_inv C 0 s" using s by (simp add: bin_inv_def store_bins_def free_names_def blank_session_def)
  have "extreme_ok C (bin_iter tr) 0 (EcallExtremeBinIndex_new, s)"
    using b tr by (simp add: extreme_ok_def extreme_inv_def traversals_ok_def EcallExtremeBinIndex_new_def)
  moreover have "sparse_ok C (candidate_iter tr) (candidate_sort tr) 0 (EcallSparseIndex_new, s)"
    using b tr by (simp add: sparse_ok_def sparse_inv_def traversals_ok_def EcallSparseIndex_new_def)
  moreover have "freq_inv C 0 (EcallFreqIndex_new, s)"
    using s C by (simp add: freq_inv_def blank_session_def db_ok_def heap_ok_def EcallFreqIndex_new_def EntryHeap_Size_def)
      (simp add: EntryHeap_new_def heap_content_def)
  moreover have "in_inv C 0 (Map.empty, s)" "out_inv C 0 s"
    using s by (simp_all add: in_inv_def in_lookup_def out_inv_def blank_session_def containers.sound_def)
  ultimately show ?thesis
    using s(3,4) S k by (cases t) (simp_all add: empty_obj_def obj_kept_def kept_defs, fastforce+)
qed

lemma new_index_blank:
  assumes "new_index B junk (Some t) \<lparr>files = Map.empty, wr = None, rd = None\<rparr> = Inr (obj, io)"
  shows "obj = empty_obj t"
  using assms
  by (cases t) (auto simp: new_index_def empty_obj_def EcallExtremeBinIndex_init_def LoadPrimaryIndex_def EcallSparseIndex_init_def LoadHookIndex_def
      EcallFreqIndex_init_def Freq_LoadDedupIndex_def EcallInEnclaveIndex_init_def InEnclave_LoadDedupIndex_def seal_read_def
      Ocall_InitReadSealedFile_def Let_def)

lemma first_machine_inv:
  assumes start: "server_start (env_conf E) r1 r2 j1 j2 j3 (env_type E) (env_cfg E) blank_disk = Inr (S, dk)" and rnd: "key_ok r1" "key_ok r2"
    and cfg: "res_cfg (srv_cfg S)" "2 \<le> topKParam (srv_cfg S)" "topKParam (srv_cfg S) < heap_bound" and tr: "traversals_ok (env_traversals E)"
  shows "machine_inv E (first_machine S dk p)"
proof -
  have d: "disk_sealed blank_disk = \<lparr>files = Map.empty, wr = None, rd = None\<rparr>" "disk_db blank_disk = None" by (simp_all add: blank_disk_def)
  have k: "key_file_ok (disk_sealed blank_disk)" "wr (disk_sealed blank_disk) = None" "rd (disk_sealed blank_disk) = None"
    by (simp_all add: d key_file_ok_def)
  note st = server_start_started(1) [OF start rnd k]
  have e: "Ecall_Enclave_Init (env_conf E) r1 r2 j1 (env_cfg E) (disk_sealed blank_disk) = ((C', first), disk_sealed blank_disk)"
    if "Ecall_Enclave_Init (env_conf E) r1 r2 j1 (env_cfg E) (disk_sealed blank_disk) = ((C', first), io)" for C' first io
    using Ecall_Enclave_Init_keys [OF k(3,1) rnd, of "env_conf E" j1 "env_cfg E"] that by auto
  obtain B t io where n: "new_index B j2 (index_type_of_int (env_type E)) (disk_sealed blank_disk) = Inr (srv_index S, io)" and db: "srv_store S = Map.empty"
    using start e by (auto simp: server_start_def Ecall_Init_Upload_def rbind_def Let_def case_prod_beta d(2) InMemoryDatabase_OpenDB_def
        prod_eq_iff split: sum.splits)
  then obtain t where t: "index_type_of_int (env_type E) = Some t" by (cases "index_type_of_int (env_type E)") (simp_all add: new_index_def)
  have obj: "srv_index S = empty_obj t" using n unfolding t d(1) by (rule new_index_blank)
  have "type_of (empty_obj t) = t" by (cases t) (simp_all add: empty_obj_def type_of_def)
  moreover have "obj_kept (srv_cfg S) (env_traversals E) (empty_obj t) (storage_of (first_machine S dk p))"
    using cfg tr db by (intro empty_obj_kept) (simp_all add: res_cfg_def storage_of_def first_machine_def)
  ultimately show ?thesis using st cfg(1) t obj by (simp add: machine_inv_def first_machine_def)
qed

section \<open>Properties\<close>




section \<open>A sample\<close>

definition sample_env :: environment where
  "sample_env = \<lparr>env_conf = sample_conf, env_cfg = sample_cfg, env_type = 1,
     env_traversals = \<lparr>bin_iter = rev, candidate_iter = rev, candidate_sort = sort_key (\<lambda>c. - uint (snd c))\<rparr>\<rparr>"

lemma sample_sort: "sorts_by_count (sort_key (\<lambda>c. - uint (snd c)))"
proof -
  have "sorted_wrt (\<lambda>a b. snd b \<le> snd a) (sort_key (\<lambda>c. - uint (snd c)) (l :: (bytes \<times> u32) list))" for l
    using sorted_sort_key [of "\<lambda>c. - uint (snd c)" l] by (simp add: sorted_wrt_map word_le_def)
  then show ?thesis by (simp add: sorts_by_count_def)
qed

lemma sample_traversals: "traversals_ok (env_traversals sample_env)"
  by (simp add: sample_env_def traversals_ok_def iteration_def sample_sort)

lemma sample_server_cfg: "srv_cfg sample_server = sample_cfg"
  by (simp add: sample_server_def configured_def sample_conf_def sample_cfg_def)

lemma sample_env_start:
  "server_start (env_conf sample_env) (replicate 32 1) (replicate 32 2) [] [] [] (env_type sample_env) (env_cfg sample_env) blank_disk = Inr (sample_server, blank_disk)"
  by (simp add: sample_env_def sample_server_start)

lemma sample_server_ok:
  "res_cfg (srv_cfg sample_server)" "2 \<le> topKParam (srv_cfg sample_server)" "topKParam (srv_cfg sample_server) < heap_bound"
  by (simp_all add: sample_server_cfg sample_res_cfg) (simp_all add: sample_cfg_def heap_bound_def)

lemma sample_init: "Ecall_Init_Client sample_cfg [1 \<mapsto> replicate 32 3] 1 IN_ENCLAVE (replicate 16 0) (replicate 32 5) = Inr sample_client"
  by (simp add: Ecall_Init_Client_def SetMasterKey_def EnclaveClient_InitUploadBuffer_def sample_client_def blank_client_def sample_cfg_def
      Ecall_SessionKeyDec_def plain_evp_def EcallCrypto_new_def evp_checked_def const_defs Let_def case_prod_beta)

definition sample_full_end :: net_msg where
  "sample_full_end = sample_end\<lparr>dataBuffer := FileRecipeHead_bytes \<lparr>fileSize = 8, totalChunkNum = 3\<rparr>\<rparr>"

lemma sample_messages:
  "client_messages sample_cfg (session_start sample_cfg sample_client [] st S) [sample_msg sample_chunks] sample_full_end [sample_chunks]"
proof -
  have "sgx (session_start sample_cfg sample_client [] st S) = sample_client"
    by (simp add: session_start_def upload_start_def ClientVar_InitUploadBuffer_def case_prod_beta)
  then show ?thesis using sample_batch FileRecipeHead_roundtrip [of _ "[]"]
    by (simp add: client_messages_def batch_of_def sample_start_fields sample_types sample_full_end_def sample_chunks_length)
qed

lemma sample_allowed:
  assumes "m_server m = restarted sample_server \<or> m_server m = sample_server" and "m_containers m = Map.empty" and "m_rand m = 0"
  shows "upload_allowed m s (concat [sample_chunks])"
proof -
  have m: "m_cfg m = sample_cfg" "srv_index (m_server m) = InEnclaveIndex Map.empty"
    using assms(1) sample_server_cfg by (auto simp: restarted_def obj_reloaded_def) (auto simp: sample_server_def obj_reloaded_def)
  have "names_free sample_cfg 3 (storage_of m)"
    using assms(2,3) by (simp add: names_free_def storage_of_def sample_cfg_def uuid_at_def CreateUUID_def const_defs upt_rec ALPHABET_def)
  then show ?thesis
    using sample_chunks_ok by (simp add: upload_allowed_def m names_per_chunk_def obj_fresh_def obj_safe_def sample_chunks_length)
qed

definition sample_orders :: map_orders where
  "sample_orders = \<lparr>in_order = \<lambda>m. [], primary_order = \<lambda>m. [], hook_order = \<lambda>m. []\<rparr>"

lemma sample_restart: "restart_allowed (\<lambda>f. True) sample_orders [] (first_machine sample_server blank_disk 0)"
proof -
  have "obj_sealable (\<lambda>f. True) 2 sample_orders IN_ENCLAVE (InEnclaveIndex Map.empty) Map.empty"
    by (simp add: obj_sealable_def type_of_def in_sealable_def sample_orders_def items_ok_def)
  then show ?thesis
    by (simp add: restart_allowed_def first_machine_def sample_server_cfg) (simp add: sample_server_def type_of_def blank_disk_def sample_cfg_def)
qed

text \<open>A restart and an upload.\<close>

lemma sample_run:
  "\<exists>m. machine_run sample_env (first_machine sample_server blank_disk 0) [Restart, Upload ''f'' (replicate 32 4) sample_chunks] m"
proof -
  let ?m = "first_machine sample_server blank_disk 0" and ?S = "restarted sample_server"
  have k: "key_ok (replicate 32 1)" "key_ok (replicate 32 2)" by (simp_all add: key_ok_def const_defs)
  have i: "machine_inv sample_env ?m" by (rule first_machine_inv [OF sample_env_start k sample_server_ok sample_traversals])
  from restart_step_inv [OF i sample_restart, of "[]" "[]" "[]" "[]" "[]" 0] obtain dk where
    d: "server_stop (\<lambda>f. True) sample_orders [] (m_server ?m) (m_disk ?m) = Inr dk"
      "server_start (env_conf sample_env) [] [] [] [] [] (env_type sample_env) (env_cfg sample_env) dk = Inr (restarted (m_server ?m), dk)"
      "machine_inv sample_env (?m\<lparr>m_server := restarted (m_server ?m), m_disk := dk, m_rand := 0\<rparr>)"
    by blast
  let ?m1 = "?m\<lparr>m_server := restarted (m_server ?m), m_disk := dk, m_rand := 0\<rparr>"
  have r1: "machine_step sample_env ?m Restart ?m1" by (rule machine_step.restart [OF sample_restart d(1,2)])
  have m1: "m_cfg ?m1 = sample_cfg" "type_of (srv_index (m_server ?m1)) = IN_ENCLAVE"
    using sample_server_cfg by (simp_all add: first_machine_def restarted_def) (simp add: sample_server_def obj_reloaded_def type_of_def)
  have a: "Ecall_Init_Client (m_cfg ?m1) [1 \<mapsto> replicate 32 3] 1 (type_of (srv_index (m_server ?m1))) (replicate 16 0) (replicate 32 5) = Inr sample_client"
    unfolding m1 by (rule sample_init)
  have b: "length (replicate 16 (0 :: 8 word)) = CRYPTO_BLOCK_SIZE" "key_ok (masterKey sample_client)"
    by (simp_all add: sample_client_def key_ok_def const_defs)
  have u: "upload_allowed ?m1 s (concat [sample_chunks])" for s by (rule sample_allowed) (simp_all add: first_machine_def)
  have c: "client_messages (m_cfg ?m1) (session_start (m_cfg ?m1) sample_client [] (srv_stats (m_server ?m1)) (storage_of ?m1)) [sample_msg sample_chunks] sample_full_end [sample_chunks]"
    unfolding m1 by (rule sample_messages)
  have op: "\<forall>f :: bytes. True" by simp
  from upload_step_inv [OF d(3) a b refl u c op] machine_step.upload [OF a b refl u c op]
  obtain m2 where "machine_step sample_env ?m1 (Upload ''f'' (masterKey sample_client) (concat [sample_chunks])) m2" by blast
  from machine_run.continue [OF machine_run.continue [OF machine_run.start r1] this] show ?thesis by (auto simp: sample_client_def)
qed




end
