(* ===== verification/Login.thy ===== *)
theory Login
  imports System
begin

text \<open>
  From the connection to the session: the exchange of the session key (\<open>sessionKeyExchange.cc\<close> in the
  client, \<open>keyECall.cc\<close> in the enclave), the logins (\<open>DataSender::UploadLogin\<close>,
  \<open>DataRetriever::RestoreLogin\<close>) and the part of \<open>ServerOptThread::Run\<close> that answers them. Elliptic curves
  are OpenSSL's and a parameter. A client and the enclave come to the same session key and master key, and
  the recipe of a file is found again under the hash of its name.
\<close>

section \<open>Session keys\<close>

definition CHUNK_ENCRYPT_KEY_SIZE :: nat where
  "CHUNK_ENCRYPT_KEY_SIZE = 32"

definition SESSION_KEY_BUFFER_SIZE :: nat where
  "SESSION_KEY_BUFFER_SIZE = 65"

lemmas [const_defs] = CHUNK_ENCRYPT_KEY_SIZE_def SESSION_KEY_BUFFER_SIZE_def

text \<open>
  Key pairs on the curve prime256v1: the private keys, the encoded public point and the shared secret of an encoded
  peer point and a private key, \<open>None\<close> when the point is not accepted or the derivation fails.
\<close>

record ecdh =
  ec_private :: "bytes \<Rightarrow> bool"
  ec_public :: "bytes \<Rightarrow> bytes"
  ec_derive :: "bytes \<Rightarrow> bytes \<Rightarrow> bytes option"

text \<open>
  What is documented: an encoded point has 65 bytes, the secret is the 32-byte coordinate of the common
  point, which both sides derive.
\<close>

definition ecdh_ok :: "ecdh \<Rightarrow> bool" where
  "ecdh_ok ec \<longleftrightarrow>
     (\<forall>a. ec_private ec a \<longrightarrow> length (ec_public ec a) = SESSION_KEY_BUFFER_SIZE) \<and>
     (\<forall>a b. ec_private ec a \<longrightarrow> ec_private ec b \<longrightarrow>
        (\<exists>k. ec_derive ec (ec_public ec b) a = Some k \<and> ec_derive ec (ec_public ec a) b = Some k \<and> length k = CHUNK_ENCRYPT_KEY_SIZE))"

text \<open>
  The enclave side: \<open>priv\<close> is the private key that \<open>GenerateKeyPair\<close> draws, the public buffer is read and
  overwritten, and the secret is copied into a string of \<open>CHUNK_ENCRYPT_KEY_SIZE\<close> zeros.
\<close>

definition Ecall_Session_Key_Exchange ::
  "ecdh \<Rightarrow> bytes \<Rightarrow> bytes \<Rightarrow> nat \<Rightarrow> (nat \<rightharpoonup> bytes) \<Rightarrow> (bytes \<times> (nat \<rightharpoonup> bytes)) res" where
  "Ecall_Session_Key_Exchange ec priv publicKeyBuffer cid clientSessionKeyIndex =
     (let tmpPubKeyBuffer = ec_public ec priv; pubKeyLen = length tmpPubKeyBuffer in
      case ec_derive ec (take pubKeyLen publicKeyBuffer) priv of
        None \<Rightarrow> Inl (ProcExit ''Derive the secret length fails.'')
      | Some secret \<Rightarrow>
          if CHUNK_ENCRYPT_KEY_SIZE < length secret then Inl (Undefined ''session key overflow'')
          else Inr (memcpy_at publicKeyBuffer 0 tmpPubKeyBuffer,
                    clientSessionKeyIndex(cid \<mapsto> memcpy_at (replicate CHUNK_ENCRYPT_KEY_SIZE 0) 0 secret)))"

text \<open>The client side: the request, and the secret from the reply. The field of the header that is not set is \<open>junk\<close>.\<close>

definition GeneratingSecret_request :: "ecdh \<Rightarrow> bytes \<Rightarrow> u32 \<Rightarrow> u32 \<Rightarrow> net_msg" where
  "GeneratingSecret_request ec priv cid junk =
     \<lparr>messageType = SESSION_KEY_INIT, clientID = cid, dataSize = of_nat (length (ec_public ec priv)), currentItemNum = junk,
      dataBuffer = ec_public ec priv\<rparr>"

definition GeneratingSecret_reply :: "ecdh \<Rightarrow> bytes \<Rightarrow> net_msg option \<Rightarrow> bytes res" where
  "GeneratingSecret_reply ec priv reply =
     (case reply of
        None \<Rightarrow> Inl (ProcExit ''recv the session key reply fails.'')
      | Some m \<Rightarrow>
          if length (ec_public ec priv) < length (dataBuffer m) then Inl (Undefined ''session key reply overflow'')
          else if messageType m \<noteq> SESSION_KEY_REPLY then Inl (ProcExit ''recv the session key reply wrong type.'')
          else case ec_derive ec (take (unat (dataSize m)) (dataBuffer m)) priv of
            None \<Rightarrow> Inl (ProcExit ''derive the secret length fails.'')
          | Some secret \<Rightarrow>
              if length secret < CHUNK_ENCRYPT_KEY_SIZE then Inl (Undefined ''read beyond the secret'')
              else Inr (take CHUNK_ENCRYPT_KEY_SIZE secret))"

section \<open>The server\<close>

text \<open>
  All messages of the login are received into one buffer of \<open>SESSION_KEY_BUFFER_SIZE\<close> bytes behind the
  header, which keeps what a shorter message does not overwrite.
\<close>

definition receive_into :: "string \<Rightarrow> bytes \<Rightarrow> net_msg option \<Rightarrow> net_msg res" where
  "receive_into err buf m =
     (case m of
        None \<Rightarrow> Inl (ProcExit err)
      | Some m \<Rightarrow>
          if SESSION_KEY_BUFFER_SIZE < length (dataBuffer m) then Inl (Undefined ''receive buffer overflow'')
          else Inr (m\<lparr>dataBuffer := memcpy_at buf 0 (dataBuffer m)\<rparr>))"

text \<open>
  The request for a remote attestation (\<open>ENABLE_SGX_RA = 0\<close>): \<open>None\<close> when the client asked for one and the
  connection is over.
\<close>

definition Run_RA :: "bytes \<Rightarrow> net_msg option \<Rightarrow> bytes option res" where
  "Run_RA buf m =
     rbind (receive_into ''recv the RA request header fails.'' buf m) (\<lambda>m.
       case messageType m of
         SGX_RA_NOT_SUPPORT \<Rightarrow> Inr None
       | SGX_RA_NOT_NEED \<Rightarrow> Inr (Some (dataBuffer m))
       | _ \<Rightarrow> Inl (ProcExit ''wrong RA request type.''))"

definition Run_session_key :: "ecdh \<Rightarrow> bytes \<Rightarrow> bytes \<Rightarrow> net_msg option \<Rightarrow> (nat \<rightharpoonup> bytes) \<Rightarrow> (net_msg \<times> (nat \<rightharpoonup> bytes)) res" where
  "Run_session_key ec priv buf m keys =
     rbind (receive_into ''recv the session key request error.'' buf m) (\<lambda>m.
       if messageType m \<noteq> SESSION_KEY_INIT then Inl (ProcExit ''recv the wrong session key init type.'')
       else rbind (Ecall_Session_Key_Exchange ec priv (dataBuffer m) (unat (clientID m)) keys) (\<lambda>(b, keys').
         Inr (m\<lparr>messageType := SESSION_KEY_REPLY, dataBuffer := b\<rparr>, keys')))"

definition hex_digit :: "nat \<Rightarrow> char" where
  "hex_digit n = ''0123456789abcdef'' ! n"

definition hex_byte :: "byte \<Rightarrow> string" where
  "hex_byte b = [hex_digit (unat b div 16), hex_digit (unat b mod 16)]"

definition recipe_path :: "string \<Rightarrow> string \<Rightarrow> bytes \<Rightarrow> string" where
  "recipe_path recipeRoot suffix h = recipeRoot @ concat (map hex_byte (take CHUNK_HASH_SIZE h)) @ suffix"

definition CheckFileStatus :: "(string \<rightharpoonup> bytes) \<Rightarrow> string \<Rightarrow> opt_type \<Rightarrow> bool" where
  "CheckFileStatus recipes path opt =
     (case recipes path of
        Some f \<Rightarrow> True
      | None \<Rightarrow> (case opt of UPLOAD_OPT \<Rightarrow> True | DOWNLOAD_OPT \<Rightarrow> False | RA_OPT \<Rightarrow> True))"

text \<open>\<open>Ecall_Init_Client\<close> for a restore.\<close>

definition Ecall_Init_Client_restore :: "enclave_cfg \<Rightarrow> (nat \<rightharpoonup> bytes) \<Rightarrow> u32 \<Rightarrow> bytes \<Rightarrow> restore_client res" where
  "Ecall_Init_Client_restore C keys cid encMasterKey =
     (case keys (unat cid) of
        None \<Rightarrow> Inl (ProcExit ''get the session key fails.'')
      | Some k \<Rightarrow>
          rbind (Ecall_SessionKeyDec (cfg_evp C) (cfg_tool C) (take CHUNK_HASH_SIZE encMasterKey) (take CHUNK_HASH_SIZE k)) (\<lambda>mk.
            Inr (EnclaveClient_InitRestoreBuffer cid (take CHUNK_HASH_SIZE k) mk)))"

datatype login =
    Rejected net_msg
  | LoggedUpload string enclave_client net_msg
  | LoggedRestore string restore_client net_msg bytes

text \<open>
  The login of the client \<open>cid\<close>. The reply to a restore carries the head of the recipe, read over the
  receive buffer; the last argument of \<open>LoggedRestore\<close> is what is left of the recipe file.
\<close>

definition Run_login ::
  "enclave_cfg \<Rightarrow> index_type \<Rightarrow> string \<Rightarrow> string \<Rightarrow> (string \<rightharpoonup> bytes) \<Rightarrow> (nat \<rightharpoonup> bytes) \<Rightarrow> bytes \<Rightarrow> u32 \<Rightarrow> bytes \<Rightarrow> net_msg option \<Rightarrow> login res" where
  "Run_login C t recipeRoot suffix recipes keys rand_iv cid buf m =
     rbind (receive_into ''recv the login message error.'' buf m) (\<lambda>m.
     rbind (case messageType m of
              CLIENT_LOGIN_UPLOAD \<Rightarrow> Inr UPLOAD_OPT
            | CLIENT_LOGIN_DOWNLOAD \<Rightarrow> Inr DOWNLOAD_OPT
            | _ \<Rightarrow> Inl (ProcExit ''wrong client login type.'')) (\<lambda>optType.
       let recipePath = recipe_path recipeRoot suffix (dataBuffer m) in
       if \<not> CheckFileStatus recipes recipePath optType then Inr (Rejected (m\<lparr>messageType := SERVER_FILE_NON_EXIST, dataBuffer := []\<rparr>))
       else if optType = UPLOAD_OPT then
         rbind (Ecall_Init_Client C keys (unat cid) t rand_iv (drop CHUNK_HASH_SIZE (dataBuffer m))) (\<lambda>c.
           Inr (LoggedUpload recipePath c (m\<lparr>messageType := SERVER_LOGIN_RESPONSE, dataBuffer := []\<rparr>)))
       else
         (case recipes recipePath of
            None \<Rightarrow> Inl (ProcExit ''cannot init the file recipe.'')
          | Some f \<Rightarrow>
              rbind (Ecall_Init_Client_restore C keys cid (drop CHUNK_HASH_SIZE (dataBuffer m))) (\<lambda>c.
                Inr (LoggedRestore recipePath c
                  (m\<lparr>messageType := SERVER_LOGIN_RESPONSE, dataBuffer := take 16 (memcpy_at (dataBuffer m) 0 (take 16 f))\<rparr>) (drop 16 f))))))"

section \<open>The client\<close>

function to_string :: "nat \<Rightarrow> string" where
  "to_string n = (if n < 10 then [hex_digit n] else to_string (n div 10) @ [hex_digit (n mod 10)])"
  by pat_completeness auto
termination by (relation "measure id") auto

declare to_string.simps [simp del]

definition string_bytes :: "string \<Rightarrow> bytes" where
  "string_bytes s = map of_char s"

definition fileNameHash :: "evp \<Rightarrow> crypto_tool \<Rightarrow> string \<Rightarrow> u32 \<Rightarrow> bytes res" where
  "fileNameHash V T inputFile cid = Crypto_GenerateHash V T (string_bytes (inputFile @ to_string (unat cid)))"

text \<open>\<open>main\<close> of the client always says that it does not need an attestation before an upload or a restore.\<close>

definition raDecision :: "u32 \<Rightarrow> net_msg" where
  "raDecision cid = \<lparr>messageType = SGX_RA_NOT_NEED, clientID = cid, dataSize = 0, currentItemNum = 0, dataBuffer = []\<rparr>"

definition login_request :: "evp \<Rightarrow> crypto_tool \<Rightarrow> protocol_code \<Rightarrow> u32 \<Rightarrow> u32 \<Rightarrow> bytes \<Rightarrow> bytes \<Rightarrow> bytes \<Rightarrow> net_msg res" where
  "login_request V T ty cid junk key localSecret nameHash =
     rbind (Crypto_GenerateHash V T localSecret) (\<lambda>mk.
     rbind (Crypto_SessionKeyEnc V T (take CHUNK_HASH_SIZE mk) key) (\<lambda>e.
       Inr \<lparr>messageType = ty, clientID = cid, dataSize = of_nat (CHUNK_HASH_SIZE + CHUNK_HASH_SIZE), currentItemNum = junk,
            dataBuffer = take CHUNK_HASH_SIZE nameHash @ e\<rparr>))"

definition UploadLogin_reply :: "net_msg option \<Rightarrow> unit res" where
  "UploadLogin_reply reply =
     (case reply of
        None \<Rightarrow> Inl (ProcExit ''recv the server login response error.'')
      | Some m \<Rightarrow> if messageType m = SERVER_LOGIN_RESPONSE then Inr () else Inl (ProcExit ''server response is wrong, it is not ready.''))"

definition RestoreLogin_reply :: "net_msg option \<Rightarrow> file_recipe_head res" where
  "RestoreLogin_reply reply =
     (case reply of
        None \<Rightarrow> Inl (ProcExit ''recv the server login response error.'')
      | Some m \<Rightarrow>
          (case messageType m of
             SERVER_FILE_NON_EXIST \<Rightarrow> Inl (ProcExit ''the request file not exist.'')
           | SERVER_LOGIN_RESPONSE \<Rightarrow> Inr (FileRecipeHead_of_bytes (dataBuffer m))
           | _ \<Rightarrow> Inl (ProcExit ''server response is wrong, it is not ready.'')))"

section \<open>Both sides together\<close>

lemma memcpy_full: "length d = length buf \<Longrightarrow> memcpy_at buf 0 d = d"
  by (simp add: memcpy_at_def)

lemma key_exchange:
  assumes ec: "ecdh_ok ec" "ec_private ec a" "ec_private ec b" and buf: "length buf = SESSION_KEY_BUFFER_SIZE"
  obtains k reply where "Run_session_key ec b buf (Some (GeneratingSecret_request ec a cid j)) keys = Inr (reply, keys(unat cid \<mapsto> k))"
    and "GeneratingSecret_reply ec a (Some reply) = Inr k" and "key_ok k" and "length (dataBuffer reply) = SESSION_KEY_BUFFER_SIZE"
proof -
  from ec obtain k where l: "length (ec_public ec a) = SESSION_KEY_BUFFER_SIZE" "length (ec_public ec b) = SESSION_KEY_BUFFER_SIZE"
      and k: "ec_derive ec (ec_public ec b) a = Some k" "ec_derive ec (ec_public ec a) b = Some k" "length k = CHUNK_ENCRYPT_KEY_SIZE"
    unfolding ecdh_ok_def by blast
  let ?reply = "(GeneratingSecret_request ec a cid j)\<lparr>messageType := SESSION_KEY_REPLY, dataBuffer := ec_public ec b\<rparr>"
  have z: "unat (of_nat (length (ec_public ec a)) :: u32) = length (ec_public ec b)" using l by (simp add: const_defs)
  have "Run_session_key ec b buf (Some (GeneratingSecret_request ec a cid j)) keys = Inr (?reply, keys(unat cid \<mapsto> k))"
    using l buf k by (simp add: Run_session_key_def receive_into_def GeneratingSecret_request_def memcpy_full Ecall_Session_Key_Exchange_def Let_def)
  moreover have "GeneratingSecret_reply ec a (Some ?reply) = Inr k"
    using l k z by (simp add: GeneratingSecret_reply_def GeneratingSecret_request_def)
  moreover have "key_ok k" "length (dataBuffer ?reply) = SESSION_KEY_BUFFER_SIZE" using k l by (simp_all add: key_ok_def const_defs)
  ultimately show thesis by (rule that)
qed

text \<open>What the two hashes and the login message are, in a configuration that is in order.\<close>

definition host_ok :: "enclave_cfg \<Rightarrow> crypto_tool \<Rightarrow> bool" where
  "host_ok C T \<longleftrightarrow> same_iv C T \<and> hashType T = SHA_256"

lemma host_hash:
  assumes "cfg_ok C" and "host_ok C T"
  obtains h where "Crypto_GenerateHash (cfg_evp C) T d = Inr h" and "key_ok h"
proof -
  have "evp_ok (cfg_evp C)" using assms(1) by (simp add: cfg_ok_def)
  then obtain h where "evp_md_init (cfg_evp C) SHA_256" "evp_md (cfg_evp C) SHA_256 d = Some h" "length h = hash_size SHA_256"
    unfolding evp_ok_def by blast
  then show thesis using assms(2) by (intro that [of h]) (simp_all add: Crypto_GenerateHash_def evp_checked_def host_ok_def key_ok_def hash_size_def const_defs)
qed

lemma login_message:
  assumes C: "cfg_ok C" "host_ok C T" and k: "key_ok k" and h: "key_ok h" and mk: "Crypto_GenerateHash (cfg_evp C) T secret = Inr mk" "key_ok mk"
  obtains m e where "login_request (cfg_evp C) T ty cid j k secret h = Inr m" and "messageType m = ty" and "dataBuffer m = h @ e"
    and "length e = CHUNK_HASH_SIZE" and "Ecall_SessionKeyDec (cfg_evp C) (cfg_tool C) e k = Inr mk"
    and "Crypto_SessionKeyEnc (cfg_evp C) (cfg_tool C) mk k = Inr e"
proof -
  have g: "stream_good (cfg_evp C) (cfg_tool C) k mk" using C(1) k by (simp add: stream_good_def cfg_ok_def)
  then obtain e where e: "Crypto_SessionKeyEnc (cfg_evp C) (cfg_tool C) mk k = Inr e" "length e = length mk"
      and d: "Ecall_SessionKeyDec (cfg_evp C) (cfg_tool C) e k = Inr mk"
    by (rule session.encE)
  have t: "take CHUNK_HASH_SIZE mk = mk" "take CHUNK_HASH_SIZE h = h" using mk(2) h by (simp_all add: key_ok_def)
  have "Crypto_SessionKeyEnc (cfg_evp C) T mk k = Inr e" 
    using e(1) C(2) same_iv_session(1) [of C T] by (simp add: host_ok_def)
  let ?m = "\<lparr>messageType = ty, clientID = cid, dataSize = of_nat (CHUNK_HASH_SIZE + CHUNK_HASH_SIZE), currentItemNum = j, dataBuffer = h @ e\<rparr>"
  have "login_request (cfg_evp C) T ty cid j k secret h = Inr ?m"
    using \<open>Crypto_SessionKeyEnc (cfg_evp C) T mk k = Inr e\<close> mk(1) t by (simp add: login_request_def)
  then show thesis using d e mk(2) by (intro that [of ?m e]) (simp_all add: key_ok_def)
qed

lemma receive_login:
  assumes "length buf = SESSION_KEY_BUFFER_SIZE" and "length d = 2 * CHUNK_HASH_SIZE" and "dataBuffer m = d"
  shows "receive_into err buf (Some m) = Inr (m\<lparr>dataBuffer := d @ drop (2 * CHUNK_HASH_SIZE) buf\<rparr>)"
  using assms by (simp add: receive_into_def memcpy_at_def const_defs)

lemma upload_logged:
  assumes C: "cfg_ok C" "host_ok C T" and k: "keys (unat cid) = Some k" "key_ok k" and h: "key_ok h"
    and mk: "Crypto_GenerateHash (cfg_evp C) T secret = Inr mk" "key_ok mk" and iv: "length rand_iv = CRYPTO_BLOCK_SIZE"
    and buf: "length buf = SESSION_KEY_BUFFER_SIZE"
  shows "\<exists>m emk c reply. login_request (cfg_evp C) T CLIENT_LOGIN_UPLOAD cid j k secret h = Inr m \<and>
     Run_login C t recipeRoot suffix recipes keys rand_iv cid buf (Some m) = Inr (LoggedUpload (recipe_path recipeRoot suffix h) c reply) \<and>
     UploadLogin_reply (Some reply) = Inr () \<and> Ecall_Init_Client C keys (unat cid) t rand_iv emk = Inr c \<and> sessionKey c = k \<and> masterKey c = mk"
proof -
  obtain m e where m: "login_request (cfg_evp C) T CLIENT_LOGIN_UPLOAD cid j k secret h = Inr m" "messageType m = CLIENT_LOGIN_UPLOAD" "dataBuffer m = h @ e"
      "length e = CHUNK_HASH_SIZE" "Ecall_SessionKeyDec (cfg_evp C) (cfg_tool C) e k = Inr mk" "Crypto_SessionKeyEnc (cfg_evp C) (cfg_tool C) mk k = Inr e"
    by (rule login_message [OF C k(2) h mk, where ty = CLIENT_LOGIN_UPLOAD and cid = cid and j = j])
  let ?b = "(h @ e) @ drop (2 * CHUNK_HASH_SIZE) buf"
  have l: "length h = CHUNK_HASH_SIZE" using h by (simp add: key_ok_def)
  have r: "receive_into err buf (Some m) = Inr (m\<lparr>dataBuffer := ?b\<rparr>)" for err using buf l m(3,4) by (intro receive_login) simp_all
  from Ecall_Init_Client_ok [where ki = keys and t = t, OF C(1) k mk(2) iv m(6)] obtain c where
    c: "Ecall_Init_Client C keys (unat cid) t rand_iv e = Inr c" "sessionKey c = k" "masterKey c = mk" by blast
  have "Ecall_Init_Client C keys (unat cid) t rand_iv (drop CHUNK_HASH_SIZE ?b) = Ecall_Init_Client C keys (unat cid) t rand_iv e"
    using l m(4) by (simp add: Ecall_Init_Client_def split: option.splits)
  moreover have "recipe_path recipeRoot suffix ?b = recipe_path recipeRoot suffix h" using l by (simp add: recipe_path_def)
  ultimately have "Run_login C t recipeRoot suffix recipes keys rand_iv cid buf (Some m) =
      Inr (LoggedUpload (recipe_path recipeRoot suffix h) c (m\<lparr>messageType := SERVER_LOGIN_RESPONSE, dataBuffer := []\<rparr>))"
    using m(2) c(1) by (simp add: Run_login_def r Let_def CheckFileStatus_def split: option.splits)
  then show ?thesis using m(1) c by (auto simp: UploadLogin_reply_def)
qed

lemma restore_logged:
  assumes C: "cfg_ok C" "host_ok C T" and k: "keys (unat cid) = Some k" "key_ok k" and h: "key_ok h"
    and mk: "Crypto_GenerateHash (cfg_evp C) T secret = Inr mk" "key_ok mk" and buf: "length buf = SESSION_KEY_BUFFER_SIZE"
  shows "\<exists>m. login_request (cfg_evp C) T CLIENT_LOGIN_DOWNLOAD cid j k secret h = Inr m \<and>
     (case recipes (recipe_path recipeRoot suffix h) of
        None \<Rightarrow> \<exists>reply. Run_login C t recipeRoot suffix recipes keys rand_iv cid buf (Some m) = Inr (Rejected reply) \<and>
          RestoreLogin_reply (Some reply) = Inl (ProcExit ''the request file not exist.'')
      | Some f \<Rightarrow> 16 \<le> length f \<longrightarrow>
          (\<exists>reply. Run_login C t recipeRoot suffix recipes keys rand_iv cid buf (Some m) =
             Inr (LoggedRestore (recipe_path recipeRoot suffix h) (EnclaveClient_InitRestoreBuffer cid k mk) reply (drop 16 f)) \<and>
             RestoreLogin_reply (Some reply) = Inr (FileRecipeHead_of_bytes (take 16 f))))"
proof -
  obtain m e where m: "login_request (cfg_evp C) T CLIENT_LOGIN_DOWNLOAD cid j k secret h = Inr m" "messageType m = CLIENT_LOGIN_DOWNLOAD" "dataBuffer m = h @ e"
      "length e = CHUNK_HASH_SIZE" "Ecall_SessionKeyDec (cfg_evp C) (cfg_tool C) e k = Inr mk"
    by (rule login_message [OF C k(2) h mk, where ty = CLIENT_LOGIN_DOWNLOAD and cid = cid and j = j])
  let ?b = "(h @ e) @ drop (2 * CHUNK_HASH_SIZE) buf"
  have l: "length h = CHUNK_HASH_SIZE" "take CHUNK_HASH_SIZE k = k" "16 \<le> length ?b" using h k(2) m(4) by (simp_all add: key_ok_def const_defs)
  have r: "receive_into err buf (Some m) = Inr (m\<lparr>dataBuffer := ?b\<rparr>)" for err using buf l m(3,4) by (intro receive_login) simp_all
  have p: "recipe_path recipeRoot suffix ?b = recipe_path recipeRoot suffix h" using l by (simp add: recipe_path_def)
  have i: "Ecall_Init_Client_restore C keys cid (drop CHUNK_HASH_SIZE ?b) = Inr (EnclaveClient_InitRestoreBuffer cid k mk)"
    using l m(4,5) k(1) by (simp add: Ecall_Init_Client_restore_def)
  show ?thesis
  proof (cases "recipes (recipe_path recipeRoot suffix h)")
    case None
    then show ?thesis using m(1,2) by (simp add: Run_login_def r Let_def CheckFileStatus_def p [simplified] RestoreLogin_reply_def)
  next
    case (Some f)
    then have "Run_login C t recipeRoot suffix recipes keys rand_iv cid buf (Some m) =
        Inr (LoggedRestore (recipe_path recipeRoot suffix h) (EnclaveClient_InitRestoreBuffer cid k mk)
          (m\<lparr>messageType := SERVER_LOGIN_RESPONSE, dataBuffer := take 16 (memcpy_at ?b 0 (take 16 f))\<rparr>) (drop 16 f))"
      using m(2) i by (simp add: Run_login_def r Let_def CheckFileStatus_def p [simplified])
    moreover have "take 16 (memcpy_at ?b 0 (take 16 f)) = take 16 f" if "16 \<le> length f" using that by (simp add: memcpy_at_def)
    ultimately show ?thesis using m(1) Some by (simp add: RestoreLogin_reply_def)
  qed
qed

section \<open>Names\<close>

lemma hex_digit_inj: "i < 16 \<Longrightarrow> j < 16 \<Longrightarrow> hex_digit i = hex_digit j \<Longrightarrow> i = j"
proof -
  have "distinct ''0123456789abcdef''" by simp
  then show "i < 16 \<Longrightarrow> j < 16 \<Longrightarrow> hex_digit i = hex_digit j \<Longrightarrow> i = j"
    unfolding hex_digit_def by (subst (asm) nth_eq_iff_index_eq) simp_all
qed

lemma hex_byte_inj: "hex_byte a = hex_byte b \<Longrightarrow> a = b"
proof -
  assume e: "hex_byte a = hex_byte b"
  have l: "unat a < 256" "unat b < 256" using unsigned_less [of a] unsigned_less [of b] by simp_all
  have "unat a div 16 = unat b div 16" "unat a mod 16 = unat b mod 16"
    using e l by (auto simp: hex_byte_def intro!: hex_digit_inj)
  then have "unat a = unat b" by (metis div_mod_decomp)
  then show "a = b" by (simp add: word_unat_eq_iff)
qed

lemma hex_inj: "length a = length b \<Longrightarrow> concat (map hex_byte a) = concat (map hex_byte b) \<Longrightarrow> a = b"
proof (induction a b rule: list_induct2)
  case (Cons x a y b)
  then have "hex_byte x = hex_byte y" "concat (map hex_byte a) = concat (map hex_byte b)" by (simp_all add: hex_byte_def)
  with Cons.IH hex_byte_inj show ?case by blast
qed simp

section \<open>Properties\<close>

text \<open>
  (C11) The client and the enclave agree on a session key. The server lets a client that needs no attestation
  through, the exchange of public points does not fault, the client ends with the key that the enclave
  stores under its identifier, the keys of all other clients are untouched, and the key has the 32 bytes
  that the ciphers need.
\<close>

theorem session_keys_agree:
  assumes "ecdh_ok ec" and "ec_private ec a" and "ec_private ec b" and "length buf = SESSION_KEY_BUFFER_SIZE"
  shows "\<exists>k reply. Run_RA buf (Some (raDecision cid)) = Inr (Some buf) \<and>
     Run_session_key ec b buf (Some (GeneratingSecret_request ec a cid j)) keys = Inr (reply, keys(unat cid \<mapsto> k)) \<and>
     GeneratingSecret_reply ec a (Some reply) = Inr k \<and> key_ok k"
proof -
  obtain k reply where "Run_session_key ec b buf (Some (GeneratingSecret_request ec a cid j)) keys = Inr (reply, keys(unat cid \<mapsto> k))"
      "GeneratingSecret_reply ec a (Some reply) = Inr k" "key_ok k"
    by (rule key_exchange [OF assms])
  moreover have "Run_RA buf (Some (raDecision cid)) = Inr (Some buf)"
    by (simp add: Run_RA_def receive_into_def raDecision_def memcpy_at_def)
  ultimately show ?thesis by blast
qed

text \<open>A curve on which the secret is the sum of the two private keys: it satisfies the laws.\<close>

definition plain_ecdh :: ecdh where
  "plain_ecdh = \<lparr>ec_private = \<lambda>a. length a = 32, ec_public = \<lambda>a. 4 # a @ replicate 32 0,
     ec_derive = \<lambda>p a. Some (map2 (+) (take 32 (drop 1 p)) a)\<rparr>"

lemma plain_ecdh_ok: "ecdh_ok plain_ecdh"
proof -
  have "map2 (+) a b = map2 (+) b a" for a b :: bytes
    by (rule nth_equalityI) (simp_all add: add.commute)
  then show ?thesis by (simp add: ecdh_ok_def plain_ecdh_def const_defs)
qed

theorem session_keys_agree_witness:
  "\<exists>k reply. Run_RA (replicate 65 0) (Some (raDecision 7)) = Inr (Some (replicate 65 0)) \<and>
     Run_session_key plain_ecdh (replicate 32 2) (replicate 65 0) (Some (GeneratingSecret_request plain_ecdh (replicate 32 1) 7 0)) Map.empty =
       Inr (reply, Map.empty(unat (7 :: u32) \<mapsto> k)) \<and>
     GeneratingSecret_reply plain_ecdh (replicate 32 1) (Some reply) = Inr k \<and> key_ok k"
  by (rule session_keys_agree [OF plain_ecdh_ok]) (simp_all add: plain_ecdh_def const_defs)

text \<open>
  Two different hashes of file names never share a recipe file: the path is the hash in hexadecimal digits
  between the root directory and the suffix.
\<close>

theorem recipe_path_injective:
  assumes "length h = CHUNK_HASH_SIZE" and "length h' = CHUNK_HASH_SIZE"
  shows "recipe_path recipeRoot suffix h = recipe_path recipeRoot suffix h' \<longleftrightarrow> h = h'"
  using assms hex_inj [of h h'] by (auto simp: recipe_path_def)

theorem recipe_path_injective_witness:
  "recipe_path ''r/'' ''-recipe'' (replicate 32 1) = recipe_path ''r/'' ''-recipe'' (replicate 31 1 @ [2]) \<longleftrightarrow>
     replicate 32 (1 :: byte) = replicate 31 1 @ [2]"
  by (rule recipe_path_injective) (simp_all add: const_defs)


end
