(* ===== verification/Service.thy ===== *)
theory Service
  imports History Login
begin

text \<open>
  The service as its users see it: the client program (\<open>dbeClient.cc\<close>) with a file, a name and a secret on
  one side, the server over its whole life on the other. A connection is the exchange of the session key,
  the login, and the upload or the restore. Every connection for an upload is a step of the machine, and what
  was uploaded is what a later connection for a restore writes.
\<close>

section \<open>Connections\<close>

text \<open>
  What a connection finds: the curve, the private keys that both sides draw, what is in uninitialised buffers and
  the random IV of the enclave. What a client is: its identifier, its crypto tool, the secret and the batch size of its
  configuration, its chunker.
\<close>

record connection =
  cn_ecdh :: ecdh
  cn_client_key :: bytes
  cn_server_key :: bytes
  cn_header :: u32
  cn_buffer :: bytes
  cn_recipe :: bytes
  cn_iv :: bytes

record client_side =
  cl_id :: u32
  cl_tool :: crypto_tool
  cl_secret :: bytes
  cl_batch :: nat
  cl_chunker :: chunker

record site =
  recipeRootPath :: string
  recipeSuffix :: string
  readCacheSize :: nat

text \<open>The session key of the client, the receive buffer of the server and the keys of the enclave.\<close>

definition open_session :: "connection \<Rightarrow> client_side \<Rightarrow> (nat \<rightharpoonup> bytes) \<Rightarrow> (bytes \<times> bytes \<times> (nat \<rightharpoonup> bytes)) res" where
  "open_session cn cl keys =
     rbind (Run_RA (cn_buffer cn) (Some (raDecision (cl_id cl)))) (\<lambda>b.
       case b of
         None \<Rightarrow> Inl (ProcExit ''client closed socket connect, RA not support.'')
       | Some buf \<Rightarrow>
           rbind (Run_session_key (cn_ecdh cn) (cn_server_key cn) buf
                    (Some (GeneratingSecret_request (cn_ecdh cn) (cn_client_key cn) (cl_id cl) (cn_header cn))) keys) (\<lambda>(reply, keys').
           rbind (GeneratingSecret_reply (cn_ecdh cn) (cn_client_key cn) (Some reply)) (\<lambda>k. Inr (k, dataBuffer reply, keys'))))"

text \<open>An upload: the client logs in, chunks and sends the file; the server runs the receiver and keeps the recipe.\<close>

definition upload_connection ::
  "environment \<Rightarrow> site \<Rightarrow> connection \<Rightarrow> client_side \<Rightarrow> (chunker \<Rightarrow> bytes \<Rightarrow> bytes list res) \<Rightarrow> string \<Rightarrow> bytes \<Rightarrow>
   machine \<times> (nat \<rightharpoonup> bytes) \<Rightarrow> (machine \<times> (nat \<rightharpoonup> bytes)) res" where
  "upload_connection E w cn cl trace name inp mk =
     (let m = fst mk; C = m_cfg m; V = cfg_evp C; T = cl_tool cl in
      rbind (open_session cn cl (snd mk)) (\<lambda>(k, buf, keys).
      rbind (fileNameHash V T name (cl_id cl)) (\<lambda>h.
      rbind (login_request V T CLIENT_LOGIN_UPLOAD (cl_id cl) (cn_header cn) k (cl_secret cl) h) (\<lambda>lm.
      rbind (Run_login C (type_of (srv_index (m_server m))) (recipeRootPath w) (recipeSuffix w) (m_recipes m) keys (cn_iv cn) (cl_id cl) buf (Some lm)) (\<lambda>l.
        case l of
          LoggedUpload path c reply \<Rightarrow>
            rbind (UploadLogin_reply (Some reply)) (\<lambda>u.
            rbind (client_upload V T (\<lambda>m. True) trace (cl_id cl) k (cl_batch cl) (cl_chunker cl) inp) (\<lambda>ms.
            rbind (DataReceiver_Run C (Ecall_ProcChunkBatch C (env_traversals E)) (Ecall_ProcTailChunkBatch C (env_traversals E)) (\<lambda>f. True) ms
                     (srv_index (m_server m), session_start C c (cn_recipe cn) (srv_stats (m_server m)) (storage_of m))) (\<lambda>(r, obj, s).
              case finished r of
                None \<Rightarrow> Inl (ProcExit ''client closed socket connection'')
              | Some f \<Rightarrow> Inr (after_upload m path obj s f, keys))))
        | _ \<Rightarrow> Inl (ProcExit ''server response is wrong, it is not ready.''))))))"

text \<open>A restore: the client logs in, the decoder sends the chunks, the client writes the file.\<close>

definition restore_connection ::
  "site \<Rightarrow> connection \<Rightarrow> client_side \<Rightarrow> string \<Rightarrow> machine \<times> (nat \<rightharpoonup> bytes) \<Rightarrow> bytes res" where
  "restore_connection w cn cl name mk =
     (let m = fst mk; C = m_cfg m; V = cfg_evp C; T = cl_tool cl in
      rbind (open_session cn cl (snd mk)) (\<lambda>(k, buf, keys).
      rbind (fileNameHash V T name (cl_id cl)) (\<lambda>h.
      rbind (login_request V T CLIENT_LOGIN_DOWNLOAD (cl_id cl) (cn_header cn) k (cl_secret cl) h) (\<lambda>lm.
      rbind (Run_login C (type_of (srv_index (m_server m))) (recipeRootPath w) (recipeSuffix w) (m_recipes m) keys (cn_iv cn) (cl_id cl) buf (Some lm)) (\<lambda>l.
        case l of
          LoggedRestore path c reply rest \<Rightarrow>
            rbind (RestoreLogin_reply (Some reply)) (\<lambda>head.
            rbind (EnclaveRecvDecoder_Run C (\<lambda>m. True) (Some ((blank_msg (cl_id cl))\<lparr>messageType := CLIENT_RESTORE_READY\<rparr>)) rest
                     (ClientVar_InitRestoreBuffer (readCacheSize w) (cl_id cl) c (m_containers m))) (\<lambda>t.
              client_restore V T k head (sent t)))
        | Rejected reply \<Rightarrow> rbind (RestoreLogin_reply (Some reply)) (\<lambda>head. Inl (ProcExit ''client does not close the connection.''))
        | LoggedUpload path c reply \<Rightarrow> Inl (ProcExit ''server response is wrong, it is not ready.''))))))"

section \<open>Sessions are opened\<close>

definition connection_ok :: "connection \<Rightarrow> bool" where
  "connection_ok cn \<longleftrightarrow> ecdh_ok (cn_ecdh cn) \<and> ec_private (cn_ecdh cn) (cn_client_key cn) \<and> ec_private (cn_ecdh cn) (cn_server_key cn) \<and>
     length (cn_buffer cn) = SESSION_KEY_BUFFER_SIZE \<and> length (cn_iv cn) = CRYPTO_BLOCK_SIZE"

lemma open_session_ok:
  assumes "connection_ok cn"
  obtains k buf where "open_session cn cl keys = Inr (k, buf, keys(unat (cl_id cl) \<mapsto> k))" and "key_ok k" and "length buf = SESSION_KEY_BUFFER_SIZE"
proof -
  have c: "ecdh_ok (cn_ecdh cn)" "ec_private (cn_ecdh cn) (cn_client_key cn)" "ec_private (cn_ecdh cn) (cn_server_key cn)"
      "length (cn_buffer cn) = SESSION_KEY_BUFFER_SIZE"
    using assms by (simp_all add: connection_ok_def)
  obtain k reply where r: "Run_session_key (cn_ecdh cn) (cn_server_key cn) (cn_buffer cn)
        (Some (GeneratingSecret_request (cn_ecdh cn) (cn_client_key cn) (cl_id cl) (cn_header cn))) keys = Inr (reply, keys(unat (cl_id cl) \<mapsto> k))"
      "GeneratingSecret_reply (cn_ecdh cn) (cn_client_key cn) (Some reply) = Inr k" "key_ok k" "length (dataBuffer reply) = SESSION_KEY_BUFFER_SIZE"
    by (rule key_exchange [OF c])
  have "Run_RA (cn_buffer cn) (Some (raDecision (cl_id cl))) = Inr (Some (cn_buffer cn))"
    by (simp add: Run_RA_def receive_into_def raDecision_def memcpy_at_def)
  with r show thesis by (intro that [of k "dataBuffer reply"]) (simp_all add: open_session_def)
qed

text \<open>The path of a file of a client, its master key and its chunks.\<close>

definition file_path :: "enclave_cfg \<Rightarrow> site \<Rightarrow> client_side \<Rightarrow> string \<Rightarrow> string" where
  "file_path C w cl name =
     (case fileNameHash (cfg_evp C) (cl_tool cl) name (cl_id cl) of Inl e \<Rightarrow> '''' | Inr h \<Rightarrow> recipe_path (recipeRootPath w) (recipeSuffix w) h)"

definition client_master_key :: "enclave_cfg \<Rightarrow> client_side \<Rightarrow> bytes" where
  "client_master_key C cl = (case Crypto_GenerateHash (cfg_evp C) (cl_tool cl) (cl_secret cl) of Inl e \<Rightarrow> [] | Inr mk \<Rightarrow> mk)"

lemma client_hashes:
  assumes "cfg_ok C" and "host_ok C (cl_tool cl)"
  obtains h where "fileNameHash (cfg_evp C) (cl_tool cl) name (cl_id cl) = Inr h" and "key_ok h"
    and "file_path C w cl name = recipe_path (recipeRootPath w) (recipeSuffix w) h"
    and "Crypto_GenerateHash (cfg_evp C) (cl_tool cl) (cl_secret cl) = Inr (client_master_key C cl)" and "key_ok (client_master_key C cl)"
proof -
  obtain h where h: "fileNameHash (cfg_evp C) (cl_tool cl) name (cl_id cl) = Inr h" "key_ok h"
    unfolding fileNameHash_def by (rule host_hash [OF assms])
  obtain mk where m: "Crypto_GenerateHash (cfg_evp C) (cl_tool cl) (cl_secret cl) = Inr mk" "key_ok mk" by (rule host_hash [OF assms])
  have "client_master_key C cl = mk" using m(1) by (simp add: client_master_key_def)
  with h m show thesis by (intro that [of h]) (simp_all add: file_path_def)
qed

section \<open>Uploads are steps of the machine\<close>

definition upload_ready :: "connection \<Rightarrow> client_side \<Rightarrow> bytes list \<Rightarrow> machine \<Rightarrow> bool" where
  "upload_ready cn cl cs m \<longleftrightarrow> connection_ok cn \<and> host_ok (m_cfg m) (cl_tool cl) \<and> 0 < cl_batch cl \<and> cl_batch cl * Chunk_size < 2 ^ 32 \<and>
     (\<forall>c. upload_allowed m (session_start (m_cfg m) c (cn_recipe cn) (srv_stats (m_server m)) (storage_of m)) cs)"

lemma upload_connection_step:
  assumes inv: "machine_inv E m" and rdy: "upload_ready cn cl cs m"
    and ch: "Chunking trace (cl_chunker cl) inp = Inr (map DATA_CHUNK cs @ [RECIPE_END hd0])" "totalChunkNum hd0 = of_nat (length cs)"
  shows "\<exists>m' k. upload_connection E w cn cl trace name inp (m, keys) = Inr (m', keys(unat (cl_id cl) \<mapsto> k)) \<and>
     machine_step E m (Upload (file_path (m_cfg m) w cl name) (client_master_key (m_cfg m) cl) cs) m'"
proof -
  let ?C = "m_cfg m" and ?T = "cl_tool cl" and ?t = "type_of (srv_index (m_server m))"
  have C: "cfg_ok ?C" using inv by (simp add: machine_inv_def res_cfg_def)
  have r: "connection_ok cn" "host_ok ?C ?T" "0 < cl_batch cl" "cl_batch cl * Chunk_size < 2 ^ 32" "length (cn_iv cn) = CRYPTO_BLOCK_SIZE"
      and al: "\<And>c. upload_allowed m (session_start ?C c (cn_recipe cn) (srv_stats (m_server m)) (storage_of m)) cs"
    using rdy by (simp_all add: upload_ready_def connection_ok_def)
  obtain k buf where o: "open_session cn cl keys = Inr (k, buf, keys(unat (cl_id cl) \<mapsto> k))" "key_ok k" "length buf = SESSION_KEY_BUFFER_SIZE"
    by (rule open_session_ok [OF r(1)])
  obtain h where h: "fileNameHash (cfg_evp ?C) ?T name (cl_id cl) = Inr h" "key_ok h"
      "file_path ?C w cl name = recipe_path (recipeRootPath w) (recipeSuffix w) h"
      "Crypto_GenerateHash (cfg_evp ?C) ?T (cl_secret cl) = Inr (client_master_key ?C cl)" "key_ok (client_master_key ?C cl)"
    by (rule client_hashes [OF C r(2)])
  have k: "(keys(unat (cl_id cl) \<mapsto> k)) (unat (cl_id cl)) = Some k" by simp
  from upload_logged [where keys = "keys(unat (cl_id cl) \<mapsto> k)" and cid = "cl_id cl" and t = ?t and recipeRoot = "recipeRootPath w" and suffix = "recipeSuffix w" and recipes = "m_recipes m" and j = "cn_header cn",
      OF C r(2) k o(2) h(2,4,5) r(5) o(3)]
  obtain lm emk c reply where l: "login_request (cfg_evp ?C) ?T CLIENT_LOGIN_UPLOAD (cl_id cl) (cn_header cn) k (cl_secret cl) h = Inr lm"
      "Run_login ?C ?t (recipeRootPath w) (recipeSuffix w) (m_recipes m) (keys(unat (cl_id cl) \<mapsto> k)) (cn_iv cn) (cl_id cl) buf (Some lm) =
        Inr (LoggedUpload (file_path ?C w cl name) c reply)" "UploadLogin_reply (Some reply) = Inr ()"
      "Ecall_Init_Client ?C (keys(unat (cl_id cl) \<mapsto> k)) (unat (cl_id cl)) ?t (cn_iv cn) emk = Inr c" "sessionKey c = k" "masterKey c = client_master_key ?C cl"
    unfolding h(3) by blast
  let ?s = "session_start ?C c (cn_recipe cn) (srv_stats (m_server m)) (storage_of m)"
  have sc: "sgx ?s = c" by (simp add: session_start_def upload_start_def ClientVar_InitUploadBuffer_def case_prod_beta)
  have iv: "same_iv ?C ?T" using r(2) by (simp add: host_ok_def)
  have e: "evp_ok (cfg_evp ?C)" "tool_ok (cfg_tool ?C)" using C by (simp_all add: cfg_ok_def)
  have sz: "\<forall>d \<in> set cs. length d \<le> unat MAX_CHUNK_SIZE" using al [of c] by (simp add: upload_allowed_def Let_def chunk_ok_def)
  from client_upload_ok [OF ch(1) e iv o(2) r(3,4) sz, of "\<lambda>m. True" "cl_id cl"] obtain ms where
    ms: "client_upload (cfg_evp ?C) ?T (\<lambda>m. True) trace (cl_id cl) k (cl_batch cl) (cl_chunker cl) inp = Inr ms" "upload_msgs ?C k ms cs hd0" by auto
  from ms(2) obtain ms' em css where m': "ms = ms' @ [em]" "list_all2 (upload_msg ?C k) ms' css" "concat css = cs"
      "messageType em = CLIENT_UPLOAD_RECIPE_END" "dataBuffer em = FileRecipeHead_bytes hd0"
    unfolding upload_msgs_def by blast
  have "list_all2 (batch_of ?C ?s) ms' css"
    using m'(2) by (rule list_all2_mono) (simp add: batch_of_def upload_msg_def sc l(5) o(2))
  moreover have "\<forall>m \<in> set ms'. messageType m = CLIENT_UPLOAD_CHUNK"
    using m'(2) by (auto simp: list_all2_conv_all_nth upload_msg_def in_set_conv_nth)
  moreover have "totalChunkNum (FileRecipeHead_of_bytes (dataBuffer em)) = of_nat (length (concat css))"
    using m'(3,5) ch(2) FileRecipeHead_roundtrip [of hd0 "[]"] by simp
  ultimately have cm: "client_messages ?C ?s ms' em css" using m'(4) by (simp add: client_messages_def)
  have al': "upload_allowed m ?s (concat css)" using al m'(3) by simp
  have mk: "key_ok (masterKey c)" using l(6) h(5) by simp
  have op: "\<forall>f :: bytes. True" by simp
  from upload_step_inv [OF inv l(4) r(5) mk refl al' cm op] obtain rc obj s' f where
    run: "DataReceiver_Run ?C (Ecall_ProcChunkBatch ?C (env_traversals E)) (Ecall_ProcTailChunkBatch ?C (env_traversals E)) (\<lambda>f. True) (ms' @ [em])
        (srv_index (m_server m), ?s) = Inr (rc, obj, s')" "finished rc = Some f" by blast
  have "upload_connection E w cn cl trace name inp (m, keys) = Inr (after_upload m (file_path ?C w cl name) obj s' f, keys(unat (cl_id cl) \<mapsto> k))"
    using o(1) h(1) l(1-3) ms(1) run m'(1) by (simp add: upload_connection_def Let_def del: fun_upd_apply)
  moreover have "machine_step E m (Upload (file_path ?C w cl name) (client_master_key ?C cl) cs) (after_upload m (file_path ?C w cl name) obj s' f)"
    using machine_step.upload [OF l(4) r(5) mk refl al' cm op run, of "file_path ?C w cl name"] l(6) m'(3) by simp
  ultimately show ?thesis by blast
qed

section \<open>Restores\<close>

definition restore_ready :: "connection \<Rightarrow> client_side \<Rightarrow> site \<Rightarrow> machine \<Rightarrow> bool" where
  "restore_ready cn cl w m \<longleftrightarrow> connection_ok cn \<and> host_ok (m_cfg m) (cl_tool cl) \<and> 0 < readCacheSize w \<and> readCacheSize w < 2 ^ 32"

lemma restore_connection_ok:
  assumes inv: "machine_inv E m" "recipes_inv l m" and rdy: "restore_ready cn cl w m"
  shows "case l (file_path (m_cfg m) w cl name) of
      None \<Rightarrow> restore_connection w cn cl name (m, keys) = Inl (ProcExit ''the request file not exist.'')
    | Some (mk, cs) \<Rightarrow> mk = client_master_key (m_cfg m) cl \<longrightarrow>
        (\<exists>ds. restore_connection w cn cl name (m, keys) = Inr (concat ds) \<and> map (chunk_fp (m_cfg m)) ds = map (chunk_fp (m_cfg m)) cs)"
proof -
  let ?C = "m_cfg m" and ?T = "cl_tool cl" and ?t = "type_of (srv_index (m_server m))"
  have R: "res_cfg ?C" and C: "cfg_ok ?C" using inv(1) by (simp_all add: machine_inv_def res_cfg_def)
  have r: "connection_ok cn" "host_ok ?C ?T" "0 < readCacheSize w" "readCacheSize w < 2 ^ 32" using rdy by (simp_all add: restore_ready_def)
  obtain k buf where o: "open_session cn cl keys = Inr (k, buf, keys(unat (cl_id cl) \<mapsto> k))" "key_ok k" "length buf = SESSION_KEY_BUFFER_SIZE"
    by (rule open_session_ok [OF r(1)])
  obtain h where h: "fileNameHash (cfg_evp ?C) ?T name (cl_id cl) = Inr h" "key_ok h"
      "file_path ?C w cl name = recipe_path (recipeRootPath w) (recipeSuffix w) h"
      "Crypto_GenerateHash (cfg_evp ?C) ?T (cl_secret cl) = Inr (client_master_key ?C cl)" "key_ok (client_master_key ?C cl)"
    by (rule client_hashes [OF C r(2)])
  have k: "(keys(unat (cl_id cl) \<mapsto> k)) (unat (cl_id cl)) = Some k" by simp
  note lg = restore_logged [where keys = "keys(unat (cl_id cl) \<mapsto> k)" and cid = "cl_id cl" and t = ?t and recipeRoot = "recipeRootPath w" and suffix = "recipeSuffix w" and recipes = "m_recipes m" and j = "cn_header cn"
      and rand_iv = "cn_iv cn", OF C r(2) k o(2) h(2,4,5) o(3), folded h(3)]
  show ?thesis
  proof (cases "l (file_path ?C w cl name)")
    case None
    then have "m_recipes m (file_path ?C w cl name) = None" using inv(2) by (auto simp: recipes_inv_def)
    with lg o(1) h(1) None show ?thesis by (auto simp: restore_connection_def Let_def simp del: fun_upd_apply)
  next
    case (Some p)
    obtain mk cs where p: "p = (mk, cs)" by (cases p)
    from inv(2) Some p obtain f where f: "key_ok mk" "m_recipes m (file_path ?C w cl name) = Some f" "uploaded ?C mk (m_containers m) f cs" "head_ok f cs"
      unfolding recipes_inv_def by blast
    have "16 \<le> length f" using f(4) by (simp add: head_ok_def)
    with lg f(2) obtain lm reply where l: "login_request (cfg_evp ?C) ?T CLIENT_LOGIN_DOWNLOAD (cl_id cl) (cn_header cn) k (cl_secret cl) h = Inr lm"
        "Run_login ?C ?t (recipeRootPath w) (recipeSuffix w) (m_recipes m) (keys(unat (cl_id cl) \<mapsto> k)) (cn_iv cn) (cl_id cl) buf (Some lm) =
          Inr (LoggedRestore (file_path ?C w cl name) (EnclaveClient_InitRestoreBuffer (cl_id cl) k (client_master_key ?C cl)) reply (drop 16 f))"
        "RestoreLogin_reply (Some reply) = Inr (FileRecipeHead_of_bytes (take 16 f))"
      by auto
    have "\<exists>ds. restore_connection w cn cl name (m, keys) = Inr (concat ds) \<and> map (chunk_fp ?C) ds = map (chunk_fp ?C) cs" if mk: "mk = client_master_key ?C cl"
    proof -
      let ?rdy = "(blank_msg (cl_id cl))\<lparr>messageType := CLIENT_RESTORE_READY\<rparr>"
      from uploaded_restore [OF R o(2) f(1) r(3,4) f(3), of "\<lambda>m. True" ?rdy "cl_id cl"] obtain t ds where
        t: "EnclaveRecvDecoder_Run ?C (\<lambda>m. True) (Some ?rdy) (drop 16 f) (restore_start ?C (readCacheSize w) (cl_id cl) k mk (m_containers m)) = Inr t"
          "restored ?C k (sent t) ds" "map (chunk_fp ?C) ds = map (chunk_fp ?C) cs" by auto
      have "length ds = length cs" using t(3) by (metis length_map)
      then have n: "totalChunkNum (FileRecipeHead_of_bytes (take 16 f)) = of_nat (length ds)" using f(4) by (simp add: head_ok_def)
      have "same_iv ?C ?T" using r(2) by (simp add: host_ok_def)
      from client_restore_ok [OF t(2) this n] o(1) h(1) l t(1,3) mk show ?thesis
        by (intro exI [of _ ds]) (simp add: restore_connection_def Let_def restore_start_def del: fun_upd_apply)
    qed
    then show ?thesis using Some p by simp
  qed
qed

section \<open>Histories\<close>

definition overwrites :: "string \<Rightarrow> event list \<Rightarrow> bool" where
  "overwrites path es \<longleftrightarrow> (\<exists>mk cs. Upload path mk cs \<in> set es)"

lemma last_uploads_snoc: "last_uploads (es @ [e]) = (case e of Upload path mk cs \<Rightarrow> (last_uploads es)(path \<mapsto> (mk, cs)) | Restart \<Rightarrow> last_uploads es)"
  by (cases e) (simp_all add: last_uploads_def)

lemma last_uploads_other: "\<not> overwrites path es' \<Longrightarrow> last_uploads (es @ es') path = last_uploads es path"
proof (induction es' rule: rev_induct)
  case Nil
  then show ?case by simp
next
  case (snoc e es')
  have "last_uploads (es @ es') path = last_uploads es path" using snoc by (auto simp: overwrites_def)
  then show ?case using snoc.prems unfolding append_assoc [symmetric] last_uploads_snoc by (cases e) (auto simp: overwrites_def)
qed

lemma last_uploads_none: "\<not> overwrites path es \<Longrightarrow> last_uploads es path = None"
  using last_uploads_other [of path es "[]"] by (simp add: last_uploads_def)

lemma machine_run_append: "machine_run E m es' m' \<Longrightarrow> machine_run E m0 es m \<Longrightarrow> machine_run E m0 (es @ es') m'"
proof (induction rule: machine_run.induct)
  case start
  then show ?case by simp
next
  case (continue es' m' e m'')
  then show ?case using machine_run.continue by (metis append_assoc)
qed

lemma machine_step_cfg:
  assumes "machine_step E m e m'" and "machine_inv E m"
  shows "m_cfg m' = m_cfg m"
  using assms(1)
proof cases
  case upload
  then show ?thesis by (simp add: after_upload_def)
next
  case (restart can_create orders items dk1 r1 r2 j1 j2 j3 S dk2 p)
  from restart_step_inv [OF assms(2) restart(3), of r1 r2 j1 j2 j3 p] restart(4,5) restart(2) show ?thesis by (auto simp: restarted_def)
qed

text \<open>The configuration with its keys does not change.\<close>

lemma machine_run_cfg:
  assumes "machine_run E m0 es m" and "machine_inv E m0"
  shows "machine_inv E m \<and> m_cfg m = m_cfg m0"
  using assms
proof (induction rule: machine_run.induct)
  case start
  then show ?case by simp
next
  case (continue es m e m')
  then have i: "machine_inv E m" "m_cfg m = m_cfg m0" by simp_all
  from continue(2) have "machine_inv E m'"
  proof cases
    case (upload keys cid rand_iv emk c s junk css ms em can_open r obj s' f path)
    from upload_step_inv [OF i(1) upload(3-9), of path] upload(2,10,11) show ?thesis by auto
  next
    case (restart can_create orders items dk1 r1 r2 j1 j2 j3 S dk2 p)
    from restart_step_inv [OF i(1) restart(3), of r1 r2 j1 j2 j3 p] restart(2,4,5) show ?thesis by auto
  qed
  then show ?case using machine_step_cfg [OF continue(2) i(1)] i(2) by simp
qed

section \<open>Properties\<close>


text \<open>
  (C10) A restore of a name under which nothing was ever uploaded is refused: the server answers that the file does
  not exist and the client ends with that message; nothing else happens.
\<close>

theorem service_refuses_unknown:
  assumes "server_start (env_conf E) r1 r2 j1 j2 j3 (env_type E) (env_cfg E) blank_disk = Inr (S, dk)" and "key_ok r1" and "key_ok r2"
    and "res_cfg (srv_cfg S)" and "2 \<le> topKParam (srv_cfg S)" and "topKParam (srv_cfg S) < heap_bound" and "traversals_ok (env_traversals E)"
    and "machine_run E (first_machine S dk p) es m" and "restore_ready cn cl w m" and "\<not> overwrites (file_path (m_cfg m) w cl name) es"
  shows "restore_connection w cn cl name (m, keys) = Inl (ProcExit ''the request file not exist.'')"
proof -
  have i: "machine_inv E m" "recipes_inv (last_uploads es) m"
    using machine_run_inv [OF assms(8) first_machine_inv [OF assms(1-7)] recipes_inv_start] by simp_all
  from restore_connection_ok [OF i assms(9), of name keys] last_uploads_none [OF assms(10)] show ?thesis by simp
qed

section \<open>A sample\<close>

definition sharp_env :: environment where
  "sharp_env = sample_env\<lparr>env_cfg := sharp_cfg\<rparr>"

definition sharp_server :: server where
  "sharp_server = sample_server\<lparr>srv_cfg := sharp_cfg\<rparr>"

lemma sharp_env_start:
  "server_start (env_conf sharp_env) (replicate 32 1) (replicate 32 2) [] [] [] (env_type sharp_env) (env_cfg sharp_env) blank_disk = Inr (sharp_server, blank_disk)"
  by (simp add: sharp_env_def sample_env_def server_start_def blank_disk_def InMemoryDatabase_OpenDB_def Ecall_Enclave_Init_def Ocall_InitReadSealedFile_def
      Ocall_CloseReadSealedFile_def Ecall_Init_Upload_def index_type_of_int_def new_index_def EcallInEnclaveIndex_init_def
      InEnclave_LoadDedupIndex_def read_info_def sharp_server_def sample_server_def sample_conf_def sharp_cfg_def sample_cfg_def)

lemma sharp_server_ok:
  "res_cfg (srv_cfg sharp_server)" "2 \<le> topKParam (srv_cfg sharp_server)" "topKParam (srv_cfg sharp_server) < heap_bound"
  "traversals_ok (env_traversals sharp_env)" "key_ok (replicate 32 1)" "key_ok (replicate 32 2)"
  using sample_traversals by (simp_all add: sharp_server_def sharp_res_cfg sharp_env_def key_ok_def const_defs) (simp_all add: sharp_cfg_def sample_cfg_def heap_bound_def)

definition sample_connection :: connection where
  "sample_connection = \<lparr>cn_ecdh = plain_ecdh, cn_client_key = replicate 32 1, cn_server_key = replicate 32 2, cn_header = 0, cn_buffer = replicate 65 0,
     cn_recipe = [], cn_iv = replicate 16 0\<rparr>"

definition sample_user :: client_side where
  "sample_user = \<lparr>cl_id = 1, cl_tool = cfg_tool sample_cfg, cl_secret = [9], cl_batch = 2, cl_chunker = sample_chunker\<rparr>"

definition sample_site :: site where
  "sample_site = \<lparr>recipeRootPath = ''Recipes/'', recipeSuffix = ''-recipe'', readCacheSize = 4\<rparr>"

lemma sample_connection_ok: "connection_ok sample_connection"
  using plain_ecdh_ok by (simp add: connection_ok_def sample_connection_def const_defs) (simp add: plain_ecdh_def)

lemma sample_host: "host_ok sharp_cfg (cl_tool sample_user)"
  by (simp add: host_ok_def same_iv_def sample_user_def sharp_cfg_def) (simp add: sample_cfg_def EcallCrypto_new_def)

abbreviation sharp_machine :: machine where
  "sharp_machine \<equiv> first_machine sharp_server blank_disk 0"

lemma sharp_machine_fields: "m_cfg sharp_machine = sharp_cfg" "srv_index (m_server sharp_machine) = InEnclaveIndex Map.empty"
  by (simp_all add: first_machine_def sharp_server_def) (simp add: sample_server_def)

lemma sharp_upload_ready: "upload_ready sample_connection sample_user (cdc_chunks (cl_chunker sample_user) [1, 2, 3]) sharp_machine"
proof -
  have c: "cdc_chunks (cl_chunker sample_user) [1, 2, 3] = [[1, 2, 3]]" by (simp add: sample_user_def sample_file_chunks)
  have "names_free sharp_cfg 1 (storage_of sharp_machine)"
    by (simp add: names_free_def storage_of_def first_machine_def sharp_cfg_def sample_cfg_def uuid_at_def CreateUUID_def const_defs upt_rec ALPHABET_def)
  then have "upload_allowed sharp_machine s [[1, 2, 3]]" for s
    by (simp add: upload_allowed_def sharp_machine_fields names_per_chunk_def obj_fresh_def obj_safe_def sharp_chunk_ok)
  then show ?thesis
    using sample_connection_ok sample_host unfolding c upload_ready_def sharp_machine_fields by (simp add: sample_user_def Chunk_size_def const_defs)
qed

lemma sharp_restore_ready: "m_cfg m = sharp_cfg \<Longrightarrow> restore_ready sample_connection sample_user sample_site m"
  using sample_connection_ok sample_host by (simp add: restore_ready_def) (simp add: sample_site_def)


theorem service_refuses_unknown_witness:
  "restore_connection sample_site sample_connection sample_user ''f'' (sharp_machine, Map.empty) = Inl (ProcExit ''the request file not exist.'')"
  by (rule service_refuses_unknown [OF sharp_env_start sharp_server_ok(5,6,1-4) machine_run.start])
    (simp_all add: sharp_restore_ready sharp_machine_fields overwrites_def)

end
