(* ===== verification/KeyGen.thy ===== *)
theory KeyGen
  imports ClientIO
begin

text \<open>
  Encrypted deduplication in the program of \<open>src/Baseline\<close>: the client encrypts every chunk under a key
  that depends on its content before it is sent (\<open>KeyGen/absDaE.cc\<close> and its subclasses). This theory holds what the
  subclasses share, the two that need no key manager (\<open>plainDaE.cc\<close>, \<open>mleDaE.cc\<close>) and the contract \<open>dae\<close>
  of all four. The record \<open>enclave_cfg\<close> serves as the configuration; its keys and its top-k parameter do
  not occur here.
\<close>

section \<open>Buffers\<close>

datatype dae_type = PLAIN_DAE | CE_DAE | TED_DAE | DUPLESS_DAE

text \<open>\<open>KeyRecipeEntry_t\<close>: the key of a chunk and the fingerprint of its encryption.\<close>

definition KeyRecipeEntry_size :: nat where
  "KeyRecipeEntry_size = CHUNK_HASH_SIZE + CHUNK_HASH_SIZE"

lemma KeyRecipeEntry_size_val [const_defs]: "KeyRecipeEntry_size = 64"
  by (simp add: KeyRecipeEntry_size_def CHUNK_HASH_SIZE_def)

text \<open>
  What \<open>ProcessBatchChunk\<close> works on: the buffers of the sender for cipher chunks and for the key
  recipe, the pointer into the latter as an offset, and the key recipe file of the client.
\<close>

record dae_bufs =
  cipherBuf :: net_msg
  recipeBuf :: net_msg
  tmpRecipe :: nat
  keyRecipeFile :: bytes

text \<open>The key goes to the file and to the entry behind the pointer, which advances.\<close>

definition put_key :: "enclave_cfg \<Rightarrow> bytes \<Rightarrow> dae_bufs \<Rightarrow> dae_bufs res" where
  "put_key C key s =
     (if sendRecipeBatchSize C * KeyRecipeEntry_size < tmpRecipe s + CHUNK_HASH_SIZE then Inl (Undefined ''key recipe buffer overflow'')
      else Inr (s\<lparr>keyRecipeFile := keyRecipeFile s @ take CHUNK_HASH_SIZE key,
                  recipeBuf := (recipeBuf s)\<lparr>dataBuffer := memcpy_at (dataBuffer (recipeBuf s)) (tmpRecipe s) (take CHUNK_HASH_SIZE key)\<rparr>,
                  tmpRecipe := tmpRecipe s + KeyRecipeEntry_size\<rparr>))"

definition put_cipher :: "enclave_cfg \<Rightarrow> bytes \<Rightarrow> dae_bufs \<Rightarrow> dae_bufs res" where
  "put_cipher C x s =
     (if sendChunkBatchSize C * Chunk_size < unat (dataSize (cipherBuf s)) + 4 + length x then Inl (Undefined ''cipher chunk buffer overflow'')
      else Inr (s\<lparr>cipherBuf := append_chunk x (cipherBuf s)\<rparr>))"

text \<open>
  One round of the loop that every subclass has over the plain chunks: \<open>keyf i d\<close> is the key of the
  \<open>i\<close>-th chunk \<open>d\<close> and \<open>encf\<close> what turns it into the cipher chunk.
\<close>

definition dae_step ::
  "enclave_cfg \<Rightarrow> (nat \<Rightarrow> bytes \<Rightarrow> bytes res) \<Rightarrow> (bytes \<Rightarrow> bytes \<Rightarrow> bytes res) \<Rightarrow> net_msg \<Rightarrow> nat \<Rightarrow> dae_bufs \<times> nat \<Rightarrow> (dae_bufs \<times> nat) res" where
  "dae_step C keyf encf plain i st =
     (let (s, offset) = st in
      rbind (read_chunk (dataBuffer plain) offset) (\<lambda>(d, offset').
      rbind (keyf i d) (\<lambda>key.
      rbind (put_key C key s) (\<lambda>s1.
      rbind (encf key d) (\<lambda>x.
      rbind (put_cipher C x s1) (\<lambda>s2. Inr (s2, offset')))))))"

definition dae_loop ::
  "enclave_cfg \<Rightarrow> (nat \<Rightarrow> bytes \<Rightarrow> bytes res) \<Rightarrow> (bytes \<Rightarrow> bytes \<Rightarrow> bytes res) \<Rightarrow> net_msg \<Rightarrow> dae_bufs \<Rightarrow> dae_bufs res" where
  "dae_loop C keyf encf plain s =
     rbind (rfold (dae_step C keyf encf plain) [0..<unat (currentItemNum plain)]
              (s\<lparr>tmpRecipe := unat (dataSize (recipeBuf s))\<rparr>, 0)) (\<lambda>(s1, off). Inr s1)"

section \<open>Without a key manager\<close>

text \<open>\<open>PlainDAE\<close>: the chunk is copied, and the key is made of ones.\<close>

definition Plain_ProcessBatchChunk :: "enclave_cfg \<Rightarrow> net_msg \<Rightarrow> dae_bufs \<times> unit \<Rightarrow> (dae_bufs \<times> unit) res" where
  "Plain_ProcessBatchChunk C plain st =
     rbind (dae_loop C (\<lambda>i d. Inr (replicate CHUNK_HASH_SIZE 1)) (\<lambda>key d. Inr d) plain (fst st)) (\<lambda>s. Inr (s, ()))"

text \<open>\<open>MLEDAE\<close>: the key is the fingerprint of the chunk.\<close>

definition MLE_ProcessBatchChunk :: "enclave_cfg \<Rightarrow> net_msg \<Rightarrow> dae_bufs \<times> unit \<Rightarrow> (dae_bufs \<times> unit) res" where
  "MLE_ProcessBatchChunk C plain st =
     rbind (dae_loop C (\<lambda>i d. Crypto_GenerateHash (cfg_evp C) (cfg_tool C) d)
              (\<lambda>key d. Crypto_EncryptWithKey (cfg_evp C) (cfg_tool C) d key) plain (fst st)) (\<lambda>s. Inr (s, ()))"

section \<open>The loop is correct\<close>

text \<open>
  The items \<open>ks\<close> of \<open>sz\<close> bytes stand at distances of \<open>st\<close> in a buffer from \<open>pos\<close> on, behind what was there in
  \<open>old\<close>.
\<close>

definition entries_at :: "nat \<Rightarrow> nat \<Rightarrow> bytes \<Rightarrow> nat \<Rightarrow> bytes list \<Rightarrow> bytes \<Rightarrow> bool" where
  "entries_at st sz old pos ks buf \<longleftrightarrow> take pos buf = take pos old \<and>
     (\<forall>i < length ks. pos + i * st + sz \<le> length buf \<and> read_at buf (pos + i * st) sz = ks ! i)"

abbreviation keys_at :: "bytes \<Rightarrow> nat \<Rightarrow> bytes list \<Rightarrow> bytes \<Rightarrow> bool" where
  "keys_at \<equiv> entries_at KeyRecipeEntry_size CHUNK_HASH_SIZE"

lemma entries_at_snoc:
  assumes "entries_at st sz old pos ks buf" and k: "length k = sz" and "pos \<le> length old" and "sz \<le> st"
  shows "entries_at st sz old pos (ks @ [k]) (memcpy_at buf (pos + length ks * st) k)"
proof -
  let ?p = "pos + length ks * st" and ?b = "memcpy_at buf (pos + length ks * st) k"
  have le: "pos \<le> length buf" using assms(1,3) unfolding entries_at_def by (metis length_take min.absorb2 min.cobounded1)
  have "take pos ?b = take pos buf" using le by (simp add: memcpy_at_def)
  moreover have "pos + i * st + sz \<le> length ?b \<and> read_at ?b (pos + i * st) sz = (ks @ [k]) ! i" if i: "i < length (ks @ [k])" for i
  proof (cases "i = length ks")
    case True
    then show ?thesis using read_memcpy_same [of buf ?p k] k by simp
  next
    case False
    then have lt: "i < length ks" using i by simp
    then have b: "pos + i * st + sz \<le> length buf" "read_at buf (pos + i * st) sz = ks ! i"
      using assms(1) by (simp_all add: entries_at_def)
    have "i * st + st \<le> length ks * st" using lt mult_le_mono1 [of "Suc i" "length ks" st] by simp
    then have "pos + i * st + sz \<le> ?p" using assms(4) by simp
    with b show ?thesis using read_memcpy_before [of "pos + i * st" sz ?p buf k] lt by (simp add: nth_append)
  qed
  ultimately show ?thesis using assms(1) by (simp add: entries_at_def)
qed

lemmas keys_at_snoc = entries_at_snoc [where st = KeyRecipeEntry_size and sz = CHUNK_HASH_SIZE]

text \<open>What the loop leaves of the header of the key recipe buffer.\<close>

definition same_header :: "net_msg \<Rightarrow> net_msg \<Rightarrow> bool" where
  "same_header m m' \<longleftrightarrow> messageType m' = messageType m \<and> clientID m' = clientID m \<and> dataSize m' = dataSize m \<and> currentItemNum m' = currentItemNum m"

text \<open>The chunks \<open>ds\<close> have become the cipher chunks \<open>es\<close> under the keys \<open>ks\<close>.\<close>

definition dae_result :: "enclave_cfg \<Rightarrow> dae_bufs \<Rightarrow> bytes list \<Rightarrow> bytes list \<Rightarrow> bytes list \<Rightarrow> dae_bufs \<Rightarrow> bool" where
  "dae_result C s ds ks es s' \<longleftrightarrow> length ks = length ds \<and> length es = length ds \<and> (\<forall>k \<in> set ks. key_ok k) \<and>
     pending (cipherBuf s') es \<and> keyRecipeFile s' = keyRecipeFile s @ concat ks \<and> same_header (recipeBuf s) (recipeBuf s') \<and>
     keys_at (dataBuffer (recipeBuf s)) (unat (dataSize (recipeBuf s))) ks (dataBuffer (recipeBuf s'))"

definition dae_ready :: "enclave_cfg \<Rightarrow> bytes list \<Rightarrow> dae_bufs \<Rightarrow> bool" where
  "dae_ready C ds s \<longleftrightarrow> length ds \<le> sendChunkBatchSize C \<and> sendChunkBatchSize C * Chunk_size < 2 ^ 32 \<and>
     pending (cipherBuf s) [] \<and> unat (dataSize (recipeBuf s)) \<le> length (dataBuffer (recipeBuf s)) \<and>
     unat (dataSize (recipeBuf s)) + length ds * KeyRecipeEntry_size \<le> sendRecipeBatchSize C * KeyRecipeEntry_size"

lemma read_encoded:
  assumes "\<forall>d \<in> set ds. length d \<le> unat MAX_CHUNK_SIZE" and "i < length ds"
  shows "read_chunk (encode_chunks ds @ post) (length (encode_chunks (take i ds))) = Inr (ds ! i, length (encode_chunks (take (Suc i) ds)))"
proof -
  have s: "ds = take i ds @ ds ! i # drop (Suc i) ds" using assms(2) by (simp add: id_take_nth_drop)
  have "encode_chunks ds @ post = encode_chunks (take i ds) @ encode_chunk (ds ! i) @ (encode_chunks (drop (Suc i) ds) @ post)"
    by (subst s) simp
  moreover have "length (ds ! i) < 2 ^ 32" using assms by (auto simp: const_defs dest!: nth_mem bspec)
  ultimately have "read_chunk (encode_chunks ds @ post) (length (encode_chunks (take i ds))) =
      Inr (ds ! i, length (encode_chunks (take i ds)) + length (encode_chunk (ds ! i)))"
    by (metis read_chunk_encoded)
  then show ?thesis using assms(2) by (simp add: take_Suc_conv_app_nth)
qed

lemma read_pending_chunk:
  assumes "pending m ds" and "i < length ds"
  shows "read_chunk (dataBuffer m) (length (encode_chunks (take i ds))) = Inr (ds ! i, length (encode_chunks (take (Suc i) ds)))"
proof -
  have "dataBuffer m = encode_chunks ds @ drop (length (encode_chunks ds)) (dataBuffer m)"
    using assms(1) unfolding pending_def by (metis append_take_drop_id)
  then show ?thesis using read_encoded [OF _ assms(2)] assms(1) by (metis pending_def)
qed

lemma dae_loop_ok:
  assumes p: "pending plain ds" and r: "dae_ready C ds s"
    and f: "\<And>i. i < length ds \<Longrightarrow> \<exists>k x. keyf i (ds ! i) = Inr k \<and> key_ok k \<and> encf k (ds ! i) = Inr x \<and> length x = length (ds ! i)"
  shows "\<exists>s' ks es. dae_loop C keyf encf plain s = Inr s' \<and> dae_result C s ds ks es s' \<and>
     (\<forall>i < length ds. keyf i (ds ! i) = Inr (ks ! i) \<and> encf (ks ! i) (ds ! i) = Inr (es ! i))"
proof -
  let ?pos = "unat (dataSize (recipeBuf s))" and ?s0 = "s\<lparr>tmpRecipe := unat (dataSize (recipeBuf s))\<rparr>"
  have B: "length ds \<le> sendChunkBatchSize C" "sendChunkBatchSize C * Chunk_size < 2 ^ 32" "pending (cipherBuf s) []"
      "?pos \<le> length (dataBuffer (recipeBuf s))" "?pos + length ds * KeyRecipeEntry_size \<le> sendRecipeBatchSize C * KeyRecipeEntry_size"
    using r by (simp_all add: dae_ready_def)
  have "\<exists>s' ks es. rfold (dae_step C keyf encf plain) [0..<n] (?s0, 0) = Inr (s', length (encode_chunks (take n ds))) \<and>
      dae_result C s (take n ds) ks es s' \<and> tmpRecipe s' = ?pos + n * KeyRecipeEntry_size \<and>
      (\<forall>i < n. keyf i (ds ! i) = Inr (ks ! i) \<and> encf (ks ! i) (ds ! i) = Inr (es ! i))" if "n \<le> length ds" for n
    using that
  proof (induction n)
    case 0
    then show ?case using B by (simp add: dae_result_def same_header_def entries_at_def)
  next
    case (Suc n)
    then obtain s1 ks es where s1: "rfold (dae_step C keyf encf plain) [0..<n] (?s0, 0) = Inr (s1, length (encode_chunks (take n ds)))"
        "dae_result C s (take n ds) ks es s1" "tmpRecipe s1 = ?pos + n * KeyRecipeEntry_size"
        "\<forall>i < n. keyf i (ds ! i) = Inr (ks ! i) \<and> encf (ks ! i) (ds ! i) = Inr (es ! i)" by auto
    have n: "n < length ds" and len: "length ks = n" "length es = n" using Suc.prems s1(2) by (simp_all add: dae_result_def)
    from f [OF n] obtain k x where kx: "keyf n (ds ! n) = Inr k" "key_ok k" "encf k (ds ! n) = Inr x" "length x = length (ds ! n)" by blast
    have tk: "take CHUNK_HASH_SIZE k = k" using kx(2) by (simp add: key_ok_def)
    have lx: "length x \<le> unat MAX_CHUNK_SIZE" using p n kx(4) by (simp add: pending_def)
    have "Suc n * KeyRecipeEntry_size \<le> length ds * KeyRecipeEntry_size" using Suc.prems by (intro mult_le_mono1) simp
    then have room: "?pos + n * KeyRecipeEntry_size + CHUNK_HASH_SIZE \<le> sendRecipeBatchSize C * KeyRecipeEntry_size"
      using B(5) by (simp add: KeyRecipeEntry_size_def)
    have pe: "pending (cipherBuf s1) es" using s1(2) by (simp add: dae_result_def)
    have "length es < sendChunkBatchSize C" using len n B(1) by simp
    note ap = append_chunk_pending [OF pe lx this B(2)]
    let ?s2 = "s1\<lparr>keyRecipeFile := keyRecipeFile s1 @ k,
        recipeBuf := (recipeBuf s1)\<lparr>dataBuffer := memcpy_at (dataBuffer (recipeBuf s1)) (?pos + n * KeyRecipeEntry_size) k\<rparr>,
        tmpRecipe := ?pos + n * KeyRecipeEntry_size + KeyRecipeEntry_size, cipherBuf := append_chunk x (cipherBuf s1)\<rparr>"
    have st: "dae_step C keyf encf plain n (s1, length (encode_chunks (take n ds))) = Inr (?s2, length (encode_chunks (take (Suc n) ds)))"
      using read_pending_chunk [OF p n] kx tk room ap(2) s1(3) by (simp add: dae_step_def put_key_def put_cipher_def)
    have ka: "keys_at (dataBuffer (recipeBuf s)) ?pos (ks @ [k]) (dataBuffer (recipeBuf ?s2))"
      using s1(2) len(1) keys_at_snoc [of "dataBuffer (recipeBuf s)" ?pos ks "dataBuffer (recipeBuf s1)" k] kx(2) B(4)
      by (simp add: dae_result_def key_ok_def KeyRecipeEntry_size_def)
    have "dae_result C s (take (Suc n) ds) (ks @ [k]) (es @ [x]) ?s2"
      using s1(2) n len kx(2) ap(1) ka by (auto simp: dae_result_def same_header_def take_Suc_conv_app_nth)
    moreover have "\<forall>i < Suc n. keyf i (ds ! i) = Inr ((ks @ [k]) ! i) \<and> encf ((ks @ [k]) ! i) (ds ! i) = Inr ((es @ [x]) ! i)"
      using s1(4) kx len by (auto simp: nth_append less_Suc_eq)
    ultimately show ?case using s1(1) st by (intro exI [of _ ?s2] exI [of _ "ks @ [k]"] exI [of _ "es @ [x]"]) (simp add: rfold_append)
  qed
  from this [OF order_refl] p show ?thesis by (fastforce simp: dae_loop_def pending_def)
qed

section \<open>The contract\<close>

text \<open>
  What the sender relies on: a batch of plain chunks becomes a batch of cipher chunks of the same sizes,
  whose keys are on the key recipe file of the client and in the key recipe buffer, and every cipher
  chunk opens under its key to the plain chunk. \<open>ok\<close> is the invariant of the object and its key manager.
\<close>

locale dae =
  fixes C :: enclave_cfg and ok :: "'k \<Rightarrow> bool" and process :: "net_msg \<Rightarrow> dae_bufs \<times> 'k \<Rightarrow> (dae_bufs \<times> 'k) res"
    and opens :: "bytes \<Rightarrow> bytes \<Rightarrow> bytes res"
  assumes process_ok: "pending plain ds \<Longrightarrow> dae_ready C ds s \<Longrightarrow> ok k \<Longrightarrow>
    \<exists>s' k' ks es. process plain (s, k) = Inr (s', k') \<and> ok k' \<and> dae_result C s ds ks es s' \<and>
      list_all2 (\<lambda>(key, e) d. opens key e = Inr d \<and> length e = length d) (zip ks es) ds"

text \<open>The loop gives the contract when the keys are good and the encryption is undone.\<close>

lemma dae_loop_contract:
  assumes "pending plain ds" and "dae_ready C ds s"
    and "\<And>i. i < length ds \<Longrightarrow> \<exists>k. keyf i (ds ! i) = Inr k \<and> key_ok k"
    and "\<And>k d. key_ok k \<Longrightarrow> \<exists>x. encf k d = Inr x \<and> length x = length d \<and> opens k x = Inr d"
  shows "\<exists>s' ks es. dae_loop C keyf encf plain s = Inr s' \<and> dae_result C s ds ks es s' \<and>
     list_all2 (\<lambda>(key, e) d. opens key e = Inr d \<and> length e = length d) (zip ks es) ds \<and>
     (\<forall>i < length ds. keyf i (ds ! i) = Inr (ks ! i) \<and> encf (ks ! i) (ds ! i) = Inr (es ! i))"
proof -
  have "\<exists>k x. keyf i (ds ! i) = Inr k \<and> key_ok k \<and> encf k (ds ! i) = Inr x \<and> length x = length (ds ! i)" if "i < length ds" for i
    using assms(3) [OF that] assms(4) by blast
  from dae_loop_ok [where keyf = keyf and encf = encf, OF assms(1,2) this] obtain s' ks es where r: "dae_loop C keyf encf plain s = Inr s'" "dae_result C s ds ks es s'"
      "\<forall>i < length ds. keyf i (ds ! i) = Inr (ks ! i) \<and> encf (ks ! i) (ds ! i) = Inr (es ! i)" by blast
  have "list_all2 (\<lambda>(key, e) d. opens key e = Inr d \<and> length e = length d) (zip ks es) ds"
  proof (rule list_all2_all_nthI)
    show "length (zip ks es) = length ds" using r(2) by (simp add: dae_result_def)
    fix i
    assume "i < length (zip ks es)"
    then have i: "i < length ds" "i < length ks" "i < length es" using r(2) by (simp_all add: dae_result_def)
    then have "key_ok (ks ! i)" using r(2) by (simp add: dae_result_def)
    from assms(4) [OF this, of "ds ! i"] r(3) i show "(\<lambda>(key, e) d. opens key e = Inr d \<and> length e = length d) (zip ks es ! i) (ds ! i)" by auto
  qed
  with r show ?thesis by blast
qed

text \<open>The client's hash and cipher.\<close>

definition client_ok :: "enclave_cfg \<Rightarrow> bool" where
  "client_ok C \<longleftrightarrow> evp_ok (cfg_evp C) \<and> tool_ok (cfg_tool C) \<and> hashType (cfg_tool C) = SHA_256"

definition client_fp :: "enclave_cfg \<Rightarrow> bytes \<Rightarrow> bytes" where
  "client_fp C d = (case Crypto_GenerateHash (cfg_evp C) (cfg_tool C) d of Inr h \<Rightarrow> h | Inl _ \<Rightarrow> [])"

lemma client_fp_eq:
  assumes "client_ok C"
  shows "Crypto_GenerateHash (cfg_evp C) (cfg_tool C) d = Inr (client_fp C d)" and "key_ok (client_fp C d)" and "length (client_fp C d) = CHUNK_HASH_SIZE"
proof -
  from assms evp_ok_hash [of "cfg_evp C" "hashType (cfg_tool C)" d] obtain h where
    "evp_md (cfg_evp C) (hashType (cfg_tool C)) d = Some h" "length h = hash_size (hashType (cfg_tool C))" "evp_md_init (cfg_evp C) (hashType (cfg_tool C))"
    by (auto simp: client_ok_def)
  with assms show "Crypto_GenerateHash (cfg_evp C) (cfg_tool C) d = Inr (client_fp C d)" "key_ok (client_fp C d)" "length (client_fp C d) = CHUNK_HASH_SIZE"
    by (simp_all add: client_fp_def Crypto_GenerateHash_def evp_checked_def client_ok_def key_ok_def hash_size_def const_defs)
qed

lemma host_cipher: "client_ok C \<Longrightarrow> key_ok k \<Longrightarrow> \<exists>x. Crypto_EncryptWithKey (cfg_evp C) (cfg_tool C) d k = Inr x \<and> length x = length d \<and>
    Crypto_DecryptWithKey (cfg_evp C) (cfg_tool C) x k = Inr d"
  by (rule host_key.roundtrip) (simp add: stream_good_def client_ok_def)

text \<open>The branch of \<open>DataRetriever::ProcessChunkBatch\<close> on the method.\<close>

definition open_chunk :: "enclave_cfg \<Rightarrow> dae_type \<Rightarrow> bytes \<Rightarrow> bytes \<Rightarrow> bytes res" where
  "open_chunk C methodType key x = (if methodType \<noteq> PLAIN_DAE then Crypto_DecryptWithKey (cfg_evp C) (cfg_tool C) x key else Inr x)"

interpretation plain_dae: dae C "\<lambda>k. True" "Plain_ProcessBatchChunk C" "open_chunk C PLAIN_DAE" for C
proof unfold_locales
  fix plain :: net_msg and ds s and k :: unit
  assume p: "pending plain ds" "dae_ready C ds s"
  have "\<exists>s' ks es. dae_loop C (\<lambda>i d. Inr (replicate CHUNK_HASH_SIZE 1)) (\<lambda>key d. Inr d) plain s = Inr s' \<and> dae_result C s ds ks es s' \<and>
      list_all2 (\<lambda>(key, e) d. open_chunk C PLAIN_DAE key e = Inr d \<and> length e = length d) (zip ks es) ds \<and>
      (\<forall>i < length ds. Inr (replicate CHUNK_HASH_SIZE 1) = (Inr (ks ! i) :: bytes res) \<and> Inr (ds ! i) = (Inr (es ! i) :: bytes res))"
    by (rule dae_loop_contract [OF p]) (simp_all add: key_ok_def open_chunk_def)
  then obtain s' ks es where "dae_loop C (\<lambda>i d. Inr (replicate CHUNK_HASH_SIZE 1)) (\<lambda>key d. Inr d) plain s = Inr s'" "dae_result C s ds ks es s'"
      "list_all2 (\<lambda>(key, e) d. open_chunk C PLAIN_DAE key e = Inr d \<and> length e = length d) (zip ks es) ds" by blast
  then show "\<exists>s' k' ks es. Plain_ProcessBatchChunk C plain (s, k) = Inr (s', k') \<and> True \<and> dae_result C s ds ks es s' \<and>
      list_all2 (\<lambda>(key, e) d. open_chunk C PLAIN_DAE key e = Inr d \<and> length e = length d) (zip ks es) ds"
    by (intro exI [of _ s'] exI [of _ "()"] exI [of _ ks] exI [of _ es]) (simp add: Plain_ProcessBatchChunk_def)
qed

lemma MLE_loop:
  assumes "pending plain ds" and "dae_ready C ds s" and C: "client_ok C"
  shows "\<exists>s' ks es. MLE_ProcessBatchChunk C plain (s, u) = Inr (s', ()) \<and> dae_result C s ds ks es s' \<and>
     list_all2 (\<lambda>(key, e) d. open_chunk C CE_DAE key e = Inr d \<and> length e = length d) (zip ks es) ds \<and>
     (\<forall>i < length ds. ks ! i = client_fp C (ds ! i) \<and> Crypto_EncryptWithKey (cfg_evp C) (cfg_tool C) (ds ! i) (ks ! i) = Inr (es ! i))"
proof -
  have "\<exists>s' ks es. dae_loop C (\<lambda>i d. Crypto_GenerateHash (cfg_evp C) (cfg_tool C) d) (\<lambda>key d. Crypto_EncryptWithKey (cfg_evp C) (cfg_tool C) d key) plain s = Inr s' \<and>
      dae_result C s ds ks es s' \<and> list_all2 (\<lambda>(key, e) d. open_chunk C CE_DAE key e = Inr d \<and> length e = length d) (zip ks es) ds \<and>
      (\<forall>i < length ds. Crypto_GenerateHash (cfg_evp C) (cfg_tool C) (ds ! i) = Inr (ks ! i) \<and>
         Crypto_EncryptWithKey (cfg_evp C) (cfg_tool C) (ds ! i) (ks ! i) = Inr (es ! i))"
    by (rule dae_loop_contract [OF assms(1,2)]) (simp_all add: client_fp_eq [OF C] open_chunk_def host_cipher [OF C])
  then obtain s' ks es where r: "dae_loop C (\<lambda>i d. Crypto_GenerateHash (cfg_evp C) (cfg_tool C) d) (\<lambda>key d. Crypto_EncryptWithKey (cfg_evp C) (cfg_tool C) d key) plain s = Inr s'"
      "dae_result C s ds ks es s'" "list_all2 (\<lambda>(key, e) d. open_chunk C CE_DAE key e = Inr d \<and> length e = length d) (zip ks es) ds"
      "\<forall>i < length ds. Crypto_GenerateHash (cfg_evp C) (cfg_tool C) (ds ! i) = Inr (ks ! i) \<and>
         Crypto_EncryptWithKey (cfg_evp C) (cfg_tool C) (ds ! i) (ks ! i) = Inr (es ! i)" by blast
  then show ?thesis by (intro exI [of _ s'] exI [of _ ks] exI [of _ es]) (simp add: MLE_ProcessBatchChunk_def client_fp_eq [OF C])
qed

interpretation mle_dae: dae C "\<lambda>k. client_ok C" "MLE_ProcessBatchChunk C" "open_chunk C CE_DAE" for C
proof unfold_locales
  fix plain :: net_msg and ds s and k :: unit
  assume p: "pending plain ds" "dae_ready C ds s" and C: "client_ok C"
  from MLE_loop [OF p C, of k] C show "\<exists>s' k' ks es. MLE_ProcessBatchChunk C plain (s, k) = Inr (s', k') \<and> client_ok C \<and> dae_result C s ds ks es s' \<and>
      list_all2 (\<lambda>(key, e) d. open_chunk C CE_DAE key e = Inr d \<and> length e = length d) (zip ks es) ds" by blast
qed

end
