(* ===== verification/Murmur.thy ===== *)
theory Murmur
  imports Prelude
begin

text \<open>
  MurmurHash3 as the baseline program has it (\<open>Baseline/src/Util/murmurHash.cc\<close>; the simulator has a
  copy): TED's client sends the 128-bit variant of a chunk as its short hash. Words are read in the byte
  order of the machine, little-endian. Every step of the hash can be undone, so that inputs of the same length that differ
  in one aligned block of sixteen bytes only, or in the tail only, have different hashes.
\<close>

section \<open>Mixing\<close>

definition rotl32 :: "u32 \<Rightarrow> nat \<Rightarrow> u32" where
  "rotl32 x r = push_bit r x OR drop_bit (32 - r) x"

definition rotl64 :: "u64 \<Rightarrow> nat \<Rightarrow> u64" where
  "rotl64 x r = push_bit r x OR drop_bit (64 - r) x"

definition getblock32 :: "bytes \<Rightarrow> nat \<Rightarrow> u32" where
  "getblock32 p i = bytes_u32 (drop (4 * i) p)"

definition getblock64 :: "bytes \<Rightarrow> nat \<Rightarrow> u64" where
  "getblock64 p i = bytes_u64 (drop (8 * i) p)"

definition fmix32 :: "u32 \<Rightarrow> u32" where
  "fmix32 h0 =
     (let h1 = h0 XOR drop_bit 16 h0; h2 = h1 * 0x85ebca6b; h3 = h2 XOR drop_bit 13 h2; h4 = h3 * 0xc2b2ae35
      in h4 XOR drop_bit 16 h4)"

definition fmix64 :: "u64 \<Rightarrow> u64" where
  "fmix64 k0 =
     (let k1 = k0 XOR drop_bit 33 k0; k2 = k1 * 0xff51afd7ed558ccd; k3 = k2 XOR drop_bit 33 k2; k4 = k3 * 0xc4ceb9fe1a85ec53
      in k4 XOR drop_bit 33 k4)"

text \<open>The cases \<open>hi\<close> down to \<open>lo + 1\<close> of the switch over the length of the tail.\<close>

definition tail_xor :: "bytes \<Rightarrow> nat \<Rightarrow> nat \<Rightarrow> 'w::len word" where
  "tail_xor tail lo hi = foldl (\<lambda>k i. k XOR push_bit (8 * (i - lo)) (ucast (tail ! i))) 0 (rev [lo..<hi])"

section \<open>The three variants\<close>

definition MurmurHash3_x86_32 :: "bytes \<Rightarrow> u32 \<Rightarrow> bytes" where
  "MurmurHash3_x86_32 key seed =
     (let len = length key; nblocks = len div 4;
          mix = (\<lambda>k. rotl32 (k * 0xcc9e2d51) 15 * 0x1b873593);
          h1 = foldl (\<lambda>h i. rotl32 (h XOR mix (getblock32 key i)) 13 * 5 + 0xe6546b64) seed [0..<nblocks];
          tail = drop (nblocks * 4) key; r = len mod 4;
          h2 = (if 1 \<le> r then h1 XOR mix (tail_xor tail 0 r) else h1)
      in u32_bytes (fmix32 (h2 XOR of_nat len)))"

text \<open>One block of \<open>MurmurHash3_x86_128\<close>, the tail, and the mixing at the end.\<close>

definition x86_mix :: "u32 \<Rightarrow> u32 \<Rightarrow> nat \<Rightarrow> u32 \<Rightarrow> u32" where
  "x86_mix a b r k = rotl32 (k * a) r * b"

definition x86_block :: "u32 \<times> u32 \<times> u32 \<times> u32 \<Rightarrow> u32 \<times> u32 \<times> u32 \<times> u32 \<Rightarrow> u32 \<times> u32 \<times> u32 \<times> u32" where
  "x86_block = (\<lambda>(k1, k2, k3, k4) (h1, h2, h3, h4).
     let h1 = (rotl32 (h1 XOR x86_mix 0x239b961b 0xab0e9789 15 k1) 19 + h2) * 5 + 0x561ccd1b;
         h2 = (rotl32 (h2 XOR x86_mix 0xab0e9789 0x38b34ae5 16 k2) 17 + h3) * 5 + 0x0bcaa747;
         h3 = (rotl32 (h3 XOR x86_mix 0x38b34ae5 0xa1e38b93 17 k3) 15 + h4) * 5 + 0x96cd1c35;
         h4 = (rotl32 (h4 XOR x86_mix 0xa1e38b93 0x239b961b 18 k4) 13 + h1) * 5 + 0x32ac3b17
     in (h1, h2, h3, h4))"

definition x86_spread :: "u32 \<times> u32 \<times> u32 \<times> u32 \<Rightarrow> u32 \<times> u32 \<times> u32 \<times> u32" where
  "x86_spread = (\<lambda>(h1, h2, h3, h4). let h1 = h1 + h2 + h3 + h4 in (h1, h2 + h1, h3 + h1, h4 + h1))"

definition MurmurHash3_x86_128 :: "bytes \<Rightarrow> u32 \<Rightarrow> bytes" where
  "MurmurHash3_x86_128 key seed =
     (let len = length key; nblocks = len div 16; l = of_nat len;
          (h1, h2, h3, h4) =
            foldl (\<lambda>h i. x86_block (getblock32 key (i * 4), getblock32 key (i * 4 + 1), getblock32 key (i * 4 + 2), getblock32 key (i * 4 + 3)) h)
              (seed, seed, seed, seed) [0..<nblocks];
          tail = drop (nblocks * 16) key; r = len mod 16;
          h4 = (if 13 \<le> r then h4 XOR x86_mix 0xa1e38b93 0x239b961b 18 (tail_xor tail 12 r) else h4);
          h3 = (if 9 \<le> r then h3 XOR x86_mix 0x38b34ae5 0xa1e38b93 17 (tail_xor tail 8 (min r 12)) else h3);
          h2 = (if 5 \<le> r then h2 XOR x86_mix 0xab0e9789 0x38b34ae5 16 (tail_xor tail 4 (min r 8)) else h2);
          h1 = (if 1 \<le> r then h1 XOR x86_mix 0x239b961b 0xab0e9789 15 (tail_xor tail 0 (min r 4)) else h1);
          (h1, h2, h3, h4) = x86_spread (h1 XOR l, h2 XOR l, h3 XOR l, h4 XOR l);
          (h1, h2, h3, h4) = x86_spread (fmix32 h1, fmix32 h2, fmix32 h3, fmix32 h4)
      in u32_bytes h1 @ u32_bytes h2 @ u32_bytes h3 @ u32_bytes h4)"

definition x64_mix1 :: "u64 \<Rightarrow> u64" where
  "x64_mix1 k1 = rotl64 (k1 * 0x87c37b91114253d5) 31 * 0x4cf5ad432745937f"

definition x64_mix2 :: "u64 \<Rightarrow> u64" where
  "x64_mix2 k2 = rotl64 (k2 * 0x4cf5ad432745937f) 33 * 0x87c37b91114253d5"

definition x64_block :: "u64 \<times> u64 \<Rightarrow> u64 \<times> u64 \<Rightarrow> u64 \<times> u64" where
  "x64_block = (\<lambda>(k1, k2) (h1, h2).
     let h1 = (rotl64 (h1 XOR x64_mix1 k1) 27 + h2) * 5 + 0x52dce729;
         h2 = (rotl64 (h2 XOR x64_mix2 k2) 31 + h1) * 5 + 0x38495ab5
     in (h1, h2))"

definition x64_tail :: "bytes \<Rightarrow> u64 \<times> u64 \<Rightarrow> u64 \<times> u64" where
  "x64_tail tail = (\<lambda>(h1, h2).
     let r = length tail;
         h2 = (if 9 \<le> r then h2 XOR x64_mix2 (tail_xor tail 8 r) else h2);
         h1 = (if 1 \<le> r then h1 XOR x64_mix1 (tail_xor tail 0 (min r 8)) else h1)
     in (h1, h2))"

definition x64_spread :: "u64 \<times> u64 \<Rightarrow> u64 \<times> u64" where
  "x64_spread = (\<lambda>(h1, h2). let h1 = h1 + h2 in (h1, h2 + h1))"

definition x64_final :: "nat \<Rightarrow> u64 \<times> u64 \<Rightarrow> u64 \<times> u64" where
  "x64_final len = (\<lambda>(h1, h2).
     let (h1, h2) = x64_spread (h1 XOR of_nat len, h2 XOR of_nat len)
     in x64_spread (fmix64 h1, fmix64 h2))"

definition MurmurHash3_x64_128 :: "bytes \<Rightarrow> u32 \<Rightarrow> bytes" where
  "MurmurHash3_x64_128 key seed =
     (let len = length key; nblocks = len div 16;
          h = foldl (\<lambda>h i. x64_block (getblock64 key (i * 2), getblock64 key (i * 2 + 1)) h) (ucast seed, ucast seed) [0..<nblocks];
          (h1, h2) = x64_final len (x64_tail (drop (nblocks * 16) key) h)
      in u64_bytes h1 @ u64_bytes h2)"

lemma length_MurmurHash3 [simp]:
  "length (MurmurHash3_x86_32 key seed) = 4" "length (MurmurHash3_x86_128 key seed) = 16" "length (MurmurHash3_x64_128 key seed) = 16"
  by (simp_all add: MurmurHash3_x86_32_def MurmurHash3_x86_128_def MurmurHash3_x64_128_def Let_def case_prod_beta)

section \<open>Every step can be undone\<close>

lemma mult_cancel_inverse:
  fixes a b c i :: "'w::len word"
  assumes "c * i = 1"
  shows "a * c = b * c \<longleftrightarrow> a = b"
  using assms by (metis mult.assoc mult.right_neutral)

lemma xor_cancel:
  fixes a b c :: "'w::len word"
  shows "a XOR c = b XOR c \<longleftrightarrow> a = b" and "c XOR a = c XOR b \<longleftrightarrow> a = b"
  by (auto simp: bit_eq_iff bit_xor_iff)

text \<open>A xorshift: from the highest bit down, each bit of the argument is known from the result and the bits above.\<close>

lemma xorshift_inj:
  fixes k k' :: "'w::len word"
  assumes "0 < s" and "k XOR drop_bit s k = k' XOR drop_bit s k'"
  shows "k = k'"
proof -
  have "bit k n = bit k' n" for n
  proof (induction "LENGTH('w) - n" arbitrary: n rule: less_induct)
    case less
    show ?case
    proof (cases "n < LENGTH('w)")
      case True
      then have "bit k (s + n) = bit k' (s + n)" using assms(1) less.hyps [of "s + n"] by simp
      moreover have "bit (k XOR drop_bit s k) n = bit (k' XOR drop_bit s k') n" using assms(2) by simp
      ultimately show ?thesis by (auto simp: bit_xor_iff bit_drop_bit_eq)
    next
      case False
      then show ?thesis using bit_imp_le_length by fastforce
    qed
  qed
  then show ?thesis by (rule bit_eqI)
qed

lemma rotl64_inj:
  assumes "0 < r" and "r < 64" and "rotl64 x r = rotl64 y r"
  shows "x = y"
proof (rule bit_word_eqI)
  fix m
  assume "m < LENGTH(64)"
  then have m: "m < 64" by simp
  have hi: "\<not> bit z n" if "64 \<le> n" for z :: u64 and n using that bit_imp_le_length [of z n] by auto
  have b: "bit (rotl64 z r) n \<longleftrightarrow> r \<le> n \<and> bit z (n - r) \<or> bit z (64 - r + n)" if "n < 64" for z n
    using that by (simp add: rotl64_def bit_or_iff bit_push_bit_iff bit_drop_bit_eq)
  show "bit x m = bit y m"
  proof (cases "m + r < 64")
    case True
    have "bit (rotl64 z r) (m + r) = bit z m" for z using True assms(2) hi [of "64 - r + (m + r)" z] by (simp add: b)
    then show ?thesis using assms(3) by metis
  next
    case False
    then have "bit (rotl64 x r) (m + r - 64) = bit (rotl64 y r) (m + r - 64)" "m + r - 64 < 64" "64 - r + (m + r - 64) = m" "\<not> r \<le> m + r - 64"
      using assms m by simp_all
    then show ?thesis by (simp only: b simp_thms)
  qed
qed

lemma rotl64_eq:
  "rotl64 x 27 = rotl64 y 27 \<longleftrightarrow> x = y" "rotl64 x 31 = rotl64 y 31 \<longleftrightarrow> x = y" "rotl64 x 33 = rotl64 y 33 \<longleftrightarrow> x = y"
  using rotl64_inj [of 27 x y] rotl64_inj [of 31 x y] rotl64_inj [of 33 x y] by auto

lemma x64_mix_inj: "x64_mix1 k = x64_mix1 k' \<longleftrightarrow> k = k'" "x64_mix2 k = x64_mix2 k' \<longleftrightarrow> k = k'"
proof -
  have c1: "(0x87c37b91114253d5 :: u64) * 12214898983567248765 = 1" and c2: "(0x4cf5ad432745937f :: u64) * 12114143059468233855 = 1" by simp_all
  show "x64_mix1 k = x64_mix1 k' \<longleftrightarrow> k = k'" "x64_mix2 k = x64_mix2 k' \<longleftrightarrow> k = k'"
    unfolding x64_mix1_def x64_mix2_def mult_cancel_inverse [OF c1] mult_cancel_inverse [OF c2] rotl64_eq by (rule refl)+
qed

lemma fmix64_inj: "fmix64 k = fmix64 k' \<longleftrightarrow> k = k'"
proof -
  have c: "(0xff51afd7ed558ccd :: u64) * 5725274745694666757 = 1" "(0xc4ceb9fe1a85ec53 :: u64) * 11291846944257947611 = 1" by simp_all
  have x: "a XOR drop_bit 33 a = b XOR drop_bit 33 b \<longleftrightarrow> a = b" for a b :: u64 using xorshift_inj [of 33 a b] by auto
  show ?thesis unfolding fmix64_def Let_def x mult_cancel_inverse [OF c(1)] mult_cancel_inverse [OF c(2)] by (rule refl)
qed

lemma x64_spread_inj: "x64_spread h = x64_spread h' \<longleftrightarrow> h = h'"
proof -
  obtain a b where h: "h = (a, b)" by (cases h)
  obtain a' b' where h': "h' = (a', b')" by (cases h')
  show ?thesis unfolding h h' x64_spread_def Let_def prod.case prod.inject by (metis add_right_cancel)
qed

lemma x64_final_inj: "x64_final n h = x64_final n h' \<longleftrightarrow> h = h'"
proof -
  obtain a b where h: "h = (a, b)" by (cases h)
  obtain a' b' where h': "h' = (a', b')" by (cases h')
  obtain c d where s: "x64_spread (a XOR of_nat n, b XOR of_nat n) = (c, d)" by (cases "x64_spread (a XOR of_nat n, b XOR of_nat n)")
  obtain c' d' where s': "x64_spread (a' XOR of_nat n, b' XOR of_nat n) = (c', d')" by (cases "x64_spread (a' XOR of_nat n, b' XOR of_nat n)")
  have "x64_final n h = x64_final n h' \<longleftrightarrow> (c, d) = (c', d')"
    by (simp add: x64_final_def h h' s s' x64_spread_inj fmix64_inj)
  also have "\<dots> \<longleftrightarrow> h = h'" unfolding s [symmetric] s' [symmetric] x64_spread_inj by (simp add: h h' xor_cancel)
  finally show ?thesis .
qed

text \<open>A block is injective in the state for a fixed block and in the block for a fixed state.\<close>

lemma x64_block_inj:
  "x64_block k h = x64_block k h' \<longleftrightarrow> h = h'" "x64_block k h = x64_block k' h \<longleftrightarrow> k = k'"
proof -
  have five: "(5 :: u64) * 14757395258967641293 = 1" by simp
  obtain a b where h: "h = (a, b)" by (cases h)
  obtain a' b' where h': "h' = (a', b')" by (cases h')
  obtain c d where k: "k = (c, d)" by (cases k)
  obtain c' d' where k': "k' = (c', d')" by (cases k')
  show "x64_block k h = x64_block k h' \<longleftrightarrow> h = h'"
    unfolding h h' k x64_block_def Let_def prod.case prod.inject add_right_cancel mult_cancel_inverse [OF five]
    by (metis add_right_cancel rotl64_eq xor_cancel(1))
  show "x64_block k h = x64_block k' h \<longleftrightarrow> k = k'"
    unfolding h k k' x64_block_def Let_def prod.case prod.inject add_right_cancel mult_cancel_inverse [OF five] rotl64_eq xor_cancel x64_mix_inj
    by (metis add_right_cancel rotl64_eq xor_cancel x64_mix_inj)
qed

section \<open>The tail\<close>

lemma foldl_xor: "foldl (\<lambda>k i. k XOR f i) a xs = a XOR foldl (\<lambda>k i. k XOR f i) (0 :: 'w::len word) xs"
proof (induction xs arbitrary: a)
  case Nil
  then show ?case by simp
next
  case (Cons x xs)
  show ?case using Cons [of "a XOR f x"] Cons [of "f x"] by (simp add: xor.assoc)
qed

lemma bit_tail_xor:
  assumes "n < LENGTH('w)"
  shows "bit (tail_xor tail lo hi :: 'w::len word) n \<longleftrightarrow> lo + n div 8 < hi \<and> bit (tail ! (lo + n div 8)) (n mod 8)"
proof (induction hi)
  case 0
  then show ?case by (simp add: tail_xor_def)
next
  case (Suc hi)
  show ?case
  proof (cases "lo \<le> hi")
    case True
    let ?m = "8 * (hi - lo)"
    have "(tail_xor tail lo (Suc hi) :: 'w word) = push_bit ?m (ucast (tail ! hi)) XOR tail_xor tail lo hi"
      using True by (simp add: tail_xor_def foldl_xor [of _ "push_bit ?m (ucast (tail ! hi))"])
    then have b: "bit (tail_xor tail lo (Suc hi) :: 'w word) n \<longleftrightarrow>
        (?m \<le> n \<and> bit (tail ! hi) (n - ?m)) \<noteq> (lo + n div 8 < hi \<and> bit (tail ! (lo + n div 8)) (n mod 8))"
      using assms Suc.IH less_imp_diff_less [OF assms, of ?m] by (simp add: bit_xor_iff bit_push_bit_iff bit_unsigned_iff)
    consider "lo + n div 8 < hi" | "lo + n div 8 = hi" | "hi < lo + n div 8" by linarith
    then show ?thesis
    proof cases
      case 1
      then have "\<not> ?m \<le> n" by linarith
      with 1 b show ?thesis by simp
    next
      case 2
      then have d: "hi - lo = n div 8" by simp
      have "?m \<le> n" "n - ?m = n mod 8" unfolding d by (simp_all add: minus_mult_div_eq_mod)
      with 2 b show ?thesis by simp
    next
      case 3
      with True have "8 \<le> n - ?m" by linarith
      then have "\<not> bit (tail ! hi) (n - ?m)" using bit_imp_le_length [of "tail ! hi" "n - ?m"] by auto
      with 3 b show ?thesis by simp
    qed
  next
    case False
    then show ?thesis by (simp add: tail_xor_def)
  qed
qed

lemma tail_xor_inj:
  assumes "(tail_xor t lo hi :: u64) = tail_xor t' lo hi" and "hi \<le> lo + 8" and "lo \<le> i" and "i < hi"
  shows "t ! i = t' ! i"
proof (rule bit_word_eqI)
  fix n
  assume "n < LENGTH(8)"
  then have n: "n < 8" by simp
  let ?n = "8 * (i - lo) + n"
  have "?n < 64" "?n div 8 = i - lo" "?n mod 8 = n" using n assms(2-4) by simp_all
  moreover have "bit (tail_xor t lo hi :: u64) ?n = bit (tail_xor t' lo hi :: u64) ?n" using assms(1) by simp
  ultimately show "bit (t ! i) n = bit (t' ! i) n" using assms(3,4) by (simp add: bit_tail_xor)
qed

lemma x64_tail_inj:
  "x64_tail t h = x64_tail t h' \<longleftrightarrow> h = h'"
  "length t = length t' \<Longrightarrow> length t < 16 \<Longrightarrow> x64_tail t h = x64_tail t' h \<Longrightarrow> t = t'"
proof -
  obtain a b where h: "h = (a, b)" by (cases h)
  obtain a' b' where h': "h' = (a', b')" by (cases h')
  show "x64_tail t h = x64_tail t h' \<longleftrightarrow> h = h'" by (auto simp: x64_tail_def h h' Let_def xor_cancel)
  assume l: "length t = length t'" "length t < 16" and e: "x64_tail t h = x64_tail t' h"
  show "t = t'"
  proof (rule nth_equalityI [OF l(1)])
    fix i
    assume i: "i < length t"
    show "t ! i = t' ! i"
    proof (cases "i < 8")
      case True
      then have "1 \<le> length t" using i by simp
      then have "(tail_xor t 0 (min (length t) 8) :: u64) = tail_xor t' 0 (min (length t) 8)"
        using e l(1) by (simp add: x64_tail_def h Let_def xor_cancel x64_mix_inj split: if_splits)
      from tail_xor_inj [OF this _ _, of i] True i show ?thesis by simp
    next
      case False
      then have "(tail_xor t 8 (length t) :: u64) = tail_xor t' 8 (length t)"
        using e i l(1) by (simp add: x64_tail_def h Let_def xor_cancel x64_mix_inj split: if_splits)
      from tail_xor_inj [OF this _ _, of i] False i l(2) show ?thesis by simp
    qed
  qed
qed

section \<open>Blocks\<close>

definition x64_blocks :: "bytes \<Rightarrow> nat \<Rightarrow> u64 \<times> u64" where
  "x64_blocks key i = (getblock64 key (i * 2), getblock64 key (i * 2 + 1))"

lemma bytes_u64_eq: "bytes_u64 bs = bytes_u64 bs' \<Longrightarrow> 8 \<le> length bs \<Longrightarrow> 8 \<le> length bs' \<Longrightarrow> take 8 bs = take 8 bs'"
proof -
  assume "bytes_u64 bs = bytes_u64 bs'" and l: "8 \<le> length bs" "8 \<le> length bs'"
  then have "bytes_u64 (take 8 bs) = bytes_u64 (take 8 bs')" by (simp add: bytes_u64_def)
  moreover have "u64_bytes (bytes_u64 (take 8 bs)) = take 8 bs" "u64_bytes (bytes_u64 (take 8 bs')) = take 8 bs'"
    using l by (simp_all add: u64_bytes_bytes_u64)
  ultimately show ?thesis by metis
qed

lemma x64_blocks_window:
  "read_at key (16 * i) 16 = read_at key' (16 * i) 16 \<Longrightarrow> x64_blocks key i = x64_blocks key' i"
  "16 * i + 16 \<le> length key \<Longrightarrow> 16 * i + 16 \<le> length key' \<Longrightarrow> x64_blocks key i = x64_blocks key' i \<Longrightarrow>
     read_at key (16 * i) 16 = read_at key' (16 * i) 16"
proof -
  have s: "read_at k (16 * i) 16 = take 8 (drop (16 * i) k) @ take 8 (drop (16 * i + 8) k)" for k :: bytes
    by (simp add: read_at_def take_add [of 8 8, simplified] add.commute)
  have b: "x64_blocks k i = (bytes_u64 (drop (16 * i) k), bytes_u64 (drop (16 * i + 8) k))" for k
    by (simp add: x64_blocks_def getblock64_def add.commute)
  have u: "bytes_u64 d = bytes_u64 (take 8 d)" for d by (simp add: bytes_u64_def)
  show "x64_blocks key i = x64_blocks key' i" if w: "read_at key (16 * i) 16 = read_at key' (16 * i) 16"
  proof -
    have "take 8 (drop (16 * i) k) = take 8 (read_at k (16 * i) 16)" "take 8 (drop (16 * i + 8) k) = take 8 (drop 8 (read_at k (16 * i) 16))" for k :: bytes
      by (simp_all add: read_at_def take_drop add.commute)
    with w show ?thesis unfolding b u [of "drop _ _"] by metis
  qed
  show "read_at key (16 * i) 16 = read_at key' (16 * i) 16"
    if "16 * i + 16 \<le> length key" "16 * i + 16 \<le> length key'" "x64_blocks key i = x64_blocks key' i"
    using that bytes_u64_eq [of "drop (16 * i) key" "drop (16 * i) key'"] bytes_u64_eq [of "drop (16 * i + 8) key" "drop (16 * i + 8) key'"]
    unfolding s b by simp
qed

lemma foldl_blocks_inj: "foldl (\<lambda>h i. x64_block (f i) h) h is = foldl (\<lambda>h i. x64_block (f i) h) h' is \<longleftrightarrow> h = h'"
  by (induction "is" arbitrary: h h') (simp_all add: x64_block_inj)

lemma MurmurHash3_x64_128_eq:
  assumes "length key = length key'" and "MurmurHash3_x64_128 key seed = MurmurHash3_x64_128 key' seed"
  shows "x64_tail (drop (length key div 16 * 16) key) (foldl (\<lambda>h i. x64_block (x64_blocks key i) h) (ucast seed, ucast seed) [0..<length key div 16]) =
    x64_tail (drop (length key div 16 * 16) key') (foldl (\<lambda>h i. x64_block (x64_blocks key' i) h) (ucast seed, ucast seed) [0..<length key div 16])"
proof -
  let ?X = "\<lambda>k. x64_tail (drop (length k div 16 * 16) k) (foldl (\<lambda>h i. x64_block (x64_blocks k i) h) (ucast seed, ucast seed) [0..<length k div 16])"
  have inj: "u64_bytes a @ u64_bytes b = u64_bytes a' @ u64_bytes b' \<longleftrightarrow> a = a' \<and> b = b'" for a b a' b'
    by (metis append_eq_append_conv bytes_u64_u64_bytes length_u64_bytes)
  have m: "MurmurHash3_x64_128 k seed = u64_bytes (fst (x64_final (length k) (?X k))) @ u64_bytes (snd (x64_final (length k) (?X k)))" for k
    by (simp only: MurmurHash3_x64_128_def Let_def case_prod_beta x64_blocks_def)
  have "x64_final (length key) (?X key) = x64_final (length key) (?X key')"
    using assms(2) unfolding m inj assms(1) prod_eq_iff .
  then show ?thesis unfolding x64_final_inj assms(1) .
qed

section \<open>Properties\<close>

text \<open>
  (C26) Two inputs of the same length that differ only inside one window of sixteen bytes at a multiple of
  sixteen, a block or the tail, never have the same 128-bit hash, whatever the seed: TED's short hash tells
  chunks with one changed block apart.
\<close>

theorem MurmurHash3_x64_128_one_block:
  assumes "length key = length key'" and "take (16 * j) key = take (16 * j) key'"
    and "drop (16 * j + 16) key = drop (16 * j + 16) key'" and "key \<noteq> key'"
  shows "MurmurHash3_x64_128 key seed \<noteq> MurmurHash3_x64_128 key' seed"
proof
  let ?n = "length key div 16" and ?F = "\<lambda>k. foldl (\<lambda>h i. x64_block (x64_blocks k i) h)"
  let ?s = "(ucast seed, ucast seed)"
  assume "MurmurHash3_x64_128 key seed = MurmurHash3_x64_128 key' seed"
  note e = MurmurHash3_x64_128_eq [OF assms(1) this]
  have before: "x64_blocks key i = x64_blocks key' i" if "i < j" for i
  proof (rule x64_blocks_window(1))
    have "read_at k (16 * i) 16 = read_at (take (16 * j) k) (16 * i) 16" for k :: bytes
      using that by (simp add: read_at_def take_drop)
    then show "read_at key (16 * i) 16 = read_at key' (16 * i) 16" using assms(2) by metis
  qed
  have F: "?F key h is = ?F key' h is" if "\<forall>i \<in> set is. x64_blocks key i = x64_blocks key' i" for h "is"
    using that by (intro foldl_cong) simp_all
  show False
  proof (cases "j < ?n")
    case True
    then have w: "16 * j + 16 \<le> length key" by linarith
    have after: "x64_blocks key i = x64_blocks key' i" if "j < i" for i
    proof (rule x64_blocks_window(1))
      have "read_at k (16 * i) 16 = take 16 (drop (16 * i - (16 * j + 16)) (drop (16 * j + 16) k))" for k :: bytes
        using that by (simp add: read_at_def)
      then show "read_at key (16 * i) 16 = read_at key' (16 * i) 16" using assms(3) by metis
    qed
    have tl: "drop (?n * 16) key = drop (?n * 16) key'"
    proof -
      have "drop (?n * 16) k = drop (?n * 16 - (16 * j + 16)) (drop (16 * j + 16) k)" for k :: bytes using True by simp
      then show ?thesis using assms(3) by metis
    qed
    have "?F key ?s [0..<?n] = ?F key' ?s [0..<?n]" using e unfolding tl x64_tail_inj(1) .
    moreover have "[0..<?n] = [0..<j] @ j # [Suc j..<?n]"
      using upt_add_eq_append [of 0 j "?n - j"] upt_conv_Cons [OF True] True by simp
    ultimately have "?F key' (x64_block (x64_blocks key j) (?F key' ?s [0..<j])) [Suc j..<?n] =
        ?F key' (x64_block (x64_blocks key' j) (?F key' ?s [0..<j])) [Suc j..<?n]"
      using F [of "[0..<j]" ?s] F [of "[Suc j..<?n]" "x64_block (x64_blocks key j) (?F key' ?s [0..<j])"] before after by simp
    then have "x64_blocks key j = x64_blocks key' j" by (simp add: foldl_blocks_inj x64_block_inj(2))
    from x64_blocks_window(2) [OF w _ this] w assms(1) have "read_at key (16 * j) 16 = read_at key' (16 * j) 16" by simp
    moreover have "k = take (16 * j) k @ read_at k (16 * j) 16 @ drop (16 * j + 16) k" for k :: bytes
      unfolding read_at_def by (metis add.commute append_take_drop_id drop_drop)
    ultimately show False using assms(2-4) by metis
  next
    case False
    have tk: "take (?n * 16) key = take (?n * 16) key'"
    proof -
      have "take (?n * 16) k = take (?n * 16) (take (16 * j) k)" for k :: bytes using False by simp
      then show ?thesis using assms(2) by metis
    qed
    have "?F key ?s [0..<?n] = ?F key' ?s [0..<?n]" using before False by (intro F) simp
    with e have "x64_tail (drop (?n * 16) key) (?F key' ?s [0..<?n]) = x64_tail (drop (?n * 16) key') (?F key' ?s [0..<?n])" by simp
    moreover have "length key - ?n * 16 < 16" by (metis div_mult_mod_eq add_diff_cancel_left' mod_less_divisor zero_less_numeral)
    ultimately have "drop (?n * 16) key = drop (?n * 16) key'" using x64_tail_inj(2) assms(1) by (metis length_drop)
    with tk assms(4) show False by (metis append_take_drop_id)
  qed
qed

theorem MurmurHash3_x64_128_one_block_witness:
  "MurmurHash3_x64_128 (replicate 16 1 @ [2, 3] @ replicate 20 4) 0 \<noteq> MurmurHash3_x64_128 (replicate 16 1 @ [3, 2] @ replicate 20 4) 0"
  by (rule MurmurHash3_x64_128_one_block [where j = 1]) (simp_all add: numeral_eq_Suc)

end
