(* ===== verification/KeyManager.thy ===== *)
theory KeyManager
  imports KeyGen Murmur CMSketch
begin

text \<open>
  The two baselines with a key manager, on both sides of the connection. TED (\<open>tedDaE.cc\<close>, \<open>tedKM.cc\<close>): the
  manager counts short hashes in a sketch and gives a frequent chunk several keys. DupLESS
  (\<open>duplessDaE.cc\<close>, \<open>dupLESSKM.cc\<close>): the manager signs blinded fingerprints. Both satisfy the
  contract \<open>dae\<close>. The handler of one request stands for a round of the manager's loop.
\<close>

section \<open>Requests and replies\<close>

text \<open>What \<open>SendData\<close> puts on the wire, and \<open>ReceiveData\<close> of it into a buffer with older contents.\<close>

definition on_wire :: "net_msg \<Rightarrow> net_msg" where
  "on_wire m = m\<lparr>dataBuffer := take (unat (dataSize m)) (dataBuffer m)\<rparr>"

lemma on_wire_idem [simp]: "on_wire (on_wire m) = on_wire m"
  by (simp add: on_wire_def)

definition receive_over :: "net_msg \<Rightarrow> net_msg \<Rightarrow> net_msg" where
  "receive_over old m = m\<lparr>dataBuffer := memcpy_at (dataBuffer old) 0 (dataBuffer m)\<rparr>"

text \<open>One item of a request: \<open>len\<close> bytes of memory are advanced, and \<open>x\<close> is written to their start.\<close>

definition put_item :: "nat \<Rightarrow> nat \<Rightarrow> bytes \<Rightarrow> net_msg \<Rightarrow> net_msg res" where
  "put_item cap len x kb =
     (if cap < unat (dataSize kb) + length x then Inl (Undefined ''key request buffer overflow'')
      else Inr (kb\<lparr>dataBuffer := memcpy_at (dataBuffer kb) (unat (dataSize kb)) x, dataSize := dataSize kb + of_nat len,
                   currentItemNum := currentItemNum kb + 1\<rparr>))"

text \<open>The loop of a manager over the items of a request: each is replaced where it stands.\<close>

definition in_place :: "nat \<Rightarrow> nat \<Rightarrow> (bytes \<Rightarrow> 's \<Rightarrow> (bytes \<times> 's) res) \<Rightarrow> nat \<Rightarrow> bytes \<times> 's \<Rightarrow> (bytes \<times> 's) res" where
  "in_place st sz g i bs =
     (let (buf, s) = bs in
      if length buf < i * st + sz then Inl (Undefined ''read of uninitialised memory'')
      else rbind (g (read_at buf (i * st) sz) s) (\<lambda>(y, s'). Inr (memcpy_at buf (i * st) y, s')))"

definition km_handle ::
  "enclave_cfg \<Rightarrow> nat \<Rightarrow> nat \<Rightarrow> (bytes \<Rightarrow> 's \<Rightarrow> (bytes \<times> 's) res) \<Rightarrow> net_msg \<Rightarrow> 's \<Rightarrow> (net_msg \<times> 's) res" where
  "km_handle C st sz g m s =
     (if messageType m \<noteq> CLIENT_KEY_GEN then Inl (ProcExit ''wrong key gen req type.'')
      else if sendChunkBatchSize C < unat (currentItemNum m) then Inl (Undefined ''key request buffer overflow'')
      else rbind (rfold (in_place st sz g) [0..<unat (currentItemNum m)] (dataBuffer m, s)) (\<lambda>(buf, s').
        Inr (on_wire (m\<lparr>messageType := KEY_MANAGER_KEY_GEN_REPLY, dataSize := of_nat (unat (currentItemNum m) * st), dataBuffer := buf\<rparr>), s')))"

text \<open>The client sends the request that is in its buffer and receives the reply over it.\<close>

definition request_keys :: "(net_msg \<Rightarrow> 'm \<Rightarrow> (net_msg \<times> 'm) res) \<Rightarrow> net_msg \<Rightarrow> 'm \<Rightarrow> (net_msg \<times> 'm) res" where
  "request_keys km kb k =
     (let req = kb\<lparr>messageType := CLIENT_KEY_GEN\<rparr> in
      rbind (km (on_wire req) k) (\<lambda>(reply, k').
        let kb' = receive_over req reply in
        if messageType kb' \<noteq> KEY_MANAGER_KEY_GEN_REPLY then Inl (ProcExit ''wrong key manager reply type.'') else Inr (kb', k')))"

definition reset_request :: "net_msg \<Rightarrow> net_msg" where
  "reset_request kb = kb\<lparr>dataSize := 0, currentItemNum := 0\<rparr>"

section \<open>TED\<close>

definition SHORT_HASH_SIZE :: nat where
  "SHORT_HASH_SIZE = 16"

definition SKETCH_DEPTH :: nat where
  "SKETCH_DEPTH = 4"

definition SKETCH_WIDTH :: u32 where
  "SKETCH_WIDTH = push_bit 20 1"

lemmas [const_defs] = SHORT_HASH_SIZE_def SKETCH_DEPTH_def

lemma SKETCH_WIDTH_val [const_defs]: "SKETCH_WIDTH = 1048576"
  by (simp add: SKETCH_WIDTH_def push_bit_eq_mult)

definition globalSecret :: bytes where
  "globalSecret = replicate CHUNK_HASH_SIZE 1"

record ted_km =
  sketchTable :: "u32 list list"
  genPos :: nat
  totalKeyGenNum :: u64

definition TEDKeyManager_new :: ted_km where
  "TEDKeyManager_new = \<lparr>sketchTable = replicate SKETCH_DEPTH (replicate (unat SKETCH_WIDTH) 0), genPos = 0, totalKeyGenNum = 0\<rparr>"

text \<open>The sketch is updated and the frequency is the least of the new counters.\<close>

definition ted_count :: "bytes \<Rightarrow> u32 list list \<Rightarrow> u32 \<times> u32 list list" where
  "ted_count shortHash table =
     foldl (\<lambda>(curFreq, tb) j.
         let p = unat (bytes_u32 (drop (4 * j) shortHash) mod SKETCH_WIDTH);
             tb' = tb[j := (tb ! j)[p := tb ! j ! p + 1]]
         in (if curFreq > tb' ! j ! p then tb' ! j ! p else curFreq, tb'))
       (- 1, table) [0..<SKETCH_DEPTH]"

text \<open>
  One key seed: \<open>pick i p\<close> is the \<open>i\<close>-th value drawn from \<open>uniform_int_distribution\<close> on 0 to \<open>p\<close>; \<open>t\<close> is 5.
\<close>

definition ted_seed :: "enclave_cfg \<Rightarrow> (nat \<Rightarrow> u32 \<Rightarrow> u32) \<Rightarrow> bytes \<Rightarrow> ted_km \<Rightarrow> (bytes \<times> ted_km) res" where
  "ted_seed C pick shortHash s =
     (let (curFreq, tb) = ted_count shortHash (sketchTable s); param = pick (genPos s) (curFreq div 5) in
      rbind (Crypto_GenerateHash (cfg_evp C) (cfg_tool C) (take SHORT_HASH_SIZE shortHash @ u32_bytes param @ globalSecret)) (\<lambda>h.
        Inr (h, s\<lparr>sketchTable := tb, genPos := genPos s + 1\<rparr>)))"

definition TEDKeyManager_handle :: "enclave_cfg \<Rightarrow> (nat \<Rightarrow> u32 \<Rightarrow> u32) \<Rightarrow> net_msg \<Rightarrow> ted_km \<Rightarrow> (net_msg \<times> ted_km) res" where
  "TEDKeyManager_handle C pick m s =
     rbind (km_handle C CHUNK_HASH_SIZE SHORT_HASH_SIZE (ted_seed C pick) m s) (\<lambda>(reply, s').
       Inr (reply, s'\<lparr>totalKeyGenNum := totalKeyGenNum s' + ucast (currentItemNum m)\<rparr>))"

text \<open>At the end of a connection the table is cleared.\<close>

definition TEDKeyManager_close :: "ted_km \<Rightarrow> ted_km" where
  "TEDKeyManager_close s = s\<lparr>sketchTable := map (map (\<lambda>c. 0)) (sketchTable s)\<rparr>"

text \<open>The client. The short hash takes half of the room that the item has in the request.\<close>

definition TED_short_hash :: "enclave_cfg \<Rightarrow> net_msg \<Rightarrow> net_msg \<times> nat \<Rightarrow> (net_msg \<times> nat) res" where
  "TED_short_hash C plain st =
     (let (kb, offset) = st in
      rbind (read_chunk (dataBuffer plain) offset) (\<lambda>(d, offset').
      rbind (put_item (sendChunkBatchSize C * CHUNK_HASH_SIZE) CHUNK_HASH_SIZE (MurmurHash3_x64_128 d 0) kb) (\<lambda>kb1.
        Inr (kb1, offset'))))"

definition TED_key :: "enclave_cfg \<Rightarrow> net_msg \<Rightarrow> nat \<Rightarrow> bytes \<Rightarrow> bytes res" where
  "TED_key C kb i d =
     rbind (Crypto_GenerateHash (cfg_evp C) (cfg_tool C) d) (\<lambda>h.
       Crypto_GenerateHash (cfg_evp C) (cfg_tool C) (take CHUNK_HASH_SIZE h @ read_at (dataBuffer kb) (i * CHUNK_HASH_SIZE) CHUNK_HASH_SIZE))"

definition TED_ProcessBatchChunk ::
  "enclave_cfg \<Rightarrow> (net_msg \<Rightarrow> 'm \<Rightarrow> (net_msg \<times> 'm) res) \<Rightarrow> net_msg \<Rightarrow> dae_bufs \<times> net_msg \<times> 'm \<Rightarrow> (dae_bufs \<times> net_msg \<times> 'm) res" where
  "TED_ProcessBatchChunk C km plain st =
     (let (s, kb, k) = st in
      rbind (rfold (\<lambda>i. TED_short_hash C plain) [0..<unat (currentItemNum plain)] (kb, 0)) (\<lambda>(kb1, off).
      rbind (request_keys km kb1 k) (\<lambda>(kb2, k2).
      rbind (dae_loop C (TED_key C kb2) (\<lambda>key d. Crypto_EncryptWithKey (cfg_evp C) (cfg_tool C) d key) plain s) (\<lambda>s1.
        Inr (s1, reset_request kb2, k2)))))"

section \<open>DupLESS\<close>

definition RSA_KEY_SIZE :: nat where
  "RSA_KEY_SIZE = 128"

lemmas [const_defs] = RSA_KEY_SIZE_def

text \<open>
  OpenSSL's big numbers are natural numbers: \<open>BN_bin2bn\<close>, and \<open>BN_bn2bin\<close> right-aligned in a zeroed array of
  \<open>RSA_KEY_SIZE\<close> bytes, where a longer number would be written before the array.
\<close>

definition BN_bin2bn :: "bytes \<Rightarrow> nat" where
  "BN_bin2bn bs = le_val (rev bs)"

definition BN_bn2bin :: "nat \<Rightarrow> bytes res" where
  "BN_bn2bin v = (if 256 ^ RSA_KEY_SIZE \<le> v then Inl (Undefined ''write before the array'') else Inr (rev (le_bytes RSA_KEY_SIZE v)))"

text \<open>
  The key pair, \<open>rand i\<close> the \<open>i\<close>-th number of \<open>BN_pseudo_rand\<close>, and \<open>inverse r n\<close> of \<open>BN_mod_inverse\<close>, \<open>None\<close> when there is none.
\<close>

record rsa =
  rsa_n :: nat
  rsa_e :: nat
  rsa_d :: nat
  bn_rand :: "nat \<Rightarrow> nat"
  bn_inverse :: "nat \<Rightarrow> nat \<Rightarrow> nat option"

definition DecorateFP :: "rsa \<Rightarrow> nat \<Rightarrow> bytes \<Rightarrow> bytes res" where
  "DecorateFP R r fp = BN_bn2bin (BN_bin2bn (take 32 fp) * (r ^ rsa_e R mod rsa_n R) mod rsa_n R)"

definition Elimination :: "rsa \<Rightarrow> nat \<Rightarrow> bytes \<Rightarrow> bytes res" where
  "Elimination R r_inv key = BN_bn2bin (BN_bin2bn key * r_inv mod rsa_n R)"

text \<open>The result of \<open>BN_mod_inverse\<close> is not looked at: without an inverse the number stays zero.\<close>

definition blind_inverse :: "rsa \<Rightarrow> nat \<Rightarrow> nat" where
  "blind_inverse R r = (case bn_inverse R r (rsa_n R) of None \<Rightarrow> 0 | Some v \<Rightarrow> v)"

definition DupLESSKeyManager_sign :: "rsa \<Rightarrow> bytes \<Rightarrow> u64 \<Rightarrow> (bytes \<times> u64) res" where
  "DupLESSKeyManager_sign R x s = rbind (BN_bn2bin (BN_bin2bn x ^ rsa_d R mod rsa_n R)) (\<lambda>y. Inr (y, s))"

definition DupLESSKeyManager_handle :: "enclave_cfg \<Rightarrow> rsa \<Rightarrow> net_msg \<Rightarrow> u64 \<Rightarrow> (net_msg \<times> u64) res" where
  "DupLESSKeyManager_handle C R m keyGenNum =
     rbind (km_handle C RSA_KEY_SIZE RSA_KEY_SIZE (DupLESSKeyManager_sign R) m keyGenNum) (\<lambda>(reply, n).
       Inr (reply, n + ucast (currentItemNum m)))"

definition DupLESS_blind :: "enclave_cfg \<Rightarrow> rsa \<Rightarrow> nat \<Rightarrow> net_msg \<Rightarrow> nat \<Rightarrow> net_msg \<times> nat \<Rightarrow> (net_msg \<times> nat) res" where
  "DupLESS_blind C R pos plain i st =
     (let (kb, offset) = st in
      rbind (read_chunk (dataBuffer plain) offset) (\<lambda>(d, offset').
      rbind (Crypto_GenerateHash (cfg_evp C) (cfg_tool C) d) (\<lambda>h.
      rbind (DecorateFP R (bn_rand R (pos + i)) h) (\<lambda>x.
      rbind (put_item (sendChunkBatchSize C * RSA_KEY_SIZE) RSA_KEY_SIZE x kb) (\<lambda>kb1. Inr (kb1, offset'))))))"

definition DupLESS_key :: "enclave_cfg \<Rightarrow> rsa \<Rightarrow> nat \<Rightarrow> net_msg \<Rightarrow> nat \<Rightarrow> bytes \<Rightarrow> bytes res" where
  "DupLESS_key C R pos kb i d =
     rbind (Elimination R (blind_inverse R (bn_rand R (pos + i))) (read_at (dataBuffer kb) (i * RSA_KEY_SIZE) RSA_KEY_SIZE)) (\<lambda>x.
       Crypto_GenerateHash (cfg_evp C) (cfg_tool C) x)"

definition DupLESS_ProcessBatchChunk ::
  "enclave_cfg \<Rightarrow> rsa \<Rightarrow> (net_msg \<Rightarrow> 'm \<Rightarrow> (net_msg \<times> 'm) res) \<Rightarrow> net_msg \<Rightarrow> dae_bufs \<times> net_msg \<times> nat \<times> 'm \<Rightarrow>
   (dae_bufs \<times> net_msg \<times> nat \<times> 'm) res" where
  "DupLESS_ProcessBatchChunk C R km plain st =
     (let (s, kb, pos, k) = st; num = unat (currentItemNum plain) in
      rbind (rfold (DupLESS_blind C R pos plain) [0..<num] (kb, 0)) (\<lambda>(kb1, off).
      rbind (request_keys km kb1 k) (\<lambda>(kb2, k2).
      rbind (dae_loop C (DupLESS_key C R pos kb2) (\<lambda>key d. Crypto_EncryptWithKey (cfg_evp C) (cfg_tool C) d key) plain s) (\<lambda>s1.
        Inr (s1, reset_request kb2, pos + num, k2)))))"

section \<open>A request and its reply\<close>

definition request_of :: "nat \<Rightarrow> nat \<Rightarrow> bytes list \<Rightarrow> net_msg \<Rightarrow> bool" where
  "request_of st sz xs kb \<longleftrightarrow> unat (dataSize kb) = length xs * st \<and> unat (currentItemNum kb) = length xs \<and> entries_at st sz [] 0 xs (dataBuffer kb)"

lemma request_loop:
  assumes step: "\<And>i kb. i < length xs \<Longrightarrow> step i (kb, off i) = rbind (put_item (B * st) st (xs ! i) kb) (\<lambda>kb1. Inr (kb1, off (Suc i)))"
    and xs: "\<forall>x \<in> set xs. length x = sz" "sz \<le> st" "length xs \<le> B" "B * st < 2 ^ 32" "0 < st" and kb: "request_of st sz [] kb"
  shows "\<exists>kb'. rfold step [0..<length xs] (kb, off 0) = Inr (kb', off (length xs)) \<and> request_of st sz xs kb'"
proof -
  have "\<exists>kb'. rfold step [0..<n] (kb, off 0) = Inr (kb', off n) \<and> request_of st sz (take n xs) kb'" if "n \<le> length xs" for n
    using that
  proof (induction n)
    case 0
    then show ?case using kb by simp
  next
    case (Suc n)
    then obtain kb1 where r: "rfold step [0..<n] (kb, off 0) = Inr (kb1, off n)" "request_of st sz (take n xs) kb1" by auto
    have n: "n < length xs" "unat (dataSize kb1) = n * st" "unat (currentItemNum kb1) = n" using Suc.prems r(2) by (simp_all add: request_of_def)
    have x: "length (xs ! n) = sz" using xs(1) n(1) by simp
    have b: "n * st + st \<le> B * st" using n(1) xs(3) mult_le_mono1 [of "Suc n" B st] by simp
    have "st < 2 ^ 32" using b xs(4) by linarith
    then have "unat (of_nat st :: u32) = st" by (simp add: unat_of_nat_u32)
    then have d: "unat (dataSize kb1 + of_nat st) = Suc n * st" using n(2) b xs(4) by (subst unat_add_u32) simp_all
    have "n < B" "B \<le> B * st" using n(1) xs(3,5) by simp_all
    then have "n + 1 < 2 ^ 32" using xs(4) by linarith
    then have c: "unat (currentItemNum kb1 + 1) = Suc n" using n(3) by (subst unat_add_u32) simp_all
    let ?kb = "kb1\<lparr>dataBuffer := memcpy_at (dataBuffer kb1) (n * st) (xs ! n), dataSize := dataSize kb1 + of_nat st, currentItemNum := currentItemNum kb1 + 1\<rparr>"
    have "step n (kb1, off n) = Inr (?kb, off (Suc n))" using step [OF n(1)] n(2) b x xs(2) by (simp add: put_item_def)
    moreover have "entries_at st sz [] 0 (take n xs @ [xs ! n]) (dataBuffer ?kb)"
      using entries_at_snoc [of st sz "[]" 0 "take n xs" "dataBuffer kb1" "xs ! n"] r(2) x xs(2) n(1) by (simp add: request_of_def)
    then have "request_of st sz (take (Suc n) xs) ?kb" using c d n(1) by (simp add: request_of_def take_Suc_conv_app_nth)
    ultimately show ?case using r(1) by (simp add: rfold_append)
  qed
  from this [OF order_refl] show ?thesis by simp
qed

text \<open>Every item is read before anything is written over it.\<close>

lemma in_place_loop:
  assumes g: "\<And>x s. P s \<Longrightarrow> \<exists>y s'. g x s = Inr (y, s') \<and> length y = st \<and> P s' \<and> Q x y"
    and s: "P s" "sz \<le> st" and buf: "\<forall>i < n. i * st + sz \<le> length buf"
  shows "\<exists>buf' s' ys. rfold (in_place st sz g) [0..<n] (buf, s) = Inr (buf', s') \<and> P s' \<and> length ys = n \<and> entries_at st st [] 0 ys buf' \<and>
     (\<forall>i < n. Q (read_at buf (i * st) sz) (ys ! i))"
proof -
  have "\<exists>buf' s' ys. rfold (in_place st sz g) [0..<m] (buf, s) = Inr (buf', s') \<and> P s' \<and> length ys = m \<and> entries_at st st [] 0 ys buf' \<and>
      length buf \<le> length buf' \<and> (\<forall>i < m. Q (read_at buf (i * st) sz) (ys ! i)) \<and>
      (\<forall>i. m \<le> i \<and> i < n \<longrightarrow> read_at buf' (i * st) sz = read_at buf (i * st) sz)" if "m \<le> n" for m
    using that
  proof (induction m)
    case 0
    then show ?case using s(1) by (simp add: entries_at_def)
  next
    case (Suc m)
    then obtain b1 s1 ys where r: "rfold (in_place st sz g) [0..<m] (buf, s) = Inr (b1, s1)" "P s1" "length ys = m" "entries_at st st [] 0 ys b1"
        "length buf \<le> length b1" "\<forall>i < m. Q (read_at buf (i * st) sz) (ys ! i)"
        "\<forall>i. m \<le> i \<and> i < n \<longrightarrow> read_at b1 (i * st) sz = read_at buf (i * st) sz" by auto
    let ?x = "read_at buf (m * st) sz"
    from g [OF r(2), of ?x] obtain y s2 where y: "g ?x s1 = Inr (y, s2)" "length y = st" "P s2" "Q ?x y" by blast
    have "m < n" using Suc.prems by simp
    then have m: "m < n" "m * st + sz \<le> length b1" using le_trans [OF buf [rule_format, of m] r(5)] by simp_all
    have "in_place st sz g m (b1, s1) = Inr (memcpy_at b1 (m * st) y, s2)" using m y(1) r(7) by (simp add: in_place_def)
    moreover have "entries_at st st [] 0 (ys @ [y]) (memcpy_at b1 (m * st) y)"
      using entries_at_snoc [OF r(4) y(2)] r(3) by simp
    moreover have "read_at (memcpy_at b1 (m * st) y) (i * st) sz = read_at buf (i * st) sz" if i: "Suc m \<le> i" "i < n" for i
    proof -
      have "m * st + st \<le> i * st" using i(1) mult_le_mono1 [of "Suc m" i st] by simp
      moreover have "i * st + sz \<le> length b1" using le_trans [OF buf [rule_format, OF i(2)] r(5)] .
      ultimately have "drop (i * st) (memcpy_at b1 (m * st) y) = drop (i * st) b1" using y(2) i(1) by (simp add: memcpy_at_def)
      then show ?thesis using r(7) i by (simp add: read_at_def)
    qed
    moreover have "\<forall>i < Suc m. Q (read_at buf (i * st) sz) ((ys @ [y]) ! i)" using r(3,6) y(4) by (auto simp: nth_append less_Suc_eq)
    ultimately show ?case using r(1,3,5) y(3)
      by (intro exI [of _ "memcpy_at b1 (m * st) y"] exI [of _ s2] exI [of _ "ys @ [y]"]) (simp add: rfold_append)
  qed
  from this [OF order_refl] show ?thesis by blast
qed

lemma entries_at_take: "entries_at st sz [] 0 xs buf \<Longrightarrow> sz \<le> st \<Longrightarrow> entries_at st sz [] 0 xs (take (length xs * st) buf)"
proof -
  assume e: "entries_at st sz [] 0 xs buf" and s: "sz \<le> st"
  have "i * st + sz \<le> length (take (length xs * st) buf) \<and> read_at (take (length xs * st) buf) (i * st) sz = xs ! i" if i: "i < length xs" for i
  proof -
    have "i * st + st \<le> length xs * st" using mult_le_mono1 [of "Suc i" "length xs" st] i by simp
    then have "i * st + sz \<le> length xs * st" using s by linarith
    moreover have "i * st + sz \<le> length buf" "read_at buf (i * st) sz = xs ! i" using e i by (simp_all add: entries_at_def)
    ultimately show ?thesis by (simp add: read_at_def take_drop min_absorb1 add.commute)
  qed
  then show ?thesis by (simp add: entries_at_def)
qed

lemma km_handle_ok:
  assumes g: "\<And>x s. P s \<Longrightarrow> \<exists>y s'. g x s = Inr (y, s') \<and> length y = st \<and> P s' \<and> Q x y"
    and s: "P s" "sz \<le> st" and m: "request_of st sz xs m" "messageType m = CLIENT_KEY_GEN"
    and B: "length xs \<le> sendChunkBatchSize C" "sendChunkBatchSize C * st < 2 ^ 32"
  shows "\<exists>reply s' ys. km_handle C st sz g m s = Inr (reply, s') \<and> P s' \<and> messageType reply = KEY_MANAGER_KEY_GEN_REPLY \<and>
     length ys = length xs \<and> entries_at st st [] 0 ys (dataBuffer reply) \<and> (\<forall>i < length xs. Q (xs ! i) (ys ! i))"
proof -
  have n: "unat (currentItemNum m) = length xs" and e: "entries_at st sz [] 0 xs (dataBuffer m)" using m(1) by (simp_all add: request_of_def)
  have r: "\<forall>i < length xs. i * st + sz \<le> length (dataBuffer m)" "\<forall>i < length xs. read_at (dataBuffer m) (i * st) sz = xs ! i"
    using e by (simp_all add: entries_at_def)
  from in_place_loop [where P = P and Q = Q and g = g and st = st, OF g s r(1)] obtain buf' s' ys where
    l: "rfold (in_place st sz g) [0..<length xs] (dataBuffer m, s) = Inr (buf', s')" "P s'" "length ys = length xs" "entries_at st st [] 0 ys buf'"
      "\<forall>i < length xs. Q (read_at (dataBuffer m) (i * st) sz) (ys ! i)" by blast
  have "length xs * st < 2 ^ 32" using B mult_le_mono1 [OF B(1), of st] by linarith
  then have u: "unat (of_nat (length xs * st) :: u32) = length ys * st" using unat_of_nat_u32 [of "length xs * st"] l(3) by (simp del: of_nat_mult)
  have "entries_at st st [] 0 ys (take (length ys * st) buf')" by (rule entries_at_take [OF l(4) order_refl])
  with l n u m(2) B(1) r(2) show ?thesis by (simp add: km_handle_def on_wire_def del: of_nat_mult) blast
qed

lemma entries_at_receive: "entries_at st st [] 0 ys d \<Longrightarrow> entries_at st st [] 0 ys (memcpy_at old 0 d)"
  by (auto simp: entries_at_def memcpy_at_def read_at_def)

text \<open>
  The client's round trip to a manager that answers requests well.
\<close>

lemma request_keys_ok:
  assumes km: "\<And>m. request_of st sz xs m \<Longrightarrow> messageType m = CLIENT_KEY_GEN \<Longrightarrow>
      \<exists>reply k' ys. km m k = Inr (reply, k') \<and> P k' \<and> messageType reply = KEY_MANAGER_KEY_GEN_REPLY \<and> length ys = length xs \<and>
        entries_at st st [] 0 ys (dataBuffer reply) \<and> (\<forall>i < length xs. Q (xs ! i) (ys ! i))"
    and kb: "request_of st sz xs kb" and s: "sz \<le> st"
  shows "\<exists>kb' k' ys. request_keys km kb k = Inr (kb', k') \<and> P k' \<and> length ys = length xs \<and>
     entries_at st st [] 0 ys (dataBuffer kb') \<and> (\<forall>i < length xs. Q (xs ! i) (ys ! i))"
proof -
  let ?req = "kb\<lparr>messageType := CLIENT_KEY_GEN\<rparr>"
  have "request_of st sz xs (on_wire ?req)" "messageType (on_wire ?req) = CLIENT_KEY_GEN"
    using kb entries_at_take [OF _ s, of xs "dataBuffer kb"] by (simp_all add: request_of_def on_wire_def)
  from km [OF this] obtain reply k' ys where r: "km (on_wire ?req) k = Inr (reply, k')" "P k'" "messageType reply = KEY_MANAGER_KEY_GEN_REPLY"
      "length ys = length xs" "entries_at st st [] 0 ys (dataBuffer reply)" "\<forall>i < length xs. Q (xs ! i) (ys ! i)" by blast
  have "request_keys km kb k = Inr (receive_over ?req reply, k')" using r(1,3) by (simp add: request_keys_def receive_over_def)
  moreover have "entries_at st st [] 0 ys (dataBuffer (receive_over ?req reply))"
    using entries_at_receive [OF r(5)] by (simp add: receive_over_def)
  ultimately show ?thesis using r(2,4,6) by blast
qed

section \<open>TED gives the contract\<close>

definition ted_ok :: "enclave_cfg \<Rightarrow> net_msg \<times> ted_km \<Rightarrow> bool" where
  "ted_ok C k \<longleftrightarrow> client_ok C \<and> dataSize (fst k) = 0 \<and> currentItemNum (fst k) = 0"

lemma ted_seed_ok:
  assumes "client_ok C"
  shows "\<exists>y s'. ted_seed C pick x s = Inr (y, s') \<and> length y = CHUNK_HASH_SIZE"
  by (cases "ted_count x (sketchTable s)") (simp add: ted_seed_def client_fp_eq [OF assms])

lemma TEDKeyManager_handle_ok:
  assumes "client_ok C" and "request_of CHUNK_HASH_SIZE SHORT_HASH_SIZE xs m" and "messageType m = CLIENT_KEY_GEN"
    and "length xs \<le> sendChunkBatchSize C" and "sendChunkBatchSize C * CHUNK_HASH_SIZE < 2 ^ 32"
  shows "\<exists>reply s' ys. TEDKeyManager_handle C pick m s = Inr (reply, s') \<and> True \<and> messageType reply = KEY_MANAGER_KEY_GEN_REPLY \<and>
     length ys = length xs \<and> entries_at CHUNK_HASH_SIZE CHUNK_HASH_SIZE [] 0 ys (dataBuffer reply) \<and> (\<forall>i < length xs. True)"
proof -
  have "\<exists>reply s' ys. km_handle C CHUNK_HASH_SIZE SHORT_HASH_SIZE (ted_seed C pick) m s = Inr (reply, s') \<and> True \<and> messageType reply = KEY_MANAGER_KEY_GEN_REPLY \<and>
      length ys = length xs \<and> entries_at CHUNK_HASH_SIZE CHUNK_HASH_SIZE [] 0 ys (dataBuffer reply) \<and> (\<forall>i < length xs. (\<lambda>x y. True) (xs ! i) (ys ! i))"
    by (rule km_handle_ok [where P = "\<lambda>s. True"]) (use assms ted_seed_ok [OF assms(1)] in \<open>auto simp: const_defs\<close>)
  then show ?thesis by (auto simp: TEDKeyManager_handle_def)
qed

text \<open>The chunks of a batch are at the offsets at which the loops over them stand.\<close>

lemma chunk_small: "sendChunkBatchSize C * Chunk_size < 2 ^ 32 \<Longrightarrow> n \<le> Chunk_size \<Longrightarrow> sendChunkBatchSize C * n < 2 ^ 32"
  using mult_le_mono2 [of n Chunk_size "sendChunkBatchSize C"] by linarith

lemma TED_batch:
  assumes p: "pending plain ds" and r: "dae_ready C ds s" and ok: "ted_ok C (kb, km)"
  shows "\<exists>s' kb' km' ks es. TED_ProcessBatchChunk C (TEDKeyManager_handle C pick) plain (s, kb, km) = Inr (s', kb', km') \<and> ted_ok C (kb', km') \<and>
     dae_result C s ds ks es s' \<and> list_all2 (\<lambda>(key, e) d. open_chunk C TED_DAE key e = Inr d \<and> length e = length d) (zip ks es) ds"
proof -
  let ?xs = "map (\<lambda>d. MurmurHash3_x64_128 d 0) ds" and ?off = "\<lambda>i. length (encode_chunks (take i ds))"
  have C: "client_ok C" using ok by (simp add: ted_ok_def)
  have n: "unat (currentItemNum plain) = length ds" using p by (simp add: pending_def)
  have B: "length ds \<le> sendChunkBatchSize C" "sendChunkBatchSize C * Chunk_size < 2 ^ 32" using r by (simp_all add: dae_ready_def)
  have B32: "sendChunkBatchSize C * CHUNK_HASH_SIZE < 2 ^ 32" by (rule chunk_small [OF B(2)]) (simp add: const_defs Chunk_size_def)
  have kb0: "request_of CHUNK_HASH_SIZE SHORT_HASH_SIZE [] kb" using ok by (simp add: ted_ok_def request_of_def entries_at_def)
  have st: "TED_short_hash C plain (kb, ?off i) =
      rbind (put_item (sendChunkBatchSize C * CHUNK_HASH_SIZE) CHUNK_HASH_SIZE (?xs ! i) kb) (\<lambda>kb1. Inr (kb1, ?off (Suc i)))" if "i < length ?xs" for i kb
    using read_pending_chunk [OF p, of i] that by (simp add: TED_short_hash_def)
  from request_loop [where step = "\<lambda>i. TED_short_hash C plain" and off = ?off and sz = SHORT_HASH_SIZE, OF st _ _ _ B32 _ kb0]
  obtain kb1 where k1: "rfold (\<lambda>i. TED_short_hash C plain) [0..<length ds] (kb, 0) = Inr (kb1, ?off (length ds))"
      "request_of CHUNK_HASH_SIZE SHORT_HASH_SIZE ?xs kb1"
    using B(1) by (auto simp: const_defs)
  have "\<exists>kb' k' ys. request_keys (TEDKeyManager_handle C pick) kb1 km = Inr (kb', k') \<and> True \<and> length ys = length ?xs \<and>
      entries_at CHUNK_HASH_SIZE CHUNK_HASH_SIZE [] 0 ys (dataBuffer kb') \<and> (\<forall>i < length ?xs. (\<lambda>x y. True) (?xs ! i) (ys ! i))"
    using TEDKeyManager_handle_ok [where xs = ?xs, OF C _ _ _ B32] B(1)
    by (intro request_keys_ok [OF _ k1(2)]) (simp_all add: const_defs)
  then obtain kb2 km2 where k2: "request_keys (TEDKeyManager_handle C pick) kb1 km = Inr (kb2, km2)" by blast
  have "\<exists>s' ks es. dae_loop C (TED_key C kb2) (\<lambda>key d. Crypto_EncryptWithKey (cfg_evp C) (cfg_tool C) d key) plain s = Inr s' \<and>
      dae_result C s ds ks es s' \<and> list_all2 (\<lambda>(key, e) d. open_chunk C TED_DAE key e = Inr d \<and> length e = length d) (zip ks es) ds \<and>
      (\<forall>i < length ds. TED_key C kb2 i (ds ! i) = Inr (ks ! i) \<and> Crypto_EncryptWithKey (cfg_evp C) (cfg_tool C) (ds ! i) (ks ! i) = Inr (es ! i))"
    by (rule dae_loop_contract [OF p r]) (simp_all add: TED_key_def client_fp_eq [OF C] open_chunk_def host_cipher [OF C])
  then obtain s' ks es where "dae_loop C (TED_key C kb2) (\<lambda>key d. Crypto_EncryptWithKey (cfg_evp C) (cfg_tool C) d key) plain s = Inr s'"
      "dae_result C s ds ks es s'" "list_all2 (\<lambda>(key, e) d. open_chunk C TED_DAE key e = Inr d \<and> length e = length d) (zip ks es) ds" by blast
  with k1(1) k2 n C show ?thesis
    by (intro exI [of _ s'] exI [of _ "reset_request kb2"] exI [of _ km2] exI [of _ ks] exI [of _ es])
      (simp add: TED_ProcessBatchChunk_def ted_ok_def reset_request_def)
qed

interpretation ted_dae: dae C "ted_ok C" "TED_ProcessBatchChunk C (TEDKeyManager_handle C pick)" "open_chunk C TED_DAE" for C pick
proof unfold_locales
  fix plain ds s k
  assume "pending plain ds" "dae_ready C ds s" "ted_ok C k"
  then show "\<exists>s' k' ks es. TED_ProcessBatchChunk C (TEDKeyManager_handle C pick) plain (s, k) = Inr (s', k') \<and> ted_ok C k' \<and> dae_result C s ds ks es s' \<and>
      list_all2 (\<lambda>(key, e) d. open_chunk C TED_DAE key e = Inr d \<and> length e = length d) (zip ks es) ds"
    using TED_batch [of plain ds C s "fst k" "snd k" pick] by (cases k) fastforce
qed

section \<open>DupLESS gives the contract\<close>

text \<open>
  What is known of the key pair and of the numbers that are drawn: exponentiation with the two exponents
  is the identity modulo \<open>n\<close>, and the numbers have an inverse.
\<close>

definition rsa_ok :: "rsa \<Rightarrow> bool" where
  "rsa_ok R \<longleftrightarrow> 1 < rsa_n R \<and> rsa_n R < 256 ^ RSA_KEY_SIZE \<and> (\<forall>x. (x ^ rsa_e R) ^ rsa_d R mod rsa_n R = x mod rsa_n R) \<and>
     (\<forall>i. \<exists>v. bn_inverse R (bn_rand R i) (rsa_n R) = Some v \<and> bn_rand R i * v mod rsa_n R = 1)"

definition dupless_ok :: "enclave_cfg \<Rightarrow> rsa \<Rightarrow> net_msg \<times> nat \<times> u64 \<Rightarrow> bool" where
  "dupless_ok C R k \<longleftrightarrow> client_ok C \<and> rsa_ok R \<and> dataSize (fst k) = 0 \<and> currentItemNum (fst k) = 0"

text \<open>The signature of a fingerprint, which does not depend on what it was blinded with.\<close>

definition rsa_signature :: "rsa \<Rightarrow> bytes \<Rightarrow> bytes" where
  "rsa_signature R h = rev (le_bytes RSA_KEY_SIZE (BN_bin2bn h ^ rsa_d R mod rsa_n R))"

lemma BN_bn2bin_less:
  assumes "v < 256 ^ RSA_KEY_SIZE"
  shows "BN_bn2bin v = Inr (rev (le_bytes RSA_KEY_SIZE v))" and "BN_bin2bn (rev (le_bytes RSA_KEY_SIZE v)) = v"
  using assms by (simp_all add: BN_bn2bin_def BN_bin2bn_def le_val_le_bytes)

lemma rsa_ok_less: "rsa_ok R \<Longrightarrow> v mod rsa_n R < 256 ^ RSA_KEY_SIZE"
  by (metis less_trans mod_less_divisor not_less_zero gr_zeroI rsa_ok_def)

lemma unblind_arith:
  fixes h r n e d v :: nat
  assumes "(r ^ e) ^ d mod n = r mod n" and "r * v mod n = 1"
  shows "(h * (r ^ e mod n) mod n) ^ d mod n * v mod n = h ^ d mod n"
proof -
  have "(h * (r ^ e mod n) mod n) ^ d mod n = h ^ d * (r ^ e) ^ d mod n"
    by (metis mod_mult_right_eq power_mod power_mult_distrib)
  also have "\<dots> = h ^ d * r mod n" using assms(1) by (metis mod_mult_right_eq)
  finally have "(h * (r ^ e mod n) mod n) ^ d mod n * v mod n = h ^ d * (r * v) mod n"
    by (metis mod_mult_left_eq mult.assoc)
  also have "\<dots> = h ^ d mod n" using assms(2) by (metis mod_mult_right_eq mult.right_neutral)
  finally show ?thesis .
qed

text \<open>Blinding, signing and eliminating the blinding.\<close>

lemma blind_sign_eliminate:
  assumes R: "rsa_ok R" and h: "length h = CHUNK_HASH_SIZE"
  shows "\<exists>x y. DecorateFP R (bn_rand R i) h = Inr x \<and> length x = RSA_KEY_SIZE \<and> DupLESSKeyManager_sign R x s = Inr (y, s) \<and> length y = RSA_KEY_SIZE \<and>
     Elimination R (blind_inverse R (bn_rand R i)) y = Inr (rsa_signature R h)"
proof -
  let ?n = "rsa_n R" and ?r = "bn_rand R i"
  let ?a = "BN_bin2bn h * (?r ^ rsa_e R mod ?n) mod ?n"
  let ?b = "?a ^ rsa_d R mod ?n"
  from R obtain v where v: "bn_inverse R ?r ?n = Some v" "?r * v mod ?n = 1" unfolding rsa_ok_def by blast
  have t: "take 32 h = h" using h by (simp add: const_defs)
  note l = rsa_ok_less [OF R]
  have "?b * v mod ?n = BN_bin2bn h ^ rsa_d R mod ?n" using R v(2) by (intro unblind_arith) (simp_all add: rsa_ok_def)
  then show ?thesis using v(1) t BN_bn2bin_less [OF l]
    by (simp add: DecorateFP_def DupLESSKeyManager_sign_def Elimination_def blind_inverse_def rsa_signature_def)
qed

lemma DupLESSKeyManager_sign_eq: "rsa_ok R \<Longrightarrow> DupLESSKeyManager_sign R x s = Inr (rsa_signature R x, s)"
  using BN_bn2bin_less [OF rsa_ok_less] by (simp add: DupLESSKeyManager_sign_def rsa_signature_def)

lemma DupLESSKeyManager_handle_ok:
  assumes "rsa_ok R" and "request_of RSA_KEY_SIZE RSA_KEY_SIZE xs m" and "messageType m = CLIENT_KEY_GEN"
    and "length xs \<le> sendChunkBatchSize C" and "sendChunkBatchSize C * RSA_KEY_SIZE < 2 ^ 32"
  shows "\<exists>reply s' ys. DupLESSKeyManager_handle C R m s = Inr (reply, s') \<and> True \<and> messageType reply = KEY_MANAGER_KEY_GEN_REPLY \<and>
     length ys = length xs \<and> entries_at RSA_KEY_SIZE RSA_KEY_SIZE [] 0 ys (dataBuffer reply) \<and> (\<forall>i < length xs. ys ! i = rsa_signature R (xs ! i))"
proof -
  have "\<exists>reply s' ys. km_handle C RSA_KEY_SIZE RSA_KEY_SIZE (DupLESSKeyManager_sign R) m s = Inr (reply, s') \<and> True \<and> messageType reply = KEY_MANAGER_KEY_GEN_REPLY \<and>
      length ys = length xs \<and> entries_at RSA_KEY_SIZE RSA_KEY_SIZE [] 0 ys (dataBuffer reply) \<and> (\<forall>i < length xs. (\<lambda>x y. y = rsa_signature R x) (xs ! i) (ys ! i))"
    by (rule km_handle_ok [where P = "\<lambda>s. True"]) (use assms DupLESSKeyManager_sign_eq [OF assms(1)] in \<open>auto simp: rsa_signature_def\<close>)
  then show ?thesis by (auto simp: DupLESSKeyManager_handle_def)
qed

lemma DupLESS_batch:
  assumes p: "pending plain ds" and r: "dae_ready C ds s" and ok: "dupless_ok C R (kb, pos, km)"
  shows "\<exists>s' kb' pos' km' ks es. DupLESS_ProcessBatchChunk C R (DupLESSKeyManager_handle C R) plain (s, kb, pos, km) = Inr (s', kb', pos', km') \<and>
     dupless_ok C R (kb', pos', km') \<and> dae_result C s ds ks es s' \<and>
     list_all2 (\<lambda>(key, e) d. open_chunk C DUPLESS_DAE key e = Inr d \<and> length e = length d) (zip ks es) ds \<and>
     ks = map (\<lambda>d. client_fp C (rsa_signature R (client_fp C d))) ds \<and>
     (\<forall>i < length ds. Crypto_EncryptWithKey (cfg_evp C) (cfg_tool C) (ds ! i) (ks ! i) = Inr (es ! i))"
proof -
  have C: "client_ok C" and R: "rsa_ok R" using ok by (simp_all add: dupless_ok_def)
  let ?off = "\<lambda>i. length (encode_chunks (take i ds))"
  have "\<exists>x. DecorateFP R (bn_rand R (pos + i)) (client_fp C (ds ! i)) = Inr x \<and> length x = RSA_KEY_SIZE \<and>
      Elimination R (blind_inverse R (bn_rand R (pos + i))) (rsa_signature R x) = Inr (rsa_signature R (client_fp C (ds ! i)))" for i
    using blind_sign_eliminate [OF R client_fp_eq(3) [OF C], of "pos + i" "ds ! i"] DupLESSKeyManager_sign_eq [OF R] by fastforce
  then obtain f where f: "\<And>i. DecorateFP R (bn_rand R (pos + i)) (client_fp C (ds ! i)) = Inr (f i)" "\<And>i. length (f i) = RSA_KEY_SIZE"
      "\<And>i. Elimination R (blind_inverse R (bn_rand R (pos + i))) (rsa_signature R (f i)) = Inr (rsa_signature R (client_fp C (ds ! i)))" by metis
  let ?xs = "map f [0..<length ds]"
  have n: "unat (currentItemNum plain) = length ds" using p by (simp add: pending_def)
  have B: "length ds \<le> sendChunkBatchSize C" "sendChunkBatchSize C * Chunk_size < 2 ^ 32" using r by (simp_all add: dae_ready_def)
  have B128: "sendChunkBatchSize C * RSA_KEY_SIZE < 2 ^ 32" by (rule chunk_small [OF B(2)]) (simp add: const_defs Chunk_size_def)
  have kb0: "request_of RSA_KEY_SIZE RSA_KEY_SIZE [] kb" using ok by (simp add: dupless_ok_def request_of_def entries_at_def)
  have st: "DupLESS_blind C R pos plain i (kb, ?off i) =
      rbind (put_item (sendChunkBatchSize C * RSA_KEY_SIZE) RSA_KEY_SIZE (?xs ! i) kb) (\<lambda>kb1. Inr (kb1, ?off (Suc i)))" if "i < length ?xs" for i kb
    using read_pending_chunk [OF p, of i] that by (simp add: DupLESS_blind_def client_fp_eq [OF C] f(1))
  from request_loop [where step = "DupLESS_blind C R pos plain" and off = ?off and sz = RSA_KEY_SIZE, OF st _ _ _ B128 _ kb0]
  obtain kb1 where k1: "rfold (DupLESS_blind C R pos plain) [0..<length ds] (kb, 0) = Inr (kb1, ?off (length ds))"
      "request_of RSA_KEY_SIZE RSA_KEY_SIZE ?xs kb1"
    using B(1) f(2) by (auto simp: const_defs)
  have "\<exists>kb' k' ys. request_keys (DupLESSKeyManager_handle C R) kb1 km = Inr (kb', k') \<and> True \<and> length ys = length ?xs \<and>
      entries_at RSA_KEY_SIZE RSA_KEY_SIZE [] 0 ys (dataBuffer kb') \<and> (\<forall>i < length ?xs. (\<lambda>x y. y = rsa_signature R x) (?xs ! i) (ys ! i))"
    using DupLESSKeyManager_handle_ok [where xs = ?xs, OF R _ _ _ B128] B(1)
    by (intro request_keys_ok [OF _ k1(2)]) simp_all
  then obtain kb2 km2 ys where k2: "request_keys (DupLESSKeyManager_handle C R) kb1 km = Inr (kb2, km2)" "length ys = length ds"
      "entries_at RSA_KEY_SIZE RSA_KEY_SIZE [] 0 ys (dataBuffer kb2)" "\<forall>i < length ds. ys ! i = rsa_signature R (f i)" by auto
  have key: "DupLESS_key C R pos kb2 i (ds ! i) = Inr (client_fp C (rsa_signature R (client_fp C (ds ! i))))" if "i < length ds" for i
  proof -
    have "read_at (dataBuffer kb2) (i * RSA_KEY_SIZE) RSA_KEY_SIZE = rsa_signature R (f i)" using k2(2-4) that by (simp add: entries_at_def)
    then show ?thesis by (simp add: DupLESS_key_def f(3) client_fp_eq [OF C])
  qed
  have "\<exists>s' ks es. dae_loop C (DupLESS_key C R pos kb2) (\<lambda>key d. Crypto_EncryptWithKey (cfg_evp C) (cfg_tool C) d key) plain s = Inr s' \<and>
      dae_result C s ds ks es s' \<and> list_all2 (\<lambda>(key, e) d. open_chunk C DUPLESS_DAE key e = Inr d \<and> length e = length d) (zip ks es) ds \<and>
      (\<forall>i < length ds. DupLESS_key C R pos kb2 i (ds ! i) = Inr (ks ! i) \<and> Crypto_EncryptWithKey (cfg_evp C) (cfg_tool C) (ds ! i) (ks ! i) = Inr (es ! i))"
    by (rule dae_loop_contract [OF p r]) (simp_all add: key client_fp_eq [OF C] open_chunk_def host_cipher [OF C])
  then obtain s' ks es where s': "dae_loop C (DupLESS_key C R pos kb2) (\<lambda>key d. Crypto_EncryptWithKey (cfg_evp C) (cfg_tool C) d key) plain s = Inr s'"
      "dae_result C s ds ks es s'" "list_all2 (\<lambda>(key, e) d. open_chunk C DUPLESS_DAE key e = Inr d \<and> length e = length d) (zip ks es) ds"
      "\<forall>i < length ds. DupLESS_key C R pos kb2 i (ds ! i) = Inr (ks ! i) \<and> Crypto_EncryptWithKey (cfg_evp C) (cfg_tool C) (ds ! i) (ks ! i) = Inr (es ! i)" by blast
  have "ks = map (\<lambda>d. client_fp C (rsa_signature R (client_fp C d))) ds"
    using s'(2,4) key by (intro nth_equalityI) (simp_all add: dae_result_def)
  with k1(1) k2(1) n C R s' show ?thesis
    by (intro exI [of _ s'] exI [of _ "reset_request kb2"] exI [of _ "pos + length ds"] exI [of _ km2] exI [of _ ks] exI [of _ es])
      (simp add: DupLESS_ProcessBatchChunk_def Let_def dupless_ok_def reset_request_def)
qed

interpretation dupless_dae: dae C "dupless_ok C R" "DupLESS_ProcessBatchChunk C R (DupLESSKeyManager_handle C R)" "open_chunk C DUPLESS_DAE" for C R
proof unfold_locales
  fix plain ds s k
  assume a: "pending plain ds" "dae_ready C ds s" "dupless_ok C R k"
  obtain kb pos km where k: "k = (kb, pos, km)" by (cases k)
  from DupLESS_batch [OF a(1,2), of R kb pos km] a(3) show
    "\<exists>s' k' ks es. DupLESS_ProcessBatchChunk C R (DupLESSKeyManager_handle C R) plain (s, k) = Inr (s', k') \<and> dupless_ok C R k' \<and> dae_result C s ds ks es s' \<and>
      list_all2 (\<lambda>(key, e) d. open_chunk C DUPLESS_DAE key e = Inr d \<and> length e = length d) (zip ks es) ds"
    unfolding k by blast
qed

section \<open>The sketch of TED\<close>

lemma ted_count_rows:
  assumes "n \<le> length tb0" and "\<forall>i < n. p i < length (tb0 ! i)"
  shows "foldl (\<lambda>(curFreq, tb) j. let tb' = tb[j := (tb ! j)[p j := tb ! j ! p j + 1]] in
      (if curFreq > tb' ! j ! p j then tb' ! j ! p j else curFreq, tb')) (f0, tb0) [0..<n] =
    (foldl (\<lambda>m i. min m (tb0 ! i ! p i + 1)) f0 [0..<n], map (\<lambda>i. (tb0 ! i)[p i := tb0 ! i ! p i + 1]) [0..<n] @ drop n (tb0 :: u32 list list))"
  using assms
proof (induction n)
  case 0
  then show ?case by simp
next
  case (Suc n)
  then have d: "drop n tb0 = tb0 ! n # drop (Suc n) tb0" by (simp add: Cons_nth_drop_Suc)
  have m: "(if (a :: u32) > b then b else a) = min a b" for a b by (auto simp: min_def)
  show ?case using Suc by (simp add: d list_update_append nth_append Let_def m)
qed

section \<open>Properties\<close>

text \<open>
  (C24) The key manager of TED and the enclave of the prototype count alike: the loop that increases one counter per
  row of the table and keeps the least of the new values is an update by one of the count-min sketch of
  \<open>ecallCMSketch.cc\<close> with four rows of \<open>2 ^ 20\<close> counters, followed by an estimate.
\<close>

theorem ted_count_sketch:
  assumes "sketch_wf S" and "width S = SKETCH_WIDTH" and "depth S = of_nat SKETCH_DEPTH"
  shows "ted_count h (counterArray S) = (CMSketch_Estimate (CMSketch_Update S h 1) h, counterArray (CMSketch_Update S h 1))"
proof -
  have d: "unat (depth S) = SKETCH_DEPTH" using assms(3) by (simp add: const_defs)
  have l: "SKETCH_DEPTH \<le> length (counterArray S)" using assms(1) d by (simp add: sketch_wf_def)
  have p: "\<forall>i < SKETCH_DEPTH. sketch_pos S h i < length (counterArray S ! i)"
    using sketch_pos_less [OF assms(1)] sketch_row [OF assms(1)] d by simp
  have u: "counterArray (CMSketch_Update S h 1) = map (\<lambda>i. (counterArray S ! i)[sketch_pos S h i := counterArray S ! i ! sketch_pos S h i + 1]) [0..<SKETCH_DEPTH]"
    by (simp add: Update_eq [OF assms(1)] d)
  have e: "CMSketch_Estimate (CMSketch_Update S h 1) h = foldl (\<lambda>m i. min m (counterArray S ! i ! sketch_pos S h i + 1)) (- 1) [0..<SKETCH_DEPTH]"
    unfolding CMSketch_Estimate_def using d Update_counter [OF assms(1)] sketch_pos_less [OF assms(1)]
    by (intro foldl_cong) (simp_all add: assms(1) Update_pos)
  have dr: "drop SKETCH_DEPTH (counterArray S) = []" using assms(1) d by (simp add: sketch_wf_def)
  have pos: "unat (bytes_u32 (drop (4 * j) h) mod SKETCH_WIDTH) = sketch_pos S h j" for j by (simp add: sketch_pos_def assms(2))
  show ?thesis using ted_count_rows [OF l p, of "- 1"] unfolding ted_count_def pos Let_def u e dr append_Nil2 .
qed

theorem ted_count_sketch_witness:
  "ted_count [1, 2, 3] (counterArray (CMSketch_new SKETCH_WIDTH 4)) =
     (CMSketch_Estimate (CMSketch_Update (CMSketch_new SKETCH_WIDTH 4) [1, 2, 3] 1) [1, 2, 3],
      counterArray (CMSketch_Update (CMSketch_new SKETCH_WIDTH 4) [1, 2, 3] 1))"
  by (rule ted_count_sketch [OF sketch_wf_new]) (simp_all add: CMSketch_new_def const_defs)

text \<open>
  (C25) Blinding does not change a key of DupLESS. Whatever numbers the client draws, and whatever was in the buffers and
  counters before, the key of a chunk is the hash of the manager's signature of its fingerprint, and its cipher chunk is the chunk
  under that key: equal chunks of all clients become equal cipher chunks, which the server can
  deduplicate, while the manager sees blinded fingerprints only.
\<close>

theorem DupLESS_keys_from_content:
  assumes "pending plain ds" and "dae_ready C ds s" and "dupless_ok C R (kb, pos, km)"
  shows "\<exists>s' k' ks es. DupLESS_ProcessBatchChunk C R (DupLESSKeyManager_handle C R) plain (s, kb, pos, km) = Inr (s', k') \<and>
     pending (cipherBuf s') es \<and> keyRecipeFile s' = keyRecipeFile s @ concat ks \<and>
     ks = map (\<lambda>d. client_fp C (rsa_signature R (client_fp C d))) ds \<and>
     map Inr es = map (\<lambda>d. Crypto_EncryptWithKey (cfg_evp C) (cfg_tool C) d (client_fp C (rsa_signature R (client_fp C d)))) ds"
proof -
  from DupLESS_batch [OF assms] obtain s' k' ks es where
    r: "DupLESS_ProcessBatchChunk C R (DupLESSKeyManager_handle C R) plain (s, kb, pos, km) = Inr (s', k')" "dae_result C s ds ks es s'"
      "ks = map (\<lambda>d. client_fp C (rsa_signature R (client_fp C d))) ds"
      "\<forall>i < length ds. Crypto_EncryptWithKey (cfg_evp C) (cfg_tool C) (ds ! i) (ks ! i) = Inr (es ! i)" by blast
  have "map Inr es = map (\<lambda>d. Crypto_EncryptWithKey (cfg_evp C) (cfg_tool C) d (client_fp C (rsa_signature R (client_fp C d)))) ds"
    using r(2-4) by (intro nth_equalityI) (simp_all add: dae_result_def)
  with r(1-3) show ?thesis by (intro exI [of _ s'] exI [of _ k'] exI [of _ ks] exI [of _ es]) (simp add: dae_result_def)
qed

definition small_rsa :: rsa where
  "small_rsa = \<lparr>rsa_n = 15, rsa_e = 3, rsa_d = 3, bn_rand = (\<lambda>i. 2), bn_inverse = (\<lambda>r n. if r = 2 \<and> n = 15 then Some 8 else None)\<rparr>"

lemma small_rsa_ok: "rsa_ok small_rsa"
proof -
  have "y ^ 9 mod 15 = y" if "y < 15" for y :: nat
  proof -
    have "y \<in> {0, 1, 2, 3, 4, 5, 6, 7, 8, 9, 10, 11, 12, 13, 14}" using that by (simp only: insert_iff empty_iff) presburger
    then show ?thesis by auto
  qed
  then have "x ^ 9 mod 15 = x mod 15" for x :: nat
    by (metis mod_less_divisor power_mod zero_less_numeral)
  then show ?thesis by (simp add: rsa_ok_def small_rsa_def const_defs flip: power_mult)
qed

text \<open>A batch of two equal chunks on a client that has sent nothing yet.\<close>

definition dae_cfg :: enclave_cfg where
  "dae_cfg = \<lparr>cfg_evp = plain_evp, cfg_tool = CryptoPrimitive_new AES_256_GCM SHA_256, cfg_lz4c = (\<lambda>d. []), cfg_lz4d = (\<lambda>d. None), cfg_rnd = (\<lambda>i. i div 8 + i),
     enclaveKey = [], indexQueryKey = [], sendChunkBatchSize = 2, sendRecipeBatchSize = 4, topKParam = 2\<rparr>"

lemma dae_cfg_ok: "client_ok dae_cfg"
  by (simp add: client_ok_def dae_cfg_def) (simp add: CryptoPrimitive_new_def)

definition blank_bufs :: dae_bufs where
  "blank_bufs = \<lparr>cipherBuf = blank_msg 1, recipeBuf = blank_msg 1, tmpRecipe = 0, keyRecipeFile = []\<rparr>"

definition two_chunks :: net_msg where
  "two_chunks = append_chunk [1, 2, 3] (append_chunk [1, 2, 3] (blank_msg 1))"

lemma two_chunks_pending: "pending two_chunks [[1, 2, 3], [1, 2, 3]]"
proof -
  have b: "pending (blank_msg 1) []" by (simp add: pending_def blank_msg_def)
  have "pending (append_chunk [1, 2, 3] (blank_msg 1)) ([] @ [[1, 2, 3]])"
    by (rule append_chunk_pending(1) [OF b, of _ 2]) (simp_all add: const_defs Chunk_size_def)
  then have "pending two_chunks (([] @ [[1, 2, 3]]) @ [[1, 2, 3]])"
    unfolding two_chunks_def by (rule append_chunk_pending(1) [of _ _ _ 2]) (simp_all add: const_defs Chunk_size_def)
  then show ?thesis by simp
qed

lemma blank_bufs_ready: "dae_ready dae_cfg [[1, 2, 3], [1, 2, 3]] blank_bufs"
  by (simp add: dae_ready_def dae_cfg_def blank_bufs_def blank_msg_def pending_def const_defs Chunk_size_def)

theorem DupLESS_keys_from_content_witness:
  "\<exists>s' k' ks es. DupLESS_ProcessBatchChunk dae_cfg small_rsa (DupLESSKeyManager_handle dae_cfg small_rsa) two_chunks (blank_bufs, blank_msg 1, 0, 0) = Inr (s', k') \<and>
     pending (cipherBuf s') es \<and> keyRecipeFile s' = keyRecipeFile blank_bufs @ concat ks \<and>
     ks = map (\<lambda>d. client_fp dae_cfg (rsa_signature small_rsa (client_fp dae_cfg d))) [[1, 2, 3], [1, 2, 3]] \<and>
     map Inr es = map (\<lambda>d. Crypto_EncryptWithKey (cfg_evp dae_cfg) (cfg_tool dae_cfg) d (client_fp dae_cfg (rsa_signature small_rsa (client_fp dae_cfg d)))) [[1, 2, 3], [1, 2, 3]]"
  by (rule DupLESS_keys_from_content [OF two_chunks_pending blank_bufs_ready])
    (simp add: dupless_ok_def dae_cfg_ok small_rsa_ok blank_msg_def)

text \<open>
  When a drawn number has no inverse modulo \<open>n\<close>, which nothing checks, the key is the hash of zeros, whatever the chunk is and
  whatever the manager answers.
\<close>

theorem DupLESS_no_inverse:
  assumes "bn_inverse R r (rsa_n R) = None" and "0 < rsa_n R"
  shows "Elimination R (blind_inverse R r) y = Inr (replicate RSA_KEY_SIZE 0)"
proof -
  have "le_bytes n 0 = replicate n 0" for n by (induction n) simp_all
  then show ?thesis using assms by (simp add: Elimination_def blind_inverse_def BN_bn2bin_def)
qed

end
