(* ===== verification/BaseClient.thy ===== *)
theory BaseClient
  imports KeyManager
begin

text \<open>
  The client of \<open>src/Baseline\<close> around the key generation: \<open>DataSender\<close> (\<open>Client/dataSender.cc\<close>) collects plain
  chunks, has a batch encrypted and sends cipher chunks and the key recipe; \<open>DataRetriever\<close>
  (\<open>Client/dataRetriever.cc\<close>) reads the keys of a batch from the client's key recipe file and opens the chunks. The
  chunker and the writer are those of the prototype.
\<close>

section \<open>Sending\<close>

text \<open>\<open>'k\<close> is the state of the key generation object (\<open>AbsDAE\<close>) with its key manager.\<close>

record 'k base_sender =
  plainBuf :: net_msg
  bufs :: dae_bufs
  daeObj :: 'k
  b_wire :: "net_msg list"
  b_closed :: bool
  chunkBatchNum :: u64
  recipeBatchNum :: u64

definition BaseSender_new :: "u32 \<Rightarrow> 'k \<Rightarrow> 'k base_sender" where
  "BaseSender_new cid k =
     \<lparr>plainBuf = blank_msg cid, bufs = \<lparr>cipherBuf = blank_msg cid, recipeBuf = blank_msg cid, tmpRecipe = 0, keyRecipeFile = []\<rparr>,
      daeObj = k, b_wire = [], b_closed = False, chunkBatchNum = 0, recipeBatchNum = 0\<rparr>"

definition base_send :: "(net_msg \<Rightarrow> bool) \<Rightarrow> string \<Rightarrow> net_msg \<Rightarrow> 'k base_sender \<Rightarrow> 'k base_sender res" where
  "base_send can_send msg m s =
     (if b_closed s then Inl (Undefined ''use of a closed connection'')
      else if can_send (on_wire m) then Inr (s\<lparr>b_wire := b_wire s @ [on_wire m]\<rparr>) else Inl (ProcExit msg))"

definition SendRecipes :: "(net_msg \<Rightarrow> bool) \<Rightarrow> 'k base_sender \<Rightarrow> 'k base_sender res" where
  "SendRecipes can_send s =
     (let m = (recipeBuf (bufs s))\<lparr>messageType := CLIENT_UPLOAD_RECIPE\<rparr> in
      rbind (base_send can_send ''send the recipe batch error.'' m s) (\<lambda>s1.
        Inr (s1\<lparr>bufs := (bufs s1)\<lparr>recipeBuf := m\<lparr>currentItemNum := 0, dataSize := 0\<rparr>\<rparr>, recipeBatchNum := recipeBatchNum s1 + 1\<rparr>)))"

definition Base_SendChunks :: "(net_msg \<Rightarrow> bool) \<Rightarrow> 'k base_sender \<Rightarrow> 'k base_sender res" where
  "Base_SendChunks can_send s =
     (let m = (cipherBuf (bufs s))\<lparr>messageType := CLIENT_UPLOAD_CHUNK\<rparr> in
      rbind (base_send can_send ''send the chunk batch error.'' m s) (\<lambda>s1.
        Inr (s1\<lparr>bufs := (bufs s1)\<lparr>cipherBuf := m\<lparr>currentItemNum := 0, dataSize := 0\<rparr>\<rparr>, chunkBatchNum := chunkBatchNum s1 + 1\<rparr>)))"

text \<open>The fingerprint of each cipher chunk goes behind its key.\<close>

definition recipe_entry_hash :: "enclave_cfg \<Rightarrow> bytes \<Rightarrow> nat \<Rightarrow> nat \<Rightarrow> bytes \<times> nat \<Rightarrow> (bytes \<times> nat) res" where
  "recipe_entry_hash C cipher pos i st =
     (let (recipe, offset) = st in
      rbind (read_chunk cipher offset) (\<lambda>(x, offset').
      rbind (Crypto_GenerateHash (cfg_evp C) (cfg_tool C) x) (\<lambda>h.
        if sendRecipeBatchSize C * KeyRecipeEntry_size < pos + i * KeyRecipeEntry_size + KeyRecipeEntry_size then Inl (Undefined ''key recipe buffer overflow'')
        else Inr (memcpy_at recipe (pos + i * KeyRecipeEntry_size + CHUNK_HASH_SIZE) h, offset'))))"

definition GenerateRecipe :: "enclave_cfg \<Rightarrow> 'k base_sender \<Rightarrow> 'k base_sender res" where
  "GenerateRecipe C s =
     (let c = cipherBuf (bufs s); r = recipeBuf (bufs s); chunkNum = unat (currentItemNum c) in
      rbind (rfold (recipe_entry_hash C (dataBuffer c) (unat (dataSize r))) [0..<chunkNum] (dataBuffer r, 0)) (\<lambda>(b, off).
        Inr (s\<lparr>bufs := (bufs s)\<lparr>recipeBuf := r\<lparr>dataBuffer := b, currentItemNum := currentItemNum r + currentItemNum c,
                                              dataSize := dataSize r + currentItemNum c * of_nat KeyRecipeEntry_size\<rparr>\<rparr>\<rparr>)))"

text \<open>\<open>process\<close> is \<open>ProcessBatchChunk\<close> of the key generation object.\<close>

definition encrypt_batch ::
  "enclave_cfg \<Rightarrow> (net_msg \<Rightarrow> dae_bufs \<times> 'k \<Rightarrow> (dae_bufs \<times> 'k) res) \<Rightarrow> 'k base_sender \<Rightarrow> 'k base_sender res" where
  "encrypt_batch C process s =
     (if currentItemNum (plainBuf s) \<noteq> 0 then
        rbind (process (plainBuf s) (bufs s, daeObj s)) (\<lambda>(b, k). GenerateRecipe C (s\<lparr>bufs := b, daeObj := k\<rparr>))
      else Inr s)"

definition Base_ProcessChunkBatch ::
  "enclave_cfg \<Rightarrow> (net_msg \<Rightarrow> bool) \<Rightarrow> (net_msg \<Rightarrow> dae_bufs \<times> 'k \<Rightarrow> (dae_bufs \<times> 'k) res) \<Rightarrow> 'k base_sender \<Rightarrow> 'k base_sender res" where
  "Base_ProcessChunkBatch C can_send process s =
     rbind (encrypt_batch C process s) (\<lambda>s1.
     rbind (if unat (currentItemNum (recipeBuf (bufs s1))) mod sendRecipeBatchSize C = 0 then SendRecipes can_send s1 else Inr s1) (\<lambda>s2.
       if unat (currentItemNum (cipherBuf (bufs s2))) mod sendChunkBatchSize C = 0 then Base_SendChunks can_send s2 else Inr s2))"

definition AddChunkToPlainBuffer :: "enclave_cfg \<Rightarrow> bytes \<Rightarrow> 'k base_sender \<Rightarrow> 'k base_sender res" where
  "AddChunkToPlainBuffer C d s =
     (if sendChunkBatchSize C * Chunk_size < unat (dataSize (plainBuf s)) + 4 + length d then Inl (Undefined ''plain chunk buffer overflow'')
      else Inr (s\<lparr>plainBuf := append_chunk d (plainBuf s)\<rparr>))"

definition Base_ProcessRecipeEnd ::
  "enclave_cfg \<Rightarrow> (net_msg \<Rightarrow> bool) \<Rightarrow> (net_msg \<Rightarrow> dae_bufs \<times> 'k \<Rightarrow> (dae_bufs \<times> 'k) res) \<Rightarrow> file_recipe_head \<Rightarrow> 'k base_sender \<Rightarrow> 'k base_sender res" where
  "Base_ProcessRecipeEnd C can_send process recipeHead s =
     rbind (encrypt_batch C process s) (\<lambda>s1.
     rbind (if currentItemNum (recipeBuf (bufs s1)) \<noteq> 0 then SendRecipes can_send s1 else Inr s1) (\<lambda>s2.
     rbind (if currentItemNum (cipherBuf (bufs s2)) \<noteq> 0 then Base_SendChunks can_send s2 else Inr s2) (\<lambda>s3.
       let c = cipherBuf (bufs s3);
           m = c\<lparr>messageType := CLIENT_UPLOAD_RECIPE_END, dataSize := 16, dataBuffer := memcpy_at (dataBuffer c) 0 (FileRecipeHead_bytes recipeHead)\<rparr>
       in base_send can_send ''send the recipe end error.'' m (s3\<lparr>bufs := (bufs s3)\<lparr>cipherBuf := m\<rparr>\<rparr>))))"

definition BaseSender_item ::
  "enclave_cfg \<Rightarrow> (net_msg \<Rightarrow> bool) \<Rightarrow> (net_msg \<Rightarrow> dae_bufs \<times> 'k \<Rightarrow> (dae_bufs \<times> 'k) res) \<Rightarrow> data_item \<Rightarrow> 'k base_sender \<Rightarrow> 'k base_sender res" where
  "BaseSender_item C can_send process it s =
     (case it of
        DATA_CHUNK d \<Rightarrow>
          rbind (AddChunkToPlainBuffer C d s) (\<lambda>s1.
            if unat (currentItemNum (plainBuf s1)) mod sendChunkBatchSize C = 0 then
              rbind (Base_ProcessChunkBatch C can_send process s1) (\<lambda>s2. Inr (s2\<lparr>plainBuf := (plainBuf s2)\<lparr>dataSize := 0, currentItemNum := 0\<rparr>\<rparr>))
            else Inr s1)
      | RECIPE_END h \<Rightarrow> rbind (Base_ProcessRecipeEnd C can_send process h s) (\<lambda>s1. Inr (s1\<lparr>b_closed := True\<rparr>)))"

definition BaseSender_Run ::
  "enclave_cfg \<Rightarrow> (net_msg \<Rightarrow> bool) \<Rightarrow> (net_msg \<Rightarrow> dae_bufs \<times> 'k \<Rightarrow> (dae_bufs \<times> 'k) res) \<Rightarrow> data_item list \<Rightarrow> 'k base_sender \<Rightarrow> 'k base_sender res" where
  "BaseSender_Run C can_send process items s = rfold (BaseSender_item C can_send process) items s"

section \<open>Receiving\<close>

text \<open>\<open>keyFile\<close> is what is left of the client's key recipe file; a read at its end leaves older keys in the buffer.\<close>

record base_retriever =
  keyFile :: bytes
  readKeyBuffer :: bytes
  br_head :: file_recipe_head
  br_dataSize :: u64
  br_chunkNum :: u64
  br_out :: "bytes list"
  br_done :: bool

definition BaseRetriever_new :: "bytes \<Rightarrow> file_recipe_head \<Rightarrow> base_retriever" where
  "BaseRetriever_new f h = \<lparr>keyFile = f, readKeyBuffer = [], br_head = h, br_dataSize = 0, br_chunkNum = 0, br_out = [], br_done = False\<rparr>"

definition open_next :: "enclave_cfg \<Rightarrow> dae_type \<Rightarrow> bytes \<Rightarrow> nat \<Rightarrow> base_retriever \<times> nat \<Rightarrow> (base_retriever \<times> nat) res" where
  "open_next C methodType buf i st =
     (let (s, offset) = st in
      rbind (read_chunk buf offset) (\<lambda>(x, offset').
        if unat MAX_CHUNK_SIZE < length x then Inl (Undefined ''chunk buffer overflow'')
        else if length (readKeyBuffer s) < i * CHUNK_HASH_SIZE + CHUNK_HASH_SIZE then Inl (Undefined ''read of uninitialised memory'')
        else rbind (open_chunk C methodType (read_at (readKeyBuffer s) (i * CHUNK_HASH_SIZE) CHUNK_HASH_SIZE) x) (\<lambda>d.
          Inr (s\<lparr>br_out := br_out s @ [d], br_dataSize := br_dataSize s + of_nat (length x), br_chunkNum := br_chunkNum s + 1\<rparr>, offset'))))"

definition Base_OpenChunkBatch :: "enclave_cfg \<Rightarrow> dae_type \<Rightarrow> net_msg \<Rightarrow> base_retriever \<Rightarrow> base_retriever res" where
  "Base_OpenChunkBatch C methodType m s =
     (let n = unat (currentItemNum m) * CHUNK_HASH_SIZE;
          s1 = s\<lparr>readKeyBuffer := memcpy_at (readKeyBuffer s) 0 (take n (keyFile s)), keyFile := drop n (keyFile s)\<rparr> in
      if sendChunkBatchSize C < unat (currentItemNum m) then Inl (Undefined ''key buffer overflow'')
      else rbind (rfold (open_next C methodType (dataBuffer m)) [0..<unat (currentItemNum m)] (s1, 0)) (\<lambda>(s2, off). Inr s2))"

text \<open>
  \<open>None\<close>: all messages that there are have been read and none of them was the final one, so the client
  waits in \<open>ReceiveData\<close>, and so does the server, for the client to close the connection.
\<close>

fun base_retrieve_loop :: "enclave_cfg \<Rightarrow> dae_type \<Rightarrow> net_msg list \<Rightarrow> base_retriever \<Rightarrow> base_retriever option res" where
  "base_retrieve_loop C methodType [] s = Inr None"
| "base_retrieve_loop C methodType (m # ms) s =
     (case messageType m of
        SERVER_RESTORE_CHUNK \<Rightarrow> rbind (Base_OpenChunkBatch C methodType m s) (base_retrieve_loop C methodType ms)
      | SERVER_RESTORE_FINAL \<Rightarrow> rbind (Base_OpenChunkBatch C methodType m s) (\<lambda>s1. Inr (Some (s1\<lparr>br_done := True\<rparr>)))
      | _ \<Rightarrow> Inl (ProcExit ''wrong recv msg type.''))"

definition BaseRetriever_Run :: "enclave_cfg \<Rightarrow> dae_type \<Rightarrow> net_msg list \<Rightarrow> base_retriever \<Rightarrow> base_retriever option res" where
  "BaseRetriever_Run C methodType ms s =
     rbind (base_retrieve_loop C methodType ms s) (\<lambda>r.
       case r of
         None \<Rightarrow> Inr None
       | Some s1 \<Rightarrow> if br_chunkNum s1 \<noteq> totalChunkNum (br_head s1) then Inl (ProcExit ''recv chunk num cannot match.'') else Inr (Some s1))"

section \<open>The key recipe buffer\<close>

definition recipe_entry_of :: "enclave_cfg \<Rightarrow> bytes \<times> bytes \<Rightarrow> bytes" where
  "recipe_entry_of C ke = fst ke @ client_fp C (snd ke)"

lemma entries_at_concat:
  assumes "entries_at st st old pos xs buf" and "pos \<le> length old"
  shows "take (pos + length xs * st) buf = take pos old @ concat xs"
  using assms(1)
proof (induction xs rule: rev_induct)
  case Nil
  then show ?case by (simp add: entries_at_def)
next
  case (snoc x xs)
  have "entries_at st st old pos xs buf" unfolding entries_at_def
  proof (intro conjI allI impI)
    show "take pos buf = take pos old" using snoc.prems by (simp add: entries_at_def)
    fix i assume "i < length xs"
    then have "pos + i * st + st \<le> length buf \<and> read_at buf (pos + i * st) st = (xs @ [x]) ! i" using snoc.prems unfolding entries_at_def by auto
    then show "pos + i * st + st \<le> length buf" "read_at buf (pos + i * st) st = xs ! i" using \<open>i < length xs\<close> by (simp_all add: nth_append)
  qed
  then have "take (pos + length xs * st) buf = take pos old @ concat xs" by (rule snoc.IH)
  moreover have "read_at buf (pos + length xs * st) st = x" using snoc.prems by (auto simp: entries_at_def)
  moreover have "take (pos + length xs * st + st) buf = take (pos + length xs * st) buf @ read_at buf (pos + length xs * st) st"
    by (simp add: read_at_def take_add)
  ultimately show ?case by (simp add: algebra_simps)
qed

lemma recipe_hashes:
  assumes C: "client_ok C" and p: "pending c es" and k: "keys_at old pos ks buf" and l: "length ks = length es" "\<forall>k \<in> set ks. key_ok k" "pos \<le> length old"
    and room: "pos + length es * KeyRecipeEntry_size \<le> sendRecipeBatchSize C * KeyRecipeEntry_size"
  shows "\<exists>b. rfold (recipe_entry_hash C (dataBuffer c) pos) [0..<length es] (buf, 0) = Inr (b, length (encode_chunks es)) \<and>
     entries_at KeyRecipeEntry_size KeyRecipeEntry_size old pos (map (recipe_entry_of C) (zip ks es)) b"
proof -
  let ?E = "map (recipe_entry_of C) (zip ks es)" and ?S = KeyRecipeEntry_size and ?H = CHUNK_HASH_SIZE
  have S: "?S = ?H + ?H" by (simp add: KeyRecipeEntry_size_def)
  have le: "?E ! i = ks ! i @ client_fp C (es ! i)" "length (ks ! i) = ?H" if "i < length es" for i
    using that l by (simp_all add: recipe_entry_of_def key_ok_def)
  have "\<exists>b. rfold (recipe_entry_hash C (dataBuffer c) pos) [0..<m] (buf, 0) = Inr (b, length (encode_chunks (take m es))) \<and>
      entries_at ?S ?S old pos (take m ?E) b \<and> (\<forall>j. m \<le> j \<and> j < length es \<longrightarrow> pos + j * ?S + ?H \<le> length b \<and> read_at b (pos + j * ?S) ?H = ks ! j)"
    if "m \<le> length es" for m
    using that
  proof (induction m)
    case 0
    then show ?case using k l(1) by (simp add: entries_at_def)
  next
    case (Suc m)
    then obtain b where b: "rfold (recipe_entry_hash C (dataBuffer c) pos) [0..<m] (buf, 0) = Inr (b, length (encode_chunks (take m es)))"
        "entries_at ?S ?S old pos (take m ?E) b" "\<forall>j. m \<le> j \<and> j < length es \<longrightarrow> pos + j * ?S + ?H \<le> length b \<and> read_at b (pos + j * ?S) ?H = ks ! j" by auto
    have m: "m < length es" using Suc.prems by simp
    let ?h = "client_fp C (es ! m)" and ?q = "pos + m * ?S"
    let ?b = "memcpy_at b (?q + ?H) ?h"
    have h: "length ?h = ?H" using client_fp_eq(3) [OF C] .
    have bm: "?q + ?H \<le> length b" "read_at b ?q ?H = ks ! m" using b(3) m by simp_all
    have "Suc m * ?S \<le> length es * ?S" using Suc.prems by (intro mult_le_mono1) simp
    then have "recipe_entry_hash C (dataBuffer c) pos m (b, length (encode_chunks (take m es))) = Inr (?b, length (encode_chunks (take (Suc m) es)))"
      using read_pending_chunk [OF p m] room by (simp add: recipe_entry_hash_def client_fp_eq [OF C] add.assoc)
    moreover have "entries_at ?S ?S old pos (take m ?E @ [?E ! m]) ?b"
    proof -
      have mem: "?b = memcpy_at b ?q (?E ! m)"
      proof -
        have "take (?q + ?H) b = take ?q b @ ks ! m" using bm(2) by (simp add: read_at_def take_add)
        then show ?thesis using bm(1) le [OF m] h by (simp add: memcpy_at_def add.assoc)
      qed
      have "length (take m ?E) = m" using m l(1) by simp
      moreover have "length (?E ! m) = ?S" using le [OF m] h S by simp
      ultimately show ?thesis using entries_at_snoc [OF b(2) _ l(3) order_refl, of "?E ! m"] by (simp add: mem)
    qed
    moreover have "take (Suc m) ?E = take m ?E @ [?E ! m]" using m l(1) by (simp add: take_Suc_conv_app_nth)
    moreover have "pos + j * ?S + ?H \<le> length ?b \<and> read_at ?b (pos + j * ?S) ?H = ks ! j" if j: "Suc m \<le> j" "j < length es" for j
    proof -
      have "m * ?S + ?S \<le> j * ?S" using j(1) mult_le_mono1 [of "Suc m" j ?S] by simp
      then have "?q + ?H + length ?h \<le> pos + j * ?S" using h S by simp
      then have "drop (pos + j * ?S) ?b = drop (pos + j * ?S) b" using bm(1) by (simp add: memcpy_at_def add.commute)
      then show ?thesis using b(3) j by (simp add: read_at_def max.coboundedI1)
    qed
    ultimately show ?case using b(1) by (intro exI [of _ ?b]) (simp add: rfold_append)
  qed
  from this [OF order_refl] l(1) show ?thesis by fastforce
qed

section \<open>What the sender puts on the wire\<close>

definition base_chunk_msg :: "enclave_cfg \<Rightarrow> net_msg \<Rightarrow> bytes list \<Rightarrow> bool" where
  "base_chunk_msg C m es \<longleftrightarrow> messageType m = CLIENT_UPLOAD_CHUNK \<and> dataBuffer m = encode_chunks es \<and> unat (currentItemNum m) = length es \<and>
     (\<forall>e \<in> set es. length e \<le> unat MAX_CHUNK_SIZE)"

text \<open>The cipher chunks and the key recipe in a sequence of messages.\<close>

definition base_sent :: "enclave_cfg \<Rightarrow> net_msg list \<Rightarrow> bytes list \<Rightarrow> bytes \<Rightarrow> bool" where
  "base_sent C ms es kr \<longleftrightarrow> (\<forall>m \<in> set ms. on_wire m = m \<and> (messageType m = CLIENT_UPLOAD_CHUNK \<or> messageType m = CLIENT_UPLOAD_RECIPE)) \<and>
     (\<exists>ess. list_all2 (base_chunk_msg C) (filter (\<lambda>m. messageType m = CLIENT_UPLOAD_CHUNK) ms) ess \<and> concat ess = es) \<and>
     concat (map dataBuffer (filter (\<lambda>m. messageType m = CLIENT_UPLOAD_RECIPE) ms)) = kr"

definition recipe_pending :: "bytes list \<Rightarrow> net_msg \<Rightarrow> bool" where
  "recipe_pending rs m \<longleftrightarrow> unat (currentItemNum m) = length rs \<and> unat (dataSize m) = length rs * KeyRecipeEntry_size \<and>
     length rs * KeyRecipeEntry_size \<le> length (dataBuffer m) \<and> take (length rs * KeyRecipeEntry_size) (dataBuffer m) = concat rs"

definition sizes_ok :: "enclave_cfg \<Rightarrow> bool" where
  "sizes_ok C \<longleftrightarrow> client_ok C \<and> 0 < sendChunkBatchSize C \<and> sendChunkBatchSize C * Chunk_size < 2 ^ 32 \<and> 0 < sendRecipeBatchSize C \<and>
     sendRecipeBatchSize C * KeyRecipeEntry_size < 2 ^ 32 \<and> sendChunkBatchSize C dvd sendRecipeBatchSize C"

lemma base_sent_snoc:
  "base_sent C ms es kr \<Longrightarrow> on_wire m = m \<Longrightarrow> base_chunk_msg C m cs \<Longrightarrow> base_sent C (ms @ [m]) (es @ cs) kr"
  "base_sent C ms es kr \<Longrightarrow> on_wire m = m \<Longrightarrow> messageType m = CLIENT_UPLOAD_RECIPE \<Longrightarrow> base_sent C (ms @ [m]) es (kr @ dataBuffer m)"
proof -
  assume s: "base_sent C ms es kr" and w: "on_wire m = m" and m: "base_chunk_msg C m cs"
  from s obtain ess where e: "list_all2 (base_chunk_msg C) (filter (\<lambda>m. messageType m = CLIENT_UPLOAD_CHUNK) ms) ess" "concat ess = es"
    unfolding base_sent_def by blast
  have "list_all2 (base_chunk_msg C) (filter (\<lambda>m. messageType m = CLIENT_UPLOAD_CHUNK) (ms @ [m])) (ess @ [cs])"
    using e(1) m by (simp add: list_all2_appendI base_chunk_msg_def)
  with s w m e(2) show "base_sent C (ms @ [m]) (es @ cs) kr" unfolding base_sent_def
    by (auto simp: base_chunk_msg_def intro!: exI [of _ "ess @ [cs]"])
qed (auto simp: base_sent_def)

lemma SendRecipes_ok:
  assumes r: "recipe_pending rs (recipeBuf (bufs s))" and o: "\<not> b_closed s" and snd: "\<forall>m. can_send m" and b: "base_sent C (b_wire s) es kr"
  shows "\<exists>m c n. SendRecipes can_send s = Inr (s\<lparr>b_wire := b_wire s @ [m], bufs := (bufs s)\<lparr>recipeBuf := c\<rparr>, recipeBatchNum := n\<rparr>) \<and>
     base_sent C (b_wire s @ [m]) es (kr @ concat rs) \<and> recipe_pending [] c"
proof -
  let ?m = "(recipeBuf (bufs s))\<lparr>messageType := CLIENT_UPLOAD_RECIPE\<rparr>"
  let ?c = "?m\<lparr>currentItemNum := 0, dataSize := 0\<rparr>"
  have d: "dataBuffer (on_wire ?m) = concat rs" using r by (simp add: on_wire_def recipe_pending_def)
  have "messageType (on_wire ?m) = CLIENT_UPLOAD_RECIPE" by (simp add: on_wire_def)
  from base_sent_snoc(2) [OF b on_wire_idem this] have "base_sent C (b_wire s @ [on_wire ?m]) es (kr @ concat rs)" unfolding d .
  moreover have "SendRecipes can_send s = Inr (s\<lparr>b_wire := b_wire s @ [on_wire ?m], bufs := (bufs s)\<lparr>recipeBuf := ?c\<rparr>, recipeBatchNum := recipeBatchNum s + 1\<rparr>)"
    using o snd by (simp add: SendRecipes_def base_send_def Let_def)
  moreover have "recipe_pending [] ?c" by (simp add: recipe_pending_def)
  ultimately show ?thesis by blast
qed

lemma Base_SendChunks_ok:
  assumes p: "pending (cipherBuf (bufs s)) cs" and o: "\<not> b_closed s" and snd: "\<forall>m. can_send m" and b: "base_sent C (b_wire s) es kr"
  shows "\<exists>m c n. Base_SendChunks can_send s = Inr (s\<lparr>b_wire := b_wire s @ [m], bufs := (bufs s)\<lparr>cipherBuf := c\<rparr>, chunkBatchNum := n\<rparr>) \<and>
     base_sent C (b_wire s @ [m]) (es @ cs) kr \<and> pending c []"
proof -
  let ?m = "(cipherBuf (bufs s))\<lparr>messageType := CLIENT_UPLOAD_CHUNK\<rparr>"
  let ?c = "?m\<lparr>currentItemNum := 0, dataSize := 0\<rparr>"
  have "base_chunk_msg C (on_wire ?m) cs" using p by (simp add: base_chunk_msg_def on_wire_def pending_def)
  from base_sent_snoc(1) [OF b on_wire_idem this] have "base_sent C (b_wire s @ [on_wire ?m]) (es @ cs) kr" .
  moreover have "Base_SendChunks can_send s = Inr (s\<lparr>b_wire := b_wire s @ [on_wire ?m], bufs := (bufs s)\<lparr>cipherBuf := ?c\<rparr>, chunkBatchNum := chunkBatchNum s + 1\<rparr>)"
    using o snd by (simp add: Base_SendChunks_def base_send_def Let_def)
  moreover have "pending ?c []" by (simp add: pending_def)
  ultimately show ?thesis by blast
qed

context dae
begin

text \<open>
  The chunks \<open>ds\<close> were encrypted to \<open>es\<close> under \<open>ks\<close>; their key recipe is \<open>kr\<close>, which was sent, and \<open>rs\<close>, which was not.
\<close>

definition sender_view :: "bytes list \<Rightarrow> bytes list \<Rightarrow> bytes \<Rightarrow> bytes list \<Rightarrow> bytes list \<Rightarrow> 'k base_sender \<Rightarrow> bool" where
  "sender_view ds rs kr ks es s \<longleftrightarrow> ok (daeObj s) \<and> \<not> b_closed s \<and> recipe_pending rs (recipeBuf (bufs s)) \<and> keyRecipeFile (bufs s) = concat ks \<and>
     length ks = length ds \<and> length es = length ds \<and> (\<forall>k \<in> set ks. key_ok k) \<and>
     list_all2 (\<lambda>(key, e) d. opens key e = Inr d \<and> length e = length d) (zip ks es) ds \<and>
     kr @ concat rs = concat (map (recipe_entry_of C) (zip ks es))"

lemma encrypt_batch_ok:
  assumes C: "sizes_ok C" and v: "sender_view ds rs kr ks es s" and p: "pending (plainBuf s) pend" "pending (cipherBuf (bufs s)) []"
    and l: "length pend \<le> sendChunkBatchSize C" "length rs + length pend \<le> sendRecipeBatchSize C"
  shows "\<exists>s' ks1 es1. encrypt_batch C process s = Inr s' \<and> sender_view (ds @ pend) (rs @ map (recipe_entry_of C) (zip ks1 es1)) kr (ks @ ks1) (es @ es1) s' \<and>
     pending (cipherBuf (bufs s')) es1 \<and> length es1 = length pend \<and> length ks1 = length pend \<and> plainBuf s' = plainBuf s \<and> b_wire s' = b_wire s"
proof (cases "pend = []")
  case True
  then have "currentItemNum (plainBuf s) = 0" using p(1) by (simp add: pending_def unat_eq_0)
  then show ?thesis using True v p(2) by (intro exI [of _ s] exI [of _ "[]"]) (simp add: encrypt_batch_def)
next
  case False
  let ?S = KeyRecipeEntry_size and ?r = "recipeBuf (bufs s)"
  have cok: "client_ok C" and B: "sendChunkBatchSize C * Chunk_size < 2 ^ 32" "sendRecipeBatchSize C * ?S < 2 ^ 32" using C by (simp_all add: sizes_ok_def)
  have rp: "unat (currentItemNum ?r) = length rs" "unat (dataSize ?r) = length rs * ?S" "length rs * ?S \<le> length (dataBuffer ?r)" "take (length rs * ?S) (dataBuffer ?r) = concat rs"
    using v by (simp_all add: sender_view_def recipe_pending_def)
  have room: "length rs * ?S + length pend * ?S \<le> sendRecipeBatchSize C * ?S" using mult_le_mono1 [OF l(2), of ?S] by (simp add: add_mult_distrib)
  have rdy: "dae_ready C pend (bufs s)" using l(1) B(1) p(2) rp room by (simp add: dae_ready_def)
  have okk: "ok (daeObj s)" using v by (simp add: sender_view_def)
  from process_ok [OF p(1) rdy okk] obtain b k ks1 es1 where r: "process (plainBuf s) (bufs s, daeObj s) = Inr (b, k)" "ok k" "dae_result C (bufs s) pend ks1 es1 b"
      "list_all2 (\<lambda>(key, e) d. opens key e = Inr d \<and> length e = length d) (zip ks1 es1) pend" by blast
  have dr: "length ks1 = length pend" "length es1 = length pend" "\<forall>k \<in> set ks1. key_ok k" "pending (cipherBuf b) es1" "keyRecipeFile b = keyRecipeFile (bufs s) @ concat ks1"
      "same_header ?r (recipeBuf b)" "keys_at (dataBuffer ?r) (length rs * ?S) ks1 (dataBuffer (recipeBuf b))"
    using r(3) rp(2) by (simp_all add: dae_result_def)
  from recipe_hashes [OF cok dr(4,7) _ dr(3) rp(3)] dr(1,2) room obtain rb where
    rb: "rfold (recipe_entry_hash C (dataBuffer (cipherBuf b)) (length rs * ?S)) [0..<length es1] (dataBuffer (recipeBuf b), 0) = Inr (rb, length (encode_chunks es1))"
      "entries_at ?S ?S (dataBuffer ?r) (length rs * ?S) (map (recipe_entry_of C) (zip ks1 es1)) rb" by auto
  let ?E = "map (recipe_entry_of C) (zip ks1 es1)"
  have n: "unat (currentItemNum (cipherBuf b)) = length es1" using dr(4) by (simp add: pending_def)
  have lE: "length ?E = length pend" using dr(1,2) by simp
  let ?q = "(recipeBuf b)\<lparr>dataBuffer := rb, currentItemNum := currentItemNum (recipeBuf b) + currentItemNum (cipherBuf b),
      dataSize := dataSize (recipeBuf b) + currentItemNum (cipherBuf b) * of_nat ?S\<rparr>"
  let ?s = "s\<lparr>bufs := b\<lparr>recipeBuf := ?q\<rparr>, daeObj := k\<rparr>"
  have hd: "unat (currentItemNum (recipeBuf b)) = length rs" "unat (dataSize (recipeBuf b)) = length rs * ?S" using dr(6) rp(1,2) by (simp_all add: same_header_def)
  have gen: "encrypt_batch C process s = Inr ?s"
  proof -
    have "currentItemNum (plainBuf s) \<noteq> 0" using p(1) False by (auto simp: pending_def)
    then show ?thesis using r(1) rb(1) n hd(2) by (simp add: encrypt_batch_def GenerateRecipe_def Let_def)
  qed
  have "recipe_pending (rs @ ?E) ?q"
  proof -
    have tk: "take (length rs * ?S + length ?E * ?S) rb = concat rs @ concat ?E" using entries_at_concat [OF rb(2) rp(3)] rp(4) by simp
    have len: "length rs * ?S + length ?E * ?S \<le> length rb"
    proof -
      have "length ?E - 1 < length ?E" using lE False by simp
      then have "length rs * ?S + (length ?E - 1) * ?S + ?S \<le> length rb" using rb(2) unfolding entries_at_def by blast
      moreover have "(length ?E - 1) * ?S + ?S = length ?E * ?S" using lE False by (cases "length ?E") auto
      ultimately show ?thesis by linarith
    qed
    have num: "unat (currentItemNum (recipeBuf b) + currentItemNum (cipherBuf b)) = length rs + length pend"
    proof -
      have "length rs + length pend < 2 ^ 32" using l(2) B(2) by (simp add: const_defs)
      then show ?thesis using hd(1) n dr(2) by (subst unat_add_u32) simp_all
    qed
    have "length pend * ?S < 2 ^ 32" using room B(2) by linarith
    then have "unat (currentItemNum (cipherBuf b) * of_nat ?S) = length pend * ?S"
      using n dr(2) by (simp add: unat_word_ariths const_defs)
    then have "unat (dataSize (recipeBuf b) + currentItemNum (cipherBuf b) * of_nat ?S) = length rs * ?S + length pend * ?S"
      using hd(2) room B(2) by (subst unat_add_u32) simp_all
    then show ?thesis using tk len num lE by (simp add: recipe_pending_def add_mult_distrib)
  qed
  moreover have "list_all2 (\<lambda>(key, e) d. opens key e = Inr d \<and> length e = length d) (zip (ks @ ks1) (es @ es1)) (ds @ pend)"
    using v r(4) dr(1,2) by (simp add: sender_view_def list_all2_appendI)
  ultimately have "sender_view (ds @ pend) (rs @ ?E) kr (ks @ ks1) (es @ es1) ?s"
    using v r(2) dr(1-3,5) by (auto simp: sender_view_def simp flip: append_assoc)
  with gen dr(1,2,4) show ?thesis by (intro exI [of _ ?s] exI [of _ ks1] exI [of _ es1]) simp
qed

lemma flush_recipe:
  assumes v: "sender_view ds rs kr ks es s" and b: "base_sent C (b_wire s) es0 kr" and snd: "\<forall>m. can_send m"
  shows "\<exists>s'. SendRecipes can_send s = Inr s' \<and> sender_view ds [] (kr @ concat rs) ks es s' \<and> base_sent C (b_wire s') es0 (kr @ concat rs) \<and>
     cipherBuf (bufs s') = cipherBuf (bufs s) \<and> plainBuf s' = plainBuf s"
proof -
  have "recipe_pending rs (recipeBuf (bufs s))" "\<not> b_closed s" using v by (simp_all add: sender_view_def)
  from SendRecipes_ok [OF this snd b] obtain m c n where
    r: "SendRecipes can_send s = Inr (s\<lparr>b_wire := b_wire s @ [m], bufs := (bufs s)\<lparr>recipeBuf := c\<rparr>, recipeBatchNum := n\<rparr>)"
      "base_sent C (b_wire s @ [m]) es0 (kr @ concat rs)" "recipe_pending [] c" by blast
  then show ?thesis using v by (intro exI [of _ "s\<lparr>b_wire := b_wire s @ [m], bufs := (bufs s)\<lparr>recipeBuf := c\<rparr>, recipeBatchNum := n\<rparr>"]) (simp add: sender_view_def)
qed

lemma flush_chunks:
  assumes v: "sender_view ds rs kr ks es s" and b: "base_sent C (b_wire s) es0 kr" and p: "pending (cipherBuf (bufs s)) cs" and snd: "\<forall>m. can_send m"
  shows "\<exists>s'. Base_SendChunks can_send s = Inr s' \<and> sender_view ds rs kr ks es s' \<and> base_sent C (b_wire s') (es0 @ cs) kr \<and>
     pending (cipherBuf (bufs s')) [] \<and> plainBuf s' = plainBuf s"
proof -
  have "\<not> b_closed s" using v by (simp add: sender_view_def)
  from Base_SendChunks_ok [OF p this snd b] obtain m c n where
    r: "Base_SendChunks can_send s = Inr (s\<lparr>b_wire := b_wire s @ [m], bufs := (bufs s)\<lparr>cipherBuf := c\<rparr>, chunkBatchNum := n\<rparr>)"
      "base_sent C (b_wire s @ [m]) (es0 @ cs) kr" "pending c []" by blast
  then show ?thesis using v by (intro exI [of _ "s\<lparr>b_wire := b_wire s @ [m], bufs := (bufs s)\<lparr>cipherBuf := c\<rparr>, chunkBatchNum := n\<rparr>"]) (simp add: sender_view_def)
qed

text \<open>Between two items: \<open>ds\<close> is on the wire, \<open>pend\<close> waits in the plain buffer.\<close>

definition sender_inv :: "bytes list \<Rightarrow> bytes list \<Rightarrow> 'k base_sender \<Rightarrow> bool" where
  "sender_inv ds pend s \<longleftrightarrow> pending (plainBuf s) pend \<and> length pend < sendChunkBatchSize C \<and> pending (cipherBuf (bufs s)) [] \<and>
     (\<exists>rs kr ks es. sender_view ds rs kr ks es s \<and> base_sent C (b_wire s) es kr \<and> length rs < sendRecipeBatchSize C \<and>
        sendChunkBatchSize C dvd length rs)"

lemma full_batch_ok:
  assumes C: "sizes_ok C" and v: "sender_view ds rs kr ks es s" "base_sent C (b_wire s) es kr" and p: "pending (plainBuf s) pend" "pending (cipherBuf (bufs s)) []"
    and l: "length pend = sendChunkBatchSize C" "length rs < sendRecipeBatchSize C" "sendChunkBatchSize C dvd length rs" and snd: "\<forall>m. can_send m"
  shows "\<exists>s' rs' kr' ks' es'. Base_ProcessChunkBatch C can_send process s = Inr s' \<and> sender_view (ds @ pend) rs' kr' ks' es' s' \<and>
     base_sent C (b_wire s') es' kr' \<and> pending (cipherBuf (bufs s')) [] \<and> length rs' < sendRecipeBatchSize C \<and> sendChunkBatchSize C dvd length rs'"
proof -
  let ?B = "sendChunkBatchSize C" and ?R = "sendRecipeBatchSize C"
  have dvd: "?B dvd ?R" "0 < ?B" "0 < ?R" using C by (simp_all add: sizes_ok_def)
  have room: "length rs + ?B \<le> ?R"
  proof -
    obtain i j where ij: "length rs = ?B * i" "?R = ?B * j" using dvd(1) l(3) by (auto elim!: dvdE)
    then have "Suc i \<le> j" using l(2) by simp
    then have "?B * Suc i \<le> ?B * j" by (rule mult_le_mono2)
    then show ?thesis using ij by simp
  qed
  from encrypt_batch_ok [OF C v(1) p] l(1) room obtain s1 ks1 es1 where
    s1: "encrypt_batch C process s = Inr s1" "sender_view (ds @ pend) (rs @ map (recipe_entry_of C) (zip ks1 es1)) kr (ks @ ks1) (es @ es1) s1"
      "pending (cipherBuf (bufs s1)) es1" "length es1 = ?B" "length ks1 = ?B" "plainBuf s1 = plainBuf s" "b_wire s1 = b_wire s" by auto
  let ?rs = "rs @ map (recipe_entry_of C) (zip ks1 es1)"
  have num: "unat (currentItemNum (recipeBuf (bufs s1))) = length ?rs" using s1(2) by (simp add: sender_view_def recipe_pending_def)
  have lrs: "length ?rs = length rs + ?B" using s1(4,5) by simp
  have b1: "base_sent C (b_wire s1) es kr" using v(2) s1(7) by simp
  have "\<exists>s2 rs' kr'. (if unat (currentItemNum (recipeBuf (bufs s1))) mod ?R = 0 then SendRecipes can_send s1 else Inr s1) = Inr s2 \<and>
      sender_view (ds @ pend) rs' kr' (ks @ ks1) (es @ es1) s2 \<and> base_sent C (b_wire s2) es kr' \<and> pending (cipherBuf (bufs s2)) es1 \<and>
      length rs' < ?R \<and> ?B dvd length rs'"
  proof (cases "length ?rs = ?R")
    case True
    from flush_recipe [OF s1(2) b1 snd] obtain s2 where "SendRecipes can_send s1 = Inr s2" "sender_view (ds @ pend) [] (kr @ concat ?rs) (ks @ ks1) (es @ es1) s2"
        "base_sent C (b_wire s2) es (kr @ concat ?rs)" "cipherBuf (bufs s2) = cipherBuf (bufs s1)" by blast
    then show ?thesis using True num s1(3) dvd(3) by (intro exI [of _ s2] exI [of _ "[]"] exI [of _ "kr @ concat ?rs"]) simp
  next
    case False
    then have "length ?rs < ?R" "0 < length ?rs" using room lrs dvd(2) by simp_all
    then show ?thesis using num s1(2,3) b1 l(3) lrs dvd(2) by (intro exI [of _ s1] exI [of _ ?rs] exI [of _ kr]) simp
  qed
  then obtain s2 rs' kr' where s2: "(if unat (currentItemNum (recipeBuf (bufs s1))) mod ?R = 0 then SendRecipes can_send s1 else Inr s1) = Inr s2"
      "sender_view (ds @ pend) rs' kr' (ks @ ks1) (es @ es1) s2" "base_sent C (b_wire s2) es kr'" "pending (cipherBuf (bufs s2)) es1" "length rs' < ?R" "?B dvd length rs'"
    by blast
  have "unat (currentItemNum (cipherBuf (bufs s2))) mod ?B = 0" using s2(4) s1(4) by (simp add: pending_def)
  moreover from flush_chunks [OF s2(2-4) snd] obtain s3 where "Base_SendChunks can_send s2 = Inr s3" "sender_view (ds @ pend) rs' kr' (ks @ ks1) (es @ es1) s3"
      "base_sent C (b_wire s3) (es @ es1) kr'" "pending (cipherBuf (bufs s3)) []" by blast
  ultimately show ?thesis using s1(1) s2 by (intro exI [of _ s3] exI [of _ rs'] exI [of _ kr'] exI [of _ "ks @ ks1"] exI [of _ "es @ es1"]) (simp add: Base_ProcessChunkBatch_def)
qed

lemma chunk_item_ok:
  assumes C: "sizes_ok C" and i: "sender_inv ds pend s" and d: "length d \<le> unat MAX_CHUNK_SIZE" and snd: "\<forall>m. can_send m"
  shows "\<exists>s' ds' pend'. BaseSender_item C can_send process (DATA_CHUNK d) s = Inr s' \<and> sender_inv ds' pend' s' \<and> ds' @ pend' = ds @ pend @ [d]"
proof -
  let ?B = "sendChunkBatchSize C" and ?s1 = "s\<lparr>plainBuf := append_chunk d (plainBuf s)\<rparr>"
  from i obtain rs kr ks es where v: "sender_view ds rs kr ks es s" "base_sent C (b_wire s) es kr" "length rs < sendRecipeBatchSize C" "?B dvd length rs"
    and p: "pending (plainBuf s) pend" "length pend < ?B" "pending (cipherBuf (bufs s)) []" unfolding sender_inv_def by blast
  have B: "?B * Chunk_size < 2 ^ 32" "0 < ?B" using C by (simp_all add: sizes_ok_def)
  note ap = append_chunk_pending [OF p(1) d p(2) B(1)]
  have add: "AddChunkToPlainBuffer C d s = Inr ?s1" using ap(2) by (simp add: AddChunkToPlainBuffer_def)
  have v1: "sender_view ds rs kr ks es ?s1" "base_sent C (b_wire ?s1) es kr" "pending (plainBuf ?s1) (pend @ [d])" "pending (cipherBuf (bufs ?s1)) []"
    using v p ap(1) by (simp_all add: sender_view_def)
  have num: "unat (currentItemNum (plainBuf ?s1)) = Suc (length pend)" using v1(3) by (simp add: pending_def)
  show ?thesis
  proof (cases "Suc (length pend) = ?B")
    case True
    then have len: "length (pend @ [d]) = ?B" by simp
    from full_batch_ok [OF C v1 len v(3,4) snd] obtain s2 rs' kr' ks' es' where
      s2: "Base_ProcessChunkBatch C can_send process ?s1 = Inr s2" "sender_view (ds @ pend @ [d]) rs' kr' ks' es' s2"
        "base_sent C (b_wire s2) es' kr'" "pending (cipherBuf (bufs s2)) []" "length rs' < sendRecipeBatchSize C" "?B dvd length rs'"
      by blast
    let ?s3 = "s2\<lparr>plainBuf := (plainBuf s2)\<lparr>dataSize := 0, currentItemNum := 0\<rparr>\<rparr>"
    have "sender_view (ds @ pend @ [d]) rs' kr' ks' es' ?s3" "pending (plainBuf ?s3) []" using s2(2) by (simp_all add: sender_view_def pending_def)
    then have "sender_inv (ds @ pend @ [d]) [] ?s3" unfolding sender_inv_def using s2(3-6) B(2) by auto
    moreover have "BaseSender_item C can_send process (DATA_CHUNK d) s = Inr ?s3" using add num True s2(1) by (simp add: BaseSender_item_def)
    ultimately show ?thesis by (intro exI [of _ ?s3] exI [of _ "ds @ pend @ [d]"] exI [of _ "[]"]) simp
  next
    case False
    then have lt: "length (pend @ [d]) < ?B" using p(2) by simp
    then have "sender_inv ds (pend @ [d]) ?s1" unfolding sender_inv_def using v1 v(3,4) by blast
    moreover have "BaseSender_item C can_send process (DATA_CHUNK d) s = Inr ?s1" using add num lt by (simp add: BaseSender_item_def)
    ultimately show ?thesis by blast
  qed
qed

lemma end_item_ok:
  assumes C: "sizes_ok C" and i: "sender_inv ds pend s" and snd: "\<forall>m. can_send m"
  shows "\<exists>s' ms em ks es. BaseSender_item C can_send process (RECIPE_END h) s = Inr s' \<and> b_wire s' = ms @ [em] \<and>
     base_sent C ms es (concat (map (recipe_entry_of C) (zip ks es))) \<and> messageType em = CLIENT_UPLOAD_RECIPE_END \<and> dataBuffer em = FileRecipeHead_bytes h \<and>
     keyRecipeFile (bufs s') = concat ks \<and> (\<forall>k \<in> set ks. key_ok k) \<and> length ks = length es \<and>
     list_all2 (\<lambda>(key, e) d. opens key e = Inr d \<and> length e = length d) (zip ks es) (ds @ pend)"
proof -
  let ?B = "sendChunkBatchSize C" and ?R = "sendRecipeBatchSize C"
  from i obtain rs kr ks es where v: "sender_view ds rs kr ks es s" "base_sent C (b_wire s) es kr" "length rs < ?R" "?B dvd length rs"
    and p: "pending (plainBuf s) pend" "length pend < ?B" "pending (cipherBuf (bufs s)) []" unfolding sender_inv_def by blast
  have room: "length rs + length pend \<le> ?R"
  proof -
    obtain i j where ij: "length rs = ?B * i" "?R = ?B * j" using C v(4) by (auto simp: sizes_ok_def elim!: dvdE)
    then have "Suc i \<le> j" using v(3) by simp
    then have "?B * Suc i \<le> ?B * j" by (rule mult_le_mono2)
    then show ?thesis using ij p(2) by simp
  qed
  from encrypt_batch_ok [OF C v(1) p(1,3) _ room] p(2) obtain s1 ks1 es1 where
    s1: "encrypt_batch C process s = Inr s1" "sender_view (ds @ pend) (rs @ map (recipe_entry_of C) (zip ks1 es1)) kr (ks @ ks1) (es @ es1) s1"
      "pending (cipherBuf (bufs s1)) es1" "b_wire s1 = b_wire s" by auto
  let ?rs = "rs @ map (recipe_entry_of C) (zip ks1 es1)"
  have b1: "base_sent C (b_wire s1) es kr" using v(2) s1(4) by simp
  have "\<exists>s2. (if currentItemNum (recipeBuf (bufs s1)) \<noteq> 0 then SendRecipes can_send s1 else Inr s1) = Inr s2 \<and>
      sender_view (ds @ pend) [] (kr @ concat ?rs) (ks @ ks1) (es @ es1) s2 \<and> base_sent C (b_wire s2) es (kr @ concat ?rs) \<and> pending (cipherBuf (bufs s2)) es1"
  proof (cases "currentItemNum (recipeBuf (bufs s1)) = 0")
    case True
    then have "length ?rs = 0" using s1(2) unfolding sender_view_def recipe_pending_def by (metis unat_0)
    then have "?rs = []" by blast
    then show ?thesis using True s1(2,3) b1 by (intro exI [of _ s1]) auto
  next
    case False
    from flush_recipe [OF s1(2) b1 snd] s1(3) False show ?thesis by auto
  qed
  then obtain s2 where s2: "(if currentItemNum (recipeBuf (bufs s1)) \<noteq> 0 then SendRecipes can_send s1 else Inr s1) = Inr s2"
      "sender_view (ds @ pend) [] (kr @ concat ?rs) (ks @ ks1) (es @ es1) s2" "base_sent C (b_wire s2) es (kr @ concat ?rs)" "pending (cipherBuf (bufs s2)) es1"
    by blast
  have "\<exists>s3. (if currentItemNum (cipherBuf (bufs s2)) \<noteq> 0 then Base_SendChunks can_send s2 else Inr s2) = Inr s3 \<and>
      sender_view (ds @ pend) [] (kr @ concat ?rs) (ks @ ks1) (es @ es1) s3 \<and> base_sent C (b_wire s3) (es @ es1) (kr @ concat ?rs)"
  proof (cases "currentItemNum (cipherBuf (bufs s2)) = 0")
    case True
    then have "es1 = []" using s2(4) by (simp add: pending_def)
    then show ?thesis using True s2(2,3) by simp
  next
    case False
    from flush_chunks [OF s2(2-4) snd] False show ?thesis by auto
  qed
  then obtain s3 where s3: "(if currentItemNum (cipherBuf (bufs s2)) \<noteq> 0 then Base_SendChunks can_send s2 else Inr s2) = Inr s3"
      "sender_view (ds @ pend) [] (kr @ concat ?rs) (ks @ ks1) (es @ es1) s3" "base_sent C (b_wire s3) (es @ es1) (kr @ concat ?rs)" by blast
  let ?c = "cipherBuf (bufs s3)"
  let ?m = "?c\<lparr>messageType := CLIENT_UPLOAD_RECIPE_END, dataSize := 16, dataBuffer := memcpy_at (dataBuffer ?c) 0 (FileRecipeHead_bytes h)\<rparr>"
  let ?s4 = "s3\<lparr>bufs := (bufs s3)\<lparr>cipherBuf := ?m\<rparr>, b_wire := b_wire s3 @ [on_wire ?m], b_closed := True\<rparr>"
  have "\<not> b_closed s3" using s3(2) by (simp add: sender_view_def)
  then have run: "BaseSender_item C can_send process (RECIPE_END h) s = Inr ?s4" using s1(1) s2(1) s3(1) snd
    by (simp add: BaseSender_item_def Base_ProcessRecipeEnd_def base_send_def Let_def)
  have em: "dataBuffer (on_wire ?m) = FileRecipeHead_bytes h" "messageType (on_wire ?m) = CLIENT_UPLOAD_RECIPE_END"
    by (simp_all add: on_wire_def FileRecipeHead_bytes_def memcpy_at_def)
  have "kr @ concat ?rs = concat (map (recipe_entry_of C) (zip (ks @ ks1) (es @ es1)))" using s3(2) by (simp add: sender_view_def)
  with s3(3) have "base_sent C (b_wire s3) (es @ es1) (concat (map (recipe_entry_of C) (zip (ks @ ks1) (es @ es1))))" by simp
  with run em s3(2) show ?thesis
    by (intro exI [of _ ?s4] exI [of _ "b_wire s3"] exI [of _ "on_wire ?m"] exI [of _ "ks @ ks1"] exI [of _ "es @ es1"]) (simp add: sender_view_def)
qed

lemma chunk_items_ok:
  assumes C: "sizes_ok C" and i: "sender_inv ds pend s" and d: "\<forall>d \<in> set cs. length d \<le> unat MAX_CHUNK_SIZE" and snd: "\<forall>m. can_send m"
  shows "\<exists>s' ds' pend'. rfold (BaseSender_item C can_send process) (map DATA_CHUNK cs) s = Inr s' \<and> sender_inv ds' pend' s' \<and> ds' @ pend' = ds @ pend @ cs"
  using i d
proof (induction cs arbitrary: ds pend s)
  case (Cons c cs)
  then have "length c \<le> unat MAX_CHUNK_SIZE" by simp
  from chunk_item_ok [OF C Cons.prems(1) this snd] obtain s1 ds1 pend1 where s1: "BaseSender_item C can_send process (DATA_CHUNK c) s = Inr s1"
      "sender_inv ds1 pend1 s1" "ds1 @ pend1 = ds @ pend @ [c]" by blast
  from Cons.IH [OF s1(2)] Cons.prems(2) obtain s2 ds2 pend2 where "rfold (BaseSender_item C can_send process) (map DATA_CHUNK cs) s1 = Inr s2"
      "sender_inv ds2 pend2 s2" "ds2 @ pend2 = ds1 @ pend1 @ cs" by auto
  then show ?case using s1 by (intro exI [of _ s2] exI [of _ ds2] exI [of _ pend2]) (simp flip: append_assoc)
qed auto

lemma BaseSender_new_inv: "sizes_ok C \<Longrightarrow> ok k \<Longrightarrow> sender_inv [] [] (BaseSender_new cid k)"
  unfolding sender_inv_def
  by (auto simp: BaseSender_new_def blank_msg_def sender_view_def recipe_pending_def pending_def base_sent_def sizes_ok_def)

lemma BaseSender_Run_ok:
  assumes C: "sizes_ok C" and k: "ok k" and d: "\<forall>d \<in> set ds. length d \<le> unat MAX_CHUNK_SIZE" and snd: "\<forall>m. can_send m"
  shows "\<exists>s' ms em ks es. BaseSender_Run C can_send process (map DATA_CHUNK ds @ [RECIPE_END h]) (BaseSender_new cid k) = Inr s' \<and> b_wire s' = ms @ [em] \<and>
     base_sent C ms es (concat (map (recipe_entry_of C) (zip ks es))) \<and> messageType em = CLIENT_UPLOAD_RECIPE_END \<and> dataBuffer em = FileRecipeHead_bytes h \<and>
     keyRecipeFile (bufs s') = concat ks \<and> (\<forall>k \<in> set ks. key_ok k) \<and> length ks = length es \<and>
     list_all2 (\<lambda>(key, e) d. opens key e = Inr d \<and> length e = length d) (zip ks es) ds"
proof -
  from chunk_items_ok [OF C BaseSender_new_inv [OF C k, of cid] d snd] obtain s1 ds1 pend1 where
    s1: "rfold (BaseSender_item C can_send process) (map DATA_CHUNK ds) (BaseSender_new cid k) = Inr s1" "sender_inv ds1 pend1 s1" "ds1 @ pend1 = ds" by auto
  have "BaseSender_Run C can_send process (map DATA_CHUNK ds @ [RECIPE_END h]) (BaseSender_new cid k) = BaseSender_item C can_send process (RECIPE_END h) s1"
    using s1(1) by (cases "BaseSender_item C can_send process (RECIPE_END h) s1") (simp_all add: BaseSender_Run_def rfold_append)
  with end_item_ok [OF C s1(2) snd, of h] s1(3) show ?thesis by simp
qed

end

section \<open>What the retriever makes of a restore\<close>

definition base_restore_msg :: "enclave_cfg \<Rightarrow> protocol_code \<Rightarrow> net_msg \<Rightarrow> bytes list \<Rightarrow> bool" where
  "base_restore_msg C t m es \<longleftrightarrow> messageType m = t \<and> dataBuffer m = encode_chunks es \<and> unat (currentItemNum m) = length es \<and>
     length es \<le> sendChunkBatchSize C \<and> (\<forall>e \<in> set es. length e \<le> unat MAX_CHUNK_SIZE)"

text \<open>All messages of a restore: exactly the last one is final, and together they carry the chunks \<open>es\<close>.\<close>

definition base_restored :: "enclave_cfg \<Rightarrow> net_msg list \<Rightarrow> bytes list \<Rightarrow> bool" where
  "base_restored C ms es \<longleftrightarrow>
     (\<exists>ms' m css cs. ms = ms' @ [m] \<and> list_all2 (base_restore_msg C SERVER_RESTORE_CHUNK) ms' css \<and>
        base_restore_msg C SERVER_RESTORE_FINAL m cs \<and> es = concat css @ cs)"

definition opened :: "base_retriever \<Rightarrow> bytes list \<Rightarrow> base_retriever \<Rightarrow> bool" where
  "opened s ds s' \<longleftrightarrow> br_out s' = br_out s @ ds \<and> br_chunkNum s' = br_chunkNum s + of_nat (length ds) \<and> br_head s' = br_head s"

lemma opened_trans: "opened s ds s1 \<Longrightarrow> opened s1 ds' s' \<Longrightarrow> opened s (ds @ ds') s'"
  by (simp add: opened_def add.assoc)

lemma open_next_all:
  assumes key: "readKeyBuffer s = concat ks @ rest" "length ks = length es" "\<forall>k \<in> set ks. key_ok k"
    and es: "\<forall>e \<in> set es. length e \<le> unat MAX_CHUNK_SIZE" and o: "list_all2 (\<lambda>(key, e) d. open_chunk C t key e = Inr d) (zip ks es) ds"
  shows "\<exists>s'. rfold (open_next C t (encode_chunks es)) [0..<length es] (s, 0) = Inr (s', length (encode_chunks es)) \<and> opened s ds s' \<and> keyFile s' = keyFile s"
proof -
  have len: "length ds = length es" using list_all2_lengthD [OF o] key(2) by simp
  have "\<exists>s'. rfold (open_next C t (encode_chunks es)) [0..<n] (s, 0) = Inr (s', length (encode_chunks (take n es))) \<and> opened s (take n ds) s' \<and>
      keyFile s' = keyFile s \<and> readKeyBuffer s' = readKeyBuffer s" if "n \<le> length es" for n
    using that
  proof (induction n)
    case 0
    then show ?case by (simp add: opened_def)
  next
    case (Suc n)
    then obtain s1 where s1: "rfold (open_next C t (encode_chunks es)) [0..<n] (s, 0) = Inr (s1, length (encode_chunks (take n es)))"
        "opened s (take n ds) s1" "keyFile s1 = keyFile s" "readKeyBuffer s1 = readKeyBuffer s" by auto
    have n: "n < length es" using Suc.prems by simp
    have kl: "\<forall>k \<in> set ks. length k = CHUNK_HASH_SIZE" using key(3) by (simp add: key_ok_def)
    have "n * CHUNK_HASH_SIZE + CHUNK_HASH_SIZE \<le> length (concat ks)"
      using length_concat_blocks [OF kl] n key(2) mult_le_mono1 [of "Suc n" "length ks" CHUNK_HASH_SIZE] by simp
    moreover have "read_at (concat ks @ rest) (n * CHUNK_HASH_SIZE) CHUNK_HASH_SIZE = ks ! n" using n key(2) by (intro read_at_concat [OF kl]) simp
    ultimately have k: "read_at (readKeyBuffer s1) (n * CHUNK_HASH_SIZE) CHUNK_HASH_SIZE = ks ! n" "n * CHUNK_HASH_SIZE + CHUNK_HASH_SIZE \<le> length (readKeyBuffer s1)"
      using s1(4) key(1) by simp_all
    have e: "length (es ! n) \<le> unat MAX_CHUNK_SIZE" using es n by simp
    from o n key(2) have od: "open_chunk C t (ks ! n) (es ! n) = Inr (ds ! n)" by (auto dest: list_all2_nthD)
    let ?s2 = "s1\<lparr>br_out := br_out s1 @ [ds ! n], br_dataSize := br_dataSize s1 + of_nat (length (es ! n)), br_chunkNum := br_chunkNum s1 + 1\<rparr>"
    have rd: "read_chunk (encode_chunks es) (length (encode_chunks (take n es))) = Inr (es ! n, length (encode_chunks (take (Suc n) es)))"
      using read_encoded [OF es n, of "[]"] by simp
    have "open_next C t (encode_chunks es) n (s1, length (encode_chunks (take n es))) = Inr (?s2, length (encode_chunks (take (Suc n) es)))"
      using rd e k od by (simp add: open_next_def)
    moreover have "opened s (take (Suc n) ds) ?s2" using s1(2) n len by (simp add: opened_def take_Suc_conv_app_nth)
    ultimately show ?case using s1 by (intro exI [of _ ?s2]) (simp add: rfold_append)
  qed
  from this [OF order_refl] len show ?thesis by auto
qed

lemma Base_OpenChunkBatch_ok:
  assumes m: "base_restore_msg C mt m es" and key: "keyFile s = concat ks @ rest" "length ks = length es" "\<forall>k \<in> set ks. key_ok k"
    and o: "list_all2 (\<lambda>(key, e) d. open_chunk C t key e = Inr d) (zip ks es) ds"
  shows "\<exists>s'. Base_OpenChunkBatch C t m s = Inr s' \<and> opened s ds s' \<and> keyFile s' = rest"
proof -
  have mm: "dataBuffer m = encode_chunks es" "unat (currentItemNum m) = length es" "length es \<le> sendChunkBatchSize C" "\<forall>e \<in> set es. length e \<le> unat MAX_CHUNK_SIZE"
    using m by (simp_all add: base_restore_msg_def)
  have kl: "length (concat ks) = length es * CHUNK_HASH_SIZE" using length_concat_blocks [of ks CHUNK_HASH_SIZE] key(2,3) by (simp add: key_ok_def)
  let ?s1 = "s\<lparr>readKeyBuffer := memcpy_at (readKeyBuffer s) 0 (concat ks), keyFile := rest\<rparr>"
  have b: "readKeyBuffer ?s1 = concat ks @ drop (length (concat ks)) (readKeyBuffer s)" by (simp add: memcpy_at_def)
  from open_next_all [OF b key(2,3) mm(4) o] obtain s' where
    "rfold (open_next C t (encode_chunks es)) [0..<length es] (?s1, 0) = Inr (s', length (encode_chunks es))" "opened ?s1 ds s'" "keyFile s' = rest" by auto
  then show ?thesis using mm key(1) kl by (simp add: Base_OpenChunkBatch_def Let_def opened_def)
qed

lemma base_retrieve_loop_ok:
  assumes "list_all2 (base_restore_msg C SERVER_RESTORE_CHUNK) ms css" and m: "base_restore_msg C SERVER_RESTORE_FINAL m cs"
    and "keyFile s = concat ks" and "length ks = length (concat css @ cs)" and "\<forall>k \<in> set ks. key_ok k"
    and "list_all2 (\<lambda>(key, e) d. open_chunk C t key e = Inr d) (zip ks (concat css @ cs)) ds"
  shows "\<exists>s'. base_retrieve_loop C t (ms @ [m]) s = Inr (Some s') \<and> opened s ds s' \<and> br_done s'"
  using assms(1,3-)
proof (induction ms arbitrary: css s ks ds)
  case Nil
  then have "css = []" by simp
  with Base_OpenChunkBatch_ok [OF m, of s ks "[]" t ds] Nil.prems obtain s1 where "Base_OpenChunkBatch C t m s = Inr s1" "opened s ds s1" by auto
  moreover have "messageType m = SERVER_RESTORE_FINAL" using m by (simp add: base_restore_msg_def)
  ultimately show ?case by (simp add: opened_def)
next
  case (Cons m1 ms)
  then obtain cs1 css1 where css: "css = cs1 # css1" "base_restore_msg C SERVER_RESTORE_CHUNK m1 cs1" "list_all2 (base_restore_msg C SERVER_RESTORE_CHUNK) ms css1"
    by (auto simp: list_all2_Cons1)
  let ?k1 = "take (length cs1) ks" and ?k2 = "drop (length cs1) ks"
  have l: "length ?k1 = length cs1" "length ?k2 = length (concat css1 @ cs)" using Cons.prems(3) css(1) by simp_all
  have ks: "keyFile s = concat ?k1 @ concat ?k2" using Cons.prems(2) by (metis append_take_drop_id concat_append)
  have ok: "\<forall>k \<in> set ?k1. key_ok k" "\<forall>k \<in> set ?k2. key_ok k" using Cons.prems(4) by (auto dest: in_set_takeD in_set_dropD)
  have "zip ks (concat css @ cs) = zip (?k1 @ ?k2) (cs1 @ concat css1 @ cs)" using css(1) by simp
  also have "\<dots> = zip ?k1 cs1 @ zip ?k2 (concat css1 @ cs)" by (rule zip_append [OF l(1)])
  finally obtain d1 d2 where d: "ds = d1 @ d2" "list_all2 (\<lambda>(key, e) d. open_chunk C t key e = Inr d) (zip ?k1 cs1) d1"
      "list_all2 (\<lambda>(key, e) d. open_chunk C t key e = Inr d) (zip ?k2 (concat css1 @ cs)) d2"
    using Cons.prems(5) by (auto simp: list_all2_append1)
  from Base_OpenChunkBatch_ok [OF css(2) ks l(1) ok(1) d(2)] obtain s1 where s1: "Base_OpenChunkBatch C t m1 s = Inr s1" "opened s d1 s1" "keyFile s1 = concat ?k2" by blast
  from Cons.IH [OF css(3) s1(3) l(2) ok(2) d(3)] obtain s' where "base_retrieve_loop C t (ms @ [m]) s1 = Inr (Some s')" "opened s1 d2 s'" "br_done s'" by blast
  moreover have "messageType m1 = SERVER_RESTORE_CHUNK" using css(2) by (simp add: base_restore_msg_def)
  ultimately show ?case using s1 d(1) opened_trans by fastforce
qed

lemma BaseRetriever_Run_ok:
  assumes r: "base_restored C ms es" and k: "length ks = length es" "\<forall>k \<in> set ks. key_ok k"
    and o: "list_all2 (\<lambda>(key, e) d. open_chunk C t key e = Inr d) (zip ks es) ds" and h: "totalChunkNum h = of_nat (length ds)"
  shows "\<exists>s. BaseRetriever_Run C t ms (BaseRetriever_new (concat ks) h) = Inr (Some s) \<and> br_out s = ds \<and> br_done s"
proof -
  from r obtain ms' m css cs where m: "ms = ms' @ [m]" "list_all2 (base_restore_msg C SERVER_RESTORE_CHUNK) ms' css"
      "base_restore_msg C SERVER_RESTORE_FINAL m cs" "es = concat css @ cs" unfolding base_restored_def by blast
  have f: "keyFile (BaseRetriever_new (concat ks) h) = concat ks" by (simp add: BaseRetriever_new_def)
  from base_retrieve_loop_ok [OF m(2,3) f] k o m(4) obtain s where
    s: "base_retrieve_loop C t ms (BaseRetriever_new (concat ks) h) = Inr (Some s)" "opened (BaseRetriever_new (concat ks) h) ds s" "br_done s"
    unfolding m(1) by blast
  then have "br_chunkNum s = of_nat (length ds)" "br_head s = h" "br_out s = ds" by (simp_all add: opened_def BaseRetriever_new_def)
  with s h show ?thesis by (simp add: BaseRetriever_Run_def)
qed

end
