(* ===== verification/BaseServer.thy ===== *)
theory BaseServer
  imports BaseClient
begin

text \<open>
  The upload side of the server of \<open>src/Baseline\<close>, which has no enclave: \<open>DataReceiver\<close>
  (\<open>Server/dataReceiver.cc\<close>) takes chunks and key recipes, \<open>PlainIndex\<close> (\<open>Index/plainIndex.cc\<close>, \<open>Index/absIndex.cc\<close>)
  deduplicates the cipher chunks by their fingerprints and \<open>StorageCore\<close> (\<open>Server/storageCore.cc\<close>, \<open>Server/storeOCall.cc\<close>)
  fills containers and the file recipe. Another instance of the contract \<open>chunk_store\<close>.
\<close>

section \<open>State and operations\<close>

text \<open>The upload side of \<open>ClientVar\<close>, with the storage and the counters of the index and the storage core.\<close>

record base_server =
  bs_container :: container
  bs_recipe :: recipe_buf
  bs_recipeFile :: "bytes option"
  bs_keyRecipe :: bytes
  bs_inputMQ :: "container list"
  bs_store :: storage
  bs_stats :: statistics
  bs_recvDataSize :: u64
  bs_batchNum :: u64

definition Base_InitUploadBuffer :: "enclave_cfg \<Rightarrow> bytes \<Rightarrow> statistics \<Rightarrow> storage \<Rightarrow> base_server" where
  "Base_InitUploadBuffer C junk st S =
     (let (u, p) = CreateUUID (cfg_rnd C) (randPos S) CONTAINER_ID_LENGTH in
      \<lparr>bs_container = \<lparr>containerID = u, body = [], currentSize = 0\<rparr>, bs_recipe = \<lparr>recipeNum = 0, entryList = []\<rparr>,
       bs_recipeFile = Some (take 16 (junk @ replicate 16 0)), bs_keyRecipe = [], bs_inputMQ = [], bs_store = S\<lparr>randPos := p\<rparr>,
       bs_stats = st, bs_recvDataSize = 0, bs_batchNum = 0\<rparr>)"

definition Base_Ocall_WriteContainer :: "enclave_cfg \<Rightarrow> base_server \<Rightarrow> base_server" where
  "Base_Ocall_WriteContainer C s =
     (let (u, p) = CreateUUID (cfg_rnd C) (randPos (bs_store s)) CONTAINER_ID_LENGTH in
      s\<lparr>bs_inputMQ := bs_inputMQ s @ [bs_container s], bs_container := (bs_container s)\<lparr>containerID := u, currentSize := 0\<rparr>,
        bs_store := (bs_store s)\<lparr>randPos := p\<rparr>\<rparr>)"

definition Base_WriteContainer :: "enclave_cfg \<Rightarrow> bytes \<Rightarrow> base_server \<Rightarrow> recipe_entry \<times> base_server" where
  "Base_WriteContainer C x s =
     (let chunkSize = of_nat (length x) :: u32;
          s1 = (if chunkSize + currentSize (bs_container s) < MAX_CONTAINER_SIZE then s else Base_Ocall_WriteContainer C s);
          c = bs_container s1; saveOffset = currentSize c
      in (\<lparr>containerName = take CONTAINER_ID_LENGTH (containerID c), re_offset = saveOffset, re_length = chunkSize\<rparr>,
          s1\<lparr>bs_container := c\<lparr>body := memcpy_at (body c) (unat saveOffset) x, currentSize := currentSize c + chunkSize\<rparr>\<rparr>))"

definition Base_SaveChunk :: "enclave_cfg \<Rightarrow> bytes \<Rightarrow> base_server \<Rightarrow> recipe_entry \<times> base_server" where
  "Base_SaveChunk C x s =
     (let (a, s1) = Base_WriteContainer C x s; st = bs_stats s1 in
      (a, s1\<lparr>bs_stats := st\<lparr>writtenDataSize := writtenDataSize st + of_nat (length x), writtenChunkNum := writtenChunkNum st + 1\<rparr>\<rparr>))"

text \<open>The chunk, or its compressed form, goes through an array of \<open>MAX_CHUNK_SIZE\<close> bytes on the stack.\<close>

definition Base_ProcessUniqueChunk :: "enclave_cfg \<Rightarrow> bytes \<Rightarrow> base_server \<Rightarrow> (recipe_entry \<times> base_server) res" where
  "Base_ProcessUniqueChunk C chunk s =
     (let compressed = cfg_lz4c C chunk; x = (if length compressed > 0 then compressed else chunk); st = bs_stats s in
      if unat MAX_CHUNK_SIZE < length x then Inl (Undefined ''stack buffer overflow'')
      else Inr (Base_SaveChunk C x (s\<lparr>bs_stats := st\<lparr>compressedDataSize := compressedDataSize st + of_nat (length x)\<rparr>\<rparr>)))"

definition Base_write_recipe :: "base_server \<Rightarrow> base_server res" where
  "Base_write_recipe s =
     (let r = bs_recipe s in
      rbind (UpdateRecipeToFile (entryList r) (unat (recipeNum r)) (bs_recipeFile s)) (\<lambda>f.
        Inr (s\<lparr>bs_recipeFile := f, bs_recipe := r\<lparr>recipeNum := 0\<rparr>\<rparr>)))"

definition Base_UpdateFileRecipe :: "enclave_cfg \<Rightarrow> bytes \<Rightarrow> base_server \<Rightarrow> base_server res" where
  "Base_UpdateFileRecipe C chunkAddrStr s =
     (let r = bs_recipe s;
          r1 = \<lparr>recipeNum = recipeNum r + 1,
                entryList = memcpy_at (entryList r) (unat (recipeNum r) * RecipeEntry_size) (take RecipeEntry_size chunkAddrStr)\<rparr>;
          s1 = s\<lparr>bs_recipe := r1\<rparr>
      in if length chunkAddrStr < RecipeEntry_size then Inl (Undefined ''read behind the address string'')
         else if unat (recipeNum r1) mod sendRecipeBatchSize C = 0 then Base_write_recipe s1 else Inr s1)"

text \<open>
  The address of a chunk with hash \<open>h\<close>. The string with the address keeps the last one; a new address is written over
  its bytes.
\<close>

definition PlainIndex_address :: "enclave_cfg \<Rightarrow> bytes \<Rightarrow> bytes \<Rightarrow> bytes \<times> base_server \<Rightarrow> (bytes \<times> base_server) res" where
  "PlainIndex_address C h x st =
     (let (addr, s) = st; (found, v) = InMemoryDatabase_Query (indexStore (bs_store s)) h addr in
      if found then Inr (v, s)
      else
        let q = bs_stats s;
            s1 = s\<lparr>bs_stats := q\<lparr>uniqueChunkNum := uniqueChunkNum q + 1, uniqueDataSize := uniqueDataSize q + of_nat (length x)\<rparr>\<rparr> in
        if length v < RecipeEntry_size then Inl (Undefined ''write behind the address string'')
        else rbind (Base_ProcessUniqueChunk C x s1) (\<lambda>(a, s2).
          let v' = memcpy_at v 0 (RecipeEntry_bytes a) in
          Inr (v', s2\<lparr>bs_store := (bs_store s2)\<lparr>indexStore := snd (InMemoryDatabase_Insert (indexStore (bs_store s2)) h v')\<rparr>\<rparr>)))"

definition PlainIndex_chunk :: "enclave_cfg \<Rightarrow> bytes \<Rightarrow> bytes \<times> base_server \<Rightarrow> (bytes \<times> base_server) res" where
  "PlainIndex_chunk C x st =
     rbind (Crypto_GenerateHash (cfg_evp C) (cfg_tool C) x) (\<lambda>h.
     rbind (PlainIndex_address C h x st) (\<lambda>(v, s1).
     rbind (Base_UpdateFileRecipe C v s1) (\<lambda>s2.
       let q = bs_stats s2 in
       Inr (v, s2\<lparr>bs_stats := q\<lparr>logicalDataSize := logicalDataSize q + of_nat (length x), logicalChunkNum := logicalChunkNum q + 1\<rparr>\<rparr>))))"

definition PlainIndex_next :: "enclave_cfg \<Rightarrow> bytes \<Rightarrow> (bytes \<times> base_server) \<times> nat \<Rightarrow> ((bytes \<times> base_server) \<times> nat) res" where
  "PlainIndex_next C buf st =
     (let (as, currentOffset) = st in
      rbind (read_chunk buf currentOffset) (\<lambda>(x, off). rbind (PlainIndex_chunk C x as) (\<lambda>as'. Inr (as', off))))"

definition PlainIndex_ProcessOneBatch :: "enclave_cfg \<Rightarrow> net_msg \<Rightarrow> base_server \<Rightarrow> base_server res" where
  "PlainIndex_ProcessOneBatch C m s =
     rbind (rfold (\<lambda>i. PlainIndex_next C (dataBuffer m)) [0..<unat (currentItemNum m)]
              ((replicate RecipeEntry_size 0,
                s\<lparr>bs_recvDataSize := bs_recvDataSize s + ucast (dataSize m), bs_batchNum := bs_batchNum s + 1\<rparr>), 0))
       (\<lambda>((v, s1), off). Inr s1)"

definition PlainIndex_ProcessTailBatch :: "base_server \<Rightarrow> base_server res" where
  "PlainIndex_ProcessTailBatch s = (if recipeNum (bs_recipe s) \<noteq> 0 then Base_write_recipe s else Inr s)"

definition ProcessRecipes :: "net_msg \<Rightarrow> base_server \<Rightarrow> base_server" where
  "ProcessRecipes m s = s\<lparr>bs_keyRecipe := bs_keyRecipe s @ take (unat (dataSize m)) (dataBuffer m)\<rparr>"

record base_receiver =
  rv_batchNum :: u64
  rv_recipeBatchNum :: u64
  rv_recipeEndNum :: u64
  rv_uploadDataSize :: u64
  rv_finished :: "bytes option"

definition BaseReceiver_new :: base_receiver where
  "BaseReceiver_new = \<lparr>rv_batchNum = 0, rv_recipeBatchNum = 0, rv_recipeEndNum = 0, rv_uploadDataSize = 0, rv_finished = None\<rparr>"

definition BaseReceiver_message :: "enclave_cfg \<Rightarrow> net_msg \<Rightarrow> base_receiver \<times> base_server \<Rightarrow> (base_receiver \<times> base_server) res" where
  "BaseReceiver_message C m rs =
     (let (r, s) = rs in
      case messageType m of
        CLIENT_UPLOAD_CHUNK \<Rightarrow> rbind (PlainIndex_ProcessOneBatch C m s) (\<lambda>s1. Inr (r\<lparr>rv_batchNum := rv_batchNum r + 1\<rparr>, s1))
      | CLIENT_UPLOAD_RECIPE \<Rightarrow> Inr (r\<lparr>rv_recipeBatchNum := rv_recipeBatchNum r + 1\<rparr>, ProcessRecipes m s)
      | CLIENT_UPLOAD_RECIPE_END \<Rightarrow>
          rbind (PlainIndex_ProcessTailBatch s) (\<lambda>s1.
          rbind (FinalizeRecipe (FileRecipeHead_of_bytes (dataBuffer m)) (bs_recipeFile s1)) (\<lambda>f.
            Inr (r\<lparr>rv_recipeEndNum := rv_recipeEndNum r + 1, rv_finished := Some f,
                   rv_uploadDataSize := fileSize (FileRecipeHead_of_bytes (dataBuffer m))\<rparr>, s1\<lparr>bs_recipeFile := None\<rparr>)))
      | _ \<Rightarrow> Inl (ProcExit ''wrong received message type.''))"

text \<open>\<open>DataWriter::Run\<close> on the containers that were queued.\<close>

definition Base_DataWriter_Run :: "(bytes \<Rightarrow> bool) \<Rightarrow> base_server \<Rightarrow> base_server res" where
  "Base_DataWriter_Run can_open s =
     rbind (rfold (SaveToFile can_open) (bs_inputMQ s) (containerFiles (bs_store s))) (\<lambda>fs.
       Inr (s\<lparr>bs_inputMQ := [], bs_store := (bs_store s)\<lparr>containerFiles := fs\<rparr>\<rparr>))"

definition BaseReceiver_Run :: "enclave_cfg \<Rightarrow> (bytes \<Rightarrow> bool) \<Rightarrow> net_msg list \<Rightarrow> base_server \<Rightarrow> (base_receiver \<times> base_server) res" where
  "BaseReceiver_Run C can_open ms s =
     rbind (rfold (BaseReceiver_message C) ms (BaseReceiver_new, s)) (\<lambda>(r, s1).
     rbind (Base_DataWriter_Run can_open (if currentSize (bs_container s1) \<noteq> 0 then Base_Ocall_WriteContainer C s1 else s1)) (\<lambda>s2.
       Inr (r, s2)))"

section \<open>Where an address leads\<close>

definition base_name :: "base_server \<Rightarrow> bytes" where
  "base_name s = take CONTAINER_ID_LENGTH (containerID (bs_container s))"

definition base_stored :: "base_server \<Rightarrow> bytes \<rightharpoonup> bytes" where
  "base_stored s = (containerFiles (bs_store s) ++ mq_map (bs_inputMQ s))(base_name s \<mapsto> container_data (bs_container s))"

text \<open>What \<open>RecoverOneChunk\<close> of the baseline makes of stored bytes: they are compressed exactly when they decompress.\<close>

definition base_recover :: "enclave_cfg \<Rightarrow> bytes \<Rightarrow> bytes" where
  "base_recover C x = (case cfg_lz4d C x of Some d \<Rightarrow> if length d > 0 then d else x | None \<Rightarrow> x)"

definition base_chunk_in :: "enclave_cfg \<Rightarrow> (bytes \<rightharpoonup> bytes) \<Rightarrow> recipe_entry \<Rightarrow> bytes option" where
  "base_chunk_in C m a =
     (case m (containerName a) of
        None \<Rightarrow> None
      | Some b \<Rightarrow>
          let off = unat (re_offset a); len = unat (re_length a); d = base_recover C (read_at b off len) in
          if 0 < len \<and> off + len \<le> length b \<and> len \<le> unat MAX_CHUNK_SIZE \<and> length d \<le> unat MAX_CHUNK_SIZE then Some d else None)"

definition base_resolve :: "enclave_cfg \<Rightarrow> base_server \<Rightarrow> recipe_entry \<Rightarrow> bytes option" where
  "base_resolve C s = base_chunk_in C (base_stored s)"

definition base_used :: "base_server \<Rightarrow> bytes set" where
  "base_used s = insert (base_name s) (dom (containerFiles (bs_store s)) \<union> dom (mq_map (bs_inputMQ s)))"

definition base_inv :: "enclave_cfg \<Rightarrow> nat \<Rightarrow> base_server \<Rightarrow> bool" where
  "base_inv C n s \<longleftrightarrow> client_ok C \<and> lz4_ok C \<and> 0 < sendRecipeBatchSize C \<and> sendRecipeBatchSize C < 2 ^ 32 \<and>
     length (containerID (bs_container s)) = CONTAINER_ID_LENGTH \<and>
     unat (currentSize (bs_container s)) \<le> length (body (bs_container s)) \<and>
     unat (currentSize (bs_container s)) < unat MAX_CONTAINER_SIZE \<and>
     base_name s \<notin> dom (containerFiles (bs_store s)) \<union> dom (mq_map (bs_inputMQ s)) \<and>
     (\<forall>b \<in> ran (containerFiles (bs_store s) ++ mq_map (bs_inputMQ s)). length b \<le> unat MAX_CONTAINER_SIZE) \<and>
     fresh_from C n (randPos (bs_store s)) (base_used s)"

lemma grows_chunk:
  assumes "grows m m'" and "base_chunk_in C m a = Some d"
  shows "base_chunk_in C m' a = Some d"
proof -
  from assms(2) obtain b where b: "m (containerName a) = Some b" "0 < unat (re_length a)" "unat (re_offset a) + unat (re_length a) \<le> length b"
      "unat (re_length a) \<le> unat MAX_CHUNK_SIZE" "d = base_recover C (read_at b (unat (re_offset a)) (unat (re_length a)))" "length d \<le> unat MAX_CHUNK_SIZE"
    by (auto simp: base_chunk_in_def Let_def split: option.splits if_splits)
  from assms(1) b(1) obtain b' where "m' (containerName a) = Some b'" "length b \<le> length b'"
      "\<And>i k. i + k \<le> length b \<Longrightarrow> read_at b' i k = read_at b i k" by (elim growsE) blast+
  with b show ?thesis by (simp add: base_chunk_in_def Let_def)
qed

section \<open>Saving a chunk\<close>

lemma Base_Ocall_WriteContainer_simps [simp]:
  "bs_inputMQ (Base_Ocall_WriteContainer C s) = bs_inputMQ s @ [bs_container s]"
  "containerID (bs_container (Base_Ocall_WriteContainer C s)) = uuid_at C (randPos (bs_store s))"
  "currentSize (bs_container (Base_Ocall_WriteContainer C s)) = 0"
  "body (bs_container (Base_Ocall_WriteContainer C s)) = body (bs_container s)"
  "containerFiles (bs_store (Base_Ocall_WriteContainer C s)) = containerFiles (bs_store s)"
  "indexStore (bs_store (Base_Ocall_WriteContainer C s)) = indexStore (bs_store s)"
  "randPos (bs_store (Base_Ocall_WriteContainer C s)) = randPos (bs_store s) + CONTAINER_ID_LENGTH"
  "bs_recipe (Base_Ocall_WriteContainer C s) = bs_recipe s"
  "bs_recipeFile (Base_Ocall_WriteContainer C s) = bs_recipeFile s"
  "bs_keyRecipe (Base_Ocall_WriteContainer C s) = bs_keyRecipe s"
  by (simp_all add: Base_Ocall_WriteContainer_def uuid_at_def CreateUUID_def)

text \<open>A new container: the old one waits in the queue, under its name and with its contents.\<close>

lemma Base_rollover:
  assumes i: "base_inv C (Suc n) s"
  shows "base_inv C n (Base_Ocall_WriteContainer C s)" and "grows (base_stored s) (base_stored (Base_Ocall_WriteContainer C s))"
proof -
  let ?r = "Base_Ocall_WriteContainer C s" and ?u = "uuid_at C (randPos (bs_store s))"
  let ?m = "containerFiles (bs_store s) ++ mq_map (bs_inputMQ s)"
  have name: "base_name ?r = ?u" by (simp add: base_name_def)
  have mq: "mq_map (bs_inputMQ ?r) = (mq_map (bs_inputMQ s))(base_name s \<mapsto> container_data (bs_container s))" by (simp add: mq_map_snoc base_name_def)
  have m: "containerFiles (bs_store ?r) ++ mq_map (bs_inputMQ ?r) = base_stored s" unfolding mq base_stored_def map_add_upd by simp
  have fr: "fresh_from C (Suc n) (randPos (bs_store s)) (base_used s)" using i by (simp add: base_inv_def)
  have new: "?u \<notin> base_used s" using fresh_from_Suc(1) [OF fr] .
  have used: "base_used ?r = insert ?u (base_used s)" unfolding base_used_def name mq by auto
  have dom: "dom (base_stored s) = base_used s" by (auto simp: base_stored_def base_used_def)
  then have out: "base_stored s ?u = None" using new by blast
  have "fresh_from C n (randPos (bs_store ?r)) (base_used ?r)" using fresh_from_Suc(3) [OF fr] used by simp
  moreover have "base_name ?r \<notin> dom (containerFiles (bs_store ?r)) \<union> dom (mq_map (bs_inputMQ ?r))" using new unfolding name mq by (auto simp: base_used_def)
  moreover have "\<forall>b \<in> ran (containerFiles (bs_store ?r) ++ mq_map (bs_inputMQ ?r)). length b \<le> unat MAX_CONTAINER_SIZE"
    using i unfolding m base_stored_def by (intro ran_upd_ball) (auto simp: base_inv_def container_data_def)
  ultimately show "base_inv C n ?r" using i by (simp add: base_inv_def)
  show "grows (base_stored s) (base_stored ?r)"
    using out unfolding grows_def by (auto simp: base_stored_def [of ?r] m name simp del: Base_Ocall_WriteContainer_simps)
qed

text \<open>A chunk behind the end of a container with room for it.\<close>

lemma Base_put:
  fixes st :: statistics
  assumes i: "base_inv C n s" and fits: "length x + unat (currentSize (bs_container s)) < unat MAX_CONTAINER_SIZE" and x: "x \<noteq> []" "length x \<le> unat MAX_CHUNK_SIZE"
  defines "c \<equiv> bs_container s"
  defines "s' \<equiv> s\<lparr>bs_container := c\<lparr>body := memcpy_at (body c) (unat (currentSize c)) x, currentSize := currentSize c + of_nat (length x)\<rparr>, bs_stats := st\<rparr>"
  shows "base_inv C n s'" and "grows (base_stored s) (base_stored s')"
    and "length (base_recover C x) \<le> unat MAX_CHUNK_SIZE \<Longrightarrow>
      base_resolve C s' \<lparr>containerName = base_name s, re_offset = currentSize c, re_length = of_nat (length x)\<rparr> = Some (base_recover C x)"
proof -
  have le: "unat (currentSize c) \<le> length (body c)" using i by (simp add: base_inv_def c_def)
  have len: "unat (of_nat (length x) :: u32) = length x" using x(2) by (simp add: unat_of_nat_u32 const_defs)
  have sz: "unat (currentSize c + of_nat (length x)) = unat (currentSize c) + length x"
    using fits len by (subst unat_add_u32) (simp_all add: c_def const_defs)
  have name: "base_name s' = base_name s" by (simp add: s'_def base_name_def c_def)
  have used: "base_used s' = base_used s" by (simp add: base_used_def name) (simp add: s'_def)
  have data: "container_data (bs_container s') = container_data c @ x" using le sz by (simp add: s'_def container_data_def memcpy_at_def)
  have st: "base_stored s' = (containerFiles (bs_store s) ++ mq_map (bs_inputMQ s))(base_name s \<mapsto> container_data c @ x)"
    unfolding base_stored_def name data by (simp add: s'_def)
  show "base_inv C n s'"
    using i sz fits le unfolding base_inv_def name used by (simp add: s'_def c_def)
  show "grows (base_stored s) (base_stored s')" unfolding grows_def st by (auto simp: base_stored_def c_def split: if_splits)
  assume "length (base_recover C x) \<le> unat MAX_CHUNK_SIZE"
  then show "base_resolve C s' \<lparr>containerName = base_name s, re_offset = currentSize c, re_length = of_nat (length x)\<rparr> = Some (base_recover C x)"
    using x le by (simp add: base_resolve_def base_chunk_in_def st len Let_def container_data_def read_at_def)
qed

text \<open>What saving a chunk leaves alone.\<close>

definition base_same :: "base_server \<Rightarrow> base_server \<Rightarrow> bool" where
  "base_same s s' \<longleftrightarrow> bs_recipe s' = bs_recipe s \<and> bs_recipeFile s' = bs_recipeFile s \<and> bs_keyRecipe s' = bs_keyRecipe s \<and>
     indexStore (bs_store s') = indexStore (bs_store s)"

lemma base_inv_less: "base_inv C (Suc n) s \<Longrightarrow> base_inv C n s"
  using fresh_from_Suc(2) by (auto simp: base_inv_def)

lemma base_index_views:
  "base_inv C n (s\<lparr>bs_store := (bs_store s)\<lparr>indexStore := m\<rparr>\<rparr>) = base_inv C n s" "base_stored (s\<lparr>bs_store := (bs_store s)\<lparr>indexStore := m\<rparr>\<rparr>) = base_stored s"
  by (simp_all add: base_inv_def base_used_def base_name_def base_stored_def)

lemma base_key_views:
  "base_inv C n (s\<lparr>bs_keyRecipe := k\<rparr>) = base_inv C n s" "base_stored (s\<lparr>bs_keyRecipe := k\<rparr>) = base_stored s"
  by (simp_all add: base_inv_def base_used_def base_name_def base_stored_def)

lemma base_stats_views:
  "base_inv C n (s\<lparr>bs_stats := st\<rparr>) = base_inv C n s" "base_stored (s\<lparr>bs_stats := st\<rparr>) = base_stored s"
  by (simp_all add: base_inv_def base_used_def base_name_def base_stored_def)

lemma Base_SaveChunk_ok:
  assumes i: "base_inv C (Suc n) s" and x: "x \<noteq> []" "length x \<le> unat MAX_CHUNK_SIZE" "length (base_recover C x) \<le> unat MAX_CHUNK_SIZE"
  shows "\<exists>a s'. Base_SaveChunk C x s = (a, s') \<and> base_inv C n s' \<and> grows (base_stored s) (base_stored s') \<and>
     base_resolve C s' a = Some (base_recover C x) \<and> wf_entry a \<and> base_same s s'"
proof -
  let ?fits = "of_nat (length x) + currentSize (bs_container s) < MAX_CONTAINER_SIZE"
  let ?s1 = "if ?fits then s else Base_Ocall_WriteContainer C s" and ?l = "of_nat (length x) :: u32"
  have cs: "unat (currentSize (bs_container s)) < unat MAX_CONTAINER_SIZE" using i by (simp add: base_inv_def)
  have len: "unat ?l = length x" using x(2) by (simp add: unat_of_nat_u32 const_defs)
  have "unat (?l + currentSize (bs_container s)) = length x + unat (currentSize (bs_container s))"
    using cs x(2) len by (subst unat_add_u32) (simp_all add: const_defs)
  then have fits: "?fits \<longleftrightarrow> length x + unat (currentSize (bs_container s)) < unat MAX_CONTAINER_SIZE" by (simp add: word_less_nat_alt)
  have s1: "base_inv C n ?s1" "grows (base_stored s) (base_stored ?s1)" "length x + unat (currentSize (bs_container ?s1)) < unat MAX_CONTAINER_SIZE"
    using base_inv_less [OF i] Base_rollover [OF i] fits x(2) by (auto simp: const_defs)
  obtain a s' where r: "Base_SaveChunk C x s = (a, s')" by (cases "Base_SaveChunk C x s")
  let ?st = "(bs_stats ?s1)\<lparr>writtenDataSize := writtenDataSize (bs_stats ?s1) + of_nat (length x), writtenChunkNum := writtenChunkNum (bs_stats ?s1) + 1\<rparr>"
  let ?c = "bs_container ?s1"
  have a: "a = \<lparr>containerName = base_name ?s1, re_offset = currentSize ?c, re_length = ?l\<rparr>"
    and s': "s' = ?s1\<lparr>bs_container := ?c\<lparr>body := memcpy_at (body ?c) (unat (currentSize ?c)) x, currentSize := currentSize ?c + ?l\<rparr>, bs_stats := ?st\<rparr>"
    using r unfolding Base_SaveChunk_def Base_WriteContainer_def Let_def base_name_def by auto
  note ap = Base_put [OF s1(1,3) x(1,2), of ?st]
  have "wf_entry a" using s1(1) by (simp add: a wf_entry_def base_name_def base_inv_def)
  moreover have "base_same s s'" by (simp add: s' base_same_def)
  moreover have "grows (base_stored s) (base_stored s')" unfolding s' by (rule grows_trans [OF s1(2) ap(2)])
  ultimately show ?thesis using r ap(1) ap(3) [OF x(3)] unfolding a s' by blast
qed

lemma Base_ProcessUniqueChunk_ok:
  assumes i: "base_inv C (Suc n) s" and d: "chunk_ok C d"
  shows "\<exists>a s'. Base_ProcessUniqueChunk C d s = Inr (a, s') \<and> base_inv C n s' \<and> grows (base_stored s) (base_stored s') \<and>
     base_resolve C s' a = Some d \<and> wf_entry a \<and> base_same s s'"
proof -
  let ?x = "if length (cfg_lz4c C d) > 0 then cfg_lz4c C d else d"
  have x: "?x \<noteq> []" "length ?x \<le> unat MAX_CHUNK_SIZE" and rec: "base_recover C ?x = d"
    using i d by (auto simp: base_inv_def lz4_ok_def chunk_ok_def base_recover_def)
  have l: "length (base_recover C ?x) \<le> unat MAX_CHUNK_SIZE" unfolding rec using d by (simp add: chunk_ok_def)
  let ?s = "s\<lparr>bs_stats := (bs_stats s)\<lparr>compressedDataSize := compressedDataSize (bs_stats s) + of_nat (length ?x)\<rparr>\<rparr>"
  have i1: "base_inv C (Suc n) ?s" using i by (simp add: base_stats_views)
  from Base_SaveChunk_ok [OF i1 x l, unfolded rec base_stats_views(2)] obtain a s' where
    r: "Base_SaveChunk C ?x ?s = (a, s')" "base_inv C n s'" "grows (base_stored s) (base_stored s')" "base_resolve C s' a = Some d" "wf_entry a" "base_same ?s s'"
    by blast
  have "Base_ProcessUniqueChunk C d s = Inr (a, s')" using x(2) r(1) by (simp add: Base_ProcessUniqueChunk_def Let_def not_less)
  moreover have "base_same s s'" using r(6) by (simp add: base_same_def)
  ultimately show ?thesis using r by blast
qed

interpretation base_containers: chunk_store "base_inv C" "base_resolve C" "Base_ProcessUniqueChunk C" "chunk_ok C" for C
proof unfold_locales
  fix n s d
  assume "base_inv C (Suc n) s" and "chunk_ok C d"
  from Base_ProcessUniqueChunk_ok [OF this] show "\<exists>a s'. Base_ProcessUniqueChunk C d s = Inr (a, s') \<and> base_inv C n s' \<and> base_resolve C s' a = Some d \<and>
      (\<forall>b x. base_resolve C s b = Some x \<longrightarrow> base_resolve C s' b = Some x)"
    unfolding base_resolve_def using grows_chunk by blast
qed

section \<open>The file recipe\<close>

text \<open>The entries in the file behind its head \<open>h\<close>, and those in the buffer.\<close>

definition base_recipe :: "enclave_cfg \<Rightarrow> bytes \<Rightarrow> base_server \<Rightarrow> bytes list \<Rightarrow> bool" where
  "base_recipe C h s es \<longleftrightarrow> (\<exists>bs pend. es = bs @ pend \<and> entry_bytes es \<and> bs_recipeFile s = Some (h @ concat bs) \<and>
     length pend < sendRecipeBatchSize C \<and> unat (recipeNum (bs_recipe s)) = length pend \<and>
     length pend * RecipeEntry_size \<le> length (entryList (bs_recipe s)) \<and> take (length pend * RecipeEntry_size) (entryList (bs_recipe s)) = concat pend)"

lemma base_recipe_same: "base_same s s' \<Longrightarrow> base_recipe C h s' es = base_recipe C h s es"
  by (simp add: base_recipe_def base_same_def)

text \<open>What the recipe operations leave alone.\<close>

definition base_rest :: "base_server \<Rightarrow> base_server \<Rightarrow> bool" where
  "base_rest s s' \<longleftrightarrow> bs_container s' = bs_container s \<and> bs_inputMQ s' = bs_inputMQ s \<and> bs_store s' = bs_store s \<and> bs_keyRecipe s' = bs_keyRecipe s"

lemma base_rest_views: "base_rest s s' \<Longrightarrow> base_stored s' = base_stored s" "base_rest s s' \<Longrightarrow> base_inv C n s' = base_inv C n s"
  by (simp_all add: base_rest_def base_stored_def base_inv_def base_name_def base_used_def)

lemma Base_UpdateFileRecipe_ok:
  assumes r: "base_recipe C h s es" and e: "length e = RecipeEntry_size" and R: "0 < sendRecipeBatchSize C" "sendRecipeBatchSize C < 2 ^ 32"
  shows "\<exists>s'. Base_UpdateFileRecipe C e s = Inr s' \<and> base_recipe C h s' (es @ [e]) \<and> base_rest s s'"
proof -
  let ?R = "sendRecipeBatchSize C" and ?r = "bs_recipe s"
  from r obtain bs pend where b: "es = bs @ pend" "entry_bytes es" "bs_recipeFile s = Some (h @ concat bs)" "length pend < ?R" "unat (recipeNum ?r) = length pend"
      "length pend * RecipeEntry_size \<le> length (entryList ?r)" "take (length pend * RecipeEntry_size) (entryList ?r) = concat pend"
    unfolding base_recipe_def by blast
  let ?l = "memcpy_at (entryList ?r) (length pend * RecipeEntry_size) e"
  let ?s1 = "s\<lparr>bs_recipe := \<lparr>recipeNum = recipeNum ?r + 1, entryList = ?l\<rparr>\<rparr>"
  have n1: "unat (recipeNum ?r + 1) = Suc (length pend)" using b(4,5) R(2) by (subst unat_add_u32) simp_all
  have l: "take (Suc (length pend) * RecipeEntry_size) ?l = concat (pend @ [e])"
  proof -
    have "length (concat pend) = length pend * RecipeEntry_size" using b(1,2) concat_entry_length [of pend] by (auto simp: entry_bytes_def)
    then show ?thesis using b(6,7) e by (simp add: memcpy_at_def)
  qed
  have eb: "entry_bytes (es @ [e])" using b(2) e by (auto simp: entry_bytes_def)
  have step: "Base_UpdateFileRecipe C e s = (if Suc (length pend) = ?R then Base_write_recipe ?s1 else Inr ?s1)"
    using b(4,5) n1 e by (simp add: Base_UpdateFileRecipe_def Let_def mod_Suc)
  show ?thesis
  proof (cases "Suc (length pend) = ?R")
    case True
    let ?s2 = "?s1\<lparr>bs_recipeFile := Some (h @ concat (es @ [e])), bs_recipe := \<lparr>recipeNum = 0, entryList = ?l\<rparr>\<rparr>"
    have "Base_write_recipe ?s1 = Inr ?s2" using b(1,3) n1 l by (simp add: Base_write_recipe_def UpdateRecipeToFile_def Let_def)
    moreover have "base_recipe C h ?s2 (es @ [e])" unfolding base_recipe_def using R(1) eb by (intro exI [of _ "es @ [e]"] exI [of _ "[]"]) simp
    ultimately show ?thesis using step True by (intro exI [of _ ?s2]) (simp add: base_rest_def)
  next
    case False
    have "base_recipe C h ?s1 (es @ [e])" unfolding base_recipe_def
      using b(1,3,4) False n1 l eb e by (intro exI [of _ bs] exI [of _ "pend @ [e]"]) simp
    then show ?thesis using step False by (intro exI [of _ ?s1]) (simp add: base_rest_def)
  qed
qed

lemma PlainIndex_ProcessTailBatch_ok:
  assumes r: "base_recipe C h s es"
  shows "\<exists>s'. PlainIndex_ProcessTailBatch s = Inr s' \<and> bs_recipeFile s' = Some (h @ concat es) \<and> base_rest s s'"
proof -
  from r obtain bs pend where b: "es = bs @ pend" "bs_recipeFile s = Some (h @ concat bs)" "unat (recipeNum (bs_recipe s)) = length pend"
      "take (length pend * RecipeEntry_size) (entryList (bs_recipe s)) = concat pend"
    unfolding base_recipe_def by blast
  show ?thesis
  proof (cases "recipeNum (bs_recipe s) = 0")
    case True
    then have "pend = []" using b(3) by simp
    then show ?thesis using True b by (simp add: PlainIndex_ProcessTailBatch_def base_rest_def)
  next
    case False
    then show ?thesis using b by (simp add: PlainIndex_ProcessTailBatch_def Base_write_recipe_def UpdateRecipeToFile_def Let_def base_rest_def)
  qed
qed

section \<open>Deduplication\<close>

definition base_index :: "base_server \<Rightarrow> bytes \<rightharpoonup> recipe_entry" where
  "base_index s = map_option RecipeEntry_of_bytes \<circ> indexStore (bs_store s)"

text \<open>Every address in the index is that of a chunk with the fingerprint it stands under.\<close>

definition plain_inv :: "enclave_cfg \<Rightarrow> nat \<Rightarrow> base_server \<Rightarrow> bool" where
  "plain_inv C n s \<longleftrightarrow> base_inv C n s \<and> base_containers.sound C (client_fp C) s (base_index s) \<and>
     (\<forall>v \<in> ran (indexStore (bs_store s)). \<exists>a. wf_entry a \<and> v = RecipeEntry_bytes a)"

lemma plain_inv_rest: "base_rest s s' \<Longrightarrow> plain_inv C n s' = plain_inv C n s"
  using base_rest_views [of s s'] by (simp add: plain_inv_def base_containers.sound_def base_resolve_def base_index_def) (simp add: base_rest_def)

lemma plain_inv_found:
  assumes i: "plain_inv C n s" and v: "indexStore (bs_store s) h = Some v"
  obtains a e where "v = RecipeEntry_bytes a" and "wf_entry a" and "base_resolve C s a = Some e" and "client_fp C e = h"
proof -
  from i v obtain a where a: "wf_entry a" "v = RecipeEntry_bytes a" unfolding plain_inv_def by (meson ranI)
  have "base_index s h = Some a" using a v by (simp add: base_index_def)
  with i obtain e where "base_resolve C s a = Some e" "client_fp C e = h" unfolding plain_inv_def base_containers.sound_def by blast
  with a that show thesis by blast
qed

text \<open>The address of one chunk: the string holds it, the index is sound with it, and the chunk behind it has the fingerprint.\<close>

definition addressed :: "enclave_cfg \<Rightarrow> nat \<Rightarrow> base_server \<Rightarrow> bytes \<Rightarrow> recipe_entry \<Rightarrow> base_server \<Rightarrow> bool" where
  "addressed C n s e a s' \<longleftrightarrow> plain_inv C n s' \<and> wf_entry a \<and> (\<exists>e'. base_resolve C s' a = Some e' \<and> client_fp C e' = client_fp C e) \<and>
     grows (base_stored s) (base_stored s')"

lemma PlainIndex_new:
  assumes i: "plain_inv C (Suc n) s" and e: "chunk_ok C e" and new: "indexStore (bs_store s) (client_fp C e) = None"
  shows "\<exists>a s1. Base_ProcessUniqueChunk C e s = Inr (a, s1) \<and>
     addressed C n s e a (s1\<lparr>bs_store := (bs_store s1)\<lparr>indexStore := (indexStore (bs_store s1))(client_fp C e \<mapsto> RecipeEntry_bytes a)\<rparr>\<rparr>) \<and> base_same s s1"
proof -
  have bi: "base_inv C (Suc n) s" and so: "base_containers.sound C (client_fp C) s (base_index s)" using i by (simp_all add: plain_inv_def)
  from Base_ProcessUniqueChunk_ok [OF bi e] obtain a s1 where r: "Base_ProcessUniqueChunk C e s = Inr (a, s1)" "base_inv C n s1"
      "grows (base_stored s) (base_stored s1)" "base_resolve C s1 a = Some e" "wf_entry a" "base_same s s1" by blast
  let ?s = "s1\<lparr>bs_store := (bs_store s1)\<lparr>indexStore := (indexStore (bs_store s1))(client_fp C e \<mapsto> RecipeEntry_bytes a)\<rparr>\<rparr>"
  have idx: "indexStore (bs_store s1) = indexStore (bs_store s)" using r(6) by (simp add: base_same_def)
  have st: "base_stored ?s = base_stored s1" by (rule base_index_views)
  have res: "base_resolve C ?s = base_resolve C s1" by (simp add: base_resolve_def st)
  have "base_index ?s = (base_index s)(client_fp C e \<mapsto> a)" using r(5) idx by (auto simp: base_index_def)
  moreover have "base_containers.sound C (client_fp C) s1 (base_index s)"
    by (rule base_containers.sound_keep [OF so]) (use grows_chunk [OF r(3)] in \<open>simp add: base_resolve_def\<close>)
  then have "base_containers.sound C (client_fp C) s1 ((base_index s)(client_fp C e \<mapsto> a))" by (rule base_containers.sound_upd) (rule r(4))
  ultimately have so1: "base_containers.sound C (client_fp C) ?s (base_index ?s)" by (simp add: base_containers.sound_def res)
  have "base_inv C n ?s" using r(2) base_index_views(1) by blast
  moreover have "\<forall>v \<in> ran (indexStore (bs_store ?s)). \<exists>a. wf_entry a \<and> v = RecipeEntry_bytes a"
    using i r(5) idx unfolding plain_inv_def by (auto simp: ran_def)
  ultimately have "plain_inv C n ?s" using so1 by (simp add: plain_inv_def)
  with r res st show ?thesis by (intro exI [of _ a] exI [of _ s1]) (simp add: addressed_def)
qed

lemma plain_inv_less: "plain_inv C (Suc n) s \<Longrightarrow> plain_inv C n s"
  using base_inv_less by (auto simp: plain_inv_def)

lemma base_rest_stats: "base_rest s (s\<lparr>bs_stats := st\<rparr>)"
  by (simp add: base_rest_def)

lemma PlainIndex_address_ok:
  assumes i: "plain_inv C (Suc n) s" and e: "chunk_ok C e" and v: "length v = RecipeEntry_size" and r: "base_recipe C h s es"
  shows "\<exists>a s'. PlainIndex_address C (client_fp C e) e (v, s) = Inr (RecipeEntry_bytes a, s') \<and> addressed C n s e a s' \<and> base_recipe C h s' es \<and>
     bs_keyRecipe s' = bs_keyRecipe s"
proof (cases "indexStore (bs_store s) (client_fp C e)")
  case None
  let ?h = "client_fp C e"
  let ?s = "s\<lparr>bs_stats := (bs_stats s)\<lparr>uniqueChunkNum := uniqueChunkNum (bs_stats s) + 1, uniqueDataSize := uniqueDataSize (bs_stats s) + of_nat (length e)\<rparr>\<rparr>"
  have i1: "plain_inv C (Suc n) ?s" using i plain_inv_rest [OF base_rest_stats] by blast
  from PlainIndex_new [OF i1 e] None obtain a s1 where a: "Base_ProcessUniqueChunk C e ?s = Inr (a, s1)"
      "addressed C n ?s e a (s1\<lparr>bs_store := (bs_store s1)\<lparr>indexStore := (indexStore (bs_store s1))(?h \<mapsto> RecipeEntry_bytes a)\<rparr>\<rparr>)" "base_same ?s s1" by auto
  let ?s2 = "s1\<lparr>bs_store := (bs_store s1)\<lparr>indexStore := (indexStore (bs_store s1))(?h \<mapsto> RecipeEntry_bytes a)\<rparr>\<rparr>"
  have "wf_entry a" using a(2) by (simp add: addressed_def)
  then have m: "memcpy_at v 0 (RecipeEntry_bytes a) = RecipeEntry_bytes a" using v by (simp add: memcpy_at_def)
  have "addressed C n s e a ?s2" using a(2) by (simp add: addressed_def base_stats_views)
  moreover have "base_recipe C h ?s2 es" "bs_keyRecipe ?s2 = bs_keyRecipe s" using a(3) r by (simp_all add: base_recipe_def base_same_def)
  moreover have "PlainIndex_address C ?h e (v, s) = Inr (RecipeEntry_bytes a, ?s2)"
    using None a(1) v m by (simp add: PlainIndex_address_def InMemoryDatabase_Query_def InMemoryDatabase_Insert_def Let_def)
  ultimately show ?thesis by blast
next
  case (Some w)
  from plain_inv_found [OF i Some] obtain a e' where "w = RecipeEntry_bytes a" "wf_entry a" "base_resolve C s a = Some e'" "client_fp C e' = client_fp C e" .
  then show ?thesis using Some r plain_inv_less [OF i]
    by (intro exI [of _ a] exI [of _ s]) (simp add: PlainIndex_address_def InMemoryDatabase_Query_def addressed_def)
qed

lemma PlainIndex_chunk_ok:
  assumes i: "plain_inv C (Suc n) s" and e: "chunk_ok C e" and v: "length v = RecipeEntry_size" and r: "base_recipe C h s es"
  shows "\<exists>a s'. PlainIndex_chunk C e (v, s) = Inr (RecipeEntry_bytes a, s') \<and> addressed C n s e a s' \<and> base_recipe C h s' (es @ [RecipeEntry_bytes a]) \<and>
     bs_keyRecipe s' = bs_keyRecipe s"
proof -
  have C: "client_ok C" and R: "0 < sendRecipeBatchSize C" "sendRecipeBatchSize C < 2 ^ 32" using i by (simp_all add: plain_inv_def base_inv_def)
  from PlainIndex_address_ok [OF assms] obtain a s3 where s3: "PlainIndex_address C (client_fp C e) e (v, s) = Inr (RecipeEntry_bytes a, s3)"
      "addressed C n s e a s3" "base_recipe C h s3 es" "bs_keyRecipe s3 = bs_keyRecipe s" by blast
  have la: "length (RecipeEntry_bytes a) = RecipeEntry_size" using s3(2) by (simp add: addressed_def)
  from Base_UpdateFileRecipe_ok [OF s3(3) la R] obtain s4 where s4: "Base_UpdateFileRecipe C (RecipeEntry_bytes a) s3 = Inr s4"
      "base_recipe C h s4 (es @ [RecipeEntry_bytes a])" "base_rest s3 s4" by blast
  let ?s5 = "s4\<lparr>bs_stats := (bs_stats s4)\<lparr>logicalDataSize := logicalDataSize (bs_stats s4) + of_nat (length e), logicalChunkNum := logicalChunkNum (bs_stats s4) + 1\<rparr>\<rparr>"
  have r5: "base_rest s3 ?s5" using s4(3) by (simp add: base_rest_def)
  have "addressed C n s e a ?s5" using s3(2) plain_inv_rest [OF r5] base_rest_views(1) [OF r5] by (simp add: addressed_def base_resolve_def)
  moreover have "PlainIndex_chunk C e (v, s) = Inr (RecipeEntry_bytes a, ?s5)"
    using s3(1) s4(1) by (simp add: PlainIndex_chunk_def client_fp_eq(1) [OF C] Let_def)
  moreover have "base_recipe C h ?s5 (es @ [RecipeEntry_bytes a])" using s4(2) by (simp add: base_recipe_def)
  moreover have "bs_keyRecipe ?s5 = bs_keyRecipe s" using s3(4) s4(3) by (simp add: base_rest_def)
  ultimately show ?thesis by blast
qed

section \<open>A whole upload\<close>

text \<open>The entries \<open>as\<close> lead to chunks with the fingerprints of \<open>es\<close>.\<close>

definition base_leads :: "enclave_cfg \<Rightarrow> (bytes \<rightharpoonup> bytes) \<Rightarrow> recipe_entry list \<Rightarrow> bytes list \<Rightarrow> bool" where
  "base_leads C m as es \<longleftrightarrow> list_all2 (\<lambda>a e. wf_entry a \<and> (\<exists>e'. base_chunk_in C m a = Some e' \<and> client_fp C e' = client_fp C e)) as es"

lemma base_leads_keep:
  "base_leads C m as es \<Longrightarrow> (\<And>a d. base_chunk_in C m a = Some d \<Longrightarrow> base_chunk_in C m' a = Some d) \<Longrightarrow> base_leads C m' as es"
  unfolding base_leads_def by (erule list_all2_mono) blast

text \<open>In the course of an upload: \<open>n\<close> more chunks can come, the chunks \<open>es\<close> and the key recipe \<open>kr\<close> have come; the
  chunks that were on disk before, in \<open>m0\<close>, are still there.\<close>

definition receiving :: "enclave_cfg \<Rightarrow> (bytes \<rightharpoonup> bytes) \<Rightarrow> bytes \<Rightarrow> nat \<Rightarrow> bytes list \<Rightarrow> bytes \<Rightarrow> base_server \<Rightarrow> bool" where
  "receiving C m0 h n es kr s \<longleftrightarrow> plain_inv C n s \<and> bs_keyRecipe s = kr \<and>
     (\<forall>a d. base_chunk_in C m0 a = Some d \<longrightarrow> base_chunk_in C (base_stored s) a = Some d) \<and>
     (\<exists>as. base_recipe C h s (map RecipeEntry_bytes as) \<and> base_leads C (base_stored s) as es)"

lemma receiving_chunk:
  assumes r: "receiving C m0 h (Suc n) es kr s" and e: "chunk_ok C e" and v: "length v = RecipeEntry_size"
  shows "\<exists>v' s'. PlainIndex_chunk C e (v, s) = Inr (v', s') \<and> length v' = RecipeEntry_size \<and> receiving C m0 h n (es @ [e]) kr s'"
proof -
  from r obtain as where a: "plain_inv C (Suc n) s" "bs_keyRecipe s = kr" "base_recipe C h s (map RecipeEntry_bytes as)" "base_leads C (base_stored s) as es"
      "\<forall>a d. base_chunk_in C m0 a = Some d \<longrightarrow> base_chunk_in C (base_stored s) a = Some d"
    unfolding receiving_def by blast
  from PlainIndex_chunk_ok [OF a(1) e v a(3)] obtain b s' where b: "PlainIndex_chunk C e (v, s) = Inr (RecipeEntry_bytes b, s')" "addressed C n s e b s'"
      "base_recipe C h s' (map RecipeEntry_bytes (as @ [b]))" "bs_keyRecipe s' = kr" using a(2) by auto
  have g: "base_chunk_in C (base_stored s') c = Some d" if "base_chunk_in C (base_stored s) c = Some d" for c d
    using that b(2) grows_chunk by (auto simp: addressed_def)
  have "base_leads C (base_stored s') as es" by (rule base_leads_keep [OF a(4) g])
  then have "base_leads C (base_stored s') (as @ [b]) (es @ [e])" using b(2)
    by (auto simp: base_leads_def addressed_def base_resolve_def intro!: list_all2_appendI)
  with b(2-4) a(5) g have "receiving C m0 h n (es @ [e]) kr s'" unfolding receiving_def addressed_def by blast
  moreover have "length (RecipeEntry_bytes b) = RecipeEntry_size" using b(2) by (simp add: addressed_def)
  ultimately show ?thesis using b(1) by blast
qed

lemma PlainIndex_ProcessOneBatch_ok:
  assumes r: "receiving C m0 h (length cs + n) es kr s" and m: "base_chunk_msg C m cs" and ok: "\<forall>e \<in> set cs. chunk_ok C e"
  shows "\<exists>s'. PlainIndex_ProcessOneBatch C m s = Inr s' \<and> receiving C m0 h n (es @ cs) kr s'"
proof -
  let ?s0 = "s\<lparr>bs_recvDataSize := bs_recvDataSize s + ucast (dataSize m), bs_batchNum := bs_batchNum s + 1\<rparr>"
  have buf: "dataBuffer m = encode_chunks cs" "unat (currentItemNum m) = length cs" "\<forall>e \<in> set cs. length e \<le> unat MAX_CHUNK_SIZE"
    using m by (simp_all add: base_chunk_msg_def)
  have rest: "base_rest s ?s0" by (simp add: base_rest_def)
  have r0: "receiving C m0 h (length cs + n) es kr ?s0"
    using r plain_inv_rest [OF rest] base_rest_views(1) [OF rest] by (simp add: receiving_def base_recipe_def)
  have "\<exists>v s'. rfold (\<lambda>i. PlainIndex_next C (encode_chunks cs)) [0..<k] ((replicate RecipeEntry_size 0, ?s0), 0) =
      Inr ((v, s'), length (encode_chunks (take k cs))) \<and> length v = RecipeEntry_size \<and> receiving C m0 h (length cs - k + n) (es @ take k cs) kr s'"
    if "k \<le> length cs" for k
    using that
  proof (induction k)
    case 0
    then show ?case using r0 by simp
  next
    case (Suc k)
    then obtain v s1 where s1: "rfold (\<lambda>i. PlainIndex_next C (encode_chunks cs)) [0..<k] ((replicate RecipeEntry_size 0, ?s0), 0) =
        Inr ((v, s1), length (encode_chunks (take k cs)))" "length v = RecipeEntry_size" "receiving C m0 h (length cs - k + n) (es @ take k cs) kr s1" by auto
    have k: "k < length cs" "length cs - k + n = Suc (length cs - Suc k + n)" using Suc.prems by simp_all
    have "chunk_ok C (cs ! k)" using ok k(1) by simp
    from receiving_chunk [OF s1(3) [unfolded k(2)] this s1(2)] obtain v' s2 where "PlainIndex_chunk C (cs ! k) (v, s1) = Inr (v', s2)" "length v' = RecipeEntry_size"
        "receiving C m0 h (length cs - Suc k + n) ((es @ take k cs) @ [cs ! k]) kr s2" by blast
    moreover from this have "PlainIndex_next C (encode_chunks cs) ((v, s1), length (encode_chunks (take k cs))) = Inr ((v', s2), length (encode_chunks (take (Suc k) cs)))"
      using read_encoded [OF buf(3) k(1), of "[]"] by (simp add: PlainIndex_next_def)
    ultimately show ?case using s1(1) k(1) by (intro exI [of _ v'] exI [of _ s2]) (simp add: rfold_append take_Suc_conv_app_nth)
  qed
  from this [OF order_refl] show ?thesis using buf by (auto simp: PlainIndex_ProcessOneBatch_def)
qed

lemma receiving_recipe:
  assumes "receiving C m0 h n es kr s" and "take (unat (dataSize m)) (dataBuffer m) = dataBuffer m"
  shows "receiving C m0 h n es (kr @ dataBuffer m) (ProcessRecipes m s)"
  using assms
  by (simp add: receiving_def ProcessRecipes_def plain_inv_def base_key_views base_resolve_def base_index_def base_recipe_def base_containers.sound_def)

lemma receive_all:
  assumes "\<forall>m \<in> set ms. on_wire m = m \<and> (messageType m = CLIENT_UPLOAD_CHUNK \<or> messageType m = CLIENT_UPLOAD_RECIPE)"
    and "list_all2 (base_chunk_msg C) (filter (\<lambda>m. messageType m = CLIENT_UPLOAD_CHUNK) ms) ess" and "\<forall>e \<in> set (concat ess). chunk_ok C e"
    and "receiving C m0 h (length (concat ess) + n) es kr s"
  shows "\<exists>r' s'. rfold (BaseReceiver_message C) ms (r, s) = Inr (r', s') \<and>
     receiving C m0 h n (es @ concat ess) (kr @ concat (map dataBuffer (filter (\<lambda>m. messageType m = CLIENT_UPLOAD_RECIPE) ms))) s'"
  using assms
proof (induction ms arbitrary: ess es kr r s)
  case (Cons m ms)
  show ?case
  proof (cases "messageType m = CLIENT_UPLOAD_CHUNK")
    case True
    with Cons.prems(2) obtain cs ess1 where ess: "ess = cs # ess1" "base_chunk_msg C m cs"
        "list_all2 (base_chunk_msg C) (filter (\<lambda>m. messageType m = CLIENT_UPLOAD_CHUNK) ms) ess1" by (auto simp: list_all2_Cons1)
    have "receiving C m0 h (length cs + (length (concat ess1) + n)) es kr s" using Cons.prems(4) ess(1) by (simp add: add.assoc)
    from PlainIndex_ProcessOneBatch_ok [OF this ess(2)] Cons.prems(3) ess(1) obtain s1 where
      s1: "PlainIndex_ProcessOneBatch C m s = Inr s1" "receiving C m0 h (length (concat ess1) + n) (es @ cs) kr s1" by auto
    from Cons.IH [OF _ ess(3) _ s1(2), of "r\<lparr>rv_batchNum := rv_batchNum r + 1\<rparr>"] Cons.prems(1,3) ess(1) obtain r' s' where
      "rfold (BaseReceiver_message C) ms (r\<lparr>rv_batchNum := rv_batchNum r + 1\<rparr>, s1) = Inr (r', s')"
      "receiving C m0 h n ((es @ cs) @ concat ess1) (kr @ concat (map dataBuffer (filter (\<lambda>m. messageType m = CLIENT_UPLOAD_RECIPE) ms))) s'" by auto
    moreover have "BaseReceiver_message C m (r, s) = Inr (r\<lparr>rv_batchNum := rv_batchNum r + 1\<rparr>, s1)" using True s1(1) by (simp add: BaseReceiver_message_def)
    ultimately show ?thesis using True ess(1) by simp
  next
    case False
    then have m: "messageType m = CLIENT_UPLOAD_RECIPE" "on_wire m = m" using Cons.prems(1) by auto
    then have d: "take (unat (dataSize m)) (dataBuffer m) = dataBuffer m" by (metis net_msg.select_convs(5) net_msg.surjective net_msg.update_convs(5) on_wire_def)
    let ?s = "ProcessRecipes m s" and ?r = "r\<lparr>rv_recipeBatchNum := rv_recipeBatchNum r + 1\<rparr>"
    have "receiving C m0 h (length (concat ess) + n) es (kr @ dataBuffer m) ?s" using Cons.prems(4) d by (rule receiving_recipe)
    from Cons.IH [OF _ _ Cons.prems(3) this, of ?r] Cons.prems(1,2) m(1) obtain r' s' where
      "rfold (BaseReceiver_message C) ms (?r, ?s) = Inr (r', s')"
      "receiving C m0 h n (es @ concat ess) ((kr @ dataBuffer m) @ concat (map dataBuffer (filter (\<lambda>m. messageType m = CLIENT_UPLOAD_RECIPE) ms))) s'" by auto
    moreover have "BaseReceiver_message C m (r, s) = Inr (?r, ?s)" using m(1) by (simp add: BaseReceiver_message_def)
    ultimately show ?thesis using m(1) by simp
  qed
qed auto

section \<open>Between uploads\<close>

text \<open>The storage of the server when no upload is under way; \<open>n\<close> container names can still be drawn.\<close>

definition base_kept :: "enclave_cfg \<Rightarrow> nat \<Rightarrow> storage \<Rightarrow> bool" where
  "base_kept C n S \<longleftrightarrow> client_ok C \<and> lz4_ok C \<and> 0 < sendRecipeBatchSize C \<and> sendRecipeBatchSize C < 2 ^ 32 \<and>
     (\<forall>b \<in> ran (containerFiles S). length b \<le> unat MAX_CONTAINER_SIZE) \<and> fresh_from C n (randPos S) (dom (containerFiles S)) \<and>
     (\<forall>h v. indexStore S h = Some v \<longrightarrow>
        (\<exists>a e. wf_entry a \<and> v = RecipeEntry_bytes a \<and> base_chunk_in C (containerFiles S) a = Some e \<and> client_fp C e = h))"

text \<open>A container without data makes no difference.\<close>

lemma base_chunk_in_blank:
  "base_chunk_in C (m(n \<mapsto> [])) a = Some d \<Longrightarrow> base_chunk_in C m a = Some d"
  "m n = None \<Longrightarrow> base_chunk_in C m a = Some d \<Longrightarrow> base_chunk_in C (m(n \<mapsto> [])) a = Some d"
  by (auto simp: base_chunk_in_def Let_def split: if_splits)

lemma base_kept_start:
  assumes k: "base_kept C (Suc n) S"
  shows "\<exists>h. length h = 16 \<and> receiving C (containerFiles S) h n [] [] (Base_InitUploadBuffer C junk st S)"
proof -
  let ?s = "Base_InitUploadBuffer C junk st S" and ?u = "uuid_at C (randPos S)" and ?h = "take 16 (junk @ replicate 16 0)"
  have fr: "fresh_from C (Suc n) (randPos S) (dom (containerFiles S))" using k by (simp add: base_kept_def)
  note f = fresh_from_Suc [OF fr]
  have s: "bs_container ?s = \<lparr>containerID = ?u, body = [], currentSize = 0\<rparr>" "bs_inputMQ ?s = []" "bs_recipe ?s = \<lparr>recipeNum = 0, entryList = []\<rparr>"
      "bs_recipeFile ?s = Some ?h" "bs_keyRecipe ?s = []" "bs_store ?s = S\<lparr>randPos := randPos S + CONTAINER_ID_LENGTH\<rparr>"
    by (simp_all add: Base_InitUploadBuffer_def uuid_at_def CreateUUID_def)
  have name: "base_name ?s = ?u" by (simp add: base_name_def s)
  have stored: "base_stored ?s = (containerFiles S)(?u \<mapsto> [])" by (simp add: base_stored_def name s mq_map_def container_data_def)
  have out: "containerFiles S ?u = None" using f(1) by blast
  have keep: "base_chunk_in C (base_stored ?s) a = Some d" if "base_chunk_in C (containerFiles S) a = Some d" for a d
    unfolding stored using base_chunk_in_blank(2) [OF out that] .
  have "fresh_from C n (randPos S + CONTAINER_ID_LENGTH) (insert ?u (dom (containerFiles S)))" by (rule f(3)) simp
  then have "base_inv C n ?s" using k f(1) by (simp add: base_inv_def base_used_def name base_kept_def s mq_map_def const_defs)
  moreover have "base_containers.sound C (client_fp C) ?s (base_index ?s)"
    unfolding base_containers.sound_def
  proof (intro allI impI)
    fix h a assume "base_index ?s h = Some a"
    then obtain v where v: "indexStore S h = Some v" "a = RecipeEntry_of_bytes v" by (auto simp: base_index_def s)
    with k obtain b e where "wf_entry b" "v = RecipeEntry_bytes b" "base_chunk_in C (containerFiles S) b = Some e" "client_fp C e = h"
      unfolding base_kept_def by blast
    with v keep show "\<exists>d. base_resolve C ?s a = Some d \<and> client_fp C d = h" by (auto simp: base_resolve_def)
  qed
  moreover have "\<forall>v \<in> ran (indexStore (bs_store ?s)). \<exists>a. wf_entry a \<and> v = RecipeEntry_bytes a"
    using k unfolding s ran_def base_kept_def by simp blast
  moreover have "base_recipe C ?h ?s (map RecipeEntry_bytes [])" using k by (simp add: base_recipe_def s entry_bytes_def base_kept_def)
  ultimately have "receiving C (containerFiles S) ?h n [] [] ?s" unfolding receiving_def plain_inv_def base_leads_def using s(5) keep by blast
  then show ?thesis by (intro exI [of _ ?h]) simp
qed

lemma fresh_from_subset: "fresh_from C n p U \<Longrightarrow> U' \<subseteq> U \<Longrightarrow> fresh_from C n p U'"
  unfolding fresh_from_def Let_def by blast

text \<open>The last container and the writer.\<close>

lemma base_finish:
  assumes i: "plain_inv C (Suc n) s" and o: "\<forall>x. can_open x"
  shows "\<exists>s'. Base_DataWriter_Run can_open (if currentSize (bs_container s) \<noteq> 0 then Base_Ocall_WriteContainer C s else s) = Inr s' \<and>
     base_kept C n (bs_store s') \<and> bs_keyRecipe s' = bs_keyRecipe s \<and>
     (\<forall>a d. base_chunk_in C (base_stored s) a = Some d \<longrightarrow> base_chunk_in C (containerFiles (bs_store s')) a = Some d)"
proof -
  define t where "t = (if currentSize (bs_container s) \<noteq> 0 then Base_Ocall_WriteContainer C s else s)"
  let ?m = "containerFiles (bs_store t) ++ mq_map (bs_inputMQ t)"
  let ?s' = "t\<lparr>bs_inputMQ := [], bs_store := (bs_store t)\<lparr>containerFiles := ?m\<rparr>\<rparr>"
  have bi: "base_inv C (Suc n) s" using i by (simp add: plain_inv_def)
  have it: "base_inv C n t" using Base_rollover(1) [OF bi] base_inv_less [OF bi] by (simp add: t_def)
  have m: "?m = (if currentSize (bs_container s) \<noteq> 0 then base_stored s else containerFiles (bs_store s) ++ mq_map (bs_inputMQ s))"
    unfolding t_def by (cases "currentSize (bs_container s) = 0") (simp, simp add: base_stored_def mq_map_snoc base_name_def)
  have idx: "indexStore (bs_store t) = indexStore (bs_store s)" "bs_keyRecipe t = bs_keyRecipe s" by (simp_all add: t_def)
  have keep: "base_chunk_in C ?m a = Some d" if "base_chunk_in C (base_stored s) a = Some d" for a d
  proof (cases "currentSize (bs_container s) = 0")
    case True
    then have e: "base_stored s = (containerFiles (bs_store s) ++ mq_map (bs_inputMQ s))(base_name s \<mapsto> [])" by (simp add: base_stored_def container_data_def)
    from that [unfolded e] have "base_chunk_in C (containerFiles (bs_store s) ++ mq_map (bs_inputMQ s)) a = Some d" by (rule base_chunk_in_blank(1))
    then show ?thesis using True unfolding m by simp
  next
    case False
    with that show ?thesis unfolding m by simp
  qed
  have "\<exists>a e. wf_entry a \<and> v = RecipeEntry_bytes a \<and> base_chunk_in C ?m a = Some e \<and> client_fp C e = h" if "indexStore (bs_store s) h = Some v" for h v
  proof -
    from plain_inv_found [OF i that] obtain a e where "v = RecipeEntry_bytes a" "wf_entry a" "base_resolve C s a = Some e" "client_fp C e = h" .
    with keep [of a e] show ?thesis unfolding base_resolve_def by blast
  qed
  moreover have "fresh_from C n (randPos (bs_store t)) (dom ?m)"
  proof -
    have "dom ?m \<subseteq> base_used t" by (auto simp: base_used_def)
    moreover have "fresh_from C n (randPos (bs_store t)) (base_used t)" using it by (simp add: base_inv_def)
    ultimately show ?thesis by (rule fresh_from_subset [rotated])
  qed
  moreover have "\<forall>b \<in> ran ?m. length b \<le> unat MAX_CONTAINER_SIZE" using it by (simp add: base_inv_def)
  moreover have "client_ok C" "lz4_ok C" "0 < sendRecipeBatchSize C" "sendRecipeBatchSize C < 2 ^ 32" using bi by (simp_all add: base_inv_def)
  ultimately have "base_kept C n (bs_store ?s')" unfolding base_kept_def by (simp add: idx)
  moreover have "Base_DataWriter_Run can_open t = Inr ?s'" by (simp add: Base_DataWriter_Run_def SaveToFile_all [OF o])
  ultimately show ?thesis using keep unfolding t_def [symmetric] by (intro exI [of _ ?s']) (simp add: idx(2))
qed

lemma BaseReceiver_Run_ok:
  assumes k: "base_kept C (Suc (length es + Suc n)) S" and sent: "base_sent C ms es kr" and em: "messageType em = CLIENT_UPLOAD_RECIPE_END"
    and ok: "\<forall>e \<in> set es. chunk_ok C e" and o: "\<forall>x. can_open x"
  shows "\<exists>r s as. BaseReceiver_Run C can_open (ms @ [em]) (Base_InitUploadBuffer C junk st S) = Inr (r, s) \<and>
     rv_finished r = Some (FileRecipeHead_bytes (FileRecipeHead_of_bytes (dataBuffer em)) @ concat (map RecipeEntry_bytes as)) \<and>
     base_leads C (containerFiles (bs_store s)) as es \<and> base_kept C n (bs_store s) \<and> bs_keyRecipe s = kr \<and>
     (\<forall>a d. base_chunk_in C (containerFiles S) a = Some d \<longrightarrow> base_chunk_in C (containerFiles (bs_store s)) a = Some d)"
proof -
  let ?s0 = "Base_InitUploadBuffer C junk st S" and ?m0 = "containerFiles S"
  from base_kept_start [OF k] obtain h where h: "length h = 16" "receiving C ?m0 h (length es + Suc n) [] [] ?s0" by blast
  from sent obtain ess where e: "\<forall>m \<in> set ms. on_wire m = m \<and> (messageType m = CLIENT_UPLOAD_CHUNK \<or> messageType m = CLIENT_UPLOAD_RECIPE)"
      "list_all2 (base_chunk_msg C) (filter (\<lambda>m. messageType m = CLIENT_UPLOAD_CHUNK) ms) ess" "concat ess = es"
      "concat (map dataBuffer (filter (\<lambda>m. messageType m = CLIENT_UPLOAD_RECIPE) ms)) = kr" unfolding base_sent_def by blast
  have r0: "receiving C ?m0 h (length (concat ess) + Suc n) [] [] ?s0" using h(2) e(3) by simp
  from receive_all [OF e(1,2) _ r0, of BaseReceiver_new] ok e(3,4) obtain r1 s1 where
    s1: "rfold (BaseReceiver_message C) ms (BaseReceiver_new, ?s0) = Inr (r1, s1)" "receiving C ?m0 h (Suc n) es kr s1" by auto
  from s1(2) obtain as where a: "plain_inv C (Suc n) s1" "bs_keyRecipe s1 = kr" "base_recipe C h s1 (map RecipeEntry_bytes as)" "base_leads C (base_stored s1) as es"
      "\<forall>a d. base_chunk_in C ?m0 a = Some d \<longrightarrow> base_chunk_in C (base_stored s1) a = Some d" unfolding receiving_def by blast
  from PlainIndex_ProcessTailBatch_ok [OF a(3)] obtain s2 where s2: "PlainIndex_ProcessTailBatch s1 = Inr s2"
      "bs_recipeFile s2 = Some (h @ concat (map RecipeEntry_bytes as))" "base_rest s1 s2" by blast
  let ?head = "FileRecipeHead_bytes (FileRecipeHead_of_bytes (dataBuffer em))" and ?s3 = "s2\<lparr>bs_recipeFile := None\<rparr>"
  let ?r = "r1\<lparr>rv_recipeEndNum := rv_recipeEndNum r1 + 1, rv_finished := Some (?head @ concat (map RecipeEntry_bytes as)),
      rv_uploadDataSize := fileSize (FileRecipeHead_of_bytes (dataBuffer em))\<rparr>"
  have msg: "BaseReceiver_message C em (r1, s1) = Inr (?r, ?s3)"
    using em s2(1,2) h(1) by (simp add: BaseReceiver_message_def FinalizeRecipe_def memcpy_at_def)
  have rest: "base_rest s1 ?s3" using s2(3) by (simp add: base_rest_def)
  have p3: "plain_inv C (Suc n) ?s3" using a(1) plain_inv_rest [OF rest] by blast
  from base_finish [OF p3 o] obtain s' where f: "Base_DataWriter_Run can_open (if currentSize (bs_container ?s3) \<noteq> 0 then Base_Ocall_WriteContainer C ?s3 else ?s3) = Inr s'"
      "base_kept C n (bs_store s')" "bs_keyRecipe s' = bs_keyRecipe ?s3" "\<forall>a d. base_chunk_in C (base_stored ?s3) a = Some d \<longrightarrow> base_chunk_in C (containerFiles (bs_store s')) a = Some d" by blast
  note st = base_rest_views(1) [OF rest]
  have g: "base_chunk_in C (containerFiles (bs_store s')) c = Some d" if "base_chunk_in C (base_stored s1) c = Some d" for c d using f(4) that st by simp
  have "BaseReceiver_Run C can_open (ms @ [em]) ?s0 = Inr (?r, s')" using s1(1) msg f(1) by (simp add: BaseReceiver_Run_def rfold_append)
  moreover have "base_leads C (containerFiles (bs_store s')) as es" by (rule base_leads_keep [OF a(4) g])
  moreover have "bs_keyRecipe s' = kr" using f(3) rest a(2) by (simp add: base_rest_def)
  ultimately show ?thesis using f(2) a(5) g by (intro exI [of _ ?r] exI [of _ s'] exI [of _ as]) auto
qed

end
