(* ===== verification/BaseRestore.thy ===== *)
theory BaseRestore
  imports BaseServer
begin

text \<open>
  The restore side of the server of \<open>src/Baseline\<close> (\<open>Server/recvDecoder.cc\<close>): the plain recipe is read in batches, sixteen
  containers are fetched at a time, and the cipher chunks go to the client as they were uploaded. A restore
  whose last entry fills the sixteenth container has no final message.
\<close>

section \<open>Operations\<close>

text \<open>
  The state is \<open>restore_state\<close>: \<open>_enclaveRecipeBuffer\<close> and the messages are where the prototype has them, and the
  fields for keys stay empty. Fetching is the same code.
\<close>

definition Base_InitRestoreBuffer :: "nat \<Rightarrow> u32 \<Rightarrow> (bytes \<rightharpoonup> bytes) \<Rightarrow> restore_state" where
  "Base_InitRestoreBuffer readCacheSize cid files =
     ClientVar_InitRestoreBuffer readCacheSize cid
       \<lparr>rs_sessionKey = [], rs_masterKey = [], plainRecipeBuffer = [], enclaveRecipeBuffer = [], restoreChunkBuffer = blank_msg cid\<rparr> files"

definition Base_GetReqContainers :: "restore_state \<Rightarrow> restore_state res" where
  "Base_GetReqContainers s = GetReqContainers s"

text \<open>The decompression may write \<open>MAX_CHUNK_SIZE\<close> bytes behind the size field.\<close>

definition Base_RecoverOneChunk :: "enclave_cfg \<Rightarrow> bytes \<Rightarrow> nat \<Rightarrow> nat \<Rightarrow> net_msg \<Rightarrow> net_msg res" where
  "Base_RecoverOneChunk C container offset chunkSize m =
     (let d = base_recover C (read_at container offset chunkSize) in
      if length container < offset + chunkSize then Inl (Undefined ''read behind the container'')
      else if sendChunkBatchSize C * Chunk_size < unat (dataSize m) + Chunk_size \<or> unat MAX_CHUNK_SIZE < length d then
        Inl (Undefined ''write behind the restore buffer'')
      else
        Inr (m\<lparr>dataBuffer := memcpy_at (memcpy_at (dataBuffer m) (unat (dataSize m)) (u32_bytes (of_nat (length d)))) (unat (dataSize m) + 4) d,
               dataSize := dataSize m + (4 + of_nat (length d)), currentItemNum := currentItemNum m + 1\<rparr>))"

definition Base_SendBatchChunks :: "(net_msg \<Rightarrow> bool) \<Rightarrow> protocol_code \<Rightarrow> restore_state \<Rightarrow> restore_state res" where
  "Base_SendBatchChunks can_send t s =
     (let m = (sendChunkBuf s)\<lparr>messageType := t\<rparr> in
      if can_send (on_wire m) then Inr (s\<lparr>sent := sent s @ [on_wire m], sendChunkBuf := m\<lparr>dataSize := 0, currentItemNum := 0\<rparr>\<rparr>)
      else Inl (ProcExit ''send the batch of restored chunks error.''))"

definition base_recover_entry :: "enclave_cfg \<Rightarrow> enclave_recipe_entry \<Rightarrow> restore_state \<Rightarrow> restore_state res" where
  "base_recover_entry C e s =
     (if unat (er_containerID e) < length (containerArray (reqContainer s)) then
        rbind (Base_RecoverOneChunk C (containerArray (reqContainer s) ! unat (er_containerID e)) (unat (er_offset e)) (unat (er_length e)) (sendChunkBuf s))
          (\<lambda>m. Inr (s\<lparr>sendChunkBuf := m\<rparr>))
      else Inl (Undefined ''container array index out of range''))"

definition base_batch_full :: "enclave_cfg \<Rightarrow> restore_state \<Rightarrow> bool" where
  "base_batch_full C s \<longleftrightarrow> unat (currentItemNum (sendChunkBuf s)) mod sendChunkBatchSize C = 0"

definition base_recover_and_send :: "enclave_cfg \<Rightarrow> (net_msg \<Rightarrow> bool) \<Rightarrow> enclave_recipe_entry \<Rightarrow> restore_state \<Rightarrow> restore_state res" where
  "base_recover_and_send C can_send e s =
     rbind (base_recover_entry C e s) (\<lambda>s1. if base_batch_full C s1 then Base_SendBatchChunks can_send SERVER_RESTORE_CHUNK s1 else Inr s1)"

definition Base_recipe_entry ::
  "enclave_cfg \<Rightarrow> (net_msg \<Rightarrow> bool) \<Rightarrow> recipe_entry \<Rightarrow> (bytes \<rightharpoonup> u32) \<times> restore_state \<Rightarrow> ((bytes \<rightharpoonup> u32) \<times> restore_state) res" where
  "Base_recipe_entry C can_send r st =
     (let (tmpContainerMap, s) = st; rq = reqContainer s;
          (cid, tmpContainerMap1, rq1) =
            (case tmpContainerMap (containerName r) of
               None \<Rightarrow> (idNum rq, tmpContainerMap(containerName r \<mapsto> idNum rq),
                        rq\<lparr>idBuffer := memcpy_at (idBuffer rq) (unat (idNum rq) * CONTAINER_ID_LENGTH) (containerName r), idNum := idNum rq + 1\<rparr>)
             | Some k \<Rightarrow> (k, tmpContainerMap, rq));
          e = \<lparr>er_containerID = cid, er_offset = re_offset r, er_length = re_length r\<rparr>;
          s1 = s\<lparr>reqContainer := rq1, rsgx := (rsgx s)\<lparr>enclaveRecipeBuffer := enclaveRecipeBuffer (rsgx s) @ [e]\<rparr>\<rparr>
      in if idNum rq1 = of_nat CONTAINER_CAPPING_VALUE then
           rbind (Base_GetReqContainers s1) (\<lambda>s2.
           rbind (rfold (base_recover_and_send C can_send) (enclaveRecipeBuffer (rsgx s2)) s2) (\<lambda>s3.
             Inr (Map.empty, s3\<lparr>reqContainer := (reqContainer s3)\<lparr>idNum := 0\<rparr>, rsgx := (rsgx s3)\<lparr>enclaveRecipeBuffer := []\<rparr>\<rparr>)))
         else Inr (tmpContainerMap1, s1))"

definition Base_ProcessRecipeBatch :: "enclave_cfg \<Rightarrow> (net_msg \<Rightarrow> bool) \<Rightarrow> bytes \<Rightarrow> nat \<Rightarrow> restore_state \<Rightarrow> restore_state res" where
  "Base_ProcessRecipeBatch C can_send recipeBuffer num s =
     rbind (rfold (Base_recipe_entry C can_send)
              (map (\<lambda>i. RecipeEntry_of_bytes (read_at recipeBuffer (i * RecipeEntry_size) RecipeEntry_size)) [0..<num]) (Map.empty, s))
       (\<lambda>(_, s1). Inr s1)"

fun base_tail_chunks :: "enclave_cfg \<Rightarrow> (net_msg \<Rightarrow> bool) \<Rightarrow> enclave_recipe_entry list \<Rightarrow> restore_state \<Rightarrow> restore_state res" where
  "base_tail_chunks C can_send [] s = Inr s"
| "base_tail_chunks C can_send (e # es) s =
     rbind (base_recover_entry C e s) (\<lambda>s1.
     rbind (if base_batch_full C s1 \<or> es = []
            then Base_SendBatchChunks can_send (if es = [] then SERVER_RESTORE_FINAL else SERVER_RESTORE_CHUNK) s1
            else Inr s1)
       (base_tail_chunks C can_send es))"

text \<open>Nothing is sent when no entry is left over.\<close>

definition Base_ProcessRecipeTailBatch :: "enclave_cfg \<Rightarrow> (net_msg \<Rightarrow> bool) \<Rightarrow> restore_state \<Rightarrow> restore_state res" where
  "Base_ProcessRecipeTailBatch C can_send s =
     (if enclaveRecipeBuffer (rsgx s) \<noteq> [] then
        rbind (Base_GetReqContainers s) (\<lambda>s1. base_tail_chunks C can_send (enclaveRecipeBuffer (rsgx s1)) s1)
      else Inr s)"

text \<open>The ready message is received into the buffer for the restored chunks, whose header it replaces.\<close>

definition RecvDecoder_Run :: "enclave_cfg \<Rightarrow> (net_msg \<Rightarrow> bool) \<Rightarrow> net_msg option \<Rightarrow> bytes \<Rightarrow> restore_state \<Rightarrow> restore_state res" where
  "RecvDecoder_Run C can_send ready recipe s =
     (case ready of
        None \<Rightarrow> Inl (ProcExit ''recv the client ready error.'')
      | Some m \<Rightarrow>
          if messageType m \<noteq> CLIENT_RESTORE_READY then Inl (ProcExit ''wrong type of client ready reply.'')
          else
            rbind (rfold (\<lambda>b. Base_ProcessRecipeBatch C can_send b (length b div RecipeEntry_size))
                     (read_batches (RecipeEntry_size * sendRecipeBatchSize C) recipe) (s\<lparr>sendChunkBuf := receive_over (sendChunkBuf s) m\<rparr>))
              (Base_ProcessRecipeTailBatch C can_send))"

section \<open>Sending\<close>

definition base_flow :: "enclave_cfg \<Rightarrow> bytes list list \<Rightarrow> bytes list \<Rightarrow> restore_state \<Rightarrow> bool" where
  "base_flow C css pend s \<longleftrightarrow> 0 < sendChunkBatchSize C \<and> sendChunkBatchSize C * Chunk_size < 2 ^ 32 \<and>
     list_all2 (base_restore_msg C SERVER_RESTORE_CHUNK) (sent s) css \<and> pending (sendChunkBuf s) pend \<and> length pend < sendChunkBatchSize C"

text \<open>What recovering and sending leaves alone.\<close>

definition base_keeps :: "restore_state \<Rightarrow> restore_state \<Rightarrow> bool" where
  "base_keeps s s' \<longleftrightarrow> reqContainer s' = reqContainer s \<and> containerCache s' = containerCache s \<and> rfiles s' = rfiles s \<and> rsgx s' = rsgx s"

lemma base_keeps_trans: "base_keeps s s1 \<Longrightarrow> base_keeps s1 s' \<Longrightarrow> base_keeps s s'"
  by (simp add: base_keeps_def)

lemma base_keeps_fetched: "base_keeps s s' \<Longrightarrow> fetched files names s' = fetched files names s"
  by (simp add: base_keeps_def fetched_def)

text \<open>The buffer of a message after one more chunk is that of the sender.\<close>

lemma base_recover_entry_ok:
  assumes f: "base_flow C css pend s" and ft: "fetched files names s" and sl: "slot names e a" and a: "base_chunk_in C files a = Some d"
  shows "\<exists>s'. base_recover_entry C e s = Inr s' \<and> pending (sendChunkBuf s') (pend @ [d]) \<and> base_keeps s s' \<and> sent s' = sent s"
proof -
  let ?x = "containerArray (reqContainer s) ! unat (er_containerID e)" and ?m = "sendChunkBuf s"
  from a obtain b where b: "files (containerName a) = Some b" "unat (re_offset a) + unat (re_length a) \<le> length b"
      "d = base_recover C (read_at b (unat (re_offset a)) (unat (re_length a)))" "length d \<le> unat MAX_CHUNK_SIZE"
    by (auto simp: base_chunk_in_def Let_def split: option.splits if_splits)
  have i: "unat (er_containerID e) < length (containerArray (reqContainer s))" and tb: "take (length b) ?x = b"
    using ft sl b(1) by (auto simp: fetched_def slot_def)
  have rx: "read_at ?x (unat (re_offset a)) (unat (re_length a)) = read_at b (unat (re_offset a)) (unat (re_length a))" using read_at_prefix [OF tb b(2)] .
  have lx: "length b \<le> length ?x" using tb by (metis length_take min.cobounded1 min.commute)
  have B: "sendChunkBatchSize C * Chunk_size < 2 ^ 32" "pending ?m pend" "length pend < sendChunkBatchSize C" using f by (simp_all add: base_flow_def)
  note ap = append_chunk_pending [OF B(2) b(4) B(3) B(1)]
  have room: "unat (dataSize ?m) + Chunk_size \<le> sendChunkBatchSize C * Chunk_size"
  proof -
    have "unat (dataSize ?m) \<le> length pend * Chunk_size" using B(2) length_encode_chunks [of pend] by (simp add: pending_def)
    moreover have "Suc (length pend) * Chunk_size \<le> sendChunkBatchSize C * Chunk_size" using B(3) by (intro mult_le_mono1) simp
    ultimately show ?thesis by simp
  qed
  have "unat (dataSize ?m) + 4 < 2 ^ 32" using room B(1) by (simp add: Chunk_size_def const_defs)
  then have "unat (dataSize ?m + 4) = unat (dataSize ?m) + 4" by (subst unat_add_u32) simp_all
  then have "Base_RecoverOneChunk C ?x (unat (re_offset a)) (unat (re_length a)) ?m = Inr (append_chunk d ?m)"
    using b lx rx room by (simp add: Base_RecoverOneChunk_def append_chunk_def Let_def add.assoc)
  then show ?thesis using i sl ap(1) by (simp add: base_recover_entry_def slot_def base_keeps_def)
qed

lemma Base_SendBatchChunks_ok:
  assumes p: "pending (sendChunkBuf s) pend" and n: "length pend \<le> sendChunkBatchSize C" and snd: "\<forall>m. can_send m"
  shows "\<exists>s' m. Base_SendBatchChunks can_send t s = Inr s' \<and> sent s' = sent s @ [m] \<and> base_restore_msg C t m pend \<and> pending (sendChunkBuf s') [] \<and> base_keeps s s'"
  using assms by (simp add: Base_SendBatchChunks_def Let_def base_restore_msg_def on_wire_def pending_def base_keeps_def)

lemma base_recover_and_send_ok:
  assumes f: "base_flow C css pend s" and ft: "fetched files names s" and sl: "slot names e a" and a: "base_chunk_in C files a = Some d" and snd: "\<forall>m. can_send m"
  shows "\<exists>s' css' pend'. base_recover_and_send C can_send e s = Inr s' \<and> base_flow C css' pend' s' \<and> concat css' @ pend' = concat css @ pend @ [d] \<and> base_keeps s s'"
proof -
  from base_recover_entry_ok [OF f ft sl a] obtain s1 where
    s1: "base_recover_entry C e s = Inr s1" "pending (sendChunkBuf s1) (pend @ [d])" "base_keeps s s1" "sent s1 = sent s" by blast
  have n: "length pend < sendChunkBatchSize C" using f by (simp add: base_flow_def)
  have full: "base_batch_full C s1 \<longleftrightarrow> Suc (length pend) = sendChunkBatchSize C"
    using s1(2) n by (auto simp: base_batch_full_def pending_def mod_Suc)
  show ?thesis
  proof (cases "base_batch_full C s1")
    case True
    with full have "length (pend @ [d]) \<le> sendChunkBatchSize C" by simp
    from Base_SendBatchChunks_ok [OF s1(2) this snd, of SERVER_RESTORE_CHUNK] obtain s2 m where
      s2: "Base_SendBatchChunks can_send SERVER_RESTORE_CHUNK s1 = Inr s2" "sent s2 = sent s1 @ [m]" "base_restore_msg C SERVER_RESTORE_CHUNK m (pend @ [d])"
        "pending (sendChunkBuf s2) []" "base_keeps s1 s2" by blast
    have "base_flow C (css @ [pend @ [d]]) [] s2" using f s1(4) s2(2-4) by (auto simp: base_flow_def intro: list_all2_appendI)
    moreover have "base_recover_and_send C can_send e s = Inr s2" using s1(1) s2(1) True by (simp add: base_recover_and_send_def)
    ultimately show ?thesis using base_keeps_trans [OF s1(3) s2(5)] by (intro exI [of _ s2] exI [of _ "css @ [pend @ [d]]"] exI [of _ "[]"]) simp
  next
    case False
    then have "base_flow C css (pend @ [d]) s1" using f s1 full n by (auto simp: base_flow_def)
    moreover have "base_recover_and_send C can_send e s = Inr s1" using s1(1) False by (simp add: base_recover_and_send_def)
    ultimately show ?thesis using s1(3) by (intro exI [of _ s1] exI [of _ css] exI [of _ "pend @ [d]"]) simp
  qed
qed

lemma base_recover_all_ok:
  assumes "base_flow C css pend s" and "fetched files names s" and "list_all2 (slot names) es as"
    and "list_all2 (\<lambda>a d. base_chunk_in C files a = Some d) as ds" and snd: "\<forall>m. can_send m"
  shows "\<exists>s' css' pend'. rfold (base_recover_and_send C can_send) es s = Inr s' \<and> base_flow C css' pend' s' \<and>
     concat css' @ pend' = concat css @ pend @ ds \<and> base_keeps s s'"
  using assms(1-4)
proof (induction es arbitrary: css pend s as ds)
  case Nil
  then show ?case by (auto simp: base_keeps_def)
next
  case (Cons e es)
  from Cons.prems(3,4) obtain a as' d ds' where as: "as = a # as'" "slot names e a" "list_all2 (slot names) es as'"
      "ds = d # ds'" "base_chunk_in C files a = Some d" "list_all2 (\<lambda>a d. base_chunk_in C files a = Some d) as' ds'"
    by (auto simp: list_all2_Cons1)
  from base_recover_and_send_ok [OF Cons.prems(1,2) as(2,5) snd] obtain s1 css1 pend1 where
    s1: "base_recover_and_send C can_send e s = Inr s1" "base_flow C css1 pend1 s1" "concat css1 @ pend1 = concat css @ pend @ [d]" "base_keeps s s1" by blast
  have "fetched files names s1" using Cons.prems(2) base_keeps_fetched [OF s1(4)] by simp
  from Cons.IH [OF s1(2) this as(3,6)] obtain s' css' pend' where "rfold (base_recover_and_send C can_send) es s1 = Inr s'" "base_flow C css' pend' s'"
      "concat css' @ pend' = concat css1 @ pend1 @ ds'" "base_keeps s1 s'" by blast
  with s1 as(4) show ?case
    by (intro exI [of _ s'] exI [of _ css'] exI [of _ pend']) (auto intro: base_keeps_trans simp flip: append_assoc)
qed

section \<open>How many entries are left over\<close>

text \<open>
  The container names seen in the batch, the number of containers asked for and the number of entries that wait: all
  that decides whether \<open>ProcessRecipeTailBatch\<close> sends anything, as a function of the recipe.
\<close>

definition cap_entry :: "recipe_entry \<Rightarrow> bytes list \<times> nat \<times> nat \<Rightarrow> bytes list \<times> nat \<times> nat" where
  "cap_entry a st =
     (let (seen, ids, left) = st; new = containerName a \<notin> set seen;
          seen' = (if new then containerName a # seen else seen); ids' = (if new then ids + 1 else ids)
      in if ids' = CONTAINER_CAPPING_VALUE then ([], 0, 0) else (seen', ids', left + 1))"

definition cap_batch :: "recipe_entry list \<Rightarrow> nat \<times> nat \<Rightarrow> nat \<times> nat" where
  "cap_batch as st = snd (fold cap_entry as ([], st))"

text \<open>The recipe in batches of \<open>R\<close> entries.\<close>

function in_batches :: "nat \<Rightarrow> 'a list \<Rightarrow> 'a list list" where
  "in_batches R as = (if as = [] \<or> R = 0 then [] else take R as # in_batches R (drop R as))"
  by pat_completeness auto
termination
  by (relation "measure (\<lambda>(R, as). length as)") auto

declare in_batches.simps [simp del]

definition left_over :: "nat \<Rightarrow> recipe_entry list \<Rightarrow> nat" where
  "left_over R as = snd (fold cap_batch (in_batches R as) (0, 0))"

section \<open>The recipe\<close>

definition base_res_inv ::
  "enclave_cfg \<Rightarrow> (bytes \<rightharpoonup> bytes) \<Rightarrow> (bytes \<rightharpoonup> u32) \<Rightarrow> bytes list \<times> nat \<times> nat \<Rightarrow> bytes list \<Rightarrow> restore_state \<Rightarrow> bool" where
  "base_res_inv C files tm st ds s \<longleftrightarrow>
     (\<exists>css pend names as ds'. base_flow C css pend s \<and> disk_ok files s \<and> slots names (reqContainer s) \<and>
        length names < CONTAINER_CAPPING_VALUE \<and> set names \<subseteq> dom files \<and> known names tm \<and>
        list_all2 (slot names) (enclaveRecipeBuffer (rsgx s)) as \<and>
        list_all2 (\<lambda>a d. base_chunk_in C files a = Some d) as ds' \<and> ds = concat css @ pend @ ds' \<and>
        dom tm = set (fst st) \<and> length names = fst (snd st) \<and> length as = snd (snd st))"

lemma base_res_inv_empty: "base_res_inv C files tm st ds s \<Longrightarrow> base_res_inv C files Map.empty ([], snd st) ds s"
  unfolding base_res_inv_def known_def by (simp only: option.distinct simp_thms dom_empty fst_conv snd_conv list.set) blast

lemma Base_recipe_entry_ok:
  assumes inv: "base_res_inv C files tm st ds s" and a: "base_chunk_in C files a = Some d" "wf_entry a" and snd: "\<forall>m. can_send m"
  shows "\<exists>tm' s'. Base_recipe_entry C can_send a (tm, s) = Inr (tm', s') \<and> base_res_inv C files tm' (cap_entry a st) (ds @ [d]) s'"
proof -
  obtain seen ids lft where st: "st = (seen, ids, lft)" by (cases st)
  from inv obtain css pend names as ds' where i: "base_flow C css pend s" "disk_ok files s" "slots names (reqContainer s)"
      "length names < CONTAINER_CAPPING_VALUE" "set names \<subseteq> dom files" "known names tm"
      "list_all2 (slot names) (enclaveRecipeBuffer (rsgx s)) as"
      "list_all2 (\<lambda>a d. base_chunk_in C files a = Some d) as ds'" "ds = concat css @ pend @ ds'"
      "dom tm = set seen" "length names = ids" "length as = lft"
    unfolding base_res_inv_def st by auto
  have "containerName a \<in> dom files" using a(1) by (auto simp: base_chunk_in_def split: option.splits)
  from assign_slot [OF i(3,4,6) a(2) i(5) this] obtain cid tm1 rq1 names1 where
    q: "(case tm (containerName a) of
        None \<Rightarrow> (idNum (reqContainer s), tm(containerName a \<mapsto> idNum (reqContainer s)),
          (reqContainer s)\<lparr>idBuffer := memcpy_at (idBuffer (reqContainer s)) (unat (idNum (reqContainer s)) * CONTAINER_ID_LENGTH) (containerName a),
            idNum := idNum (reqContainer s) + 1\<rparr>)
      | Some k \<Rightarrow> (k, tm, reqContainer s)) = (cid, tm1, rq1)"
      "slots names1 rq1" "known names1 tm1" "set names1 \<subseteq> dom files"
      "\<forall>es as. list_all2 (slot names) es as \<longrightarrow>
        list_all2 (slot names1) (es @ [\<lparr>er_containerID = cid, er_offset = re_offset a, er_length = re_length a\<rparr>]) (as @ [a])"
    by blast
  let ?new = "containerName a \<notin> set seen"
  have new: "?new \<longleftrightarrow> tm (containerName a) = None" unfolding i(10) [symmetric] by (simp add: domIff)
  have ids1: "length names1 = (if ?new then ids + 1 else ids)"
  proof -
    have n1: "unat (idNum rq1) = length names1" "unat (idNum (reqContainer s)) = ids" using q(2) i(3,11) by (simp_all add: slots_def)
    have "unat (idNum (reqContainer s) + 1) = ids + 1" using n1(2) i(4,11) by (subst unat_add_u32) (simp_all add: const_defs)
    moreover have "idNum rq1 = (if ?new then idNum (reqContainer s) + 1 else idNum (reqContainer s))"
      using q(1) unfolding new by (cases "tm (containerName a)") auto
    ultimately show ?thesis using n1 by (auto split: if_splits)
  qed
  have seen1: "dom tm1 = set (if ?new then containerName a # seen else seen)"
    using q(1) unfolding new by (cases "tm (containerName a)") (auto simp: i(10) [symmetric])
  define s1 where "s1 = s\<lparr>reqContainer := rq1, rsgx := (rsgx s)\<lparr>enclaveRecipeBuffer :=
    enclaveRecipeBuffer (rsgx s) @ [\<lparr>er_containerID = cid, er_offset = re_offset a, er_length = re_length a\<rparr>]\<rparr>\<rparr>"
  have f1: "base_flow C css pend s1" "disk_ok files s1" "slots names1 (reqContainer s1)"
      "list_all2 (slot names1) (enclaveRecipeBuffer (rsgx s1)) (as @ [a])"
    using i q(2,5) by (simp_all add: s1_def base_flow_def disk_ok_def)
  have cs: "list_all2 (\<lambda>a d. base_chunk_in C files a = Some d) (as @ [a]) (ds' @ [d])" using i(8) a(1) by (simp add: list_all2_appendI)
  have full: "idNum rq1 = of_nat CONTAINER_CAPPING_VALUE \<longleftrightarrow> length names1 = CONTAINER_CAPPING_VALUE"
    using q(2) by (auto simp: slots_def const_defs word_unat_eq_iff)
  show ?thesis
  proof (cases "length names1 = CONTAINER_CAPPING_VALUE")
    case False
    then have "Base_recipe_entry C can_send a (tm, s) = Inr (tm1, s1)" using q(1) full by (simp add: Base_recipe_entry_def Let_def s1_def)
    moreover have lt: "length names1 < CONTAINER_CAPPING_VALUE" using False q(2) by (simp add: slots_def)
    have "cap_entry a st = (if ?new then containerName a # seen else seen, length names1, length (as @ [a]))"
      using False i(12) by (simp add: cap_entry_def st ids1 Let_def)
    then have "base_res_inv C files tm1 (cap_entry a st) (ds @ [d]) s1"
      unfolding base_res_inv_def using f1 lt q(3,4) cs i(9) seen1
      by (intro exI [of _ css] exI [of _ pend] exI [of _ names1] exI [of _ "as @ [a]"] exI [of _ "ds' @ [d]"]) simp
    ultimately show ?thesis by blast
  next
    case True
    from GetReqContainers_ok [OF f1(2,3) q(4)] obtain s2 where
      s2: "GetReqContainers s1 = Inr s2" "disk_ok files s2" "same_req s1 s2" "fetched files names1 s2" by blast
    have f2: "base_flow C css pend s2" "list_all2 (slot names1) (enclaveRecipeBuffer (rsgx s2)) (as @ [a])"
      using f1 s2(3) by (simp_all add: base_flow_def same_req_def)
    from base_recover_all_ok [OF f2(1) s2(4) f2(2) cs snd] obtain s3 css' pend' where
      s3: "rfold (base_recover_and_send C can_send) (enclaveRecipeBuffer (rsgx s2)) s2 = Inr s3" "base_flow C css' pend' s3"
        "concat css' @ pend' = concat css @ pend @ ds' @ [d]" "base_keeps s2 s3" by blast
    let ?s4 = "s3\<lparr>reqContainer := (reqContainer s3)\<lparr>idNum := 0\<rparr>, rsgx := (rsgx s3)\<lparr>enclaveRecipeBuffer := []\<rparr>\<rparr>"
    have "Base_recipe_entry C can_send a (tm, s) = Inr (Map.empty, ?s4)"
      using q(1) full True s2(1) s3(1) by (simp add: Base_recipe_entry_def Base_GetReqContainers_def Let_def s1_def)
    moreover have "base_flow C css' pend' ?s4" "disk_ok files ?s4" using s3(2,4) s2(2) by (simp_all add: base_flow_def disk_ok_def base_keeps_def)
    moreover have "slots [] (reqContainer ?s4)" using s3(4) s2(3) f1(3) by (simp add: slots_def base_keeps_def same_req_def)
    moreover have "cap_entry a st = ([], 0, 0)" using True by (simp add: cap_entry_def st ids1 Let_def)
    ultimately have "base_res_inv C files Map.empty (cap_entry a st) (ds @ [d]) ?s4"
      unfolding base_res_inv_def using s3(3) i(9)
      by (intro exI [of _ css'] exI [of _ pend'] exI [of _ "[]"]) (simp add: known_def const_defs)
    with \<open>Base_recipe_entry C can_send a (tm, s) = Inr (Map.empty, ?s4)\<close> show ?thesis by blast
  qed
qed

abbreviation base_points :: "enclave_cfg \<Rightarrow> (bytes \<rightharpoonup> bytes) \<Rightarrow> recipe_entry list \<Rightarrow> bytes list \<Rightarrow> bool" where
  "base_points C files \<equiv> list_all2 (\<lambda>a d. wf_entry a \<and> base_chunk_in C files a = Some d)"

lemma Base_recipe_entries_ok:
  assumes "base_res_inv C files tm st ds s" and "base_points C files as cs" and snd: "\<forall>m. can_send m"
  shows "\<exists>tm' s'. rfold (Base_recipe_entry C can_send) as (tm, s) = Inr (tm', s') \<and> base_res_inv C files tm' (fold cap_entry as st) (ds @ cs) s'"
  using assms(1,2)
proof (induction as arbitrary: tm st s ds cs)
  case (Cons a as)
  then obtain d cs' where cs: "cs = d # cs'" "base_chunk_in C files a = Some d" "wf_entry a" "base_points C files as cs'" by (auto simp: list_all2_Cons1)
  from Base_recipe_entry_ok [OF Cons.prems(1) cs(2,3) snd] obtain tm1 s1 where
    "Base_recipe_entry C can_send a (tm, s) = Inr (tm1, s1)" "base_res_inv C files tm1 (cap_entry a st) (ds @ [d]) s1" by blast
  with Cons.IH [OF this(2) cs(4)] cs(1) show ?case by auto
qed auto

lemma Base_ProcessRecipeBatch_ok:
  assumes inv: "base_res_inv C files Map.empty ([], st) ds s" and as: "base_points C files as cs" and snd: "\<forall>m. can_send m"
  shows "\<exists>s'. Base_ProcessRecipeBatch C can_send (concat (map RecipeEntry_bytes as)) (length (concat (map RecipeEntry_bytes as)) div RecipeEntry_size) s = Inr s' \<and>
     base_res_inv C files Map.empty ([], cap_batch as st) (ds @ cs) s'"
proof -
  let ?bs = "map RecipeEntry_bytes as"
  have wf: "\<forall>a \<in> set as. wf_entry a" using as by (auto simp: list_all2_conv_all_nth in_set_conv_nth)
  then have eb: "entry_bytes ?bs" and blk: "\<forall>x \<in> set ?bs. length x = RecipeEntry_size" by (auto simp: entry_bytes_def)
  have len: "length (concat ?bs) div RecipeEntry_size = length as" using concat_entry_length [OF eb] by simp
  have "read_at (concat ?bs) (i * RecipeEntry_size) RecipeEntry_size = ?bs ! i" if "i < length as" for i
    using read_at_concat [OF blk, of i "[]"] that by simp
  then have rs: "map (\<lambda>i. RecipeEntry_of_bytes (read_at (concat ?bs) (i * RecipeEntry_size) RecipeEntry_size)) [0..<length as] = as"
    using wf by (intro nth_equalityI) simp_all
  from Base_recipe_entries_ok [OF inv as snd] obtain tm' s' where
    s': "rfold (Base_recipe_entry C can_send) as (Map.empty, s) = Inr (tm', s')" "base_res_inv C files tm' (fold cap_entry as ([], st)) (ds @ cs) s'" by blast
  then show ?thesis using base_res_inv_empty [OF s'(2)] by (simp add: Base_ProcessRecipeBatch_def len rs cap_batch_def)
qed

lemma Base_ProcessRecipeBatches_ok:
  assumes "base_res_inv C files Map.empty ([], st) ds s" and "list_all2 (base_points C files) ass css" and snd: "\<forall>m. can_send m"
  shows "\<exists>s'. rfold (\<lambda>b. Base_ProcessRecipeBatch C can_send b (length b div RecipeEntry_size)) (map (\<lambda>as. concat (map RecipeEntry_bytes as)) ass) s = Inr s' \<and>
     base_res_inv C files Map.empty ([], fold cap_batch ass st) (ds @ concat css) s'"
  using assms(1,2)
proof (induction ass arbitrary: s st ds css)
  case (Cons as ass)
  then obtain cs css' where css: "css = cs # css'" "base_points C files as cs" "list_all2 (base_points C files) ass css'" by (auto simp: list_all2_Cons1)
  from Base_ProcessRecipeBatch_ok [OF Cons.prems(1) css(2) snd] obtain s1 where
    s1: "Base_ProcessRecipeBatch C can_send (concat (map RecipeEntry_bytes as)) (length (concat (map RecipeEntry_bytes as)) div RecipeEntry_size) s = Inr s1"
      "base_res_inv C files Map.empty ([], cap_batch as st) (ds @ cs) s1" by blast
  from Cons.IH [OF s1(2) css(3)] obtain s' where
    "rfold (\<lambda>b. Base_ProcessRecipeBatch C can_send b (length b div RecipeEntry_size)) (map (\<lambda>as. concat (map RecipeEntry_bytes as)) ass) s1 = Inr s'"
    "base_res_inv C files Map.empty ([], fold cap_batch ass (cap_batch as st)) ((ds @ cs) @ concat css') s'" by blast
  with s1(1) css(1) show ?case by simp
qed auto

text \<open>The file in batches is the recipe in batches.\<close>

lemma in_batches_concat: "0 < R \<Longrightarrow> concat (in_batches R as) = as"
  by (induction R as rule: in_batches.induct) (subst in_batches.simps, simp)

lemma read_batches_entries:
  assumes "0 < R" and "\<forall>a \<in> set as. wf_entry a"
  shows "read_batches (RecipeEntry_size * R) (concat (map RecipeEntry_bytes as)) = map (\<lambda>as. concat (map RecipeEntry_bytes as)) (in_batches R as)"
  using assms
proof (induction R as rule: in_batches.induct)
  case (1 R as)
  let ?f = "\<lambda>as. concat (map RecipeEntry_bytes as)"
  have len: "length (?f bs) = length bs * RecipeEntry_size" if "\<forall>a \<in> set bs. wf_entry a" for bs
    using that by (induction bs) simp_all
  show ?case
  proof (cases "as = []")
    case True
    then show ?thesis by (simp add: read_batches.simps in_batches.simps)
  next
    case False
    have w: "\<forall>a \<in> set (take R as). wf_entry a" "\<forall>a \<in> set (drop R as). wf_entry a" using 1(3) by (auto dest: in_set_takeD in_set_dropD)
    have sp: "?f as = ?f (take R as) @ ?f (drop R as)" by (metis append_take_drop_id concat_append map_append)
    have l: "length (?f as) = length as * RecipeEntry_size" by (rule len [OF 1(3)])
    then have ne: "?f as \<noteq> []" using False by (metis length_0_conv mult_is_0 zero_neq_numeral)
    show ?thesis
    proof (cases "length as < R")
      case True
      then have "read_batches (RecipeEntry_size * R) (?f as) = [?f as]" using ne l 1(2) by (subst read_batches.simps) simp
      moreover have "in_batches R as = [as]" using True False 1(2) by (subst in_batches.simps) (simp add: in_batches.simps)
      ultimately show ?thesis by simp
    next
      case False
      then have lt: "length (?f (take R as)) = RecipeEntry_size * R" using len [OF w(1)] by simp
      have "read_batches (RecipeEntry_size * R) (?f as) = ?f (take R as) # read_batches (RecipeEntry_size * R) (?f (drop R as))"
        using ne l False 1(2) unfolding sp by (subst read_batches.simps) (simp add: lt)
      also have "read_batches (RecipeEntry_size * R) (?f (drop R as)) = map ?f (in_batches R (drop R as))"
        using 1(1) [OF _ 1(2) w(2)] \<open>as \<noteq> []\<close> 1(2) by simp
      finally show ?thesis using \<open>as \<noteq> []\<close> 1(2) by (subst in_batches.simps) simp
    qed
  qed
qed

section \<open>The end of a restore\<close>

lemma base_tail_chunks_ok:
  assumes "base_flow C css pend s" and "fetched files names s" and "list_all2 (slot names) es as"
    and "list_all2 (\<lambda>a d. base_chunk_in C files a = Some d) as ds" and snd: "\<forall>m. can_send m" and "es \<noteq> []"
  shows "\<exists>s'. base_tail_chunks C can_send es s = Inr s' \<and> base_restored C (sent s') (concat css @ pend @ ds)"
  using assms(1-4,6)
proof (induction es arbitrary: css pend s as ds)
  case (Cons e es)
  from Cons.prems(3,4) obtain a as' d ds' where as: "as = a # as'" "slot names e a" "list_all2 (slot names) es as'"
      "ds = d # ds'" "base_chunk_in C files a = Some d" "list_all2 (\<lambda>a d. base_chunk_in C files a = Some d) as' ds'"
    by (auto simp: list_all2_Cons1)
  show ?case
  proof (cases "es = []")
    case True
    from base_recover_entry_ok [OF Cons.prems(1,2) as(2,5)] obtain s1 where
      s1: "base_recover_entry C e s = Inr s1" "pending (sendChunkBuf s1) (pend @ [d])" "sent s1 = sent s" by blast
    have f: "list_all2 (base_restore_msg C SERVER_RESTORE_CHUNK) (sent s) css" "length (pend @ [d]) \<le> sendChunkBatchSize C"
      using Cons.prems(1) by (simp_all add: base_flow_def)
    from Base_SendBatchChunks_ok [OF s1(2) f(2) snd, of SERVER_RESTORE_FINAL] obtain s2 m where
      s2: "Base_SendBatchChunks can_send SERVER_RESTORE_FINAL s1 = Inr s2" "sent s2 = sent s1 @ [m]" "base_restore_msg C SERVER_RESTORE_FINAL m (pend @ [d])" by blast
    then have "base_restored C (sent s2) (concat css @ pend @ [d])" using f(1) s1(3) unfolding base_restored_def by auto
    then show ?thesis using s1(1) s2(1) True as by simp
  next
    case False
    from base_recover_and_send_ok [OF Cons.prems(1,2) as(2,5) snd] obtain s1 css1 pend1 where
      s1: "base_recover_and_send C can_send e s = Inr s1" "base_flow C css1 pend1 s1" "concat css1 @ pend1 = concat css @ pend @ [d]" "base_keeps s s1" by blast
    have "fetched files names s1" using Cons.prems(2) base_keeps_fetched [OF s1(4)] by simp
    from Cons.IH [OF s1(2) this as(3,6) False] obtain s' where
      r: "base_tail_chunks C can_send es s1 = Inr s'" "base_restored C (sent s') (concat css1 @ pend1 @ ds')" by blast
    have "base_tail_chunks C can_send (e # es) s = rbind (base_recover_and_send C can_send e s) (base_tail_chunks C can_send es)"
      using False by (simp add: base_recover_and_send_def rbind_assoc)
    moreover have "concat css1 @ pend1 @ ds' = concat css @ pend @ ds" using s1(3) as(4) by (metis append.assoc append_Cons append_Nil)
    ultimately show ?thesis using s1(1) r by simp
  qed
qed simp

text \<open>What a restore without a final message sends: some of the chunks.\<close>

definition base_cut_short :: "enclave_cfg \<Rightarrow> net_msg list \<Rightarrow> bytes list \<Rightarrow> bool" where
  "base_cut_short C ms ds \<longleftrightarrow> (\<exists>css pend. list_all2 (base_restore_msg C SERVER_RESTORE_CHUNK) ms css \<and> ds = concat css @ pend)"

lemma Base_ProcessRecipeTailBatch_ok:
  assumes inv: "base_res_inv C files tm (seen, ids, lft) ds s" and snd: "\<forall>m. can_send m"
  shows "\<exists>s'. Base_ProcessRecipeTailBatch C can_send s = Inr s' \<and> (if lft \<noteq> 0 then base_restored C (sent s') ds else base_cut_short C (sent s') ds)"
proof -
  from inv obtain css pend names as ds' where i: "base_flow C css pend s" "disk_ok files s" "slots names (reqContainer s)"
      "set names \<subseteq> dom files" "list_all2 (slot names) (enclaveRecipeBuffer (rsgx s)) as"
      "list_all2 (\<lambda>a d. base_chunk_in C files a = Some d) as ds'" "ds = concat css @ pend @ ds'" "length as = lft"
    unfolding base_res_inv_def by auto
  have empty: "enclaveRecipeBuffer (rsgx s) = [] \<longleftrightarrow> lft = 0" using i(5,8) by (auto dest: list_all2_lengthD)
  show ?thesis
  proof (cases "lft = 0")
    case True
    then have "base_cut_short C (sent s) ds" using i(1,7) unfolding base_cut_short_def base_flow_def by blast
    then show ?thesis using True empty by (simp add: Base_ProcessRecipeTailBatch_def)
  next
    case False
    from GetReqContainers_ok [OF i(2,3,4)] obtain s1 where s1: "GetReqContainers s = Inr s1" "same_req s s1" "fetched files names s1" by blast
    have f1: "base_flow C css pend s1" "list_all2 (slot names) (enclaveRecipeBuffer (rsgx s1)) as" "enclaveRecipeBuffer (rsgx s1) \<noteq> []"
      using i(1,5) s1(2) False empty by (simp_all add: base_flow_def same_req_def)
    from base_tail_chunks_ok [OF f1(1) s1(3) f1(2) i(6) snd f1(3)] show ?thesis
      using s1(1) False empty i(7) by (simp add: Base_ProcessRecipeTailBatch_def Base_GetReqContainers_def)
  qed
qed

lemma base_points_batches:
  assumes "base_points C files (concat ass) ds"
  shows "\<exists>css. concat css = ds \<and> list_all2 (base_points C files) ass css"
  using assms
proof (induction ass arbitrary: ds)
  case Nil
  then show ?case by (intro exI [of _ "[]"]) simp
next
  case (Cons as ass)
  then obtain d1 d2 where d: "ds = d1 @ d2" "base_points C files as d1" "base_points C files (concat ass) d2" by (auto simp: list_all2_append1)
  from Cons.IH [OF d(3)] obtain css where "concat css = d2" "list_all2 (base_points C files) ass css" by blast
  with d show ?case by (intro exI [of _ "d1 # css"]) simp
qed

lemma RecvDecoder_Run_ok:
  assumes B: "0 < sendChunkBatchSize C" "sendChunkBatchSize C * Chunk_size < 2 ^ 32" "0 < sendRecipeBatchSize C" and cache: "0 < cacheN" "cacheN < 2 ^ 32"
    and files: "\<forall>b \<in> ran files. length b \<le> unat MAX_CONTAINER_SIZE" and as: "base_points C files as ds"
    and snd: "\<forall>m. can_send m" and rdy: "messageType m = CLIENT_RESTORE_READY" "dataSize m = 0" "currentItemNum m = 0"
  shows "\<exists>s'. RecvDecoder_Run C can_send (Some m) (concat (map RecipeEntry_bytes as)) (Base_InitRestoreBuffer cacheN cid files) = Inr s' \<and>
     (if left_over (sendRecipeBatchSize C) as \<noteq> 0 then base_restored C (sent s') ds else base_cut_short C (sent s') ds)"
proof -
  let ?R = "sendRecipeBatchSize C" and ?i = "Base_InitRestoreBuffer cacheN cid files"
  let ?s0 = "?i\<lparr>sendChunkBuf := receive_over (sendChunkBuf ?i) m\<rparr>"
  have "base_res_inv C files Map.empty ([], (0, 0)) [] ?s0"
    unfolding base_res_inv_def using B files rdy cache_ok_new [OF cache]
    by (intro exI [of _ "[]"]) (simp add: receive_over_def Base_InitRestoreBuffer_def ClientVar_InitRestoreBuffer_def base_flow_def pending_def blank_msg_def disk_ok_def slots_def known_def const_defs)
  moreover have "base_points C files (concat (in_batches ?R as)) ds" using as in_batches_concat [OF B(3), of as] by simp
  then obtain css where css: "concat css = ds" "list_all2 (base_points C files) (in_batches ?R as) css" using base_points_batches by blast
  ultimately obtain s1 where s1: "rfold (\<lambda>b. Base_ProcessRecipeBatch C can_send b (length b div RecipeEntry_size))
      (map (\<lambda>as. concat (map RecipeEntry_bytes as)) (in_batches ?R as)) ?s0 = Inr s1" "base_res_inv C files Map.empty ([], fold cap_batch (in_batches ?R as) (0, 0)) ds s1"
    using Base_ProcessRecipeBatches_ok [OF _ css(2) snd, of "(0, 0)" "[]" ?s0] by auto
  have wf: "\<forall>a \<in> set as. wf_entry a" using as by (auto simp: list_all2_conv_all_nth in_set_conv_nth)
  obtain ids lft where l: "fold cap_batch (in_batches ?R as) (0, 0) = (ids, lft)" by (metis surj_pair)
  from Base_ProcessRecipeTailBatch_ok [OF s1(2) [unfolded l] snd] s1(1) rdy show ?thesis
    by (simp add: RecvDecoder_Run_def read_batches_entries [OF B(3) wf] left_over_def l)
qed

end
