(* ===== verification/Baseline.thy ===== *)
theory Baseline
  imports BaseRestore
begin

text \<open>
  The whole program of \<open>src/Baseline\<close>: \<open>App/daeClient.cc\<close> picks one of the four ways to make keys, runs the sender against the
  receiver of the server for an upload and the retriever against the decoder of the server for a restore. What
  comes out of a restore is the file that was uploaded, unless the restore never ends.
\<close>

section \<open>The choice of the method\<close>

text \<open>
  The object behind \<open>absDaEObj\<close>, with its request buffer, the state of its key manager and, for DupLESS, how many numbers were drawn.
\<close>

datatype dae_obj = PlainDAE | MLEDAE | TEDDAE net_msg ted_km | DupLESSDAE net_msg nat u64

fun methodType_of :: "dae_obj \<Rightarrow> dae_type" where
  "methodType_of PlainDAE = PLAIN_DAE"
| "methodType_of MLEDAE = CE_DAE"
| "methodType_of (TEDDAE kb km) = TED_DAE"
| "methodType_of (DupLESSDAE kb pos km) = DUPLESS_DAE"

fun new_absDaE :: "u32 \<Rightarrow> ted_km \<Rightarrow> nat \<Rightarrow> u64 \<Rightarrow> dae_type \<Rightarrow> dae_obj" where
  "new_absDaE cid tkm pos dkm PLAIN_DAE = PlainDAE"
| "new_absDaE cid tkm pos dkm CE_DAE = MLEDAE"
| "new_absDaE cid tkm pos dkm TED_DAE = TEDDAE (blank_msg cid) tkm"
| "new_absDaE cid tkm pos dkm DUPLESS_DAE = DupLESSDAE (blank_msg cid) pos dkm"

text \<open>The virtual \<open>ProcessBatchChunk\<close>, with the managers at the other end of \<open>keyManagerChannel_\<close>.\<close>

definition AbsDAE_ProcessBatchChunk ::
  "enclave_cfg \<Rightarrow> rsa \<Rightarrow> (nat \<Rightarrow> u32 \<Rightarrow> u32) \<Rightarrow> net_msg \<Rightarrow> dae_bufs \<times> dae_obj \<Rightarrow> (dae_bufs \<times> dae_obj) res" where
  "AbsDAE_ProcessBatchChunk C R pick plain st =
     (case snd st of
        PlainDAE \<Rightarrow> rbind (Plain_ProcessBatchChunk C plain (fst st, ())) (\<lambda>(s, k). Inr (s, PlainDAE))
      | MLEDAE \<Rightarrow> rbind (MLE_ProcessBatchChunk C plain (fst st, ())) (\<lambda>(s, k). Inr (s, MLEDAE))
      | TEDDAE kb km \<Rightarrow> rbind (TED_ProcessBatchChunk C (TEDKeyManager_handle C pick) plain (fst st, kb, km)) (\<lambda>(s, kb', km'). Inr (s, TEDDAE kb' km'))
      | DupLESSDAE kb pos km \<Rightarrow>
          rbind (DupLESS_ProcessBatchChunk C R (DupLESSKeyManager_handle C R) plain (fst st, kb, pos, km)) (\<lambda>(s, kb', pos', km'). Inr (s, DupLESSDAE kb' pos' km')))"

fun absDaE_ok :: "enclave_cfg \<Rightarrow> rsa \<Rightarrow> dae_obj \<Rightarrow> bool" where
  "absDaE_ok C R PlainDAE = True"
| "absDaE_ok C R MLEDAE = client_ok C"
| "absDaE_ok C R (TEDDAE kb km) = ted_ok C (kb, km)"
| "absDaE_ok C R (DupLESSDAE kb pos km) = dupless_ok C R (kb, pos, km)"

lemma absDaE_ok_new: "client_ok C \<Longrightarrow> (t = DUPLESS_DAE \<Longrightarrow> rsa_ok R) \<Longrightarrow> absDaE_ok C R (new_absDaE cid tkm pos dkm t)"
  by (cases t) (simp_all add: ted_ok_def dupless_ok_def blank_msg_def)

lemma methodType_of_new [simp]: "methodType_of (new_absDaE cid tkm pos dkm t) = t"
  by (cases t) simp_all

interpretation abs_dae: dae C "\<lambda>k. absDaE_ok C R k \<and> methodType_of k = t" "AbsDAE_ProcessBatchChunk C R pick" "open_chunk C t" for C R pick t
proof unfold_locales
  fix plain ds s ob
  assume a: "pending plain ds" "dae_ready C ds s" and ob: "absDaE_ok C R ob \<and> methodType_of ob = t"
  let ?goal = "\<exists>s' k' ks es. AbsDAE_ProcessBatchChunk C R pick plain (s, ob) = Inr (s', k') \<and> (absDaE_ok C R k' \<and> methodType_of k' = t) \<and> dae_result C s ds ks es s' \<and>
      list_all2 (\<lambda>(key, e) d. open_chunk C t key e = Inr d \<and> length e = length d) (zip ks es) ds"
  show ?goal
  proof (cases ob)
    case PlainDAE
    from plain_dae.process_ok [OF a TrueI, of "()"] PlainDAE ob show ?thesis by (fastforce simp: AbsDAE_ProcessBatchChunk_def)
  next
    case MLEDAE
    then have "client_ok C" using ob by simp
    from mle_dae.process_ok [OF a this, of "()"] MLEDAE ob show ?thesis by (fastforce simp: AbsDAE_ProcessBatchChunk_def)
  next
    case (TEDDAE kb km)
    then have "ted_ok C (kb, km)" using ob by simp
    from ted_dae.process_ok [OF a this, of pick] TEDDAE ob show ?thesis by (fastforce simp: AbsDAE_ProcessBatchChunk_def)
  next
    case (DupLESSDAE kb pos km)
    then have "dupless_ok C R (kb, pos, km)" using ob by simp
    from dupless_dae.process_ok [OF a this] DupLESSDAE ob show ?thesis by (fastforce simp: AbsDAE_ProcessBatchChunk_def)
  qed
qed

section \<open>An upload and a restore\<close>

text \<open>An upload of the chunks \<open>ds\<close>: the client's file of keys, the recipe file of the server, and what the server has stored.\<close>

definition baseline_upload ::
  "enclave_cfg \<Rightarrow> rsa \<Rightarrow> (nat \<Rightarrow> u32 \<Rightarrow> u32) \<Rightarrow> (net_msg \<Rightarrow> bool) \<Rightarrow> (bytes \<Rightarrow> bool) \<Rightarrow> u32 \<Rightarrow> dae_obj \<Rightarrow> bytes list \<Rightarrow> file_recipe_head \<Rightarrow>
   bytes \<Rightarrow> statistics \<Rightarrow> storage \<Rightarrow> (bytes \<times> bytes option \<times> storage) res" where
  "baseline_upload C R pick can_send can_open cid absDaEObj ds h junk st S =
     rbind (BaseSender_Run C can_send (AbsDAE_ProcessBatchChunk C R pick) (map DATA_CHUNK ds @ [RECIPE_END h]) (BaseSender_new cid absDaEObj)) (\<lambda>s.
     rbind (BaseReceiver_Run C can_open (b_wire s) (Base_InitUploadBuffer C junk st S)) (\<lambda>(r, sv).
       Inr (keyRecipeFile (bufs s), rv_finished r, bs_store sv)))"

definition ready_message :: "u32 \<Rightarrow> net_msg" where
  "ready_message cid = (blank_msg cid)\<lparr>messageType := CLIENT_RESTORE_READY\<rparr>"

definition baseline_restore ::
  "enclave_cfg \<Rightarrow> (net_msg \<Rightarrow> bool) \<Rightarrow> nat \<Rightarrow> u32 \<Rightarrow> dae_type \<Rightarrow> bytes \<Rightarrow> bytes \<Rightarrow> (bytes \<rightharpoonup> bytes) \<Rightarrow> base_retriever option res" where
  "baseline_restore C can_send cacheN cid methodType keys recipe fs =
     rbind (RecvDecoder_Run C can_send (Some (ready_message cid)) (drop 16 recipe) (Base_InitRestoreBuffer cacheN cid fs)) (\<lambda>s.
       BaseRetriever_Run C methodType (sent s) (BaseRetriever_new keys (FileRecipeHead_of_bytes (take 16 recipe))))"

section \<open>What the client makes of a restore\<close>

text \<open>After the messages of a restore without a final one the retriever waits.\<close>

lemma base_retrieve_loop_waits:
  assumes "list_all2 (base_restore_msg C SERVER_RESTORE_CHUNK) ms css"
    and "keyFile s = concat ks" and "length ks = length (concat css @ pend)" and "\<forall>k \<in> set ks. key_ok k"
    and "list_all2 (\<lambda>(key, e) d. open_chunk C t key e = Inr d) (zip ks (concat css @ pend)) ds"
  shows "base_retrieve_loop C t ms s = Inr None"
  using assms
proof (induction ms arbitrary: css s ks ds)
  case (Cons m ms)
  then obtain cs css1 where css: "css = cs # css1" "base_restore_msg C SERVER_RESTORE_CHUNK m cs" "list_all2 (base_restore_msg C SERVER_RESTORE_CHUNK) ms css1"
    by (auto simp: list_all2_Cons1)
  let ?k1 = "take (length cs) ks" and ?k2 = "drop (length cs) ks"
  have l: "length ?k1 = length cs" "length ?k2 = length (concat css1 @ pend)" using Cons.prems(3) css(1) by simp_all
  have ks: "keyFile s = concat ?k1 @ concat ?k2" using Cons.prems(2) by (metis append_take_drop_id concat_append)
  have ok: "\<forall>k \<in> set ?k1. key_ok k" "\<forall>k \<in> set ?k2. key_ok k" using Cons.prems(4) by (auto dest: in_set_takeD in_set_dropD)
  have "zip ks (concat css @ pend) = zip (?k1 @ ?k2) (cs @ concat css1 @ pend)" using css(1) by simp
  also have "\<dots> = zip ?k1 cs @ zip ?k2 (concat css1 @ pend)" by (rule zip_append [OF l(1)])
  finally obtain d1 d2 where d: "list_all2 (\<lambda>(key, e) d. open_chunk C t key e = Inr d) (zip ?k1 cs) d1"
      "list_all2 (\<lambda>(key, e) d. open_chunk C t key e = Inr d) (zip ?k2 (concat css1 @ pend)) d2"
    using Cons.prems(5) by (auto simp: list_all2_append1)
  from Base_OpenChunkBatch_ok [OF css(2) ks l(1) ok(1) d(1)] obtain s1 where s1: "Base_OpenChunkBatch C t m s = Inr s1" "keyFile s1 = concat ?k2" by blast
  from Cons.IH [OF css(3) s1(2) l(2) ok(2) d(2)] s1(1) css(2) show ?case by (simp add: base_restore_msg_def)
qed simp

lemma baseline_restore_outcome:
  assumes C: "sizes_ok C" and cache: "0 < cacheN" "cacheN < 2 ^ 32" and fs: "\<forall>b \<in> ran fs. length b \<le> unat MAX_CONTAINER_SIZE"
    and as: "base_points C fs as es" and k: "length ks = length es" "\<forall>k \<in> set ks. key_ok k"
    and o: "list_all2 (\<lambda>(key, e) d. open_chunk C t key e = Inr d) (zip ks es) ds" and h: "totalChunkNum h = of_nat (length ds)" and snd: "\<forall>m. can_send m"
  shows "\<exists>r. baseline_restore C can_send cacheN cid t (concat ks) (FileRecipeHead_bytes h @ concat (map RecipeEntry_bytes as)) fs = Inr r \<and>
     (if left_over (sendRecipeBatchSize C) as \<noteq> 0 then \<exists>s. r = Some s \<and> br_out s = ds \<and> br_done s else r = None)"
proof -
  have B: "0 < sendChunkBatchSize C" "sendChunkBatchSize C * Chunk_size < 2 ^ 32" "0 < sendRecipeBatchSize C" using C by (simp_all add: sizes_ok_def)
  have rdy: "messageType (ready_message cid) = CLIENT_RESTORE_READY" "dataSize (ready_message cid) = 0" "currentItemNum (ready_message cid) = 0"
    by (simp_all add: ready_message_def blank_msg_def)
  from RecvDecoder_Run_ok [OF B cache fs as snd rdy, of cid] obtain s where
    s: "RecvDecoder_Run C can_send (Some (ready_message cid)) (concat (map RecipeEntry_bytes as)) (Base_InitRestoreBuffer cacheN cid fs) = Inr s"
      "if left_over (sendRecipeBatchSize C) as \<noteq> 0 then base_restored C (sent s) es else base_cut_short C (sent s) es" by blast
  let ?new = "BaseRetriever_new (concat ks) h"
  have run: "baseline_restore C can_send cacheN cid t (concat ks) (FileRecipeHead_bytes h @ concat (map RecipeEntry_bytes as)) fs =
      BaseRetriever_Run C t (sent s) ?new"
    using s(1) FileRecipeHead_roundtrip [of h "[]"] by (simp add: baseline_restore_def)
  show ?thesis
  proof (cases "left_over (sendRecipeBatchSize C) as = 0")
    case False
    then have "base_restored C (sent s) es" using s(2) by simp
    from BaseRetriever_Run_ok [OF this k o h] False run show ?thesis by fastforce
  next
    case True
    with s(2) obtain css pend where c: "list_all2 (base_restore_msg C SERVER_RESTORE_CHUNK) (sent s) css" "es = concat css @ pend"
      unfolding base_cut_short_def by auto
    have "keyFile ?new = concat ks" by (simp add: BaseRetriever_new_def)
    from base_retrieve_loop_waits [OF c(1) this _ k(2)] k(1) o c(2) have "base_retrieve_loop C t (sent s) ?new = Inr None" by blast
    with True run show ?thesis by (simp add: BaseRetriever_Run_def)
  qed
qed

text \<open>Where no other stored chunk has the fingerprint of an uploaded one, the recipe leads to the uploaded chunks.\<close>

definition fingerprints_unique :: "enclave_cfg \<Rightarrow> (bytes \<rightharpoonup> bytes) \<Rightarrow> bytes list \<Rightarrow> bool" where
  "fingerprints_unique C fs es \<longleftrightarrow> (\<forall>e \<in> set es. \<forall>a e'. base_chunk_in C fs a = Some e' \<and> client_fp C e' = client_fp C e \<longrightarrow> e' = e)"

lemma base_leads_points:
  assumes "base_leads C fs as es" and "fingerprints_unique C fs es"
  shows "base_points C fs as es"
  using assms unfolding base_leads_def fingerprints_unique_def list_all2_conv_all_nth by (metis nth_mem)

text \<open>A recipe with fewer entries than the cap leaves all of them for the last round.\<close>

lemma cap_entries_short:
  "fst (snd st) + length as < CONTAINER_CAPPING_VALUE \<Longrightarrow>
     fst (snd (fold cap_entry as st)) \<le> fst (snd st) + length as \<and> snd (snd (fold cap_entry as st)) = snd (snd st) + length as"
proof (induction as arbitrary: st)
  case (Cons a as)
  obtain seen ids n where st: "st = (seen, ids, n)" by (cases st)
  from Cons.prems st have "\<exists>seen' ids'. cap_entry a st = (seen', ids', n + 1) \<and> ids' \<le> ids + 1"
    by (auto simp: cap_entry_def Let_def)
  then obtain seen' ids' where c: "cap_entry a st = (seen', ids', n + 1)" "ids' \<le> ids + 1" by blast
  with Cons.IH [of "(seen', ids', n + 1)"] Cons.prems st show ?case by simp
qed simp

lemma left_over_short:
  assumes "as \<noteq> []" and "length as < CONTAINER_CAPPING_VALUE" and "0 < R"
  shows "left_over R as = length as"
proof -
  have "fst st + length (concat bs) < CONTAINER_CAPPING_VALUE \<Longrightarrow> snd (fold cap_batch bs st) = snd st + length (concat bs)" for bs :: "recipe_entry list list" and st
  proof (induction bs arbitrary: st)
    case (Cons b bs)
    from cap_entries_short [of "([], st)" b] Cons.prems have "fst (cap_batch b st) \<le> fst st + length b" "snd (cap_batch b st) = snd st + length b"
      by (simp_all add: cap_batch_def)
    with Cons.IH [of "cap_batch b st"] Cons.prems show ?case by simp
  qed simp
  from this [of "(0, 0)" "in_batches R as"] assms show ?thesis by (simp add: left_over_def in_batches_concat)
qed


definition byte_cfg :: enclave_cfg where
  "byte_cfg = dae_cfg\<lparr>cfg_evp := plain_evp\<lparr>evp_md := (\<lambda>t d. Some (replicate (hash_size t) (if d = [8] then 1 else 0)))\<rparr>\<rparr>"

lemma byte_cfg_ok: "sizes_ok byte_cfg" "client_ok byte_cfg"
proof -
  have "evp_ok (plain_evp\<lparr>evp_md := (\<lambda>t d. Some (replicate (hash_size t) (if d = [8] then 1 else 0)))\<rparr>)"
    by (auto simp: evp_ok_def plain_evp_def o_def)
  then show "client_ok byte_cfg" using dae_cfg_ok by (simp add: client_ok_def byte_cfg_def dae_cfg_def)
  then show "sizes_ok byte_cfg" by (simp add: sizes_ok_def byte_cfg_def dae_cfg_def const_defs Chunk_size_def)
qed

definition new_stats :: statistics where
  "new_stats = \<lparr>uniqueChunkNum = 0, uniqueDataSize = 0, logicalChunkNum = 0, logicalDataSize = 0, compressedDataSize = 0, writtenDataSize = 0, writtenChunkNum = 0\<rparr>"

definition empty_storage :: storage where
  "empty_storage = \<lparr>indexStore = Map.empty, containerFiles = Map.empty, randPos = 0\<rparr>"

lemma empty_storage_kept: "base_kept byte_cfg 3 empty_storage"
  using byte_cfg_ok(2)
  by (simp add: base_kept_def empty_storage_def lz4_ok_def) (simp add: byte_cfg_def dae_cfg_def fresh_from_def uuid_at_def CreateUUID_def upt_rec const_defs ALPHABET_def)

lemma byte_opened: "open_chunk byte_cfg DUPLESS_DAE key e = Inr [7] \<Longrightarrow> e = [8]"
  by (auto simp: open_chunk_def Crypto_DecryptWithKey_def byte_cfg_def dae_cfg_def plain_evp_def evp_checked_def Let_def split: if_splits)

lemma byte_unique: "fingerprints_unique byte_cfg fs [[8]]"
  by (auto simp: fingerprints_unique_def client_fp_def Crypto_GenerateHash_def byte_cfg_def dae_cfg_def plain_evp_def evp_checked_def CryptoPrimitive_new_def hash_size_def split: if_splits)


text \<open>
  (C23) A restore that never ends. When the recipe leaves no entry for the last round, because there is none or because the last
  one fills the sixteenth container, the server sends no final message: it waits for the client to close the connection, and the
  client waits for the message. The keys and the chunks are as they should be.
\<close>

theorem baseline_restore_hangs:
  assumes "sizes_ok C" and "0 < cacheN" "cacheN < 2 ^ 32" and "\<forall>b \<in> ran fs. length b \<le> unat MAX_CONTAINER_SIZE"
    and "base_points C fs as es" and "length ks = length es" "\<forall>k \<in> set ks. key_ok k"
    and "list_all2 (\<lambda>(key, e) d. open_chunk C t key e = Inr d) (zip ks es) ds" and "totalChunkNum h = of_nat (length ds)" and "\<forall>m. can_send m"
    and "left_over (sendRecipeBatchSize C) as = 0"
  shows "baseline_restore C can_send cacheN cid t (concat ks) (FileRecipeHead_bytes h @ concat (map RecipeEntry_bytes as)) fs = Inr None"
  using baseline_restore_outcome [OF assms(1-10), of cid] assms(11) by simp

text \<open>Sixteen chunks in sixteen containers.\<close>

definition spread_entry :: "nat \<Rightarrow> recipe_entry" where
  "spread_entry i = \<lparr>containerName = replicate CONTAINER_ID_LENGTH (of_nat i), re_offset = 0, re_length = 1\<rparr>"

definition spread_files :: "bytes \<rightharpoonup> bytes" where
  "spread_files n = Some [1]"

lemma spread_points: "base_points byte_cfg spread_files (map spread_entry [0..<16]) (replicate 16 [1])"
  by (rule list_all2_all_nthI)
    (simp_all add: spread_entry_def spread_files_def wf_entry_def base_chunk_in_def base_recover_def read_at_def byte_cfg_def dae_cfg_def const_defs)

lemma spread_left_over: "left_over (sendRecipeBatchSize byte_cfg) (map spread_entry [0..<16]) = 0"
  by (simp add: left_over_def byte_cfg_def dae_cfg_def in_batches.simps cap_batch_def cap_entry_def spread_entry_def upt_rec const_defs)

theorem baseline_restore_hangs_witness:
  "baseline_restore byte_cfg (\<lambda>m. True) 4 1 PLAIN_DAE (concat (replicate 16 (replicate 32 1)))
     (FileRecipeHead_bytes \<lparr>fileSize = 16, totalChunkNum = 16\<rparr> @ concat (map RecipeEntry_bytes (map spread_entry [0..<16]))) spread_files = Inr None"
proof (rule baseline_restore_hangs [OF byte_cfg_ok(1) _ _ _ spread_points _ _ _ _ _ spread_left_over])
  show "list_all2 (\<lambda>(key, e) d. open_chunk byte_cfg PLAIN_DAE key e = Inr d) (zip (replicate 16 (replicate 32 1)) (replicate 16 [1])) (replicate 16 [1])"
    by (simp add: list_all2_conv_all_nth open_chunk_def)
qed (auto simp: spread_files_def ran_def key_ok_def const_defs)

end
