(* ===== verification/Spec2Isabelle.thy ===== *)
theory Spec2Isabelle
  imports MessageQueue ServerLock FreqSeal Service Baseline
begin

text \<open>
  A verification of DEBE, deduplication before encryption with an SGX enclave (\<open>src/Prototype\<close>): a
  client cuts a file into chunks and sends them, encrypted under a session key, to a server; the
  enclave of the server finds duplicates by fingerprint, compresses and encrypts what is new, packs it
  into containers and writes a recipe; a restore reads the recipe, fetches containers through a cache,
  recovers the chunks and sends them back.

  \<^bold>\<open>Shared parts.\<close> \<open>Prelude\<close>: machine words, bytes, the result type (\<open>ProcExit\<close> for a call of
  \<open>exit\<close> or \<open>Ocall_SGX_Exit_Error\<close>, \<open>Undefined\<close> for what C++ leaves undefined, \<open>Diverges\<close> for a loop
  out of fuel), little-endian integers, \<open>memcpy\<close>. \<open>Structures\<close>: \<open>constVar.h\<close>, \<open>chunkStructure.h\<close>,
  \<open>define.h\<close> with the byte layouts. \<open>Crypto\<close>: every wrapper of \<open>ecallEnc.cc\<close> and
  \<open>cryptoPrimitive.cc\<close>; OpenSSL is the parameter \<open>evp\<close>, with its documented behaviour \<open>evp_ok\<close>; the locale
  \<open>length_cipher\<close> is what the clients of a cipher rely on. \<open>Database\<close>: \<open>inMemoryDatabase.cc\<close> with the
  file its destructor writes. \<open>SealedFile\<close>: the sealed files of \<open>storeOCall.cc\<close> and \<open>commonEnclave.cc\<close>;
  the locale \<open>sealed_index\<close> is what a restart relies on and is interpreted by every index.

  \<^bold>\<open>Client.\<close> \<open>Chunker\<close>: \<open>chunker.cc\<close>, fixed-size chunking and FastCDC; the outer loop and the inner
  loop of FastCDC have fuel, \<open>length file + 2\<close> rounds and one round per byte of the buffer, which is
  enough whenever a round makes progress; a theorem shows when none does. \<open>ClientIO\<close>: \<open>dataSender.cc\<close>,
  \<open>dataRetriever.cc\<close>, \<open>restoreWriter.cc\<close>. \<open>MessageQueue\<close>: \<open>messageQueue.h\<close> and the loops of the threads
  around it, as a step relation over all interleavings.

  \<^bold>\<open>Server and enclave.\<close> \<open>Client\<close>: the state of a client inside and outside of the enclave
  (\<open>ecallClient.cc\<close>, \<open>clientVar.cc\<close>) and its IVs. \<open>Storage\<close>: \<open>ecallStorage.cc\<close>, \<open>enclaveBase.cc\<close>,
  \<open>storageCore.cc\<close>, \<open>dataWriter.cc\<close> and the OCALLs between them; \<open>ChunkStore\<close> and \<open>Recipe\<close> hold their
  invariants. \<open>Batch\<close>: messages of chunks and the contract \<open>dedup_index\<close> of an index. The indexes:
  \<open>OutIndex\<close> and \<open>OutEnclave\<close> (\<open>ecallOutEnclave.cc\<close>), \<open>InEnclave\<close> (\<open>ecallInEnclave.cc\<close>), and the
  frequency-based one (\<open>ecallFreqIndex.cc\<close>): \<open>HeapOrder\<close> and \<open>EntryHeap\<close> (\<open>ecallEntryHeap.cc\<close>),
  \<open>CMSketch\<close> (\<open>ecallCMSketch.cc\<close>), \<open>FreqIndex\<close> with its definitions, \<open>FreqCheck\<close>, \<open>FreqUpload\<close> and
  \<open>FreqShortcut\<close> with its lemmas, \<open>FreqSeal\<close> with its sealed files. The two near-exact indexes: \<open>Segment\<close>
  (the segments of \<open>ecallExtreme.cc\<close> and \<open>ecallSparse.cc\<close> and their contract \<open>segment_index\<close>), \<open>BinStore\<close>
  (bins and manifests in the index store, deduplication of one segment), \<open>Extreme\<close>, \<open>Sparse\<close>,
  \<open>SegmentSeal\<close> (their sealed files) and \<open>NearExact\<close> (their uploads). \<open>Upload\<close>: \<open>dataReceiver.cc\<close> and
  \<open>enclaveIndex.cc\<close>. \<open>ReadCache\<close>: \<open>readCache.cc\<close> and \<open>lruCache.h\<close>, with the contract \<open>container_cache\<close>.
  \<open>RecvDecoder\<close> and \<open>Restore\<close>: \<open>enclaveRecvDecoder.cc\<close> and \<open>ecallRecvDecoder.cc\<close>. \<open>ServerLock\<close>: the
  locks of \<open>serverOptThread.cc\<close> as a step relation. \<open>EndToEnd\<close>, \<open>Session\<close> and \<open>System\<close> compose them: the
  locale \<open>upload_index\<close> proves upload and restore once; \<open>server_index\<close>, which extends \<open>dedup_index\<close> by the
  end of an upload, and \<open>segment_index\<close> are sublocales of it, and the five indexes interpret them.
  \<open>EnclaveLife\<close>: the ECALLs of \<open>storeECall.cc\<close> that start and end the enclave and make and delete the
  index object, with the start and the stop of \<open>dbeServer.cc\<close>. \<open>Sessions\<close>: uploads one after the other
  on one index; the locale \<open>lasting_index\<close> says what a session leaves behind for the next, and the five
  indexes interpret it. \<open>History\<close>: the dispatch of \<open>Ecall_ProcChunkBatch\<close> on the type of the index and the
  server machine, \<open>machine_run\<close> over any sequence of uploads and restarts. \<open>Login\<close>: the session key
  exchange of both sides, \<open>CheckFileStatus\<close>, the login of \<open>dbeClient.cc\<close> and its answer in
  \<open>serverOptThread.cc\<close>. \<open>Service\<close>: a connection from the key exchange to the last message, for an upload
  and for a restore.

  \<^bold>\<open>Baseline.\<close> The program in \<open>src/Baseline\<close>, with which the prototype is compared, encrypts before it
  deduplicates: the client derives a key for every chunk. \<open>Murmur\<close>: \<open>murmurHash.cc\<close>. \<open>KeyGen\<close>: \<open>plainDaE.cc\<close> and
  \<open>mleDaE.cc\<close>, and the locale \<open>dae\<close>, the contract of a scheme with its sender. \<open>KeyManager\<close>: \<open>tedDaE.cc\<close>,
  \<open>duplessDaE.cc\<close> with the key managers \<open>tedKM.cc\<close> and \<open>dupLESSKM.cc\<close>; all four schemes interpret \<open>dae\<close>.
  \<open>BaseClient\<close>: its \<open>dataSender.cc\<close> and \<open>dataRetriever.cc\<close>. \<open>BaseServer\<close>: its \<open>dataReceiver.cc\<close>, \<open>plainIndex.cc\<close>,
  \<open>absIndex.cc\<close>, \<open>storageCore.cc\<close>, \<open>storeOCall.cc\<close> and \<open>dataWriter.cc\<close>, a second instance of the contract \<open>chunk_store\<close>.
  \<open>BaseRestore\<close>: its \<open>recvDecoder.cc\<close>. \<open>Baseline\<close>: the choice of the method in \<open>daeClient.cc\<close>, a fifth interpretation of
  \<open>dae\<close>, and the upload and the restore put together.

  \<^bold>\<open>What is shown.\<close> A file that is uploaded and restored comes back, from the chunker to the writer
  (this theory), for every index and whatever was stored before; every batch keeps the invariants; the
  shortcut of the frequency-based index changes no result; the top-k index, the sketch, the cache, the
  databases and the sealed files do what their clients rely on; threads behind a queue compute what the
  sequential loop computes; the locks of the server exclude two sessions of one client and never
  deadlock; a server that is stopped and started again has its keys, index, statistics and store.
  After any history of uploads and restarts a connection that asks for a stored name gets the file that
  was last uploaded under it, and one that asks for another name is refused; client and enclave agree
  on the session key; the type of the index object never changes.
  In the baseline a file comes back too, whichever method makes the keys; the keys of DupLESS depend on the content
  of a chunk only, TED counts with a count-min sketch, and MurmurHash3 keeps inputs apart that differ in one block.
  Some theorems show where the code falls short: chunks stored raw that happen to decompress,
  chunks above the buffer size, connections that end early, an empty key in a database file, a heap of
  one entry, a read buffer below the chunk size, a second connection of a served client, two names of
  files with the same hashed string, a restore of the baseline that has no final message.

  \<^bold>\<open>Bounds.\<close> Sizes and counters have the width of the code. A heap has fewer than \<open>2 ^ 31\<close> entries,
  as its indices are 32-bit and doubled; a message of chunks has less than \<open>2 ^ 32\<close> bytes, as its header
  says; the container names that \<open>CreateUUID\<close> draws from \<open>rand()\<close> are assumed distinct from each other and
  from the stored ones for the chunks of an upload (\<open>fresh_ids\<close>), since the code does not check it; the
  segment indexes draw names for bins too and count three per chunk. The Extreme Binning index trusts
  that a known segment hash stands for the same segment, which \<open>extreme_safe\<close> states. Hashes
  are compared, so a restored chunk is known up to its fingerprint; \<open>no_collision\<close> says when that is
  equality.

  \<^bold>\<open>Not modelled.\<close> TLS connections, remote attestation and IAS, LZ4, the lock-free queues,
  LevelDB and OpenSSL are third-party code or wrappers around it; of the baseline, the parts that are
  copies of the prototype's and its logins are not repeated; time measurements (\<open>SGX_BREAKDOWN\<close>),
  logging, and the synthetic traces of the experiments are left out.
\<close>

section \<open>Uploads and restores\<close>





text \<open>
  Upload and restore through the in-enclave index: as for the frequency-based index, what the restore
  sends has, in order, exactly the fingerprints of what was uploaded.
\<close>

theorem in_enclave_upload_restore:
  assumes "in_inv C (length (concat css) + n) (x, s)" and "recipe_holds C h0 s []" and "length (fst h0) = 16"
    and "list_all2 (batch_of C s) ms css" and "\<forall>m \<in> set ms. messageType m = CLIENT_UPLOAD_CHUNK"
    and "\<forall>cs \<in> set css. \<forall>d \<in> set cs. chunk_ok C d" and "messageType em = CLIENT_UPLOAD_RECIPE_END"
    and "\<forall>f. can_open f" and "res_cfg C" and "key_ok key" and "0 < cacheN" and "cacheN < 2 ^ 32"
    and "\<forall>m. can_send m" and "messageType m = CLIENT_RESTORE_READY"
  shows "\<exists>r x' s' f t ds. DataReceiver_Run C (InEnclave_ProcessOneBatch C) (InEnclave_ProcessTailBatch C) can_open (ms @ [em]) (x, s) = Inr (r, x', s') \<and>
     finished r = Some f \<and>
     EnclaveRecvDecoder_Run C can_send (Some m) (drop 16 f)
       (restore_start C cacheN cid key (snd h0) (containerFiles (store s'))) = Inr t \<and>
     restored C key (sent t) ds \<and> map (chunk_fp C) ds = map (chunk_fp C) (concat css)"
  using in_server.upload_restore [of C css n "(x, s)" h0 ms em can_open key cacheN can_send m cid] assms by simp

theorem in_enclave_upload_restore_witness:
  "\<exists>r x' s' f t ds. DataReceiver_Run sample_cfg (InEnclave_ProcessOneBatch sample_cfg) (InEnclave_ProcessTailBatch sample_cfg) (\<lambda>f. True)
       ([sample_msg sample_chunks] @ [sample_end]) (Map.empty, sample_start) = Inr (r, x', s') \<and>
     finished r = Some f \<and>
     EnclaveRecvDecoder_Run sample_cfg (\<lambda>m. True) (Some sample_ready) (drop 16 f)
       (restore_start sample_cfg 4 1 (replicate 32 3) (snd sample_id) (containerFiles (store s'))) = Inr t \<and>
     restored sample_cfg (replicate 32 3) (sent t) ds \<and>
     map (chunk_fp sample_cfg) ds = map (chunk_fp sample_cfg) (concat [sample_chunks])"
  by (rule in_enclave_upload_restore [where n = 1])
    (simp_all add: sample_in_inv sample_chunks_length sample_batch sample_start_inv sample_chunks_ok sample_res_cfg sample_types
      key_ok_def const_defs)

text \<open>
  Upload and restore through the out-of-enclave index: as for the frequency-based index, what the restore
  sends has, in order, exactly the fingerprints of what was uploaded.
\<close>

theorem out_enclave_upload_restore:
  assumes "out_inv C (length (concat css) + n) s" and "recipe_holds C h0 s []" and "length (fst h0) = 16"
    and "list_all2 (batch_of C s) ms css" and "\<forall>m \<in> set ms. messageType m = CLIENT_UPLOAD_CHUNK"
    and "\<forall>cs \<in> set css. \<forall>d \<in> set cs. chunk_ok C d" and "messageType em = CLIENT_UPLOAD_RECIPE_END"
    and "\<forall>f. can_open f" and "res_cfg C" and "key_ok key" and "0 < cacheN" and "cacheN < 2 ^ 32"
    and "\<forall>m. can_send m" and "messageType m = CLIENT_RESTORE_READY"
  shows "\<exists>r x' s' f t ds. DataReceiver_Run C (out_batch C) (out_tail C) can_open (ms @ [em]) ((), s) = Inr (r, x', s') \<and>
     finished r = Some f \<and>
     EnclaveRecvDecoder_Run C can_send (Some m) (drop 16 f)
       (restore_start C cacheN cid key (snd h0) (containerFiles (store s'))) = Inr t \<and>
     restored C key (sent t) ds \<and> map (chunk_fp C) ds = map (chunk_fp C) (concat css)"
  using out_server.upload_restore [of C css n "((), s)" h0 ms em can_open key cacheN can_send m cid] assms by simp

theorem out_enclave_upload_restore_witness:
  "\<exists>r x' s' f t ds. DataReceiver_Run sample_cfg (out_batch sample_cfg) (out_tail sample_cfg) (\<lambda>f. True)
       ([sample_msg sample_chunks] @ [sample_end]) ((), sample_start) = Inr (r, x', s') \<and>
     finished r = Some f \<and>
     EnclaveRecvDecoder_Run sample_cfg (\<lambda>m. True) (Some sample_ready) (drop 16 f)
       (restore_start sample_cfg 4 1 (replicate 32 3) (snd sample_id) (containerFiles (store s'))) = Inr t \<and>
     restored sample_cfg (replicate 32 3) (sent t) ds \<and>
     map (chunk_fp sample_cfg) ds = map (chunk_fp sample_cfg) (concat [sample_chunks])"
  by (rule out_enclave_upload_restore [where n = 1])
    (simp_all add: sample_out_inv sample_chunks_length sample_batch sample_start_inv sample_chunks_ok sample_res_cfg sample_types
      key_ok_def const_defs)



section \<open>Chunks, containers and recipes\<close>

text \<open>
  (C18) Storing a unique chunk never faults, gives an address from which the chunk is read back
  (decompressed and decrypted), and no address that led to a chunk before changes its meaning, also
  when the container rolls over.
\<close>

theorem ProcessUniqueChunk_stores:
  assumes "store_inv C (Suc n) s" and "chunk_ok C d"
  shows "\<exists>a s'. ProcessUniqueChunk C d s = Inr (a, s') \<and> store_inv C n s' \<and> resolve C s' a = Some d \<and>
     (\<forall>b e. resolve C s b = Some e \<longrightarrow> resolve C s' b = Some e)"
  using containers.save_ok [OF assms] .

theorem ProcessUniqueChunk_stores_witness:
  "\<exists>a s'. ProcessUniqueChunk sample_cfg [1, 2, 3] sample_start = Inr (a, s') \<and> store_inv sample_cfg 3 s' \<and>
     resolve sample_cfg s' a = Some [1, 2, 3] \<and>
     (\<forall>b e. resolve sample_cfg sample_start b = Some e \<longrightarrow> resolve sample_cfg s' b = Some e)"
  using ProcessUniqueChunk_stores [of sample_cfg 3 sample_start "[1, 2, 3]"] sample_start_inv(1) sample_chunks_ok
  by (simp add: sample_chunks_def numeral_eq_Suc)



text \<open>
  (C37) A chunk that does not compress is stored as it is, and nothing records this: when its bytes
  happen to be a valid compressed block, the restore returns what they decompress to instead.
\<close>

theorem ProcessUniqueChunk_ambiguous:
  assumes inv: "store_inv C (Suc n) s" and d: "length d \<le> unat MAX_CHUNK_SIZE" "cfg_lz4c C d = []"
    and d': "cfg_lz4d C d = Some d'" "d' \<noteq> []" "length d' \<le> unat MAX_CHUNK_SIZE"
  shows "\<exists>a s'. ProcessUniqueChunk C d s = Inr (a, s') \<and> resolve C s' a = Some d'"
proof -
  let ?v = "PickNewIV (iv (sgx s))"
  let ?s2 = "s\<lparr>sgx := (sgx s)\<lparr>iv := ?v\<rparr>, stats := (stats s)\<lparr>compressedDataSize := compressedDataSize (stats s) + of_nat (length d)\<rparr>\<rparr>"
  from inv have C: "cfg_ok C" and ci: "container_inv s" and f: "fresh_ids C (Suc n) s" by (auto simp: store_inv_def)
  have v: "length ?v = CRYPTO_BLOCK_SIZE" using ci by (simp add: container_inv_def length_PickNewIV const_defs)
  have "iv_good (cfg_evp C) (enclaveKey C, ?v) d" using C v by (simp add: iv_good_def cfg_ok_def)
  from with_iv.encE [OF this, of "cfg_tool C"] obtain x
    where x: "Ecall_EncryptWithKeyIV (cfg_evp C) (cfg_tool C) d (enclaveKey C) ?v = Inr x" "length x = length d"
      "Ecall_DecryptionWithKeyIV (cfg_evp C) (cfg_tool C) x (enclaveKey C) ?v = Inr d"
    by auto
  have n: "cur_name ?s2 = cur_name s" by (simp add: cur_name_def)
  have "container_inv ?s2" using ci v n by (simp add: container_inv_def)
  moreover have "fresh_ids C (Suc n) ?s2" using f n by (subst fresh_ids_cong) (simp_all add: used_names_def)
  moreover have "length x \<le> unat MAX_CHUNK_SIZE" using x(2) d(1) by simp
  ultimately obtain a s' where sv: "SaveChunk C x ?s2 = (a, s')" "raw_at s' a = Some (x, iv (sgx ?s2))"
    using SaveChunk_ok by blast
  have "recover_chunk C x ?v = Inr d'" using x(3) d' by (simp add: recover_chunk_def)
  then have "resolve C s' a = Some d'" using sv(2) d'(3) by (simp add: resolve_def)
  moreover have "ProcessUniqueChunk C d s = Inr (a, s')"
    using x(1) d sv(1) by (simp add: ProcessUniqueChunk_def Let_def not_less)
  ultimately show ?thesis by blast
qed

theorem ProcessUniqueChunk_ambiguous_witness:
  "\<exists>a s'. ProcessUniqueChunk (sample_cfg\<lparr>cfg_lz4d := (\<lambda>p. Some [9])\<rparr>) [1, 2, 3] sample_start = Inr (a, s') \<and>
     resolve (sample_cfg\<lparr>cfg_lz4d := (\<lambda>p. Some [9])\<rparr>) s' a = Some [9]"
  using ProcessUniqueChunk_ambiguous [of _ 3 sample_start "[1, 2, 3]" "[9]", OF sample_store_inv_lz4 [of "\<lambda>p. Some [9]"]]
  by (simp add: sample_cfg_def const_defs)

text \<open>(C17) What a finished recipe file holds behind its head reads back, batch by batch, as the entries that were added.\<close>

theorem recipe_reads_back:
  assumes "cfg_ok C" and "recipe_of C s h0 es"
  shows "\<exists>s' f bss. tail_recipe C s = Inr s' \<and> recipeFile (outc s') = Some (fst h0 @ f) \<and>
     map (\<lambda>b. Ecall_DecryptWithKey (cfg_evp C) (cfg_tool C) b (snd h0))
       (read_batches (RecipeEntry_size * sendRecipeBatchSize C) f) = map (\<lambda>b. Inr (concat b)) bss \<and> concat bss = es"
proof -
  from assms(2) have k: "key_ok (snd h0)" by (auto simp: recipe_of_def recipe_rep_def)
  from tail_recipe_ok [OF assms] obtain s' f where
    s': "tail_recipe C s = Inr s'" "recipeFile (outc s') = Some (fst h0 @ f)" "file_rep C (snd h0) es f"
    by blast
  from read_batches_file_rep [OF assms(1) k s'(3)] obtain bss where
    b: "read_batches (RecipeEntry_size * sendRecipeBatchSize C) f = map (enc_batch C (snd h0)) bss" "concat bss = es"
    by blast
  have "Ecall_DecryptWithKey (cfg_evp C) (cfg_tool C) (enc_batch C (snd h0) b) (snd h0) = Inr (concat b)" for b
  proof -
    have "stream_good (cfg_evp C) (cfg_tool C) (snd h0) (concat b)" using assms(1) k by (simp add: stream_good_def cfg_ok_def)
    from with_key.dec_enc [OF this enc_batch_eq(1) [OF assms(1) k]] show ?thesis by simp
  qed
  with s' b show ?thesis by (auto intro!: exI [of _ bss])
qed

theorem recipe_reads_back_witness:
  "\<exists>s' f bss. tail_recipe sample_cfg sample_entry_state = Inr s' \<and> recipeFile (outc s') = Some (fst sample_id @ f) \<and>
     map (\<lambda>b. Ecall_DecryptWithKey (cfg_evp sample_cfg) (cfg_tool sample_cfg) b (snd sample_id))
       (read_batches (RecipeEntry_size * sendRecipeBatchSize sample_cfg) f) = map (\<lambda>b. Inr (concat b)) bss \<and>
     concat bss = [replicate 16 5]"
  by (rule recipe_reads_back [OF sample_cfg_ok sample_entry_recipe])

text \<open>
  (C16) A restore of a finished recipe whose addresses are on disk never faults; the client gets, in
  order, exactly the chunks the addresses stand for, in messages of at most \<open>sendChunkBatchSize\<close>
  chunks, all but the last marked \<open>SERVER_RESTORE_CHUNK\<close> and the last one \<open>SERVER_RESTORE_FINAL\<close>, for
  any size of the container cache.
\<close>

theorem restore_sends_chunks:
  assumes "res_cfg C" and "key_ok key" and "key_ok mk" and "0 < cacheN" and "cacheN < 2 ^ 32"
    and "\<forall>b \<in> ran fs. length b \<le> unat MAX_CONTAINER_SIZE" and "file_rep C mk (map RecipeEntry_bytes as) f"
    and "list_all2 (\<lambda>a d. wf_entry a \<and> chunk_in C fs a = Some d) as ds"
    and "\<forall>m. can_send m" and "messageType m = CLIENT_RESTORE_READY"
  shows "\<exists>t. EnclaveRecvDecoder_Run C can_send (Some m) f (restore_start C cacheN cid key mk fs) = Inr t \<and>
     restored C key (sent t) ds"
  using assms by (rule EnclaveRecvDecoder_Run_ok)

theorem restore_sends_chunks_witness:
  "\<exists>t. EnclaveRecvDecoder_Run sample_cfg (\<lambda>m. True) (Some sample_ready) (enc_batch sample_cfg (replicate 32 4) [RecipeEntry_bytes sample_addr])
       (restore_start sample_cfg 1 1 (replicate 32 3) (replicate 32 4) sample_disk) = Inr t \<and>
     restored sample_cfg (replicate 32 3) (sent t) [[1, 2, 3]]"
  by (rule restore_sends_chunks [where as = "[sample_addr]", OF _ _ _ _ _ sample_disk_ok])
    (simp_all add: sample_res_cfg sample_types key_ok_def const_defs sample_file_rep sample_addr_chunk)

section \<open>The frequency-based index\<close>

text \<open>
  (C12) The shortcut of the frequency-based index changes nothing: skipping the lookup of the chunks
  whose estimate is below the least frequency of a full top-k index gives the same flags, addresses
  and queries as looking every chunk up (\<open>minFreq\<close> = 0), as long as no counter of the sketch wraps.
\<close>

theorem freq_shortcut_equivalent:
  assumes "EntryHeap_inv h" and "freq_bounded S h" and "no_wrap S (length es)" and "Freq_minFreq C h = Inr m"
  shows "Freq_check C h m dn li qs (snd (Freq_sketch S es)) = Freq_check C h 0 dn li qs (snd (Freq_sketch S es))"
proof (rule Freq_check_shortcut [OF assms(1,4)], intro ballI allI impI)
  fix e a f
  assume "e \<in> set (snd (Freq_sketch S es))" and "heap_content h (iq_chunkHash e) = Some (a, f)"
  then show "f \<le> iq_chunkFreq e"
    using Freq_sketch_freq [OF assms(3)] assms(2) unfolding freq_bounded_def by (meson order_trans)
qed

theorem freq_shortcut_equivalent_witness:
  "Freq_check (sample_cfg\<lparr>topKParam := Suc 0\<rparr>) full_heap 2 [] Map.empty [] (snd (Freq_sketch sample_sketch [sample_query, sample_query])) =
   Freq_check (sample_cfg\<lparr>topKParam := Suc 0\<rparr>) full_heap 0 [] Map.empty [] (snd (Freq_sketch sample_sketch [sample_query, sample_query]))"
  by (rule freq_shortcut_equivalent) (simp_all add: full_heap sample_sketch)



text \<open>
  (C14) Adding a chunk to the top-k index never faults and never exceeds the parameter \<open>topKParam\<close> (of at
  least 2): the new chunk is in, and at most one other entry is lost, one of least frequency, and only
  when the index was full.
\<close>

theorem AddChunkToHeap_evicts_least:
  assumes "EntryHeap_inv h" and "EntryHeap_Size h \<le> topKParam C" and "2 \<le> topKParam C" and "topKParam C < heap_bound"
    and "heap_content h fp = None"
  shows "\<exists>h'. AddChunkToHeap C f a fp h = Inr h' \<and> EntryHeap_inv h' \<and> EntryHeap_Size h' \<le> topKParam C \<and>
     heap_content h' fp = Some (a, f) \<and> card (dom (heap_content h) - dom (heap_content h')) \<le> 1 \<and>
     (\<forall>k. k \<noteq> fp \<longrightarrow> heap_content h' k = heap_content h k \<or>
        EntryHeap_Size h = topKParam C \<and> heap_content h' k = None \<and>
        (\<exists>b m. heap_content h k = Some (b, m) \<and> EntryHeap_TopEntry h = Inr m))"
  using entry_heap.evict_add [OF assms(1,5,3,4,2), of "\<lparr>hi_address = a, chunkFreq = f, hi_idx = 0\<rparr>"]
  unfolding AddChunkToHeap_def by fastforce

theorem AddChunkToHeap_evicts_least_witness:
  "\<exists>h'. AddChunkToHeap sample_cfg 7 sample_addr [3] sample_heap = Inr h' \<and> EntryHeap_inv h' \<and>
     EntryHeap_Size h' \<le> topKParam sample_cfg \<and>
     heap_content h' [3] = Some (sample_addr, 7) \<and> card (dom (heap_content sample_heap) - dom (heap_content h')) \<le> 1 \<and>
     (\<forall>k. k \<noteq> [3] \<longrightarrow> heap_content h' k = heap_content sample_heap k \<or>
        EntryHeap_Size sample_heap = topKParam sample_cfg \<and> heap_content h' k = None \<and>
        (\<exists>b m. heap_content sample_heap k = Some (b, m) \<and> EntryHeap_TopEntry sample_heap = Inr m))"
  by (rule AddChunkToHeap_evicts_least [OF sample_heap_inv])
    (simp_all add: sample_heap_def EntryHeap_Size_def sample_cfg_def heap_bound_def heap_content_def)

end
